(* ===== verification/Rsurl_Prelude.thy ===== *)
theory Rsurl_Prelude
  imports Main "HOL-Library.Word"
begin

text \<open>
  Shared vocabulary of the development: machine integers and bytes, the crate's
  error type (\<open>src/src/error.rs\<close>), strings as their UTF-8 bytes, big-endian integers,
  positions in a slice, and the fragment of \<open>std::io::Read\<close> the protocol readers use.

  A Rust \<open>str\<close> is a \<^typ>\<open>string\<close>: its \<^typ>\<open>char\<close>s are the bytes of its UTF-8 form, so
  \<open>len\<close>, slicing and byte predicates are those of the source. A byte buffer is a list
  of 8-bit words; \<open>as_bytes\<close> and \<open>from_utf8\<close> go between the two. A formatted error message
  is modelled by its fixed text; interpolated values are left out.
\<close>

unbundle bit_operations_syntax

named_theorems rsurl_defs \<open>definitional unfoldings of small accessor functions\<close>

section \<open>Machine integers and the error type\<close>

type_synonym byte = "8 word"
type_synonym u16 = "16 word"
type_synonym u32 = "32 word"
type_synonym bytes = "byte list"

datatype io_kind = IoUnexpectedEof | IoInvalidData | IoInvalidInput | IoNotFound | IoInterrupted | IoOther

datatype error =
    InvalidUrl string
  | UnsupportedScheme string
  | Io io_kind
  | BadResponse string
  | UnexpectedEof
  | H2NotNegotiated
  | Ssh string
  | Decode string
  | Status nat string
  | Cancelled

type_synonym 'a result = "error + 'a"

abbreviation Ok :: "'a \<Rightarrow> 'e + 'a" where
  "Ok \<equiv> Inr"

abbreviation Err :: "'e \<Rightarrow> 'e + 'a" where
  "Err \<equiv> Inl"

text \<open>\<open>Result::and_then\<close>, the \<open>?\<close> operator of the source.\<close>

definition res_bind :: "'e + 'a \<Rightarrow> ('a \<Rightarrow> 'e + 'b) \<Rightarrow> 'e + 'b" where
  "res_bind r f = (case r of Inl e \<Rightarrow> Inl e | Inr x \<Rightarrow> f x)"

lemma res_bind_simps [simp]:
  "res_bind (Inl e) f = Inl e"
  "res_bind (Inr x) f = f x"
  by (simp_all add: res_bind_def)

lemma res_bind_Ok_iff: "res_bind r f = Inr y \<longleftrightarrow> (\<exists>x. r = Inr x \<and> f x = Inr y)"
  by (cases r) auto

lemma res_bind_OkE [elim!]:
  assumes "res_bind r f = Inr y"
  obtains x where "r = Inr x" and "f x = Inr y"
  using assms by (auto simp: res_bind_Ok_iff)

lemma res_bind_cong [fundef_cong]:
  "r = r' \<Longrightarrow> (\<And>x. r' = Inr x \<Longrightarrow> f x = g x) \<Longrightarrow> res_bind r f = res_bind r' g"
  by (cases r') auto

definition ok_or :: "'e \<Rightarrow> 'a option \<Rightarrow> 'e + 'a" where
  "ok_or e x = (case x of None \<Rightarrow> Inl e | Some y \<Rightarrow> Inr y)"

lemma ok_or_simps [simp]: "ok_or e None = Inl e" "ok_or e (Some y) = Inr y"
  by (simp_all add: ok_or_def)

lemma ok_or_Ok_iff [simp]: "ok_or e x = Inr y \<longleftrightarrow> x = Some y"
  by (cases x) auto

text \<open>Widths of the unsigned types held as natural numbers (\<open>usize\<close> is 64 bits).\<close>

abbreviation U16_MAX :: nat where "U16_MAX \<equiv> 65535"
abbreviation U32_MAX :: nat where "U32_MAX \<equiv> 4294967295"
abbreviation U64_MAX :: nat where "U64_MAX \<equiv> 18446744073709551615"

definition checked_add_u64 :: "nat \<Rightarrow> nat \<Rightarrow> nat option" where
  "checked_add_u64 a b = (if a + b \<le> U64_MAX then Some (a + b) else None)"

definition saturating_add_u64 :: "nat \<Rightarrow> nat \<Rightarrow> nat" where
  "saturating_add_u64 a b = min (a + b) U64_MAX"

definition div_ceil :: "nat \<Rightarrow> nat \<Rightarrow> nat" where
  "div_ceil a b = (if a mod b = 0 then a div b else a div b + 1)"

lemma div_ceil_0 [simp]: "div_ceil 0 b = 0"
  by (simp add: div_ceil_def)

lemma div_ceil_upper:
  assumes "0 < b"
  shows "a \<le> b * div_ceil a b"
proof (cases "a mod b = 0")
  case True
  then show ?thesis by (auto simp: div_ceil_def mod_eq_0_iff_dvd)
next
  case False
  have "b * (a div b) + a mod b = a" by simp
  moreover have "a mod b < b" using assms by simp
  ultimately have "a \<le> b * (a div b) + b" by linarith
  then show ?thesis using False by (simp add: div_ceil_def)
qed

lemma div_ceil_lower:
  assumes "0 < b" "0 < a"
  shows "b * (div_ceil a b - 1) < a"
proof (cases "a mod b = 0")
  case True
  with assms have "0 < a div b" by (auto simp: mod_eq_0_iff_dvd)
  then have "b * (a div b - 1) < b * (a div b)" using assms by simp
  also have "\<dots> \<le> a" by simp
  finally show ?thesis using True by (simp add: div_ceil_def)
next
  case False
  have "b * (a div b) + a mod b = a" by simp
  then have "b * (a div b) < a" using False by linarith
  with False show ?thesis by (simp add: div_ceil_def)
qed

section \<open>Positions in slices\<close>

text \<open>\<open>iter().position\<close> / \<open>str::find\<close> and \<open>str::rfind\<close> with a byte predicate.\<close>

fun position :: "('a \<Rightarrow> bool) \<Rightarrow> 'a list \<Rightarrow> nat option" where
  "position P [] = None"
| "position P (x # xs) = (if P x then Some 0 else map_option Suc (position P xs))"

definition rposition :: "('a \<Rightarrow> bool) \<Rightarrow> 'a list \<Rightarrow> nat option" where
  "rposition P xs = map_option (\<lambda>i. length xs - 1 - i) (position P (rev xs))"

lemma position_None_iff: "position P xs = None \<longleftrightarrow> (\<forall>x\<in>set xs. \<not> P x)"
  by (induction xs) auto

lemma position_SomeD:
  "position P xs = Some i \<Longrightarrow> i < length xs \<and> P (xs ! i) \<and> (\<forall>x\<in>set (take i xs). \<not> P x)"
  by (induction xs arbitrary: i) (auto split: if_splits)

lemma position_append:
  "position P (xs @ ys) =
     (case position P xs of Some i \<Rightarrow> Some i | None \<Rightarrow> map_option (\<lambda>j. length xs + j) (position P ys))"
proof (induction xs)
  case Nil
  show ?case by (cases "position P ys") simp_all
next
  case (Cons x xs)
  then show ?case by (cases "position P ys") (auto split: option.splits)
qed

lemma position_append_hit:
  "\<forall>x\<in>set xs. \<not> P x \<Longrightarrow> P y \<Longrightarrow> position P (xs @ y # ys) = Some (length xs)"
  by (induction xs) auto

lemma rposition_None_iff: "rposition P xs = None \<longleftrightarrow> (\<forall>x\<in>set xs. \<not> P x)"
  by (simp add: rposition_def position_None_iff)

lemma rposition_append_hit:
  "\<forall>x\<in>set ys. \<not> P x \<Longrightarrow> P y \<Longrightarrow> rposition P (xs @ y # ys) = Some (length xs)"
  by (simp add: rposition_def position_append_hit)

lemma rposition_SomeD:
  assumes "rposition P xs = Some i"
  shows "i < length xs \<and> P (xs ! i) \<and> (\<forall>x\<in>set (drop (Suc i) xs). \<not> P x)"
proof -
  from assms obtain j where j: "position P (rev xs) = Some j" and i: "i = length xs - 1 - j"
    by (auto simp: rposition_def)
  from position_SomeD [OF j] have "j < length xs" "P (rev xs ! j)"
    and none: "\<forall>x\<in>set (take j (rev xs)). \<not> P x" by auto
  moreover from \<open>j < length xs\<close> have "drop (Suc i) xs = rev (take j (rev xs))"
    using i by (simp add: take_rev Suc_diff_Suc)
  ultimately show ?thesis using i by (auto simp: rev_nth)
qed

lemma split_at_position:
  assumes "i < length xs"
  shows "xs = take i xs @ xs ! i # drop (Suc i) xs"
  using assms by (rule id_take_nth_drop)

lemma list_of_length_2: "length xs = 2 \<Longrightarrow> \<exists>a b. xs = [a, b]"
  by (auto simp: numeral_2_eq_2 length_Suc_conv)

lemma list_of_length_4: "length xs = 4 \<Longrightarrow> \<exists>a b c d. xs = [a, b, c, d]"
  by (auto simp: eval_nat_numeral length_Suc_conv)

section \<open>Bytes and strings\<close>

definition byte_of_char :: "char \<Rightarrow> byte" where
  "byte_of_char c = word_of_nat (of_char c)"

definition char_of_byte :: "byte \<Rightarrow> char" where
  "char_of_byte b = char_of (unat b)"

lemma char_of_byte_of_char [simp]: "char_of_byte (byte_of_char c) = c"
  by (simp add: char_of_byte_def byte_of_char_def unat_of_nat char_of_mod_256)

lemma byte_of_char_of_byte [simp]: "byte_of_char (char_of_byte b) = b"
proof -
  have "unat b < 256" using unsigned_less [of b] by simp
  then show ?thesis by (simp add: char_of_byte_def byte_of_char_def)
qed

lemma byte_of_char_eq_iff [simp]: "byte_of_char c = byte_of_char d \<longleftrightarrow> c = d"
  by (metis char_of_byte_of_char)

definition as_bytes :: "string \<Rightarrow> bytes" where
  "as_bytes s = map byte_of_char s"

lemma as_bytes_simps [simp]:
  "as_bytes [] = []"
  "as_bytes (c # s) = byte_of_char c # as_bytes s"
  "as_bytes (s @ t) = as_bytes s @ as_bytes t"
  "length (as_bytes s) = length s"
  by (simp_all add: as_bytes_def)

lemma as_bytes_eq_iff [simp]: "as_bytes s = as_bytes t \<longleftrightarrow> s = t"
  unfolding as_bytes_def by (rule inj_map_eq_map) (simp add: inj_def)

text \<open>
  \<open>core::str::from_utf8\<close>: well-formed UTF-8 by the byte ranges of the Unicode standard,
  table 3-7.
\<close>

definition cont_byte :: "byte \<Rightarrow> bool" where
  "cont_byte b \<longleftrightarrow> 0x80 \<le> b \<and> b \<le> 0xBF"

fun utf8_valid :: "bytes \<Rightarrow> bool" where
  "utf8_valid [] = True"
| "utf8_valid (a # bs) =
     (if a < 0x80 then utf8_valid bs
      else if 0xC2 \<le> a \<and> a \<le> 0xDF then
        (case bs of b # r \<Rightarrow> cont_byte b \<and> utf8_valid r | _ \<Rightarrow> False)
      else if 0xE0 \<le> a \<and> a \<le> 0xEF then
        (case bs of b # c # r \<Rightarrow>
           cont_byte b \<and> (a = 0xE0 \<longrightarrow> 0xA0 \<le> b) \<and> (a = 0xED \<longrightarrow> b \<le> 0x9F) \<and>
           cont_byte c \<and> utf8_valid r
         | _ \<Rightarrow> False)
      else if 0xF0 \<le> a \<and> a \<le> 0xF4 then
        (case bs of b # c # d # r \<Rightarrow>
           cont_byte b \<and> (a = 0xF0 \<longrightarrow> 0x90 \<le> b) \<and> (a = 0xF4 \<longrightarrow> b \<le> 0x8F) \<and>
           cont_byte c \<and> cont_byte d \<and> utf8_valid r
         | _ \<Rightarrow> False)
      else False)"

definition from_utf8 :: "bytes \<Rightarrow> string option" where
  "from_utf8 bs = (if utf8_valid bs then Some (map char_of_byte bs) else None)"

text \<open>A \<^typ>\<open>string\<close> that a Rust \<open>str\<close> can hold.\<close>

definition is_str :: "string \<Rightarrow> bool" where
  "is_str s \<longleftrightarrow> utf8_valid (as_bytes s)"

lemma from_utf8_as_bytes [simp]: "is_str s \<Longrightarrow> from_utf8 (as_bytes s) = Some s"
  by (simp add: from_utf8_def is_str_def as_bytes_def o_def)

lemma from_utf8_SomeD: "from_utf8 bs = Some s \<Longrightarrow> as_bytes s = bs \<and> is_str s"
  by (auto simp: from_utf8_def is_str_def as_bytes_def o_def split: if_splits)

lemma utf8_valid_ascii: "\<forall>b\<in>set bs. b < 0x80 \<Longrightarrow> utf8_valid bs"
  by (induction bs) auto

text \<open>\<open>u8::is_ascii_digit\<close> and the other ASCII classes, on characters.\<close>

definition is_ascii_digit :: "char \<Rightarrow> bool" where
  "is_ascii_digit c \<longleftrightarrow> 48 \<le> (of_char c :: nat) \<and> (of_char c :: nat) \<le> 57"

definition is_ascii_lowercase :: "char \<Rightarrow> bool" where
  "is_ascii_lowercase c \<longleftrightarrow> 97 \<le> (of_char c :: nat) \<and> (of_char c :: nat) \<le> 122"

definition is_ascii_uppercase :: "char \<Rightarrow> bool" where
  "is_ascii_uppercase c \<longleftrightarrow> 65 \<le> (of_char c :: nat) \<and> (of_char c :: nat) \<le> 90"

definition is_ascii_alphanumeric :: "char \<Rightarrow> bool" where
  "is_ascii_alphanumeric c \<longleftrightarrow> is_ascii_digit c \<or> is_ascii_lowercase c \<or> is_ascii_uppercase c"

section \<open>Big-endian integers\<close>

fun be_bytes :: "nat \<Rightarrow> nat \<Rightarrow> bytes" where
  "be_bytes 0 k = []"
| "be_bytes (Suc n) k = be_bytes n (k div 256) @ [word_of_nat k]"

definition be_val :: "bytes \<Rightarrow> nat" where
  "be_val bs = foldl (\<lambda>a b. a * 256 + unat b) 0 bs"

lemma length_be_bytes [simp]: "length (be_bytes n k) = n"
  by (induction n arbitrary: k) auto

lemma be_val_simps [simp]:
  "be_val [] = 0"
  "be_val (bs @ [b]) = be_val bs * 256 + unat b"
  by (simp_all add: be_val_def)

lemma be_val_be_bytes: "be_val (be_bytes n k) = k mod 256 ^ n"
proof (induction n arbitrary: k)
  case (Suc n)
  have "be_val (be_bytes (Suc n) k) = (k div 256) mod 256 ^ n * 256 + k mod 256"
    by (simp add: Suc unat_of_nat)
  also have "\<dots> = k mod 256 ^ Suc n"
    by (simp add: mod_mult2_eq [of k 256 "256 ^ n"] mult.commute)
  finally show ?case .
qed simp

lemma be_val_less: "be_val bs < 256 ^ length bs"
proof (induction bs rule: rev_induct)
  case (snoc b bs)
  have "unat b < 256" using unsigned_less [of b] by simp
  with snoc show ?case by simp
qed simp

lemma be_bytes_be_val: "be_bytes (length bs) (be_val bs) = bs"
proof (induction bs rule: rev_induct)
  case (snoc b bs)
  have u: "unat b < 256" using unsigned_less [of b] by simp
  have "word_of_nat (be_val bs * 256 + unat b) = b"
    by (rule word_unat_eq_iff [THEN iffD2], subst unat_of_nat) (use u in simp)
  with snoc u show ?case by simp
qed simp

definition u16_to_be_bytes :: "u16 \<Rightarrow> bytes" where
  "u16_to_be_bytes w = be_bytes 2 (unat w)"

definition u16_from_be_bytes :: "bytes \<Rightarrow> u16" where
  "u16_from_be_bytes bs = word_of_nat (be_val bs)"

definition u32_to_be_bytes :: "u32 \<Rightarrow> bytes" where
  "u32_to_be_bytes w = be_bytes 4 (unat w)"

definition u32_from_be_bytes :: "bytes \<Rightarrow> u32" where
  "u32_from_be_bytes bs = word_of_nat (be_val bs)"

lemma length_uN_to_be_bytes [simp]:
  "length (u16_to_be_bytes w) = 2" "length (u32_to_be_bytes v) = 4"
  by (simp_all add: u16_to_be_bytes_def u32_to_be_bytes_def)

lemma u16_be_roundtrip [simp]: "u16_from_be_bytes (u16_to_be_bytes w) = w"
  using unsigned_less [of w, where ?'a = nat]
  by (simp add: u16_from_be_bytes_def u16_to_be_bytes_def be_val_be_bytes)

lemma u32_be_roundtrip [simp]: "u32_from_be_bytes (u32_to_be_bytes w) = w"
  using unsigned_less [of w, where ?'a = nat]
  by (simp add: u32_from_be_bytes_def u32_to_be_bytes_def be_val_be_bytes)

lemma u32_be_roundtrip_bytes: "length bs = 4 \<Longrightarrow> u32_to_be_bytes (u32_from_be_bytes bs) = bs"
  using be_val_less [of bs] be_bytes_be_val [of bs]
  by (simp add: u32_from_be_bytes_def u32_to_be_bytes_def unat_of_nat)

section \<open>Reading a byte stream\<close>

text \<open>
  A \<open>Read\<close> source is the list of the bytes it still delivers before end of file;
  \<open>read_exact\<close> takes them off the front or fails with \<open>UnexpectedEof\<close>.
\<close>

definition read_exact :: "nat \<Rightarrow> bytes \<Rightarrow> io_kind + (bytes \<times> bytes)" where
  "read_exact n r = (if length r < n then Inl IoUnexpectedEof else Inr (take n r, drop n r))"

lemma read_exact_append [simp]: "length xs = n \<Longrightarrow> read_exact n (xs @ r) = Inr (xs, r)"
  by (auto simp: read_exact_def)

lemma read_exact_OkD: "read_exact n r = Inr (xs, r') \<Longrightarrow> r = xs @ r' \<and> length xs = n"
  by (auto simp: read_exact_def split: if_splits)

lemma read_exact_0 [simp]: "read_exact 0 r = Inr ([], r)"
  by (simp add: read_exact_def)

end
