(* ===== verification/Codec.thy ===== *)
theory Codec
  imports Rsurl_Prelude
begin

text \<open>
  The contract every self-delimiting wire format of the program has: reading what was
  written gives the message back and leaves the rest of the stream untouched. The lemmas
  that follow from it (sequences of messages, unique parsing) are proved here once; the
  HTTP/2 frame layer, the HPACK strings, the BitTorrent peer messages and the bencode
  values are instances.
\<close>

text \<open>Reading a given number of messages off a stream, one after the other.\<close>

fun read_n :: "(bytes \<Rightarrow> 'e + ('a \<times> bytes)) \<Rightarrow> nat \<Rightarrow> bytes \<Rightarrow> 'e + ('a list \<times> bytes)" where
  "read_n dec 0 r = Inr ([], r)"
| "read_n dec (Suc n) r =
     res_bind (dec r) (\<lambda>(x, r'). res_bind (read_n dec n r') (\<lambda>(xs, r''). Inr (x # xs, r'')))"

locale stream_codec =
  fixes enc :: "'a \<Rightarrow> bytes"
    and dec :: "bytes \<Rightarrow> 'e + ('a \<times> bytes)"
    and valid :: "'a \<Rightarrow> bool"
  assumes dec_enc: "valid x \<Longrightarrow> dec (enc x @ r) = Inr (x, r)"
begin

lemma read_n_concat:
  "list_all valid xs \<Longrightarrow> read_n dec (length xs) (concat (map enc xs) @ r) = Inr (xs, r)"
  by (induction xs) (simp_all add: dec_enc)

lemma unique_parse:
  assumes "valid x" "valid y" "enc x @ r = enc y @ s"
  shows "x = y \<and> r = s"
proof -
  have "Inr (x, r) = dec (enc y @ s)"
    using dec_enc [OF assms(1), of r] unfolding assms(3) by (rule sym)
  then show ?thesis unfolding dec_enc [OF assms(2)] by simp
qed

lemma enc_inj: "valid x \<Longrightarrow> valid y \<Longrightarrow> enc x = enc y \<Longrightarrow> x = y"
  using unique_parse [of x y "[]" "[]"] by simp

lemma prefix_free: "valid x \<Longrightarrow> valid y \<Longrightarrow> enc x @ r = enc y \<Longrightarrow> x = y \<and> r = []"
  using unique_parse [of x y r "[]"] by simp

lemma concat_unique_parse:
  assumes "list_all valid xs" "list_all valid ys" "length xs = length ys"
    and "concat (map enc xs) @ r = concat (map enc ys) @ s"
  shows "xs = ys \<and> r = s"
proof -
  have "Inr (xs, r) = read_n dec (length ys) (concat (map enc ys) @ s)"
    using read_n_concat [OF assms(1), of r] unfolding assms(3,4) by (rule sym)
  then show ?thesis unfolding read_n_concat [OF assms(2)] by simp
qed

end

end
