(* ===== verification/H2_Frame.thy ===== *)
theory H2_Frame
  imports Codec
begin

text \<open>
  The HTTP/2 frame layer of \<open>src/src/http2.rs\<close>: frame and flag constants, \<open>Frame\<close>,
  \<open>read_frame\<close>, \<open>write_frame\<close>, the WINDOW_UPDATE helpers, the HEADERS/CONTINUATION
  splitter and the DATA chunk clamp.
\<close>

section \<open>Constants and frames\<close>

abbreviation (input) F_DATA :: byte where "F_DATA \<equiv> 0"
abbreviation (input) F_HEADERS :: byte where "F_HEADERS \<equiv> 1"
abbreviation (input) F_PRIORITY :: byte where "F_PRIORITY \<equiv> 2"
abbreviation (input) F_RST_STREAM :: byte where "F_RST_STREAM \<equiv> 3"
abbreviation (input) F_SETTINGS :: byte where "F_SETTINGS \<equiv> 4"
abbreviation (input) F_PUSH_PROMISE :: byte where "F_PUSH_PROMISE \<equiv> 5"
abbreviation (input) F_PING :: byte where "F_PING \<equiv> 6"
abbreviation (input) F_GOAWAY :: byte where "F_GOAWAY \<equiv> 7"
abbreviation (input) F_WINDOW_UPDATE :: byte where "F_WINDOW_UPDATE \<equiv> 8"
abbreviation (input) F_CONTINUATION :: byte where "F_CONTINUATION \<equiv> 9"

abbreviation (input) FLAG_END_STREAM :: byte where "FLAG_END_STREAM \<equiv> 0x01"
abbreviation (input) FLAG_ACK :: byte where "FLAG_ACK \<equiv> 0x01"
abbreviation (input) FLAG_END_HEADERS :: byte where "FLAG_END_HEADERS \<equiv> 0x04"
abbreviation (input) FLAG_PADDED :: byte where "FLAG_PADDED \<equiv> 0x08"
abbreviation (input) FLAG_PRIORITY :: byte where "FLAG_PRIORITY \<equiv> 0x20"

abbreviation (input) INITIAL_WINDOW_SIZE_MAX :: u32 where "INITIAL_WINDOW_SIZE_MAX \<equiv> 0x7fffffff"
abbreviation (input) MAX_FRAME_SIZE_MIN :: u32 where "MAX_FRAME_SIZE_MIN \<equiv> 16384"
abbreviation (input) MAX_FRAME_SIZE_MAX :: u32 where "MAX_FRAME_SIZE_MAX \<equiv> 16777215"
abbreviation (input) MAX_FRAME_PAYLOAD :: nat where "MAX_FRAME_PAYLOAD \<equiv> 1048576"
abbreviation (input) OUR_MAX_FRAME_SIZE :: nat where "OUR_MAX_FRAME_SIZE \<equiv> 16384"

record frame =
  ftyp :: byte
  flags :: byte
  stream_id :: u32
  payload :: bytes

definition read_frame :: "bytes \<Rightarrow> io_kind + (frame \<times> bytes)" where
  "read_frame r =
     res_bind (read_exact 9 r) (\<lambda>(hdr, r1).
       let length' = be_val [0, hdr ! 0, hdr ! 1, hdr ! 2];
           sid = u32_from_be_bytes [hdr ! 5, hdr ! 6, hdr ! 7, hdr ! 8] AND 0x7fffffff
       in if length' > OUR_MAX_FRAME_SIZE then Err IoInvalidData
          else res_bind (if length' > 0 then read_exact length' r1 else Ok ([], r1)) (\<lambda>(pl, r2).
            Ok (\<lparr>ftyp = hdr ! 3, flags = hdr ! 4, stream_id = sid, payload = pl\<rparr>, r2)))"

text \<open>The bytes \<open>write_frame_parts\<close> puts on the wire.\<close>

definition write_frame_parts :: "byte \<Rightarrow> byte \<Rightarrow> u32 \<Rightarrow> bytes \<Rightarrow> io_kind + bytes" where
  "write_frame_parts ty fl sid0 pl =
     (if length pl > MAX_FRAME_PAYLOAD then Err IoInvalidInput
      else let len = u32_to_be_bytes (word_of_nat (length pl));
               sid = u32_to_be_bytes (sid0 AND 0x7fffffff);
               hdr = [len ! 1, len ! 2, len ! 3, ty, fl, sid ! 0, sid ! 1, sid ! 2, sid ! 3]
           in Ok (hdr @ pl))"

definition write_frame :: "frame \<Rightarrow> io_kind + bytes" where
  "write_frame f = write_frame_parts (ftyp f) (flags f) (stream_id f) (payload f)"

definition window_update_frame :: "u32 \<Rightarrow> u32 \<Rightarrow> frame" where
  "window_update_frame sid increment =
     \<lparr>ftyp = F_WINDOW_UPDATE, flags = 0, stream_id = sid,
      payload = u32_to_be_bytes (increment AND 0x7fffffff)\<rparr>"

definition parse_window_update :: "bytes \<Rightarrow> u32 result" where
  "parse_window_update pl =
     (if length pl \<noteq> 4 then Err (BadResponse ''WINDOW_UPDATE payload length'')
      else Ok (u32_from_be_bytes pl AND 0x7fffffff))"

text \<open>A frame this client may receive: reserved bit clear, payload within the limit.\<close>

definition frame_ok :: "frame \<Rightarrow> bool" where
  "frame_ok f \<longleftrightarrow> stream_id f AND 0x7fffffff = stream_id f \<and> length (payload f) \<le> OUR_MAX_FRAME_SIZE"

text \<open>The bytes of a frame the writer accepts.\<close>

definition frame_bytes :: "frame \<Rightarrow> bytes" where
  "frame_bytes f = (case write_frame f of Inr bs \<Rightarrow> bs | Inl _ \<Rightarrow> [])"

section \<open>Splitting a header block and a body\<close>

text \<open>\<open>slice::chunks\<close>.\<close>

function chunks :: "nat \<Rightarrow> 'a list \<Rightarrow> 'a list list" where
  "chunks n xs = (if xs = [] \<or> n = 0 then [] else take n xs # chunks n (drop n xs))"
  by pat_completeness auto
termination
  by (relation "measure (\<lambda>(n, xs). length xs)") auto

declare chunks.simps [simp del]

definition headers_fragment :: "u32 \<Rightarrow> bool \<Rightarrow> nat \<Rightarrow> nat \<Rightarrow> bytes \<Rightarrow> frame" where
  "headers_fragment sid end_stream total_chunks i chunk =
     (let is_last = (i + 1 = total_chunks)
      in if i = 0 then
           \<lparr>ftyp = F_HEADERS,
            flags = (if end_stream then FLAG_END_STREAM else 0) OR (if is_last then FLAG_END_HEADERS else 0),
            stream_id = sid, payload = chunk\<rparr>
         else
           \<lparr>ftyp = F_CONTINUATION, flags = (if is_last then FLAG_END_HEADERS else 0),
            stream_id = sid, payload = chunk\<rparr>)"

definition fragment_header_block :: "u32 \<Rightarrow> bytes \<Rightarrow> nat \<Rightarrow> bool \<Rightarrow> frame list" where
  "fragment_header_block sid header_block max_frame_size end_stream =
     (if header_block = [] then
        [\<lparr>ftyp = F_HEADERS,
          flags = FLAG_END_HEADERS OR (if end_stream then FLAG_END_STREAM else 0),
          stream_id = sid, payload = []\<rparr>]
      else let total_chunks = div_ceil (length header_block) max_frame_size
           in map (\<lambda>(i, chunk). headers_fragment sid end_stream total_chunks i chunk)
                (enumerate 0 (chunks max_frame_size header_block)))"

definition next_data_chunk_size :: "nat \<Rightarrow> int \<Rightarrow> nat \<Rightarrow> nat" where
  "next_data_chunk_size max_frame_size available remaining =
     (if available \<le> 0 then 0
      else nat (min (min available (int remaining)) (int max_frame_size)))"

section \<open>Lemmas\<close>

lemma be_bytes_4: "be_bytes 4 n =
    [word_of_nat (n div 256 div 256 div 256), word_of_nat (n div 256 div 256),
     word_of_nat (n div 256), word_of_nat n]"
proof -
  have four: "4 = Suc (Suc (Suc (Suc 0)))" by simp
  show ?thesis unfolding four by (simp only: be_bytes.simps append.simps)
qed

lemma be_val_leading_0 [simp]: "be_val (0 # bs) = be_val bs"
  by (simp add: be_val_def)

lemma length_u32_be_nth: "[u32_to_be_bytes w ! 0, u32_to_be_bytes w ! 1, u32_to_be_bytes w ! 2,
    u32_to_be_bytes w ! 3] = u32_to_be_bytes w"
  by (simp add: u32_to_be_bytes_def be_bytes_4)

lemma frame_length_field:
  assumes "n < 16777216"
  defines "l \<equiv> u32_to_be_bytes (word_of_nat n)"
  shows "be_val [0, l ! 1, l ! 2, l ! 3] = n"
proof -
  have "l ! 0 = 0"
    using assms(1) by (simp add: l_def u32_to_be_bytes_def be_bytes_4 unat_of_nat)
  with length_u32_be_nth [of "word_of_nat n"] have "[0, l ! 1, l ! 2, l ! 3] = l"
    by (simp add: l_def)
  then show ?thesis
    using assms(1) by (simp add: l_def u32_to_be_bytes_def be_val_be_bytes unat_of_nat)
qed

lemma mask31_idem [simp]: "((w :: u32) AND 0x7fffffff) AND 0x7fffffff = w AND 0x7fffffff"
  by (simp add: and.assoc)

lemma read_frame_write_frame_parts:
  assumes "length pl \<le> OUR_MAX_FRAME_SIZE" "write_frame_parts ty fl sid pl = Ok bs"
  shows "read_frame (bs @ r) =
    Ok (\<lparr>ftyp = ty, flags = fl, stream_id = sid AND 0x7fffffff, payload = pl\<rparr>, r)"
proof -
  define len where "len = u32_to_be_bytes (word_of_nat (length pl))"
  define sd where "sd = u32_to_be_bytes (sid AND 0x7fffffff)"
  define hdr where "hdr = [len ! 1, len ! 2, len ! 3, ty, fl, sd ! 0, sd ! 1, sd ! 2, sd ! 3]"
  have bs: "bs = hdr @ pl"
    using assms by (simp add: write_frame_parts_def hdr_def len_def sd_def Let_def)
  have 1: "be_val [0, hdr ! 0, hdr ! 1, hdr ! 2] = length pl"
    using frame_length_field [of "length pl"] assms(1) by (simp add: hdr_def len_def)
  have 2: "u32_from_be_bytes [hdr ! 5, hdr ! 6, hdr ! 7, hdr ! 8] = sid AND 0x7fffffff"
    using length_u32_be_nth [of "sid AND 0x7fffffff"] by (simp add: hdr_def sd_def)
  have 3: "read_exact 9 (hdr @ pl @ r) = Ok (hdr, pl @ r)"
    by (rule read_exact_append) (simp add: hdr_def)
  have 4: "hdr ! 3 = ty" "hdr ! 4 = fl" by (simp_all add: hdr_def)
  show ?thesis
    using assms(1) by (simp add: bs read_frame_def 3 1 [simplified] 2 4 Let_def)
qed

lemma write_frame_ok: "frame_ok f \<Longrightarrow> \<exists>bs. write_frame f = Ok bs"
  by (simp add: frame_ok_def write_frame_def write_frame_parts_def Let_def)

interpretation h2_frames: stream_codec frame_bytes read_frame frame_ok
proof unfold_locales
  fix f r
  assume ok: "frame_ok f"
  then obtain bs where bs: "write_frame f = Ok bs" using write_frame_ok by blast
  have "read_frame (bs @ r) = Ok (f, r)"
    using read_frame_write_frame_parts [of "payload f" "ftyp f" "flags f" "stream_id f" bs r] ok bs
    by (simp add: frame_ok_def write_frame_def)
  then show "read_frame (frame_bytes f @ r) = Ok (f, r)" by (simp add: frame_bytes_def bs)
qed

lemma read_frame_OkD:
  assumes "read_frame r = Ok (f, r')"
  shows "frame_ok f \<and> length r' < length r"
proof -
  from assms obtain hdr r1 where h: "read_exact 9 r = Ok (hdr, r1)"
    by (auto simp: read_frame_def)
  from read_exact_OkD [OF h] have r: "r = hdr @ r1" "length hdr = 9" by auto
  show ?thesis
    using assms
    by (auto simp: read_frame_def h r frame_ok_def Let_def and.assoc split: if_splits
        dest: read_exact_OkD)
qed

lemma parse_window_update_frame:
  "parse_window_update (payload (window_update_frame sid inc)) = Ok (inc AND 0x7fffffff)"
  by (simp add: parse_window_update_def window_update_frame_def)

subsection \<open>Chunks\<close>

lemma chunks_Nil [simp]: "chunks n [] = []"
  by (simp add: chunks.simps)

lemma concat_chunks: "0 < n \<Longrightarrow> concat (chunks n xs) = xs"
  by (induction n xs rule: chunks.induct) (subst chunks.simps, auto)

lemma chunks_bounds: "c \<in> set (chunks n xs) \<Longrightarrow> 0 < length c \<and> length c \<le> n"
proof (induction n xs rule: chunks.induct)
  case (1 n xs)
  then show ?case
    by (cases "xs = [] \<or> n = 0") (auto simp: chunks.simps [of n xs])
qed

lemma length_chunks: "0 < n \<Longrightarrow> length (chunks n xs) = div_ceil (length xs) n"
proof (induction n xs rule: chunks.induct)
  case (1 n xs)
  show ?case
  proof (cases "xs = []")
    case False
    with 1 have "length (chunks n xs) = Suc (div_ceil (length xs - n) n)"
      by (simp add: chunks.simps [of n xs])
    also have "\<dots> = div_ceil (length xs) n"
    proof (cases "length xs < n")
      case True
      with False 1 show ?thesis by (simp add: div_ceil_def)
    next
      case False
      then obtain k where "length xs = n + k" using le_Suc_ex not_le by metis
      with 1 show ?thesis by (simp add: div_ceil_def div_add_self1)
    qed
    finally show ?thesis .
  qed simp
qed

subsection \<open>Header block fragments\<close>

lemma fragment_header_block_nth:
  assumes "b \<noteq> []" "0 < m" "i < length (fragment_header_block sid b m es)"
  shows "fragment_header_block sid b m es ! i =
    headers_fragment sid es (length (fragment_header_block sid b m es)) i (chunks m b ! i)"
  using assms by (simp add: fragment_header_block_def length_chunks Let_def nth_enumerate_eq)

lemma payloads_fragment_header_block:
  assumes "0 < m"
  shows "concat (map payload (fragment_header_block sid b m es)) = b"
proof -
  have "payload (headers_fragment sid es t i c) = c" for t i c
    by (simp add: headers_fragment_def Let_def)
  then have "map payload (map (\<lambda>(i, c). headers_fragment sid es t i c) (enumerate k cs)) = cs" for t k cs
    by (simp add: case_prod_unfold comp_def flip: map_map) (simp add: comp_def case_prod_unfold)
  with assms show ?thesis by (simp add: fragment_header_block_def concat_chunks Let_def)
qed

lemma length_fragment_header_block:
  "0 < m \<Longrightarrow> length (fragment_header_block sid b m es) = max 1 (div_ceil (length b) m)"
  by (cases b) (auto simp: fragment_header_block_def length_chunks Let_def div_ceil_def max_def
      div_greater_zero_iff Suc_le_eq dest: dvd_imp_le)

lemma or_flags [simp]:
  "(1 :: byte) OR 4 = 5" "(4 :: byte) OR 1 = 5" "(5 :: byte) AND 4 = 4" "(5 :: byte) AND 1 = 1"
  "(4 :: byte) AND 1 = 0" "(1 :: byte) AND 4 = 0"
  by simp_all

section \<open>Properties\<close>

text \<open>
  The frame layer is a lossless stream codec: any sequence of well-formed frames written
  one after the other reads back as exactly that sequence, and the reader stops exactly at the
  bytes that follow it.
\<close>

theorem frame_stream_roundtrip:
  assumes "\<forall>f\<in>set fs. frame_ok f"
  shows "read_n read_frame (length fs) (concat (map frame_bytes fs) @ r) = Ok (fs, r)"
  using assms by (intro h2_frames.read_n_concat) (simp add: list_all_iff)

lemma frame_stream_roundtrip_witness:
  "read_n read_frame (Suc (Suc 0)) (concat (map frame_bytes
      [\<lparr>ftyp = 6, flags = 0, stream_id = 0, payload = [1, 2, 3, 4, 5, 6, 7, 8]\<rparr>,
       window_update_frame 3 65535]) @ [9, 9]) =
   Ok ([\<lparr>ftyp = 6, flags = 0, stream_id = 0, payload = [1, 2, 3, 4, 5, 6, 7, 8]\<rparr>,
        window_update_frame 3 65535], [9, 9])"
  using frame_stream_roundtrip [of "[\<lparr>ftyp = 6, flags = 0, stream_id = 0, payload = [1, 2, 3, 4, 5, 6, 7, 8]\<rparr>,
       window_update_frame 3 65535]" "[9, 9]"]
  by (simp add: frame_ok_def window_update_frame_def)

text \<open>
  Whatever bytes the peer sends, a frame that \<open>read_frame\<close> accepts has the reserved bit of
  its stream id cleared and a payload of at most 16384 bytes, and reading it consumed input.
\<close>

theorem read_frame_bounds:
  assumes "read_frame r = Ok (f, r')"
  shows "stream_id f AND 0x7fffffff = stream_id f \<and> length (payload f) \<le> 16384 \<and> length r' < length r"
  using read_frame_OkD [OF assms] by (simp add: frame_ok_def)

lemma read_frame_bounds_witness:
  "read_frame [0, 0, 1, 0, 1, 255, 0, 0, 1, 7, 8] =
     Ok (\<lparr>ftyp = 0, flags = 1, stream_id = 0x7f000001, payload = [7]\<rparr>, [8]) \<and>
   (0x7f000001 :: u32) AND 0x7fffffff = 0x7f000001"
proof -
  have r: "read_frame [0, 0, 1, 0, 1, 255, 0, 0, 1, 7, 8] =
     Ok (\<lparr>ftyp = 0, flags = 1, stream_id = 0x7f000001, payload = [7]\<rparr>, [8])"
    by (simp add: read_frame_def read_exact_def be_val_def u32_from_be_bytes_def)
  with read_frame_bounds [OF r] show ?thesis by simp
qed

text \<open>
  Splitting an encoded header block over HEADERS and CONTINUATION frames keeps the block:
  the payloads concatenate to it, no payload exceeds the peer's frame size, exactly the first
  frame is a HEADERS frame (the rest CONTINUATION), every frame carries the stream's id,
  END_HEADERS is set on the last frame only, and END_STREAM exactly on the first one when the
  request has no body.
\<close>

theorem fragment_header_block_correct:
  assumes "0 < m" "fs = fragment_header_block sid b m es"
  shows "fs \<noteq> [] \<and> concat (map payload fs) = b \<and>
    (\<forall>i. i < length fs \<longrightarrow>
       length (payload (fs ! i)) \<le> m \<and> stream_id (fs ! i) = sid \<and>
       ftyp (fs ! i) = (if i = 0 then F_HEADERS else F_CONTINUATION) \<and>
       (flags (fs ! i) AND FLAG_END_HEADERS \<noteq> 0 \<longleftrightarrow> i = length fs - 1) \<and>
       (flags (fs ! i) AND FLAG_END_STREAM \<noteq> 0 \<longleftrightarrow> i = 0 \<and> es))"
proof (intro conjI allI impI)
  have "length fs \<ge> 1" using assms(1) by (simp add: assms(2) length_fragment_header_block)
  then show "fs \<noteq> []" by auto
  show "concat (map payload fs) = b" using payloads_fragment_header_block [OF assms(1)] by (simp add: assms(2))
next
  fix i assume i: "i < length fs"
  consider "b = []" "i = 0" "fs = [\<lparr>ftyp = F_HEADERS, flags = FLAG_END_HEADERS OR (if es then FLAG_END_STREAM else 0),
          stream_id = sid, payload = []\<rparr>]"
    | "b \<noteq> []" "fs ! i = headers_fragment sid es (length fs) i (chunks m b ! i)" "length fs = length (chunks m b)"
    using i assms(1) fragment_header_block_nth [of b m i sid es]
    by (cases "b = []") (auto simp: assms(2) fragment_header_block_def length_chunks Let_def)
  note cases = this
  note simps = headers_fragment_def Let_def
  show "length (payload (fs ! i)) \<le> m"
    using cases
  proof cases
    case 2
    with i chunks_bounds [of "chunks m b ! i" m b] show ?thesis by (cases "i = 0") (auto simp: simps)
  qed simp
  show "stream_id (fs ! i) = sid" using cases by cases (simp_all add: simps)
  show "ftyp (fs ! i) = (if i = 0 then F_HEADERS else F_CONTINUATION)" using cases by cases (simp_all add: simps)
  show "flags (fs ! i) AND FLAG_END_HEADERS \<noteq> 0 \<longleftrightarrow> i = length fs - 1" using cases by cases (use i in \<open>auto simp: simps\<close>)
  show "flags (fs ! i) AND FLAG_END_STREAM \<noteq> 0 \<longleftrightarrow> i = 0 \<and> es" using cases by cases (simp_all add: simps)
qed

lemma fragment_header_block_correct_witness:
  "map ftyp (fragment_header_block 5 [1, 2, 3] 2 True) = [F_HEADERS, F_CONTINUATION] \<and>
   concat (map payload (fragment_header_block 5 [1, 2, 3] 2 True)) = [1, 2, 3]"
proof -
  have "map ftyp (fragment_header_block 5 [1, 2, 3] 2 True) = [F_HEADERS, F_CONTINUATION]" by code_simp
  with fragment_header_block_correct [of 2 _ 5 "[1, 2, 3]" True] show ?thesis by simp
qed

text \<open>
  The size of the next DATA chunk respects the send window, the bytes left and the peer's
  frame limit, is zero when the window is exhausted, and makes progress otherwise.
\<close>

theorem next_data_chunk_size_bounds:
  "int (next_data_chunk_size m avail n) \<le> max 0 avail \<and> next_data_chunk_size m avail n \<le> n \<and>
   next_data_chunk_size m avail n \<le> m \<and>
   (next_data_chunk_size m avail n = 0 \<longleftrightarrow> avail \<le> 0 \<or> n = 0 \<or> m = 0)"
  by (auto simp: next_data_chunk_size_def)

end
