(* ===== verification/H2_Flow.thy ===== *)
theory H2_Flow
  imports H2_Frame
begin

text \<open>
  HTTP/2 SETTINGS and flow control (\<open>src/src/http2.rs\<close>): \<open>PeerSettings\<close> with
  \<open>apply_settings_payload\<close>, the four window types, and the flood budget counters.
  The connection and stream windows share two contracts, \<open>send_window\<close> and \<open>recv_window\<close>;
  both are interpreted on both window types. Windows are \<open>i64\<close> in the code and \<^typ>\<open>int\<close> here:
  the lemmas keep them within 32 bits of zero, so the code never wraps.
\<close>

section \<open>Peer settings\<close>

abbreviation (input) S_HEADER_TABLE_SIZE :: u16 where "S_HEADER_TABLE_SIZE \<equiv> 1"
abbreviation (input) S_ENABLE_PUSH :: u16 where "S_ENABLE_PUSH \<equiv> 2"
abbreviation (input) S_MAX_CONCURRENT_STREAMS :: u16 where "S_MAX_CONCURRENT_STREAMS \<equiv> 3"
abbreviation (input) S_INITIAL_WINDOW_SIZE :: u16 where "S_INITIAL_WINDOW_SIZE \<equiv> 4"
abbreviation (input) S_MAX_FRAME_SIZE :: u16 where "S_MAX_FRAME_SIZE \<equiv> 5"
abbreviation (input) S_MAX_HEADER_LIST_SIZE :: u16 where "S_MAX_HEADER_LIST_SIZE \<equiv> 6"

record peer_settings =
  header_table_size :: u32
  enable_push :: bool
  max_concurrent_streams :: u32
  initial_window_size :: u32
  max_frame_size :: u32
  max_header_list_size :: u32

definition peer_settings_default :: peer_settings where
  "peer_settings_default =
     \<lparr>header_table_size = 4096, enable_push = True, max_concurrent_streams = 0xffffffff,
      initial_window_size = 65535, max_frame_size = 16384, max_header_list_size = 0xffffffff\<rparr>"

definition apply_setting :: "peer_settings \<Rightarrow> u16 \<Rightarrow> u32 \<Rightarrow> peer_settings result" where
  "apply_setting ps i val =
     (if i = S_HEADER_TABLE_SIZE then Ok (ps\<lparr>header_table_size := val\<rparr>)
      else if i = S_ENABLE_PUSH then
        (if val = 0 then Ok (ps\<lparr>enable_push := False\<rparr>)
         else if val = 1 then Ok (ps\<lparr>enable_push := True\<rparr>)
         else Err (BadResponse ''SETTINGS_ENABLE_PUSH must be 0 or 1''))
      else if i = S_MAX_CONCURRENT_STREAMS then Ok (ps\<lparr>max_concurrent_streams := val\<rparr>)
      else if i = S_INITIAL_WINDOW_SIZE then
        (if val > INITIAL_WINDOW_SIZE_MAX
         then Err (BadResponse ''SETTINGS_INITIAL_WINDOW_SIZE exceeds 2^31-1 (FLOW_CONTROL_ERROR)'')
         else Ok (ps\<lparr>initial_window_size := val\<rparr>))
      else if i = S_MAX_FRAME_SIZE then
        (if \<not> (MAX_FRAME_SIZE_MIN \<le> val \<and> val \<le> MAX_FRAME_SIZE_MAX)
         then Err (BadResponse ''SETTINGS_MAX_FRAME_SIZE out of range [16384, 16777215]'')
         else Ok (ps\<lparr>max_frame_size := val\<rparr>))
      else if i = S_MAX_HEADER_LIST_SIZE then Ok (ps\<lparr>max_header_list_size := val\<rparr>)
      else Ok ps)"

text \<open>
  The loop over the 6-byte entries. The settings are updated in place, so on an error the
  entries before the offending one stay applied; the pair returns both.
\<close>

fun apply_settings_chunks :: "peer_settings \<Rightarrow> bytes \<Rightarrow> peer_settings \<times> unit result" where
  "apply_settings_chunks ps (a # b # c # d # e # f # rest) =
     (case apply_setting ps (u16_from_be_bytes [a, b]) (u32_from_be_bytes [c, d, e, f]) of
        Inl err \<Rightarrow> (ps, Inl err)
      | Inr ps' \<Rightarrow> apply_settings_chunks ps' rest)"
| "apply_settings_chunks ps _ = (ps, Inr ())"

definition apply_settings_payload :: "peer_settings \<Rightarrow> bytes \<Rightarrow> peer_settings \<times> unit result" where
  "apply_settings_payload ps pl =
     (if length pl mod 6 \<noteq> 0 then (ps, Err (BadResponse ''SETTINGS payload length not a multiple of 6''))
      else apply_settings_chunks ps pl)"

definition peer_settings_ok :: "peer_settings \<Rightarrow> bool" where
  "peer_settings_ok ps \<longleftrightarrow> initial_window_size ps \<le> INITIAL_WINDOW_SIZE_MAX \<and>
     MAX_FRAME_SIZE_MIN \<le> max_frame_size ps \<and> max_frame_size ps \<le> MAX_FRAME_SIZE_MAX"

text \<open>The wire form of a list of settings, and what applying it should mean.\<close>

definition setting_bytes :: "u16 \<times> u32 \<Rightarrow> bytes" where
  "setting_bytes s = u16_to_be_bytes (fst s) @ u32_to_be_bytes (snd s)"

fun apply_settings_list :: "peer_settings \<Rightarrow> (u16 \<times> u32) list \<Rightarrow> peer_settings result" where
  "apply_settings_list ps [] = Ok ps"
| "apply_settings_list ps ((i, v) # ss) = res_bind (apply_setting ps i v) (\<lambda>ps'. apply_settings_list ps' ss)"

section \<open>Windows\<close>

abbreviation (input) WINDOW_MAX :: int where "WINDOW_MAX \<equiv> 0x7fffffff"
abbreviation (input) OUR_INITIAL_WINDOW :: int where "OUR_INITIAL_WINDOW \<equiv> 65535"

record conn_send_window =
  csw_available :: int

definition conn_send_window_new :: conn_send_window where
  "conn_send_window_new = \<lparr>csw_available = 65535\<rparr>"

definition csw_apply_window_update :: "conn_send_window \<Rightarrow> u32 \<Rightarrow> conn_send_window result" where
  "csw_apply_window_update w increment =
     (if increment = 0
      then Err (BadResponse ''WINDOW_UPDATE with zero increment on connection (FLOW_CONTROL_ERROR)'')
      else let new_val = csw_available w + uint increment
           in if new_val > WINDOW_MAX
              then Err (BadResponse ''WINDOW_UPDATE pushes conn send window > 2^31-1 (FLOW_CONTROL_ERROR)'')
              else Ok (w\<lparr>csw_available := new_val\<rparr>))"

definition csw_consume :: "conn_send_window \<Rightarrow> nat \<Rightarrow> conn_send_window" where
  "csw_consume w n = w\<lparr>csw_available := csw_available w - int n\<rparr>"

record stream_send_window =
  ssw_available :: int
  initial_peer_window :: int

definition stream_send_window_new :: "int \<Rightarrow> stream_send_window" where
  "stream_send_window_new initial = \<lparr>ssw_available = initial, initial_peer_window = initial\<rparr>"

definition ssw_apply_window_update :: "stream_send_window \<Rightarrow> u32 \<Rightarrow> stream_send_window result" where
  "ssw_apply_window_update w increment =
     (if increment = 0
      then Err (BadResponse ''WINDOW_UPDATE with zero increment on stream (PROTOCOL_ERROR)'')
      else let new_val = ssw_available w + uint increment
           in if new_val > WINDOW_MAX
              then Err (BadResponse ''WINDOW_UPDATE pushes stream send window > 2^31-1 (FLOW_CONTROL_ERROR)'')
              else Ok (w\<lparr>ssw_available := new_val\<rparr>))"

definition apply_initial_window_change :: "stream_send_window \<Rightarrow> u32 \<Rightarrow> stream_send_window result" where
  "apply_initial_window_change w new_initial =
     (let new_i = uint new_initial;
          delta = new_i - initial_peer_window w;
          new_available = ssw_available w + delta
      in if new_available > WINDOW_MAX
         then Err (BadResponse ''SETTINGS_INITIAL_WINDOW_SIZE delta pushes stream send window > 2^31-1 (FLOW_CONTROL_ERROR)'')
         else Ok (w\<lparr>ssw_available := new_available, initial_peer_window := new_i\<rparr>))"

definition ssw_consume :: "stream_send_window \<Rightarrow> nat \<Rightarrow> stream_send_window" where
  "ssw_consume w n = w\<lparr>ssw_available := ssw_available w - int n\<rparr>"

record conn_recv_window =
  crw_available :: int
  crw_initial :: int

definition conn_recv_window_new :: "int \<Rightarrow> conn_recv_window" where
  "conn_recv_window_new i = \<lparr>crw_available = i, crw_initial = i\<rparr>"

definition crw_consume :: "conn_recv_window \<Rightarrow> nat \<Rightarrow> conn_recv_window" where
  "crw_consume w n = w\<lparr>crw_available := crw_available w - int n\<rparr>"

definition crw_replenish :: "conn_recv_window \<Rightarrow> conn_recv_window \<times> frame option" where
  "crw_replenish w =
     (let threshold = crw_initial w div 2
      in if crw_available w < threshold then
           let inc = word_of_int (crw_initial w - crw_available w)
           in (w\<lparr>crw_available := crw_initial w\<rparr>, Some (window_update_frame 0 inc))
         else (w, None))"

record stream_recv_window =
  srw_available :: int
  srw_initial :: int

definition stream_recv_window_new :: "int \<Rightarrow> stream_recv_window" where
  "stream_recv_window_new i = \<lparr>srw_available = i, srw_initial = i\<rparr>"

definition srw_consume :: "stream_recv_window \<Rightarrow> nat \<Rightarrow> stream_recv_window" where
  "srw_consume w n = w\<lparr>srw_available := srw_available w - int n\<rparr>"

definition srw_replenish :: "stream_recv_window \<Rightarrow> u32 \<Rightarrow> stream_recv_window \<times> frame option" where
  "srw_replenish w sid =
     (let threshold = srw_initial w div 2
      in if srw_available w < threshold then
           let inc = word_of_int (srw_initial w - srw_available w)
           in (w\<lparr>srw_available := srw_initial w\<rparr>, Some (window_update_frame sid inc))
         else (w, None))"

section \<open>Flood budget\<close>

abbreviation (input) MAX_NO_PROGRESS_FRAMES :: nat where "MAX_NO_PROGRESS_FRAMES \<equiv> 10000"
abbreviation (input) MAX_SETTINGS_FRAMES :: nat where "MAX_SETTINGS_FRAMES \<equiv> 2000"
abbreviation (input) MAX_PING_FRAMES :: nat where "MAX_PING_FRAMES \<equiv> 2000"
abbreviation (input) MAX_RST_STREAM_FRAMES :: nat where "MAX_RST_STREAM_FRAMES \<equiv> 2000"

text \<open>The counters are \<open>u32\<close>; the checks stop them four orders of magnitude below overflow.\<close>

record flood_budget =
  no_progress :: nat
  settings_count :: nat
  ping_count :: nat
  rst_stream_count :: nat

definition flood_budget_default :: flood_budget where
  "flood_budget_default = \<lparr>no_progress = 0, settings_count = 0, ping_count = 0, rst_stream_count = 0\<rparr>"

definition record_control_frame :: "flood_budget \<Rightarrow> byte \<Rightarrow> byte \<Rightarrow> flood_budget \<times> unit result" where
  "record_control_frame b ty fl =
     (if ty = F_SETTINGS \<and> fl AND FLAG_ACK = 0 then
        let b' = b\<lparr>settings_count := settings_count b + 1\<rparr>
        in (b', if settings_count b' > MAX_SETTINGS_FRAMES
                then Err (BadResponse ''http2: peer sent SETTINGS frames (flood)'') else Ok ())
      else if ty = F_PING \<and> fl AND FLAG_ACK = 0 then
        let b' = b\<lparr>ping_count := ping_count b + 1\<rparr>
        in (b', if ping_count b' > MAX_PING_FRAMES
                then Err (BadResponse ''http2: peer sent PING frames (flood)'') else Ok ())
      else if ty = F_RST_STREAM then
        let b' = b\<lparr>rst_stream_count := rst_stream_count b + 1\<rparr>
        in (b', if rst_stream_count b' > MAX_RST_STREAM_FRAMES
                then Err (BadResponse ''http2: peer sent RST_STREAM frames (Rapid-Reset flood)'') else Ok ())
      else (b, Ok ()))"

definition record_progress :: "flood_budget \<Rightarrow> bool \<Rightarrow> flood_budget \<times> unit result" where
  "record_progress b made_progress =
     (if made_progress then (b\<lparr>no_progress := 0\<rparr>, Ok ())
      else let b' = b\<lparr>no_progress := no_progress b + 1\<rparr>
           in (b', if no_progress b' > MAX_NO_PROGRESS_FRAMES
                   then Err (BadResponse ''http2: peer sent consecutive frames with no forward progress (flood)'')
                   else Ok ()))"

lemmas window_defs =
  conn_send_window_new_def csw_apply_window_update_def csw_consume_def
  stream_send_window_new_def ssw_apply_window_update_def apply_initial_window_change_def ssw_consume_def
  conn_recv_window_new_def crw_consume_def crw_replenish_def
  stream_recv_window_new_def srw_consume_def srw_replenish_def

section \<open>The contract of a send window\<close>

datatype window_event = Grant u32 | Sent nat

fun run_window ::
  "('w \<Rightarrow> u32 \<Rightarrow> 'w result) \<Rightarrow> ('w \<Rightarrow> nat \<Rightarrow> 'w) \<Rightarrow> 'w \<Rightarrow> window_event list \<Rightarrow> 'w result" where
  "run_window upd con w [] = Ok w"
| "run_window upd con w (Grant i # es) = res_bind (upd w i) (\<lambda>w'. run_window upd con w' es)"
| "run_window upd con w (Sent n # es) = run_window upd con (con w n) es"

fun granted :: "window_event list \<Rightarrow> int" where
  "granted [] = 0"
| "granted (Grant i # es) = uint i + granted es"
| "granted (Sent n # es) = granted es"

fun sent :: "window_event list \<Rightarrow> int" where
  "sent [] = 0"
| "sent (Grant i # es) = sent es"
| "sent (Sent n # es) = int n + sent es"

locale send_window =
  fixes avail :: "'w \<Rightarrow> int"
    and upd :: "'w \<Rightarrow> u32 \<Rightarrow> 'w result"
    and con :: "'w \<Rightarrow> nat \<Rightarrow> 'w"
  assumes upd_Ok: "upd w i = Ok w' \<Longrightarrow> i \<noteq> 0 \<and> avail w' = avail w + uint i \<and> avail w' \<le> WINDOW_MAX"
    and upd_total: "i \<noteq> 0 \<Longrightarrow> avail w + uint i \<le> WINDOW_MAX \<Longrightarrow> \<exists>w'. upd w i = Ok w'"
    and avail_con: "avail (con w n) = avail w - int n"
begin

lemma upd_Err_iff:
  "(\<exists>e. upd w i = Err e) \<longleftrightarrow> i = 0 \<or> avail w + uint i > WINDOW_MAX"
proof (cases "upd w i")
  case (Inr w')
  then show ?thesis using upd_Ok [OF Inr] by auto
qed (use upd_total [of i w] in force)

lemma run_accounting:
  assumes "run_window upd con w es = Ok w'" "avail w \<le> WINDOW_MAX"
  shows "avail w' = avail w + granted es - sent es \<and> avail w' \<le> WINDOW_MAX"
  using assms
proof (induction es arbitrary: w)
  case (Cons e es)
  show ?case
  proof (cases e)
    case (Grant i)
    with Cons.prems obtain w1 where w1: "upd w i = Ok w1" and run: "run_window upd con w1 es = Ok w'"
      by auto
    from Cons.IH [OF run] upd_Ok [OF w1] Grant show ?thesis by auto
  next
    case (Sent n)
    with Cons.prems Cons.IH [of "con w n"] show ?thesis by (auto simp: avail_con)
  qed
qed simp

end

interpretation conn_window: send_window csw_available csw_apply_window_update csw_consume
  by unfold_locales (auto simp: window_defs Let_def split: if_splits)

interpretation stream_window: send_window ssw_available ssw_apply_window_update ssw_consume
  by unfold_locales (auto simp: window_defs Let_def split: if_splits)

section \<open>The contract of a receive window\<close>

locale recv_window =
  fixes avail :: "'w \<Rightarrow> int"
    and initial :: "'w \<Rightarrow> int"
    and con :: "'w \<Rightarrow> nat \<Rightarrow> 'w"
    and repl :: "'w \<Rightarrow> u32 \<Rightarrow> 'w \<times> frame option"
    and target :: "u32 \<Rightarrow> u32"
  assumes avail_con: "avail (con w n) = avail w - int n"
    and initial_con: "initial (con w n) = initial w"
    and initial_repl: "repl w sid = (w', fo) \<Longrightarrow> initial w' = initial w"
    and repl_Some: "repl w sid = (w', Some f) \<Longrightarrow> avail w < initial w div 2 \<and> avail w' = initial w \<and>
        f = window_update_frame (target sid) (word_of_int (initial w - avail w))"
    and repl_None: "repl w sid = (w', None) \<Longrightarrow> w' = w \<and> initial w div 2 \<le> avail w"
begin

definition window_ok :: "'w \<Rightarrow> bool" where
  "window_ok w \<longleftrightarrow> 0 \<le> avail w \<and> avail w \<le> initial w \<and> initial w \<le> WINDOW_MAX"

lemma window_ok_con: "window_ok w \<Longrightarrow> int n \<le> avail w \<Longrightarrow> window_ok (con w n)"
  by (simp add: window_ok_def avail_con initial_con)

lemma window_ok_repl:
  assumes "window_ok w" "repl w sid = (w', fo)"
  shows "window_ok w'"
proof (cases fo)
  case None
  with assms repl_None [of w sid w'] show ?thesis by auto
next
  case (Some f)
  with assms repl_Some [of w sid w' f] initial_repl [OF assms(2)] show ?thesis
    by (auto simp: window_ok_def)
qed

lemma repl_restores:
  assumes "window_ok w" "repl w sid = (w', Some f)"
  shows "\<exists>inc. parse_window_update (payload f) = Ok inc \<and> inc \<noteq> 0 \<and>
     avail w + uint inc = initial w \<and> avail w' = initial w \<and> stream_id f = target sid"
proof -
  define d where "d = initial w - avail w"
  from repl_Some [OF assms(2)] have lt: "avail w < initial w div 2" and av: "avail w' = initial w"
    and f: "f = window_update_frame (target sid) (word_of_int d)" by (auto simp: d_def)
  from assms(1) lt have d: "0 < d" "d < 2 ^ 31" by (auto simp: window_ok_def d_def)
  then have u: "uint (word_of_int d :: u32) = d"
    by (simp add: word_uint_eq_iff uint_word_of_int)
  have m: "(word_of_int d :: u32) AND 0x7fffffff = word_of_int d"
  proof -
    have "(word_of_int d :: u32) AND mask 31 = word_of_int d"
      using d by (simp add: and_mask_wi take_bit_int_eq_self)
    then show ?thesis by (simp add: mask_eq_exp_minus_1)
  qed
  have "parse_window_update (payload f) = Ok (word_of_int d)"
    by (simp add: f parse_window_update_frame m)
  moreover have "(word_of_int d :: u32) \<noteq> 0" using u d by auto
  moreover have "stream_id f = target sid" by (simp add: f window_update_frame_def)
  ultimately show ?thesis using u av by (auto simp: d_def)
qed

end

interpretation conn_recv: recv_window crw_available crw_initial crw_consume
    "\<lambda>w sid. crw_replenish w" "\<lambda>sid. 0"
  by unfold_locales (auto simp: window_defs Let_def split: if_splits)

interpretation stream_recv: recv_window srw_available srw_initial srw_consume srw_replenish "\<lambda>sid. sid"
  by unfold_locales (auto simp: window_defs Let_def split: if_splits)

section \<open>Settings\<close>

lemma apply_setting_ok:
  "peer_settings_ok ps \<Longrightarrow> apply_setting ps i v = Ok ps' \<Longrightarrow> peer_settings_ok ps'"
  by (auto simp: apply_setting_def peer_settings_ok_def split: if_splits)

lemma apply_settings_chunks_ok:
  "peer_settings_ok ps \<Longrightarrow> peer_settings_ok (fst (apply_settings_chunks ps pl))"
  by (induction ps pl rule: apply_settings_chunks.induct)
    (auto split: sum.splits dest: apply_setting_ok)

lemma setting_bytes_Cons:
  obtains a b c d e f where "setting_bytes s = [a, b, c, d, e, f]"
    and "u16_from_be_bytes [a, b] = fst s" and "u32_from_be_bytes [c, d, e, f] = snd s"
proof -
  obtain a b where ab: "u16_to_be_bytes (fst s) = [a, b]"
    using list_of_length_2 length_uN_to_be_bytes(1) by blast
  obtain c d e f where cf: "u32_to_be_bytes (snd s) = [c, d, e, f]"
    using list_of_length_4 length_uN_to_be_bytes(2) by blast
  have "u16_from_be_bytes [a, b] = fst s" "u32_from_be_bytes [c, d, e, f] = snd s"
    using u16_be_roundtrip [of "fst s"] u32_be_roundtrip [of "snd s"] by (simp_all add: ab cf)
  with ab cf show ?thesis using that by (simp add: setting_bytes_def)
qed

lemma apply_settings_chunks_concat:
  "res_bind (snd (apply_settings_chunks ps (concat (map setting_bytes ss))))
     (\<lambda>_. Ok (fst (apply_settings_chunks ps (concat (map setting_bytes ss))))) = apply_settings_list ps ss"
proof (induction ps ss rule: apply_settings_list.induct)
  case (2 ps i v ss)
  obtain a b c d e f where "setting_bytes (i, v) = [a, b, c, d, e, f]"
    "u16_from_be_bytes [a, b] = i" "u32_from_be_bytes [c, d, e, f] = v"
    by (rule setting_bytes_Cons [of "(i, v)"]) simp
  then show ?case by (cases "apply_setting ps i v") (simp_all add: "2.IH")
qed simp

lemma length_settings_bytes: "length (concat (map setting_bytes ss)) = 6 * length ss"
  by (induction ss) (simp_all add: setting_bytes_def)

section \<open>Flood budget\<close>

definition flood_ok :: "flood_budget \<Rightarrow> bool" where
  "flood_ok b \<longleftrightarrow> no_progress b \<le> MAX_NO_PROGRESS_FRAMES \<and> settings_count b \<le> MAX_SETTINGS_FRAMES \<and>
     ping_count b \<le> MAX_PING_FRAMES \<and> rst_stream_count b \<le> MAX_RST_STREAM_FRAMES"

lemmas flood_defs = record_control_frame_def record_progress_def flood_ok_def Let_def

lemma flood_ok_step:
  "flood_ok b \<Longrightarrow> record_control_frame b ty fl = (b', Ok ()) \<Longrightarrow> flood_ok b'"
  "flood_ok b \<Longrightarrow> record_progress b p = (b'', Ok ()) \<Longrightarrow> flood_ok b''"
  by (auto simp: flood_defs split: if_splits)

text \<open>
  The billing of one inbound frame as \<open>process_frame\<close> does it: the control-frame budget
  before dispatch, the no-progress budget after it, with the progress the handler reported.
\<close>

definition bill_frame :: "flood_budget \<Rightarrow> byte \<times> byte \<times> bool \<Rightarrow> flood_budget result" where
  "bill_frame b fr = (case fr of (ty, fl, p) \<Rightarrow>
     (case record_control_frame b ty fl of
        (b1, Inl e) \<Rightarrow> Inl e
      | (b1, Inr _) \<Rightarrow> (case record_progress b1 p of (b2, Inl e) \<Rightarrow> Inl e | (b2, Inr _) \<Rightarrow> Inr b2)))"

fun bill_frames :: "flood_budget \<Rightarrow> (byte \<times> byte \<times> bool) list \<Rightarrow> flood_budget result" where
  "bill_frames b [] = Ok b"
| "bill_frames b (f # fs) = res_bind (bill_frame b f) (\<lambda>b'. bill_frames b' fs)"

lemma bill_frames_append:
  "bill_frames b (xs @ ys) = res_bind (bill_frames b xs) (\<lambda>b'. bill_frames b' ys)"
proof (induction xs arbitrary: b)
  case (Cons x xs)
  then show ?case by (cases "bill_frame b x") simp_all
qed simp

definition is_ping :: "byte \<times> byte \<times> bool \<Rightarrow> bool" where
  "is_ping f \<longleftrightarrow> fst f = F_PING \<and> fst (snd f) AND FLAG_ACK = 0"

definition is_settings :: "byte \<times> byte \<times> bool \<Rightarrow> bool" where
  "is_settings f \<longleftrightarrow> fst f = F_SETTINGS \<and> fst (snd f) AND FLAG_ACK = 0"

definition is_rst :: "byte \<times> byte \<times> bool \<Rightarrow> bool" where
  "is_rst f \<longleftrightarrow> fst f = F_RST_STREAM"

lemma bill_frame_OkD:
  assumes "bill_frame b f = Ok b'" "flood_ok b"
  shows "flood_ok b' \<and> ping_count b' = ping_count b + of_bool (is_ping f) \<and>
    settings_count b' = settings_count b + of_bool (is_settings f) \<and>
    rst_stream_count b' = rst_stream_count b + of_bool (is_rst f) \<and>
    (no_progress b' = 0 \<or> \<not> snd (snd f) \<and> no_progress b' = Suc (no_progress b))"
proof -
  obtain ty fl p where f: "f = (ty, fl, p)" by (cases f)
  show ?thesis
    using assms
    by (auto simp: bill_frame_def f flood_defs is_ping_def is_settings_def is_rst_def
        split: if_splits)
qed

lemma bill_frames_OkD:
  assumes "bill_frames b fs = Ok b'" "flood_ok b"
  shows "flood_ok b' \<and> ping_count b' = ping_count b + length (filter is_ping fs) \<and>
    settings_count b' = settings_count b + length (filter is_settings fs) \<and>
    rst_stream_count b' = rst_stream_count b + length (filter is_rst fs)"
  using assms
proof (induction fs arbitrary: b)
  case (Cons f fs)
  then obtain b1 where b1: "bill_frame b f = Ok b1" "bill_frames b1 fs = Ok b'" by auto
  from bill_frame_OkD [OF b1(1) Cons.prems(2)] Cons.IH [OF b1(2)] show ?case by auto
qed simp

lemma bill_frames_no_progress:
  assumes "bill_frames b fs = Ok b'" "flood_ok b" "list_all (\<lambda>f. \<not> snd (snd f)) fs"
  shows "no_progress b' = no_progress b + length fs"
  using assms
proof (induction fs arbitrary: b)
  case (Cons f fs)
  then obtain b1 where b1: "bill_frame b f = Ok b1" "bill_frames b1 fs = Ok b'" by auto
  have "no_progress b1 = Suc (no_progress b)"
    using b1(1) Cons.prems(3)
    by (cases f) (auto simp: bill_frame_def flood_defs split: if_splits)
  with bill_frame_OkD [OF b1(1) Cons.prems(2)] Cons.IH [OF b1(2)] Cons.prems(3) show ?case by auto
qed simp

section \<open>Properties\<close>

text \<open>
  SETTINGS never leave their RFC 9113 ranges: whatever payload the peer sends, and
  also when an entry in the middle of it is rejected, the initial window stays at most
  $2^{31}-1$ and the maximum frame size within $[2^{14}, 2^{24}-1]$.
\<close>

theorem settings_payload_keeps_ranges:
  assumes "peer_settings_ok ps"
  shows "peer_settings_ok (fst (apply_settings_payload ps pl))"
  using assms by (simp add: apply_settings_payload_def apply_settings_chunks_ok)

theorem settings_payload_keeps_ranges_witness:
  "peer_settings_ok peer_settings_default \<and>
   peer_settings_ok (fst (apply_settings_payload peer_settings_default
     [0, 4, 0, 0, 0, 1, 0, 5, 0, 0, 0, 0]))"
  using settings_payload_keeps_ranges [of peer_settings_default "[0, 4, 0, 0, 0, 1, 0, 5, 0, 0, 0, 0]"]
  by (simp add: peer_settings_ok_def peer_settings_default_def)

text \<open>
  The parser of a SETTINGS payload agrees with its meaning: on the wire form of any
  list of settings it applies them in order, later entries overriding earlier ones, and
  it fails exactly at the first entry whose value is out of range.
\<close>

theorem settings_payload_functional:
  "res_bind (snd (apply_settings_payload ps (concat (map setting_bytes ss))))
     (\<lambda>_. Ok (fst (apply_settings_payload ps (concat (map setting_bytes ss))))) = apply_settings_list ps ss"
  by (simp add: apply_settings_payload_def length_settings_bytes apply_settings_chunks_concat)

text \<open>
  Accounting of the connection send window: after any sequence of WINDOW_UPDATEs and
  DATA sends the window is what it was plus all bytes granted minus all bytes sent, and an
  update that would push it past $2^{31}-1$ is refused, so it never exceeds that bound.
\<close>

theorem conn_send_window_accounting:
  assumes "run_window csw_apply_window_update csw_consume conn_send_window_new es = Ok w"
  shows "csw_available w = 65535 + granted es - sent es \<and> csw_available w \<le> WINDOW_MAX"
  using conn_window.run_accounting [OF assms] by (simp add: conn_send_window_new_def)

theorem conn_send_window_accounting_witness:
  "csw_available \<lparr>csw_available = 65445\<rparr> = 65535 + granted [Sent 100, Grant 10] - sent [Sent 100, Grant 10]
   \<and> csw_available \<lparr>csw_available = 65445\<rparr> \<le> WINDOW_MAX"
  by (rule conn_send_window_accounting) (simp add: window_defs)

text \<open>
  A connection receive window that is topped up tells the peer exactly the missing
  amount: the WINDOW_UPDATE frame it emits parses to a non-zero increment that brings the
  peer's view of the window from what was left back to the advertised size.
\<close>

theorem conn_replenish_restores:
  assumes "0 \<le> crw_available w" "crw_available w \<le> crw_initial w" "crw_initial w \<le> WINDOW_MAX"
    and "crw_replenish w = (w', Some f)"
  shows "\<exists>inc. parse_window_update (payload f) = Ok inc \<and> inc \<noteq> 0 \<and>
    crw_available w + uint inc = crw_initial w \<and> crw_available w' = crw_initial w \<and> stream_id f = 0"
  by (rule conn_recv.repl_restores) (use assms in \<open>simp_all add: conn_recv.window_ok_def\<close>)

theorem conn_replenish_restores_witness:
  "\<exists>inc. parse_window_update (payload (window_update_frame 0 60)) = Ok inc \<and> inc \<noteq> 0 \<and>
    40 + uint inc = (100 :: int) \<and> (100 :: int) = 100 \<and> stream_id (window_update_frame 0 60) = 0"
  using conn_replenish_restores [of "\<lparr>crw_available = 40, crw_initial = 100\<rparr>"
      "\<lparr>crw_available = 100, crw_initial = 100\<rparr>" "window_update_frame 0 60"]
  by (simp add: crw_replenish_def)

text \<open>
  Flood budget: a connection that is still alive after billing a sequence of inbound
  frames has seen at most 2000 SETTINGS, 2000 PING and 2000 RST_STREAM frames, however the
  peer interleaves them with other traffic and whatever progress the frames make.
\<close>

theorem flood_budget_bounds_control_frames:
  assumes "bill_frames flood_budget_default fs = Ok b"
  shows "length (filter is_settings fs) \<le> 2000 \<and> length (filter is_ping fs) \<le> 2000 \<and>
    length (filter is_rst fs) \<le> 2000"
  using bill_frames_OkD [OF assms] by (simp add: flood_ok_def flood_budget_default_def)

theorem flood_budget_bounds_control_frames_witness:
  "length (filter is_settings [(4, 0, True), (6, 0, False)]) \<le> 2000 \<and>
   length (filter is_ping [(4, 0, True), (6, 0, False)]) \<le> 2000 \<and>
   length (filter is_rst [(4, 0, True), (6, 0, False)]) \<le> 2000"
  by (rule flood_budget_bounds_control_frames
      [where b = "\<lparr>no_progress = 1, settings_count = 1, ping_count = 1, rst_stream_count = 0\<rparr>"])
    (simp add: bill_frame_def flood_defs flood_budget_default_def)

text \<open>
  No spinning: a connection that is still alive has never processed more than 10000
  consecutive frames without forward progress; the 10001st is an error.
\<close>

theorem flood_budget_bounds_no_progress:
  assumes "bill_frames flood_budget_default (pre @ fs) = Ok b" "list_all (\<lambda>f. \<not> snd (snd f)) fs"
  shows "length fs \<le> 10000"
proof -
  from assms(1) obtain b1 where pre: "bill_frames flood_budget_default pre = Ok b1"
    and fs: "bill_frames b1 fs = Ok b" by (auto simp: bill_frames_append)
  from bill_frames_OkD [OF pre] have "flood_ok b1" by (simp add: flood_ok_def flood_budget_default_def)
  with bill_frames_OkD [OF fs] bill_frames_no_progress [OF fs _ assms(2)] show ?thesis
    by (simp add: flood_ok_def)
qed

theorem flood_budget_bounds_no_progress_witness: "length [(0 :: byte, 0 :: byte, False)] \<le> 10000"
  by (rule flood_budget_bounds_no_progress
      [where pre = "[(4, 0, True)]"
         and b = "\<lparr>no_progress = 1, settings_count = 1, ping_count = 0, rst_stream_count = 0\<rparr>"])
    (simp_all add: bill_frame_def flood_defs flood_budget_default_def)

end
