(* ===== verification/Hpack_Int.thy ===== *)
theory Hpack_Int
  imports Codec
begin

text \<open>
  The HPACK prefixed-integer codec (\<open>encode_int_into\<close> and \<open>decode_int\<close> of
  \<open>src/src/http2.rs\<close>, RFC 7541 section 5.1). \<open>u64\<close> values are natural numbers; the places where
  the code shifts or adds in 64 bits say so (\<open>mod 2 ^ 64\<close>, \<^const>\<open>checked_add_u64\<close>).
\<close>

section \<open>Definitions\<close>

text \<open>The loop that emits seven bits at a time.\<close>

function encode_int_tail :: "nat \<Rightarrow> bytes" where
  "encode_int_tail rem =
     (if rem \<ge> 128 then (word_of_nat (rem AND 0x7f) OR 0x80) # encode_int_tail (drop_bit 7 rem)
      else [word_of_nat rem])"
  by pat_completeness auto
termination
  by (relation "measure id") (auto simp: drop_bit_eq_div)

definition encode_int_into :: "nat \<Rightarrow> nat \<Rightarrow> byte \<Rightarrow> bytes" where
  "encode_int_into val prefix_bits fl =
     (let max_prefix = 2 ^ prefix_bits - 1
      in if val < max_prefix then [word_of_nat val OR fl]
         else (word_of_nat max_prefix OR fl) # encode_int_tail (val - max_prefix))"

fun decode_int_loop :: "bytes \<Rightarrow> nat \<Rightarrow> nat \<Rightarrow> nat \<Rightarrow> (nat \<times> nat) result" where
  "decode_int_loop [] val i shift = Err (BadResponse ''hpack: truncated integer'')"
| "decode_int_loop (b # bs) val i shift =
     (let part = unat (b AND 0x7f);
          shifted = push_bit shift part mod 2 ^ 64
      in if drop_bit shift shifted \<noteq> part then Err (BadResponse ''hpack: integer overflow'')
         else res_bind (ok_or (BadResponse ''hpack: integer overflow'') (checked_add_u64 val shifted)) (\<lambda>val'.
           if b AND 0x80 = 0 then Ok (val', i + 1)
           else if shift + 7 > 63 then Err (BadResponse ''hpack: integer overflow'')
           else decode_int_loop bs val' (i + 1) (shift + 7)))"

definition decode_int :: "bytes \<Rightarrow> nat \<Rightarrow> (nat \<times> nat) result" where
  "decode_int buf prefix_bits =
     (case buf of [] \<Rightarrow> Err (BadResponse ''hpack: empty integer'')
      | b # bs \<Rightarrow>
         let max_prefix = 2 ^ prefix_bits - 1;
             val = unat b AND max_prefix
         in if val < max_prefix then Ok (val, 1) else decode_int_loop bs val 1 0)"

text \<open>The number a byte sequence stands for, in unbounded arithmetic.\<close>

fun groups_value :: "bytes \<Rightarrow> nat" where
  "groups_value [] = 0"
| "groups_value (b # bs) = unat b mod 128 + 128 * groups_value bs"

definition prefixed_value :: "nat \<Rightarrow> bytes \<Rightarrow> nat" where
  "prefixed_value prefix_bits bs = unat (hd bs) mod 2 ^ prefix_bits + groups_value (tl bs)"

section \<open>Lemmas\<close>

declare encode_int_tail.simps [simp del]

lemma nat_and_127: "(n :: nat) AND 0x7f = n mod 128"
proof -
  have "n AND mask 7 = n mod 2 ^ 7" by (simp only: take_bit_eq_mask [symmetric] take_bit_eq_mod)
  then show ?thesis by (simp add: mask_eq_exp_minus_1)
qed

lemma nat_and_prefix: "(n :: nat) AND (2 ^ p - 1) = n mod 2 ^ p"
proof -
  have "n AND mask p = n mod 2 ^ p" by (simp only: take_bit_eq_mask [symmetric] take_bit_eq_mod)
  then show ?thesis by (simp add: mask_eq_exp_minus_1)
qed

lemma byte_and_127: "unat ((b :: byte) AND 0x7f) = unat b mod 128"
  by (simp add: unsigned_and_eq nat_and_127)

lemma byte_and_128: "(b :: byte) AND 0x80 = 0 \<longleftrightarrow> unat b < 128"
proof -
  have u: "unat b < 256" using unsigned_less [of b, where ?'a = nat] by simp
  have "b AND 0x80 = 0 \<longleftrightarrow> b AND 2 ^ 7 = 0" by simp
  also have "\<dots> \<longleftrightarrow> \<not> bit b 7" by (rule and_exp_eq_0_iff_not_bit)
  also have "\<dots> \<longleftrightarrow> \<not> bit (unat b) 7" by (simp add: bit_unsigned_iff)
  also have "\<dots> \<longleftrightarrow> even (unat b div 128)" by (simp add: bit_iff_odd)
  also have "\<dots> \<longleftrightarrow> unat b < 128"
  proof (cases "unat b < 128")
    case False
    with u have "unat b div 128 = 1" by (intro div_nat_eqI) simp_all
    with False show ?thesis by simp
  qed simp
  finally show ?thesis .
qed

lemma continuation_byte:
  assumes "n < 128"
  shows "unat (word_of_nat n OR 0x80 :: byte) mod 128 = n" "\<not> (word_of_nat n OR 0x80 :: byte) AND 0x80 = 0"
proof -
  have "take_bit 7 (word_of_nat n OR 0x80 :: byte) = take_bit 7 (word_of_nat n)"
    by (simp add: take_bit_or)
  then have "take_bit 7 (unat (word_of_nat n OR 0x80 :: byte)) = take_bit 7 (unat (word_of_nat n :: byte))"
    by (simp only: unsigned_take_bit_eq [symmetric])
  then show "unat (word_of_nat n OR 0x80 :: byte) mod 128 = n"
    using assms by (simp add: take_bit_eq_mod unat_of_nat)
  show "\<not> (word_of_nat n OR 0x80 :: byte) AND 0x80 = 0"
    by (simp add: and.commute [of _ "0x80"] bit.conj_disj_distrib)
qed

lemma prefix_byte:
  assumes "n < 2 ^ p" "p \<le> 8" "take_bit p (fl :: byte) = 0"
  shows "unat (word_of_nat n OR fl) AND (2 ^ p - 1) = n"
proof -
  have "(2 :: nat) ^ p \<le> 2 ^ 8" using assms(2) by (intro power_increasing) auto
  with assms(1) have n: "n < 256" by simp
  have "take_bit p (word_of_nat n OR fl) = take_bit p (word_of_nat n)"
    by (simp add: take_bit_or assms(3))
  then have "take_bit p (unat (word_of_nat n OR fl)) = take_bit p (unat (word_of_nat n :: byte))"
    by (simp only: unsigned_take_bit_eq [symmetric])
  then show ?thesis
    unfolding nat_and_prefix using assms(1) n by (simp add: take_bit_eq_mod unat_of_nat)
qed

lemma shift_fits:
  assumes "part * 2 ^ shift < (2 :: nat) ^ 64"
  shows "push_bit shift part mod 2 ^ 64 = part * 2 ^ shift"
    "drop_bit shift (push_bit shift part mod 2 ^ 64) = part"
  using assms by (simp_all add: push_bit_eq_mult drop_bit_eq_div)

lemma decode_int_loop_encode:
  assumes "val + rem * 2 ^ shift < 2 ^ 64" "shift \<le> 63"
  shows "decode_int_loop (encode_int_tail rem @ r) val i shift =
    Ok (val + rem * 2 ^ shift, i + length (encode_int_tail rem))"
  using assms
proof (induction rem arbitrary: val i shift rule: encode_int_tail.induct)
  case (1 rem)
  show ?case
  proof (cases "rem \<ge> 128")
    case False
    then have f: "unat (word_of_nat rem :: byte) = rem" by (simp add: unat_of_nat)
    have "rem * 2 ^ shift < 2 ^ 64" using "1.prems" by simp
    note s = shift_fits [OF this]
    show ?thesis
      using False "1.prems" s
      by (simp add: encode_int_tail.simps [of rem] byte_and_127 byte_and_128 f checked_add_u64_def)
  next
    case True
    define q where "q = rem div 128"
    define m where "m = rem mod 128"
    have rem: "rem = 128 * q + m" "m < 128" by (simp_all add: q_def m_def)
    have split: "rem * 2 ^ shift = m * 2 ^ shift + q * 2 ^ (shift + 7)"
      by (simp add: rem algebra_simps power_add)
    have "(2 :: nat) ^ (shift + 7) \<le> rem * 2 ^ shift"
      using True by (simp add: power_add)
    then have "(2 :: nat) ^ (shift + 7) < 2 ^ 64" using "1.prems"(1) by linarith
    then have sh: "shift + 7 \<le> 63" using power_less_imp_less_exp [of "2 :: nat" "shift + 7" 64] by simp
    have fit: "val + m * 2 ^ shift + q * 2 ^ (shift + 7) < 2 ^ 64" using "1.prems"(1) split by simp
    then have "m * 2 ^ shift < (2 :: nat) ^ 64" by linarith
    note s = shift_fits [OF this]
    have enc: "encode_int_tail rem = (word_of_nat m OR 0x80) # encode_int_tail q"
      using True by (simp add: encode_int_tail.simps [of rem] nat_and_127 m_def q_def drop_bit_eq_div)
    have "decode_int_loop (encode_int_tail q @ r) (val + m * 2 ^ shift) (i + 1) (shift + 7) =
        Ok (val + m * 2 ^ shift + q * 2 ^ (shift + 7), i + 1 + length (encode_int_tail q))"
      using "1.IH" [OF True, of "val + m * 2 ^ shift" "shift + 7" "i + 1"] fit sh
      by (simp add: q_def drop_bit_eq_div)
    then show ?thesis
      using s fit sh rem(2) continuation_byte [OF rem(2)]
      by (simp add: enc byte_and_127 checked_add_u64_def split Let_def)
  qed
qed

lemma decode_encode_int:
  assumes "val < 2 ^ 64" "0 < p" "p \<le> 8" "take_bit p (fl :: byte) = 0"
  shows "decode_int (encode_int_into val p fl @ r) p = Ok (val, length (encode_int_into val p fl))"
proof -
  have p: "1 < (2 :: nat) ^ p" using assms(2) by (intro one_less_power) simp_all
  show ?thesis
  proof (cases "val < 2 ^ p - 1")
    case True
    then show ?thesis
      using prefix_byte [OF _ assms(3,4), of val] by (simp add: decode_int_def encode_int_into_def)
  next
    case False
    then have "2 ^ p - 1 + (val - (2 ^ p - 1)) * 2 ^ 0 < (2 :: nat) ^ 64" using assms(1) by simp
    from decode_int_loop_encode [OF this, of r 1] False p show ?thesis
      using prefix_byte [OF _ assms(3,4), of "2 ^ p - 1"]
      by (simp add: decode_int_def encode_int_into_def)
  qed
qed

lemma encode_int_into_Cons:
  assumes "p \<le> 8"
  obtains n where "n < 2 ^ p" "hd (encode_int_into val p fl) = word_of_nat n OR fl"
    "encode_int_into val p fl \<noteq> []"
proof (cases "val < 2 ^ p - 1")
  case True
  with that [of val] show ?thesis by (simp add: encode_int_into_def)
next
  case False
  with that [of "2 ^ p - 1"] show ?thesis by (simp add: encode_int_into_def)
qed

lemma decode_int_loop_exact:
  assumes "decode_int_loop bs val i shift = Ok (v, n)" "val < 2 ^ 64"
  shows "v < 2 ^ 64 \<and> i < n \<and> n - i \<le> length bs \<and> v = val + 2 ^ shift * groups_value (take (n - i) bs)"
  using assms
proof (induction bs val i shift rule: decode_int_loop.induct)
  case (2 b bs val i shift)
  define part where "part = unat (b AND 0x7f)"
  define shifted where "shifted = push_bit shift part mod 2 ^ 64"
  have pb: "part = unat b mod 128" by (simp add: part_def byte_and_127)
  have u: "decode_int_loop (b # bs) val i shift =
     (if drop_bit shift shifted \<noteq> part then Err (BadResponse ''hpack: integer overflow'')
      else res_bind (ok_or (BadResponse ''hpack: integer overflow'') (checked_add_u64 val shifted)) (\<lambda>val'.
        if b AND 0x80 = 0 then Ok (val', i + 1)
        else if shift + 7 > 63 then Err (BadResponse ''hpack: integer overflow'')
        else decode_int_loop bs val' (i + 1) (shift + 7)))"
    unfolding decode_int_loop.simps Let_def part_def [symmetric] shifted_def [symmetric] by (rule refl)
  from "2.prems"(1) have eq: "drop_bit shift shifted = part" and fits: "val + shifted \<le> U64_MAX"
    unfolding u by (auto simp: checked_add_u64_def split: if_splits)
  have sv: "shifted = part * 2 ^ shift"
  proof -
    have "shifted div 2 ^ shift = part" using eq by (simp add: drop_bit_eq_div)
    moreover have "shifted \<le> part * 2 ^ shift" by (simp add: shifted_def push_bit_eq_mult)
    moreover have "shifted div 2 ^ shift * 2 ^ shift \<le> shifted" by simp
    ultimately show ?thesis by simp
  qed
  then have "checked_add_u64 val shifted = Some (val + part * 2 ^ shift)"
    using fits by (simp add: checked_add_u64_def)
  with eq have run: "decode_int_loop (b # bs) val i shift =
     (if b AND 0x80 = 0 then Ok (val + part * 2 ^ shift, i + 1)
      else if shift + 7 > 63 then Err (BadResponse ''hpack: integer overflow'')
      else decode_int_loop bs (val + part * 2 ^ shift) (i + 1) (shift + 7))"
    unfolding u by simp
  have lt: "val + part * 2 ^ shift < 2 ^ 64" using fits sv by simp
  show ?case
  proof (cases "b AND 0x80 = 0")
    case True
    with "2.prems"(1) lt show ?thesis unfolding run by (auto simp: pb mult.commute)
  next
    case False
    with "2.prems"(1) have sh: "\<not> shift + 7 > 63"
      and rest: "decode_int_loop bs (val + part * 2 ^ shift) (i + 1) (shift + 7) = Ok (v, n)"
      unfolding run by (auto split: if_splits)
    have *: "v < 2 ^ 64 \<and> i + 1 < n \<and> n - (i + 1) \<le> length bs \<and>
        v = val + part * 2 ^ shift + 2 ^ (shift + 7) * groups_value (take (n - (i + 1)) bs)"
      by (rule "2.IH" [OF part_def shifted_def _ _ _ _ rest lt])
        (use eq False sh \<open>checked_add_u64 val shifted = _\<close> in auto)
    then have "n - i = Suc (n - (i + 1))" by linarith
    with * show ?thesis by (simp add: pb algebra_simps power_add)
  qed
qed simp

lemma decode_int_exact:
  assumes "decode_int buf p = Ok (v, n)"
  shows "1 \<le> n \<and> n \<le> length buf \<and> v < 2 ^ 64 \<and> v = prefixed_value p (take n buf)"
proof (cases buf)
  case (Cons b bs)
  define m where "m = (2 :: nat) ^ p - 1"
  have val: "unat b AND m = unat b mod 2 ^ p" unfolding m_def by (rule nat_and_prefix)
  have "unat b mod 2 ^ p < 2 ^ 64" using unsigned_less [of b, where ?'a = nat] le_less_trans [OF mod_less_eq_dividend] by simp
  note lt = this
  have u: "decode_int buf p = (if unat b mod 2 ^ p < m then Ok (unat b mod 2 ^ p, 1)
      else decode_int_loop bs (unat b mod 2 ^ p) 1 0)"
    unfolding decode_int_def Cons Let_def list.case m_def [symmetric] val by (rule refl)
  show ?thesis
  proof (cases "unat b mod 2 ^ p < m")
    case True
    with assms(1) have "v = unat b mod 2 ^ p" "n = 1" unfolding u by auto
    with lt show ?thesis by (simp add: Cons prefixed_value_def)
  next
    case False
    with assms(1) have "decode_int_loop bs (unat b mod 2 ^ p) 1 0 = Ok (v, n)" unfolding u by simp
    from decode_int_loop_exact [OF this lt] show ?thesis
      by (cases n) (auto simp: Cons prefixed_value_def)
  qed
qed (use assms in \<open>simp add: decode_int_def\<close>)

section \<open>Properties\<close>

text \<open>
  HPACK integers round-trip: a 64-bit value written by \<open>encode_int_into\<close> behind any flag
  bits above its prefix is read back by \<open>decode_int\<close>, whatever follows it, together with the
  number of bytes it takes.
\<close>

theorem hpack_int_roundtrip:
  assumes "val < 2 ^ 64" "0 < p" "p \<le> 8" "take_bit p fl = 0"
  shows "decode_int (encode_int_into val p fl @ r) p = Ok (val, length (encode_int_into val p fl))"
  using assms by (rule decode_encode_int)

lemma hpack_int_roundtrip_witness:
  "decode_int (encode_int_into 1337 5 0x20 @ [1]) 5 = Ok (1337, 3)"
proof -
  have "length (encode_int_into 1337 5 0x20) = 3"
    by (simp add: encode_int_into_def encode_int_tail.simps drop_bit_eq_div)
  with hpack_int_roundtrip [of 1337 5 "0x20" "[1]"] show ?thesis by simp
qed

text \<open>
  An HPACK integer is never silently truncated: when \<open>decode_int\<close> accepts, it consumed at
  least one and at most all of the bytes, and the 64-bit value it returns is the
  mathematical value of the consumed prefix (every over-long or overflowing form is an error).
\<close>

theorem hpack_decode_int_exact:
  assumes "decode_int buf p = Ok (v, n)"
  shows "1 \<le> n \<and> n \<le> length buf \<and> v < 2 ^ 64 \<and> v = prefixed_value p (take n buf)"
  using assms by (rule decode_int_exact)

lemma hpack_decode_int_exact_witness:
  "decode_int [31, 154, 10, 7] 5 = Ok (1337, 3) \<and> prefixed_value 5 (take 3 [31, 154, 10, 7]) = 1337"
proof -
  have r: "decode_int [31, 154, 10, 7] 5 = Ok (1337, 3)"
    by (simp add: decode_int_def checked_add_u64_def)
  from hpack_decode_int_exact [OF r] r show ?thesis by simp
qed

end
