(* ===== verification/Hpack_Tables.thy ===== *)
theory Hpack_Tables
  imports Codec "HOL-Library.Product_Lexorder" "HOL-Library.Multiset"
begin

text \<open>
  The constant tables of HPACK in \<open>src/src/http2.rs\<close>: \<open>STATIC_TABLE\<close> with its two index
  functions, the Huffman code \<open>HUFFMAN\<close>, and the canonical decode index \<open>huffman_index\<close> with
  \<open>lookup_huffman\<close>. The lemmas establish what the rest of the development needs of the
  code: the sorted code words tile the interval $[0, 2^{30})$, so the code is prefix-free
  and complete, and the index is a correct inverse of the table.
\<close>

section \<open>Static table\<close>

definition STATIC_TABLE :: "(string \<times> string) list" where
  "STATIC_TABLE = [
     ('':authority'', ''''), ('':method'', ''GET''), ('':method'', ''POST''),
     ('':path'', ''/''), ('':path'', ''/index.html''), ('':scheme'', ''http''),
     ('':scheme'', ''https''), ('':status'', ''200''), ('':status'', ''204''),
     ('':status'', ''206''), ('':status'', ''304''), ('':status'', ''400''),
     ('':status'', ''404''), ('':status'', ''500''), (''accept-charset'', ''''),
     (''accept-encoding'', ''gzip, deflate''), (''accept-language'', ''''),
     (''accept-ranges'', ''''), (''accept'', ''''), (''access-control-allow-origin'', ''''),
     (''age'', ''''), (''allow'', ''''), (''authorization'', ''''), (''cache-control'', ''''),
     (''content-disposition'', ''''), (''content-encoding'', ''''),
     (''content-language'', ''''), (''content-length'', ''''), (''content-location'', ''''),
     (''content-range'', ''''), (''content-type'', ''''), (''cookie'', ''''), (''date'', ''''),
     (''etag'', ''''), (''expect'', ''''), (''expires'', ''''), (''from'', ''''),
     (''host'', ''''), (''if-match'', ''''), (''if-modified-since'', ''''),
     (''if-none-match'', ''''), (''if-range'', ''''), (''if-unmodified-since'', ''''),
     (''last-modified'', ''''), (''link'', ''''), (''location'', ''''),
     (''max-forwards'', ''''), (''proxy-authenticate'', ''''), (''proxy-authorization'', ''''),
     (''range'', ''''), (''referer'', ''''), (''refresh'', ''''), (''retry-after'', ''''),
     (''server'', ''''), (''set-cookie'', ''''), (''strict-transport-security'', ''''),
     (''transfer-encoding'', ''''), (''user-agent'', ''''), (''vary'', ''''), (''via'', ''''),
     (''www-authenticate'', '''')]"

definition static_full_index :: "string \<Rightarrow> string \<Rightarrow> nat option" where
  "static_full_index name val =
     map_option (\<lambda>i. i + 1) (position (\<lambda>(n, v). n = name \<and> v = val) STATIC_TABLE)"

definition static_name_index :: "string \<Rightarrow> nat option" where
  "static_name_index name = map_option (\<lambda>i. i + 1) (position (\<lambda>(n, _). n = name) STATIC_TABLE)"

section \<open>Huffman table and index\<close>

definition HUFFMAN :: "(nat \<times> nat) list" where
  "HUFFMAN = [
     (0x1ff8, 13), (0x7fffd8, 23), (0xfffffe2, 28), (0xfffffe3, 28), (0xfffffe4, 28),
     (0xfffffe5, 28), (0xfffffe6, 28), (0xfffffe7, 28), (0xfffffe8, 28), (0xffffea, 24),
     (0x3ffffffc, 30), (0xfffffe9, 28), (0xfffffea, 28), (0x3ffffffd, 30), (0xfffffeb, 28),
     (0xfffffec, 28), (0xfffffed, 28), (0xfffffee, 28), (0xfffffef, 28), (0xffffff0, 28),
     (0xffffff1, 28), (0xffffff2, 28), (0x3ffffffe, 30), (0xffffff3, 28), (0xffffff4, 28),
     (0xffffff5, 28), (0xffffff6, 28), (0xffffff7, 28), (0xffffff8, 28), (0xffffff9, 28),
     (0xffffffa, 28), (0xffffffb, 28), (0x14, 6), (0x3f8, 10), (0x3f9, 10), (0xffa, 12),
     (0x1ff9, 13), (0x15, 6), (0xf8, 8), (0x7fa, 11), (0x3fa, 10), (0x3fb, 10), (0xf9, 8),
     (0x7fb, 11), (0xfa, 8), (0x16, 6), (0x17, 6), (0x18, 6), (0x0, 5), (0x1, 5), (0x2, 5),
     (0x19, 6), (0x1a, 6), (0x1b, 6), (0x1c, 6), (0x1d, 6), (0x1e, 6), (0x1f, 6), (0x5c, 7),
     (0xfb, 8), (0x7ffc, 15), (0x20, 6), (0xffb, 12), (0x3fc, 10), (0x1ffa, 13), (0x21, 6),
     (0x5d, 7), (0x5e, 7), (0x5f, 7), (0x60, 7), (0x61, 7), (0x62, 7), (0x63, 7), (0x64, 7),
     (0x65, 7), (0x66, 7), (0x67, 7), (0x68, 7), (0x69, 7), (0x6a, 7), (0x6b, 7), (0x6c, 7),
     (0x6d, 7), (0x6e, 7), (0x6f, 7), (0x70, 7), (0x71, 7), (0x72, 7), (0xfc, 8), (0x73, 7),
     (0xfd, 8), (0x1ffb, 13), (0x7fff0, 19), (0x1ffc, 13), (0x3ffc, 14), (0x22, 6),
     (0x7ffd, 15), (0x3, 5), (0x23, 6), (0x4, 5), (0x24, 6), (0x5, 5), (0x25, 6), (0x26, 6),
     (0x27, 6), (0x6, 5), (0x74, 7), (0x75, 7), (0x28, 6), (0x29, 6), (0x2a, 6), (0x7, 5),
     (0x2b, 6), (0x76, 7), (0x2c, 6), (0x8, 5), (0x9, 5), (0x2d, 6), (0x77, 7), (0x78, 7),
     (0x79, 7), (0x7a, 7), (0x7b, 7), (0x7ffe, 15), (0x7fc, 11), (0x3ffd, 14), (0x1ffd, 13),
     (0xffffffc, 28), (0xfffe6, 20), (0x3fffd2, 22), (0xfffe7, 20), (0xfffe8, 20),
     (0x3fffd3, 22), (0x3fffd4, 22), (0x3fffd5, 22), (0x7fffd9, 23), (0x3fffd6, 22),
     (0x7fffda, 23), (0x7fffdb, 23), (0x7fffdc, 23), (0x7fffdd, 23), (0x7fffde, 23),
     (0xffffeb, 24), (0x7fffdf, 23), (0xffffec, 24), (0xffffed, 24), (0x3fffd7, 22),
     (0x7fffe0, 23), (0xffffee, 24), (0x7fffe1, 23), (0x7fffe2, 23), (0x7fffe3, 23),
     (0x7fffe4, 23), (0x1fffdc, 21), (0x3fffd8, 22), (0x7fffe5, 23), (0x3fffd9, 22),
     (0x7fffe6, 23), (0x7fffe7, 23), (0xffffef, 24), (0x3fffda, 22), (0x1fffdd, 21),
     (0xfffe9, 20), (0x3fffdb, 22), (0x3fffdc, 22), (0x7fffe8, 23), (0x7fffe9, 23),
     (0x1fffde, 21), (0x7fffea, 23), (0x3fffdd, 22), (0x3fffde, 22), (0xfffff0, 24),
     (0x1fffdf, 21), (0x3fffdf, 22), (0x7fffeb, 23), (0x7fffec, 23), (0x1fffe0, 21),
     (0x1fffe1, 21), (0x3fffe0, 22), (0x1fffe2, 21), (0x7fffed, 23), (0x3fffe1, 22),
     (0x7fffee, 23), (0x7fffef, 23), (0xfffea, 20), (0x3fffe2, 22), (0x3fffe3, 22),
     (0x3fffe4, 22), (0x7ffff0, 23), (0x3fffe5, 22), (0x3fffe6, 22), (0x7ffff1, 23),
     (0x3ffffe0, 26), (0x3ffffe1, 26), (0xfffeb, 20), (0x7fff1, 19), (0x3fffe7, 22),
     (0x7ffff2, 23), (0x3fffe8, 22), (0x1ffffec, 25), (0x3ffffe2, 26), (0x3ffffe3, 26),
     (0x3ffffe4, 26), (0x7ffffde, 27), (0x7ffffdf, 27), (0x3ffffe5, 26), (0xfffff1, 24),
     (0x1ffffed, 25), (0x7fff2, 19), (0x1fffe3, 21), (0x3ffffe6, 26), (0x7ffffe0, 27),
     (0x7ffffe1, 27), (0x3ffffe7, 26), (0x7ffffe2, 27), (0xfffff2, 24), (0x1fffe4, 21),
     (0x1fffe5, 21), (0x3ffffe8, 26), (0x3ffffe9, 26), (0xffffffd, 28), (0x7ffffe3, 27),
     (0x7ffffe4, 27), (0x7ffffe5, 27), (0xfffec, 20), (0xfffff3, 24), (0xfffed, 20),
     (0x1fffe6, 21), (0x3fffe9, 22), (0x1fffe7, 21), (0x1fffe8, 21), (0x7ffff3, 23),
     (0x3fffea, 22), (0x3fffeb, 22), (0x1ffffee, 25), (0x1ffffef, 25), (0xfffff4, 24),
     (0xfffff5, 24), (0x3ffffea, 26), (0x7ffff4, 23), (0x3ffffeb, 26), (0x7ffffe6, 27),
     (0x3ffffec, 26), (0x3ffffed, 26), (0x7ffffe7, 27), (0x7ffffe8, 27), (0x7ffffe9, 27),
     (0x7ffffea, 27), (0x7ffffeb, 27), (0xffffffe, 28), (0x7ffffec, 27), (0x7ffffed, 27),
     (0x7ffffee, 27), (0x7ffffef, 27), (0x7fffff0, 27), (0x3ffffee, 26), (0x3fffffff, 30)]"

record huffman_index =
  hi_first :: "nat list"
  hi_count :: "nat list"
  hi_offset :: "nat list"
  hi_symbols :: "nat list"

text \<open>\<open>order.sort_by_key\<close> over the 257 symbols.\<close>

definition huffman_order :: "nat list" where
  "huffman_order = sort_key (\<lambda>s. (snd (HUFFMAN ! s), fst (HUFFMAN ! s))) [0..<257]"

fun huffman_index_step :: "huffman_index \<Rightarrow> nat \<times> nat \<Rightarrow> huffman_index" where
  "huffman_index_step idx (pos, smb) =
     (let idx1 = idx\<lparr>hi_symbols := (hi_symbols idx)[pos := smb]\<rparr>;
          (code, l) = HUFFMAN ! smb;
          idx2 = (if hi_count idx1 ! l = 0
                  then idx1\<lparr>hi_first := (hi_first idx1)[l := code], hi_offset := (hi_offset idx1)[l := pos]\<rparr>
                  else idx1)
      in idx2\<lparr>hi_count := (hi_count idx2)[l := hi_count idx2 ! l + 1]\<rparr>)"

definition huffman_index :: huffman_index where
  "huffman_index =
     foldl huffman_index_step
       \<lparr>hi_first = replicate 31 0, hi_count = replicate 31 0, hi_offset = replicate 31 0,
        hi_symbols = replicate 257 0\<rparr>
       (enumerate 0 huffman_order)"

definition lookup_huffman :: "nat \<Rightarrow> nat \<Rightarrow> nat option" where
  "lookup_huffman code l =
     (if l \<ge> length (hi_count huffman_index) \<or> hi_count huffman_index ! l = 0 then None
      else if code < hi_first huffman_index ! l then None
      else let delta = code - hi_first huffman_index ! l
           in if delta \<ge> hi_count huffman_index ! l then None
              else Some (hi_symbols huffman_index ! (hi_offset huffman_index ! l + delta)))"

section \<open>Evaluating the tables\<close>

lemma length_STATIC_TABLE [simp]: "length STATIC_TABLE = 61"
  by (simp add: STATIC_TABLE_def)

lemma length_HUFFMAN [simp]: "length HUFFMAN = 257"
  by (simp add: HUFFMAN_def)

text \<open>The symbols and their code words in canonical order.\<close>

definition canonical_symbols :: "nat list" where
  "canonical_symbols = [
     48, 49, 50, 97, 99, 101, 105, 111, 115, 116, 32, 37, 45, 46, 47, 51, 52, 53, 54, 55, 56,
     57, 61, 65, 95, 98, 100, 102, 103, 104, 108, 109, 110, 112, 114, 117, 58, 66, 67, 68, 69,
     70, 71, 72, 73, 74, 75, 76, 77, 78, 79, 80, 81, 82, 83, 84, 85, 86, 87, 89, 106, 107, 113,
     118, 119, 120, 121, 122, 38, 42, 44, 59, 88, 90, 33, 34, 40, 41, 63, 39, 43, 124, 35, 62,
     0, 36, 64, 91, 93, 126, 94, 125, 60, 96, 123, 92, 195, 208, 128, 130, 131, 162, 184, 194,
     224, 226, 153, 161, 167, 172, 176, 177, 179, 209, 216, 217, 227, 229, 230, 129, 132, 133,
     134, 136, 146, 154, 156, 160, 163, 164, 169, 170, 173, 178, 181, 185, 186, 187, 189, 190,
     196, 198, 228, 232, 233, 1, 135, 137, 138, 139, 140, 141, 143, 147, 149, 150, 151, 152,
     155, 157, 158, 165, 166, 168, 174, 175, 180, 182, 183, 188, 191, 197, 231, 239, 9, 142,
     144, 145, 148, 159, 171, 206, 215, 225, 236, 237, 199, 207, 234, 235, 192, 193, 200, 201,
     202, 205, 210, 213, 218, 219, 238, 240, 242, 243, 255, 203, 204, 211, 212, 214, 221, 222,
     223, 241, 244, 245, 246, 247, 248, 250, 251, 252, 253, 254, 2, 3, 4, 5, 6, 7, 8, 11, 12,
     14, 15, 16, 17, 18, 19, 20, 21, 23, 24, 25, 26, 27, 28, 29, 30, 31, 127, 220, 249, 10, 13,
     22, 256]"

definition canonical_codes :: "(nat \<times> nat) list" where
  "canonical_codes = [
     (0x0, 5), (0x1, 5), (0x2, 5), (0x3, 5), (0x4, 5), (0x5, 5), (0x6, 5), (0x7, 5), (0x8, 5),
     (0x9, 5), (0x14, 6), (0x15, 6), (0x16, 6), (0x17, 6), (0x18, 6), (0x19, 6), (0x1a, 6),
     (0x1b, 6), (0x1c, 6), (0x1d, 6), (0x1e, 6), (0x1f, 6), (0x20, 6), (0x21, 6), (0x22, 6),
     (0x23, 6), (0x24, 6), (0x25, 6), (0x26, 6), (0x27, 6), (0x28, 6), (0x29, 6), (0x2a, 6),
     (0x2b, 6), (0x2c, 6), (0x2d, 6), (0x5c, 7), (0x5d, 7), (0x5e, 7), (0x5f, 7), (0x60, 7),
     (0x61, 7), (0x62, 7), (0x63, 7), (0x64, 7), (0x65, 7), (0x66, 7), (0x67, 7), (0x68, 7),
     (0x69, 7), (0x6a, 7), (0x6b, 7), (0x6c, 7), (0x6d, 7), (0x6e, 7), (0x6f, 7), (0x70, 7),
     (0x71, 7), (0x72, 7), (0x73, 7), (0x74, 7), (0x75, 7), (0x76, 7), (0x77, 7), (0x78, 7),
     (0x79, 7), (0x7a, 7), (0x7b, 7), (0xf8, 8), (0xf9, 8), (0xfa, 8), (0xfb, 8), (0xfc, 8),
     (0xfd, 8), (0x3f8, 10), (0x3f9, 10), (0x3fa, 10), (0x3fb, 10), (0x3fc, 10), (0x7fa, 11),
     (0x7fb, 11), (0x7fc, 11), (0xffa, 12), (0xffb, 12), (0x1ff8, 13), (0x1ff9, 13),
     (0x1ffa, 13), (0x1ffb, 13), (0x1ffc, 13), (0x1ffd, 13), (0x3ffc, 14), (0x3ffd, 14),
     (0x7ffc, 15), (0x7ffd, 15), (0x7ffe, 15), (0x7fff0, 19), (0x7fff1, 19), (0x7fff2, 19),
     (0xfffe6, 20), (0xfffe7, 20), (0xfffe8, 20), (0xfffe9, 20), (0xfffea, 20), (0xfffeb, 20),
     (0xfffec, 20), (0xfffed, 20), (0x1fffdc, 21), (0x1fffdd, 21), (0x1fffde, 21),
     (0x1fffdf, 21), (0x1fffe0, 21), (0x1fffe1, 21), (0x1fffe2, 21), (0x1fffe3, 21),
     (0x1fffe4, 21), (0x1fffe5, 21), (0x1fffe6, 21), (0x1fffe7, 21), (0x1fffe8, 21),
     (0x3fffd2, 22), (0x3fffd3, 22), (0x3fffd4, 22), (0x3fffd5, 22), (0x3fffd6, 22),
     (0x3fffd7, 22), (0x3fffd8, 22), (0x3fffd9, 22), (0x3fffda, 22), (0x3fffdb, 22),
     (0x3fffdc, 22), (0x3fffdd, 22), (0x3fffde, 22), (0x3fffdf, 22), (0x3fffe0, 22),
     (0x3fffe1, 22), (0x3fffe2, 22), (0x3fffe3, 22), (0x3fffe4, 22), (0x3fffe5, 22),
     (0x3fffe6, 22), (0x3fffe7, 22), (0x3fffe8, 22), (0x3fffe9, 22), (0x3fffea, 22),
     (0x3fffeb, 22), (0x7fffd8, 23), (0x7fffd9, 23), (0x7fffda, 23), (0x7fffdb, 23),
     (0x7fffdc, 23), (0x7fffdd, 23), (0x7fffde, 23), (0x7fffdf, 23), (0x7fffe0, 23),
     (0x7fffe1, 23), (0x7fffe2, 23), (0x7fffe3, 23), (0x7fffe4, 23), (0x7fffe5, 23),
     (0x7fffe6, 23), (0x7fffe7, 23), (0x7fffe8, 23), (0x7fffe9, 23), (0x7fffea, 23),
     (0x7fffeb, 23), (0x7fffec, 23), (0x7fffed, 23), (0x7fffee, 23), (0x7fffef, 23),
     (0x7ffff0, 23), (0x7ffff1, 23), (0x7ffff2, 23), (0x7ffff3, 23), (0x7ffff4, 23),
     (0xffffea, 24), (0xffffeb, 24), (0xffffec, 24), (0xffffed, 24), (0xffffee, 24),
     (0xffffef, 24), (0xfffff0, 24), (0xfffff1, 24), (0xfffff2, 24), (0xfffff3, 24),
     (0xfffff4, 24), (0xfffff5, 24), (0x1ffffec, 25), (0x1ffffed, 25), (0x1ffffee, 25),
     (0x1ffffef, 25), (0x3ffffe0, 26), (0x3ffffe1, 26), (0x3ffffe2, 26), (0x3ffffe3, 26),
     (0x3ffffe4, 26), (0x3ffffe5, 26), (0x3ffffe6, 26), (0x3ffffe7, 26), (0x3ffffe8, 26),
     (0x3ffffe9, 26), (0x3ffffea, 26), (0x3ffffeb, 26), (0x3ffffec, 26), (0x3ffffed, 26),
     (0x3ffffee, 26), (0x7ffffde, 27), (0x7ffffdf, 27), (0x7ffffe0, 27), (0x7ffffe1, 27),
     (0x7ffffe2, 27), (0x7ffffe3, 27), (0x7ffffe4, 27), (0x7ffffe5, 27), (0x7ffffe6, 27),
     (0x7ffffe7, 27), (0x7ffffe8, 27), (0x7ffffe9, 27), (0x7ffffea, 27), (0x7ffffeb, 27),
     (0x7ffffec, 27), (0x7ffffed, 27), (0x7ffffee, 27), (0x7ffffef, 27), (0x7fffff0, 27),
     (0xfffffe2, 28), (0xfffffe3, 28), (0xfffffe4, 28), (0xfffffe5, 28), (0xfffffe6, 28),
     (0xfffffe7, 28), (0xfffffe8, 28), (0xfffffe9, 28), (0xfffffea, 28), (0xfffffeb, 28),
     (0xfffffec, 28), (0xfffffed, 28), (0xfffffee, 28), (0xfffffef, 28), (0xffffff0, 28),
     (0xffffff1, 28), (0xffffff2, 28), (0xffffff3, 28), (0xffffff4, 28), (0xffffff5, 28),
     (0xffffff6, 28), (0xffffff7, 28), (0xffffff8, 28), (0xffffff9, 28), (0xffffffa, 28),
     (0xffffffb, 28), (0xffffffc, 28), (0xffffffd, 28), (0xffffffe, 28), (0x3ffffffc, 30),
     (0x3ffffffd, 30), (0x3ffffffe, 30), (0x3fffffff, 30)]"

lemma length_canonical [simp]:
  "length canonical_symbols = 257" "length canonical_codes = 257"
  by (simp_all add: canonical_symbols_def canonical_codes_def)

lemma canonical_codes_eq: "map ((!) HUFFMAN) canonical_symbols = canonical_codes"
  unfolding HUFFMAN_def canonical_symbols_def canonical_codes_def by simp

lemma canonical_symbols_less: "list_all (\<lambda>s. s < 257) canonical_symbols"
  unfolding canonical_symbols_def by simp

lemma canonical_code_lengths: "list_all (\<lambda>(c, l). 5 \<le> l \<and> l \<le> 30 \<and> c < 2 ^ l) canonical_codes"
  unfolding canonical_codes_def by simp

lemma canonical_sorted: "sorted (map prod.swap canonical_codes)"
  unfolding canonical_codes_def
  by (simp add: sorted2_simps less_eq_prod_def del: sorted_wrt.simps)

text \<open>The canonical code words, left-aligned to 30 bits, tile the numbers below $2^{30}$.\<close>

fun tiles :: "nat \<Rightarrow> (nat \<times> nat) list \<Rightarrow> bool" where
  "tiles start [] \<longleftrightarrow> start = 2 ^ 30"
| "tiles start ((c, l) # es) \<longleftrightarrow> c * 2 ^ (30 - l) = start \<and> tiles (start + 2 ^ (30 - l)) es"

lemma canonical_tiles: "tiles 0 canonical_codes"
  unfolding canonical_codes_def by simp

text \<open>The arrays of the index, without the symbols, over the canonical code words.\<close>

fun index_arrays ::
  "nat list \<Rightarrow> nat list \<Rightarrow> nat list \<Rightarrow> nat \<Rightarrow> (nat \<times> nat) list \<Rightarrow> nat list \<times> nat list \<times> nat list" where
  "index_arrays f c off pos [] = (f, c, off)"
| "index_arrays f c off pos ((code, l) # es) =
     (if c ! l = 0
      then index_arrays (f[l := code]) (c[l := c ! l + 1]) (off[l := pos]) (pos + 1) es
      else index_arrays f (c[l := c ! l + 1]) off (pos + 1) es)"

lemma replicate_31: "replicate 31 x =
    [x, x, x, x, x, x, x, x, x, x, x, x, x, x, x, x, x, x, x, x, x, x, x, x, x, x, x, x, x, x, x]"
  by (simp add: eval_nat_numeral)

definition index_first :: "nat list" where
  "index_first = [0, 0, 0, 0, 0, 0, 20, 92, 248, 0, 1016, 2042, 4090, 8184, 16380, 32764, 0, 0, 0, 524272,
     1048550, 2097116, 4194258, 8388568, 16777194, 33554412, 67108832, 134217694, 268435426, 0,
     1073741820]"

definition index_count :: "nat list" where
  "index_count = [0, 0, 0, 0, 0, 10, 26, 32, 6, 0, 5, 3, 2, 6, 2, 3, 0, 0, 0, 3, 8, 13, 26, 29, 12, 4, 15,
     19, 29, 0, 4]"

definition index_offset :: "nat list" where
  "index_offset = [0, 0, 0, 0, 0, 0, 10, 36, 68, 0, 74, 79, 82, 84, 90, 92, 0, 0, 0, 95, 98, 106, 119, 145,
     174, 186, 190, 205, 224, 0, 253]"

lemma index_arrays_canonical:
  "index_arrays (replicate 31 0) (replicate 31 0) (replicate 31 0) 0 canonical_codes =
     (index_first, index_count, index_offset)"
  unfolding canonical_codes_def index_first_def index_count_def index_offset_def replicate_31
  by simp

lemma index_blocks:
  "list_all (\<lambda>l. take (index_count ! l) (drop (index_offset ! l) canonical_codes) =
      map (\<lambda>d. (index_first ! l + d, l)) [0..<index_count ! l] \<and>
      index_offset ! l + index_count ! l \<le> 257) [0..<31]"
  unfolding canonical_codes_def index_first_def index_count_def index_offset_def
  by (simp add: upt_rec)

section \<open>The canonical code\<close>

lemma tiles_bounds:
  "tiles start es \<Longrightarrow> start \<le> 2 ^ 30"
  by (induction start es rule: tiles.induct) auto

lemma tiles_mem:
  "tiles start es \<Longrightarrow> (c, l) \<in> set es \<Longrightarrow> start \<le> c * 2 ^ (30 - l) \<and> (c + 1) * 2 ^ (30 - l) \<le> 2 ^ 30"
proof (induction start es rule: tiles.induct)
  case (2 start c' l' es)
  then show ?case using tiles_bounds [of "start + 2 ^ (30 - l')" es] by fastforce
qed simp

text \<open>Every number below $2^{30}$ lies under exactly one code word.\<close>

lemma tiles_cover:
  "tiles start es \<Longrightarrow> start \<le> v \<Longrightarrow> v < 2 ^ 30 \<Longrightarrow> \<exists>(c, l)\<in>set es. v div 2 ^ (30 - l) = c"
proof (induction start es rule: tiles.induct)
  case (2 start c l es)
  show ?case
  proof (cases "v < start + 2 ^ (30 - l)")
    case True
    with "2.prems" have "v div 2 ^ (30 - l) = c"
      by (intro div_nat_eqI) (auto simp: mult.commute)
    then show ?thesis by auto
  next
    case False
    with 2 show ?thesis by auto
  qed
qed simp

lemma tiles_unique:
  "tiles start es \<Longrightarrow> e \<in> set es \<Longrightarrow> e' \<in> set es \<Longrightarrow>
   v div 2 ^ (30 - snd e) = fst e \<Longrightarrow> v div 2 ^ (30 - snd e') = fst e' \<Longrightarrow> e = e'"
proof (induction start es rule: tiles.induct)
  case (2 start c l es)
  have range: "fst x * 2 ^ (30 - snd x) \<le> v \<and> v < (fst x + 1) * 2 ^ (30 - snd x)"
    if "v div 2 ^ (30 - snd x) = fst x" for x :: "nat \<times> nat"
  proof -
    have "v = fst x * 2 ^ (30 - snd x) + v mod 2 ^ (30 - snd x)"
      using div_mult_mod_eq [of v "2 ^ (30 - snd x)"] that by simp
    moreover have "v mod 2 ^ (30 - snd x) < 2 ^ (30 - snd x)" by simp
    ultimately have "fst x * 2 ^ (30 - snd x) \<le> v" "v < fst x * 2 ^ (30 - snd x) + 2 ^ (30 - snd x)"
      by linarith+
    then show ?thesis by simp
  qed
  have later: "c * 2 ^ (30 - l) + 2 ^ (30 - l) \<le> fst x * 2 ^ (30 - snd x)" if "x \<in> set es" for x
    using tiles_mem [of "start + 2 ^ (30 - l)" es "fst x" "snd x"] "2.prems"(1) that by auto
  from "2.prems" show ?case
    using range [of e] range [of e'] later [of e] later [of e'] "2.IH"
    by (fastforce simp: algebra_simps)
qed simp

lemma distinct_canonical_codes: "distinct canonical_codes"
proof -
  have "tiles start es \<Longrightarrow> distinct es" for start es
  proof (induction start es rule: tiles.induct)
    case (2 start c l es)
    then show ?case using tiles_mem [of "start + 2 ^ (30 - l)" es c l] by fastforce
  qed simp
  then show ?thesis using canonical_tiles by blast
qed

lemma distinct_canonical_symbols: "distinct canonical_symbols"
  using distinct_canonical_codes unfolding canonical_codes_eq [symmetric] by (simp add: distinct_map)

lemma set_canonical_symbols: "set canonical_symbols = {0..<257}"
proof (rule card_subset_eq)
  show "set canonical_symbols \<subseteq> {0..<257}"
    using canonical_symbols_less by (auto simp: list_all_iff)
  show "card (set canonical_symbols) = card {0..<257 :: nat}"
    using distinct_card [OF distinct_canonical_symbols] by simp
qed simp

lemma huffman_order_eq: "huffman_order = canonical_symbols"
proof -
  let ?key = "\<lambda>s. (snd (HUFFMAN ! s), fst (HUFFMAN ! s))"
  have map: "map ?key canonical_symbols = map prod.swap canonical_codes"
    unfolding canonical_codes_eq [symmetric] by (simp add: prod.swap_def o_def)
  have "distinct (map ?key canonical_symbols)"
    unfolding map by (simp add: distinct_map distinct_canonical_codes)
  then have inj: "inj_on ?key (set canonical_symbols)" by (simp add: distinct_map)
  show ?thesis
    unfolding huffman_order_def
  proof (rule sort_key_inj_key_eq)
    show "mset [0..<257] = mset canonical_symbols"
      using mset_set_set [OF distinct_canonical_symbols] by (simp add: set_canonical_symbols)
    show "inj_on ?key (set [0..<257])" using inj set_canonical_symbols by simp
    show "sorted (map ?key canonical_symbols)" unfolding map by (rule canonical_sorted)
  qed
qed

section \<open>The index is the inverse of the table\<close>

lemma index_fold_arrays:
  "index_arrays (hi_first idx) (hi_count idx) (hi_offset idx) pos (map ((!) HUFFMAN) ss) =
     (let r = foldl huffman_index_step idx (enumerate pos ss) in (hi_first r, hi_count r, hi_offset r))"
proof (induction ss arbitrary: idx pos)
  case (Cons s ss)
  obtain c l where cl: "HUFFMAN ! s = (c, l)" by (cases "HUFFMAN ! s")
  show ?case using Cons.IH [of "huffman_index_step idx (pos, s)" "Suc pos"] by (auto simp: cl Let_def)
qed simp

lemma index_fold_symbols:
  "pos + length ss \<le> length (hi_symbols idx) \<Longrightarrow>
   hi_symbols (foldl huffman_index_step idx (enumerate pos ss)) =
     take pos (hi_symbols idx) @ ss @ drop (pos + length ss) (hi_symbols idx)"
proof (induction ss arbitrary: idx pos)
  case (Cons s ss)
  obtain c l where cl: "HUFFMAN ! s = (c, l)" by (cases "HUFFMAN ! s")
  have "hi_symbols (huffman_index_step idx (pos, s)) = (hi_symbols idx)[pos := s]"
    by (simp add: cl Let_def)
  with Cons show ?case by (simp add: take_Suc_conv_app_nth)
qed simp

lemma huffman_index_eq:
  "hi_first huffman_index = index_first" "hi_count huffman_index = index_count"
  "hi_offset huffman_index = index_offset" "hi_symbols huffman_index = canonical_symbols"
proof -
  let ?i = "\<lparr>hi_first = replicate 31 0, hi_count = replicate 31 0, hi_offset = replicate 31 0,
        hi_symbols = replicate 257 0\<rparr>"
  show "hi_first huffman_index = index_first" "hi_count huffman_index = index_count"
    "hi_offset huffman_index = index_offset"
    using index_fold_arrays [of ?i 0 canonical_symbols] index_arrays_canonical
    by (simp_all add: huffman_index_def huffman_order_eq canonical_codes_eq Let_def)
  show "hi_symbols huffman_index = canonical_symbols"
    using index_fold_symbols [of 0 canonical_symbols ?i]
    by (simp add: huffman_index_def huffman_order_eq)
qed

lemma index_block_nth:
  assumes "l < 31" "d < index_count ! l"
  shows "index_offset ! l + d < 257" "canonical_codes ! (index_offset ! l + d) = (index_first ! l + d, l)"
proof -
  from index_blocks assms(1)
  have t: "take (index_count ! l) (drop (index_offset ! l) canonical_codes) =
      map (\<lambda>d. (index_first ! l + d, l)) [0..<index_count ! l]"
    and b: "index_offset ! l + index_count ! l \<le> 257" by (auto simp: list_all_iff)
  from b assms(2) show "index_offset ! l + d < 257" by simp
  have "canonical_codes ! (index_offset ! l + d) =
      take (index_count ! l) (drop (index_offset ! l) canonical_codes) ! d"
    using assms(2) b by simp
  then show "canonical_codes ! (index_offset ! l + d) = (index_first ! l + d, l)"
    unfolding t using assms(2) by simp
qed

lemma length_index_count: "length index_count = 31"
  by (simp add: index_count_def)

lemma canonical_nth: "i < 257 \<Longrightarrow> HUFFMAN ! (canonical_symbols ! i) = canonical_codes ! i"
  using arg_cong [OF canonical_codes_eq, of "\<lambda>xs. xs ! i"] by simp

lemma canonical_nth_less: "i < 257 \<Longrightarrow> canonical_symbols ! i < 257"
  using canonical_symbols_less by (simp add: list_all_length)

lemma lookup_huffman_sound:
  assumes "lookup_huffman code l = Some s"
  shows "s < 257 \<and> HUFFMAN ! s = (code, l)"
proof -
  from assms have l: "l < 31" and c: "index_first ! l \<le> code" "code - index_first ! l < index_count ! l"
    and s: "s = canonical_symbols ! (index_offset ! l + (code - index_first ! l))"
    by (auto simp: lookup_huffman_def huffman_index_eq length_index_count Let_def split: if_splits)
  note i = index_block_nth [OF l c(2)]
  from i c(1) show ?thesis by (simp add: s canonical_nth canonical_nth_less)
qed

lemma HUFFMAN_inj:
  assumes "s < 257" "t < 257" "HUFFMAN ! s = HUFFMAN ! t"
  shows "s = t"
proof -
  from assms(1,2) set_canonical_symbols
  obtain i j where i: "i < 257" "s = canonical_symbols ! i" and j: "j < 257" "t = canonical_symbols ! j"
    by (metis atLeastLessThan_iff in_set_conv_nth le0 length_canonical(1))
  with assms(3) have "canonical_codes ! i = canonical_codes ! j" by (simp add: canonical_nth)
  with i j distinct_canonical_codes show ?thesis by (simp add: nth_eq_iff_index_eq)
qed

lemma HUFFMAN_canonical: "s < 257 \<Longrightarrow> HUFFMAN ! s \<in> set canonical_codes"
  unfolding canonical_codes_eq [symmetric] by (simp add: set_canonical_symbols)

text \<open>Every code word is found: the blocks of the index cover the whole canonical list.\<close>

lemma index_blocks_cover:
  "concat (map (\<lambda>l. map (\<lambda>d. (index_first ! l + d, l)) [0..<index_count ! l]) [0..<31]) = canonical_codes"
  unfolding canonical_codes_def index_first_def index_count_def
  by (simp add: upt_rec)

lemma lookup_huffman_complete:
  assumes "s < 257" "HUFFMAN ! s = (code, l)"
  shows "lookup_huffman code l = Some s"
proof -
  from HUFFMAN_canonical [OF assms(1)] assms(2) have "(code, l) \<in> set canonical_codes" by simp
  then have l: "l < 31" and c: "index_first ! l \<le> code" "code - index_first ! l < index_count ! l"
    unfolding index_blocks_cover [symmetric] by auto
  then have "lookup_huffman code l = Some (canonical_symbols ! (index_offset ! l + (code - index_first ! l)))"
    by (auto simp: lookup_huffman_def huffman_index_eq length_index_count Let_def)
  moreover from lookup_huffman_sound [OF this] have
    "canonical_symbols ! (index_offset ! l + (code - index_first ! l)) = s"
    using HUFFMAN_inj assms by metis
  ultimately show ?thesis by simp
qed

lemma huffman_length_bounds: "s < 257 \<Longrightarrow> 5 \<le> snd (HUFFMAN ! s) \<and> snd (HUFFMAN ! s) \<le> 30"
  using HUFFMAN_canonical [of s] canonical_code_lengths by (auto simp: list_all_iff)

lemma huffman_code_less: "s < 257 \<Longrightarrow> fst (HUFFMAN ! s) < 2 ^ snd (HUFFMAN ! s)"
  using HUFFMAN_canonical [of s] canonical_code_lengths by (auto simp: list_all_iff)

lemma huffman_cover:
  assumes "v < 2 ^ 30"
  shows "\<exists>s<257. v div 2 ^ (30 - snd (HUFFMAN ! s)) = fst (HUFFMAN ! s)"
proof -
  from tiles_cover [OF canonical_tiles _ assms] obtain c l where
    "(c, l) \<in> set canonical_codes" "v div 2 ^ (30 - l) = c" by auto
  then obtain i where "i < 257" "canonical_codes ! i = (c, l)" by (auto simp: in_set_conv_nth)
  with \<open>v div 2 ^ (30 - l) = c\<close> show ?thesis
    by (intro exI [of _ "canonical_symbols ! i"]) (simp add: canonical_nth canonical_nth_less)
qed

lemma huffman_unique:
  assumes "s < 257" "t < 257" "v div 2 ^ (30 - snd (HUFFMAN ! s)) = fst (HUFFMAN ! s)"
    "v div 2 ^ (30 - snd (HUFFMAN ! t)) = fst (HUFFMAN ! t)"
  shows "s = t"
  using tiles_unique [OF canonical_tiles HUFFMAN_canonical HUFFMAN_canonical, of s t v] assms HUFFMAN_inj
  by blast

lemma huffman_eos: "HUFFMAN ! 256 = (2 ^ 30 - 1, 30)"
  by (simp add: HUFFMAN_def)

end
