(* ===== verification/Hpack_Huffman.thy ===== *)
theory Hpack_Huffman
  imports Hpack_Tables
begin

text \<open>
  The HPACK Huffman codec of \<open>src/src/http2.rs\<close>: \<open>huffman_encode\<close>, which shifts code words
  into a byte buffer, and \<open>huffman_decode\<close>, which pulls them out of a 64-bit accumulator.
  Both are related to the same bit string, the concatenation of the code words padded with
  ones; decoding inverts encoding, and nothing but an encoding decodes.
\<close>

section \<open>Definitions\<close>

definition huffman_bit_len :: "bytes \<Rightarrow> nat" where
  "huffman_bit_len input = sum_list (map (\<lambda>b. snd (HUFFMAN ! unat b)) input)"

text \<open>The inner loop of \<open>huffman_encode\<close>: place the \<open>remaining\<close> low bits of \<open>code_left\<close>.\<close>

function place_code :: "bytes \<Rightarrow> nat \<Rightarrow> nat \<Rightarrow> nat \<Rightarrow> bytes \<times> nat" where
  "place_code out bit_pos remaining code_left =
     (if remaining > 0 then
        let byte_index = bit_pos div 8;
            bit_in_byte = bit_pos mod 8;
            space_in_byte = 8 - bit_in_byte;
            tk = min remaining space_in_byte;
            shift = remaining - tk;
            chunk = (word_of_nat (drop_bit shift code_left AND (2 ^ tk - 1)) :: byte);
            out' = out[byte_index := out ! byte_index OR push_bit (space_in_byte - tk) chunk];
            code_left' = (if shift > 0 then code_left AND (2 ^ shift - 1) else 0)
        in place_code out' (bit_pos + tk) (remaining - tk) code_left'
      else (out, bit_pos))"
  by pat_completeness auto
termination
proof (relation "measure (\<lambda>(out, bit_pos, remaining, code_left). remaining)", goal_cases)
  case (2 out bit_pos remaining code_left byte_index bit_in_byte space_in_byte tk)
  have "0 < tk" using 2(1) unfolding 2(5) 2(4) 2(3) by simp
  then have "remaining - tk < remaining" using 2(1) by simp
  then show ?case by (simp only: in_measure case_prod_conv)
qed simp

fun place_codes :: "bytes \<Rightarrow> nat \<Rightarrow> bytes \<Rightarrow> bytes \<times> nat" where
  "place_codes out bit_pos [] = (out, bit_pos)"
| "place_codes out bit_pos (b # bs) =
     (let (code, l) = HUFFMAN ! unat b;
          (out', bit_pos') = place_code out bit_pos l code
      in place_codes out' bit_pos' bs)"

definition huffman_encode :: "bytes \<Rightarrow> bytes" where
  "huffman_encode input =
     (let total_bits = huffman_bit_len input;
          out_len = div_ceil total_bits 8;
          out = fst (place_codes (replicate out_len 0) 0 input);
          trailing = (8 - total_bits mod 8) mod 8
      in if trailing > 0
         then let l = length out - 1 in out[l := out ! l OR (push_bit trailing 1 - 1)]
         else out)"

text \<open>The \<open>for try_len in 5..=max_len\<close> search of \<open>huffman_decode\<close>.\<close>

definition acc_code :: "nat \<Rightarrow> nat \<Rightarrow> nat \<Rightarrow> nat" where
  "acc_code acc acc_len try_len = (drop_bit (acc_len - try_len) acc AND (2 ^ try_len - 1)) mod 2 ^ 32"

fun find_code :: "nat \<Rightarrow> nat \<Rightarrow> nat list \<Rightarrow> (nat \<times> nat) option" where
  "find_code acc acc_len [] = None"
| "find_code acc acc_len (try_len # ls) =
     (case lookup_huffman (acc_code acc acc_len try_len) try_len of
        Some s \<Rightarrow> Some (s, try_len)
      | None \<Rightarrow> find_code acc acc_len ls)"

lemma find_code_mem: "find_code acc n ls = Some (s, l) \<Longrightarrow> l \<in> set ls"
  by (induction ls) (auto simp: Let_def split: option.splits)

definition try_lens :: "nat \<Rightarrow> nat list" where
  "try_lens acc_len = [5..<min acc_len 30 + 1]"

text \<open>The \<open>while acc_len >= 5\<close> loop.\<close>

function pull_symbols :: "nat \<Rightarrow> nat \<Rightarrow> bytes \<Rightarrow> (bytes \<times> nat) result" where
  "pull_symbols acc acc_len out =
     (if acc_len \<ge> 5 then
        (case find_code acc acc_len (try_lens acc_len) of
           None \<Rightarrow> Ok (out, acc_len)
         | Some (s, try_len) \<Rightarrow>
             if s = 256 then Err (BadResponse ''hpack: EOS symbol in Huffman literal'')
             else pull_symbols acc (acc_len - try_len) (out @ [word_of_nat s]))
      else Ok (out, acc_len))"
  by pat_completeness auto
termination
  by (relation "measure (\<lambda>(acc, acc_len, out). acc_len)") (auto dest!: find_code_mem simp: try_lens_def)

fun huffman_feed :: "bytes \<Rightarrow> nat \<Rightarrow> nat \<Rightarrow> bytes \<Rightarrow> (bytes \<times> nat \<times> nat) result" where
  "huffman_feed out acc acc_len [] = Ok (out, acc, acc_len)"
| "huffman_feed out acc acc_len (b # bs) =
     (let acc' = (push_bit 8 acc mod 2 ^ 64) OR unat b
      in res_bind (pull_symbols acc' (acc_len + 8) out) (\<lambda>(out', acc_len').
           huffman_feed out' acc' acc_len' bs))"

definition huffman_decode :: "bytes \<Rightarrow> bytes result" where
  "huffman_decode input =
     res_bind (huffman_feed [] 0 0 input) (\<lambda>(out, acc, acc_len).
       if acc_len \<ge> 8 then Err (BadResponse ''hpack: trailing Huffman bits >= 8'')
       else if acc_len > 0 \<and> acc AND (2 ^ acc_len - 1) \<noteq> 2 ^ acc_len - 1
         then Err (BadResponse ''hpack: bad Huffman padding'')
       else Ok out)"

declare place_code.simps [simp del] pull_symbols.simps [simp del]

section \<open>Bit strings\<close>

text \<open>The low \<open>n\<close> bits of a number, most significant first.\<close>

fun bits :: "nat \<Rightarrow> nat \<Rightarrow> bool list" where
  "bits 0 v = []"
| "bits (Suc n) v = bits n (v div 2) @ [odd v]"

lemma length_bits [simp]: "length (bits n v) = n"
  by (induction n arbitrary: v) auto

lemma bits_add: "bits (m + n) v = bits m (v div 2 ^ n) @ bits n v"
proof (induction n arbitrary: v)
  case (Suc n)
  have "bits (m + Suc n) v = bits (m + n) (v div 2) @ [odd v]" by simp
  also have "\<dots> = (bits m (v div 2 div 2 ^ n) @ bits n (v div 2)) @ [odd v]" by (simp only: Suc)
  also have "v div 2 div 2 ^ n = v div 2 ^ Suc n" by (simp add: div_mult2_eq)
  finally show ?case by simp
qed simp

lemma bits_mod: "n \<le> m \<Longrightarrow> bits n (v mod 2 ^ m) = bits n v"
proof (induction n arbitrary: v m)
  case (Suc n)
  then obtain k where m: "m = Suc k" by (cases m) auto
  have "v mod 2 ^ m div 2 = v div 2 mod 2 ^ k"
    using div_exp_mod_exp_eq [of v 1 k] by (simp add: m)
  with Suc m show ?case by (simp add: dvd_mod_iff)
qed simp

lemma bits_inj: "u < 2 ^ n \<Longrightarrow> v < 2 ^ n \<Longrightarrow> bits n u = bits n v \<Longrightarrow> u = v"
proof (induction n arbitrary: u v)
  case (Suc n)
  from Suc.prems have "u div 2 = v div 2" "odd u = odd v" using Suc.IH [of "u div 2" "v div 2"] by auto
  then show ?case by (metis bit_eq_rec)
qed simp

lemma bits_concat: "w < 2 ^ n \<Longrightarrow> bits (m + n) (v * 2 ^ n + w) = bits m v @ bits n w"
  using bits_mod [of n n "v * 2 ^ n + w"] bits_mod [of n n w] by (simp add: bits_add)

lemma bits_ones: "bits n (2 ^ n - 1) = replicate n True"
proof (induction n)
  case (Suc n)
  have "(2 ^ Suc n - 1) div 2 = (2 ^ n - 1 :: nat)" by simp
  moreover have "odd (2 ^ Suc n - 1 :: nat)" by simp
  ultimately show ?case using Suc by (simp add: replicate_append_same)
qed simp

definition byte_bits :: "bytes \<Rightarrow> bool list" where
  "byte_bits bs = concat (map (\<lambda>b. bits 8 (unat b)) bs)"

lemma byte_bits_simps [simp]:
  "byte_bits [] = []" "byte_bits (b # bs) = bits 8 (unat b) @ byte_bits bs"
  "byte_bits (xs @ ys) = byte_bits xs @ byte_bits ys"
  by (simp_all add: byte_bits_def)

lemma byte_bits_be_val: "byte_bits bs = bits (8 * length bs) (be_val bs)"
proof (induction bs rule: rev_induct)
  case (snoc b bs)
  have "unat b < 2 ^ 8" using unsigned_less [of b, where ?'a = nat] by simp
  then have "bits (8 * length bs + 8) (be_val bs * 2 ^ 8 + unat b) = bits (8 * length bs) (be_val bs) @ bits 8 (unat b)"
    by (rule bits_concat)
  then show ?case by (simp add: snoc add.commute)
qed simp

lemma byte_bits_inj: "byte_bits xs = byte_bits ys \<Longrightarrow> xs = ys"
proof (induction xs arbitrary: ys)
  case Nil
  then show ?case by (cases ys) (auto dest: arg_cong [of _ _ length])
next
  case (Cons x xs)
  then obtain y ys' where ys: "ys = y # ys'" by (cases ys) (auto dest: arg_cong [of _ _ length])
  with Cons.prems have "bits 8 (unat x) = bits 8 (unat y)" "byte_bits xs = byte_bits ys'" by simp_all
  moreover have "unat x < 2 ^ 8" "unat y < 2 ^ 8"
    using unsigned_less [of x, where ?'a = nat] unsigned_less [of y, where ?'a = nat] by simp_all
  ultimately show ?case using bits_inj Cons.IH ys word_unat_eq_iff by blast
qed

section \<open>The encoder writes the code words\<close>

lemma nat_mod_and: "(n :: nat) AND (2 ^ p - 1) = n mod 2 ^ p"
proof -
  have "n AND mask p = n mod 2 ^ p" by (simp only: take_bit_eq_mask [symmetric] take_bit_eq_mod)
  then show ?thesis by (simp add: mask_eq_exp_minus_1)
qed

lemma nat_or_disjoint:
  assumes "(a :: nat) mod 2 ^ k = 0" "x < 2 ^ k"
  shows "a OR x = a + x"
proof (rule disjunctive_add_eq_or [symmetric])
  have "a = push_bit k (a div 2 ^ k)" using assms(1) by (auto simp: push_bit_eq_mult)
  moreover have "x = take_bit k x" using assms(2) by (simp add: take_bit_nat_eq_self)
  ultimately show "a AND x = 0"
    by (metis (no_types, opaque_lifting) and.assoc and.commute and_zero_eq push_bit_mask_eq
        take_bit_eq_mask take_bit_push_bit push_bit_0_id diff_self_eq_0 order_refl push_bit_and
        take_bit_0 zero_and_eq take_bit_and push_bit_of_0)
qed

lemma byte_or_disjoint:
  assumes "unat (b :: byte) mod 2 ^ k = 0" "x < 2 ^ k" "k \<le> 8"
  shows "unat (b OR word_of_nat x) = unat b + x"
proof -
  have "(2 :: nat) ^ k \<le> 2 ^ 8" using assms(3) by (intro power_increasing) auto
  with assms(2) have "unat (word_of_nat x :: byte) = x" by (simp add: unat_of_nat)
  then show ?thesis using nat_or_disjoint [OF assms(1,2)] by (simp add: unsigned_or_eq)
qed

lemma be_val_append: "be_val (xs @ ys) = be_val xs * 256 ^ length ys + be_val ys"
proof (induction ys rule: rev_induct)
  case (snoc y ys)
  then show ?case
    unfolding append_assoc [symmetric] be_val_simps by (simp add: algebra_simps)
qed simp

lemma be_val_Cons: "be_val (y # ys) = unat y * 256 ^ length ys + be_val ys"
  using be_val_append [of "[y]" ys] be_val_simps(2) [of "[]" y] by simp

lemma be_val_split:
  assumes "i < length bs"
  shows "be_val bs = be_val (take i bs) * 256 ^ (length bs - i) +
    unat (bs ! i) * 256 ^ (length bs - 1 - i) + be_val (drop (Suc i) bs)"
proof -
  have "be_val bs = be_val (take i bs @ bs ! i # drop (Suc i) bs)"
    using id_take_nth_drop [OF assms] by simp
  also have "\<dots> = be_val (take i bs) * 256 ^ (length bs - i) +
    unat (bs ! i) * 256 ^ (length bs - 1 - i) + be_val (drop (Suc i) bs)"
    using assms by (simp add: be_val_append be_val_Cons Suc_diff_Suc)
  finally show ?thesis .
qed

lemma be_val_update:
  assumes "i < length bs" "unat x = unat (bs ! i) + d"
  shows "be_val (bs[i := x]) = be_val bs + d * 256 ^ (length bs - 1 - i)"
  using be_val_split [of i bs] be_val_split [of i "bs[i := x]"] assms by (simp add: algebra_simps)

lemma be_val_nth:
  assumes "i < length bs"
  shows "be_val bs div 256 ^ (length bs - 1 - i) mod 256 = unat (bs ! i)"
proof -
  define k where "k = length bs - 1 - i"
  have len: "length (drop (Suc i) bs) = k" "length bs - i = Suc k" using assms by (auto simp: k_def)
  have "be_val bs = (be_val (take i bs) * 256 + unat (bs ! i)) * 256 ^ k + be_val (drop (Suc i) bs)"
    using be_val_split [OF assms] len by (simp add: k_def [symmetric] algebra_simps)
  moreover have "be_val (drop (Suc i) bs) < 256 ^ k" using be_val_less [of "drop (Suc i) bs"] len by simp
  ultimately have "be_val bs div 256 ^ k = be_val (take i bs) * 256 + unat (bs ! i)" by simp
  moreover have "unat (bs ! i) < 256" using unsigned_less [of "bs ! i", where ?'a = nat] by simp
  ultimately show ?thesis unfolding k_def [symmetric] by simp
qed

text \<open>The free low bits of the byte under the cursor are zero.\<close>

lemma cursor_byte_free:
  assumes "be_val out = V * 2 ^ (8 * length out - bp)" "bp < 8 * length out"
  shows "unat (out ! (bp div 8)) mod 2 ^ (8 - bp mod 8) = 0"
proof -
  define i where "i = bp div 8"
  define sp where "sp = 8 - bp mod 8"
  have i: "i < length out" using assms(2) by (simp add: i_def)
  have sp: "sp \<le> 8" by (simp add: sp_def)
  have bp: "bp = 8 * i + (8 - sp)" by (simp add: i_def sp_def)
  have e: "8 * length out - bp = 8 * (length out - 1 - i) + sp"
    using i sp by (simp add: bp)
  have p: "(256 :: nat) ^ k = 2 ^ (8 * k)" for k by (simp add: power_mult)
  have "be_val out div 256 ^ (length out - 1 - i) = V * 2 ^ sp"
    unfolding assms(1) e p by (simp add: power_add mult.commute mult.left_commute)
  then have "unat (out ! i) = V * 2 ^ sp mod 256" using be_val_nth [OF i] by simp
  moreover have "(2 :: nat) ^ sp dvd 256" using le_imp_power_dvd [OF sp, of "2 :: nat"] by simp
  ultimately have "2 ^ sp dvd unat (out ! i)" by (simp add: dvd_mod_iff)
  then show ?thesis by (simp add: i_def sp_def mod_eq_0_iff_dvd)
qed

lemma place_code_correct:
  assumes "be_val out = V * 2 ^ (8 * length out - bp)" "bp + r \<le> 8 * length out" "c < 2 ^ r"
  shows "\<exists>out'. place_code out bp r c = (out', bp + r) \<and> length out' = length out \<and>
    be_val out' = (V * 2 ^ r + c) * 2 ^ (8 * length out - (bp + r))"
  using assms
proof (induction r arbitrary: out bp c V rule: less_induct)
  case (less r)
  show ?case
  proof (cases "r > 0")
    case False
    then have "place_code out bp r c = (out, bp)" by (subst place_code.simps) simp
    with False less.prems show ?thesis by simp
  next
    case r: True
    define i where "i = bp div 8"
    define sp where "sp = 8 - bp mod 8"
    define tk where "tk = min r sp"
    define sh where "sh = r - tk"
    define ch where "ch = drop_bit sh c AND (2 ^ tk - 1)"
    define out' where "out' = out[i := out ! i OR push_bit (sp - tk) (word_of_nat ch)]"
    define c' where "c' = (if sh > 0 then c AND (2 ^ sh - 1) else 0)"
    have sp: "0 < sp" "sp \<le> 8" by (simp_all add: sp_def)
    have tk: "0 < tk" "tk \<le> sp" "tk \<le> r" "r = tk + sh" using r sp by (auto simp: tk_def sh_def)
    have bp: "bp = 8 * i + (8 - sp)" by (simp add: i_def sp_def)
    have il: "i < length out" using less.prems(2) r bp by auto
    have ch: "ch = c div 2 ^ sh" "ch < 2 ^ tk"
    proof -
      have "c div 2 ^ sh < 2 ^ tk"
        using less.prems(3) by (simp add: tk(4) power_add less_mult_imp_div_less mult.commute)
      then show "ch = c div 2 ^ sh" "ch < 2 ^ tk"
        unfolding ch_def nat_mod_and drop_bit_eq_div by simp_all
    qed
    have c': "c' = c mod 2 ^ sh" unfolding c'_def nat_mod_and by simp
    have cc: "c = ch * 2 ^ sh + c'" unfolding ch c' by (rule div_mult_mod_eq [symmetric])
    have small: "ch * 2 ^ (sp - tk) < 2 ^ sp"
    proof -
      have "ch * 2 ^ (sp - tk) < 2 ^ tk * 2 ^ (sp - tk)" using ch(2) by simp
      also have "\<dots> = 2 ^ sp" using tk by (simp add: power_add [symmetric])
      finally show ?thesis .
    qed
    have pw: "push_bit (sp - tk) (word_of_nat ch :: byte) = word_of_nat (ch * 2 ^ (sp - tk))"
      by (simp add: push_bit_eq_mult)
    have "unat (out ! i) mod 2 ^ sp = 0"
      using cursor_byte_free [OF less.prems(1)] less.prems(2) r by (simp add: i_def sp_def)
    from byte_or_disjoint [OF this small sp(2)]
    have "unat (out ! i OR push_bit (sp - tk) (word_of_nat ch)) = unat (out ! i) + ch * 2 ^ (sp - tk)"
      by (simp only: pw)
    from be_val_update [OF il this]
    have v: "be_val out' = be_val out + ch * 2 ^ (sp - tk) * 256 ^ (length out - 1 - i)"
      by (simp only: out'_def)
    have len: "length out' = length out" by (simp add: out'_def)
    have e: "8 * length out - bp = tk + (8 * length out - (bp + tk))"
      "8 * length out - (bp + tk) = (sp - tk) + 8 * (length out - 1 - i)"
      using il sp tk by (auto simp: bp)
    have p: "(256 :: nat) ^ k = 2 ^ (8 * k)" for k by (simp add: power_mult)
    have v': "be_val out' = (V * 2 ^ tk + ch) * 2 ^ (8 * length out' - (bp + tk))"
      unfolding v less.prems(1) len e(1) p
      by (simp only: e(2) power_add add_mult_distrib mult.assoc)
    have u: "place_code out bp r c = place_code out' (bp + tk) (r - tk) c'"
      using r unfolding place_code.simps [of out bp r c] Let_def
      by (simp only: if_True i_def [symmetric] sp_def [symmetric] tk_def [symmetric] sh_def [symmetric]
          ch_def [symmetric] out'_def [symmetric] c'_def [symmetric])
    have "\<exists>out''. place_code out' (bp + tk) (r - tk) c' = (out'', bp + tk + (r - tk)) \<and>
        length out'' = length out' \<and>
        be_val out'' = ((V * 2 ^ tk + ch) * 2 ^ (r - tk) + c') * 2 ^ (8 * length out' - (bp + tk + (r - tk)))"
      by (rule less.IH) (use tk r v' less.prems(2) len in \<open>auto simp: c'\<close>)
    moreover have "bp + tk + (r - tk) = bp + r" using tk by simp
    moreover have "(V * 2 ^ tk + ch) * 2 ^ (r - tk) + c' = V * 2 ^ r + c"
      using tk by (simp add: cc power_add algebra_simps)
    ultimately show ?thesis by (simp only: u len)
  qed
qed

definition code_bits :: "nat \<Rightarrow> bool list" where
  "code_bits s = bits (snd (HUFFMAN ! s)) (fst (HUFFMAN ! s))"

definition codes_bits :: "bytes \<Rightarrow> bool list" where
  "codes_bits bs = concat (map (\<lambda>b. code_bits (unat b)) bs)"

lemma codes_bits_simps [simp]:
  "codes_bits [] = []" "codes_bits (b # bs) = code_bits (unat b) @ codes_bits bs"
  "codes_bits (xs @ ys) = codes_bits xs @ codes_bits ys"
  by (simp_all add: codes_bits_def)

lemma length_code_bits [simp]: "length (code_bits s) = snd (HUFFMAN ! s)"
  by (simp add: code_bits_def)

lemma length_codes_bits: "length (codes_bits bs) = huffman_bit_len bs"
  by (induction bs) (simp_all add: huffman_bit_len_def)

lemma unat_byte_257 [simp]: "unat (b :: byte) < 257"
  using unsigned_less [of b, where ?'a = nat] by simp

lemma place_codes_correct:
  assumes "be_val out = V * 2 ^ (8 * length out - bp)" "bp + huffman_bit_len bs \<le> 8 * length out"
  shows "\<exists>out' V'. place_codes out bp bs = (out', bp + huffman_bit_len bs) \<and> length out' = length out \<and>
    be_val out' = V' * 2 ^ (8 * length out - (bp + huffman_bit_len bs)) \<and>
    bits (bp + huffman_bit_len bs) V' = bits bp V @ codes_bits bs"
  using assms
proof (induction bs arbitrary: out bp V)
  case (Cons b bs)
  obtain c l where cl: "HUFFMAN ! unat b = (c, l)" by (cases "HUFFMAN ! unat b")
  have c: "c < 2 ^ l" using huffman_code_less [of "unat b"] cl by simp
  have len: "huffman_bit_len (b # bs) = l + huffman_bit_len bs" by (simp add: huffman_bit_len_def cl)
  from place_code_correct [OF Cons.prems(1) _ c] Cons.prems(2) len obtain out1 where
    o1: "place_code out bp l c = (out1, bp + l)" "length out1 = length out"
    "be_val out1 = (V * 2 ^ l + c) * 2 ^ (8 * length out1 - (bp + l))" by auto
  from Cons.IH [OF o1(3)] Cons.prems(2) o1(2) len obtain out' V' where
    o': "place_codes out1 (bp + l) bs = (out', bp + l + huffman_bit_len bs)" "length out' = length out1"
    "be_val out' = V' * 2 ^ (8 * length out1 - (bp + l + huffman_bit_len bs))"
    "bits (bp + l + huffman_bit_len bs) V' = bits (bp + l) (V * 2 ^ l + c) @ codes_bits bs" by auto
  have "bits (bp + l) (V * 2 ^ l + c) = bits bp V @ code_bits (unat b)"
    using bits_concat [OF c] by (simp add: code_bits_def cl)
  with o1 o' show ?case by (auto simp: cl len add.assoc)
qed (simp add: huffman_bit_len_def)

lemma div_ceil_8:
  assumes "trailing = (8 - n mod 8) mod 8"
  shows "8 * div_ceil n 8 = n + trailing" "trailing < 8" "trailing > 0 \<Longrightarrow> 0 < div_ceil n 8"
proof -
  have n: "n = 8 * (n div 8) + n mod 8" by simp
  show "8 * div_ceil n 8 = n + trailing"
  proof (cases "n mod 8 = 0")
    case False
    moreover have "n mod 8 < 8" by simp
    ultimately have "trailing = 8 - n mod 8" unfolding assms by (intro mod_less) linarith
    moreover have "div_ceil n 8 = n div 8 + 1" using False by (simp add: div_ceil_def)
    ultimately show ?thesis using n \<open>n mod 8 < 8\<close> by linarith
  qed (use n in \<open>simp add: assms div_ceil_def\<close>)
  then show "trailing > 0 \<Longrightarrow> 0 < div_ceil n 8" by linarith
  show "trailing < 8" by (simp add: assms)
qed

lemma huffman_encode_bits:
  "\<exists>k<8. byte_bits (huffman_encode input) = codes_bits input @ replicate k True"
proof -
  define n where "n = huffman_bit_len input"
  define k where "k = (8 - n mod 8) mod 8"
  note k = div_ceil_8 [OF k_def]
  define N where "N = div_ceil n 8"
  have z: "be_val (replicate N 0) = 0 * 2 ^ (8 * length (replicate N (0 :: byte)) - 0)"
  proof -
    have "be_val (replicate m 0) = 0" for m by (induction m) (simp_all add: be_val_Cons)
    then show ?thesis by simp
  qed
  from place_codes_correct [OF z, of input] k(1) obtain out V where
    out: "place_codes (replicate N 0) 0 input = (out, n)" "length out = N"
    "be_val out = V * 2 ^ k" and V: "bits n V = codes_bits input"
    by (auto simp: n_def [symmetric] N_def [symmetric])
  show ?thesis
  proof (cases "k > 0")
    case False
    then have "huffman_encode input = out"
      by (simp add: huffman_encode_def n_def [symmetric] k_def [symmetric] N_def [symmetric] out Let_def)
    moreover have "byte_bits out = bits n V"
      using False k(1) out(3) by (simp add: byte_bits_be_val out(2) N_def)
    ultimately show ?thesis using V by (intro exI [of _ 0]) simp
  next
    case True
    define l where "l = N - 1"
    define x where "x = out ! l OR (push_bit k 1 - 1)"
    have enc: "huffman_encode input = out[l := x]"
      using True by (simp add: huffman_encode_def n_def [symmetric] k_def [symmetric] N_def [symmetric]
          out x_def l_def Let_def)
    have N: "0 < N" using k(3) [OF True] by (simp add: N_def)
    have l: "l < length out" using N out(2) by (simp add: l_def)
    have "be_val out div 256 ^ (length out - 1 - l) mod 256 = V * 2 ^ k mod 256" using out N by (simp add: l_def)
    then have "unat (out ! l) = V * 2 ^ k mod 256" using be_val_nth [OF l] by simp
    moreover have "(2 :: nat) ^ k dvd 256" using le_imp_power_dvd [of k 8 "2 :: nat"] k(2) by simp
    ultimately have "2 ^ k dvd unat (out ! l)" by (simp add: dvd_mod_iff)
    then have free: "unat (out ! l) mod 2 ^ k = 0" by simp
    have pw: "push_bit k 1 - 1 = (word_of_nat (2 ^ k - 1) :: byte)" by (simp add: push_bit_eq_mult of_nat_diff)
    have "unat x = unat (out ! l) + (2 ^ k - 1)"
      unfolding x_def pw by (rule byte_or_disjoint [OF free]) (use k(2) in auto)
    from be_val_update [OF l this] have "be_val (out[l := x]) = V * 2 ^ k + (2 ^ k - 1)"
      using out N by (simp add: l_def)
    moreover have "bits (n + k) (V * 2 ^ k + (2 ^ k - 1)) = bits n V @ bits k (2 ^ k - 1)"
      by (rule bits_concat) simp
    ultimately have "byte_bits (out[l := x]) = bits n V @ replicate k True"
      using k(1) out(2) by (simp add: byte_bits_be_val N_def bits_ones del: One_nat_def)
    then show ?thesis using V k(2) enc by auto
  qed
qed

section \<open>The code is prefix-free and complete on bit strings\<close>

fun bval :: "bool list \<Rightarrow> nat \<Rightarrow> nat" where
  "bval [] v = v"
| "bval (b # bs) v = bval bs (2 * v + of_bool b)"

lemma bval_less: "v < 2 ^ m \<Longrightarrow> bval bs v < 2 ^ (m + length bs)"
proof (induction bs arbitrary: v m)
  case (Cons b bs)
  have "2 * v + of_bool b < 2 ^ Suc m" using Cons.prems by (cases b) auto
  from Cons.IH [OF this] show ?case by simp
qed simp

lemma bits_bval: "bits (m + length bs) (bval bs v) = bits m v @ bs"
proof (induction bs arbitrary: v m)
  case (Cons b bs)
  have "bits (Suc m + length bs) (bval bs (2 * v + of_bool b)) = bits (Suc m) (2 * v + of_bool b) @ bs"
    by (rule Cons.IH)
  then show ?case by simp
qed simp

lemma take_bits: "l \<le> n \<Longrightarrow> take l (bits n v) = bits l (v div 2 ^ (n - l))"
  using bits_add [of l "n - l" v] by simp

text \<open>The symbol \<open>s\<close> can be read off the front of \<open>P\<close>.\<close>

definition front :: "nat \<Rightarrow> bool list \<Rightarrow> bool" where
  "front s P \<longleftrightarrow> s < 257 \<and> snd (HUFFMAN ! s) \<le> length P \<and> take (snd (HUFFMAN ! s)) P = code_bits s"

lemma front_30:
  "front s (bits 30 v) \<longleftrightarrow> s < 257 \<and> (v mod 2 ^ 30) div 2 ^ (30 - snd (HUFFMAN ! s)) = fst (HUFFMAN ! s)"
proof (cases "s < 257")
  case True
  define l where "l = snd (HUFFMAN ! s)"
  have l: "l \<le> 30" and c: "fst (HUFFMAN ! s) < 2 ^ l"
    using huffman_length_bounds [OF True] huffman_code_less [OF True] by (auto simp: l_def)
  have "(v mod 2 ^ 30) div 2 ^ (30 - l) < 2 ^ l"
    using l by (simp add: less_mult_imp_div_less power_add [symmetric])
  then have "bits l ((v mod 2 ^ 30) div 2 ^ (30 - l)) = bits l (fst (HUFFMAN ! s)) \<longleftrightarrow>
      (v mod 2 ^ 30) div 2 ^ (30 - l) = fst (HUFFMAN ! s)" using bits_inj c by auto
  moreover have "bits 30 v = bits 30 (v mod 2 ^ 30)" by (simp only: bits_mod)
  ultimately show ?thesis
    using True l by (simp add: front_def code_bits_def l_def [symmetric] take_bits)
qed (simp add: front_def)

lemma front_unique:
  assumes "front s P" "front t P"
  shows "s = t"
proof -
  define Q where "Q = take 30 (P @ replicate 30 False)"
  define v where "v = bval Q 0"
  have "length Q = 30" by (simp add: Q_def)
  then have Q: "Q = bits 30 v" using bits_bval [of 0 Q 0] by (simp add: v_def)
  have fr: "front r Q" if "front r P" for r
  proof -
    from that have r: "r < 257" "snd (HUFFMAN ! r) \<le> length P" by (auto simp: front_def)
    have "take (snd (HUFFMAN ! r)) Q = take (snd (HUFFMAN ! r)) P"
      using r huffman_length_bounds [OF r(1)] by (simp add: Q_def min_def)
    then show ?thesis
      using that \<open>length Q = 30\<close> huffman_length_bounds [OF r(1)] by (simp add: front_def)
  qed
  from fr [OF assms(1)] fr [OF assms(2)] show ?thesis
    unfolding Q front_30 using huffman_unique [of s t "v mod 2 ^ 30"] by blast
qed

lemma front_exists:
  assumes "30 \<le> length P"
  shows "\<exists>s. front s P"
proof -
  define v where "v = bval (take 30 P) 0"
  have Q: "take 30 P = bits 30 v" using bits_bval [of 0 "take 30 P" 0] assms by (simp add: v_def min_absorb2)
  obtain s where "s < 257" "(v mod 2 ^ 30) div 2 ^ (30 - snd (HUFFMAN ! s)) = fst (HUFFMAN ! s)"
    using huffman_cover [of "v mod 2 ^ 30"] by auto
  then have "front s (take 30 P)" unfolding Q front_30 by simp
  then show ?thesis using assms huffman_length_bounds [of s]
    by (intro exI [of _ s]) (auto simp: front_def min_def split: if_splits)
qed

lemma front_append: "front s P \<Longrightarrow> front s (P @ Q)"
  by (auto simp: front_def)

lemma front_code: "s < 257 \<Longrightarrow> front s (code_bits s @ Q)"
  by (simp add: front_def)

lemma frontD: "front s P \<Longrightarrow> P = code_bits s @ drop (snd (HUFFMAN ! s)) P"
  unfolding front_def by (metis append_take_drop_id)

lemma code_bits_eos: "code_bits 256 = replicate 30 True"
  unfolding code_bits_def huffman_eos fst_conv snd_conv by (rule bits_ones)

lemma no_front_ones:
  assumes "k < 8" shows "\<not> front s (replicate k True)"
proof
  assume f: "front s (replicate k True)"
  from front_append [OF f, of "replicate (30 - k) True"] assms
  have "front s (code_bits 256 @ [])" by (simp add: code_bits_eos replicate_add [symmetric])
  with front_code [of 256 "[]"] have "s = 256" by (intro front_unique) auto
  with f assms show False by (simp add: front_def huffman_eos)
qed

section \<open>The decoder reads the code words\<close>

lemma lookup_front:
  assumes "5 \<le> l" "l \<le> n" "l \<le> 30"
  shows "lookup_huffman (acc_code acc n l) l = Some s \<longleftrightarrow>
    front s (bits n acc) \<and> snd (HUFFMAN ! s) = l"
proof -
  define c where "c = (acc div 2 ^ (n - l)) mod 2 ^ l"
  have c: "c < 2 ^ l" by (simp add: c_def)
  have "(2 :: nat) ^ l \<le> 2 ^ 32" using assms by (intro power_increasing) auto
  with c have "acc_code acc n l = c"
    unfolding acc_code_def nat_mod_and drop_bit_eq_div c_def [symmetric] by (intro mod_less) linarith
  then have "lookup_huffman (acc_code acc n l) l = Some s \<longleftrightarrow>
      s < 257 \<and> HUFFMAN ! s = (c, l)"
    using lookup_huffman_sound lookup_huffman_complete by metis
  also have "\<dots> \<longleftrightarrow> front s (bits n acc) \<and> snd (HUFFMAN ! s) = l"
  proof (cases "s < 257 \<and> snd (HUFFMAN ! s) = l")
    case True
    then have "fst (HUFFMAN ! s) < 2 ^ l" using huffman_code_less by auto
    then have "bits l c = bits l (fst (HUFFMAN ! s)) \<longleftrightarrow> c = fst (HUFFMAN ! s)" using bits_inj c by auto
    moreover have "take l (bits n acc) = bits l c"
      using assms(2) by (simp add: take_bits c_def bits_mod)
    ultimately show ?thesis using True assms(2) by (auto simp: front_def code_bits_def prod_eq_iff)
  qed (auto simp: front_def)
  finally show ?thesis .
qed

lemma find_code_sound:
  "find_code acc n ls = Some (s, l) \<Longrightarrow> \<forall>l\<in>set ls. 5 \<le> l \<and> l \<le> n \<and> l \<le> 30 \<Longrightarrow>
   front s (bits n acc) \<and> l = snd (HUFFMAN ! s)"
  by (induction ls) (auto simp: lookup_front Let_def split: option.splits)

lemma find_code_None:
  "find_code acc n ls = None \<Longrightarrow> \<forall>l\<in>set ls. 5 \<le> l \<and> l \<le> n \<and> l \<le> 30 \<Longrightarrow>
   front s (bits n acc) \<Longrightarrow> snd (HUFFMAN ! s) \<notin> set ls"
proof (induction ls)
  case (Cons l ls)
  then show ?case using lookup_front [of l n acc s] by (auto split: option.splits)
qed simp

lemma find_code_all:
  "find_code acc n (try_lens n) = None \<longleftrightarrow> (\<forall>s. \<not> front s (bits n acc))"
  "find_code acc n (try_lens n) = Some (s, l) \<longleftrightarrow> front s (bits n acc) \<and> l = snd (HUFFMAN ! s)"
proof -
  let ?ls = "try_lens n"
  have ls: "\<forall>l\<in>set ?ls. 5 \<le> l \<and> l \<le> n \<and> l \<le> 30" by (auto simp: try_lens_def)
  have mem: "snd (HUFFMAN ! s) \<in> set ?ls" if "front s (bits n acc)" for s
    using that huffman_length_bounds [of s] by (auto simp: front_def try_lens_def)
  show none: "find_code acc n ?ls = None \<longleftrightarrow> (\<forall>s. \<not> front s (bits n acc))"
  proof
    assume "find_code acc n ?ls = None"
    from find_code_None [OF this ls] mem show "\<forall>s. \<not> front s (bits n acc)" by blast
  next
    assume no: "\<forall>s. \<not> front s (bits n acc)"
    show "find_code acc n ?ls = None"
    proof (cases "find_code acc n ?ls")
      case (Some p)
      with find_code_sound [OF _ ls, of acc "fst p" "snd p"] no show ?thesis by auto
    qed
  qed
  show "find_code acc n ?ls = Some (s, l) \<longleftrightarrow> front s (bits n acc) \<and> l = snd (HUFFMAN ! s)"
  proof (cases "find_code acc n ?ls")
    case None
    with none show ?thesis by auto
  next
    case (Some p)
    obtain s' l' where p: "p = (s', l')" by (cases p)
    with Some find_code_sound [OF _ ls, of acc s' l'] have "front s' (bits n acc)" "l' = snd (HUFFMAN ! s')"
      by auto
    with Some p front_unique show ?thesis by auto
  qed
qed

text \<open>What one run of the pulling loop does to the pending bits.\<close>

definition stuck :: "bool list \<Rightarrow> bool" where
  "stuck P \<longleftrightarrow> (\<forall>s. \<not> front s P)"

lemma front_length: "front s P \<Longrightarrow> 5 \<le> length P"
  using huffman_length_bounds [of s] by (auto simp: front_def)

lemma stuck_length: "stuck P \<Longrightarrow> length P < 30"
  using front_exists [of P] by (auto simp: stuck_def not_less [symmetric])

lemma bits_after_front:
  assumes "front s (bits n acc)"
  shows "bits n acc = code_bits s @ bits (n - snd (HUFFMAN ! s)) acc"
proof -
  have l: "snd (HUFFMAN ! s) \<le> n" using assms by (simp add: front_def)
  have "bits n acc = bits (snd (HUFFMAN ! s)) (acc div 2 ^ (n - snd (HUFFMAN ! s))) @
      bits (n - snd (HUFFMAN ! s)) acc"
    using bits_add [of "snd (HUFFMAN ! s)" "n - snd (HUFFMAN ! s)" acc] l by simp
  with frontD [OF assms] show ?thesis by (simp add: append_eq_append_conv)
qed

lemma pull_symbols_Ok:
  "pull_symbols acc n out = Ok (out', n') \<Longrightarrow>
   \<exists>ys. out' = out @ ys \<and> bits n acc = codes_bits ys @ bits n' acc \<and> stuck (bits n' acc)"
proof (induction acc n out rule: pull_symbols.induct)
  case (1 acc n out)
  show ?case
  proof (cases "find_code acc n (try_lens n)")
    case None
    then have "stuck (bits n acc)" by (simp add: find_code_all(1) stuck_def)
    then show ?thesis
      using "1.prems" None unfolding pull_symbols.simps [of acc n out]
      by (intro exI [of _ "[]"]) (auto split: if_splits)
  next
    case (Some p)
    obtain s l where p: "p = (s, l)" by (cases p)
    with Some have f: "front s (bits n acc)" "l = snd (HUFFMAN ! s)" by (simp_all add: find_code_all(2))
    from front_length [OF f(1)] have n: "5 \<le> n" by simp
    with "1.prems" Some p have s: "s \<noteq> 256"
      and run: "pull_symbols acc (n - l) (out @ [word_of_nat s]) = Ok (out', n')"
      unfolding pull_symbols.simps [of acc n out] by (auto split: if_splits)
    have "s < 257" using f(1) by (simp add: front_def)
    with s have u: "unat (word_of_nat s :: byte) = s" by (simp add: unat_of_nat)
    from "1.IH" [OF n Some p [symmetric] s run] obtain ys where
      "out' = out @ [word_of_nat s] @ ys" "bits (n - l) acc = codes_bits ys @ bits n' acc" "stuck (bits n' acc)"
      by auto
    then show ?thesis
      using bits_after_front [OF f(1)] f(2) u by (intro exI [of _ "word_of_nat s # ys"]) simp
  qed
qed

lemma pull_symbols_Err:
  "pull_symbols acc n out = Err e \<Longrightarrow> \<exists>ys R. bits n acc = codes_bits ys @ code_bits 256 @ R"
proof (induction acc n out rule: pull_symbols.induct)
  case (1 acc n out)
  show ?case
  proof (cases "find_code acc n (try_lens n)")
    case None
    with "1.prems" show ?thesis unfolding pull_symbols.simps [of acc n out] by (auto split: if_splits)
  next
    case (Some p)
    obtain s l where p: "p = (s, l)" by (cases p)
    with Some have f: "front s (bits n acc)" "l = snd (HUFFMAN ! s)" by (simp_all add: find_code_all(2))
    from front_length [OF f(1)] have n: "5 \<le> n" by simp
    show ?thesis
    proof (cases "s = 256")
      case True
      then show ?thesis using bits_after_front [OF f(1)]
        by (intro exI [of _ "[]"] exI [of _ "bits (n - snd (HUFFMAN ! 256)) acc"]) simp
    next
      case False
      with "1.prems" Some p n have run: "pull_symbols acc (n - l) (out @ [word_of_nat s]) = Err e"
        unfolding pull_symbols.simps [of acc n out] by auto
      have "s < 257" using f(1) by (simp add: front_def)
      with False have u: "unat (word_of_nat s :: byte) = s" by (simp add: unat_of_nat)
      from "1.IH" [OF n Some p [symmetric] False run] obtain ys R where
        "bits (n - l) acc = codes_bits ys @ code_bits 256 @ R" by auto
      then show ?thesis
        using bits_after_front [OF f(1)] f(2) u
        by (intro exI [of _ "word_of_nat s # ys"] exI [of _ R]) simp
    qed
  qed
qed

lemma feed_acc_bits:
  assumes "n < 30"
  shows "bits (n + 8) ((push_bit 8 acc mod 2 ^ 64) OR unat (b :: byte)) = bits n acc @ bits 8 (unat b)"
proof -
  have b: "unat b < 2 ^ 8" using unsigned_less [of b, where ?'a = nat] by simp
  have "push_bit 8 acc mod 2 ^ 64 = (acc mod 2 ^ 56) * 2 ^ 8"
    by (simp add: push_bit_eq_mult mult_mod_left)
  moreover have "((acc mod 2 ^ 56) * 2 ^ 8) OR unat b = (acc mod 2 ^ 56) * 2 ^ 8 + unat b"
    by (rule nat_or_disjoint [OF _ b]) simp
  moreover have "bits n (acc mod 2 ^ 56) = bits n acc" by (rule bits_mod) (use assms in simp)
  ultimately show ?thesis using bits_concat [OF b, of n "acc mod 2 ^ 56"] by simp
qed

lemma huffman_feed_Cons:
  "huffman_feed out acc n (b # bs) =
     res_bind (pull_symbols ((push_bit 8 acc mod 2 ^ 64) OR unat b) (n + 8) out) (\<lambda>(out', n').
       huffman_feed out' ((push_bit 8 acc mod 2 ^ 64) OR unat b) n' bs)"
  unfolding huffman_feed.simps Let_def by (rule refl)

declare huffman_feed.simps(2) [simp del]

lemma huffman_feed_Ok:
  assumes "huffman_feed out acc n bs = Ok (out', acc', n')" "stuck (bits n acc)"
  shows "\<exists>ys. out' = out @ ys \<and> bits n acc @ byte_bits bs = codes_bits ys @ bits n' acc' \<and> stuck (bits n' acc')"
  using assms
proof (induction bs arbitrary: out acc n)
  case (Cons b bs)
  define acc1 where "acc1 = (push_bit 8 acc mod 2 ^ 64) OR unat b"
  from Cons.prems(1) obtain out1 n1 where pull: "pull_symbols acc1 (n + 8) out = Ok (out1, n1)"
    and run: "huffman_feed out1 acc1 n1 bs = Ok (out', acc', n')"
    unfolding huffman_feed_Cons acc1_def [symmetric] by auto
  have acc1: "bits (n + 8) acc1 = bits n acc @ bits 8 (unat b)"
    unfolding acc1_def by (rule feed_acc_bits) (use stuck_length [OF Cons.prems(2)] in simp)
  from pull_symbols_Ok [OF pull] obtain ys where ys: "out1 = out @ ys"
    "bits (n + 8) acc1 = codes_bits ys @ bits n1 acc1" "stuck (bits n1 acc1)" by auto
  from Cons.IH [OF run ys(3)] obtain zs where zs: "out' = out1 @ zs"
    "bits n1 acc1 @ byte_bits bs = codes_bits zs @ bits n' acc'" "stuck (bits n' acc')" by auto
  have "bits n acc @ byte_bits (b # bs) = bits (n + 8) acc1 @ byte_bits bs" by (simp add: acc1)
  also have "\<dots> = codes_bits (ys @ zs) @ bits n' acc'"
    by (simp only: ys(2) append_assoc zs(2) codes_bits_simps)
  finally have "bits n acc @ byte_bits (b # bs) = codes_bits (ys @ zs) @ bits n' acc'" .
  with ys(1) zs show ?case by (intro exI [of _ "ys @ zs"]) simp
qed (auto intro: exI [of _ "[]"])

lemma huffman_feed_Err:
  assumes "huffman_feed out acc n bs = Err e" "stuck (bits n acc)"
  shows "\<exists>ys R. bits n acc @ byte_bits bs = codes_bits ys @ code_bits 256 @ R"
  using assms
proof (induction bs arbitrary: out acc n)
  case (Cons b bs)
  define acc1 where "acc1 = (push_bit 8 acc mod 2 ^ 64) OR unat b"
  have acc1: "bits (n + 8) acc1 = bits n acc @ bits 8 (unat b)"
    unfolding acc1_def by (rule feed_acc_bits) (use stuck_length [OF Cons.prems(2)] in simp)
  show ?case
  proof (cases "pull_symbols acc1 (n + 8) out")
    case (Inl e')
    from pull_symbols_Err [OF this] obtain ys R where "bits (n + 8) acc1 = codes_bits ys @ code_bits 256 @ R" by blast
    with acc1 have "bits n acc @ byte_bits (b # bs) = codes_bits ys @ code_bits 256 @ (R @ byte_bits bs)" by simp
    then show ?thesis by blast
  next
    case (Inr p)
    obtain out1 n1 where p: "p = (out1, n1)" by (cases p)
    with Inr Cons.prems(1) have run: "huffman_feed out1 acc1 n1 bs = Err e"
      unfolding huffman_feed_Cons acc1_def [symmetric] by simp
    from pull_symbols_Ok [of acc1 "n + 8" out out1 n1] Inr p obtain ys where ys:
      "bits (n + 8) acc1 = codes_bits ys @ bits n1 acc1" "stuck (bits n1 acc1)" by auto
    from Cons.IH [OF run ys(2)] obtain zs R where
      zs: "bits n1 acc1 @ byte_bits bs = codes_bits zs @ code_bits 256 @ R" by auto
    have "bits n acc @ byte_bits (b # bs) = bits (n + 8) acc1 @ byte_bits bs" by (simp add: acc1)
    also have "\<dots> = codes_bits (ys @ zs) @ code_bits 256 @ R"
      by (simp only: ys(1) append_assoc zs codes_bits_simps)
    finally show ?thesis by blast
  qed
qed simp

section \<open>Correctness of the codec\<close>

text \<open>A bit string splits into code words and one-bits of padding in at most one way.\<close>

lemma code_stream_unique:
  assumes "codes_bits ys @ Q = codes_bits xs @ replicate k True" "k < 8"
  shows "\<exists>zs. xs = ys @ zs \<and> Q = codes_bits zs @ replicate k True"
  using assms(1)
proof (induction ys arbitrary: xs)
  case (Cons y ys)
  have y: "front (unat y) (codes_bits xs @ replicate k True)"
    unfolding Cons.prems [symmetric] by (simp add: front_code)
  show ?case
  proof (cases xs)
    case Nil
    with y no_front_ones [OF assms(2)] show ?thesis by simp
  next
    case (Cons x xs')
    then have "front (unat x) (codes_bits xs @ replicate k True)" by (simp add: front_code)
    with y have "unat x = unat y" by (rule front_unique [symmetric])
    then have "x = y" by (simp add: word_unat_eq_iff)
    with Cons.prems Cons have "codes_bits ys @ Q = codes_bits xs' @ replicate k True" by simp
    from Cons.IH [OF this] \<open>x = y\<close> Cons show ?thesis by simp
  qed
qed simp

lemma no_eos_in_stream:
  assumes "codes_bits ys @ code_bits 256 @ R = codes_bits xs @ replicate k True" "k < 8"
  shows False
proof -
  from code_stream_unique [OF assms] obtain zs where
    zs: "code_bits 256 @ R = codes_bits zs @ replicate k True" by auto
  have f: "front 256 (codes_bits zs @ replicate k True)"
    unfolding zs [symmetric] by (rule front_code) simp
  show False
  proof (cases zs)
    case Nil
    with f no_front_ones [OF assms(2)] show False by simp
  next
    case (Cons z zs')
    then have "front (unat z) (codes_bits zs @ replicate k True)" by (simp add: front_code)
    from front_unique [OF f this] have "unat z = 256" by simp
    then show False using unsigned_less [of z, where ?'a = nat] by simp
  qed
qed

lemma stuck_Nil [simp]: "stuck []"
  using front_length by (force simp: stuck_def)

lemma ones_tail_iff:
  "n < 8 \<Longrightarrow> \<not> (n > 0 \<and> acc AND (2 ^ n - 1) \<noteq> 2 ^ n - 1) \<longleftrightarrow> bits n acc = replicate n True"
proof -
  have "bits n acc = replicate n True \<longleftrightarrow> bits n (acc mod 2 ^ n) = bits n (2 ^ n - 1)"
    by (simp only: bits_mod bits_ones order_refl)
  also have "\<dots> \<longleftrightarrow> acc mod 2 ^ n = 2 ^ n - 1" using bits_inj [of "acc mod 2 ^ n" n "2 ^ n - 1"] by auto
  finally show ?thesis unfolding nat_mod_and by (cases n) auto
qed

lemma huffman_decode_encode: "huffman_decode (huffman_encode xs) = Ok xs"
proof -
  obtain k where k: "k < 8" and enc: "byte_bits (huffman_encode xs) = codes_bits xs @ replicate k True"
    using huffman_encode_bits by blast
  have st: "stuck (bits 0 0)" by simp
  show ?thesis
  proof (cases "huffman_feed [] 0 0 (huffman_encode xs)")
    case (Inl e)
    from huffman_feed_Err [OF this st] enc no_eos_in_stream [OF _ k] show ?thesis by (auto dest: sym)
  next
    case (Inr p)
    obtain out acc n where p: "p = (out, acc, n)" by (cases p)
    with huffman_feed_Ok [OF _ st] Inr enc have
      s: "codes_bits out @ bits n acc = codes_bits xs @ replicate k True" "stuck (bits n acc)" by fastforce+
    from code_stream_unique [OF s(1) k] obtain zs where
      zs: "xs = out @ zs" "bits n acc = codes_bits zs @ replicate k True" by auto
    have "zs = []"
    proof (cases zs)
      case (Cons z zs')
      then have "front (unat z) (bits n acc)" unfolding zs(2) by (simp add: front_code)
      with s(2) show ?thesis by (simp add: stuck_def)
    qed simp
    with zs have "bits n acc = replicate k True" "xs = out" by simp_all
    moreover from this have "n = k" using length_bits [of n acc] by simp
    ultimately show ?thesis
      using Inr p k ones_tail_iff [of k acc] by (auto simp: huffman_decode_def)
  qed
qed

lemma huffman_decode_only_encodings:
  assumes "huffman_decode bs = Ok out"
  shows "huffman_encode out = bs"
proof -
  from assms obtain acc n where feed: "huffman_feed [] 0 0 bs = Ok (out, acc, n)" and n: "n < 8"
    and pad: "\<not> (n > 0 \<and> acc AND (2 ^ n - 1) \<noteq> 2 ^ n - 1)"
    by (auto simp: huffman_decode_def split: if_splits)
  have st: "stuck (bits 0 0)" by simp
  from huffman_feed_Ok [OF feed st] ones_tail_iff [OF n] pad
  have bs: "byte_bits bs = codes_bits out @ replicate n True" by auto
  obtain k where k: "k < 8" and enc: "byte_bits (huffman_encode out) = codes_bits out @ replicate k True"
    using huffman_encode_bits by blast
  have len: "8 * length bs = huffman_bit_len out + n" "8 * length (huffman_encode out) = huffman_bit_len out + k"
    using arg_cong [OF bs, of length] arg_cong [OF enc, of length]
    by (simp_all add: byte_bits_be_val length_codes_bits)
  then have "n = k" using n k by presburger
  with bs enc show ?thesis by (intro byte_bits_inj) simp
qed

lemma length_huffman_encode: "length (huffman_encode xs) = div_ceil (huffman_bit_len xs) 8"
proof -
  obtain k where k: "k < 8" and enc: "byte_bits (huffman_encode xs) = codes_bits xs @ replicate k True"
    using huffman_encode_bits by blast
  have "8 * length (huffman_encode xs) = huffman_bit_len xs + k"
    using arg_cong [OF enc, of length] by (simp add: byte_bits_be_val length_codes_bits)
  with k div_ceil_8(1,2) [of _ "huffman_bit_len xs", OF refl] show ?thesis by linarith
qed

section \<open>Properties\<close>

text \<open>
  Huffman coding is lossless: decoding the Huffman form of any octet string gives the
  string back.
\<close>

theorem huffman_roundtrip: "huffman_decode (huffman_encode xs) = Ok xs"
  by (rule huffman_decode_encode)

text \<open>
  (C24) The Huffman decoder is exactly the inverse of the encoder: it accepts some octets with a
  string as its result if and only if the octets are the encoding of that string. So every
  encoding is decoded back, a decoded string has one wire form only, and padding longer than
  seven bits, padding with a zero bit, the EOS symbol and incomplete code words are all refused.
\<close>

theorem huffman_decode_canonical:
  "huffman_decode bs = Ok out \<longleftrightarrow> bs = huffman_encode out"
  using huffman_decode_only_encodings huffman_decode_encode by auto

text \<open>A concrete code word: the letter \<open>a\<close> is five bits, padded with ones.\<close>

lemma huffman_decode_letter: "huffman_decode [0x1f] = Ok [0x61]"
proof -
  have "HUFFMAN ! 97 = (3, 5)" by (simp add: HUFFMAN_def)
  then have "huffman_encode [0x61] = [0x1f]"
    by (simp add: huffman_encode_def huffman_bit_len_def div_ceil_def place_code.simps)
  with huffman_decode_encode [of "[0x61]"] show ?thesis by simp
qed

text \<open>
  The length that \<open>huffman_bit_len\<close> predicts is the length of the encoding, so the
  shorter-of-two choice of the header encoder compares the lengths it will really write.
\<close>

theorem huffman_encode_length:
  "length (huffman_encode xs) = div_ceil (huffman_bit_len xs) 8"
  by (rule length_huffman_encode)

end
