(* ===== verification/Hpack_Dyn.thy ===== *)
theory Hpack_Dyn
  imports Hpack_Tables
begin

text \<open>
  The two dynamic tables of HPACK in \<open>src/src/http2.rs\<close>: \<open>Decoder\<close> (\<open>entry_size\<close>,
  \<open>evict_to_fit\<close>, \<open>insert\<close>, \<open>lookup_ref\<close>) and \<open>Encoder\<close> (the same operations on its own fields,
  \<open>set_peer_max_table_size\<close> and the index searches). Both implement one contract, the locale
  \<open>dyn_table\<close>: a FIFO of header fields, newest first, that keeps the longest prefix of what was
  inserted that fits the capacity.
\<close>

type_synonym header = "string \<times> string"

abbreviation (input) DYN_TABLE_CAP :: nat where "DYN_TABLE_CAP \<equiv> 4096"

section \<open>The decoder's table\<close>

record decoder =
  d_table :: "header list"
  d_size :: nat
  d_cap :: nat

definition decoder_new :: decoder where
  "decoder_new = \<lparr>d_table = [], d_size = 0, d_cap = DYN_TABLE_CAP\<rparr>"

definition entry_size :: "string \<Rightarrow> string \<Rightarrow> nat" where
  "entry_size name val = length name + length val + 32"

function d_evict_to_fit :: "decoder \<Rightarrow> nat \<Rightarrow> decoder" where
  "d_evict_to_fit d incoming =
     (if d_size d + incoming > d_cap d \<and> d_table d \<noteq> [] then
        let (n, v) = last (d_table d)
        in d_evict_to_fit (d\<lparr>d_table := butlast (d_table d), d_size := d_size d - entry_size n v\<rparr>) incoming
      else d)"
  by pat_completeness auto
termination
  by (relation "measure (\<lambda>(d, incoming). length (d_table d))") auto

definition d_insert :: "decoder \<Rightarrow> string \<Rightarrow> string \<Rightarrow> decoder" where
  "d_insert d name val =
     (let sz = entry_size name val
      in if sz > d_cap d then d\<lparr>d_table := [], d_size := 0\<rparr>
         else let d' = d_evict_to_fit d sz
              in d'\<lparr>d_table := (name, val) # d_table d', d_size := d_size d' + sz\<rparr>)"

definition d_lookup :: "decoder \<Rightarrow> nat \<Rightarrow> header result" where
  "d_lookup d index =
     (if index = 0 then Err (BadResponse ''hpack: index 0'')
      else if index \<le> length STATIC_TABLE then Ok (STATIC_TABLE ! (index - 1))
      else if index - length STATIC_TABLE - 1 < length (d_table d)
      then Ok (d_table d ! (index - length STATIC_TABLE - 1))
      else Err (BadResponse ''hpack: index out of range''))"

definition d_lookup_name :: "decoder \<Rightarrow> nat \<Rightarrow> string result" where
  "d_lookup_name d index = res_bind (d_lookup d index) (\<lambda>(n, v). Ok n)"

section \<open>The encoder's table\<close>

record encoder =
  e_table :: "header list"
  e_size :: nat
  e_max :: nat
  pending_max :: "nat option"
  pending_min :: "nat option"

definition encoder_new :: encoder where
  "encoder_new = \<lparr>e_table = [], e_size = 0, e_max = DYN_TABLE_CAP, pending_max = None, pending_min = None\<rparr>"

definition e_entry_size :: "string \<Rightarrow> string \<Rightarrow> nat" where
  "e_entry_size name val = length name + length val + 32"

function e_evict_to_fit :: "encoder \<Rightarrow> nat \<Rightarrow> encoder" where
  "e_evict_to_fit e incoming =
     (if e_size e + incoming > e_max e \<and> e_table e \<noteq> [] then
        let (n, v) = last (e_table e)
        in e_evict_to_fit (e\<lparr>e_table := butlast (e_table e), e_size := e_size e - e_entry_size n v\<rparr>) incoming
      else e)"
  by pat_completeness auto
termination
  by (relation "measure (\<lambda>(e, incoming). length (e_table e))") auto

definition set_peer_max_table_size :: "encoder \<Rightarrow> nat \<Rightarrow> encoder" where
  "set_peer_max_table_size e n0 =
     (let n = min n0 DYN_TABLE_CAP
      in if n = e_max e \<and> pending_max e = None then e
         else let prev_min = (case pending_min e of Some m \<Rightarrow> m | None \<Rightarrow> e_max e);
                  e1 = e\<lparr>pending_min := Some (min prev_min n), e_max := n\<rparr>;
                  e2 = e_evict_to_fit e1 0
              in e2\<lparr>pending_max := Some n\<rparr>)"

definition e_insert :: "encoder \<Rightarrow> string \<Rightarrow> string \<Rightarrow> encoder" where
  "e_insert e name val =
     (let sz = e_entry_size name val
      in if sz > e_max e then e\<lparr>e_table := [], e_size := 0\<rparr>
         else let e' = e_evict_to_fit e sz
              in e'\<lparr>e_table := (name, val) # e_table e', e_size := e_size e' + sz\<rparr>)"

definition combined_full_index :: "encoder \<Rightarrow> string \<Rightarrow> string \<Rightarrow> nat option" where
  "combined_full_index e name val =
     (case static_full_index name val of
        Some i \<Rightarrow> Some i
      | None \<Rightarrow> map_option (\<lambda>i. length STATIC_TABLE + 1 + i)
                  (position (\<lambda>(n, v). n = name \<and> v = val) (e_table e)))"

definition combined_name_index :: "encoder \<Rightarrow> string \<Rightarrow> nat option" where
  "combined_name_index e name =
     (case static_name_index name of
        Some i \<Rightarrow> Some i
      | None \<Rightarrow> map_option (\<lambda>i. length STATIC_TABLE + 1 + i)
                  (position (\<lambda>(n, _). n = name) (e_table e)))"

section \<open>The contract of a dynamic table\<close>

definition hsize :: "header \<Rightarrow> nat" where
  "hsize h = length (fst h) + length (snd h) + 32"

definition table_size :: "header list \<Rightarrow> nat" where
  "table_size hs = sum_list (map hsize hs)"

text \<open>Eviction, declaratively: the longest prefix (newest entries) within the capacity.\<close>

fun trim_to :: "nat \<Rightarrow> header list \<Rightarrow> header list" where
  "trim_to c [] = []"
| "trim_to c (h # hs) = (if hsize h \<le> c then h # trim_to (c - hsize h) hs else [])"

definition push_entry :: "nat \<Rightarrow> header \<Rightarrow> header list \<Rightarrow> header list" where
  "push_entry c h hs = trim_to c (h # hs)"

text \<open>What both tables promise: the cached size is the size, and inserting is \<^const>\<open>push_entry\<close>.\<close>

locale dyn_table =
  fixes entries :: "'t \<Rightarrow> header list"
    and cached :: "'t \<Rightarrow> nat"
    and cap :: "'t \<Rightarrow> nat"
    and evict :: "'t \<Rightarrow> nat \<Rightarrow> 't"
    and ins :: "'t \<Rightarrow> string \<Rightarrow> string \<Rightarrow> 't"
  assumes evict_entries: "cached t = table_size (entries t) \<Longrightarrow> k \<le> cap t \<Longrightarrow> entries (evict t k) = trim_to (cap t - k) (entries t)"
    and evict_cached: "cached t = table_size (entries t) \<Longrightarrow> k \<le> cap t \<Longrightarrow> cached (evict t k) = table_size (entries (evict t k))"
    and evict_cap: "cap (evict t k) = cap t"
    and ins_entries: "cached t = table_size (entries t) \<Longrightarrow> entries (ins t n v) = push_entry (cap t) (n, v) (entries t)"
    and ins_cached: "cached t = table_size (entries t) \<Longrightarrow> cached (ins t n v) = table_size (entries (ins t n v))"
    and ins_cap: "cap (ins t n v) = cap t"
begin

text \<open>The invariant: cached size exact, content within the capacity.\<close>

definition inv :: "'t \<Rightarrow> bool" where
  "inv t \<longleftrightarrow> cached t = table_size (entries t) \<and> table_size (entries t) \<le> cap t"

end

lemma hsize_pos [simp]: "0 < hsize h"
  by (simp add: hsize_def)

lemma table_size_simps [simp]:
  "table_size [] = 0" "table_size (h # hs) = hsize h + table_size hs"
  "table_size (xs @ ys) = table_size xs + table_size ys"
  by (simp_all add: table_size_def)

lemma table_size_trim_to: "table_size (trim_to c hs) \<le> c"
  by (induction c hs rule: trim_to.induct) auto

lemma trim_to_fits [simp]: "table_size hs \<le> c \<Longrightarrow> trim_to c hs = hs"
  by (induction c hs rule: trim_to.induct) auto

lemma trim_to_trim_to: "trim_to c (trim_to d hs) = trim_to (min c d) hs"
proof (induction hs arbitrary: c d)
  case (Cons h hs)
  have "min (c - hsize h) (d - hsize h) = min c d - hsize h" by simp
  with Cons show ?case by auto
qed simp

lemma trim_to_snoc: "c < table_size (hs @ [h]) \<Longrightarrow> trim_to c (hs @ [h]) = trim_to c hs"
  by (induction c hs rule: trim_to.induct) auto

lemma trim_to_prefix: "\<exists>ys. hs = trim_to c hs @ ys"
  by (induction c hs rule: trim_to.induct) auto

text \<open>The longest fitting prefix: nothing longer fits.\<close>

lemma trim_to_maximal:
  assumes "hs = xs @ ys" "table_size xs \<le> c"
  shows "length xs \<le> length (trim_to c hs)"
  using assms by (induction c hs arbitrary: xs rule: trim_to.induct) (auto simp: Cons_eq_append_conv)

context dyn_table
begin

lemma inv_insert: "inv t \<Longrightarrow> inv (ins t n v)"
  by (simp add: inv_def ins_entries ins_cached ins_cap push_entry_def table_size_trim_to del: trim_to.simps)

lemma inv_evict: "cached t = table_size (entries t) \<Longrightarrow> inv (evict t 0)"
  by (simp add: inv_def evict_cached evict_cap evict_entries table_size_trim_to)

lemma insert_newest: "inv t \<Longrightarrow> hsize (n, v) \<le> cap t \<Longrightarrow> \<exists>hs. entries (ins t n v) = (n, v) # hs"
  by (simp add: inv_def ins_entries push_entry_def)

lemma insert_oversized: "inv t \<Longrightarrow> cap t < hsize (n, v) \<Longrightarrow> entries (ins t n v) = []"
  by (simp add: inv_def ins_entries push_entry_def)

lemma fold_insert:
  assumes "inv t" "table_size (rev hs @ entries t) \<le> cap t"
  shows "entries (fold (\<lambda>(n, v) t. ins t n v) hs t) = rev hs @ entries t"
  using assms
proof (induction hs arbitrary: t)
  case (Cons h hs)
  obtain n v where h: "h = (n, v)" by (cases h)
  have "entries (ins t n v) = h # entries t"
    using Cons.prems by (simp add: inv_def h ins_entries push_entry_def table_size_def)
  with Cons.IH [OF inv_insert [OF Cons.prems(1)], of n v] Cons.prems show ?case
    by (simp add: h ins_cap)
qed simp

end

section \<open>Both tables meet the contract\<close>

declare d_evict_to_fit.simps [simp del] e_evict_to_fit.simps [simp del]

lemma entry_size_hsize: "entry_size n v = hsize (n, v)" "e_entry_size n v = hsize (n, v)"
  by (simp_all add: entry_size_def e_entry_size_def hsize_def)

lemma evicted_size:
  assumes "hs \<noteq> []" "last hs = (n, v)"
  shows "table_size hs - hsize (n, v) = table_size (butlast hs)"
  using assms append_butlast_last_id [of hs] table_size_simps(3) [of "butlast hs" "[last hs]"] by simp

lemma evict_trim_step:
  assumes "hs \<noteq> []" "c < table_size hs + k" "k \<le> c"
  shows "trim_to (c - k) (butlast hs) = trim_to (c - k) hs"
  using trim_to_snoc [of "c - k" "butlast hs" "last hs"] assms by simp

lemma d_evict_to_fit_eq:
  assumes "d_size d = table_size (d_table d)" "k \<le> d_cap d"
  shows "d_evict_to_fit d k =
    d\<lparr>d_table := trim_to (d_cap d - k) (d_table d), d_size := table_size (trim_to (d_cap d - k) (d_table d))\<rparr>"
  using assms
proof (induction d k rule: d_evict_to_fit.induct)
  case (1 d k)
  show ?case
  proof (cases "d_size d + k > d_cap d \<and> d_table d \<noteq> []")
    case True
    obtain n v where l: "last (d_table d) = (n, v)" by (cases "last (d_table d)")
    with 1 True show ?thesis
      by (subst d_evict_to_fit.simps)
        (simp add: entry_size_hsize evicted_size evict_trim_step)
  next
    case False
    with 1(2) show ?thesis by (subst d_evict_to_fit.simps) (auto simp: le_diff_conv2 1(3))
  qed
qed

lemma e_evict_to_fit_eq:
  assumes "e_size e = table_size (e_table e)" "k \<le> e_max e"
  shows "e_evict_to_fit e k =
    e\<lparr>e_table := trim_to (e_max e - k) (e_table e), e_size := table_size (trim_to (e_max e - k) (e_table e))\<rparr>"
  using assms
proof (induction e k rule: e_evict_to_fit.induct)
  case (1 e k)
  show ?case
  proof (cases "e_size e + k > e_max e \<and> e_table e \<noteq> []")
    case True
    obtain n v where l: "last (e_table e) = (n, v)" by (cases "last (e_table e)")
    with 1 True show ?thesis
      by (subst e_evict_to_fit.simps)
        (simp add: entry_size_hsize evicted_size evict_trim_step)
  next
    case False
    with 1(2) show ?thesis by (subst e_evict_to_fit.simps) (auto simp: le_diff_conv2 1(3))
  qed
qed

lemma d_cap_evict [simp]: "d_cap (d_evict_to_fit d k) = d_cap d"
  by (induction d k rule: d_evict_to_fit.induct) (subst d_evict_to_fit.simps, simp split: prod.splits)

lemma e_max_evict [simp]: "e_max (e_evict_to_fit e k) = e_max e"
  by (induction e k rule: e_evict_to_fit.induct) (subst e_evict_to_fit.simps, simp split: prod.splits)

lemma pending_evict [simp]:
  "pending_max (e_evict_to_fit e k) = pending_max e" "pending_min (e_evict_to_fit e k) = pending_min e"
  by (induction e k rule: e_evict_to_fit.induct) (subst e_evict_to_fit.simps, simp split: prod.splits)+

lemma pending_insert [simp]:
  "pending_max (e_insert e n v) = pending_max e" "pending_min (e_insert e n v) = pending_min e"
  by (simp_all add: e_insert_def Let_def)

interpretation dec_table: dyn_table d_table d_size d_cap d_evict_to_fit d_insert
  by unfold_locales
    (auto simp: d_insert_def Let_def entry_size_hsize push_entry_def d_evict_to_fit_eq)

interpretation enc_table: dyn_table e_table e_size e_max e_evict_to_fit e_insert
  by unfold_locales
    (auto simp: e_insert_def Let_def entry_size_hsize push_entry_def e_evict_to_fit_eq)

end
