(* ===== verification/Hpack_Codec.thy ===== *)
theory Hpack_Codec
  imports Hpack_Int Hpack_Huffman Hpack_Dyn
begin

text \<open>
  HPACK header blocks (\<open>src/src/http2.rs\<close>): string literals, \<open>Decoder::decode_block\<close>,
  \<open>Encoder::encode_header\<close>, and the octet rules of decoded fields
  (\<open>header_octets_ok\<close> of \<open>src/src/http.rs\<close>). The theorems relate an encoder and the decoder of its
  peer: a relation \<open>in_sync\<close> on their tables is kept by every operation, and under it each block
  decodes to the fields that were encoded.
\<close>

section \<open>Definitions\<close>

abbreviation (input) MAX_DECODED_HEADER_LIST :: nat where "MAX_DECODED_HEADER_LIST \<equiv> 262144"

definition is_token_char :: "byte \<Rightarrow> bool" where
  "is_token_char c \<longleftrightarrow> is_ascii_digit (char_of_byte c) \<or> is_ascii_lowercase (char_of_byte c) \<or>
     char_of_byte c \<in> set ''!#$%&'' \<or> c = 0x27 \<or> char_of_byte c \<in> set ''*+-.^_'' \<or> c = 0x60 \<or>
     char_of_byte c \<in> set ''|~''"

definition header_octets_ok :: "bytes \<Rightarrow> bytes \<Rightarrow> bool" where
  "header_octets_ok name val =
     (if name = [] then False
      else let name_rest = (if name ! 0 = 0x3a then drop 1 name else name)
           in if name_rest = [] then False
              else if \<not> list_all is_token_char name_rest then False
              else \<not> list_ex (\<lambda>c. c = 0x00 \<or> c = 0x0a \<or> c = 0x0d) val)"

definition encode_literal_string :: "string \<Rightarrow> bytes" where
  "encode_literal_string s =
     (let raw = as_bytes s;
          huff_len = div_ceil (huffman_bit_len raw) 8
      in if huff_len < length raw
         then encode_int_into huff_len 7 0x80 @ huffman_encode raw
         else encode_int_into (length raw) 7 0 @ raw)"

definition read_string :: "bytes \<Rightarrow> nat \<Rightarrow> (string \<times> nat) result" where
  "read_string buf pos =
     (if pos \<ge> length buf then Err (BadResponse ''hpack: truncated string'')
      else let huffman = (buf ! pos AND 0x80 \<noteq> 0)
      in res_bind (decode_int (drop pos buf) 7) (\<lambda>(len, consumed).
        let pos' = pos + consumed
        in res_bind (ok_or (BadResponse ''hpack: string length overflow'') (checked_add_u64 pos' len)) (\<lambda>end'.
          if end' > length buf then Err (BadResponse ''hpack: truncated string body'')
          else let raw = take (end' - pos') (drop pos' buf)
          in if huffman then
               res_bind (huffman_decode raw) (\<lambda>bs.
               res_bind (ok_or (BadResponse ''hpack: non-utf8 Huffman literal'') (from_utf8 bs)) (\<lambda>s. Ok (s, end')))
             else
               res_bind (ok_or (BadResponse ''hpack: non-utf8 literal'') (from_utf8 raw)) (\<lambda>s. Ok (s, end')))))"

text \<open>The name and value of a literal field representation with a \<open>prefix\<close>-bit name index.\<close>

definition read_literal_field :: "decoder \<Rightarrow> bytes \<Rightarrow> nat \<Rightarrow> nat \<Rightarrow> (header \<times> nat) result" where
  "read_literal_field d buf pos prefix =
     res_bind (decode_int (drop pos buf) prefix) (\<lambda>(idx, n).
     res_bind (if idx = 0 then read_string buf (pos + n)
               else res_bind (d_lookup_name d idx) (\<lambda>name. Ok (name, pos + n))) (\<lambda>(name, pos1).
     res_bind (read_string buf pos1) (\<lambda>(val, pos2). Ok ((name, val), pos2))))"

text \<open>
  One turn of the \<open>while\<close> loop of \<open>decode_block\<close> up to the octet check: the new table, the new
  position, and the decoded field (\<open>None\<close> for a table size update, the \<open>continue\<close> branch).
  No failing branch has changed the table.
\<close>

definition decode_field :: "decoder \<Rightarrow> bytes \<Rightarrow> nat \<Rightarrow> bool \<Rightarrow> (decoder \<times> nat \<times> header option) result" where
  "decode_field d buf pos out_empty =
     (let b = buf ! pos
      in if b AND 0x80 \<noteq> 0 then
           res_bind (decode_int (drop pos buf) 7) (\<lambda>(idx, n).
           res_bind (d_lookup d idx) (\<lambda>h. Ok (d, pos + n, Some h)))
         else if b AND 0x40 \<noteq> 0 then
           res_bind (read_literal_field d buf pos 6) (\<lambda>((name, val), pos').
             Ok (d_insert d name val, pos', Some (name, val)))
         else if b AND 0x20 \<noteq> 0 then
           if \<not> out_empty
           then Err (BadResponse ''hpack: dynamic table size update after a header field (COMPRESSION_ERROR)'')
           else res_bind (decode_int (drop pos buf) 5) (\<lambda>(new_size, n).
             if new_size > DYN_TABLE_CAP
             then Err (BadResponse ''hpack: dynamic table size update exceeds limit (COMPRESSION_ERROR)'')
             else Ok (d_evict_to_fit (d\<lparr>d_cap := new_size\<rparr>) 0, pos + n, None))
         else
           res_bind (read_literal_field d buf pos 4) (\<lambda>(h, pos'). Ok (d, pos', Some h)))"

lemma decode_int_consumes: "decode_int buf p = Ok (v, n) \<Longrightarrow> 0 < n"
  using decode_int_exact [of buf p v n] by simp

lemma read_string_advances: "read_string buf pos = Ok (s, pos') \<Longrightarrow> pos < pos' \<and> pos' \<le> length buf"
  by (auto simp: read_string_def Let_def checked_add_u64_def dest!: decode_int_consumes split: if_splits)

lemma read_literal_field_advances: "read_literal_field d buf pos p = Ok (h, pos') \<Longrightarrow> pos < pos'"
  by (fastforce simp: read_literal_field_def dest!: decode_int_consumes read_string_advances split: if_splits)

lemma decode_field_advances: "decode_field d buf pos b = Ok (d', pos', h) \<Longrightarrow> pos < pos'"
  by (auto simp: decode_field_def Let_def dest!: decode_int_consumes read_literal_field_advances split: if_splits)

function decode_block_loop :: "decoder \<Rightarrow> bytes \<Rightarrow> nat \<Rightarrow> nat \<Rightarrow> header list \<Rightarrow> decoder \<times> header list result" where
  "decode_block_loop d buf pos list_size out =
     (if pos < length buf then
        case decode_field d buf pos (out = []) of
          Inl e \<Rightarrow> (d, Err e)
        | Inr (d', pos', None) \<Rightarrow> decode_block_loop d' buf pos' list_size out
        | Inr (d', pos', Some (name, val)) \<Rightarrow>
            if \<not> header_octets_ok (as_bytes name) (as_bytes val)
            then (d', Err (BadResponse ''hpack: forbidden octet in decoded header''))
            else let list_size' = saturating_add_u64 (saturating_add_u64
                       (saturating_add_u64 list_size (length name)) (length val)) 32
                 in if list_size' > MAX_DECODED_HEADER_LIST
                    then (d', Err (BadResponse ''hpack: decoded header list exceeds limit''))
                    else decode_block_loop d' buf pos' list_size' (out @ [(name, val)])
      else (d, Ok out))"
  by pat_completeness auto
termination
  by (relation "measure (\<lambda>(d, buf, pos, ls, out). length buf - pos)") (auto dest: decode_field_advances)

declare decode_block_loop.simps [simp del]

definition decode_block :: "decoder \<Rightarrow> bytes \<Rightarrow> decoder \<times> header list result" where
  "decode_block d buf = decode_block_loop d buf 0 0 []"

text \<open>\<open>encode_header\<close>: step (1), then steps (2) to (4).\<close>

definition encode_signals :: "encoder \<Rightarrow> encoder \<times> bytes" where
  "encode_signals e =
     (case pending_max e of
        None \<Rightarrow> (e, [])
      | Some n \<Rightarrow>
          (e\<lparr>pending_max := None, pending_min := None\<rparr>,
           (case pending_min e of
              Some m \<Rightarrow> if m < n then encode_int_into m 5 0x20 else []
            | None \<Rightarrow> []) @ encode_int_into n 5 0x20))"

definition encode_field :: "encoder \<Rightarrow> string \<Rightarrow> string \<Rightarrow> encoder \<times> bytes" where
  "encode_field e name val =
     (case combined_full_index e name val of
        Some idx \<Rightarrow> (e, encode_int_into idx 7 0x80)
      | None \<Rightarrow>
          (case combined_name_index e name of
             Some idx \<Rightarrow> (e_insert e name val, encode_int_into idx 6 0x40 @ encode_literal_string val)
           | None \<Rightarrow> (e_insert e name val,
                        [0x40] @ encode_literal_string name @ encode_literal_string val)))"

definition encode_header :: "encoder \<Rightarrow> string \<Rightarrow> string \<Rightarrow> encoder \<times> bytes" where
  "encode_header e name val =
     (let (e1, sig) = encode_signals e; (e2, fld) = encode_field e1 name val in (e2, sig @ fld))"

text \<open>The loop of \<open>build_header_block\<close> over the pseudo-headers and the regular fields.\<close>

fun encode_headers :: "encoder \<Rightarrow> header list \<Rightarrow> encoder \<times> bytes" where
  "encode_headers e [] = (e, [])"
| "encode_headers e ((name, val) # hs) =
     (let (e1, b1) = encode_header e name val; (e2, b2) = encode_headers e1 hs in (e2, b1 @ b2))"

section \<open>Encoder and peer decoder in step\<close>

text \<open>
  What the two ends agree on between blocks. With no size change pending the tables and
  capacities are equal; with one pending, the encoder has already evicted down to the
  smallest limit since the last block, which the peer will be told first.
\<close>

definition in_sync :: "encoder \<Rightarrow> decoder \<Rightarrow> bool" where
  "in_sync e d \<longleftrightarrow> enc_table.inv e \<and> dec_table.inv d \<and> e_max e \<le> DYN_TABLE_CAP \<and>
     (case pending_max e of
        None \<Rightarrow> pending_min e = None \<and> e_max e = d_cap d \<and> e_table e = d_table d
      | Some n \<Rightarrow> n = e_max e \<and>
          (\<exists>m. pending_min e = Some m \<and> m \<le> n \<and> e_table e = trim_to m (d_table d)))"

definition sendable :: "header \<Rightarrow> bool" where
  "sendable h \<longleftrightarrow> is_str (fst h) \<and> is_str (snd h) \<and> header_octets_ok (as_bytes (fst h)) (as_bytes (snd h))"

lemma in_sync_new: "in_sync encoder_new decoder_new"
  by (simp add: in_sync_def encoder_new_def decoder_new_def enc_table.inv_def dec_table.inv_def)

lemma in_sync_set_peer_max:
  assumes "in_sync e d"
  shows "in_sync (set_peer_max_table_size e n) d"
proof -
  define k where "k = min n DYN_TABLE_CAP"
  define prev where "prev = (case pending_min e of Some m \<Rightarrow> m | None \<Rightarrow> e_max e)"
  define e1 where "e1 = e\<lparr>pending_min := Some (min prev k), e_max := k\<rparr>"
  have u: "set_peer_max_table_size e n = (if k = e_max e \<and> pending_max e = None then e
      else (e_evict_to_fit e1 0)\<lparr>pending_max := Some k\<rparr>)"
    unfolding set_peer_max_table_size_def Let_def k_def prev_def e1_def by (rule refl)
  show ?thesis
  proof (cases "k = e_max e \<and> pending_max e = None")
    case False
    have cached: "e_size e1 = table_size (e_table e1)"
      using assms by (simp add: in_sync_def enc_table.inv_def e1_def)
    have inv: "enc_table.inv (e_evict_to_fit e1 0)" by (rule enc_table.inv_evict [OF cached])
    have ev: "e_evict_to_fit e1 0 = e1\<lparr>e_table := trim_to k (e_table e), e_size := table_size (trim_to k (e_table e))\<rparr>"
      using e_evict_to_fit_eq [OF cached, of 0] by (simp add: e1_def)
    have "trim_to k (e_table e) = trim_to (min prev k) (d_table d)"
    proof (cases "pending_max e")
      case None
      with assms have "prev = d_cap d" "e_table e = d_table d" "table_size (d_table d) \<le> d_cap d"
        by (auto simp: in_sync_def prev_def dec_table.inv_def)
      then show ?thesis using trim_to_trim_to [of k "d_cap d" "d_table d"] by (simp add: min.commute)
    next
      case (Some x)
      with assms show ?thesis by (auto simp: in_sync_def prev_def trim_to_trim_to min.commute)
    qed
    then have tab: "e_table (e_evict_to_fit e1 0) = trim_to (min prev k) (d_table d)" by (simp add: ev)
    have fields: "e_max (e_evict_to_fit e1 0) = k" "pending_min (e_evict_to_fit e1 0) = Some (min prev k)"
      unfolding ev by (simp_all add: e1_def)
    have k: "k \<le> DYN_TABLE_CAP" by (simp add: k_def)
    from assms inv tab fields k show ?thesis
      unfolding u if_not_P [OF False] by (simp add: in_sync_def enc_table.inv_def del: e_max_evict)
  qed (use assms u in simp)
qed

section \<open>Reading back what was written\<close>

lemma byte_of_nat_and_bit:
  assumes "n < 2 ^ p" "p \<le> k" "k < 8"
  shows "(word_of_nat n :: byte) AND 2 ^ k = 0"
proof -
  have "n < 2 ^ k" using assms(1,2) power_increasing [of p k "2 :: nat"] by linarith
  then have "\<not> bit n k" by (simp add: bit_iff_odd)
  then have "\<not> bit (word_of_nat n :: byte) k" by (simp add: bit_simps)
  then show ?thesis by (simp add: and_exp_eq_0_iff_not_bit)
qed

lemma int_first_byte:
  assumes "p \<le> 8" "n < 2 ^ p"
  defines "b \<equiv> (word_of_nat n :: byte)"
  shows "p \<le> 7 \<Longrightarrow> (b OR fl) AND 0x80 = fl AND 0x80"
    and "p \<le> 6 \<Longrightarrow> (b OR fl) AND 0x40 = fl AND 0x40"
    and "p \<le> 5 \<Longrightarrow> (b OR fl) AND 0x20 = fl AND 0x20"
  using byte_of_nat_and_bit [OF assms(2), of 7] byte_of_nat_and_bit [OF assms(2), of 6]
    byte_of_nat_and_bit [OF assms(2), of 5]
  by (simp_all add: b_def bit.conj_disj_distrib2)

lemma encode_int_first_byte:
  assumes "p \<le> 7"
  shows "\<exists>b bs. encode_int_into v p fl = b # bs \<and> b AND 0x80 = fl AND 0x80 \<and>
    (p \<le> 6 \<longrightarrow> b AND 0x40 = fl AND 0x40) \<and> (p \<le> 5 \<longrightarrow> b AND 0x20 = fl AND 0x20)"
proof -
  from assms have "p \<le> 8" by simp
  then obtain n where n: "n < 2 ^ p" "hd (encode_int_into v p fl) = word_of_nat n OR fl"
    "encode_int_into v p fl \<noteq> []"
    by (rule encode_int_into_Cons)
  then obtain bs where "encode_int_into v p fl = (word_of_nat n OR fl) # bs"
    by (cases "encode_int_into v p fl") auto
  with int_first_byte [OF \<open>p \<le> 8\<close> n(1), of fl] assms show ?thesis by auto
qed

text \<open>A buffer seen from a position.\<close>

lemma drop_append_split: "drop pos buf = xs @ ys \<Longrightarrow> drop (pos + length xs) buf = ys"
  by (metis add.commute append_eq_conv_conj drop_drop)

lemma drop_nth_hd: "drop pos buf = x # xs \<Longrightarrow> buf ! pos = x \<and> pos < length buf"
  by (metis drop_all hd_drop_conv_nth list.distinct(1) list.sel(1) not_le)

lemma drop_length_bound: "drop pos buf = xs @ ys \<Longrightarrow> xs \<noteq> [] \<Longrightarrow> pos + length xs \<le> length buf"
  by (cases "pos < length buf") (auto simp: less_diff_conv2 dest!: arg_cong [of "drop pos buf" _ length])

text \<open>A length-prefixed string body, of either coding.\<close>

lemma read_string_body:
  assumes buf: "drop pos buf = encode_int_into (length body) 7 fl @ body @ r"
    and fl: "take_bit 7 fl = 0" and len: "length buf < 2 ^ 63"
  shows "read_string buf pos =
    (let end' = pos + length (encode_int_into (length body) 7 fl) + length body
     in if fl AND 0x80 \<noteq> 0 then
          res_bind (huffman_decode body) (\<lambda>bs.
          res_bind (ok_or (BadResponse ''hpack: non-utf8 Huffman literal'') (from_utf8 bs)) (\<lambda>s. Ok (s, end')))
        else
          res_bind (ok_or (BadResponse ''hpack: non-utf8 literal'') (from_utf8 body)) (\<lambda>s. Ok (s, end')))"
proof -
  define L where "L = length (encode_int_into (length body) 7 fl)"
  obtain b bs where b: "encode_int_into (length body) 7 fl = b # bs" "b AND 0x80 = fl AND 0x80"
    using encode_int_first_byte [of 7 "length body" fl] by auto
  have hd: "buf ! pos = b" "pos < length buf" using drop_nth_hd [of pos buf b] buf b by auto
  have end': "pos + L + length body \<le> length buf"
    using drop_length_bound [of pos buf "encode_int_into (length body) 7 fl @ body" r] buf b by (simp add: L_def)
  have d: "decode_int (drop pos buf) 7 = Ok (length body, L)"
    unfolding buf L_def by (rule decode_encode_int) (use end' len fl in auto)
  have "drop (pos + L) buf = body @ r" unfolding L_def by (rule drop_append_split [OF buf])
  with end' len hd b(2) show ?thesis
    by (simp add: read_string_def d checked_add_u64_def Let_def L_def [symmetric])
qed

lemma read_string_literal:
  assumes buf: "drop pos buf = encode_literal_string s @ r" and s: "is_str s" and len: "length buf < 2 ^ 63"
  shows "read_string buf pos = Ok (s, pos + length (encode_literal_string s))"
proof (cases "div_ceil (huffman_bit_len (as_bytes s)) 8 < length (as_bytes s)")
  case True
  then have e: "encode_literal_string s =
      encode_int_into (length (huffman_encode (as_bytes s))) 7 0x80 @ huffman_encode (as_bytes s)"
    by (simp add: encode_literal_string_def length_huffman_encode Let_def)
  show ?thesis
    using read_string_body [where buf = buf and body = "huffman_encode (as_bytes s)" and fl = "0x80" and pos = pos and r = r] buf len s
    by (simp add: e huffman_decode_encode Let_def add.assoc)
next
  case False
  then have e: "encode_literal_string s = encode_int_into (length (as_bytes s)) 7 0 @ as_bytes s"
    by (simp add: encode_literal_string_def Let_def)
  show ?thesis
    using read_string_body [where buf = buf and body = "as_bytes s" and fl = 0 and pos = pos and r = r] buf len s by (simp add: e Let_def add.assoc)
qed

lemma static_lookup:
  assumes "position P STATIC_TABLE = Some i"
  shows "d_lookup d (Suc i) = Ok (STATIC_TABLE ! i) \<and> P (STATIC_TABLE ! i) \<and> Suc i < 2 ^ 63"
  using position_SomeD [OF assms] by (simp add: d_lookup_def)

lemma dynamic_lookup:
  assumes "position P (d_table d) = Some i"
  shows "d_lookup d (62 + i) = Ok (d_table d ! i) \<and> P (d_table d ! i)"
  using position_SomeD [OF assms] by (simp add: d_lookup_def)

text \<open>The dynamic table never holds more than 128 entries, so every index fits 64 bits.\<close>

lemma length_le_table_size: "32 * length hs \<le> table_size hs"
  by (induction hs) (auto simp: hsize_def)

lemma table_index_small:
  assumes "dec_table.inv d" "d_cap d \<le> DYN_TABLE_CAP" "i < length (d_table d)"
  shows "62 + i < 2 ^ 63"
  using assms length_le_table_size [of "d_table d"] by (simp add: dec_table.inv_def)

lemma combined_full_index_lookup:
  assumes "combined_full_index e name val = Some idx" "in_sync e d" "pending_max e = None"
  shows "d_lookup d idx = Ok (name, val) \<and> idx < 2 ^ 63"
proof (cases "static_full_index name val")
  case None
  with assms obtain i where i: "position (\<lambda>(n, v). n = name \<and> v = val) (d_table d) = Some i" "idx = 62 + i"
    by (auto simp: combined_full_index_def in_sync_def)
  have "i < length (d_table d)" using position_SomeD [OF i(1)] by simp
  with assms table_index_small [of d i] dynamic_lookup [OF i(1)] i(2) show ?thesis by (auto simp: in_sync_def)
next
  case (Some k)
  with assms obtain i where i: "position (\<lambda>(n, v). n = name \<and> v = val) STATIC_TABLE = Some i" "idx = Suc i"
    by (auto simp: combined_full_index_def static_full_index_def)
  with static_lookup [OF i(1), of d] show ?thesis by (simp split: prod.splits)
qed

lemma combined_name_index_lookup:
  assumes "combined_name_index e name = Some idx" "in_sync e d" "pending_max e = None"
  shows "d_lookup_name d idx = Ok name \<and> 0 < idx \<and> idx < 2 ^ 63"
proof (cases "static_name_index name")
  case None
  with assms obtain i where i: "position (\<lambda>(n, _). n = name) (d_table d) = Some i" "idx = 62 + i"
    by (auto simp: combined_name_index_def in_sync_def)
  have "i < length (d_table d)" using position_SomeD [OF i(1)] by simp
  with assms table_index_small [of d i] dynamic_lookup [OF i(1)] i(2) show ?thesis
    by (auto simp: in_sync_def d_lookup_name_def)
next
  case (Some k)
  with assms obtain i where i: "position (\<lambda>(n, _). n = name) STATIC_TABLE = Some i" "idx = Suc i"
    by (auto simp: combined_name_index_def static_name_index_def)
  with static_lookup [OF i(1), of d] show ?thesis by (simp add: d_lookup_name_def split: prod.splits)
qed

lemma in_sync_insert:
  assumes "in_sync e d" "pending_max e = None"
  shows "in_sync (e_insert e n v) (d_insert d n v)"
  using assms enc_table.inv_insert [of e n v] dec_table.inv_insert [of d n v]
  by (simp add: in_sync_def enc_table.inv_def dec_table.inv_def enc_table.ins_entries enc_table.ins_cap
      dec_table.ins_entries dec_table.ins_cap)

text \<open>One field: the decoder reads what the encoder wrote, and the tables stay in step.\<close>

lemma decode_field_encode_field:
  assumes sync: "in_sync e d" "pending_max e = None" and enc: "encode_field e name val = (e', bs)"
    and buf: "drop pos buf = bs @ r" and len: "length buf < 2 ^ 63" and str: "is_str name" "is_str val"
  shows "\<exists>d'. decode_field d buf pos b = Ok (d', pos + length bs, Some (name, val)) \<and>
    in_sync e' d' \<and> pending_max e' = None \<and> bs \<noteq> []"
proof (cases "combined_full_index e name val")
  case (Some idx)
  with enc have e: "e' = e" "bs = encode_int_into idx 7 0x80" by (simp_all add: encode_field_def)
  from combined_full_index_lookup [OF Some sync] have l: "d_lookup d idx = Ok (name, val)" "idx < 2 ^ 64" by auto
  obtain x xs where x: "bs = x # xs" "x AND 0x80 = 0x80 AND 0x80"
    using encode_int_first_byte [of 7 idx "0x80"] e(2) by auto
  have "buf ! pos = x" using drop_nth_hd [of pos buf x] buf x(1) by auto
  moreover have "decode_int (drop pos buf) 7 = Ok (idx, length bs)"
    unfolding buf e(2) by (rule decode_encode_int) (use l(2) in auto)
  ultimately show ?thesis using sync l(1) x by (simp add: decode_field_def e(1))
next
  case full: None
  define p where "p = (case combined_name_index e name of Some idx \<Rightarrow> idx | None \<Rightarrow> 0)"
  define lits where "lits = (case combined_name_index e name of Some idx \<Rightarrow> [] | None \<Rightarrow> encode_literal_string name)"
  have zero: "[0x40] = encode_int_into 0 6 0x40" by (simp add: encode_int_into_def)
  have e: "e' = e_insert e name val" "bs = encode_int_into p 6 0x40 @ lits @ encode_literal_string val"
    using enc full unfolding encode_field_def p_def lits_def zero by (auto split: option.splits)
  have p: "p < 2 ^ 64" "p \<noteq> 0 \<Longrightarrow> d_lookup_name d p = Ok name \<and> lits = []" "p = 0 \<Longrightarrow> lits = encode_literal_string name"
    using combined_name_index_lookup [OF _ sync, of name]
    by (auto simp: p_def lits_def split: option.splits)
  define p1 where "p1 = pos + length (encode_int_into p 6 0x40)"
  define p2 where "p2 = p1 + length lits"
  have d1: "drop p1 buf = lits @ encode_literal_string val @ r"
    unfolding p1_def by (rule drop_append_split) (simp add: buf e(2))
  have d2: "drop p2 buf = encode_literal_string val @ r" unfolding p2_def by (rule drop_append_split [OF d1])
  have i: "decode_int (drop pos buf) 6 = Ok (p, length (encode_int_into p 6 0x40))"
    unfolding buf e(2) append_assoc by (rule decode_encode_int) (use p(1) in auto)
  have name: "(if p = 0 then read_string buf p1 else res_bind (d_lookup_name d p) (\<lambda>name. Ok (name, p1))) = Ok (name, p2)"
    using p(2,3) read_string_literal [of p1 buf name, OF _ str(1) len] d1 by (auto simp: p2_def)
  have val: "read_string buf p2 = Ok (val, pos + length bs)"
    using read_string_literal [OF d2 str(2) len] by (simp add: p2_def p1_def e(2) add.assoc)
  have lit: "read_literal_field d buf pos 6 = Ok ((name, val), pos + length bs)"
    unfolding read_literal_field_def i res_bind_simps prod.case p1_def [symmetric] name val by (rule refl)
  obtain x xs where x: "encode_int_into p 6 0x40 = x # xs" "x AND 0x80 = 0" "x AND 0x40 = 0x40"
    using encode_int_first_byte [of 6 p "0x40"] by auto
  have "buf ! pos = x" using drop_nth_hd [of pos buf x] buf x(1) e(2) by auto
  then show ?thesis
    using in_sync_insert [OF sync, of name val] sync lit x by (simp add: decode_field_def e)
qed

lemma decode_field_update:
  assumes inv: "dec_table.inv d" and n: "n \<le> DYN_TABLE_CAP" and buf: "drop pos buf = encode_int_into n 5 0x20 @ r"
  shows "decode_field d buf pos True = Ok (d\<lparr>d_cap := n, d_table := trim_to n (d_table d),
      d_size := table_size (trim_to n (d_table d))\<rparr>, pos + length (encode_int_into n 5 0x20), None)"
proof -
  obtain x xs where x: "encode_int_into n 5 0x20 = x # xs" "x AND 0x80 = 0" "x AND 0x40 = 0" "x AND 0x20 = 0x20"
    using encode_int_first_byte [of 5 n "0x20"] by auto
  have hd: "buf ! pos = x" using drop_nth_hd [of pos buf x] buf x(1) by auto
  have i: "decode_int (drop pos buf) 5 = Ok (n, length (encode_int_into n 5 0x20))"
    unfolding buf by (rule decode_encode_int) (use n in auto)
  from inv have ev: "d_evict_to_fit (d\<lparr>d_cap := n\<rparr>) 0 = d\<lparr>d_cap := n, d_table := trim_to n (d_table d),
      d_size := table_size (trim_to n (d_table d))\<rparr>"
    by (simp add: d_evict_to_fit_eq dec_table.inv_def)
  show ?thesis using x(2-4) n by (simp add: decode_field_def hd i ev)
qed

lemma decode_block_loop_update:
  assumes "dec_table.inv d" "n \<le> DYN_TABLE_CAP" "drop pos buf = encode_int_into n 5 0x20 @ r"
  shows "decode_block_loop d buf pos ls [] =
    decode_block_loop (d\<lparr>d_cap := n, d_table := trim_to n (d_table d),
      d_size := table_size (trim_to n (d_table d))\<rparr>) buf (pos + length (encode_int_into n 5 0x20)) ls []"
proof -
  obtain x xs where "encode_int_into n 5 0x20 = x # xs" using encode_int_first_byte [of 5 n "0x20"] by auto
  then have "pos < length buf" using drop_nth_hd [of pos buf x] assms(3) by auto
  then show ?thesis
    using decode_field_update [OF assms] by (subst decode_block_loop.simps) simp
qed

text \<open>Pending size updates bring the peer's table in step with the encoder's.\<close>

lemma decode_signals:
  assumes sync: "in_sync e d" and enc: "encode_signals e = (e1, sig)" and buf: "drop pos buf = sig @ r"
  shows "\<exists>d1. decode_block_loop d buf pos ls [] = decode_block_loop d1 buf (pos + length sig) ls [] \<and>
    in_sync e1 d1 \<and> pending_max e1 = None"
proof (cases "pending_max e")
  case None
  with assms show ?thesis by (auto simp: encode_signals_def)
next
  case (Some n)
  define upd :: "nat \<Rightarrow> decoder \<Rightarrow> decoder" where "upd = (\<lambda>k d. d\<lparr>d_cap := k, d_table := trim_to k (d_table d),
      d_size := table_size (trim_to k (d_table d))\<rparr>)"
  have inv: "dec_table.inv (upd k d)" for k d by (simp add: upd_def dec_table.inv_def table_size_trim_to)
  from Some sync obtain m where m: "pending_min e = Some m" "m \<le> n" "n = e_max e" "n \<le> DYN_TABLE_CAP"
    "e_table e = trim_to m (d_table d)" "dec_table.inv d" "enc_table.inv e"
    by (auto simp: in_sync_def)
  have e1: "e1 = e\<lparr>pending_max := None, pending_min := None\<rparr>"
    and sig: "sig = (if m < n then encode_int_into m 5 0x20 else []) @ encode_int_into n 5 0x20"
    using enc Some m(1) by (auto simp: encode_signals_def)
  define d0 where "d0 = (if m < n then upd m d else d)"
  define p0 where "p0 = pos + length (if m < n then encode_int_into m 5 0x20 else [])"
  have step0: "decode_block_loop d buf pos ls [] = decode_block_loop d0 buf p0 ls []"
    using decode_block_loop_update [OF m(6), of m pos buf _ ls] m(2,4) buf
    by (auto simp: d0_def p0_def upd_def sig)
  have b0: "drop p0 buf = encode_int_into n 5 0x20 @ r"
    unfolding p0_def by (rule drop_append_split) (simp add: buf sig)
  have "dec_table.inv d0" using m(6) inv by (simp add: d0_def)
  from decode_block_loop_update [OF this m(4) b0] step0
  have step: "decode_block_loop d buf pos ls [] = decode_block_loop (upd n d0) buf (pos + length sig) ls []"
    by (simp add: upd_def p0_def sig add.assoc)
  have "d_table (upd n d0) = e_table e"
    using m(2,5) by (auto simp: upd_def d0_def trim_to_trim_to min_def)
  then have "in_sync e1 (upd n d0)"
    using m(3,4,7) inv [of n d0] by (simp add: in_sync_def e1 enc_table.inv_def) (simp add: upd_def)
  with step show ?thesis by (auto simp: e1)
qed

lemma list_size_step:
  assumes "ls + hsize (n, v) \<le> MAX_DECODED_HEADER_LIST"
  shows "saturating_add_u64 (saturating_add_u64 (saturating_add_u64 ls (length n)) (length v)) 32 = ls + hsize (n, v)"
  using assms by (simp add: saturating_add_u64_def hsize_def)

lemma encode_header_settled:
  "pending_max e = None \<Longrightarrow> encode_header e name val = encode_field e name val"
  by (simp add: encode_header_def encode_signals_def split: prod.splits)

lemma decode_fields:
  assumes "in_sync e d" "pending_max e = None" "encode_headers e hs = (e', bs)"
    and "drop pos buf = bs" "length buf < 2 ^ 63" "list_all sendable hs"
    and "ls + table_size hs \<le> MAX_DECODED_HEADER_LIST"
  shows "\<exists>d'. decode_block_loop d buf pos ls out = (d', Ok (out @ hs)) \<and> in_sync e' d'"
  using assms
proof (induction hs arbitrary: e d bs pos ls out)
  case Nil
  then show ?case by (subst decode_block_loop.simps) auto
next
  case (Cons h hs)
  obtain n v where h: "h = (n, v)" by (cases h)
  obtain e1 b1 where e1: "encode_field e n v = (e1, b1)" by (cases "encode_field e n v")
  obtain e2 b2 where e2: "encode_headers e1 hs = (e2, b2)" by (cases "encode_headers e1 hs")
  have bs: "bs = b1 @ b2" "e' = e2" using Cons.prems(2,3) e1 e2 by (simp_all add: h encode_header_settled)
  from Cons.prems(6) have ok: "is_str n" "is_str v" "header_octets_ok (as_bytes n) (as_bytes v)"
    by (simp_all add: h sendable_def)
  from decode_field_encode_field [OF Cons.prems(1,2) e1 _ Cons.prems(5) ok(1,2), of pos b2 "out = []"] Cons.prems(4) bs
  obtain d1 where d1: "decode_field d buf pos (out = []) = Ok (d1, pos + length b1, Some (n, v))"
    "in_sync e1 d1" "pending_max e1 = None" "b1 \<noteq> []" by auto
  have "pos < length buf" using Cons.prems(4) bs(1) d1(4) by (cases "pos < length buf") auto
  moreover have "ls + hsize (n, v) \<le> MAX_DECODED_HEADER_LIST" using Cons.prems(7) by (simp add: h)
  ultimately have "decode_block_loop d buf pos ls out =
      decode_block_loop d1 buf (pos + length b1) (ls + hsize (n, v)) (out @ [(n, v)])"
    using d1(1) ok(3) by (subst decode_block_loop.simps) (simp add: list_size_step Let_def)
  moreover have "drop (pos + length b1) buf = b2"
    by (rule drop_append_split) (use Cons.prems(4) bs(1) in simp)
  ultimately show ?case
    using Cons.IH [OF d1(2,3) e2 [folded bs(2)] _ Cons.prems(5), of "pos + length b1" "ls + hsize (n, v)" "out @ [(n, v)]"]
      Cons.prems(6,7) bs(2) by (simp add: h add.assoc)
qed

lemma decode_block_encode_headers:
  assumes sync: "in_sync e d" and enc: "encode_headers e hs = (e', bs)" and len: "length bs < 2 ^ 63"
    and ok: "list_all sendable hs" and size: "table_size hs \<le> MAX_DECODED_HEADER_LIST"
  shows "\<exists>d'. decode_block d bs = (d', Ok hs) \<and> in_sync e' d'"
proof (cases hs)
  case Nil
  with sync enc show ?thesis by (simp add: decode_block_def decode_block_loop.simps)
next
  case (Cons h hs')
  obtain n v where h: "h = (n, v)" by (cases h)
  obtain e1 sig where s: "encode_signals e = (e1, sig)" by (cases "encode_signals e")
  obtain e2 b2 where e2: "encode_headers e1 hs = (e2, b2)" by (cases "encode_headers e1 hs")
  have settled: "pending_max e1 = None" using s by (auto simp: encode_signals_def split: option.splits)
  have "encode_signals e1 = (e1, [])" using settled by (simp add: encode_signals_def)
  then have bs: "bs = sig @ b2" "e' = e2"
    using enc e2 s by (auto simp: Cons h encode_header_def split: prod.splits)
  from decode_signals [OF sync s, of 0 bs b2 0] bs(1) obtain d1 where
    d1: "decode_block d bs = decode_block_loop d1 bs (length sig) 0 []" "in_sync e1 d1"
    by (auto simp: decode_block_def)
  have "drop (length sig) bs = b2" by (simp add: bs(1))
  from decode_fields [OF d1(2) settled e2 this len ok, of 0 "[]"] size d1(1) bs(2) show ?thesis by auto
qed

section \<open>Whole connections\<close>

text \<open>What happens to an encoder over a connection: SETTINGS of the peer, and header blocks.\<close>

datatype hpack_event = PeerTableSize nat | Block "header list"

fun encode_session :: "encoder \<Rightarrow> hpack_event list \<Rightarrow> bytes list" where
  "encode_session e [] = []"
| "encode_session e (PeerTableSize n # evs) = encode_session (set_peer_max_table_size e n) evs"
| "encode_session e (Block hs # evs) = (let (e', bs) = encode_headers e hs in bs # encode_session e' evs)"

fun decode_session :: "decoder \<Rightarrow> bytes list \<Rightarrow> header list list result" where
  "decode_session d [] = Ok []"
| "decode_session d (bs # bss) =
     (let (d', r) = decode_block d bs in res_bind r (\<lambda>hs. res_bind (decode_session d' bss) (\<lambda>hss. Ok (hs # hss))))"

fun blocks_of :: "hpack_event list \<Rightarrow> header list list" where
  "blocks_of [] = []"
| "blocks_of (PeerTableSize n # evs) = blocks_of evs"
| "blocks_of (Block hs # evs) = hs # blocks_of evs"

lemma decode_encode_session:
  assumes "in_sync e d" "\<forall>hs\<in>set (blocks_of evs). list_all sendable hs \<and> table_size hs \<le> MAX_DECODED_HEADER_LIST"
    and "\<forall>bs\<in>set (encode_session e evs). length bs < 2 ^ 63"
  shows "decode_session d (encode_session e evs) = Ok (blocks_of evs)"
  using assms
proof (induction evs arbitrary: e d rule: blocks_of.induct)
  case (2 n evs)
  then show ?case using in_sync_set_peer_max by simp
next
  case (3 hs evs)
  obtain e' bs where e': "encode_headers e hs = (e', bs)" by (cases "encode_headers e hs")
  with 3 decode_block_encode_headers [OF 3(2) e'] obtain d' where "decode_block d bs = (d', Ok hs)" "in_sync e' d'"
    by auto
  with 3 e' show ?case by simp
qed simp

text \<open>The decoder on its own: whatever it is fed, the table stays within its capacity, every
  accepted field has clean octets, and the accepted list is bounded.\<close>

lemma decode_field_inv:
  assumes "decode_field d buf pos b = Ok (d', pos', h)" "dec_table.inv d" "d_cap d \<le> DYN_TABLE_CAP"
  shows "dec_table.inv d' \<and> d_cap d' \<le> DYN_TABLE_CAP"
  using assms dec_table.inv_insert [of d] dec_table.inv_evict [of "d\<lparr>d_cap := c\<rparr>" for c]
  by (auto simp: decode_field_def Let_def dec_table.ins_cap dec_table.inv_def split: if_splits)

lemma decode_block_loop_bounds:
  assumes "decode_block_loop d buf pos ls out = (d', r)" "dec_table.inv d" "d_cap d \<le> DYN_TABLE_CAP"
    and "list_all (\<lambda>(n, v). header_octets_ok (as_bytes n) (as_bytes v)) out" "ls = table_size out"
    and "ls \<le> MAX_DECODED_HEADER_LIST"
  shows "dec_table.inv d' \<and> d_cap d' \<le> DYN_TABLE_CAP \<and> (\<forall>hs. r = Ok hs \<longrightarrow>
    list_all (\<lambda>(n, v). header_octets_ok (as_bytes n) (as_bytes v)) hs \<and> table_size hs \<le> MAX_DECODED_HEADER_LIST)"
  using assms
proof (induction d buf pos ls out rule: decode_block_loop.induct)
  case (1 d buf pos ls out)
  show ?case
  proof (cases "pos < length buf")
    case False
    with "1.prems" show ?thesis by (subst (asm) decode_block_loop.simps) auto
  next
    case pos: True
    show ?thesis
    proof (cases "decode_field d buf pos (out = [])")
      case (Inl e)
      with "1.prems" pos show ?thesis by (subst (asm) decode_block_loop.simps) auto
    next
      case (Inr t)
      obtain d1 p1 h where t: "t = (d1, p1, h)" by (cases t)
      from decode_field_inv [of d buf pos "out = []" d1 p1 h] Inr t "1.prems"(2,3)
      have inv: "dec_table.inv d1" "d_cap d1 \<le> DYN_TABLE_CAP" by auto
      show ?thesis
      proof (cases h)
        case None
        with "1.prems" pos Inr t have run: "decode_block_loop d1 buf p1 ls out = (d', r)"
          by (subst (asm) decode_block_loop.simps) simp
        show ?thesis
          by (rule "1.IH"(1) [OF pos Inr t [symmetric] refl None run inv "1.prems"(4-6)])
      next
        case (Some nv)
        obtain n v where nv: "nv = (n, v)" by (cases nv)
        define ls' where "ls' = saturating_add_u64 (saturating_add_u64 (saturating_add_u64 ls (length n)) (length v)) 32"
        consider "(d', r) = (d1, Err (BadResponse ''hpack: forbidden octet in decoded header''))"
          | "(d', r) = (d1, Err (BadResponse ''hpack: decoded header list exceeds limit''))"
          | "header_octets_ok (as_bytes n) (as_bytes v)" "\<not> ls' > MAX_DECODED_HEADER_LIST"
            "decode_block_loop d1 buf p1 ls' (out @ [(n, v)]) = (d', r)"
          using "1.prems"(1) pos Inr t Some nv
          by (subst (asm) decode_block_loop.simps) (auto simp: ls'_def [symmetric] Let_def split: if_splits)
        then show ?thesis
        proof cases
          case 3
          then have "ls' = ls + hsize (n, v)"
            using "1.prems"(6) by (simp add: ls'_def saturating_add_u64_def hsize_def split: if_splits)
          with 3 "1.prems"(4,5) show ?thesis
            by (intro "1.IH"(2) [OF pos Inr t [symmetric] refl Some nv [symmetric] _ ls'_def _ 3(3) inv]) auto
        qed (use inv in auto)
      qed
    qed
  qed
qed

section \<open>Properties\<close>

text \<open>
  (C1) Header compression is transparent over a whole connection: whatever sequence of header
  blocks is sent, interleaved with whatever changes of the peer's table size, the peer's decoder
  gets back exactly the header lists, in order. (A field is sendable when its strings are
  UTF-8 and its octets are legal; a block is within the decoder's 256 KiB list limit.)
\<close>

theorem hpack_session_roundtrip:
  assumes "\<forall>hs\<in>set (blocks_of evs). list_all sendable hs \<and> table_size hs \<le> 262144"
    and "\<forall>bs\<in>set (encode_session encoder_new evs). length bs < 2 ^ 63"
  shows "decode_session decoder_new (encode_session encoder_new evs) = Ok (blocks_of evs)"
  using in_sync_new assms by (rule decode_encode_session)

lemma hpack_session_roundtrip_witness:
  "decode_session decoder_new (encode_session encoder_new [PeerTableSize 0, PeerTableSize 4096, Block [(''a'', ''b'')]]) =
     Ok [[(''a'', ''b'')]]"
proof -
  have h: "HUFFMAN ! 97 = (3, 5)" "HUFFMAN ! 98 = (0x23, 6)" by (simp_all add: HUFFMAN_def)
  have s: "static_full_index ''a'' ''b'' = None" "static_name_index ''a'' = None"
    by (simp_all add: static_full_index_def static_name_index_def STATIC_TABLE_def)
  have lit: "encode_literal_string ''a'' = [1, 97]" "encode_literal_string ''b'' = [1, 98]"
    by (simp_all add: encode_literal_string_def huffman_bit_len_def h div_ceil_def encode_int_into_def byte_of_char_def as_bytes_def)
  have "encode_session encoder_new [PeerTableSize 0, PeerTableSize 4096, Block [(''a'', ''b'')]] =
      [[0x20, 0x3f, 0xe1, 0x1f, 0x40, 1, 97, 1, 98]]"
    by (simp add: encoder_new_def set_peer_max_table_size_def e_evict_to_fit.simps encode_header_def
        encode_signals_def encode_field_def combined_full_index_def combined_name_index_def s lit
        encode_int_into_def encode_int_tail.simps drop_bit_eq_div)
  moreover have "sendable (''a'', ''b'')" by (simp add: sendable_def is_str_def header_octets_ok_def is_token_char_def
      as_bytes_def byte_of_char_def char_of_byte_def is_ascii_lowercase_def)
  ultimately show ?thesis
    using hpack_session_roundtrip [of "[PeerTableSize 0, PeerTableSize 4096, Block [(''a'', ''b'')]]"]
    by (simp add: table_size_def hsize_def)
qed

text \<open>
  One block: under the synchronisation relation, encoding any sendable list of fields and
  decoding the bytes gives the list, and leaves encoder and decoder synchronised again; the
  relation holds initially and survives every change of the peer's table size.
\<close>

theorem hpack_sync_invariant:
  assumes "in_sync e d" "encode_headers e hs = (e', bs)" "length bs < 2 ^ 63"
    and "list_all sendable hs" "table_size hs \<le> 262144"
  shows "in_sync encoder_new decoder_new \<and> in_sync (set_peer_max_table_size e n) d \<and>
    (\<exists>d'. decode_block d bs = (d', Ok hs) \<and> in_sync e' d')"
  using assms in_sync_new in_sync_set_peer_max decode_block_encode_headers by blast

lemma hpack_sync_invariant_witness:
  "encode_headers encoder_new [('':method'', ''GET'')] = (encoder_new, [0x82]) \<and>
   (\<exists>d'. decode_block decoder_new [0x82] = (d', Ok [('':method'', ''GET'')]) \<and> in_sync encoder_new d')"
proof -
  have "static_full_index '':method'' ''GET'' = Some 2" by (simp add: static_full_index_def STATIC_TABLE_def)
  then have e: "encode_headers encoder_new [('':method'', ''GET'')] = (encoder_new, [0x82])"
    by (simp add: encode_header_def encode_signals_def encode_field_def combined_full_index_def encoder_new_def
        encode_int_into_def)
  have ok: "list_all sendable [('':method'', ''GET'')]" by (simp add: sendable_def is_str_def header_octets_ok_def
      is_token_char_def as_bytes_def byte_of_char_def char_of_byte_def is_ascii_lowercase_def)
  show ?thesis
    using hpack_sync_invariant [OF in_sync_new e _ ok, of 100] e by (simp add: table_size_def hsize_def)
qed

text \<open>
  (C2) The decoder is safe on hostile input: whatever bytes it is given and whether or not it
  accepts them, its dynamic table stays within the 4096-byte capacity with an exact size
  count; an accepted list has no forbidden octet and its accounted size is at most 256 KiB.
\<close>

theorem hpack_decoder_safe:
  assumes "d_size d = table_size (d_table d)" "d_size d \<le> d_cap d" "d_cap d \<le> 4096" "decode_block d bs = (d', r)"
  shows "d_size d' = table_size (d_table d') \<and> d_size d' \<le> d_cap d' \<and> d_cap d' \<le> 4096 \<and>
    (\<forall>hs. r = Ok hs \<longrightarrow> list_all (\<lambda>(n, v). header_octets_ok (as_bytes n) (as_bytes v)) hs \<and>
       table_size hs \<le> 262144)"
proof -
  from assms have "dec_table.inv d" by (simp add: dec_table.inv_def)
  from decode_block_loop_bounds [OF assms(4) [unfolded decode_block_def] this assms(3)] show ?thesis
    by (simp add: dec_table.inv_def)
qed

lemma hpack_decoder_safe_witness:
  "\<exists>d'. decode_block decoder_new [0x3f, 0xe1, 0x1f, 0x82] = (d', Ok [('':method'', ''GET'')]) \<and> d_size d' \<le> 4096"
proof -
  have r: "decode_block decoder_new [0x3f, 0xe1, 0x1f, 0x82] = (decoder_new, Ok [('':method'', ''GET'')])"
    by (simp add: decode_block_def decode_block_loop.simps decode_field_def decode_int_def checked_add_u64_def
        d_lookup_def STATIC_TABLE_def decoder_new_def d_evict_to_fit.simps header_octets_ok_def
        is_token_char_def as_bytes_def byte_of_char_def char_of_byte_def is_ascii_lowercase_def saturating_add_u64_def)
  from hpack_decoder_safe [OF _ _ _ r] r show ?thesis by (auto simp: decoder_new_def)
qed

text \<open>
  The dynamic table is the newest entries that fit: inserting a field keeps the longest
  prefix of the new table, newest first, whose size is within the capacity, and an
  entry larger than the whole table empties it.
\<close>

theorem dyn_table_insert_spec:
  assumes "d_size d = table_size (d_table d)" "d_size d \<le> d_cap d"
  shows "\<exists>old. (name, val) # d_table d = d_table (d_insert d name val) @ old \<and>
    table_size (d_table (d_insert d name val)) \<le> d_cap d \<and>
    (\<forall>xs ys. (name, val) # d_table d = xs @ ys \<longrightarrow> table_size xs \<le> d_cap d \<longrightarrow>
       length xs \<le> length (d_table (d_insert d name val)))"
proof -
  have e: "d_table (d_insert d name val) = trim_to (d_cap d) ((name, val) # d_table d)"
    using dec_table.ins_entries [of d name val] assms by (simp only: push_entry_def)
  show ?thesis
    unfolding e using trim_to_prefix trim_to_maximal table_size_trim_to by meson
qed

lemma dyn_table_insert_spec_witness:
  "\<exists>old. [(''a'', ''b'')] = d_table (d_insert decoder_new ''a'' ''b'') @ old \<and>
     length (d_table (d_insert decoder_new ''a'' ''b'')) \<ge> 1"
  using dyn_table_insert_spec [of decoder_new "''a''" "''b''"]
  by (auto simp: decoder_new_def table_size_def hsize_def Cons_eq_append_conv)

end
