(* ===== verification/Rust_Str.thy ===== *)
theory Rust_Str
  imports Rsurl_Prelude
begin

text \<open>
  The \<open>str\<close> methods of the Rust standard library that the parsers use, on strings held as
  their UTF-8 bytes: ASCII case folding, \<open>trim\<close> (Unicode white space), \<open>split\<close>,
  \<open>split_once\<close>, \<open>strip_prefix\<close>, unsigned \<open>parse\<close> and decimal \<open>to_string\<close>.
\<close>

section \<open>Case folding\<close>

definition to_ascii_lowercase_char :: "char \<Rightarrow> char" where
  "to_ascii_lowercase_char c = (if is_ascii_uppercase c then char_of ((of_char c :: nat) + 32) else c)"

definition to_ascii_lowercase :: "string \<Rightarrow> string" where
  "to_ascii_lowercase s = map to_ascii_lowercase_char s"

definition eq_ignore_ascii_case :: "string \<Rightarrow> string \<Rightarrow> bool" where
  "eq_ignore_ascii_case s t \<longleftrightarrow> to_ascii_lowercase s = to_ascii_lowercase t"

lemma of_char_bound: "(of_char c :: nat) < 256"
  using char_of_eq_iff [of "of_char c :: nat" c] by simp

lemma lower_not_upper [simp]: "\<not> is_ascii_uppercase (to_ascii_lowercase_char c)"
  using of_char_bound [of c]
  by (auto simp: to_ascii_lowercase_char_def is_ascii_uppercase_def)

lemma to_ascii_lowercase_idem [simp]:
  "to_ascii_lowercase (to_ascii_lowercase s) = to_ascii_lowercase s"
  by (simp add: to_ascii_lowercase_def o_def to_ascii_lowercase_char_def [of "to_ascii_lowercase_char c" for c])

lemma length_to_ascii_lowercase [simp]: "length (to_ascii_lowercase s) = length s"
  by (simp add: to_ascii_lowercase_def)

lemma to_ascii_lowercase_simps [simp]:
  "to_ascii_lowercase [] = []"
  "to_ascii_lowercase (c # s) = to_ascii_lowercase_char c # to_ascii_lowercase s"
  "to_ascii_lowercase (s @ t) = to_ascii_lowercase s @ to_ascii_lowercase t"
  by (simp_all add: to_ascii_lowercase_def)

lemma eq_ignore_ascii_case_refl [simp]: "eq_ignore_ascii_case s s"
  by (simp add: eq_ignore_ascii_case_def)

text \<open>Texts can be put together.\<close>

lemma utf8_valid_append: "utf8_valid a \<Longrightarrow> utf8_valid (a @ b) = utf8_valid b"
proof (induction a rule: length_induct)
  case (1 a)
  show ?case
  proof (cases a)
    case (Cons x bs)
    have IH: "length r < length a \<Longrightarrow> utf8_valid r \<Longrightarrow> utf8_valid (r @ b) = utf8_valid b" for r using "1.IH" by blast
    consider "x < 0x80" | "\<not> x < 0x80" "0xC2 \<le> x \<and> x \<le> 0xDF" | "\<not> x < 0x80" "\<not> (0xC2 \<le> x \<and> x \<le> 0xDF)" "0xE0 \<le> x \<and> x \<le> 0xEF"
      | "\<not> x < 0x80" "\<not> (0xC2 \<le> x \<and> x \<le> 0xDF)" "\<not> (0xE0 \<le> x \<and> x \<le> 0xEF)" by blast
    then show ?thesis
    proof cases
      case 1
      with Cons "1.prems" IH [of bs] show ?thesis by simp
    next
      case 2
      with Cons "1.prems" obtain y r where r: "bs = y # r" "utf8_valid r" "cont_byte y" by (auto split: list.splits)
      with 2 Cons IH [of r] show ?thesis by (simp only: append_Cons utf8_valid.simps if_False if_True list.case simp_thms) simp
    next
      case 3
      with Cons "1.prems" obtain y z r where r: "bs = y # z # r" by (auto split: list.splits)
      with 3 Cons "1.prems" IH [of r] show ?thesis by (simp only: append_Cons utf8_valid.simps if_False if_True list.case simp_thms) simp
    next
      case 4
      with Cons "1.prems" obtain y z w r where r: "bs = y # z # w # r" by (auto split: list.splits if_splits)
      with 4 Cons "1.prems" IH [of r] show ?thesis by (simp only: append_Cons utf8_valid.simps if_False if_True list.case simp_thms) (simp split: if_splits)
    qed
  qed simp
qed

lemma is_str_append: "is_str a \<Longrightarrow> is_str b \<Longrightarrow> is_str (a @ b)"
  by (simp add: is_str_def utf8_valid_append)

section \<open>Splitting\<close>

text \<open>\<open>str::split\<close> with a single-byte separator: always at least one part.\<close>

fun split_on :: "char \<Rightarrow> string \<Rightarrow> string list" where
  "split_on x [] = [[]]"
| "split_on x (c # s) =
     (if c = x then [] # split_on x s
      else (case split_on x s of [] \<Rightarrow> [[c]] | p # ps \<Rightarrow> (c # p) # ps))"

definition split_once :: "char \<Rightarrow> string \<Rightarrow> (string \<times> string) option" where
  "split_once x s = (case position (\<lambda>c. c = x) s of
     None \<Rightarrow> None | Some i \<Rightarrow> Some (take i s, drop (i + 1) s))"

definition starts_with :: "string \<Rightarrow> string \<Rightarrow> bool" where
  "starts_with p s \<longleftrightarrow> take (length p) s = p"

definition ends_with :: "string \<Rightarrow> string \<Rightarrow> bool" where
  "ends_with p s \<longleftrightarrow> length p \<le> length s \<and> drop (length s - length p) s = p"

definition strip_prefix :: "string \<Rightarrow> string \<Rightarrow> string option" where
  "strip_prefix p s = (if starts_with p s then Some (drop (length p) s) else None)"

fun join_with :: "char \<Rightarrow> string list \<Rightarrow> string" where
  "join_with x [] = []"
| "join_with x [p] = p"
| "join_with x (p # ps) = p @ x # join_with x ps"

lemma split_on_not_Nil [simp]: "split_on x s \<noteq> []"
  by (induction s) (auto split: list.splits)

lemma join_split [simp]: "join_with x (split_on x s) = s"
proof (induction s)
  case (Cons c s)
  obtain p ps where "split_on x s = p # ps" by (cases "split_on x s") auto
  with Cons show ?case by (cases ps) auto
qed simp

lemma split_on_free: "p \<in> set (split_on x s) \<Longrightarrow> x \<notin> set p"
proof (induction s arbitrary: p)
  case (Cons c s)
  obtain q qs where q: "split_on x s = q # qs" by (cases "split_on x s") auto
  have "x \<notin> set q" by (rule Cons.IH) (simp add: q)
  with Cons q show ?case by (auto split: if_splits)
qed simp

lemma split_on_plain: "x \<notin> set p \<Longrightarrow> split_on x p = [p]"
  by (induction p) auto

lemma split_on_append: "x \<notin> set p \<Longrightarrow> split_on x (p @ x # s) = p # split_on x s"
  by (induction p) auto

lemma split_join: "ps \<noteq> [] \<Longrightarrow> \<forall>p\<in>set ps. x \<notin> set p \<Longrightarrow> split_on x (join_with x ps) = ps"
  by (induction x ps rule: join_with.induct) (auto simp: split_on_plain split_on_append)

lemma split_once_SomeD:
  "split_once x s = Some (a, b) \<Longrightarrow> s = a @ x # b \<and> x \<notin> set a"
  by (auto simp: split_once_def split: option.splits dest!: position_SomeD)
    (auto simp: in_set_conv_nth id_take_nth_drop)

text \<open>\<open>str::find\<close> and \<open>split_once\<close> with a string pattern: the first occurrence.\<close>

fun find_str :: "string \<Rightarrow> string \<Rightarrow> nat option" where
  "find_str p [] = (if p = [] then Some 0 else None)"
| "find_str p (c # s) = (if starts_with p (c # s) then Some 0 else map_option Suc (find_str p s))"

definition split_once_str :: "string \<Rightarrow> string \<Rightarrow> (string \<times> string) option" where
  "split_once_str p s = map_option (\<lambda>i. (take i s, drop (i + length p) s)) (find_str p s)"

lemma starts_with_append [simp]: "starts_with p (p @ s)"
  by (simp add: starts_with_def)

lemma starts_with_iff: "starts_with p s \<longleftrightarrow> (\<exists>r. s = p @ r)"
  by (metis append_take_drop_id starts_with_append starts_with_def append_eq_conv_conj)

lemma find_str_SomeD: "find_str p s = Some i \<Longrightarrow> \<exists>r. s = take i s @ p @ r \<and> i \<le> length s"
  by (induction s arbitrary: i) (fastforce simp: starts_with_iff split: if_splits)+

lemma split_once_str_SomeD: "split_once_str p s = Some (a, b) \<Longrightarrow> s = a @ p @ b"
proof -
  assume "split_once_str p s = Some (a, b)"
  then obtain i where i: "find_str p s = Some i" "a = take i s" "b = drop (i + length p) s"
    by (auto simp: split_once_str_def)
  from find_str_SomeD [OF i(1)] obtain r where r: "s = take i s @ p @ r" "i \<le> length s" by blast
  have "drop (i + length p) (take i s @ p @ r) = r" using r(2) by simp
  with r(1) i show ?thesis by metis
qed

text \<open>The first occurrence starts where the first character of the pattern does.\<close>

lemma find_str_first: "x \<notin> set a \<Longrightarrow> find_str (x # p) (a @ (x # p) @ b) = Some (length a)"
  by (induction a) (auto simp: starts_with_def)

section \<open>Trimming\<close>

text \<open>\<open>char::is_whitespace\<close> in UTF-8: the one-, two- and three-byte white space characters.\<close>

definition ws_char :: "string \<Rightarrow> bool" where
  "ws_char s \<longleftrightarrow>
     (let bs = as_bytes s in
      (\<exists>b\<in>set bs. bs = [b] \<and> (9 \<le> b \<and> b \<le> 13 \<or> b = 0x20)) \<or>
      bs = [0xC2, 0x85] \<or> bs = [0xC2, 0xA0] \<or> bs = [0xE1, 0x9A, 0x80] \<or>
      (take 2 bs = [0xE2, 0x80] \<and> length bs = 3 \<and>
         (0x80 \<le> bs ! 2 \<and> bs ! 2 \<le> 0x8A \<or> bs ! 2 = 0xA8 \<or> bs ! 2 = 0xA9 \<or> bs ! 2 = 0xAF)) \<or>
      bs = [0xE2, 0x81, 0x9F] \<or> bs = [0xE3, 0x80, 0x80])"

text \<open>The number of bytes of a white space character at the front (at the back) of a string.\<close>

definition ws_front :: "string \<Rightarrow> nat" where
  "ws_front s = (if ws_char (take 1 s) then 1 else if ws_char (take 2 s) then 2
                 else if ws_char (take 3 s) then 3 else 0)"

definition ws_back :: "string \<Rightarrow> nat" where
  "ws_back s = (if ws_char (drop (length s - 1) s) then 1 else if ws_char (drop (length s - 2) s) then 2
                else if ws_char (drop (length s - 3) s) then 3 else 0)"

function trim_start :: "string \<Rightarrow> string" where
  "trim_start s = (if s = [] \<or> ws_front s = 0 then s else trim_start (drop (ws_front s) s))"
  by pat_completeness auto
termination
  by (relation "measure length") auto

function trim_end :: "string \<Rightarrow> string" where
  "trim_end s = (if s = [] \<or> ws_back s = 0 then s else trim_end (take (length s - ws_back s) s))"
  by pat_completeness auto
termination
  by (relation "measure length") auto

definition trim :: "string \<Rightarrow> string" where
  "trim s = trim_end (trim_start s)"

declare trim_start.simps [simp del] trim_end.simps [simp del]

section \<open>Numbers\<close>

definition digit_value :: "char \<Rightarrow> nat" where
  "digit_value c = of_char c - 48"

definition decimal_value :: "string \<Rightarrow> nat" where
  "decimal_value s = foldl (\<lambda>a c. a * 10 + digit_value c) 0 s"

text \<open>\<open>str::parse\<close> for an unsigned type with largest value \<open>m\<close>; a leading plus is accepted.\<close>

definition parse_unsigned :: "nat \<Rightarrow> string \<Rightarrow> nat option" where
  "parse_unsigned m s =
     (let t = (case s of c # r \<Rightarrow> if c = CHR ''+'' \<and> r \<noteq> [] then r else s | [] \<Rightarrow> s)
      in if t = [] \<or> \<not> list_all is_ascii_digit t then None
         else if decimal_value t \<le> m then Some (decimal_value t) else None)"

text \<open>\<open>str::parse::<i64>\<close>.\<close>

definition parse_i64 :: "string \<Rightarrow> int option" where
  "parse_i64 s =
     (case s of
        [] \<Rightarrow> None
      | c # r \<Rightarrow>
          let neg = (c = CHR ''-''); ds = (if neg \<or> c = CHR ''+'' then r else s)
          in if ds = [] \<or> \<not> list_all is_ascii_digit ds then None
             else let n = (if neg then - int (decimal_value ds) else int (decimal_value ds))
                  in if - (2 ^ 63) \<le> n \<and> n < 2 ^ 63 then Some n else None)"

text \<open>Decimal \<open>to_string\<close>.\<close>

function show_nat :: "nat \<Rightarrow> string" where
  "show_nat n = (if n < 10 then [char_of (48 + n)] else show_nat (n div 10) @ [char_of (48 + n mod 10)])"
  by pat_completeness auto
termination
  by (relation "measure id") auto

declare show_nat.simps [simp del]

lemma digit_char:
  assumes "d < 10"
  shows "is_ascii_digit (char_of (48 + d))" "digit_value (char_of (48 + d)) = d"
  using assms by (simp_all add: is_ascii_digit_def digit_value_def)

lemma decimal_value_snoc [simp]: "decimal_value (s @ [c]) = decimal_value s * 10 + digit_value c"
  by (simp add: decimal_value_def)

lemma decimal_value_Nil [simp]: "decimal_value [] = 0"
  by (simp add: decimal_value_def)

lemma decimal_value_show_nat [simp]: "decimal_value (show_nat n) = n"
proof (induction n rule: show_nat.induct)
  case (1 n)
  show ?case
  proof (cases "n < 10")
    case True
    then show ?thesis
      using decimal_value_snoc [of "[]" "char_of (48 + n)"] digit_char(2) [of n]
      by (simp add: show_nat.simps [of n])
  next
    case False
    with 1 digit_char(2) [of "n mod 10"] show ?thesis by (subst show_nat.simps) simp
  qed
qed

lemma show_nat_digits: "list_all is_ascii_digit (show_nat n)"
proof (induction n rule: show_nat.induct)
  case (1 n)
  with digit_char(1) [of n] digit_char(1) [of "n mod 10"] show ?case
    by (subst show_nat.simps) simp
qed

lemma show_nat_not_Nil [simp]: "show_nat n \<noteq> []"
  by (subst show_nat.simps) simp

lemma parse_show_nat: "n \<le> m \<Longrightarrow> parse_unsigned m (show_nat n) = Some n"
proof -
  assume n: "n \<le> m"
  obtain c r where s: "show_nat n = c # r" by (cases "show_nat n") auto
  have "c \<noteq> CHR ''+''" using show_nat_digits [of n] by (auto simp: s is_ascii_digit_def)
  then show ?thesis
    using n show_nat_digits [of n] decimal_value_show_nat [of n] by (simp add: parse_unsigned_def s)
qed

lemma parse_unsigned_le: "parse_unsigned m s = Some n \<Longrightarrow> n \<le> m"
  by (auto simp: parse_unsigned_def Let_def split: if_splits)

end
