(* ===== verification/H2_Stream.thy ===== *)
theory H2_Stream
  imports H2_Flow Hpack_Codec Rust_Str "HOL-Library.AList"
begin

text \<open>
  One HTTP/2 stream (\<open>src/src/http2.rs\<close>): the life cycle \<open>StreamState\<close>, the record \<open>Stream\<close> with
  its header accumulator, and the validation of a decoded response field section
  (\<open>validate_response_fields\<close>, shared with HTTP/3).
\<close>

section \<open>Life cycle\<close>

datatype stream_state = Idle | Open | HalfClosedLocal | HalfClosedRemote | Closed

definition send_data :: "stream_state \<Rightarrow> bool \<Rightarrow> stream_state result" where
  "send_data st end_stream =
     (case st of
        Idle \<Rightarrow> Ok (if end_stream then HalfClosedLocal else Open)
      | Open \<Rightarrow> Ok (if end_stream then HalfClosedLocal else Open)
      | HalfClosedRemote \<Rightarrow> Ok (if end_stream then Closed else HalfClosedRemote)
      | _ \<Rightarrow> Err (BadResponse ''internal: tried to send DATA in stream state''))"

definition recv_data :: "stream_state \<Rightarrow> bool \<Rightarrow> stream_state result" where
  "recv_data st end_stream =
     (case st of
        Open \<Rightarrow> Ok (if end_stream then HalfClosedRemote else Open)
      | HalfClosedLocal \<Rightarrow> Ok (if end_stream then Closed else HalfClosedLocal)
      | _ \<Rightarrow> Err (BadResponse ''received DATA in stream state (RFC 9113 5.1)''))"

definition recv_headers :: "stream_state \<Rightarrow> bool \<Rightarrow> stream_state result" where
  "recv_headers st end_stream =
     (case st of
        Open \<Rightarrow> Ok (if end_stream then HalfClosedRemote else Open)
      | HalfClosedLocal \<Rightarrow> Ok (if end_stream then Closed else HalfClosedLocal)
      | Closed \<Rightarrow> Ok Closed
      | _ \<Rightarrow> Err (BadResponse ''received HEADERS in stream state (RFC 9113 5.1)''))"

definition recv_rst :: "stream_state \<Rightarrow> stream_state result" where
  "recv_rst st = (case st of Idle \<Rightarrow> Err (BadResponse ''RST_STREAM on idle stream (RFC 9113 5.1)'') | _ \<Rightarrow> Ok Closed)"

text \<open>
  The life cycle of RFC 9113 section 5.1 as an order: idle first, then open, then one half
  closed (either), then closed. A stream only moves up.
\<close>

instantiation stream_state :: order
begin

definition less_eq_stream_state :: "stream_state \<Rightarrow> stream_state \<Rightarrow> bool" where
  "less_eq_stream_state a b \<longleftrightarrow> a = b \<or> a = Idle \<or> b = Closed \<or>
     (a = Open \<and> (b = HalfClosedLocal \<or> b = HalfClosedRemote))"

definition less_stream_state :: "stream_state \<Rightarrow> stream_state \<Rightarrow> bool" where
  "less_stream_state a b \<longleftrightarrow> a \<le> b \<and> \<not> b \<le> (a :: stream_state)"

instance
  by standard (auto simp: less_eq_stream_state_def less_stream_state_def)

end

lemmas transition_defs = send_data_def recv_data_def recv_headers_def recv_rst_def

lemma transition_mono:
  "send_data st e = Ok st' \<Longrightarrow> st \<le> st'"
  "recv_data st e = Ok st' \<Longrightarrow> st \<le> st'"
  "recv_headers st e = Ok st' \<Longrightarrow> st \<le> st'"
  "recv_rst st = Ok st' \<Longrightarrow> st \<le> st'"
  by (auto simp: transition_defs less_eq_stream_state_def split: stream_state.splits if_splits)

section \<open>Response field sections\<close>

definition is_connection_specific_header :: "string \<Rightarrow> bool" where
  "is_connection_specific_header name =
     list_ex (\<lambda>h. eq_ignore_ascii_case name h)
       [''connection'', ''proxy-connection'', ''keep-alive'', ''transfer-encoding'', ''upgrade'', ''te'']"

record response_field_info =
  rstatus :: nat
  rcontent_length :: "nat option"

text \<open>The \<open>for part in value.split(',')\<close> loop over a \<open>content-length\<close> value.\<close>

fun content_length_parts :: "nat option \<Rightarrow> string list \<Rightarrow> string + nat option" where
  "content_length_parts cl [] = Inr cl"
| "content_length_parts cl (part # ps) =
     (let p = trim part
      in if p = [] \<or> \<not> list_all is_ascii_digit p then Inl ''bad content-length''
         else (case parse_unsigned U64_MAX p of
             None \<Rightarrow> Inl ''bad content-length''
           | Some n \<Rightarrow>
               (case cl of
                  Some prev \<Rightarrow> if prev \<noteq> n then Inl ''conflicting content-length values''
                                else content_length_parts (Some n) ps
                | None \<Rightarrow> content_length_parts (Some n) ps)))"

definition parse_status :: "string \<Rightarrow> nat option" where
  "parse_status v =
     (if length v = 3 \<and> list_all is_ascii_digit v
      then (case parse_unsigned U16_MAX v of
              Some c \<Rightarrow> if 100 \<le> c \<and> c \<le> 999 then Some c else None
            | None \<Rightarrow> None)
      else None)"

fun validate_fields :: "bool \<Rightarrow> nat option \<Rightarrow> nat option \<Rightarrow> bool \<Rightarrow> header list \<Rightarrow> string + (nat option \<times> nat option)" where
  "validate_fields trailers status cl seen_regular [] = Inr (status, cl)"
| "validate_fields trailers status cl seen_regular ((name, val) # flds) =
     (case strip_prefix '':'' name of
        Some pseudo \<Rightarrow>
          if seen_regular then Inl ''pseudo-header after a regular field''
          else if trailers then Inl ''pseudo-header in trailers''
          else if pseudo \<noteq> ''status'' then Inl ''pseudo-header not allowed in a response''
          else if status \<noteq> None then Inl ''duplicate :status''
          else (case parse_status val of
                  None \<Rightarrow> Inl ''bad :status''
                | Some code \<Rightarrow> validate_fields trailers (Some code) cl seen_regular flds)
      | None \<Rightarrow>
          if eq_ignore_ascii_case name ''te'' then
            if \<not> eq_ignore_ascii_case (trim val) ''trailers'' then Inl ''te: not allowed''
            else validate_fields trailers status cl True flds
          else if is_connection_specific_header name then Inl ''connection-specific field''
          else if eq_ignore_ascii_case name ''content-length'' \<and> \<not> trailers then
            (case content_length_parts cl (split_on CHR '','' val) of
               Inl m \<Rightarrow> Inl m
             | Inr cl' \<Rightarrow> validate_fields trailers status cl' True flds)
          else validate_fields trailers status cl True flds)"

definition validate_response_fields :: "header list \<Rightarrow> bool \<Rightarrow> string + response_field_info" where
  "validate_response_fields flds trailers =
     res_bind (validate_fields trailers None None False flds) (\<lambda>(status, cl).
       if trailers then Ok \<lparr>rstatus = 0, rcontent_length = None\<rparr>
       else res_bind (ok_or ''response missing :status'' status) (\<lambda>s.
         Ok \<lparr>rstatus = s, rcontent_length = cl\<rparr>))"

section \<open>Streams\<close>

record stream =
  s_id :: u32
  sstate :: stream_state
  send_window :: stream_send_window
  recv_window :: stream_recv_window
  headers_buf :: bytes
  response_headers :: "header list option"
  sbody :: bytes
  streamed_len :: nat
  end_stream_recv :: bool
  pending_body :: "(bytes \<times> nat) option"
  final_status :: "nat option"
  interim_count :: nat
  expected_len :: "nat option"
  head_request :: bool
  refused :: bool
  rx_any :: bool
  discard_headers :: bool

abbreviation (input) MAX_RESPONSE_BYTES :: nat where "MAX_RESPONSE_BYTES \<equiv> 268435456"
abbreviation (input) MAX_HEADERS_BUF :: nat where "MAX_HEADERS_BUF \<equiv> 262144"
abbreviation (input) MAX_INTERIM_RESPONSES :: nat where "MAX_INTERIM_RESPONSES \<equiv> 32"

definition stream_new :: "u32 \<Rightarrow> int \<Rightarrow> int \<Rightarrow> stream" where
  "stream_new i peer_window our_recv =
     \<lparr>s_id = i, sstate = Idle, send_window = stream_send_window_new peer_window,
      recv_window = stream_recv_window_new our_recv, headers_buf = [], response_headers = None,
      sbody = [], streamed_len = 0, end_stream_recv = False, pending_body = None,
      final_status = None, interim_count = 0, expected_len = None, head_request = False,
      refused = False, rx_any = False, discard_headers = False\<rparr>"

definition send_budget :: "stream \<Rightarrow> conn_send_window \<Rightarrow> int" where
  "send_budget s cw = min (ssw_available (send_window s)) (csw_available cw)"

definition response_complete :: "stream \<Rightarrow> bool" where
  "response_complete s \<longleftrightarrow>
     (sstate s = Closed \<or> sstate s = HalfClosedRemote) \<and> end_stream_recv s \<and> response_headers s \<noteq> None"

definition push_header_fragment :: "stream \<Rightarrow> bytes \<Rightarrow> stream result" where
  "push_header_fragment s frag =
     (if saturating_add_u64 (length (headers_buf s)) (length frag) > MAX_HEADERS_BUF
      then Err (BadResponse ''header block exceeds size limit (CONTINUATION flood?)'')
      else Ok (s\<lparr>headers_buf := headers_buf s @ frag\<rparr>))"

end
