(* ===== verification/H2_Conn.thy ===== *)
theory H2_Conn
  imports H2_Stream
begin

text \<open>
  The HTTP/2 connection (\<open>src/src/http2.rs\<close>): opening streams and the dispatch of inbound frames,
  \<open>process_frame\<close> and the handlers below it. Every handler takes the connection and returns it
  with its result, so that the state an error leaves behind is visible. The transport is the
  list of frames written to it (writing succeeds); the caller's sink is a function that says
  whether a write succeeds, and \<open>sunk\<close> holds what was written. \<open>streams\<close> is an association
  list in the (unspecified) iteration order of the \<open>HashMap\<close>.
\<close>

section \<open>State\<close>

record connection =
  tls_out :: "frame list"
  sunk :: bytes
  peer :: peer_settings
  conn_sendw :: conn_send_window
  conn_recvw :: conn_recv_window
  our_recv_window :: int
  cdecoder :: decoder
  cencoder :: encoder
  streams :: "(u32 \<times> stream) list"
  next_stream_id :: u32
  goaway_received :: "u32 option"
  expecting_continuation :: "u32 option"
  budget :: flood_budget
  made_progress :: bool

datatype dispatch_outcome = Continue | Done u32

type_synonym sink = "(bytes \<Rightarrow> bool) option"
type_synonym 'a step = "connection \<times> 'a result"

abbreviation (input) ERR_PROTOCOL :: u32 where "ERR_PROTOCOL \<equiv> 1"
abbreviation (input) ERR_NO_ERROR :: u32 where "ERR_NO_ERROR \<equiv> 0"
abbreviation (input) ERR_REFUSED_STREAM :: u32 where "ERR_REFUSED_STREAM \<equiv> 7"
abbreviation (input) OUR_INITIAL_WINDOW_u32 :: u32 where "OUR_INITIAL_WINDOW_u32 \<equiv> 65535"

abbreviation get_stream :: "connection \<Rightarrow> u32 \<Rightarrow> stream option" where
  "get_stream c i \<equiv> map_of (streams c) i"

definition put_stream :: "connection \<Rightarrow> u32 \<Rightarrow> stream \<Rightarrow> connection" where
  "put_stream c i s = c\<lparr>streams := AList.update i s (streams c)\<rparr>"

definition write_out :: "connection \<Rightarrow> frame \<Rightarrow> connection" where
  "write_out c f = c\<lparr>tls_out := tls_out c @ [f]\<rparr>"

text \<open>The \<open>?\<close> operator in a method with \<open>&mut self\<close>: an error keeps the state reached so far.\<close>

definition step_bind :: "'a step \<Rightarrow> ('a \<Rightarrow> connection \<Rightarrow> 'b step) \<Rightarrow> 'b step" where
  "step_bind m f = (case m of (c, Inl e) \<Rightarrow> (c, Err e) | (c, Inr x) \<Rightarrow> f x c)"

text \<open>A fallible pure computation in such a method.\<close>

definition lift_res :: "connection \<Rightarrow> 'a result \<Rightarrow> ('a \<Rightarrow> 'b step) \<Rightarrow> 'b step" where
  "lift_res c r f = (case r of Inl e \<Rightarrow> (c, Err e) | Inr x \<Rightarrow> f x)"

definition clamp :: "u32 \<Rightarrow> u32 \<Rightarrow> u32 \<Rightarrow> u32" where
  "clamp v lo hi = (if v < lo then lo else if v > hi then hi else v)"

definition connection_new :: "u32 \<Rightarrow> connection" where
  "connection_new recv_window0 =
     (let recv = clamp recv_window0 OUR_INITIAL_WINDOW_u32 INITIAL_WINDOW_SIZE_MAX;
          our_settings = \<lparr>ftyp = F_SETTINGS, flags = 0, stream_id = 0,
             payload = setting_bytes (2, 0) @ setting_bytes (4, recv)\<rparr>;
          conn_bump = recv - OUR_INITIAL_WINDOW_u32
      in \<lparr>tls_out = our_settings # (if conn_bump > 0 then [window_update_frame 0 conn_bump] else []),
          sunk = [], peer = peer_settings_default, conn_sendw = conn_send_window_new,
          conn_recvw = conn_recv_window_new (uint recv), our_recv_window = uint recv,
          cdecoder = decoder_new, cencoder = encoder_new, streams = [], next_stream_id = 1,
          goaway_received = None, expecting_continuation = None, budget = flood_budget_default,
          made_progress = False\<rparr>)"

definition send_frame_limit :: "connection \<Rightarrow> nat" where
  "send_frame_limit c = min (unat (max_frame_size (peer c))) MAX_FRAME_PAYLOAD"

definition is_usable :: "connection \<Rightarrow> bool" where
  "is_usable c =
     (if goaway_received c \<noteq> None then False
      else if streams c \<noteq> [] then False
      else if next_stream_id c \<ge> 0x80000000 then False
      else True)"

definition prune_completed_streams :: "connection \<Rightarrow> connection" where
  "prune_completed_streams c =
     c\<lparr>streams := filter (\<lambda>(_, s). sstate s \<noteq> Closed \<and> \<not> response_complete s) (streams c)\<rparr>"

definition saturating_add_u32 :: "u32 \<Rightarrow> u32 \<Rightarrow> u32" where
  "saturating_add_u32 a b = word_of_nat (min (unat a + unat b) U32_MAX)"

definition open_stream :: "connection \<Rightarrow> u32 step" where
  "open_stream c =
     (if length (streams c) \<ge> unat (max_concurrent_streams (peer c))
      then (c, Err (BadResponse ''at MAX_CONCURRENT_STREAMS limit''))
      else if next_stream_id c \<ge> 0x80000000
      then (c, Err (BadResponse ''stream id space exhausted (RFC 9113 5.1.1)''))
      else if (case goaway_received c of Some lst \<Rightarrow> next_stream_id c > lst | None \<Rightarrow> False)
      then (c, Err (BadResponse ''GOAWAY received; cannot allocate id''))
      else let i = next_stream_id c;
               c1 = c\<lparr>next_stream_id := saturating_add_u32 (next_stream_id c) 2\<rparr>
           in (put_stream c1 i (stream_new i (uint (initial_window_size (peer c1))) (our_recv_window c1)), Ok i))"

section \<open>Stream-level outcomes\<close>

definition check_not_abandoned :: "connection \<Rightarrow> u32 \<Rightarrow> unit result" where
  "check_not_abandoned c i =
     (case goaway_received c of
        Some lst \<Rightarrow> if i > lst then Err (BadResponse ''stream not processed: GOAWAY last-stream-id'') else Ok ()
      | None \<Rightarrow> Ok ())"

definition outcome_for :: "connection \<Rightarrow> u32 \<Rightarrow> dispatch_outcome" where
  "outcome_for c i =
     (case get_stream c i of
        Some s \<Rightarrow> if response_complete s then Done i else Continue
      | None \<Rightarrow> Continue)"

definition stream_error :: "connection \<Rightarrow> u32 \<Rightarrow> string \<Rightarrow> 'a step" where
  "stream_error c i msg =
     (let c1 = (case get_stream c i of
                  Some s \<Rightarrow> put_stream c i (s\<lparr>sstate := Closed, response_headers := None\<rparr>)
                | None \<Rightarrow> c)
      in (write_out c1 \<lparr>ftyp = F_RST_STREAM, flags = 0, stream_id = i, payload = u32_to_be_bytes ERR_PROTOCOL\<rparr>,
          Err (BadResponse msg)))"

definition check_content_length :: "connection \<Rightarrow> u32 \<Rightarrow> unit step" where
  "check_content_length c i =
     (case get_stream c i of
        None \<Rightarrow> (c, Ok ())
      | Some s \<Rightarrow>
          if head_request s \<or> final_status s = Some 204 \<or> final_status s = Some 304 then (c, Ok ())
          else (case expected_len s of
              None \<Rightarrow> (c, Ok ())
            | Some expected \<Rightarrow>
                let got = length (sbody s) + streamed_len s
                in if got > expected \<or> (end_stream_recv s \<and> got \<noteq> expected)
                   then stream_error c i ''content-length does not match the received body bytes''
                   else (c, Ok ())))"

definition complete_header_block :: "connection \<Rightarrow> u32 \<Rightarrow> header list \<Rightarrow> unit step" where
  "complete_header_block c i decoded =
     (case get_stream c i of
        None \<Rightarrow> (c, Ok ())
      | Some s \<Rightarrow>
          let end_stream = end_stream_recv s
          in if final_status s \<noteq> None then
               if \<not> end_stream then stream_error c i ''second HEADERS block without END_STREAM''
               else (case validate_response_fields decoded True of
                   Inl m \<Rightarrow> stream_error c i ''malformed trailers''
                 | Inr _ \<Rightarrow> check_content_length c i)
             else (case validate_response_fields decoded False of
                 Inl m \<Rightarrow> stream_error c i ''malformed response head''
               | Inr info \<Rightarrow>
                   if rstatus info < 200 then
                     if end_stream then stream_error c i ''interim response with END_STREAM''
                     else if rstatus info = 101 then stream_error c i ''101 response in HTTP/2''
                     else let s' = s\<lparr>interim_count := interim_count s + 1\<rparr>;
                              c' = put_stream c i s'
                          in if interim_count s' > MAX_INTERIM_RESPONSES
                             then stream_error c' i ''more than 32 interim responses''
                             else (c', Ok ())
                   else
                     let s' = s\<lparr>final_status := Some (rstatus info), expected_len := rcontent_length info,
                                 response_headers := Some decoded\<rparr>;
                         c' = put_stream c i s'
                     in if end_stream then check_content_length c' i else (c', Ok ())))"

text \<open>Running the shared HPACK decoder inside a handler.\<close>

definition decode_headers :: "connection \<Rightarrow> bytes \<Rightarrow> header list step" where
  "decode_headers c block = (let (d, r) = decode_block (cdecoder c) block in (c\<lparr>cdecoder := d\<rparr>, r))"

section \<open>Frame handlers\<close>

text \<open>Stripping PADDED and PRIORITY framing of a HEADERS payload.\<close>

definition headers_payload :: "frame \<Rightarrow> bytes result" where
  "headers_payload f =
     res_bind (if flags f AND FLAG_PADDED \<noteq> 0 then
                 (case payload f of
                    [] \<Rightarrow> Err (BadResponse ''HEADERS PADDED with empty payload'')
                  | b # r \<Rightarrow> Ok (unat b, r))
               else Ok (0, payload f)) (\<lambda>(pad_len, p1).
     res_bind (if flags f AND FLAG_PRIORITY \<noteq> 0 then
                 if length p1 < 5 then Err (BadResponse ''HEADERS PRIORITY with insufficient payload'')
                 else Ok (drop 5 p1)
               else Ok p1) (\<lambda>p2.
     if length p2 < pad_len then Err (BadResponse ''HEADERS padding overruns payload'')
     else Ok (take (length p2 - pad_len) p2)))"

text \<open>HEADERS on a closed stream (decoded for HPACK, content ignored), and on any other.\<close>

definition headers_on_closed :: "connection \<Rightarrow> u32 \<Rightarrow> stream \<Rightarrow> bytes \<Rightarrow> bool \<Rightarrow> dispatch_outcome step" where
  "headers_on_closed c i s frag end_headers =
     (if end_headers then step_bind (decode_headers c frag) (\<lambda>_ c'. (c', Ok Continue))
      else lift_res c (push_header_fragment s frag) (\<lambda>s'.
        ((put_stream c i (s'\<lparr>discard_headers := True\<rparr>))\<lparr>expecting_continuation := Some i\<rparr>, Ok Continue)))"

definition headers_on_live ::
    "connection \<Rightarrow> u32 \<Rightarrow> stream \<Rightarrow> bytes \<Rightarrow> bool \<Rightarrow> bool \<Rightarrow> stream_state \<Rightarrow> dispatch_outcome step" where
  "headers_on_live c i s frag end_headers end_stream new_state =
     (let s0 = s\<lparr>rx_any := True\<rparr>
      in lift_res (put_stream c i s0) (push_header_fragment s0 frag) (\<lambda>s1.
           let s2 = s1\<lparr>end_stream_recv := end_stream \<or> end_stream_recv s1, sstate := new_state\<rparr>
           in if end_headers then
                let c2 = (put_stream c i (s2\<lparr>headers_buf := []\<rparr>))\<lparr>expecting_continuation := None\<rparr>
                in step_bind (decode_headers c2 (headers_buf s2)) (\<lambda>decoded c3.
                   step_bind (complete_header_block (c3\<lparr>made_progress := True\<rparr>) i decoded) (\<lambda>_ c4.
                     (c4, Ok (outcome_for c4 i))))
              else let c2 = (put_stream c i s2)\<lparr>expecting_continuation := Some i\<rparr>
                   in (c2, Ok (outcome_for c2 i))))"

definition process_headers :: "connection \<Rightarrow> frame \<Rightarrow> dispatch_outcome step" where
  "process_headers c f =
     lift_res c (headers_payload f) (\<lambda>frag.
       let end_headers = (flags f AND FLAG_END_HEADERS \<noteq> 0);
           end_stream = (flags f AND FLAG_END_STREAM \<noteq> 0);
           i = stream_id f
       in case get_stream c i of
            None \<Rightarrow> (c, Err (BadResponse ''HEADERS on unknown stream (server push disabled)''))
          | Some s \<Rightarrow>
              if sstate s = Closed then headers_on_closed c i s frag end_headers
              else lift_res c (recv_headers (sstate s) end_stream) (\<lambda>new_state.
                headers_on_live c i s frag end_headers end_stream new_state))"

definition process_continuation :: "connection \<Rightarrow> frame \<Rightarrow> dispatch_outcome step" where
  "process_continuation c f =
     (let i = stream_id f
      in if expecting_continuation c \<noteq> Some i then (c, Err (BadResponse ''unexpected CONTINUATION on stream''))
         else case get_stream c i of
             None \<Rightarrow> (c, Err (BadResponse ''CONTINUATION on unknown stream''))
           | Some s \<Rightarrow> lift_res c (push_header_fragment s (payload f)) (\<lambda>s1.
               if flags f AND FLAG_END_HEADERS \<noteq> 0 then
                 let c1 = (put_stream c i (s1\<lparr>headers_buf := [], discard_headers := False\<rparr>))
                            \<lparr>expecting_continuation := None\<rparr>
                 in step_bind (decode_headers c1 (headers_buf s1)) (\<lambda>decoded c2.
                    let c3 = c2\<lparr>made_progress := True\<rparr>
                    in step_bind (if \<not> discard_headers s1 then complete_header_block c3 i decoded else (c3, Ok ()))
                         (\<lambda>_ c4. (c4, Ok (outcome_for c4 i))))
               else let c1 = put_stream c i s1 in (c1, Ok (outcome_for c1 i))))"

text \<open>Stripping the padding of a DATA payload.\<close>

definition data_payload :: "frame \<Rightarrow> bytes result" where
  "data_payload f =
     (if flags f AND FLAG_PADDED \<noteq> 0 then
        (case payload f of
           [] \<Rightarrow> Err (BadResponse ''DATA PADDED with empty payload'')
         | b # r \<Rightarrow> if length r < unat b then Err (BadResponse ''DATA padding overruns payload'')
                     else Ok (take (length r - unat b) r))
      else Ok (payload f))"

definition write_conn_replenish :: "connection \<Rightarrow> connection" where
  "write_conn_replenish c =
     (let (w, upd) = crw_replenish (conn_recvw c); c' = c\<lparr>conn_recvw := w\<rparr>
      in case upd of Some f \<Rightarrow> write_out c' f | None \<Rightarrow> c')"

definition write_stream_replenish :: "connection \<Rightarrow> u32 \<Rightarrow> stream \<Rightarrow> connection" where
  "write_stream_replenish c i s =
     (let (w, upd) = srw_replenish (recv_window s) i; c' = put_stream c i (s\<lparr>recv_window := w\<rparr>)
      in case upd of Some f \<Rightarrow> write_out c' f | None \<Rightarrow> c')"

definition content_encoded :: "stream \<Rightarrow> bool" where
  "content_encoded s =
     (case response_headers s of
        Some h \<Rightarrow> list_ex (\<lambda>(k, _). eq_ignore_ascii_case k ''content-encoding'') h
      | None \<Rightarrow> False)"

text \<open>The second half of \<open>process_data\<close>: deliver the stripped payload to the sink or the body.\<close>

definition deliver_data :: "connection \<Rightarrow> u32 \<Rightarrow> stream \<Rightarrow> stream_state \<Rightarrow> bool \<Rightarrow> bytes \<Rightarrow> sink \<Rightarrow> dispatch_outcome step" where
  "deliver_data c i s new_state end_stream pl snk =
     (let to_sink = (snk \<noteq> None \<and> \<not> content_encoded s \<and> sbody s = [])
      in if \<not> to_sink \<and> saturating_add_u64 (length (sbody s)) (length pl) > MAX_RESPONSE_BYTES
         then (c, Err (BadResponse ''response body exceeds size limit''))
         else if to_sink \<and> \<not> the snk pl then (c, Err (Io IoOther))
         else let s1 = (if to_sink then s\<lparr>streamed_len := streamed_len s + length pl\<rparr>
                        else s\<lparr>sbody := sbody s @ pl\<rparr>);
                  s2 = s1\<lparr>end_stream_recv := end_stream \<or> end_stream_recv s1, sstate := new_state\<rparr>;
                  c1 = (put_stream c i s2)\<lparr>sunk := (if to_sink then sunk c @ pl else sunk c),
                         made_progress := (pl \<noteq> [] \<or> made_progress c)\<rparr>
              in step_bind (check_content_length c1 i) (\<lambda>_ c2.
                   let c3 = write_conn_replenish c2;
                       c4 = (case get_stream c3 i of Some s3 \<Rightarrow> write_stream_replenish c3 i s3 | None \<Rightarrow> c3)
                   in (c4, Ok (outcome_for c4 i))))"

definition process_data :: "connection \<Rightarrow> frame \<Rightarrow> sink \<Rightarrow> dispatch_outcome step" where
  "process_data c f snk =
     (let i = stream_id f;
          n = length (payload f);
          c1 = c\<lparr>conn_recvw := crw_consume (conn_recvw c) n\<rparr>
      in if crw_available (conn_recvw c1) < 0
         then (c1, Err (BadResponse ''http2: flow-control window exceeded by peer''))
         else case get_stream c1 i of
             None \<Rightarrow> (write_conn_replenish c1, Ok Continue)
           | Some s \<Rightarrow>
               if sstate s = Closed then (c1, Err (BadResponse ''DATA on closed stream''))
               else let end_stream = (flags f AND FLAG_END_STREAM \<noteq> 0)
               in lift_res c1 (recv_data (sstate s) end_stream) (\<lambda>new_state.
                 let s1 = s\<lparr>rx_any := True, recv_window := srw_consume (recv_window s) n\<rparr>;
                     c2 = put_stream c1 i s1
                 in if srw_available (recv_window s1) < 0
                    then (c2, Err (BadResponse ''http2: flow-control window exceeded by peer''))
                    else lift_res c2 (data_payload f) (\<lambda>pl.
                      if final_status s1 = None then stream_error c2 i ''DATA before the response HEADERS''
                      else deliver_data c2 i s1 new_state end_stream pl snk)))"

definition process_rst :: "connection \<Rightarrow> frame \<Rightarrow> dispatch_outcome step" where
  "process_rst c f =
     (let i = stream_id f; code = u32_from_be_bytes (take 4 (payload f))
      in case get_stream c i of
           None \<Rightarrow> (c, Ok Continue)
         | Some s \<Rightarrow>
             if sstate s = Closed then (c, Ok Continue)
             else let s1 = s\<lparr>rx_any := True\<rparr>
             in if code = ERR_NO_ERROR \<and> end_stream_recv s1 \<and> response_headers s1 \<noteq> None
                then (put_stream c i (s1\<lparr>sstate := Closed\<rparr>), Ok (Done i))
                else let s2 = s1\<lparr>refused := (code = ERR_REFUSED_STREAM)\<rparr>; c2 = put_stream c i s2
                     in lift_res c2 (recv_rst (sstate s2)) (\<lambda>st.
                          (put_stream c2 i (s2\<lparr>sstate := st\<rparr>),
                           Err (BadResponse ''stream reset by server''))))"

text \<open>The loop of a SETTINGS change over the streams: a failure keeps the earlier updates.\<close>

fun shift_windows :: "u32 \<Rightarrow> (u32 \<times> stream) list \<Rightarrow> (u32 \<times> stream) list \<times> unit result" where
  "shift_windows new_initial [] = ([], Ok ())"
| "shift_windows new_initial ((i, s) # ss) =
     (case apply_initial_window_change (send_window s) new_initial of
        Inl e \<Rightarrow> ((i, s) # ss, Err e)
      | Inr w \<Rightarrow> (let (ss', r) = shift_windows new_initial ss in ((i, s\<lparr>send_window := w\<rparr>) # ss', r)))"

definition process_settings :: "connection \<Rightarrow> frame \<Rightarrow> dispatch_outcome step" where
  "process_settings c f =
     (let old_initial = initial_window_size (peer c);
          old_table = header_table_size (peer c);
          (p, r) = apply_settings_payload (peer c) (payload f);
          c1 = c\<lparr>peer := p\<rparr>
      in lift_res c1 r (\<lambda>_.
           let new_initial = initial_window_size p;
               (ss, r2) = (if new_initial \<noteq> old_initial then shift_windows new_initial (streams c1)
                           else (streams c1, Ok ()));
               c2 = c1\<lparr>streams := ss\<rparr>
           in lift_res c2 r2 (\<lambda>_.
                let c3 = (if header_table_size p \<noteq> old_table
                          then c2\<lparr>cencoder := set_peer_max_table_size (cencoder c2) (unat (header_table_size p))\<rparr>
                          else c2)
                in (write_out c3 \<lparr>ftyp = F_SETTINGS, flags = FLAG_ACK, stream_id = 0, payload = []\<rparr>, Ok Continue))))"

definition process_goaway :: "connection \<Rightarrow> frame \<Rightarrow> dispatch_outcome step" where
  "process_goaway c f =
     (let last0 = u32_from_be_bytes (take 4 (payload f)) AND 0x7fffffff;
          lst = (case goaway_received c of None \<Rightarrow> last0 | Some prev \<Rightarrow> min prev last0)
      in (c\<lparr>goaway_received := Some lst,
            streams := map (\<lambda>(i, s). (i, if i > lst then s\<lparr>sstate := Closed\<rparr> else s)) (streams c)\<rparr>, Ok Continue))"

definition process_conn_frame :: "connection \<Rightarrow> frame \<Rightarrow> dispatch_outcome step" where
  "process_conn_frame c f =
     (let ack = (flags f AND FLAG_ACK \<noteq> 0)
      in if ftyp f \<in> {F_DATA, F_HEADERS, F_PRIORITY, F_RST_STREAM, F_PUSH_PROMISE, F_CONTINUATION}
         then (c, Err (BadResponse ''http2: frame type on stream 0 (PROTOCOL_ERROR)''))
         else if ftyp f = F_SETTINGS \<and> ack \<and> payload f \<noteq> []
         then (c, Err (BadResponse ''http2: SETTINGS ACK with non-empty payload (FRAME_SIZE_ERROR)''))
         else if ftyp f = F_PING \<and> length (payload f) \<noteq> 8
         then (c, Err (BadResponse ''http2: PING payload (FRAME_SIZE_ERROR)''))
         else if ftyp f = F_GOAWAY \<and> length (payload f) < 8
         then (c, Err (BadResponse ''http2: GOAWAY payload (FRAME_SIZE_ERROR)''))
         else if ftyp f = F_SETTINGS then (if \<not> ack then process_settings c f else (c, Ok Continue))
         else if ftyp f = F_PING then
           (if \<not> ack then (write_out c \<lparr>ftyp = F_PING, flags = FLAG_ACK, stream_id = 0, payload = payload f\<rparr>, Ok Continue)
            else (c, Ok Continue))
         else if ftyp f = F_WINDOW_UPDATE then
           lift_res c (parse_window_update (payload f)) (\<lambda>inc.
           lift_res c (csw_apply_window_update (conn_sendw c) inc) (\<lambda>w.
             (c\<lparr>conn_sendw := w, made_progress := True\<rparr>, Ok Continue)))
         else if ftyp f = F_GOAWAY then process_goaway c f
         else (c, Ok Continue))"

definition process_stream_frame :: "connection \<Rightarrow> frame \<Rightarrow> sink \<Rightarrow> dispatch_outcome step" where
  "process_stream_frame c f snk =
     (if ftyp f \<in> {F_SETTINGS, F_PING, F_GOAWAY}
      then (c, Err (BadResponse ''http2: frame type on stream (PROTOCOL_ERROR)''))
      else if ftyp f = F_PRIORITY \<and> length (payload f) \<noteq> 5
      then (c, Err (BadResponse ''http2: PRIORITY payload (FRAME_SIZE_ERROR)''))
      else if ftyp f = F_RST_STREAM \<and> length (payload f) \<noteq> 4
      then (c, Err (BadResponse ''http2: RST_STREAM payload (FRAME_SIZE_ERROR)''))
      else if ftyp f = F_HEADERS then process_headers c f
      else if ftyp f = F_CONTINUATION then process_continuation c f
      else if ftyp f = F_DATA then process_data c f snk
      else if ftyp f = F_RST_STREAM then process_rst c f
      else if ftyp f = F_WINDOW_UPDATE then
        lift_res c (parse_window_update (payload f)) (\<lambda>inc.
          case get_stream c (stream_id f) of
            Some s \<Rightarrow> lift_res c (ssw_apply_window_update (send_window s) inc) (\<lambda>w.
              ((put_stream c (stream_id f) (s\<lparr>send_window := w\<rparr>))\<lparr>made_progress := True\<rparr>, Ok Continue))
          | None \<Rightarrow> (c, Ok Continue))
      else if ftyp f = F_PUSH_PROMISE
      then (c, Err (BadResponse ''received PUSH_PROMISE despite SETTINGS_ENABLE_PUSH=0''))
      else (c, Ok Continue))"

definition process_frame :: "connection \<Rightarrow> frame \<Rightarrow> sink \<Rightarrow> dispatch_outcome step" where
  "process_frame c f snk =
     (if (case expecting_continuation c of
            Some awaiting \<Rightarrow> \<not> (ftyp f = F_CONTINUATION \<and> stream_id f = awaiting) | None \<Rightarrow> False)
      then (c, Err (BadResponse ''expected CONTINUATION on stream''))
      else let (b, r) = record_control_frame (budget c) (ftyp f) (flags f); c1 = c\<lparr>budget := b\<rparr>
      in lift_res c1 r (\<lambda>_.
           let c2 = c1\<lparr>made_progress := False\<rparr>
           in step_bind (if stream_id f = 0 then process_conn_frame c2 f else process_stream_frame c2 f snk)
                (\<lambda>outcome c3.
                  let progress = (made_progress c3 \<or> outcome \<noteq> Continue);
                      (b', r') = record_progress (budget c3) progress
                  in lift_res (c3\<lparr>budget := b'\<rparr>) r' (\<lambda>_. (c3\<lparr>budget := b'\<rparr>, Ok outcome)))))"

text \<open>\<open>read_and_dispatch\<close> on the bytes the transport holds.\<close>

definition read_and_dispatch :: "connection \<Rightarrow> bytes \<Rightarrow> sink \<Rightarrow> dispatch_outcome step \<times> bytes" where
  "read_and_dispatch c r snk =
     (case read_frame r of
        Inr (f, r') \<Rightarrow> (process_frame c f snk, r')
      | Inl e \<Rightarrow> ((c, Err (if e = IoUnexpectedEof then UnexpectedEof else Io e)), r))"

end
