(* ===== verification/H2_Inv.thy ===== *)
theory H2_Inv
  imports H2_Conn
begin

text \<open>
  The invariant of an HTTP/2 connection and its preservation by every frame handler of
  \<open>H2_Conn\<close>, whatever frames the peer sends and whether or not they are accepted.
\<close>

section \<open>The invariant\<close>

text \<open>The \<open>content-length\<close> rule of RFC 9113 section 8.1.1 at the end of a response.\<close>

definition length_ok :: "stream \<Rightarrow> bool" where
  "length_ok s \<longleftrightarrow> head_request s \<or> final_status s = Some 204 \<or> final_status s = Some 304 \<or>
     (case expected_len s of None \<Rightarrow> True | Some n \<Rightarrow> n = length (sbody s) + streamed_len s)"

text \<open>What always holds of stream \<open>i\<close>, when \<open>ex\<close> is the stream a CONTINUATION is expected on.\<close>

definition stream_bounds :: "u32 option \<Rightarrow> u32 \<Rightarrow> stream \<Rightarrow> bool" where
  "stream_bounds ex i s \<longleftrightarrow>
     length (headers_buf s) \<le> MAX_HEADERS_BUF \<and> length (sbody s) \<le> MAX_RESPONSE_BYTES \<and>
     (response_headers s \<noteq> None \<longrightarrow> final_status s \<noteq> None) \<and>
     (end_stream_recv s \<longrightarrow> sstate s = HalfClosedRemote \<or> sstate s = Closed) \<and>
     (sstate s \<noteq> Closed \<longrightarrow> interim_count s \<le> MAX_INTERIM_RESPONSES) \<and>
     (headers_buf s \<noteq> [] \<longrightarrow> ex = Some i) \<and>
     (discard_headers s \<longrightarrow> ex = Some i \<and> sstate s = Closed) \<and>
     ssw_available (send_window s) \<le> WINDOW_MAX \<and>
     srw_available (recv_window s) \<le> srw_initial (recv_window s) \<and> srw_initial (recv_window s) \<le> WINDOW_MAX"

text \<open>What holds of a stream that may be handed to the caller.\<close>

definition stream_settled :: "u32 option \<Rightarrow> u32 \<Rightarrow> stream \<Rightarrow> bool" where
  "stream_settled ex i s \<longleftrightarrow> 0 \<le> srw_available (recv_window s) \<and>
     (end_stream_recv s \<and> response_headers s \<noteq> None \<and> (ex \<noteq> Some i \<or> discard_headers s) \<longrightarrow> length_ok s)"

definition stream_inv :: "u32 option \<Rightarrow> u32 option \<Rightarrow> u32 \<Rightarrow> stream \<Rightarrow> bool" where
  "stream_inv X ex i s \<longleftrightarrow> stream_bounds ex i s \<and> (X \<noteq> Some i \<longrightarrow> stream_settled ex i s)"

text \<open>\<open>X\<close> names the stream, if any, that is being worked on or whose handler failed.\<close>

definition conn_inv :: "u32 option \<Rightarrow> connection \<Rightarrow> bool" where
  "conn_inv X c \<longleftrightarrow> distinct (map fst (streams c)) \<and>
     (\<forall>i s. get_stream c i = Some s \<longrightarrow> stream_inv X (expecting_continuation c) i s) \<and>
     peer_settings_ok (peer c) \<and> csw_available (conn_sendw c) \<le> WINDOW_MAX \<and>
     crw_available (conn_recvw c) \<le> crw_initial (conn_recvw c) \<and>
     dec_table.inv (cdecoder c) \<and> d_cap (cdecoder c) \<le> DYN_TABLE_CAP \<and>
     0 \<le> our_recv_window c \<and> our_recv_window c \<le> WINDOW_MAX"

lemmas inv_defs = conn_inv_def stream_inv_def stream_bounds_def stream_settled_def length_ok_def

section \<open>Helper lemmas\<close>

lemma length_ok_frame [simp]:
  "length_ok (s\<lparr>rx_any := a\<rparr>) = length_ok s" "length_ok (s\<lparr>headers_buf := b\<rparr>) = length_ok s"
  "length_ok (s\<lparr>discard_headers := d\<rparr>) = length_ok s" "length_ok (s\<lparr>recv_window := r\<rparr>) = length_ok s"
  "length_ok (s\<lparr>send_window := w\<rparr>) = length_ok s" "length_ok (s\<lparr>sstate := st\<rparr>) = length_ok s"
  "length_ok (s\<lparr>refused := f\<rparr>) = length_ok s" "length_ok (s\<lparr>pending_body := p\<rparr>) = length_ok s"
  by (simp_all add: length_ok_def split: option.split)

lemma put_stream_simps [simp]:
  "get_stream (put_stream c i s) j = (if j = i then Some s else get_stream c j)"
  "tls_out (put_stream c i s) = tls_out c" "sunk (put_stream c i s) = sunk c"
  "peer (put_stream c i s) = peer c" "conn_sendw (put_stream c i s) = conn_sendw c"
  "conn_recvw (put_stream c i s) = conn_recvw c" "our_recv_window (put_stream c i s) = our_recv_window c"
  "cdecoder (put_stream c i s) = cdecoder c" "cencoder (put_stream c i s) = cencoder c"
  "next_stream_id (put_stream c i s) = next_stream_id c" "goaway_received (put_stream c i s) = goaway_received c"
  "expecting_continuation (put_stream c i s) = expecting_continuation c"
  "budget (put_stream c i s) = budget c" "made_progress (put_stream c i s) = made_progress c"
  by (simp_all add: put_stream_def update_conv')

lemma distinct_put_stream [intro]:
  "distinct (map fst (streams c)) \<Longrightarrow> distinct (map fst (streams (put_stream c i s)))"
  by (simp add: put_stream_def distinct_update)

lemma write_out_simps [simp]:
  "streams (write_out c f) = streams c"
  "peer (write_out c f) = peer c" "conn_sendw (write_out c f) = conn_sendw c"
  "conn_recvw (write_out c f) = conn_recvw c" "our_recv_window (write_out c f) = our_recv_window c"
  "cdecoder (write_out c f) = cdecoder c" "cencoder (write_out c f) = cencoder c"
  "next_stream_id (write_out c f) = next_stream_id c" "goaway_received (write_out c f) = goaway_received c"
  "expecting_continuation (write_out c f) = expecting_continuation c"
  "budget (write_out c f) = budget c" "made_progress (write_out c f) = made_progress c"
  "tls_out (write_out c f) = tls_out c @ [f]"
  by (simp_all add: write_out_def)

lemma step_bind_simps [simp]:
  "step_bind (c, Inl e) f = (c, Inl e)" "step_bind (c, Inr x) f = f x c"
  by (simp_all add: step_bind_def)

lemma lift_res_simps [simp]:
  "lift_res c (Inl e) f = (c, Inl e)" "lift_res c (Inr x) f = f x"
  by (simp_all add: lift_res_def)

lemma conn_inv_put:
  "conn_inv X c \<Longrightarrow> stream_inv X (expecting_continuation c) i s \<Longrightarrow> conn_inv X (put_stream c i s)"
  by (auto simp: conn_inv_def)

lemma conn_inv_put_other:
  "conn_inv None c \<Longrightarrow> stream_inv (Some i) (expecting_continuation c) i s \<Longrightarrow> conn_inv (Some i) (put_stream c i s)"
  by (auto simp: conn_inv_def stream_inv_def)

lemma conn_inv_stream: "conn_inv X c \<Longrightarrow> get_stream c i = Some s \<Longrightarrow> stream_inv X (expecting_continuation c) i s"
  by (simp add: conn_inv_def)

lemma conn_inv_weaken: "conn_inv None c \<Longrightarrow> conn_inv X c"
  by (auto simp: conn_inv_def stream_inv_def)

lemma conn_inv_settle:
  assumes "conn_inv (Some i) c" "\<And>s. get_stream c i = Some s \<Longrightarrow> stream_settled (expecting_continuation c) i s"
  shows "conn_inv None c"
  using assms by (fastforce simp: conn_inv_def stream_inv_def)

text \<open>Changing which stream a CONTINUATION is expected on.\<close>

lemma stream_inv_other: "j \<noteq> i \<Longrightarrow> stream_inv X (Some i) j s \<longleftrightarrow> stream_inv X None j s"
  by (auto simp: stream_inv_def stream_bounds_def stream_settled_def)

lemma conn_inv_reexpect:
  assumes inv: "conn_inv None c" and ex: "expecting_continuation c = None \<or> expecting_continuation c = Some i"
    and ex': "ex' = None \<or> ex' = Some i" and s: "stream_inv X ex' i s'" and X: "X = None \<or> X = Some i"
  shows "conn_inv X ((put_stream c i s')\<lparr>expecting_continuation := ex'\<rparr>)"
proof -
  have other: "stream_inv X ex' j t" if "get_stream c j = Some t" "j \<noteq> i" for j t
  proof -
    have "stream_inv None (expecting_continuation c) j t" using inv that(1) by (simp add: conn_inv_def)
    then have "stream_inv None ex' j t" using ex ex' stream_inv_other [OF that(2), of None t] by auto
    then show ?thesis by (auto simp: stream_inv_def)
  qed
  show ?thesis using inv s other by (auto simp: conn_inv_def)
qed

lemma conn_inv_frame [simp]:
  "conn_inv X (write_out c f) = conn_inv X c" "conn_inv X (c\<lparr>sunk := u\<rparr>) = conn_inv X c"
  "conn_inv X (c\<lparr>budget := b\<rparr>) = conn_inv X c" "conn_inv X (c\<lparr>made_progress := m\<rparr>) = conn_inv X c"
  "conn_inv X (c\<lparr>cencoder := e\<rparr>) = conn_inv X c" "conn_inv X (c\<lparr>next_stream_id := n\<rparr>) = conn_inv X c"
  "conn_inv X (c\<lparr>goaway_received := g\<rparr>) = conn_inv X c"
  "conn_inv X (c\<lparr>goaway_received := g, streams := ss\<rparr>) = conn_inv X (c\<lparr>streams := ss\<rparr>)"
  by (simp_all add: conn_inv_def)

lemma put_stream_put [simp]: "put_stream (put_stream c i s) i t = put_stream c i t"
  by (simp add: put_stream_def)

section \<open>Handlers\<close>

lemma stream_error_fst:
  "get_stream c i = Some s \<Longrightarrow> fst (stream_error c i m) =
     write_out (put_stream c i (s\<lparr>sstate := Closed, response_headers := None\<rparr>))
       \<lparr>ftyp = F_RST_STREAM, flags = 0, stream_id = i, payload = u32_to_be_bytes ERR_PROTOCOL\<rparr>"
  by (simp add: stream_error_def)

lemma stream_inv_errored:
  "stream_inv X ex i s \<Longrightarrow> 0 \<le> srw_available (recv_window s) \<Longrightarrow>
   stream_inv Y ex i (s\<lparr>sstate := Closed, response_headers := None\<rparr>)"
  by (auto simp: stream_inv_def stream_bounds_def stream_settled_def)

lemma conn_inv_put_settle:
  assumes "conn_inv (Some i) c" "stream_inv None (expecting_continuation c) i s"
  shows "conn_inv None (put_stream c i s)"
proof (rule conn_inv_settle)
  show "conn_inv (Some i) (put_stream c i s)"
    using assms by (intro conn_inv_put) (auto simp: stream_inv_def)
  fix t assume "get_stream (put_stream c i s) i = Some t"
  then show "stream_settled (expecting_continuation (put_stream c i s)) i t"
    using assms(2) by (simp add: stream_inv_def)
qed

text \<open>A stream being worked on still has a legal receive window.\<close>

definition working :: "u32 \<Rightarrow> connection \<Rightarrow> bool" where
  "working i c \<longleftrightarrow> conn_inv (Some i) c \<and> (\<forall>s. get_stream c i = Some s \<longrightarrow> 0 \<le> srw_available (recv_window s))"

lemma stream_error_inv: "working i c \<Longrightarrow> conn_inv None (fst (stream_error c i m))"
proof (cases "get_stream c i")
  case None
  assume "working i c"
  with None show ?thesis
    by (auto simp: stream_error_def working_def intro!: conn_inv_settle [where i = i])
next
  case (Some s)
  assume w: "working i c"
  with Some have "stream_inv (Some i) (expecting_continuation c) i s" by (simp add: working_def conn_inv_def)
  from stream_inv_errored [OF this] w Some show ?thesis
    by (simp add: stream_error_fst conn_inv_put_settle working_def)
qed

lemma check_content_length_cases:
  "check_content_length c i = (c, Ok ()) \<and> (\<forall>s. get_stream c i = Some s \<longrightarrow> end_stream_recv s \<longrightarrow> length_ok s) \<or>
   check_content_length c i = stream_error c i ''content-length does not match the received body bytes''"
  by (auto simp: check_content_length_def length_ok_def Let_def split: option.splits if_splits)

lemma check_content_length_inv:
  assumes w: "working i c"
  shows "conn_inv None (fst (check_content_length c i))"
  using check_content_length_cases [of c i]
proof
  assume "check_content_length c i = (c, Ok ()) \<and> (\<forall>s. get_stream c i = Some s \<longrightarrow> end_stream_recv s \<longrightarrow> length_ok s)"
  with w show ?thesis by (auto simp: working_def stream_settled_def intro: conn_inv_settle [where i = i])
qed (simp add: stream_error_inv [OF w])

lemma complete_header_block_inv:
  assumes w: "working i c"
  shows "conn_inv None (fst (complete_header_block c i decoded))"
proof (cases "get_stream c i")
  case None
  with w show ?thesis by (auto simp: complete_header_block_def working_def intro!: conn_inv_settle [where i = i])
next
  case (Some s)
  note err = stream_error_inv [OF w, where 'a = unit] and chk = check_content_length_inv [OF w]
  have si: "stream_inv (Some i) (expecting_continuation c) i s" and av: "0 \<le> srw_available (recv_window s)"
    using w Some by (auto simp: working_def conn_inv_def)
  show ?thesis
  proof (cases "final_status s")
    case f: None
    then have r: "response_headers s = None" using si by (auto simp: stream_inv_def stream_bounds_def)
    show ?thesis
    proof (cases "validate_response_fields decoded False")
      case (Inl m)
      with Some f err show ?thesis by (simp add: complete_header_block_def)
    next
      case (Inr info)
      define s1 where "s1 = s\<lparr>interim_count := interim_count s + 1\<rparr>"
      define s2 where "s2 = s\<lparr>final_status := Some (rstatus info), expected_len := rcontent_length info,
                                 response_headers := Some decoded\<rparr>"
      have e1: "conn_inv None (fst (stream_error (put_stream c i s1) i m :: unit step))" for m
      proof -
        have "stream_inv None (expecting_continuation c) i (s1\<lparr>sstate := Closed, response_headers := None\<rparr>)"
          using si av by (auto simp: s1_def stream_inv_def stream_bounds_def stream_settled_def)
        with w show ?thesis by (simp add: stream_error_fst conn_inv_put_settle working_def)
      qed
      have p1: "conn_inv None (put_stream c i s1)" if "interim_count s1 \<le> MAX_INTERIM_RESPONSES"
        using that w si av r by (intro conn_inv_put_settle)
          (auto simp: s1_def working_def stream_inv_def stream_bounds_def stream_settled_def)
      have w2: "working i (put_stream c i s2)"
        using w si av by (auto simp: s2_def working_def stream_inv_def stream_bounds_def intro!: conn_inv_put)
      have p2: "conn_inv None (put_stream c i s2)" if "\<not> end_stream_recv s"
        using that w si av by (intro conn_inv_put_settle)
          (auto simp: s2_def working_def stream_inv_def stream_bounds_def stream_settled_def)
      have u: "complete_header_block c i decoded =
        (if rstatus info < 200 then
           if end_stream_recv s then stream_error c i ''interim response with END_STREAM''
           else if rstatus info = 101 then stream_error c i ''101 response in HTTP/2''
           else if interim_count s1 > MAX_INTERIM_RESPONSES
           then stream_error (put_stream c i s1) i ''more than 32 interim responses''
           else (put_stream c i s1, Ok ())
         else if end_stream_recv s then check_content_length (put_stream c i s2) i else (put_stream c i s2, Ok ()))"
        using Some f Inr by (simp add: complete_header_block_def s1_def s2_def Let_def)
      show ?thesis unfolding u using err e1 p1 p2 check_content_length_inv [OF w2] by simp
    qed
  next
    case (Some st)
    with \<open>get_stream c i = Some s\<close> err chk show ?thesis
      by (simp add: complete_header_block_def Let_def split: sum.splits)
  qed
qed

lemma decode_headers_eq:
  "decode_headers c bs = (c\<lparr>cdecoder := fst (decode_block (cdecoder c) bs)\<rparr>, snd (decode_block (cdecoder c) bs))"
  by (simp add: decode_headers_def split: prod.splits)

lemma decode_headers_inv:
  assumes "conn_inv X c"
  shows "conn_inv X (c\<lparr>cdecoder := fst (decode_block (cdecoder c) bs)\<rparr>)"
proof -
  obtain d r where d: "decode_block (cdecoder c) bs = (d, r)" by (cases "decode_block (cdecoder c) bs")
  from assms have "dec_table.inv (cdecoder c)" "d_cap (cdecoder c) \<le> DYN_TABLE_CAP" by (auto simp: conn_inv_def)
  from decode_block_loop_bounds [OF d [unfolded decode_block_def] this] assms show ?thesis
    by (simp add: conn_inv_def d)
qed

text \<open>The outcome of a handler on stream \<open>i\<close>: the invariant holds, except possibly for the
  settledness of stream \<open>i\<close> when the handler failed.\<close>

definition inv_after :: "u32 \<Rightarrow> 'a step \<Rightarrow> bool" where
  "inv_after i m \<longleftrightarrow> conn_inv (Some i) (fst m) \<and> (isl (snd m) \<or> conn_inv None (fst m))"

lemma inv_afterI: "conn_inv None (fst m) \<Longrightarrow> inv_after i m"
  by (simp add: inv_after_def conn_inv_weaken)

lemma inv_after_Err: "conn_inv (Some i) c \<Longrightarrow> inv_after i (c, Inl e)"
  by (simp add: inv_after_def)

lemma inv_after_bind:
  assumes "conn_inv None (fst m)" "\<And>x c. m = (c, Inr x) \<Longrightarrow> inv_after i (f x c)"
  shows "inv_after i (step_bind m f)"
proof (cases m)
  case (Pair c r)
  with assms show ?thesis by (cases r) (auto intro: inv_afterI)
qed

text \<open>Decoding a block for stream \<open>i\<close> and applying it.\<close>

lemma decode_complete_inv:
  assumes w: "working i c"
  shows "inv_after i (step_bind (decode_headers c bs) (\<lambda>decoded c3.
      step_bind (complete_header_block (c3\<lparr>made_progress := True\<rparr>) i decoded) (\<lambda>_ c4. (c4, Ok (outcome_for c4 i)))))"
proof -
  define c3 where "c3 = c\<lparr>cdecoder := fst (decode_block (cdecoder c) bs)\<rparr>"
  have inv3: "conn_inv (Some i) c3" unfolding c3_def using w by (intro decode_headers_inv) (simp add: working_def)
  have w3: "working i (c3\<lparr>made_progress := True\<rparr>)" using w inv3 by (simp add: working_def c3_def)
  show ?thesis
  proof (cases "snd (decode_block (cdecoder c) bs)")
    case (Inl e)
    with inv3 show ?thesis by (simp add: decode_headers_eq c3_def [symmetric] inv_after_Err)
  next
    case (Inr decoded)
    have "inv_after i (step_bind (complete_header_block (c3\<lparr>made_progress := True\<rparr>) i decoded)
        (\<lambda>_ c4. (c4, Ok (outcome_for c4 i))))"
      using complete_header_block_inv [OF w3, of decoded] by (intro inv_after_bind) (auto intro: inv_afterI)
    with Inr show ?thesis by (simp add: decode_headers_eq c3_def)
  qed
qed

lemma push_header_fragment_OkD:
  "push_header_fragment s frag = Ok s' \<Longrightarrow> s' = s\<lparr>headers_buf := headers_buf s @ frag\<rparr> \<and> length (headers_buf s') \<le> MAX_HEADERS_BUF"
  by (auto simp: push_header_fragment_def saturating_add_u64_def split: if_splits)

lemma headers_on_closed_inv:
  assumes inv: "conn_inv None c" and ex: "expecting_continuation c = None"
    and s: "get_stream c i = Some s" "sstate s = Closed"
  shows "conn_inv None (fst (headers_on_closed c i s frag eh))"
proof (cases eh)
  case True
  with decode_headers_inv [OF inv] show ?thesis
    by (cases "snd (decode_block (cdecoder c) frag)") (simp_all add: headers_on_closed_def decode_headers_eq)
next
  case False
  show ?thesis
  proof (cases "push_header_fragment s frag")
    case (Inr s')
    have "stream_inv None (Some i) i (s'\<lparr>discard_headers := True\<rparr>)"
      using push_header_fragment_OkD [OF Inr] conn_inv_stream [OF inv s(1)] s(2) ex
      by (auto simp: stream_inv_def stream_bounds_def stream_settled_def)
    from conn_inv_reexpect [OF inv _ _ this] ex Inr False show ?thesis by (simp add: headers_on_closed_def)
  qed (use False inv in \<open>simp add: headers_on_closed_def\<close>)
qed

lemma headers_on_live_inv:
  assumes inv: "conn_inv None c" and ex: "expecting_continuation c = None"
    and s: "get_stream c i = Some s" "sstate s \<noteq> Closed" and st: "recv_headers (sstate s) es = Ok st"
  shows "inv_after i (headers_on_live c i s frag eh es st)"
proof -
  define s0 where "s0 = s\<lparr>rx_any := True\<rparr>"
  have s0i: "stream_inv None None i s0" using conn_inv_stream [OF inv s(1)] ex
    by (simp add: s0_def stream_inv_def stream_bounds_def stream_settled_def)
  show ?thesis
  proof (cases "push_header_fragment s0 frag")
    case (Inl e)
    have "conn_inv None (put_stream c i s0)" using inv s0i ex by (intro conn_inv_put) simp_all
    with Inl show ?thesis by (simp add: headers_on_live_def s0_def inv_afterI)
  next
    case (Inr s1)
    define s2 where "s2 = s1\<lparr>end_stream_recv := es \<or> end_stream_recv s1, sstate := st\<rparr>"
    define c2 where "c2 = (put_stream c i (s2\<lparr>headers_buf := []\<rparr>))\<lparr>expecting_continuation := None\<rparr>"
    note p = push_header_fragment_OkD [OF Inr]
    have nr: "\<not> end_stream_recv s0" using s0i s(2) st
      by (auto simp: s0_def stream_inv_def stream_bounds_def recv_headers_def)
    have st': "es \<longrightarrow> st = HalfClosedRemote \<or> st = Closed" using st s(2)
      by (auto simp: recv_headers_def split: stream_state.splits)
    note facts = s0i nr st' p s(2) and defs = s2_def stream_inv_def stream_bounds_def stream_settled_def
    have "stream_inv None (Some i) i s2" using facts by (auto simp: defs s0_def)
    from conn_inv_reexpect [OF inv _ _ this] ex
    have part: "conn_inv None ((put_stream c i s2)\<lparr>expecting_continuation := Some i\<rparr>)" by simp
    have "stream_inv (Some i) None i (s2\<lparr>headers_buf := []\<rparr>)" using facts by (auto simp: defs s0_def)
    from conn_inv_reexpect [OF inv _ _ this] ex have "conn_inv (Some i) c2" by (simp add: c2_def)
    then have "working i c2" using facts by (simp add: working_def c2_def defs)
    from decode_complete_inv [OF this, of "headers_buf s2"] part Inr show ?thesis
      by (simp add: headers_on_live_def s0_def [symmetric] s2_def [symmetric] c2_def [symmetric] Let_def inv_afterI)
  qed
qed

lemma process_headers_inv:
  assumes inv: "conn_inv None c" and ex: "expecting_continuation c = None"
  shows "inv_after (stream_id f) (process_headers c f)"
  using headers_on_closed_inv [OF assms] headers_on_live_inv [OF assms] inv
  by (auto simp: process_headers_def lift_res_def Let_def inv_afterI split: sum.splits option.splits)

lemma process_continuation_inv:
  assumes inv: "conn_inv None c"
  shows "inv_after (stream_id f) (process_continuation c f)"
proof (cases "expecting_continuation c = Some (stream_id f)")
  case ex: True
  define i where "i = stream_id f"
  show ?thesis
  proof (cases "get_stream c i")
    case s: (Some s)
    note si = conn_inv_stream [OF inv s, unfolded ex i_def [symmetric]]
    show ?thesis
    proof (cases "push_header_fragment s (payload f)")
      case (Inr s1)
      note p = push_header_fragment_OkD [OF Inr]
      define s2 where "s2 = s1\<lparr>headers_buf := [], discard_headers := False\<rparr>"
      define c1 where "c1 = (put_stream c i s2)\<lparr>expecting_continuation := None\<rparr>"
      note facts = si p and defs = s2_def stream_inv_def stream_bounds_def stream_settled_def
      have part: "conn_inv None (put_stream c i s1)"
        using facts by (intro conn_inv_put [OF inv]) (auto simp: defs ex i_def)
      have "stream_inv (Some i) None i s2" using facts by (auto simp: defs)
      from conn_inv_reexpect [OF inv _ _ this] ex have c1: "conn_inv (Some i) c1" by (simp add: c1_def i_def)
      then have w: "working i c1" using facts by (simp add: working_def c1_def defs)
      have disc: "conn_inv None c1" if "discard_headers s1"
        using c1 that facts by (intro conn_inv_settle [where i = i]) (auto simp: c1_def defs)
      have "inv_after i (step_bind (decode_headers c1 (headers_buf s1)) (\<lambda>decoded c2.
          step_bind (c2\<lparr>made_progress := True\<rparr>, Ok ()) (\<lambda>_ c4. (c4, Ok (outcome_for c4 i)))))" if "discard_headers s1"
        using decode_headers_inv [OF disc [OF that]]
        by (cases "snd (decode_block (cdecoder c1) (headers_buf s1))") (auto simp: decode_headers_eq intro: inv_afterI)
      with decode_complete_inv [OF w, of "headers_buf s1"] part ex s Inr show ?thesis
        by (cases "discard_headers s1")
          (simp_all add: process_continuation_def i_def [symmetric] s2_def [symmetric] c1_def [symmetric] Let_def inv_afterI)
    qed (use s inv ex in \<open>simp add: process_continuation_def i_def inv_afterI\<close>)
  qed (use inv ex in \<open>simp add: process_continuation_def i_def inv_afterI\<close>)
qed (use inv in \<open>simp add: process_continuation_def inv_afterI\<close>)

lemma crw_replenish_le:
  "crw_replenish w = (w', u) \<Longrightarrow> crw_available w \<le> crw_initial w \<Longrightarrow>
   crw_initial w' = crw_initial w \<and> crw_available w \<le> crw_available w' \<and> crw_available w' \<le> crw_initial w'"
  by (auto simp: crw_replenish_def Let_def split: if_splits)

lemma srw_replenish_le:
  "srw_replenish w i = (w', u) \<Longrightarrow> srw_available w \<le> srw_initial w \<Longrightarrow>
   srw_initial w' = srw_initial w \<and> srw_available w \<le> srw_available w' \<and> srw_available w' \<le> srw_initial w'"
  by (auto simp: srw_replenish_def Let_def split: if_splits)

lemma write_conn_replenish_inv: "conn_inv X c \<Longrightarrow> conn_inv X (write_conn_replenish c)"
  by (auto simp: write_conn_replenish_def conn_inv_def write_out_def Let_def dest!: crw_replenish_le split: prod.split option.split)

lemma get_stream_replenish [simp]:
  "get_stream (write_conn_replenish c) i = get_stream c i"
  "expecting_continuation (write_conn_replenish c) = expecting_continuation c"
  by (auto simp: write_conn_replenish_def Let_def split: prod.split option.split)

lemma write_stream_replenish_inv:
  assumes "conn_inv None c" "get_stream c i = Some s"
  shows "conn_inv None (write_stream_replenish c i s)"
proof -
  obtain w u where wu: "srw_replenish (recv_window s) i = (w, u)" by (cases "srw_replenish (recv_window s) i")
  have "stream_inv None (expecting_continuation c) i (s\<lparr>recv_window := w\<rparr>)"
    using conn_inv_stream [OF assms] srw_replenish_le [OF wu]
    by (auto simp: stream_inv_def stream_bounds_def stream_settled_def)
  from conn_inv_put [OF assms(1) this] show ?thesis
    by (simp add: write_stream_replenish_def wu Let_def split: option.split)
qed

lemma deliver_data_inv:
  assumes inv: "conn_inv None c" and s: "get_stream c i = Some s" "recv_data (sstate s) es = Ok st"
  shows "conn_inv None (fst (deliver_data c i s st es pl snk))"
proof -
  define to_sink where "to_sink = (snk \<noteq> None \<and> \<not> content_encoded s \<and> sbody s = [])"
  define s1 where "s1 = (if to_sink then s\<lparr>streamed_len := streamed_len s + length pl\<rparr> else s\<lparr>sbody := sbody s @ pl\<rparr>)"
  define s2 where "s2 = s1\<lparr>end_stream_recv := es \<or> end_stream_recv s1, sstate := st\<rparr>"
  define c1 where "c1 = (put_stream c i s2)\<lparr>sunk := (if to_sink then sunk c @ pl else sunk c),
      made_progress := (pl \<noteq> [] \<or> made_progress c)\<rparr>"
  note si = conn_inv_stream [OF inv s(1)]
  have w: "working i c1" if "to_sink \<or> length (sbody s) + length pl \<le> MAX_RESPONSE_BYTES"
  proof -
    have "stream_inv (Some i) (expecting_continuation c) i s2"
      using si that s(2) by (auto simp: s2_def s1_def stream_inv_def stream_bounds_def recv_data_def split: stream_state.splits)
    with inv have "conn_inv (Some i) (put_stream c i s2)" by (simp add: conn_inv_put_other)
    with si show ?thesis by (simp add: working_def c1_def s2_def s1_def stream_inv_def stream_settled_def)
  qed
  define finish where "finish = (\<lambda>(_ :: unit) c2. let c3 = write_conn_replenish c2;
      c4 = (case get_stream c3 i of Some s3 \<Rightarrow> write_stream_replenish c3 i s3 | None \<Rightarrow> c3)
    in (c4, Ok (outcome_for c4 i) :: dispatch_outcome result))"
  have fin: "conn_inv None (fst (step_bind m finish))" if "conn_inv None (fst m)" for m
    using that write_conn_replenish_inv [of None] write_stream_replenish_inv
    by (auto simp: step_bind_def finish_def Let_def split: prod.split sum.split option.split)
  have u: "deliver_data c i s st es pl snk =
     (if \<not> to_sink \<and> saturating_add_u64 (length (sbody s)) (length pl) > MAX_RESPONSE_BYTES
      then (c, Err (BadResponse ''response body exceeds size limit''))
      else if to_sink \<and> \<not> the snk pl then (c, Err (Io IoOther))
      else step_bind (check_content_length c1 i) finish)"
    unfolding deliver_data_def Let_def to_sink_def [symmetric] s1_def [symmetric] s2_def [symmetric]
      c1_def [symmetric] finish_def by (rule refl)
  show ?thesis
    using inv fin [OF check_content_length_inv [OF w]] by (auto simp: u saturating_add_u64_def)
qed

lemma conn_inv_consume:
  "conn_inv X c \<Longrightarrow> conn_inv X (c\<lparr>conn_recvw := crw_consume (conn_recvw c) n\<rparr>)"
  by (simp add: conn_inv_def crw_consume_def)

lemma process_data_inv:
  assumes inv: "conn_inv None c"
  shows "inv_after (stream_id f) (process_data c f snk)"
proof -
  define i where "i = stream_id f"
  define n where "n = length (payload f)"
  define c1 where "c1 = c\<lparr>conn_recvw := crw_consume (conn_recvw c) n\<rparr>"
  define es where "es = (flags f AND FLAG_END_STREAM \<noteq> 0)"
  have D: "process_data c f snk =
     (if crw_available (conn_recvw c1) < 0
      then (c1, Err (BadResponse ''http2: flow-control window exceeded by peer''))
      else case get_stream c1 i of
          None \<Rightarrow> (write_conn_replenish c1, Ok Continue)
        | Some s \<Rightarrow>
            if sstate s = Closed then (c1, Err (BadResponse ''DATA on closed stream''))
            else lift_res c1 (recv_data (sstate s) es) (\<lambda>new_state.
              let s1 = s\<lparr>rx_any := True, recv_window := srw_consume (recv_window s) n\<rparr>;
                  c2 = put_stream c1 i s1
              in if srw_available (recv_window s1) < 0
                 then (c2, Err (BadResponse ''http2: flow-control window exceeded by peer''))
                 else lift_res c2 (data_payload f) (\<lambda>pl.
                   if final_status s1 = None then stream_error c2 i ''DATA before the response HEADERS''
                   else deliver_data c2 i s1 new_state es pl snk)))"
    unfolding process_data_def Let_def c1_def i_def n_def es_def by (rule refl)
  have inv1: "conn_inv None c1" unfolding c1_def by (rule conn_inv_consume [OF inv])
  note same = inv_afterI [where i = i and m = "(c1, r)" for r, simplified, OF inv1]
  show ?thesis
  proof (cases "crw_available (conn_recvw c1) < 0 \<or> get_stream c1 i = None")
    case True
    with same write_conn_replenish_inv [OF inv1] show ?thesis by (auto simp: D i_def inv_afterI)
  next
    case False
    then obtain s where s: "get_stream c1 i = Some s" by auto
    define s1 where "s1 = s\<lparr>rx_any := True, recv_window := srw_consume (recv_window s) n\<rparr>"
    define c2 where "c2 = put_stream c1 i s1"
    show ?thesis
    proof (cases "sstate s = Closed \<or> isl (recv_data (sstate s) es)")
      case True
      with False s same show ?thesis by (auto simp: D i_def lift_res_def split: sum.splits)
    next
      case live: False
      then obtain st where st: "recv_data (sstate s) es = Ok st" by (cases "recv_data (sstate s) es") auto
      note si = conn_inv_stream [OF inv1 s]
      have b: "stream_inv (Some i) (expecting_continuation c1) i s1"
        using si by (auto simp: s1_def stream_inv_def stream_bounds_def srw_consume_def)
      have g: "stream_inv None (expecting_continuation c1) i s1" if "\<not> srw_available (recv_window s1) < 0"
        using si b that by (auto simp: s1_def stream_inv_def stream_settled_def)
      have i2: "conn_inv (Some i) c2" unfolding c2_def by (rule conn_inv_put_other [OF inv1 b])
      have i2': "conn_inv None c2" if "\<not> srw_available (recv_window s1) < 0"
        unfolding c2_def by (rule conn_inv_put [OF inv1 g [OF that]])
      have w2: "working i c2" if "\<not> srw_available (recv_window s1) < 0"
        using i2 that by (simp add: working_def c2_def)
      have st1: "recv_data (sstate s1) es = Ok st" "get_stream c2 i = Some s1" using st by (simp_all add: s1_def c2_def)
      have u: "process_data c f snk =
        (if srw_available (recv_window s1) < 0
         then (c2, Err (BadResponse ''http2: flow-control window exceeded by peer''))
         else lift_res c2 (data_payload f) (\<lambda>pl.
           if final_status s1 = None then stream_error c2 i ''DATA before the response HEADERS''
           else deliver_data c2 i s1 st es pl snk))"
        using False s live st unfolding c2_def by (simp add: D s1_def [symmetric] Let_def)
      show ?thesis
        unfolding u i_def [symmetric]
        using i2 i2' stream_error_inv [OF w2] deliver_data_inv [OF i2' st1(2,1)]
        by (auto simp: lift_res_def intro: inv_after_Err inv_afterI split: sum.split)
    qed
  qed
qed

lemma process_rst_inv:
  assumes inv: "conn_inv None c"
  shows "conn_inv None (fst (process_rst c f))"
proof (cases "get_stream c (stream_id f)")
  case (Some s)
  note si = conn_inv_stream [OF inv Some]
  have "stream_inv None (expecting_continuation c) (stream_id f) (s\<lparr>rx_any := True, sstate := Closed\<rparr>)"
    "stream_inv None (expecting_continuation c) (stream_id f) (s\<lparr>rx_any := True, refused := r\<rparr>)"
    "stream_inv None (expecting_continuation c) (stream_id f) (s\<lparr>rx_any := True, refused := r, sstate := Closed\<rparr>)" for r
    using si by (auto simp: stream_inv_def stream_bounds_def stream_settled_def)
  with Some inv show ?thesis
    by (auto simp: process_rst_def Let_def lift_res_def recv_rst_def conn_inv_put split: stream_state.split sum.split)
qed (use inv in \<open>simp add: process_rst_def Let_def\<close>)

lemma shift_windows_spec:
  assumes "shift_windows n ss = (ss', r)"
  shows "map fst ss' = map fst ss \<and> (\<forall>i s'. map_of ss' i = Some s' \<longrightarrow> (\<exists>s w. map_of ss i = Some s \<and> s' = s\<lparr>send_window := w\<rparr> \<and>
      (w = send_window s \<or> ssw_available w \<le> WINDOW_MAX)))"
  using assms
proof (induction n ss arbitrary: ss' r rule: shift_windows.induct)
  case (2 n i s ss)
  have triv: "s = s\<lparr>send_window := send_window s\<rparr>" for s :: stream by simp
  show ?case
  proof (cases "apply_initial_window_change (send_window s) n")
    case (Inl e)
    with "2.prems" triv show ?thesis by fastforce
  next
    case (Inr w)
    then have w: "ssw_available w \<le> WINDOW_MAX"
      by (auto simp: apply_initial_window_change_def Let_def split: if_splits)
    obtain ss1 r1 where r1: "shift_windows n ss = (ss1, r1)" by (cases "shift_windows n ss")
    from "2.IH" [OF Inr r1] "2.prems" Inr r1 w show ?thesis by auto
  qed
qed simp

lemma conn_inv_streams_map:
  assumes "conn_inv X c" "map fst ss' = map fst (streams c)"
    and "\<And>i s'. map_of ss' i = Some s' \<Longrightarrow> \<exists>s. get_stream c i = Some s \<and>
      (stream_inv X (expecting_continuation c) i s \<longrightarrow> stream_inv X (expecting_continuation c) i s')"
  shows "conn_inv X (c\<lparr>streams := ss'\<rparr>)"
  using assms by (fastforce simp: conn_inv_def)

lemma apply_settings_payload_ok:
  "apply_settings_payload ps pl = (ps', r) \<Longrightarrow> peer_settings_ok ps \<Longrightarrow> peer_settings_ok ps'"
  using apply_settings_chunks_ok [of ps pl] by (auto simp: apply_settings_payload_def split: if_splits)

lemma shift_windows_inv:
  assumes "conn_inv X c" "shift_windows n (streams c) = (ss, r)"
  shows "conn_inv X (c\<lparr>streams := ss\<rparr>)"
proof (rule conn_inv_streams_map [OF assms(1)])
  show "map fst ss = map fst (streams c)" using shift_windows_spec [OF assms(2)] by simp
  fix i s' assume "map_of ss i = Some s'"
  with shift_windows_spec [OF assms(2)] obtain s w where
    "get_stream c i = Some s" "s' = s\<lparr>send_window := w\<rparr>" "w = send_window s \<or> ssw_available w \<le> WINDOW_MAX" by blast
  then show "\<exists>s. get_stream c i = Some s \<and>
      (stream_inv X (expecting_continuation c) i s \<longrightarrow> stream_inv X (expecting_continuation c) i s')"
    by (auto simp: stream_inv_def stream_bounds_def stream_settled_def)
qed

lemma process_settings_inv:
  assumes inv: "conn_inv X c"
  shows "conn_inv X (fst (process_settings c f))"
proof -
  obtain p r where p: "apply_settings_payload (peer c) (payload f) = (p, r)"
    by (cases "apply_settings_payload (peer c) (payload f)")
  have "peer_settings_ok p" using apply_settings_payload_ok [OF p] inv by (simp add: conn_inv_def)
  with inv have i1: "conn_inv X (c\<lparr>peer := p\<rparr>)" by (simp add: conn_inv_def)
  have i2: "conn_inv X ((c\<lparr>peer := p\<rparr>)\<lparr>streams := ss\<rparr>)"
    if "shift_windows (initial_window_size p) (streams c) = (ss, r2)" for ss r2
    using shift_windows_inv [OF i1, of "initial_window_size p" ss r2] that by simp
  show ?thesis
    using i1 i2 by (auto simp: process_settings_def p Let_def lift_res_def split: sum.split prod.split)
qed

lemma process_goaway_inv:
  assumes inv: "conn_inv X c"
  shows "conn_inv X (fst (process_goaway c f))"
proof -
  define lst where "lst = (case goaway_received c of None \<Rightarrow> u32_from_be_bytes (take 4 (payload f)) AND 0x7fffffff
      | Some prev \<Rightarrow> min prev (u32_from_be_bytes (take 4 (payload f)) AND 0x7fffffff))"
  define g where "g = (\<lambda>(i, s :: stream). (i, if i > lst then s\<lparr>sstate := Closed\<rparr> else s))"
  have m: "map_of (map g ss) i = map_option (\<lambda>s. if i > lst then s\<lparr>sstate := Closed\<rparr> else s) (map_of ss i)" for ss i
    by (induction ss) (auto simp: g_def)
  have "conn_inv X (c\<lparr>streams := map g (streams c)\<rparr>)"
  proof (rule conn_inv_streams_map [OF inv])
    show "map fst (map g (streams c)) = map fst (streams c)" by (simp add: g_def case_prod_unfold)
    fix i s' assume "map_of (map g (streams c)) i = Some s'"
    then show "\<exists>s. get_stream c i = Some s \<and>
      (stream_inv X (expecting_continuation c) i s \<longrightarrow> stream_inv X (expecting_continuation c) i s')"
      unfolding m by (auto simp: stream_inv_def stream_bounds_def stream_settled_def)
  qed
  then have "conn_inv X ((c\<lparr>streams := map g (streams c)\<rparr>)\<lparr>goaway_received := Some lst\<rparr>)" by simp
  then show ?thesis unfolding process_goaway_def Let_def lst_def g_def by simp
qed

lemma conn_window_update_inv:
  "conn_inv X c \<Longrightarrow> csw_apply_window_update (conn_sendw c) n = Ok w \<Longrightarrow> conn_inv X (c\<lparr>conn_sendw := w\<rparr>)"
  by (auto simp: conn_inv_def csw_apply_window_update_def Let_def split: if_splits)

lemma process_conn_frame_inv:
  assumes inv: "conn_inv X c"
  shows "conn_inv X (fst (process_conn_frame c f))"
proof -
  have "conn_inv X (c\<lparr>conn_sendw := w, made_progress := True\<rparr>)"
    if "csw_apply_window_update (conn_sendw c) n = Ok w" for n w
    using conn_window_update_inv [OF inv that] by simp
  then show ?thesis
    using inv process_settings_inv [OF inv] process_goaway_inv [OF inv]
    by (auto simp: process_conn_frame_def Let_def lift_res_def split: sum.split)
qed

lemma stream_window_update_inv:
  assumes inv: "conn_inv None c" "get_stream c i = Some s" "ssw_apply_window_update (send_window s) n = Ok w"
  shows "conn_inv None (put_stream c i (s\<lparr>send_window := w\<rparr>))"
  using conn_inv_stream [OF inv(1,2)] inv(3)
  by (intro conn_inv_put [OF inv(1)])
    (auto simp: ssw_apply_window_update_def stream_inv_def stream_bounds_def stream_settled_def Let_def split: if_splits)

lemma stream_window_frame_inv:
  assumes inv: "conn_inv None c"
  shows "conn_inv None (fst (lift_res c (parse_window_update pl) (\<lambda>inc.
    case get_stream c i of
      Some s \<Rightarrow> lift_res c (ssw_apply_window_update (send_window s) inc) (\<lambda>w.
        ((put_stream c i (s\<lparr>send_window := w\<rparr>))\<lparr>made_progress := True\<rparr>, Ok Continue))
    | None \<Rightarrow> (c, Ok Continue))))"
  using inv stream_window_update_inv [OF inv] by (auto simp: lift_res_def split: sum.split option.split)

lemma process_stream_frame_inv:
  assumes inv: "conn_inv None c" and ex: "ftyp f \<noteq> F_CONTINUATION \<longrightarrow> expecting_continuation c = None"
  shows "inv_after (stream_id f) (process_stream_frame c f snk)"
  unfolding process_stream_frame_def
  using ex process_headers_inv [OF inv, of f] process_continuation_inv [OF inv, of f] process_data_inv [OF inv, of f snk]
    inv_afterI [OF process_rst_inv [OF inv, of f]] inv_afterI [OF stream_window_frame_inv [OF inv]]
  by (auto simp: inv intro: inv_afterI)

text \<open>The three stages of \<open>process_frame\<close>: the CONTINUATION gate, the dispatch, the billing.\<close>

definition gate_open :: "connection \<Rightarrow> frame \<Rightarrow> bool" where
  "gate_open c f \<longleftrightarrow> expecting_continuation c = None \<or>
     (ftyp f = F_CONTINUATION \<and> expecting_continuation c = Some (stream_id f))"

definition dispatch :: "connection \<Rightarrow> frame \<Rightarrow> sink \<Rightarrow> dispatch_outcome step" where
  "dispatch c f snk = (if stream_id f = 0 then process_conn_frame c f else process_stream_frame c f snk)"

lemma process_frame_gated:
  "\<not> gate_open c f \<Longrightarrow> process_frame c f snk = (c, Err (BadResponse ''expected CONTINUATION on stream''))"
  by (auto simp: gate_open_def process_frame_def)

lemma process_frame_open:
  assumes "gate_open c f" "record_control_frame (budget c) (ftyp f) (flags f) = (b, r)"
  shows "process_frame c f snk = lift_res (c\<lparr>budget := b\<rparr>) r (\<lambda>_.
    step_bind (dispatch (c\<lparr>budget := b, made_progress := False\<rparr>) f snk) (\<lambda>outcome c3.
      let (b', r') = record_progress (budget c3) (made_progress c3 \<or> outcome \<noteq> Continue)
      in lift_res (c3\<lparr>budget := b'\<rparr>) r' (\<lambda>_. (c3\<lparr>budget := b'\<rparr>, Ok outcome))))"
proof -
  have "\<not> (case expecting_continuation c of
            Some awaiting \<Rightarrow> \<not> (ftyp f = F_CONTINUATION \<and> stream_id f = awaiting) | None \<Rightarrow> False)"
    using assms(1) by (auto simp: gate_open_def split: option.split)
  then show ?thesis unfolding process_frame_def dispatch_def by (simp add: assms(2) Let_def)
qed

text \<open>A successful frame: what the dispatch did, up to the billing.\<close>

lemma process_frame_OkD:
  assumes "process_frame c f snk = (c', Ok out)"
  shows "\<exists>b b' c3. gate_open c f \<and> dispatch (c\<lparr>budget := b, made_progress := False\<rparr>) f snk = (c3, Ok out) \<and>
    c' = c3\<lparr>budget := b'\<rparr>"
proof -
  have g: "gate_open c f" using assms process_frame_gated [of c f snk] by auto
  obtain b r where b: "record_control_frame (budget c) (ftyp f) (flags f) = (b, r)"
    by (cases "record_control_frame (budget c) (ftyp f) (flags f)")
  obtain c3 r3 where d: "dispatch (c\<lparr>budget := b, made_progress := False\<rparr>) f snk = (c3, r3)" by fastforce
  show ?thesis
    using assms g d unfolding process_frame_open [OF g b]
    by (auto simp: lift_res_def step_bind_def split: sum.splits prod.splits)
qed

lemma process_frame_inv:
  assumes inv: "conn_inv None c"
  shows "inv_after (stream_id f) (process_frame c f snk)"
proof (cases "gate_open c f")
  case False
  with inv show ?thesis by (simp add: process_frame_gated inv_afterI)
next
  case gate: True
  obtain b r where b: "record_control_frame (budget c) (ftyp f) (flags f) = (b, r)"
    by (cases "record_control_frame (budget c) (ftyp f) (flags f)")
  define c2 where "c2 = c\<lparr>budget := b, made_progress := False\<rparr>"
  have inv2: "conn_inv None c2" using inv by (simp add: c2_def)
  have run: "inv_after (stream_id f) (dispatch c2 f snk)"
    using inv_afterI [OF process_conn_frame_inv [OF inv2, of f]] process_stream_frame_inv [OF inv2, of f snk] gate
    by (auto simp: dispatch_def c2_def gate_open_def)
  obtain c3 r3 where m: "dispatch c2 f snk = (c3, r3)" by fastforce
  show ?thesis
  proof (cases r)
    case (Inl e)
    with inv show ?thesis unfolding process_frame_open [OF gate b] by (simp add: inv_afterI)
  next
    case ok: (Inr u)
    show ?thesis
    proof (cases r3)
      case (Inl e)
      with ok run show ?thesis unfolding process_frame_open [OF gate b] c2_def [symmetric] m by simp
    next
      case (Inr out)
      with run m have inv3: "conn_inv None c3" by (simp add: inv_after_def)
      with ok Inr show ?thesis unfolding process_frame_open [OF gate b] c2_def [symmetric] m
        by (auto simp: lift_res_def split: prod.split sum.split intro: inv_afterI)
    qed
  qed
qed

end
