(* ===== verification/H2_Send.thy ===== *)
theory H2_Send
  imports H2_Inv
begin

text \<open>
  The sending side of an HTTP/2 connection (\<open>src/src/http2.rs\<close>): the header fields of a request
  (\<open>request_header_fields\<close>, \<open>build_header_block\<close>), writing them (\<open>write_request_headers\<close>),
  staging a body and the non-blocking body pump (\<open>pump_pending_sends\<close>).
\<close>

section \<open>Requests\<close>

datatype priority = High | Normal | Low

text \<open>The fields of \<open>http::Request\<close> and its \<open>Url\<close> that the HTTP/2 sender reads. \<open>rq_auth\<close> is the
  result of \<open>effective_basic_auth\<close>, the base64 form of the credentials.\<close>

record request =
  rq_method :: string
  keep_method_case :: bool
  rq_scheme :: string
  rq_host :: string
  rq_port :: nat
  rq_path :: string
  rq_headers :: "header list"
  strict_headers :: bool
  rq_auth :: "string option"
  rq_body :: bytes
  rq_priority :: priority

definition priority_weight_byte :: "priority \<Rightarrow> byte option" where
  "priority_weight_byte p = (case p of High \<Rightarrow> Some 255 | Normal \<Rightarrow> None | Low \<Rightarrow> Some 0)"

definition to_ascii_uppercase :: "string \<Rightarrow> string" where
  "to_ascii_uppercase s = map (\<lambda>c. if is_ascii_lowercase c then char_of ((of_char c :: nat) - 32) else c) s"

definition effective_method :: "request \<Rightarrow> string" where
  "effective_method req = (if keep_method_case req then rq_method req else to_ascii_uppercase (rq_method req))"

definition request_authority :: "request \<Rightarrow> string" where
  "request_authority req =
     (if rq_port req = 443 \<and> rq_scheme req = ''https'' then rq_host req
      else rq_host req @ '':'' @ show_nat (rq_port req))"

text \<open>The caller's headers that are sent: not connection-specific, not \<open>host\<close>, lower-cased.\<close>

definition user_fields :: "header list \<Rightarrow> header list" where
  "user_fields hs = map (\<lambda>(k, v). (to_ascii_lowercase k, v))
     (filter (\<lambda>(k, _). \<not> (is_connection_specific_header k \<or> eq_ignore_ascii_case k ''host'')) hs)"

definition auto_fields :: "request \<Rightarrow> header list \<Rightarrow> header list" where
  "auto_fields req fs =
     (let have = (\<lambda>n. n \<in> set (map fst fs))
      in (if \<not> have ''authorization'' then
            (case rq_auth req of Some creds \<Rightarrow> [(''authorization'', ''Basic '' @ creds)] | None \<Rightarrow> [])
          else []) @
         (if \<not> have ''user-agent'' then [(''user-agent'', ''rsurl/0.1.21'')] else []) @
         (if \<not> have ''accept'' then [(''accept'', ''*/*'')] else []) @
         (if \<not> have ''accept-encoding'' then [(''accept-encoding'', ''gzip, deflate'')] else []))"

definition request_header_fields :: "request \<Rightarrow> header list \<times> header list" where
  "request_header_fields req =
     (let pseudo = [('':method'', effective_method req), ('':scheme'', rq_scheme req),
                    ('':authority'', request_authority req), ('':path'', rq_path req)];
          fs = user_fields (rq_headers req);
          fs1 = fs @ (if \<not> strict_headers req then auto_fields req fs else []);
          fs2 = fs1 @ (if rq_body req \<noteq> [] then [(''content-length'', show_nat (length (rq_body req)))] else [])
      in (pseudo, fs2))"

definition build_header_block :: "encoder \<Rightarrow> request \<Rightarrow> encoder \<times> bytes" where
  "build_header_block e req = (let (pseudo, fs) = request_header_fields req in encode_headers e (pseudo @ fs))"

section \<open>Writing a request\<close>

definition write_all :: "connection \<Rightarrow> frame list \<Rightarrow> connection" where
  "write_all c fs = fold (\<lambda>f c. write_out c f) fs c"

definition send_priority_hint :: "connection \<Rightarrow> u32 \<Rightarrow> priority \<Rightarrow> connection" where
  "send_priority_hint c i p =
     (case priority_weight_byte p of
        None \<Rightarrow> c
      | Some weight \<Rightarrow> write_out c \<lparr>ftyp = F_PRIORITY, flags = 0, stream_id = i, payload = [0, 0, 0, 0, weight]\<rparr>)"

definition write_request_headers :: "connection \<Rightarrow> u32 \<Rightarrow> request \<Rightarrow> bool step" where
  "write_request_headers c i req =
     (let c1 = send_priority_hint c i (rq_priority req);
          (e, header_block) = build_header_block (cencoder c1) req;
          c2 = c1\<lparr>cencoder := e\<rparr>;
          has_body = (rq_body req \<noteq> []);
          c3 = write_all c2 (fragment_header_block i header_block (send_frame_limit c2) (\<not> has_body))
      in case get_stream c3 i of
           None \<Rightarrow> (c3, Err (BadResponse ''stream not found''))
         | Some s \<Rightarrow> lift_res c3 (send_data (sstate s) (\<not> has_body)) (\<lambda>st.
             (put_stream c3 i (s\<lparr>sstate := st, head_request := eq_ignore_ascii_case (effective_method req) ''HEAD''\<rparr>),
              Ok has_body)))"

definition stage_request_on :: "connection \<Rightarrow> u32 \<Rightarrow> request \<Rightarrow> unit step" where
  "stage_request_on c i req =
     step_bind (write_request_headers c i req) (\<lambda>has_body c1.
       if has_body then
         (case get_stream c1 i of
            Some s \<Rightarrow> (put_stream c1 i (s\<lparr>pending_body := Some (rq_body req, 0)\<rparr>), Ok ())
          | None \<Rightarrow> (c1, Ok ()))
       else (c1, Ok ()))"

section \<open>The body pump\<close>

text \<open>The number of body bytes stream \<open>i\<close> still has to send, plus one while a body is staged.\<close>

definition pending_measure :: "connection \<Rightarrow> u32 \<Rightarrow> nat" where
  "pending_measure c i =
     (case get_stream c i of
        Some s \<Rightarrow> (case pending_body s of Some (bs, nsent) \<Rightarrow> length bs - nsent + 1 | None \<Rightarrow> 0)
      | None \<Rightarrow> 0)"

definition data_frame :: "u32 \<Rightarrow> bool \<Rightarrow> bytes \<Rightarrow> frame" where
  "data_frame i is_last chunk =
     \<lparr>ftyp = F_DATA, flags = (if is_last then FLAG_END_STREAM else 0), stream_id = i, payload = chunk\<rparr>"

text \<open>One DATA frame of \<open>n\<close> bytes: written, billed to both windows.\<close>

definition send_chunk :: "connection \<Rightarrow> u32 \<Rightarrow> stream \<Rightarrow> nat \<Rightarrow> bool \<Rightarrow> bytes \<Rightarrow> connection \<times> stream" where
  "send_chunk c i s n is_last chunk =
     (let c1 = (write_out c (data_frame i is_last chunk))\<lparr>conn_sendw := csw_consume (conn_sendw c) n\<rparr>;
          s1 = s\<lparr>send_window := ssw_consume (send_window s) n\<rparr>
      in (put_stream c1 i s1, s1))"

function pump_stream :: "nat \<Rightarrow> connection \<Rightarrow> u32 \<Rightarrow> bool \<Rightarrow> bool step" where
  "pump_stream m c i wrote =
     (case get_stream c i of
        None \<Rightarrow> (c, Ok wrote)
      | Some s \<Rightarrow>
          (case pending_body s of
             None \<Rightarrow> (c, Ok wrote)
           | Some (bs, nsent) \<Rightarrow>
               let remaining = drop nsent bs
               in if remaining = [] then (put_stream c i (s\<lparr>pending_body := None\<rparr>), Ok wrote)
                  else let n = next_data_chunk_size m (send_budget s (conn_sendw c)) (length remaining)
                  in if n = 0 then (c, Ok wrote)
                     else let is_last = (n = length remaining);
                              (c1, s1) = send_chunk c i s n is_last (take n remaining)
                     in (case send_data (sstate s1) is_last of
                           Inl e \<Rightarrow> (c1, Err e)
                         | Inr st \<Rightarrow>
                             if is_last then (put_stream c1 i (s1\<lparr>sstate := st, pending_body := None\<rparr>), Ok True)
                             else pump_stream m (put_stream c1 i (s1\<lparr>sstate := st, pending_body := Some (bs, nsent + n)\<rparr>)) i True)))"
  by pat_completeness auto
termination
proof (relation "measure (\<lambda>(m, c, i, wrote). pending_measure c i)", goal_cases)
  case (2 m c i wrote s p bs nsent remaining n is_last q c1 s1 st)
  then show ?case
    by (auto simp: pending_measure_def send_chunk_def Let_def)
qed simp

fun pump_ids :: "nat \<Rightarrow> connection \<Rightarrow> u32 list \<Rightarrow> bool \<Rightarrow> bool step" where
  "pump_ids m c [] wrote = (c, Ok wrote)"
| "pump_ids m c (i # ids) wrote = step_bind (pump_stream m c i wrote) (\<lambda>w c'. pump_ids m c' ids w)"

definition pump_pending_sends :: "connection \<Rightarrow> bool step" where
  "pump_pending_sends c =
     pump_ids (send_frame_limit c) c
       (sort (map fst (filter (\<lambda>(_, s). pending_body s \<noteq> None) (streams c)))) False"

section \<open>What the pump writes\<close>

abbreviation data_of :: "frame list \<Rightarrow> bytes" where
  "data_of fs \<equiv> concat (map payload fs)"

text \<open>
  DATA frames \<open>fs\<close> were written for stream \<open>i\<close>, each within the frame limit \<open>m\<close>, and billed to
  both windows without overdrawing either; no other stream was touched.
\<close>

definition wrote_data :: "nat \<Rightarrow> u32 \<Rightarrow> connection \<Rightarrow> stream \<Rightarrow> frame list \<Rightarrow> connection \<Rightarrow> stream \<Rightarrow> bool" where
  "wrote_data m i c s fs c' s' \<longleftrightarrow>
     tls_out c' = tls_out c @ fs \<and>
     (\<forall>f\<in>set fs. ftyp f = F_DATA \<and> stream_id f = i \<and> payload f \<noteq> [] \<and> length (payload f) \<le> m) \<and>
     csw_available (conn_sendw c') = csw_available (conn_sendw c) - int (length (data_of fs)) \<and>
     ssw_available (send_window s') = ssw_available (send_window s) - int (length (data_of fs)) \<and>
     (fs \<noteq> [] \<longrightarrow> 0 \<le> csw_available (conn_sendw c') \<and> 0 \<le> ssw_available (send_window s')) \<and>
     get_stream c' i = Some s' \<and> (\<forall>j. j \<noteq> i \<longrightarrow> get_stream c' j = get_stream c j)"

lemma wrote_data_refl: "get_stream c i = Some s \<Longrightarrow> wrote_data m i c s [] c s"
  by (simp add: wrote_data_def)

lemma wrote_data_trans:
  assumes "wrote_data m i c s fs c1 s1" "wrote_data m i c1 s1 gs c2 s2"
  shows "wrote_data m i c s (fs @ gs) c2 s2"
  using assms unfolding wrote_data_def by (cases "gs = []") auto

lemma wrote_data_update:
  "wrote_data m i c s fs c1 s1 \<Longrightarrow> ssw_available (send_window s2) = ssw_available (send_window s1) \<Longrightarrow>
   wrote_data m i c s fs (put_stream c1 i s2) s2"
  unfolding wrote_data_def by auto

lemma send_chunk_wrote:
  assumes "get_stream c i = Some s" "n = next_data_chunk_size m (send_budget s (conn_sendw c)) (length rest)" "n \<noteq> 0"
    and "send_chunk c i s n e (take n rest) = (c1, s1)"
  shows "wrote_data m i c s [data_frame i e (take n rest)] c1 s1 \<and> n \<le> length rest \<and> sstate s1 = sstate s \<and>
    pending_body s1 = pending_body s"
proof -
  have n: "int n \<le> send_budget s (conn_sendw c)" "n \<le> length rest" "n \<le> m"
    using assms(2,3) by (auto simp: next_data_chunk_size_def split: if_splits)
  then show ?thesis
    using assms by (auto simp: send_chunk_def wrote_data_def data_frame_def send_budget_def csw_consume_def
        ssw_consume_def Let_def min_def)
qed

declare pump_stream.simps [simp del]

text \<open>What was written is the next part of the body, and the stream record agrees with it: either
  everything was sent, END_STREAM on the last frame only, or the rest is still pending.\<close>

definition pump_post :: "bytes \<Rightarrow> nat \<Rightarrow> bool result \<Rightarrow> frame list \<Rightarrow> stream \<Rightarrow> bool" where
  "pump_post bs k r fs s' \<longleftrightarrow>
     data_of fs = take (length (data_of fs)) (drop k bs) \<and>
     (isl r \<or>
      (if pending_body s' = None
       then k + length (data_of fs) = length bs \<and>
         (fs \<noteq> [] \<longrightarrow> map flags fs = replicate (length fs - 1) 0 @ [FLAG_END_STREAM])
       else pending_body s' = Some (bs, k + length (data_of fs)) \<and> k + length (data_of fs) < length bs \<and>
         map flags fs = replicate (length fs) 0))"

lemma pump_post_step:
  assumes "pump_post bs (k + n) r fs s'" "k + n < length bs"
  shows "pump_post bs k r (data_frame i False (take n (drop k bs)) # fs) s'"
proof -
  define X where "X = data_frame i False (take n (drop k bs)) # fs"
  have len: "length (data_of X) = n + length (data_of fs)" using assms(2) by (simp add: X_def data_frame_def)
  have "data_of fs = take (length (data_of fs)) (drop (k + n) bs)" using assms(1) by (simp add: pump_post_def)
  then have "data_of X = take (n + length (data_of fs)) (drop k bs)"
    by (simp add: X_def data_frame_def take_add add.commute)
  then have pre: "data_of X = take (length (data_of X)) (drop k bs)" unfolding len .
  have "fs \<noteq> []" if "pending_body s' = None" "\<not> isl r"
    using that assms by (auto simp: pump_post_def)
  then have "map flags X = replicate (length X - 1) 0 @ [FLAG_END_STREAM]"
    if "pending_body s' = None" "\<not> isl r"
    using that assms(1) by (cases fs) (auto simp: pump_post_def X_def data_frame_def)
  moreover have "map flags X = replicate (length X) 0" if "pending_body s' \<noteq> None" "\<not> isl r"
    using that assms(1) by (auto simp: pump_post_def X_def data_frame_def)
  ultimately show ?thesis
    using assms pre len unfolding X_def [symmetric] pump_post_def by (auto split: if_splits)
qed

lemma pump_stream_unfold:
  assumes "get_stream c i = Some s" "pending_body s = Some (bs, k)"
    and "n = next_data_chunk_size m (send_budget s (conn_sendw c)) (length (drop k bs))"
    and "e = (n = length (drop k bs))" "send_chunk c i s n e (take n (drop k bs)) = (c1, s1)"
  shows "pump_stream m c i w =
     (if drop k bs = [] then (put_stream c i (s\<lparr>pending_body := None\<rparr>), Ok w)
      else if n = 0 then (c, Ok w)
      else case send_data (sstate s1) e of
          Inl x \<Rightarrow> (c1, Err x)
        | Inr st \<Rightarrow>
            if e then (put_stream c1 i (s1\<lparr>sstate := st, pending_body := None\<rparr>), Ok True)
            else pump_stream m (put_stream c1 i (s1\<lparr>sstate := st, pending_body := Some (bs, k + n)\<rparr>)) i True)"
  unfolding pump_stream.simps [of m c i w] assms(1,2) option.case prod.case Let_def assms(3,4) [symmetric] assms(5)
  by (rule refl)

lemma pump_stream_spec:
  assumes "pump_stream m c i w = (c', r)" "get_stream c i = Some s" "pending_body s = Some (bs, k)" "k \<le> length bs"
  shows "\<exists>fs s'. wrote_data m i c s fs c' s' \<and> pump_post bs k r fs s'"
  using assms
proof (induction m c i w arbitrary: s k rule: pump_stream.induct)
  case (1 m c i w)
  define rest where "rest = drop k bs"
  define n where "n = next_data_chunk_size m (send_budget s (conn_sendw c)) (length rest)"
  define e where "e = (n = length rest)"
  obtain c1 s1 where c1: "send_chunk c i s n e (take n rest) = (c1, s1)" by fastforce
  note u = pump_stream_unfold [OF "1.prems"(2,3) n_def [unfolded rest_def] e_def [unfolded rest_def] c1 [unfolded rest_def],
      folded rest_def]
  note refl0 = wrote_data_refl [OF "1.prems"(2)]
  consider "rest = []" | "rest \<noteq> []" "n = 0" | "rest \<noteq> []" "n \<noteq> 0" by blast
  then show ?case
  proof cases
    case 1
    with "1.prems" have "c' = put_stream c i (s\<lparr>pending_body := None\<rparr>)" "r = Ok w" "k = length bs" by (auto simp: u rest_def)
    then have "wrote_data m i c s [] c' (s\<lparr>pending_body := None\<rparr>)" "pump_post bs k r [] (s\<lparr>pending_body := None\<rparr>)"
      using wrote_data_update [OF refl0] by (simp_all add: pump_post_def)
    then show ?thesis by blast
  next
    case 2
    with "1.prems" refl0 have "wrote_data m i c s [] c' s" "pump_post bs k r [] s"
      by (auto simp: u rest_def pump_post_def)
    then show ?thesis by blast
  next
    case 3
    define d where "d = data_frame i e (take n rest)"
    from send_chunk_wrote [OF "1.prems"(2) n_def 3(2) c1]
    have w1: "wrote_data m i c s [d] c1 s1" and nl: "n \<le> length rest" by (auto simp: d_def)
    have dpl: "data_of [d] = take (length (data_of [d])) (drop k bs)" "length (data_of [d]) = n"
      using nl by (simp_all add: d_def data_frame_def rest_def)
    show ?thesis
    proof (cases "send_data (sstate s1) e")
      case (Inl x)
      with "1.prems"(1) 3 w1 dpl have "wrote_data m i c s [d] c' s1" "pump_post bs k r [d] s1"
        by (auto simp: u pump_post_def)
      then show ?thesis by blast
    next
      case (Inr st)
      define s2 where "s2 = s1\<lparr>sstate := st, pending_body := if e then None else Some (bs, k + n)\<rparr>"
      have w2: "wrote_data m i c s [d] (put_stream c1 i s2) s2"
        by (rule wrote_data_update [OF w1]) (simp add: s2_def)
      show ?thesis
      proof (cases e)
        case True
        then have kn: "k + n = length bs" using "1.prems"(4) by (simp add: e_def rest_def)
        from True "1.prems"(1) 3 Inr have c': "c' = put_stream c1 i s2" "r = Ok True" by (auto simp: u s2_def)
        from kn True have "pump_post bs k r [d] s2"
          unfolding pump_post_def dpl(2) using dpl(1) by (simp add: s2_def d_def data_frame_def rest_def)
        with w2 c'(1) show ?thesis by blast
      next
        case False
        have lt: "k + n < length bs" using False nl by (simp add: e_def rest_def)
        have run: "pump_stream m (put_stream c1 i s2) i True = (c', r)"
          using "1.prems"(1) 3 Inr False by (simp add: u s2_def)
        obtain fs s' where fs: "wrote_data m i (put_stream c1 i s2) s2 fs c' s'" "pump_post bs (k + n) r fs s'"
          using "1.IH" [OF "1.prems"(2,3) refl rest_def 3(1) n_def 3(2) e_def c1 [symmetric] refl Inr False,
              of s2 "k + n"] run lt False by (auto simp: s2_def)
        with wrote_data_trans [OF w2 fs(1)] pump_post_step [OF fs(2) lt, of i] False show ?thesis
          by (auto simp: d_def rest_def)
      qed
    qed
  qed
qed

section \<open>The sender keeps the connection invariant\<close>

lemma stream_inv_send:
  assumes "stream_inv None ex i s" "send_data (sstate s) e = Ok st"
  shows "stream_inv None ex i (s\<lparr>send_window := ssw_consume (send_window s) n, sstate := st, pending_body := p\<rparr>)"
proof -
  have "sstate s \<noteq> Closed" "end_stream_recv s \<Longrightarrow> st = HalfClosedRemote \<or> st = Closed"
    using assms by (auto simp: stream_inv_def stream_bounds_def send_data_def split: stream_state.splits if_splits)
  then show ?thesis
    using assms by (auto simp: stream_inv_def stream_bounds_def stream_settled_def ssw_consume_def)
qed

lemma conn_inv_send_window: "conn_inv X c \<Longrightarrow> conn_inv X (c\<lparr>conn_sendw := csw_consume (conn_sendw c) n\<rparr>)"
  by (auto simp: conn_inv_def csw_consume_def)

lemma send_chunk_inv:
  assumes inv: "conn_inv None c" "get_stream c i = Some s" and ch: "send_chunk c i s n e chunk = (c1, s1)"
  shows "conn_inv None c1"
    and "send_data (sstate s1) e' = Ok st \<Longrightarrow> conn_inv None (put_stream c1 i (s1\<lparr>sstate := st, pending_body := p\<rparr>))"
proof -
  note si = conn_inv_stream [OF inv]
  define c0 where "c0 = (write_out c (data_frame i e chunk))\<lparr>conn_sendw := csw_consume (conn_sendw c) n\<rparr>"
  have c0: "conn_inv None c0" "expecting_continuation c0 = expecting_continuation c"
    using conn_inv_send_window [of None "write_out c (data_frame i e chunk)" n] inv(1) by (simp_all add: c0_def)
  have s1: "s1 = s\<lparr>send_window := ssw_consume (send_window s) n\<rparr>" "c1 = put_stream c0 i s1"
    using ch by (auto simp: send_chunk_def c0_def Let_def)
  have "stream_inv None (expecting_continuation c0) i s1"
    using si by (auto simp: s1 c0 stream_inv_def stream_bounds_def stream_settled_def ssw_consume_def)
  then show "conn_inv None c1" unfolding s1(2) by (rule conn_inv_put [OF c0(1)])
  show "conn_inv None (put_stream c1 i (s1\<lparr>sstate := st, pending_body := p\<rparr>))" if st: "send_data (sstate s1) e' = Ok st"
    unfolding s1(2) put_stream_put
    by (rule conn_inv_put [OF c0(1)]) (use stream_inv_send [OF si, where e = e' and st = st and n = n and p = p] st in \<open>simp add: s1(1) c0(2)\<close>)
qed

lemma pump_stream_inv: "conn_inv None c \<Longrightarrow> conn_inv None (fst (pump_stream m c i w))"
proof (induction m c i w rule: pump_stream.induct)
  case (1 m c i w)
  show ?case
  proof (cases "\<exists>s bs k. get_stream c i = Some s \<and> pending_body s = Some (bs, k)")
    case False
    with "1.prems" show ?thesis by (subst pump_stream.simps) (auto split: option.splits)
  next
    case True
    then obtain s bs k where s: "get_stream c i = Some s" "pending_body s = Some (bs, k)" by blast
    define n where "n = next_data_chunk_size m (send_budget s (conn_sendw c)) (length (drop k bs))"
    define e where "e = (n = length (drop k bs))"
    obtain c1 s1 where c1: "send_chunk c i s n e (take n (drop k bs)) = (c1, s1)" by fastforce
    note u = pump_stream_unfold [OF s n_def e_def c1]
    have "stream_inv None (expecting_continuation c) i (s\<lparr>pending_body := None\<rparr>)"
      using conn_inv_stream [OF "1.prems" s(1)] by (simp add: stream_inv_def stream_bounds_def stream_settled_def)
    with "1.prems" have a: "conn_inv None (put_stream c i (s\<lparr>pending_body := None\<rparr>))" by (rule conn_inv_put)
    note b = send_chunk_inv [OF "1.prems" s(1) c1]
    have d: "conn_inv None (fst (pump_stream m (put_stream c1 i (s1\<lparr>sstate := st, pending_body := Some (bs, k + n)\<rparr>)) i True))"
      if "drop k bs \<noteq> []" "n \<noteq> 0" "send_data (sstate s1) e = Ok st" "\<not> e" for st
      by (rule "1.IH" [OF s refl refl that(1) n_def that(2) e_def c1 [symmetric] refl that(3,4) b(2) [OF that(3)]])
    show ?thesis unfolding u using "1.prems" a b d by (auto split: sum.split)
  qed
qed

lemma pump_pending_sends_inv:
  assumes "conn_inv None c"
  shows "conn_inv None (fst (pump_pending_sends c))"
proof -
  have "conn_inv None (fst (pump_ids m c ids w))" for m ids w
    using assms
  proof (induction ids arbitrary: c w)
    case (Cons i ids)
    with pump_stream_inv [OF Cons.prems, of m i w] show ?case
      by (cases "pump_stream m c i w") (auto simp: step_bind_def split: sum.split)
  qed simp
  then show ?thesis by (simp add: pump_pending_sends_def)
qed

lemma write_all_simps [simp]:
  "get_stream (write_all c fs) i = get_stream c i" "conn_inv X (write_all c fs) = conn_inv X c"
  "expecting_continuation (write_all c fs) = expecting_continuation c" "tls_out (write_all c fs) = tls_out c @ fs"
  "cencoder (write_all c fs) = cencoder c"
  by (induction fs arbitrary: c) (simp_all add: write_all_def)

lemma send_priority_hint_simps [simp]:
  "get_stream (send_priority_hint c i p) j = get_stream c j" "conn_inv X (send_priority_hint c i p) = conn_inv X c"
  "expecting_continuation (send_priority_hint c i p) = expecting_continuation c"
  "cencoder (send_priority_hint c i p) = cencoder c"
  by (auto simp: send_priority_hint_def split: option.split)

lemma open_stream_inv:
  assumes "conn_inv None c" "open_stream c = (c', r)"
  shows "conn_inv None c'" "r = Ok i \<Longrightarrow> \<exists>s. get_stream c' i = Some s \<and> sstate s = Idle"
proof -
  have w: "uint (initial_window_size (peer c)) \<le> WINDOW_MAX"
    using assms(1) by (simp add: conn_inv_def peer_settings_ok_def word_le_def)
  then have "stream_inv None (expecting_continuation c) j (stream_new j (uint (initial_window_size (peer c))) (our_recv_window c))" for j
    using assms(1) by (simp add: conn_inv_def stream_inv_def stream_bounds_def stream_settled_def stream_new_def
        stream_send_window_new_def stream_recv_window_new_def)
  then have "conn_inv None (put_stream (c\<lparr>next_stream_id := k\<rparr>) j
      (stream_new j (uint (initial_window_size (peer c))) (our_recv_window c)))" for j k
    using assms(1) by (intro conn_inv_put) simp_all
  with assms show "conn_inv None c'" by (auto simp: open_stream_def Let_def split: if_splits)
  assume "r = Ok i"
  with assms(2) show "\<exists>s. get_stream c' i = Some s \<and> sstate s = Idle"
    by (auto simp: open_stream_def Let_def stream_new_def split: if_splits)
qed

lemma write_request_headers_inv:
  assumes inv: "conn_inv None c" and s: "get_stream c i = Some s" "sstate s = Idle"
  shows "conn_inv None (fst (write_request_headers c i req))"
proof -
  obtain e hb where eh: "build_header_block (cencoder c) req = (e, hb)" by fastforce
  define c3 where "c3 = write_all ((send_priority_hint c i (rq_priority req))\<lparr>cencoder := e\<rparr>)
      (fragment_header_block i hb (send_frame_limit ((send_priority_hint c i (rq_priority req))\<lparr>cencoder := e\<rparr>)) (\<not> rq_body req \<noteq> []))"
  have c3: "conn_inv None c3" "get_stream c3 i = Some s" "expecting_continuation c3 = expecting_continuation c"
    using inv s by (simp_all add: c3_def)
  note si = conn_inv_stream [OF inv s(1)]
  have "stream_inv None (expecting_continuation c3) i (s\<lparr>sstate := st, head_request := h\<rparr>)"
    if "send_data (sstate s) b = Ok st" for st b h
    using si that s(2) by (auto simp: c3(3) stream_inv_def stream_bounds_def stream_settled_def)
  moreover have "write_request_headers c i req = lift_res c3 (send_data (sstate s) (\<not> rq_body req \<noteq> [])) (\<lambda>st.
      (put_stream c3 i (s\<lparr>sstate := st, head_request := eq_ignore_ascii_case (effective_method req) ''HEAD''\<rparr>),
       Ok (rq_body req \<noteq> [])))"
    unfolding write_request_headers_def Let_def send_priority_hint_simps(4) eh prod.case c3_def [symmetric]
      c3(2) option.case by (rule refl)
  ultimately show ?thesis using conn_inv_put [OF c3(1)] c3(1) by (auto simp: lift_res_def split: sum.split)
qed

lemma stage_request_on_inv:
  assumes inv: "conn_inv None c" and s: "get_stream c i = Some s" "sstate s = Idle"
  shows "conn_inv None (fst (stage_request_on c i req))"
proof -
  obtain c1 r where c1: "write_request_headers c i req = (c1, r)" by fastforce
  have inv1: "conn_inv None c1" using write_request_headers_inv [OF assms, of req] c1 by simp
  have "conn_inv None (put_stream c1 i (t\<lparr>pending_body := p\<rparr>))" if "get_stream c1 i = Some t" for t p
    using conn_inv_stream [OF inv1 that]
    by (intro conn_inv_put [OF inv1]) (simp add: stream_inv_def stream_bounds_def stream_settled_def)
  with inv1 show ?thesis by (auto simp: stage_request_on_def c1 step_bind_def split: sum.split option.split)
qed

definition remove_stream :: "connection \<Rightarrow> u32 \<Rightarrow> connection" where
  "remove_stream c i = c\<lparr>streams := filter (\<lambda>(j, _). j \<noteq> i) (streams c)\<rparr>"

lemma map_of_filter_distinct:
  assumes "distinct (map fst xs)"
  shows "map_of (filter P xs) k = Some v \<longleftrightarrow> map_of xs k = Some v \<and> P (k, v)"
proof -
  have "distinct (map fst (filter P xs))" using assms by (induction xs) auto
  then show ?thesis using assms by (simp add: map_of_eq_Some_iff)
qed

lemma conn_inv_filter:
  assumes "conn_inv X c"
  shows "conn_inv X (c\<lparr>streams := filter P (streams c)\<rparr>)"
proof -
  have "distinct (map fst (streams c))" using assms by (simp add: conn_inv_def)
  then have "distinct (map fst (filter P (streams c)))" by (induction "streams c") (auto simp: distinct_map_filter)
  with assms map_of_filter_distinct [of "streams c" P] show ?thesis by (auto simp: conn_inv_def)
qed

lemma conn_inv_remove_failed: "conn_inv (Some i) c \<Longrightarrow> conn_inv None (remove_stream c i)"
proof (rule conn_inv_settle)
  assume inv: "conn_inv (Some i) c"
  then show "conn_inv (Some i) (remove_stream c i)" unfolding remove_stream_def by (rule conn_inv_filter)
  fix s assume "get_stream (remove_stream c i) i = Some s"
  with inv show "stream_settled (expecting_continuation (remove_stream c i)) i s"
    by (auto simp: remove_stream_def conn_inv_def map_of_filter_distinct)
qed

lemma connection_new_inv: "conn_inv None (connection_new w)"
proof -
  have "uint (clamp w 65535 0x7fffffff) \<le> WINDOW_MAX" by (simp add: clamp_def word_less_def)
  then show ?thesis
    by (simp add: connection_new_def Let_def conn_inv_def peer_settings_default_def peer_settings_ok_def
        conn_send_window_new_def conn_recv_window_new_def decoder_new_def dec_table.inv_def)
qed

section \<open>Reachable connections\<close>

text \<open>
  What the drivers do with a connection: open a stream and stage a request, pump bodies, apply
  an inbound frame, take a finished stream out, prune; after a frame that failed the
  connection goes on (in the multiplexing driver) only without the stream of that frame.
\<close>

inductive h2_reach :: "connection \<Rightarrow> bool" where
  new: "h2_reach (connection_new w)"
| request: "h2_reach c \<Longrightarrow> open_stream c = (c1, Ok i) \<Longrightarrow> h2_reach (fst (stage_request_on c1 i req))"
| pump: "h2_reach c \<Longrightarrow> h2_reach (fst (pump_pending_sends c))"
| frame: "h2_reach c \<Longrightarrow> process_frame c f snk = (c', Ok out) \<Longrightarrow> h2_reach c'"
| failed: "h2_reach c \<Longrightarrow> process_frame c f snk = (c', Err e) \<Longrightarrow> h2_reach (remove_stream c' (stream_id f))"
| take: "h2_reach c \<Longrightarrow> h2_reach (remove_stream c i)"
| prune: "h2_reach c \<Longrightarrow> h2_reach (prune_completed_streams c)"

inductive_cases h2_reachE: "h2_reach c"

lemma h2_reach_inv: "h2_reach c \<Longrightarrow> conn_inv None c"
proof (induction rule: h2_reach.induct)
  case (request c c1 i req)
  from open_stream_inv [OF request.IH request.hyps(2)] stage_request_on_inv show ?case by blast
next
  case (frame c f snk c' out)
  with process_frame_inv [of c f snk] show ?case by (simp add: inv_after_def)
next
  case (failed c f snk c' e)
  with process_frame_inv [of c f snk] show ?case by (simp add: inv_after_def conn_inv_remove_failed)
qed (auto simp: connection_new_inv pump_pending_sends_inv remove_stream_def prune_completed_streams_def intro: conn_inv_filter)

end
