(* ===== verification/H2_Props.thy ===== *)
theory H2_Props
  imports H2_Send
begin

text \<open>
  The properties of the HTTP/2 connection: what a reachable connection guarantees, when a
  response is handed to the caller, the stream life cycle, GOAWAY, and what the body pump writes.
\<close>

section \<open>Frames advance streams\<close>

text \<open>No frame removes a stream or moves its state down; the set of streams is unchanged.\<close>

definition advances :: "connection \<Rightarrow> connection \<Rightarrow> bool" where
  "advances c c' \<longleftrightarrow> map fst (streams c') = map fst (streams c) \<and> next_stream_id c' = next_stream_id c \<and>
     (\<forall>i s. get_stream c i = Some s \<longrightarrow> (\<exists>s'. get_stream c' i = Some s' \<and> sstate s \<le> sstate s')) \<and>
     (\<forall>l. goaway_received c = Some l \<longrightarrow> (\<exists>l'. goaway_received c' = Some l' \<and> l' \<le> l))"

lemma advances_refl [simp]: "advances c c"
  by (simp add: advances_def)

lemma advances_trans: "advances a b \<Longrightarrow> advances b c \<Longrightarrow> advances a c"
  unfolding advances_def by (fastforce intro: order_trans)

lemma advances_frame [simp]:
  "advances a (write_out c f) = advances a c" "advances a (c\<lparr>sunk := u\<rparr>) = advances a c"
  "advances a (c\<lparr>budget := b\<rparr>) = advances a c" "advances a (c\<lparr>made_progress := m\<rparr>) = advances a c"
  "advances a (c\<lparr>cencoder := e\<rparr>) = advances a c" "advances a (c\<lparr>cdecoder := d\<rparr>) = advances a c"
  "advances a (c\<lparr>expecting_continuation := x\<rparr>) = advances a c" "advances a (c\<lparr>conn_sendw := sw\<rparr>) = advances a c"
  "advances a (c\<lparr>conn_recvw := rw\<rparr>) = advances a c" "advances a (c\<lparr>peer := p\<rparr>) = advances a c"
  by (simp_all add: advances_def)

lemma map_fst_put_stream:
  "get_stream c i = Some s \<Longrightarrow> map fst (streams (put_stream c i s')) = map fst (streams c)"
  by (auto simp: put_stream_def update_keys dest: map_of_SomeD intro!: image_eqI [of _ fst])

lemma advances_put:
  assumes "advances a c" "get_stream c i = Some s" "sstate s \<le> sstate s'"
  shows "advances a (put_stream c i s')"
proof (rule advances_trans [OF assms(1)])
  show "advances c (put_stream c i s')"
    using assms(2,3) map_fst_put_stream [OF assms(2), of s'] by (auto simp: advances_def)
qed

lemma top_state [simp]: "st \<le> Closed"
  by (simp add: less_eq_stream_state_def)

lemma stream_error_advances: "advances a c \<Longrightarrow> advances a (fst (stream_error c i m))"
  by (cases "get_stream c i") (auto simp: stream_error_def intro: advances_put)

lemma check_content_length_advances: "advances a c \<Longrightarrow> advances a (fst (check_content_length c i))"
  using check_content_length_cases [of c i] stream_error_advances [of a c] by auto

lemma complete_header_block_advances:
  assumes "advances a c"
  shows "advances a (fst (complete_header_block c i decoded))"
proof (cases "get_stream c i")
  case (Some s)
  have "advances a (put_stream c i (s\<lparr>interim_count := k\<rparr>))"
    "advances a (put_stream c i (s\<lparr>final_status := x, expected_len := y, response_headers := z\<rparr>))" for k x y z
    using assms Some by (auto intro: advances_put)
  then show ?thesis
    using Some assms stream_error_advances [where 'a = unit] check_content_length_advances
    by (auto simp: complete_header_block_def Let_def split: sum.split)
qed (use assms in \<open>simp add: complete_header_block_def\<close>)

lemma push_header_fragment_state:
  "push_header_fragment s frag = Ok s' \<Longrightarrow> sstate s' = sstate s \<and> discard_headers s' = discard_headers s"
  by (auto simp: push_header_fragment_def split: if_splits)

lemma advances_bind:
  assumes "advances a (fst m)" "\<And>x c. advances a c \<Longrightarrow> advances a (fst (f x c))"
  shows "advances a (fst (step_bind m f))"
proof (cases m)
  case (Pair c r)
  with assms show ?thesis by (cases r) auto
qed

lemma headers_on_live_advances:
  assumes a: "advances a c" "get_stream c i = Some s" "sstate s \<le> st"
  shows "advances a (fst (headers_on_live c i s frag eh es st))"
proof -
  have "advances a (put_stream c i t)" if "sstate t = sstate s \<or> sstate t = st" for t
    using a that by (auto intro: advances_put)
  then show ?thesis
    by (auto simp: headers_on_live_def Let_def lift_res_def decode_headers_eq push_header_fragment_state
        split: sum.split intro!: advances_bind complete_header_block_advances)
qed

lemma process_headers_advances:
  assumes "advances a c"
  shows "advances a (fst (process_headers c f))"
proof -
  have closed: "advances a (fst (headers_on_closed c i s frag eh))" if "get_stream c i = Some s" for i s frag eh
    using assms that by (auto simp: headers_on_closed_def lift_res_def decode_headers_eq push_header_fragment_state
        split: sum.split intro!: advances_bind advances_put)
  show ?thesis
    using assms closed headers_on_live_advances [OF assms] transition_mono(3)
    by (auto simp: process_headers_def lift_res_def Let_def split: sum.split option.split)
qed

lemma process_continuation_advances:
  assumes "advances a c"
  shows "advances a (fst (process_continuation c f))"
proof -
  have put: "advances a (put_stream c (stream_id f) t)" if "get_stream c (stream_id f) = Some s" "sstate t = sstate s" for s t
    using assms that by (auto intro: advances_put)
  show ?thesis
    using assms put
    by (auto simp: process_continuation_def lift_res_def Let_def decode_headers_eq push_header_fragment_state
        split: sum.split option.split intro!: advances_bind complete_header_block_advances)
qed

lemma write_conn_replenish_advances [simp]: "advances a (write_conn_replenish c) = advances a c"
  by (simp add: write_conn_replenish_def Let_def split: prod.split option.split)

lemma deliver_data_advances:
  assumes "advances a c" "get_stream c i = Some s" "sstate s \<le> st"
  shows "advances a (fst (deliver_data c i s st es pl snk))"
proof -
  have put: "advances a (put_stream c i t)" if "sstate t = st" for t using assms that by (auto intro: advances_put)
  have repl: "advances a (write_stream_replenish c' i t)" if "advances a c'" "get_stream c' i = Some t" for c' t
    using that by (auto simp: write_stream_replenish_def Let_def split: prod.split option.split intro: advances_put)
  show ?thesis
    unfolding deliver_data_def Let_def
    using assms(1) put repl
    by (auto split: option.split intro!: advances_bind check_content_length_advances)
qed

lemma process_data_advances:
  assumes "advances a c"
  shows "advances a (fst (process_data c f snk))"
proof -
  define c1 where "c1 = c\<lparr>conn_recvw := crw_consume (conn_recvw c) (length (payload f))\<rparr>"
  have a1: "advances a c1" using assms by (simp add: c1_def)
  have a2: "advances a (put_stream c1 i t)" if "get_stream c1 i = Some s" "sstate t = sstate s" for i s t
    using a1 that by (auto intro: advances_put)
  have "advances a (fst (deliver_data (put_stream c1 i t) i t st es pl snk))"
    if "get_stream c1 i = Some s" "sstate t = sstate s" "recv_data (sstate s) es = Ok st" for i s t es st pl
    using a2 [OF that(1,2)] that transition_mono(2) [OF that(3)] by (intro deliver_data_advances) auto
  then show ?thesis
    unfolding process_data_def Let_def c1_def [symmetric]
    using a1 a2 by (auto simp: lift_res_def split: option.split sum.split intro!: stream_error_advances)
qed

lemma process_rst_advances: "advances a c \<Longrightarrow> advances a (fst (process_rst c f))"
  by (auto simp: process_rst_def lift_res_def recv_rst_def Let_def split: option.split sum.split stream_state.split
      intro: advances_put)

lemma process_settings_advances:
  assumes "advances a c"
  shows "advances a (fst (process_settings c f))"
proof -
  have "advances a (c\<lparr>peer := p, streams := ss\<rparr>)" if "shift_windows n (streams c) = (ss, r)" for p n ss r
  proof -
    have "advances c (c\<lparr>peer := p, streams := ss\<rparr>)"
      unfolding advances_def
    proof (intro conjI allI impI)
      fix i s assume s: "get_stream c i = Some s"
      have k: "map fst ss = map fst (streams c)" using shift_windows_spec [OF that] by simp
      then have "dom (map_of ss) = dom (map_of (streams c))" by (simp add: dom_map_of_conv_image_fst flip: set_map)
      with s obtain s' where s': "map_of ss i = Some s'" by blast
      with shift_windows_spec [OF that] s have "sstate s' = sstate s" by fastforce
      with s' show "\<exists>s'. get_stream (c\<lparr>peer := p, streams := ss\<rparr>) i = Some s' \<and> sstate s \<le> sstate s'" by simp
    qed (use shift_windows_spec [OF that] in auto)
    with assms show ?thesis by (rule advances_trans)
  qed
  then show ?thesis
    using assms by (auto simp: process_settings_def Let_def lift_res_def split: sum.split prod.split)
qed

lemma process_goaway_advances: "advances a c \<Longrightarrow> advances a (fst (process_goaway c f))"
proof (rule advances_trans)
  define lst where "lst = (case goaway_received c of None \<Rightarrow> u32_from_be_bytes (take 4 (payload f)) AND 0x7fffffff
      | Some prev \<Rightarrow> min prev (u32_from_be_bytes (take 4 (payload f)) AND 0x7fffffff))"
  have m: "map_of (map (\<lambda>(i, s). (i, if i > lst then s\<lparr>sstate := Closed\<rparr> else s)) ss) i =
      map_option (\<lambda>s. if i > lst then s\<lparr>sstate := Closed\<rparr> else s) (map_of ss i)" for ss :: "(u32 \<times> stream) list" and i
    by (induction ss) auto
  have k: "map fst (map (\<lambda>(i, s). (i, if i > lst then s\<lparr>sstate := Closed\<rparr> else s)) ss) = map fst ss"
    for ss :: "(u32 \<times> stream) list"
    by (induction ss) auto
  have "\<exists>l'. lst = l' \<and> l' \<le> l" if "goaway_received c = Some l" for l using that by (simp add: lst_def)
  then show "advances c (fst (process_goaway c f))"
    unfolding process_goaway_def Let_def lst_def [symmetric] advances_def
    by (auto simp: m k simp del: map_map)
qed

lemma dispatch_advances: "advances c (fst (dispatch c f snk))"
proof -
  have wu: "advances c (put_stream c i (s\<lparr>send_window := w\<rparr>))" if "get_stream c i = Some s" for i s w
    using that by (auto intro: advances_put)
  show ?thesis
    using process_headers_advances [of c c] process_continuation_advances [of c c] process_data_advances [of c c]
      process_rst_advances [of c c] process_settings_advances [of c c] process_goaway_advances [of c c] wu
    by (auto simp: dispatch_def process_conn_frame_def process_stream_frame_def lift_res_def Let_def
        split: sum.split option.split)
qed

lemma process_frame_advances: "advances c (fst (process_frame c f snk))"
proof (cases "gate_open c f")
  case True
  obtain b r where b: "record_control_frame (budget c) (ftyp f) (flags f) = (b, r)" by fastforce
  have a: "advances c (fst (dispatch (c\<lparr>budget := b, made_progress := False\<rparr>) f snk))"
    by (rule advances_trans [OF _ dispatch_advances]) simp
  show ?thesis
    unfolding process_frame_open [OF True b]
    using a by (auto simp: lift_res_def split: sum.split prod.split intro!: advances_bind)
qed (simp add: process_frame_gated)

section \<open>The sender advances streams\<close>

lemma pump_stream_advances: "advances a c \<Longrightarrow> advances a (fst (pump_stream m c i w))"
proof (induction m c i w rule: pump_stream.induct)
  case (1 m c i w)
  show ?case
  proof (cases "\<exists>s bs k. get_stream c i = Some s \<and> pending_body s = Some (bs, k)")
    case False
    with "1.prems" show ?thesis by (subst pump_stream.simps) (auto split: option.splits)
  next
    case True
    then obtain s bs k where s: "get_stream c i = Some s" "pending_body s = Some (bs, k)" by blast
    define n where "n = next_data_chunk_size m (send_budget s (conn_sendw c)) (length (drop k bs))"
    define e where "e = (n = length (drop k bs))"
    obtain c1 s1 where c1: "send_chunk c i s n e (take n (drop k bs)) = (c1, s1)" by fastforce
    have s1: "sstate s1 = sstate s" "get_stream c1 i = Some s1" using c1 by (auto simp: send_chunk_def Let_def)
    have p: "advances a (put_stream c i (s\<lparr>pending_body := None\<rparr>))" using "1.prems" s(1) by (auto intro: advances_put)
    have a1: "advances a c1"
      using c1 "1.prems" s(1) by (auto simp: send_chunk_def Let_def intro!: advances_put [where i = i and s = s])
    have a2: "advances a (put_stream c1 i (s1\<lparr>sstate := st, pending_body := x\<rparr>))" if "send_data (sstate s1) e = Ok st" for st x
      using a1 s1 transition_mono(1) [OF that] by (auto intro: advances_put)
    have d: "advances a (fst (pump_stream m (put_stream c1 i (s1\<lparr>sstate := st, pending_body := Some (bs, k + n)\<rparr>)) i True))"
      if "drop k bs \<noteq> []" "n \<noteq> 0" "send_data (sstate s1) e = Ok st" "\<not> e" for st
      by (rule "1.IH" [OF s refl refl that(1) n_def that(2) e_def c1 [symmetric] refl that(3,4) a2 [OF that(3)]])
    show ?thesis
      unfolding pump_stream_unfold [OF s n_def e_def c1] using "1.prems" p a1 a2 d by (auto split: sum.split)
  qed
qed

lemma pump_pending_sends_advances: "advances c (fst (pump_pending_sends c))"
proof -
  have "advances a (fst (pump_ids m c ids w))" if "advances a c" for a m ids w c
    using that by (induction ids arbitrary: c w) (auto intro!: advances_bind pump_stream_advances)
  then show ?thesis by (simp add: pump_pending_sends_def)
qed

lemma write_all_advances [simp]: "advances a (write_all c fs) = advances a c"
  by (induction fs arbitrary: c) (simp_all add: write_all_def)

lemma send_priority_hint_advances [simp]: "advances a (send_priority_hint c i p) = advances a c"
  by (simp add: send_priority_hint_def split: option.split)

lemma stage_request_on_advances: "advances c (fst (stage_request_on c i req))"
proof -
  have w: "advances c (fst (write_request_headers c i req))"
    by (auto simp: write_request_headers_def lift_res_def Let_def split: prod.split option.split sum.split
        intro!: advances_put dest: transition_mono(1))
  show ?thesis
    unfolding stage_request_on_def using w
    by (auto intro!: advances_bind advances_put split: option.split)
qed

section \<open>Stream identifiers\<close>

definition ids_ok :: "connection \<Rightarrow> bool" where
  "ids_ok c \<longleftrightarrow> odd (unat (next_stream_id c)) \<and> next_stream_id c \<le> 0x80000001 \<and>
     (\<forall>i\<in>set (map fst (streams c)). odd (unat i) \<and> i < next_stream_id c)"

lemma ids_ok_advances: "ids_ok c \<Longrightarrow> advances c c' \<Longrightarrow> ids_ok c'"
  by (simp add: ids_ok_def advances_def)

lemma ids_ok_filter: "ids_ok c \<Longrightarrow> ids_ok (c\<lparr>streams := filter P (streams c)\<rparr>)"
  by (auto simp: ids_ok_def)

lemma open_stream_OkD:
  assumes "open_stream c = (c', Ok i)"
  shows "i = next_stream_id c \<and> i < 0x80000000 \<and> next_stream_id c' = i + 2 \<and>
    length (streams c) < unat (max_concurrent_streams (peer c)) \<and>
    (\<forall>l. goaway_received c = Some l \<longrightarrow> i \<le> l) \<and> map fst (streams c') = map fst (AList.update i (the (get_stream c' i)) (streams c))"
proof -
  have "saturating_add_u32 i 2 = i + 2" if "i < 0x80000000" for i
  proof -
    have "unat i < 0x80000000" using that by (simp add: word_less_nat_alt)
    then show ?thesis by (simp add: saturating_add_u32_def)
  qed
  with assms show ?thesis
    by (auto simp: open_stream_def Let_def put_stream_def update_conv' split: if_splits option.splits)
qed

lemma open_stream_ids_ok:
  assumes "ids_ok c" "open_stream c = (c', Ok i)"
  shows "ids_ok c'"
proof -
  note o = open_stream_OkD [OF assms(2)]
  have i: "unat i < 0x80000000" using o by (auto simp: word_less_nat_alt)
  have u: "unat (i + 2) = unat i + 2" using i by (subst unat_add_lem [THEN iffD1]) auto
  have "odd (unat i)" using assms(1) o by (simp add: ids_ok_def)
  moreover have "i + 2 \<le> 0x80000001"
  proof -
    have "unat i \<noteq> 0x7ffffffe" using \<open>odd (unat i)\<close> by auto
    then show ?thesis using i u by (simp add: word_le_nat_alt)
  qed
  moreover have "j < i + 2" if "j \<le> i" for j using that i u by (simp add: word_le_nat_alt word_less_nat_alt)
  moreover have "set (map fst (streams c')) = insert i (set (map fst (streams c)))"
  proof -
    from o have "map fst (streams c') = map fst (AList.update i (the (get_stream c' i)) (streams c))" by simp
    then have "set (map fst (streams c')) = set (map fst (AList.update i (the (get_stream c' i)) (streams c)))" by simp
    then show ?thesis by (simp add: dom_update)
  qed
  ultimately show ?thesis using assms(1) o u by (auto simp: ids_ok_def)
qed

lemma h2_reach_ids: "h2_reach c \<Longrightarrow> ids_ok c"
proof (induction rule: h2_reach.induct)
  case (request c c1 i req)
  from open_stream_ids_ok [OF request.IH request.hyps(2)] stage_request_on_advances show ?case by (rule ids_ok_advances)
next
  case (frame c f snk c' out)
  with process_frame_advances [of c f snk] ids_ok_advances show ?case by fastforce
next
  case (failed c f snk c' e)
  with process_frame_advances [of c f snk] ids_ok_advances [of c c'] show ?case by (simp add: remove_stream_def ids_ok_filter)
next
  case (pump c)
  with pump_pending_sends_advances ids_ok_advances show ?case by blast
qed (auto simp: connection_new_def ids_ok_def Let_def remove_stream_def prune_completed_streams_def)

section \<open>Handing out a response\<close>

text \<open>A step that reports \<open>Done i\<close> only when stream \<open>i\<close> has its final head and END_STREAM.\<close>

definition done_step :: "dispatch_outcome step \<Rightarrow> bool" where
  "done_step m \<longleftrightarrow> (\<forall>c i. m = (c, Ok (Done i)) \<longrightarrow>
     (\<exists>s. get_stream c i = Some s \<and> end_stream_recv s \<and> response_headers s \<noteq> None))"

lemma done_step_simps [simp]:
  "done_step (c, Err e)" "done_step (c, Ok Continue)" "done_step (stream_error c i m)"
  by (simp_all add: done_step_def stream_error_def Let_def)

lemma done_step_outcome [simp]: "done_step (c, Ok (outcome_for c i))"
  by (auto simp: done_step_def outcome_for_def response_complete_def split: option.splits if_splits)

lemma done_step_bind: "(\<And>x c. done_step (f x c)) \<Longrightarrow> done_step (step_bind m f)"
  by (cases m; cases "snd m") auto

lemma done_step_lift: "(\<And>x. done_step (f x)) \<Longrightarrow> done_step (lift_res c r f)"
  by (cases r) auto

lemma done_step_process_rst: "done_step (process_rst c f)"
proof (cases "get_stream c (stream_id f)")
  case (Some s)
  then show ?thesis
    by (auto simp: process_rst_def Let_def intro!: done_step_lift) (auto simp: done_step_def)
qed (simp add: process_rst_def Let_def)

lemma done_step_dispatch: "done_step (dispatch c f snk)"
proof -
  have live: "done_step (headers_on_live c i s frag eh es st)" for i s frag eh es st
    by (simp add: headers_on_live_def Let_def done_step_bind done_step_lift)
  have closed: "done_step (headers_on_closed c i s frag eh)" for i s frag eh
    by (simp add: headers_on_closed_def done_step_bind done_step_lift)
  have headers: "done_step (process_headers c f)"
    unfolding process_headers_def Let_def
    by (intro done_step_lift) (simp add: live closed done_step_lift split: option.split)
  have cont: "done_step (process_continuation c f)"
    by (simp add: process_continuation_def Let_def done_step_bind done_step_lift split: option.split)
  have deliver: "done_step (deliver_data c2 i s st es pl snk)" for c2 i s st es pl
    by (simp add: deliver_data_def Let_def done_step_bind)
  have data: "done_step (process_data c f snk)"
    by (simp add: process_data_def Let_def deliver done_step_lift split: option.split)
  have settings: "done_step (process_settings c f)"
    by (simp add: process_settings_def Let_def done_step_lift split: prod.split)
  have goaway: "done_step (process_goaway c f)" by (simp add: process_goaway_def Let_def)
  have conn: "done_step (process_conn_frame c f)"
    by (simp add: process_conn_frame_def Let_def settings goaway done_step_lift)
  have wu: "done_step (lift_res c r (\<lambda>inc. case get_stream c i of
      Some s \<Rightarrow> lift_res c (g s inc) (\<lambda>w. (h s w, Ok Continue)) | None \<Rightarrow> (c, Ok Continue)))" for r i g h
    by (rule done_step_lift) (simp add: done_step_lift split: option.split)
  have "done_step (process_stream_frame c f snk)"
    by (simp add: process_stream_frame_def headers cont data done_step_process_rst wu)
  with conn show ?thesis by (simp add: dispatch_def)
qed

section \<open>A concrete connection\<close>

text \<open>A connection with one GET request in flight, used by the witnesses.\<close>

definition demo_request :: request where
  "demo_request = \<lparr>rq_method = ''GET'', keep_method_case = False, rq_scheme = ''https'', rq_host = ''a'',
     rq_port = 443, rq_path = ''/'', rq_headers = [], strict_headers = True, rq_auth = None, rq_body = [],
     rq_priority = Normal\<rparr>"

definition demo_conn :: connection where
  "demo_conn = fst (stage_request_on (fst (open_stream (connection_new 65535))) 1 demo_request)"

definition demo_stream :: stream where
  "demo_stream = (stream_new 1 65535 65535)\<lparr>sstate := HalfClosedLocal\<rparr>"

lemma demo_open: "open_stream (connection_new 65535) =
    ((connection_new 65535)\<lparr>next_stream_id := 3, streams := [(1, stream_new 1 65535 65535)]\<rparr>, Ok 1)"
  by (simp add: open_stream_def connection_new_def peer_settings_default_def saturating_add_u32_def put_stream_def
      clamp_def Let_def word_le_nat_alt)

lemma demo_reach: "h2_reach demo_conn"
  unfolding demo_conn_def using h2_reach.request [OF h2_reach.new demo_open] demo_open by simp

lemma demo_fields:
  "\<exists>T E. demo_conn = \<lparr>tls_out = T, sunk = [], peer = peer_settings_default, conn_sendw = conn_send_window_new,
     conn_recvw = conn_recv_window_new 65535, our_recv_window = 65535, cdecoder = decoder_new, cencoder = E,
     streams = [(1, demo_stream)], next_stream_id = 3, goaway_received = None, expecting_continuation = None,
     budget = flood_budget_default, made_progress = False\<rparr>"
proof -
  have w: "\<exists>T. write_all c fs = c\<lparr>tls_out := T\<rparr>" for c fs
  proof (induction fs arbitrary: c)
    case (Cons f fs)
    obtain T where "write_all (write_out c f) fs = (write_out c f)\<lparr>tls_out := T\<rparr>" using Cons by blast
    then show ?case by (auto simp: write_all_def write_out_def)
  next
    case Nil
    have "c = c\<lparr>tls_out := tls_out c\<rparr>" by simp
    then show ?case unfolding write_all_def by (intro exI [of _ "tls_out c"]) simp
  qed
  define c0 where "c0 = (connection_new 65535)\<lparr>next_stream_id := 3, streams := [(1, stream_new 1 65535 65535)]\<rparr>"
  obtain E hb where eh: "build_header_block (cencoder c0) demo_request = (E, hb)" by fastforce
  obtain T where T: "write_all (c0\<lparr>cencoder := E\<rparr>)
      (fragment_header_block 1 hb (send_frame_limit (c0\<lparr>cencoder := E\<rparr>)) (\<not> rq_body demo_request \<noteq> [])) =
      c0\<lparr>cencoder := E, tls_out := T\<rparr>" using w by blast
  have "get_stream c0 1 = Some (stream_new 1 65535 65535)" by (simp add: c0_def)
  then have "demo_conn = put_stream (c0\<lparr>cencoder := E, tls_out := T\<rparr>) 1 demo_stream"
    unfolding demo_conn_def demo_open fst_conv c0_def [symmetric] stage_request_on_def write_request_headers_def Let_def
    using eh T by (simp add: send_priority_hint_def priority_weight_byte_def demo_request_def demo_stream_def
        stream_new_def send_data_def effective_method_def to_ascii_uppercase_def eq_ignore_ascii_case_def
        is_ascii_lowercase_def is_ascii_uppercase_def to_ascii_lowercase_char_def)
  then show ?thesis
    by (intro exI [of _ T] exI [of _ E]) (simp add: c0_def connection_new_def clamp_def put_stream_def Let_def)
qed

lemma demo_get: "get_stream demo_conn 1 = Some demo_stream"
proof -
  obtain T E where e: "demo_conn = \<lparr>tls_out = T, sunk = [], peer = peer_settings_default, conn_sendw = conn_send_window_new,
     conn_recvw = conn_recv_window_new 65535, our_recv_window = 65535, cdecoder = decoder_new, cencoder = E,
     streams = [(1, demo_stream)], next_stream_id = 3, goaway_received = None, expecting_continuation = None,
     budget = flood_budget_default, made_progress = False\<rparr>" using demo_fields by blast
  show ?thesis unfolding e by simp
qed

text \<open>Response heads for the demo stream: \<open>200\<close> without, and \<open>200\<close> with \<open>content-length: 5\<close>.\<close>

definition demo_head :: "byte \<Rightarrow> bytes \<Rightarrow> frame" where
  "demo_head fl pl = \<lparr>ftyp = F_HEADERS, flags = fl, stream_id = 1, payload = pl\<rparr>"

lemma demo_chars: "char_of (45 :: nat) = CHR ''-''" "char_of (53 :: nat) = CHR ''5''"
  by (simp_all add: char_of_def bit_0)

lemmas demo_octets = demo_chars header_octets_ok_def is_token_char_def as_bytes_def byte_of_char_def char_of_byte_def
  is_ascii_lowercase_def is_ascii_digit_def saturating_add_u64_def

lemmas demo_strings = eq_ignore_ascii_case_def to_ascii_lowercase_char_def is_ascii_uppercase_def
  strip_prefix_def starts_with_def parse_status_def parse_unsigned_def is_ascii_digit_def decimal_value_def
  digit_value_def is_connection_specific_header_def

lemma demo_decode_200: "decode_block decoder_new [0x88] = (decoder_new, Ok [('':status'', ''200'')])"
  by (simp add: decode_block_def decode_block_loop.simps decode_field_def decode_int_def d_lookup_def STATIC_TABLE_def
      decoder_new_def demo_octets)

lemma demo_validate_200: "validate_response_fields [('':status'', ''200'')] False = Ok \<lparr>rstatus = 200, rcontent_length = None\<rparr>"
  by (simp add: validate_response_fields_def demo_strings)

lemma demo_decode_200_5: "decode_block decoder_new [0x88, 0x0f, 0x0d, 0x01, 0x35] =
    (decoder_new, Ok [('':status'', ''200''), (''content-length'', ''5'')])"
  by (simp add: decode_block_def decode_block_loop.simps decode_field_def decode_int_def checked_add_u64_def
      read_literal_field_def read_string_def d_lookup_name_def d_lookup_def STATIC_TABLE_def from_utf8_def
      decoder_new_def demo_octets)

lemma demo_validate_200_5: "validate_response_fields [('':status'', ''200''), (''content-length'', ''5'')] False =
    Ok \<lparr>rstatus = 200, rcontent_length = Some 5\<rparr>"
  by (simp add: validate_response_fields_def demo_strings trim_def trim_start.simps trim_end.simps ws_front_def ws_back_def
      ws_char_def as_bytes_def byte_of_char_def)

lemma demo_process_headers:
  assumes c: "c = \<lparr>tls_out = T, sunk = [], peer = peer_settings_default, conn_sendw = conn_send_window_new,
     conn_recvw = conn_recv_window_new 65535, our_recv_window = 65535, cdecoder = decoder_new, cencoder = E,
     streams = [(1, demo_stream)], next_stream_id = 3, goaway_received = None, expecting_continuation = None,
     budget = flood_budget_default, made_progress = False\<rparr>"
  shows "\<exists>c' s. process_frame c (demo_head 5 [0x88]) None = (c', Ok (Done 1)) \<and> expecting_continuation c' = None"
    and "\<exists>c' c'' s. process_frame c (demo_head 4 [0x88, 0x0f, 0x0d, 0x01, 0x35]) None = (c', Ok Continue) \<and>
      process_frame c' (demo_head 1 [0x00]) None = (c'', Ok (Done 1)) \<and> get_stream c'' 1 = Some s \<and>
      expected_len s = Some 5 \<and> sbody s = [] \<and> streamed_len s = 0 \<and> \<not> length_ok s \<and>
      expecting_continuation c'' = Some 1 \<and> is_usable (remove_stream c'' 1)"
proof -
  note D = process_frame_def demo_head_def process_stream_frame_def process_headers_def headers_payload_def
    headers_on_live_def recv_headers_def demo_stream_def stream_new_def push_header_fragment_def saturating_add_u64_def
    decode_headers_def complete_header_block_def check_content_length_def outcome_for_def response_complete_def
    record_control_frame_def record_progress_def flood_budget_default_def put_stream_def Let_def
    demo_decode_200 demo_validate_200 demo_decode_200_5 demo_validate_200_5 is_usable_def remove_stream_def length_ok_def
  show "\<exists>c' s. process_frame c (demo_head 5 [0x88]) None = (c', Ok (Done 1)) \<and> expecting_continuation c' = None"
    unfolding c by (simp add: D)
  show "\<exists>c' c'' s. process_frame c (demo_head 4 [0x88, 0x0f, 0x0d, 0x01, 0x35]) None = (c', Ok Continue) \<and>
      process_frame c' (demo_head 1 [0x00]) None = (c'', Ok (Done 1)) \<and> get_stream c'' 1 = Some s \<and>
      expected_len s = Some 5 \<and> sbody s = [] \<and> streamed_len s = 0 \<and> \<not> length_ok s \<and>
      expecting_continuation c'' = Some 1 \<and> is_usable (remove_stream c'' 1)"
    unfolding c by (simp add: D)
qed

lemma demo_processed:
  "\<exists>c'. process_frame demo_conn (demo_head 5 [0x88]) None = (c', Ok (Done 1)) \<and> expecting_continuation c' = None"
  "\<exists>c' c'' s. process_frame demo_conn (demo_head 4 [0x88, 0x0f, 0x0d, 0x01, 0x35]) None = (c', Ok Continue) \<and>
      process_frame c' (demo_head 1 [0x00]) None = (c'', Ok (Done 1)) \<and> get_stream c'' 1 = Some s \<and>
      expected_len s = Some 5 \<and> sbody s = [] \<and> streamed_len s = 0 \<and> \<not> length_ok s \<and>
      expecting_continuation c'' = Some 1 \<and> is_usable (remove_stream c'' 1)"
proof -
  obtain T E where e: "demo_conn = \<lparr>tls_out = T, sunk = [], peer = peer_settings_default, conn_sendw = conn_send_window_new,
     conn_recvw = conn_recv_window_new 65535, our_recv_window = 65535, cdecoder = decoder_new, cencoder = E,
     streams = [(1, demo_stream)], next_stream_id = 3, goaway_received = None, expecting_continuation = None,
     budget = flood_budget_default, made_progress = False\<rparr>" using demo_fields by blast
  show "\<exists>c'. process_frame demo_conn (demo_head 5 [0x88]) None = (c', Ok (Done 1)) \<and> expecting_continuation c' = None"
    using demo_process_headers(1) [OF e] by simp
  show "\<exists>c' c'' s. process_frame demo_conn (demo_head 4 [0x88, 0x0f, 0x0d, 0x01, 0x35]) None = (c', Ok Continue) \<and>
      process_frame c' (demo_head 1 [0x00]) None = (c'', Ok (Done 1)) \<and> get_stream c'' 1 = Some s \<and>
      expected_len s = Some 5 \<and> sbody s = [] \<and> streamed_len s = 0 \<and> \<not> length_ok s \<and>
      expecting_continuation c'' = Some 1 \<and> is_usable (remove_stream c'' 1)"
    by (rule demo_process_headers(2) [OF e])
qed

section \<open>Properties\<close>

text \<open>
  (C3) Memory and windows of a hostile peer are bounded: on every reachable connection each
  stream's header accumulator is at most 256 KiB and its buffered body at most 256 MiB, a live
  stream has seen at most 32 interim responses, its send window is at most 2^31-1, its receive
  window lies between 0 and what was advertised, and the HPACK decoder table is within 4096 bytes.
\<close>

theorem h2_connection_bounds:
  assumes "h2_reach c" "get_stream c i = Some s"
  shows "length (headers_buf s) \<le> 262144 \<and> length (sbody s) \<le> 268435456 \<and>
    (sstate s \<noteq> Closed \<longrightarrow> interim_count s \<le> 32) \<and> ssw_available (send_window s) \<le> 2147483647 \<and>
    0 \<le> srw_available (recv_window s) \<and> srw_available (recv_window s) \<le> srw_initial (recv_window s) \<and>
    d_size (cdecoder c) \<le> 4096"
  using h2_reach_inv [OF assms(1)] conn_inv_stream [OF h2_reach_inv [OF assms(1)] assms(2)]
  by (auto simp: conn_inv_def stream_inv_def stream_bounds_def stream_settled_def dec_table.inv_def)

lemma h2_connection_bounds_witness:
  "h2_reach demo_conn \<and> get_stream demo_conn 1 = Some demo_stream \<and> d_size (cdecoder demo_conn) \<le> 4096"
  using h2_connection_bounds [OF demo_reach demo_get] demo_reach demo_get by simp

text \<open>
  (C4) A response handed to the caller is complete: when dispatching a frame reports \<open>Done i\<close>,
  stream \<open>i\<close> has its final response head and the peer's END_STREAM, and - unless a header block
  of that very stream is still open - the body received matches the declared
  \<open>content-length\<close> (HEAD, 204 and 304 excepted).
\<close>

theorem h2_done_response_complete:
  assumes "h2_reach c" "process_frame c f snk = (c', Ok (Done i))"
  shows "\<exists>s. get_stream c' i = Some s \<and> end_stream_recv s \<and> response_headers s \<noteq> None \<and> final_status s \<noteq> None \<and>
    (expecting_continuation c' \<noteq> Some i \<longrightarrow> length_ok s)"
proof -
  from process_frame_OkD [OF assms(2)] done_step_dispatch obtain s where
    s: "get_stream c' i = Some s" "end_stream_recv s" "response_headers s \<noteq> None"
    by (fastforce simp: done_step_def)
  have "h2_reach c'" using assms by (rule h2_reach.frame)
  from conn_inv_stream [OF h2_reach_inv [OF this] s(1)] s show ?thesis
    by (auto simp: stream_inv_def stream_bounds_def stream_settled_def)
qed

lemma h2_done_response_complete_witness:
  "\<exists>c' s. process_frame demo_conn (demo_head 5 [0x88]) None = (c', Ok (Done 1)) \<and>
     get_stream c' 1 = Some s \<and> end_stream_recv s \<and> length_ok s"
proof -
  obtain c' where r: "process_frame demo_conn (demo_head 5 [0x88]) None = (c', Ok (Done 1))"
    and ex: "expecting_continuation c' = None"
    using demo_processed(1) by blast
  from h2_done_response_complete [OF demo_reach r] r ex show ?thesis by auto
qed

text \<open>
  A response whose trailer section is split over HEADERS and CONTINUATION is handed out too
  early: there is a reachable connection and two frames - a head announcing five body bytes, then
  a trailer HEADERS frame with END_STREAM but without END_HEADERS - after which the dispatch
  reports the response as done although no body byte arrived and the trailer block is still open;
  without that stream the connection counts as reusable while it still waits for a CONTINUATION.
\<close>

theorem h2_fragmented_trailers_end_early:
  "\<exists>c f g c' c'' s. h2_reach c \<and> process_frame c f None = (c', Ok Continue) \<and>
     process_frame c' g None = (c'', Ok (Done 1)) \<and> get_stream c'' 1 = Some s \<and>
     expected_len s = Some 5 \<and> sbody s = [] \<and> streamed_len s = 0 \<and> \<not> length_ok s \<and>
     expecting_continuation c'' = Some 1 \<and> is_usable (remove_stream c'' 1)"
  using demo_reach demo_processed(2) by blast

text \<open>
  The stream life cycle only moves forward: no inbound frame, accepted or not, removes a
  stream or takes its state back (idle, open, half-closed, closed), and the boundary announced by
  GOAWAY can only be lowered.
\<close>

theorem h2_lifecycle_monotone:
  assumes "process_frame c f snk = (c', r)"
  shows "map fst (streams c') = map fst (streams c) \<and>
    (\<forall>i s. get_stream c i = Some s \<longrightarrow> (\<exists>s'. get_stream c' i = Some s' \<and> sstate s \<le> sstate s')) \<and>
    (\<forall>l. goaway_received c = Some l \<longrightarrow> (\<exists>l'. goaway_received c' = Some l' \<and> l' \<le> l))"
  using process_frame_advances [of c f snk] assms by (simp add: advances_def)

lemma h2_lifecycle_monotone_witness:
  "\<exists>c' r. process_frame demo_conn \<lparr>ftyp = 3, flags = 0, stream_id = 1, payload = [0, 0, 0, 7]\<rparr> None = (c', r) \<and>
     (\<exists>s'. get_stream c' 1 = Some s' \<and> HalfClosedLocal \<le> sstate s')"
proof -
  obtain c' r where r: "process_frame demo_conn \<lparr>ftyp = 3, flags = 0, stream_id = 1, payload = [0, 0, 0, 7]\<rparr> None = (c', r)"
    by fastforce
  have "sstate demo_stream = HalfClosedLocal" by (simp add: demo_stream_def)
  with h2_lifecycle_monotone [OF r] demo_get r show ?thesis by metis
qed

text \<open>
  A new stream gets a fresh identifier: on every reachable connection the id that
  \<open>open_stream\<close> allocates is odd, below 2^31, larger than every id in use, within the boundary of
  a GOAWAY, and opening it stays within the peer's concurrency limit.
\<close>

theorem h2_open_stream_fresh:
  assumes "h2_reach c" "open_stream c = (c', Ok i)"
  shows "odd (unat i) \<and> i < 0x80000000 \<and> (\<forall>j\<in>set (map fst (streams c)). j < i) \<and> get_stream c i = None \<and>
    (\<forall>l. goaway_received c = Some l \<longrightarrow> i \<le> l) \<and> length (streams c') \<le> unat (max_concurrent_streams (peer c))"
proof -
  note o = open_stream_OkD [OF assms(2)]
  have ids: "ids_ok c" by (rule h2_reach_ids [OF assms(1)])
  have lt: "\<forall>j\<in>set (map fst (streams c)). j < i" using ids o by (simp add: ids_ok_def)
  then have fresh: "i \<notin> fst ` set (streams c)" by auto
  then have "get_stream c i = None" by (simp add: map_of_eq_None_iff)
  moreover from o fresh have "map fst (streams c') = map fst (streams c) @ [i]" by (simp add: update_keys)
  then have "length (map fst (streams c')) = length (map fst (streams c) @ [i])" by (rule arg_cong)
  then have "length (streams c') = Suc (length (streams c))" by simp
  ultimately show ?thesis using o ids lt by (auto simp: ids_ok_def)
qed

lemma h2_open_stream_fresh_witness:
  "\<exists>c'. open_stream (connection_new 65535) = (c', Ok 1) \<and> odd (unat (1 :: u32))"
  using h2_open_stream_fresh [OF h2_reach.new demo_open] demo_open by blast

subsection \<open>The body pump\<close>

abbreviation (input) on_stream :: "u32 \<Rightarrow> frame list \<Rightarrow> frame list" where
  "on_stream i fs \<equiv> filter (\<lambda>f. stream_id f = i) fs"

definition available_for :: "connection \<Rightarrow> u32 \<Rightarrow> int" where
  "available_for c i = (case get_stream c i of Some s \<Rightarrow> ssw_available (send_window s) | None \<Rightarrow> 0)"

text \<open>What a number of DATA frames did to the windows of a connection.\<close>

definition billed :: "nat \<Rightarrow> connection \<Rightarrow> frame list \<Rightarrow> connection \<Rightarrow> bool" where
  "billed m c fs c' \<longleftrightarrow> tls_out c' = tls_out c @ fs \<and>
     list_all (\<lambda>f. ftyp f = F_DATA \<and> payload f \<noteq> [] \<and> length (payload f) \<le> m) fs \<and>
     csw_available (conn_sendw c') = csw_available (conn_sendw c) - int (length (data_of fs)) \<and>
     (fs \<noteq> [] \<longrightarrow> 0 \<le> csw_available (conn_sendw c')) \<and>
     (\<forall>i. available_for c' i = available_for c i - int (length (data_of (on_stream i fs))) \<and>
       (on_stream i fs \<noteq> [] \<longrightarrow> 0 \<le> available_for c' i))"

lemma billed_refl: "billed m c [] c"
  by (simp add: billed_def)

lemma billed_trans: "billed m a fs b \<Longrightarrow> billed m b gs c \<Longrightarrow> billed m a (fs @ gs) c"
proof -
  assume a: "billed m a fs b" "billed m b gs c"
  have "available_for c i = available_for a i - int (length (data_of (on_stream i (fs @ gs)))) \<and>
      (on_stream i (fs @ gs) \<noteq> [] \<longrightarrow> 0 \<le> available_for c i)" for i
    using a by (cases "on_stream i gs = []") (auto simp: billed_def)
  moreover from a have "csw_available (conn_sendw c) = csw_available (conn_sendw a) - int (length (data_of (fs @ gs))) \<and>
      (fs @ gs \<noteq> [] \<longrightarrow> 0 \<le> csw_available (conn_sendw c))"
    by (cases "gs = []") (auto simp: billed_def)
  moreover from a have "tls_out c = tls_out a @ (fs @ gs)" by (simp add: billed_def)
  moreover from a have "list_all (\<lambda>f. ftyp f = F_DATA \<and> payload f \<noteq> [] \<and> length (payload f) \<le> m) (fs @ gs)"
    by (simp add: billed_def)
  ultimately show ?thesis unfolding billed_def by blast
qed

lemma wrote_data_billed:
  assumes "wrote_data m i c s fs c' s'" "get_stream c i = Some s"
  shows "billed m c fs c'"
proof -
  have "on_stream j fs = (if j = i then fs else [])" for j
    using assms(1) by (auto simp: wrote_data_def filter_empty_conv intro: filter_True)
  with assms show ?thesis by (auto simp: billed_def wrote_data_def available_for_def list_all_iff split: option.split)
qed

lemma pump_stream_billed:
  assumes "pump_stream m c i w = (c', r)"
  shows "\<exists>fs. billed m c fs c'"
proof (cases "\<exists>s bs k. get_stream c i = Some s \<and> pending_body s = Some (bs, k)")
  case False
  then have "pump_stream m c i w = (c, Ok w)" by (subst pump_stream.simps) (auto split: option.splits)
  with assms billed_refl show ?thesis by auto
next
  case True
  then obtain s bs k where s: "get_stream c i = Some s" "pending_body s = Some (bs, k)" by blast
  show ?thesis
  proof (cases "k \<le> length bs")
    case True
    from pump_stream_spec [OF assms s this] obtain fs s' where "wrote_data m i c s fs c' s'" by blast
    with wrote_data_billed s(1) show ?thesis by blast
  next
    case False
    then have "c' = put_stream c i (s\<lparr>pending_body := None\<rparr>)"
      using assms s by (subst (asm) pump_stream.simps) (auto simp: Let_def)
    with s(1) show ?thesis by (intro exI [of _ "[]"]) (auto simp: billed_def available_for_def)
  qed
qed

lemma pump_ids_billed:
  assumes "pump_ids m c ids w = (c', r)"
  shows "\<exists>fs. billed m c fs c'"
  using assms
proof (induction ids arbitrary: c w)
  case (Cons i ids)
  obtain c1 r1 where c1: "pump_stream m c i w = (c1, r1)" by fastforce
  from pump_stream_billed [OF this] obtain fs where fs: "billed m c fs c1" by blast
  show ?case
  proof (cases r1)
    case (Inl e)
    with Cons.prems c1 fs show ?thesis by auto
  next
    case (Inr w1)
    with Cons.prems c1 have "pump_ids m c1 ids w1 = (c', r)" by simp
    from Cons.IH [OF this] obtain gs where "billed m c1 gs c'" by blast
    with fs billed_trans show ?thesis by blast
  qed
qed (auto intro: billed_refl)

text \<open>The pump never stops before the windows do.\<close>

lemma pump_stream_completes:
  assumes "get_stream c i = Some s" "pending_body s = Some (bs, k)" "k \<le> length bs" "0 < m"
    "sstate s \<noteq> HalfClosedLocal" "sstate s \<noteq> Closed" "int (length bs - k) \<le> send_budget s (conn_sendw c)"
  shows "\<exists>c' s' w'. pump_stream m c i w = (c', Ok w') \<and> get_stream c' i = Some s' \<and> pending_body s' = None"
  using assms
proof (induction m c i w arbitrary: s k rule: pump_stream.induct)
  case (1 m c i w)
  define rest where "rest = drop k bs"
  define n where "n = next_data_chunk_size m (send_budget s (conn_sendw c)) (length rest)"
  define e where "e = (n = length rest)"
  obtain c1 s1 where c1: "send_chunk c i s n e (take n rest) = (c1, s1)" by fastforce
  note u = pump_stream_unfold [OF "1.prems"(1,2) n_def [unfolded rest_def] e_def [unfolded rest_def] c1 [unfolded rest_def],
      folded rest_def]
  show ?case
  proof (cases "rest = []")
    case True
    then show ?thesis by (simp add: u)
  next
    case False
    then have n0: "n \<noteq> 0" using "1.prems"(4,7) by (auto simp: n_def next_data_chunk_size_def rest_def)
    from send_chunk_wrote [OF "1.prems"(1) n_def this c1]
    have w1: "wrote_data m i c s [data_frame i e (take n rest)] c1 s1" "n \<le> length rest" "sstate s1 = sstate s" by auto
    from w1(3) "1.prems"(5,6) obtain st where st: "send_data (sstate s1) e = Ok st" "e \<or> st \<noteq> HalfClosedLocal \<and> st \<noteq> Closed"
      by (cases "sstate s") (auto simp: send_data_def)
    define s2 where "s2 = s1\<lparr>sstate := st, pending_body := Some (bs, k + n)\<rparr>"
    show ?thesis
    proof (cases e)
      case True
      with st False n0 show ?thesis by (auto simp: u)
    next
      case False
      have "int (length bs - (k + n)) \<le> send_budget s2 (conn_sendw c1)"
        using w1(1,2) "1.prems"(3,7) by (simp add: s2_def send_budget_def wrote_data_def data_frame_def rest_def)
      then have "\<exists>c' s' w'. pump_stream m (put_stream c1 i s2) i True = (c', Ok w') \<and> get_stream c' i = Some s' \<and>
          pending_body s' = None"
        using "1.IH" [OF "1.prems"(1,2) refl rest_def \<open>rest \<noteq> []\<close> n_def n0 e_def c1 [symmetric] refl st(1) False, of s2 "k + n"]
          w1(2) st(2) False "1.prems"(3,4) by (simp add: s2_def rest_def)
      with False n0 st(1) \<open>rest \<noteq> []\<close> show ?thesis by (simp add: u s2_def)
    qed
  qed
qed

definition demo_upload :: connection where
  "demo_upload = put_stream (connection_new 65535) 1
     ((stream_new 1 65535 65535)\<lparr>sstate := Open, pending_body := Some ([1, 2, 3], 0)\<rparr>)"

text \<open>
  (C6) The pump respects flow control, on any connection and whatever bodies are staged: \<open>pump_pending_sends\<close> writes only
  non-empty DATA frames within the peer's maximum frame size, each byte is charged to the
  connection window and to the window of the frame's stream, and neither a window that was charged
  nor the connection window ends below zero.
\<close>

theorem pump_respects_windows:
  assumes "pump_pending_sends c = (c', r)"
  shows "\<exists>fs. tls_out c' = tls_out c @ fs \<and>
    list_all (\<lambda>f. ftyp f = F_DATA \<and> payload f \<noteq> [] \<and> length (payload f) \<le> send_frame_limit c) fs \<and>
    csw_available (conn_sendw c') = csw_available (conn_sendw c) - int (length (data_of fs)) \<and>
    (fs \<noteq> [] \<longrightarrow> 0 \<le> csw_available (conn_sendw c')) \<and>
    (\<forall>i. available_for c' i = available_for c i - int (length (data_of (on_stream i fs))) \<and>
      (on_stream i fs \<noteq> [] \<longrightarrow> 0 \<le> available_for c' i))"
  using pump_ids_billed [OF assms [unfolded pump_pending_sends_def]] unfolding billed_def .

lemma pump_respects_windows_witness:
  "\<exists>c' r fs. pump_pending_sends demo_upload = (c', r) \<and> tls_out c' = tls_out demo_upload @ fs \<and> data_of fs = [1, 2, 3] \<and>
     csw_available (conn_sendw c') = csw_available (conn_sendw demo_upload) - 3 \<and> 0 \<le> csw_available (conn_sendw c')"
proof -
  define s where "s = (stream_new 1 65535 65535)\<lparr>sstate := Open, pending_body := Some ([1, 2, 3], 0)\<rparr>"
  define m where "m = send_frame_limit demo_upload"
  have s: "get_stream demo_upload 1 = Some s" "pending_body s = Some ([1, 2, 3], 0)" "sstate s = Open" "0 < m"
    "int (length [1, 2, 3 :: byte]) \<le> send_budget s (conn_sendw demo_upload)" "streams demo_upload = [(1, s)]"
    by (simp_all add: demo_upload_def s_def m_def stream_new_def send_budget_def connection_new_def Let_def conn_send_window_new_def
        stream_send_window_new_def put_stream_def send_frame_limit_def peer_settings_default_def)
  obtain c' s' w' where p: "pump_stream m demo_upload 1 False = (c', Ok w')" "get_stream c' 1 = Some s'" "pending_body s' = None"
    using pump_stream_completes [OF s(1,2) _ s(4), of False] s(3,5) by auto
  from pump_stream_spec [OF p(1) s(1,2)] p obtain fs where fs: "wrote_data m 1 demo_upload s fs c' s'" "pump_post [1, 2, 3] 0 (Ok w') fs s'"
    by (auto simp: wrote_data_def)
  have d: "data_of fs = [1, 2, 3]" "tls_out c' = tls_out demo_upload @ fs" "fs \<noteq> []"
    using fs p(3) by (auto simp: pump_post_def wrote_data_def)
  have "pump_pending_sends demo_upload = (c', Ok w')"
    using p(1) s(2,6) by (simp add: pump_pending_sends_def m_def [symmetric])
  from pump_respects_windows [OF this] this d show ?thesis by auto
qed

text \<open>
  (C7) A body goes out completely, once and in order, as soon as flow control allows: if the rest
  of the staged body fits both windows and the stream may still send, the pump writes DATA
  frames whose payloads concatenate to exactly that rest, END_STREAM on the last frame and on
  no other, and nothing remains staged.
\<close>

theorem pump_delivers_body:
  assumes "get_stream c i = Some s" "pending_body s = Some (bs, k)" "k < length bs" "0 < m"
    and "sstate s \<noteq> HalfClosedLocal" "sstate s \<noteq> Closed" "int (length bs - k) \<le> send_budget s (conn_sendw c)"
  shows "\<exists>c' s' w' fs. pump_stream m c i w = (c', Ok w') \<and> get_stream c' i = Some s' \<and> pending_body s' = None \<and>
    tls_out c' = tls_out c @ fs \<and> list_all (\<lambda>f. ftyp f = F_DATA \<and> stream_id f = i \<and> length (payload f) \<le> m) fs \<and>
    data_of fs = drop k bs \<and> map flags fs = replicate (length fs - 1) 0 @ [FLAG_END_STREAM]"
proof -
  have k: "k \<le> length bs" using assms(3) by simp
  from pump_stream_completes [OF assms(1,2) k assms(4-)] obtain c' s' w' where
    r: "pump_stream m c i w = (c', Ok w')" "get_stream c' i = Some s'" "pending_body s' = None" by blast
  from pump_stream_spec [OF r(1) assms(1,2) k] r obtain fs where
    fs: "wrote_data m i c s fs c' s'" "pump_post bs k (Ok w') fs s'" by (auto simp: wrote_data_def)
  have len: "length (data_of fs) = length bs - k" using fs(2) r(3) assms(3) by (auto simp: pump_post_def)
  with assms(3) have "fs \<noteq> []" by auto
  moreover have "data_of fs = drop k bs" using fs(2) len by (simp add: pump_post_def)
  ultimately show ?thesis using r fs by (auto simp: wrote_data_def pump_post_def list_all_iff)
qed

lemma pump_delivers_body_witness:
  "\<exists>c' fs w'. pump_stream 2 demo_upload 1 False = (c', Ok w') \<and> data_of fs = [1, 2, 3] \<and>
     tls_out c' = tls_out demo_upload @ fs"
  using pump_delivers_body [of demo_upload 1 "(stream_new 1 65535 65535)\<lparr>sstate := Open, pending_body := Some ([1, 2, 3], 0)\<rparr>"
      "[1, 2, 3]" 0 2 False]
  by (fastforce simp: demo_upload_def stream_new_def send_budget_def connection_new_def Let_def conn_send_window_new_def
      stream_send_window_new_def)

end
