(* ===== verification/H2_Blocks.thy ===== *)
theory H2_Blocks
  imports H2_Props
begin

text \<open>
  Header blocks from end to end: how a response's block is put together from HEADERS and CONTINUATION
  frames, and what the block of a request is when it reaches the server.
\<close>

section \<open>Runs of frames\<close>

text \<open>The reading loop: apply frames until one finishes a response or fails.\<close>

fun process_frames :: "connection \<Rightarrow> frame list \<Rightarrow> sink \<Rightarrow> dispatch_outcome step" where
  "process_frames c [] snk = (c, Ok Continue)"
| "process_frames c (f # fs) snk =
     step_bind (process_frame c f snk) (\<lambda>out c'. if out = Continue then process_frames c' fs snk else (c', Ok out))"

section \<open>A block in pieces\<close>

text \<open>Two connections that differ at most in the flood counters.\<close>

definition same_but_budget :: "connection \<Rightarrow> connection \<Rightarrow> bool" where
  "same_but_budget c c' \<longleftrightarrow> c\<lparr>budget := budget c'\<rparr> = c'"

lemma complete_header_block_budget:
  "complete_header_block (c\<lparr>budget := b\<rparr>) i hs =
     (case complete_header_block c i hs of (c', r) \<Rightarrow> (c'\<lparr>budget := b\<rparr>, r))"
proof -
  have e: "stream_error (c\<lparr>budget := b\<rparr>) i m = (case stream_error c i m of (c', r) \<Rightarrow> (c'\<lparr>budget := b\<rparr>, r))" for c m
    by (simp add: stream_error_def put_stream_def write_out_def Let_def split: option.split)
  have l: "check_content_length (c\<lparr>budget := b\<rparr>) i = (case check_content_length c i of (c', r) \<Rightarrow> (c'\<lparr>budget := b\<rparr>, r))" for c
    by (simp add: check_content_length_def e Let_def split: option.split)
  have p: "put_stream (c\<lparr>budget := b\<rparr>) i s = (put_stream c i s)\<lparr>budget := b\<rparr>" for c s by (simp add: put_stream_def)
  show ?thesis by (simp add: complete_header_block_def e l p Let_def split: option.split sum.split)
qed

lemma complete_header_block_progress:
  "made_progress (fst (complete_header_block c i hs)) = made_progress c"
  "budget (fst (complete_header_block c i hs)) = budget c"
proof -
  have e: "made_progress (fst (stream_error c i m)) = made_progress c" "budget (fst (stream_error c i m)) = budget c" for c m
    by (simp_all add: stream_error_def write_out_def Let_def split: option.split)
  have l: "made_progress (fst (check_content_length c i)) = made_progress c" "budget (fst (check_content_length c i)) = budget c" for c
    by (simp_all add: check_content_length_def e Let_def split: option.split)
  show "made_progress (fst (complete_header_block c i hs)) = made_progress c" "budget (fst (complete_header_block c i hs)) = budget c"
    by (simp_all add: complete_header_block_def e l Let_def split: option.split sum.split)
qed

text \<open>The connection while the block of stream \<open>i\<close> is open: \<open>buf\<close> has arrived, \<open>n\<close> frames made no progress.\<close>

definition open_block :: "connection \<Rightarrow> u32 \<Rightarrow> stream \<Rightarrow> bytes \<Rightarrow> nat \<Rightarrow> connection" where
  "open_block c i s buf n = (put_stream c i (s\<lparr>headers_buf := buf\<rparr>))
     \<lparr>expecting_continuation := Some i, budget := (budget c)\<lparr>no_progress := n\<rparr>, made_progress := False\<rparr>"

text \<open>What the last frame of a block does with the whole block.\<close>

definition close_block :: "connection \<Rightarrow> u32 \<Rightarrow> stream \<Rightarrow> bytes \<Rightarrow> dispatch_outcome step" where
  "close_block c i s buf =
     step_bind (decode_headers ((put_stream c i (s\<lparr>headers_buf := []\<rparr>))
         \<lparr>expecting_continuation := None, made_progress := False\<rparr>) buf) (\<lambda>decoded c3.
       step_bind (complete_header_block (c3\<lparr>made_progress := True\<rparr>) i decoded) (\<lambda>_ c4.
         (c4\<lparr>budget := (budget c4)\<lparr>no_progress := 0\<rparr>\<rparr>, Ok (outcome_for c4 i))))"

text \<open>The end of \<open>process_frame\<close>: a frame that made progress clears the counter.\<close>

definition bill_progress :: "dispatch_outcome \<Rightarrow> connection \<Rightarrow> dispatch_outcome step" where
  "bill_progress = (\<lambda>out c3. case record_progress (budget c3) (made_progress c3 \<or> out \<noteq> Continue) of
     (b', r') \<Rightarrow> lift_res (c3\<lparr>budget := b'\<rparr>) r' (\<lambda>_. (c3\<lparr>budget := b'\<rparr>, Ok out)))"

lemma bill_progress_block:
  "step_bind (step_bind (decode_headers D block) (\<lambda>decoded c3. step_bind (complete_header_block (c3\<lparr>made_progress := True\<rparr>) i decoded)
     (\<lambda>_ c4. (c4, Ok (outcome_for c4 i))))) bill_progress =
   step_bind (decode_headers D block) (\<lambda>decoded c3. step_bind (complete_header_block (c3\<lparr>made_progress := True\<rparr>) i decoded)
     (\<lambda>_ c4. (c4\<lparr>budget := (budget c4)\<lparr>no_progress := 0\<rparr>\<rparr>, Ok (outcome_for c4 i))))"
proof -
  obtain c3 r where d: "decode_headers D block = (c3, r)" by fastforce
  show ?thesis
  proof (cases r)
    case (Inr hs)
    obtain c4 r4 where h: "complete_header_block (c3\<lparr>made_progress := True\<rparr>) i hs = (c4, r4)" by fastforce
    then have "made_progress c4" using complete_header_block_progress(1) [of "c3\<lparr>made_progress := True\<rparr>" i hs] by simp
    with d h Inr show ?thesis by (cases r4) (simp_all add: bill_progress_def record_progress_def)
  qed (simp add: d)
qed

text \<open>The stream after the HEADERS frame that opens its block.\<close>

definition opened :: "stream \<Rightarrow> bool \<Rightarrow> stream_state \<Rightarrow> stream" where
  "opened s es st = s\<lparr>rx_any := True, end_stream_recv := es \<or> end_stream_recv s, sstate := st\<rparr>"

lemma block_frame_unbilled [simp]:
  "record_control_frame b F_HEADERS fl = (b, Ok ())" "record_control_frame b F_CONTINUATION fl = (b, Ok ())"
  by (simp_all add: record_control_frame_def)

lemma fits: "a + n \<le> MAX_HEADERS_BUF \<Longrightarrow> \<not> saturating_add_u64 a n > MAX_HEADERS_BUF"
  by (simp add: saturating_add_u64_def)

lemma headers_first:
  assumes c: "expecting_continuation c = None" "i \<noteq> 0" "get_stream c i = Some s" "sstate s \<noteq> Closed" "headers_buf s = []"
    and f: "ftyp f = F_HEADERS" "stream_id f = i" "headers_payload f = Ok b0" "flags f AND FLAG_END_HEADERS = 0"
    and st: "recv_headers (sstate s) (flags f AND FLAG_END_STREAM \<noteq> 0) = Ok st" "s' = opened s (flags f AND FLAG_END_STREAM \<noteq> 0) st"
    and "length b0 \<le> MAX_HEADERS_BUF" "no_progress (budget c) < MAX_NO_PROGRESS_FRAMES" "\<not> response_complete s'"
  shows "process_frame c f snk = (open_block c i s' b0 (no_progress (budget c) + 1), Ok Continue)"
proof -
  have "\<not> response_complete (s'\<lparr>headers_buf := b0\<rparr>)" using assms(14) by (simp add: response_complete_def)
  moreover have "s\<lparr>rx_any := True, headers_buf := b0, end_stream_recv := flags f AND FLAG_END_STREAM \<noteq> 0 \<or> end_stream_recv s, sstate := st\<rparr> =
      s'\<lparr>headers_buf := b0\<rparr>" by (simp add: st(2) opened_def)
  ultimately show ?thesis
    using assms(1-13) fits [of 0 "length b0"]
    by (simp add: process_frame_def process_stream_frame_def process_headers_def headers_on_live_def push_header_fragment_def
        outcome_for_def record_progress_def Let_def open_block_def) (simp add: put_stream_def)
qed

lemma headers_whole:
  assumes c: "expecting_continuation c = None" "i \<noteq> 0" "get_stream c i = Some s" "sstate s \<noteq> Closed" "headers_buf s = []"
    and f: "ftyp f = F_HEADERS" "stream_id f = i" "headers_payload f = Ok block" "flags f AND FLAG_END_HEADERS \<noteq> 0"
    and st: "recv_headers (sstate s) (flags f AND FLAG_END_STREAM \<noteq> 0) = Ok st" "s' = opened s (flags f AND FLAG_END_STREAM \<noteq> 0) st"
    and "length block \<le> MAX_HEADERS_BUF"
  shows "process_frame c f snk = close_block c i s' block"
proof -
  define D where "D = (put_stream c i (s'\<lparr>headers_buf := []\<rparr>))\<lparr>expecting_continuation := None, made_progress := False\<rparr>"
  have D: "D = (put_stream (c\<lparr>made_progress := False\<rparr>) i (s'\<lparr>headers_buf := []\<rparr>))\<lparr>expecting_continuation := None\<rparr>"
    by (simp add: D_def put_stream_def)
  have p: "process_headers (c\<lparr>made_progress := False\<rparr>) f =
      step_bind (decode_headers D block) (\<lambda>decoded c3. step_bind (complete_header_block (c3\<lparr>made_progress := True\<rparr>) i decoded)
        (\<lambda>_ c4. (c4, Ok (outcome_for c4 i))))"
    using assms(2-12) fits [of 0 "length block"]
    by (simp add: process_headers_def headers_on_live_def push_header_fragment_def Let_def D opened_def)
  have "process_frame c f snk = step_bind (process_headers (c\<lparr>made_progress := False\<rparr>) f) bill_progress"
    using assms(1,2,6,7) by (simp add: process_frame_def process_stream_frame_def bill_progress_def Let_def)
  also have "\<dots> = close_block c i s' block" unfolding p close_block_def D_def [symmetric] by (rule bill_progress_block)
  finally show ?thesis .
qed

lemma continuation_more:
  assumes f: "ftyp f = F_CONTINUATION" "stream_id f = i" "i \<noteq> 0" "flags f AND FLAG_END_HEADERS = 0"
    and "\<not> response_complete s" "length buf + length (payload f) \<le> MAX_HEADERS_BUF" "n < MAX_NO_PROGRESS_FRAMES"
  shows "process_frame (open_block c i s buf n) f snk = (open_block c i s (buf @ payload f) (n + 1), Ok Continue)"
proof -
  have "\<not> response_complete (s\<lparr>headers_buf := buf @ payload f\<rparr>)" using assms(5) by (simp add: response_complete_def)
  then show ?thesis
    using assms fits [of "length buf" "length (payload f)"]
    by (simp add: process_frame_def process_stream_frame_def process_continuation_def push_header_fragment_def
        outcome_for_def record_progress_def Let_def open_block_def) (simp add: put_stream_def)
qed

lemma continuation_last:
  assumes f: "ftyp f = F_CONTINUATION" "stream_id f = i" "i \<noteq> 0" "flags f AND FLAG_END_HEADERS \<noteq> 0"
    and "\<not> discard_headers s" "length buf + length (payload f) \<le> MAX_HEADERS_BUF"
    and r: "close_block c i s (buf @ payload f) = (c', r)"
  shows "\<exists>c''. process_frame (open_block c i s buf n) f snk = (c'', r) \<and> same_but_budget c'' c' \<and> (isl r \<or> c'' = c')"
proof -
  define D where "D = (put_stream c i (s\<lparr>headers_buf := []\<rparr>))\<lparr>expecting_continuation := None, made_progress := False\<rparr>"
  define B where "B = (budget c)\<lparr>no_progress := n\<rparr>"
  define O1 where "O1 = open_block c i s buf n"
  have O1: "expecting_continuation O1 = Some i" "get_stream O1 i = Some (s\<lparr>headers_buf := buf\<rparr>)" "O1\<lparr>made_progress := False\<rparr> = O1"
    by (simp_all add: O1_def open_block_def)
  have D: "(put_stream O1 i (s\<lparr>headers_buf := [], discard_headers := False\<rparr>))\<lparr>expecting_continuation := None\<rparr> = D\<lparr>budget := B\<rparr>"
    using assms(5) by (cases s) (simp add: O1_def open_block_def D_def B_def put_stream_def)
  have "process_continuation O1 f = step_bind (decode_headers (D\<lparr>budget := B\<rparr>) (buf @ payload f)) (\<lambda>decoded c3.
      step_bind (complete_header_block (c3\<lparr>made_progress := True\<rparr>) i decoded) (\<lambda>_ c4. (c4, Ok (outcome_for c4 i))))"
    using assms(2-6) O1 fits [of "length buf" "length (payload f)"]
    by (simp add: process_continuation_def push_header_fragment_def Let_def D)
  moreover have "process_frame O1 f snk = step_bind (process_continuation O1 f) bill_progress"
    using assms(1-3) O1 by (simp add: process_frame_def process_stream_frame_def bill_progress_def Let_def)
  ultimately have p: "process_frame O1 f snk = step_bind (decode_headers (D\<lparr>budget := B\<rparr>) (buf @ payload f)) (\<lambda>decoded c3.
      step_bind (complete_header_block (c3\<lparr>made_progress := True\<rparr>) i decoded)
        (\<lambda>_ c4. (c4\<lparr>budget := (budget c4)\<lparr>no_progress := 0\<rparr>\<rparr>, Ok (outcome_for c4 i))))"
    by (simp add: bill_progress_block)
  obtain c3 q where q: "decode_headers D (buf @ payload f) = (c3, q)" by fastforce
  then have q': "decode_headers (D\<lparr>budget := B\<rparr>) (buf @ payload f) = (c3\<lparr>budget := B\<rparr>, q)" "budget c3 = budget c"
    by (auto simp: decode_headers_eq D_def)
  note run = r [unfolded close_block_def D_def [symmetric] q] p [unfolded q'(1)]
  show ?thesis unfolding O1_def [symmetric]
  proof (cases q)
    case (Inl e)
    with run show "\<exists>c''. process_frame O1 f snk = (c'', r) \<and> same_but_budget c'' c' \<and> (isl r \<or> c'' = c')"
      by (auto simp: same_but_budget_def)
  next
    case (Inr hs)
    obtain c4 q4 where h: "complete_header_block (c3\<lparr>made_progress := True\<rparr>) i hs = (c4, q4)" by fastforce
    have eq: "c3\<lparr>budget := B, made_progress := True\<rparr> = c3\<lparr>made_progress := True, budget := B\<rparr>" by simp
    have b: "complete_header_block (c3\<lparr>budget := B, made_progress := True\<rparr>) i hs = (c4\<lparr>budget := B\<rparr>, q4)"
      using complete_header_block_budget [where c = "c3\<lparr>made_progress := True\<rparr>" and b = B and i = i and hs = hs] h unfolding eq by simp
    have "budget c4 = budget c" using complete_header_block_progress(2) [where c = "c3\<lparr>made_progress := True\<rparr>" and i = i and hs = hs] h q'(2) by simp
    with run h b Inr show "\<exists>c''. process_frame O1 f snk = (c'', r) \<and> same_but_budget c'' c' \<and> (isl r \<or> c'' = c')"
      by (cases q4) (auto simp: same_but_budget_def outcome_for_def B_def)
  qed
qed

lemma continuations:
  assumes cs: "\<forall>g\<in>set cs. ftyp g = F_CONTINUATION \<and> stream_id g = i \<and> flags g AND FLAG_END_HEADERS = 0" and i: "i \<noteq> 0"
    and "\<not> response_complete s" "length (buf @ concat (map payload cs)) \<le> MAX_HEADERS_BUF" "n + length cs \<le> MAX_NO_PROGRESS_FRAMES"
  shows "process_frames (open_block c i s buf n) (cs @ fs) snk =
    process_frames (open_block c i s (buf @ concat (map payload cs)) (n + length cs)) fs snk"
  using assms
proof (induction cs arbitrary: buf n)
  case (Cons g cs)
  have "process_frame (open_block c i s buf n) g snk = (open_block c i s (buf @ payload g) (n + 1), Ok Continue)"
    using Cons.prems by (intro continuation_more) auto
  with Cons.IH [of "buf @ payload g" "n + 1"] Cons.prems show ?case by simp
qed simp

section \<open>Properties\<close>

text \<open>
  (C5) How the server splits a header block makes no difference: on a reachable connection with no block open and a
  stream that is still receiving, a HEADERS frame and any number of CONTINUATION frames whose fragments (without padding and
  priority) concatenate to a block have the same result as one HEADERS frame with the whole block: the same outcome or error, the same
  connection, for an error up to the flood counters. Between them every other frame is refused as a connection error
  and changes nothing. The block must be within 256 KiB and the frames within the flood budget, and the block may not be the trailer
  section that ends a response (\<open>h2_fragmented_trailers_end_early\<close> shows that the code differs there).
\<close>

theorem h2_header_block_reassembled:
  assumes c: "h2_reach c" "expecting_continuation c = None" "get_stream c i = Some s" "sstate s = Open \<or> sstate s = HalfClosedLocal"
    and f: "ftyp f = F_HEADERS" "stream_id f = i" "headers_payload f = Ok block" "flags f AND FLAG_END_HEADERS \<noteq> 0"
    and f0: "ftyp f0 = F_HEADERS" "stream_id f0 = i" "headers_payload f0 = Ok b0" "flags f0 AND FLAG_END_HEADERS = 0"
    and es: "flags f0 AND FLAG_END_STREAM = flags f AND FLAG_END_STREAM" "response_headers s = None \<or> flags f AND FLAG_END_STREAM = 0"
    and cs: "\<forall>g\<in>set cs. ftyp g = F_CONTINUATION \<and> stream_id g = i \<and> flags g AND FLAG_END_HEADERS = 0"
    and l: "ftyp l = F_CONTINUATION" "stream_id l = i" "flags l AND FLAG_END_HEADERS \<noteq> 0"
    and block: "block = b0 @ concat (map payload (cs @ [l]))" "length block \<le> 262144"
    and flood: "no_progress (budget c) + length cs < 10000"
  shows "(\<exists>c1 c2 r. process_frames c (f0 # cs @ [l]) snk = (c1, r) \<and> process_frame c f snk = (c2, r) \<and>
      same_but_budget c1 c2 \<and> (isl r \<or> c1 = c2)) \<and>
    (\<forall>k \<le> length cs. \<exists>c1. process_frames c (f0 # take k cs) snk = (c1, Ok Continue) \<and>
      (\<forall>g. \<not> (ftyp g = F_CONTINUATION \<and> stream_id g = i) \<longrightarrow> isl (snd (process_frame c1 g snk)) \<and> fst (process_frame c1 g snk) = c1))"
proof -
  from conn_inv_stream [OF h2_reach_inv [OF c(1)] c(3)] c(2,4)
  have s: "headers_buf s = []" "\<not> discard_headers s" "\<not> end_stream_recv s" by (auto simp: stream_inv_def stream_bounds_def)
  have "odd (unat i)" using h2_reach_ids [OF c(1)] c(3) by (force simp: ids_ok_def dest: map_of_SomeD)
  then have i: "i \<noteq> 0" by auto
  obtain st where st: "recv_headers (sstate s) (flags f AND FLAG_END_STREAM \<noteq> 0) = Ok st"
    using c(4) by (auto simp: recv_headers_def)
  define s' where "s' = opened s (flags f AND FLAG_END_STREAM \<noteq> 0) st"
  have s': "\<not> response_complete s'" "\<not> discard_headers s'"
    using s es(2) by (auto simp: s'_def opened_def response_complete_def)
  have live: "sstate s \<noteq> Closed" using c(4) by auto
  let ?n = "no_progress (budget c) + 1"
  have first: "process_frame c f0 snk = (open_block c i s' b0 ?n, Ok Continue)"
    by (rule headers_first [OF c(2) i c(3) live s(1) f0]) (use st s' block flood es in \<open>simp_all add: s'_def\<close>)
  have whole: "process_frame c f snk = close_block c i s' block"
    by (rule headers_whole [OF c(2) i c(3) live s(1) f st s'_def block(2)])
  obtain c2 r where r: "close_block c i s' block = (c2, r)" by fastforce
  let ?buf = "b0 @ concat (map payload cs)"
  from continuation_last [of l i s' ?buf c c2 r "?n + length cs" snk] l i s' block r
  obtain c1 where c1: "process_frame (open_block c i s' ?buf (?n + length cs)) l snk = (c1, r)" "same_but_budget c1 c2" "isl r \<or> c1 = c2"
    by auto
  have pieces: "process_frames c (f0 # take k cs @ fs) snk =
      process_frames (open_block c i s' (b0 @ concat (map payload (take k cs))) (?n + length (take k cs))) fs snk"
    if "k \<le> length cs" for k fs
  proof -
    have "length (concat (map payload (take k cs))) \<le> length (concat (map payload cs))"
      by (subst (2) append_take_drop_id [of k, symmetric], subst map_append) simp
    moreover have "\<forall>g\<in>set (take k cs). ftyp g = F_CONTINUATION \<and> stream_id g = i \<and> flags g AND FLAG_END_HEADERS = 0"
      using cs by (meson in_set_takeD)
    ultimately show ?thesis using first continuations [of "take k cs" i s' b0 ?n c fs snk] i s' block flood that by simp
  qed
  have "process_frames c (f0 # cs @ [l]) snk = (c1, r)"
    using pieces [of "length cs" "[l]"] c1(1) by (cases r) simp_all
  moreover have "\<exists>c1. process_frames c (f0 # take k cs) snk = (c1, Ok Continue) \<and>
      (\<forall>g. \<not> (ftyp g = F_CONTINUATION \<and> stream_id g = i) \<longrightarrow> isl (snd (process_frame c1 g snk)) \<and> fst (process_frame c1 g snk) = c1)"
    if "k \<le> length cs" for k
    using pieces [OF that, of "[]"] by (auto simp: process_frame_gated gate_open_def open_block_def)
  ultimately show ?thesis using whole r c1 by auto
qed

lemma h2_header_block_reassembled_witness:
  "\<exists>c'. process_frame demo_conn (demo_head 4 [0x88, 0x0f, 0x0d, 0x01, 0x35]) None = (c', Ok Continue) \<and>
     process_frames demo_conn [demo_head 0 [0x88, 0x0f], \<lparr>ftyp = F_CONTINUATION, flags = 0, stream_id = 1, payload = [0x0d]\<rparr>,
       \<lparr>ftyp = F_CONTINUATION, flags = 4, stream_id = 1, payload = [0x01, 0x35]\<rparr>] None = (c', Ok Continue)"
proof -
  obtain c' where r: "process_frame demo_conn (demo_head 4 [0x88, 0x0f, 0x0d, 0x01, 0x35]) None = (c', Ok Continue)"
    using demo_processed(2) by blast
  obtain T E where e: "demo_conn = \<lparr>tls_out = T, sunk = [], peer = peer_settings_default, conn_sendw = conn_send_window_new,
     conn_recvw = conn_recv_window_new 65535, our_recv_window = 65535, cdecoder = decoder_new, cencoder = E,
     streams = [(1, demo_stream)], next_stream_id = 3, goaway_received = None, expecting_continuation = None,
     budget = flood_budget_default, made_progress = False\<rparr>" using demo_fields by blast
  have d: "expecting_continuation demo_conn = None" "no_progress (budget demo_conn) = 0" "sstate demo_stream = HalfClosedLocal"
    unfolding e by (simp_all add: flood_budget_default_def demo_stream_def)
  from h2_header_block_reassembled [OF demo_reach d(1) demo_get, of "demo_head 4 [0x88, 0x0f, 0x0d, 0x01, 0x35]" _ "demo_head 0 [0x88, 0x0f]" _
      "[\<lparr>ftyp = F_CONTINUATION, flags = 0, stream_id = 1, payload = [0x0d]\<rparr>]"
      "\<lparr>ftyp = F_CONTINUATION, flags = 4, stream_id = 1, payload = [0x01, 0x35]\<rparr>" None] r d(2,3)
  show ?thesis by (auto simp: demo_head_def headers_payload_def)
qed

section \<open>A request reaches the server\<close>

text \<open>The checks on caller headers in \<open>http.rs\<close>, made by the HTTP/1.1 writer.\<close>

definition is_valid_header_name :: "string \<Rightarrow> bool" where
  "is_valid_header_name name \<longleftrightarrow> name \<noteq> [] \<and>
     list_all (\<lambda>b. is_ascii_uppercase b \<or> is_ascii_lowercase b \<or> is_ascii_digit b \<or> b \<in> set ''!#$%&'' \<or> b = CHR 0x27 \<or>
       b \<in> set ''*+-.^_'' \<or> b = CHR 0x60 \<or> b \<in> set ''|~'') name"

definition header_value_has_forbidden :: "string \<Rightarrow> bool" where
  "header_value_has_forbidden val \<longleftrightarrow> list_ex (\<lambda>b. b = CHR 0x0D \<or> b = CHR 0x0A \<or> b = CHR 0x00) val"

definition validate_header :: "string \<Rightarrow> string \<Rightarrow> unit result" where
  "validate_header name val =
     (if \<not> is_valid_header_name name then Err (BadResponse ''invalid header name'')
      else if header_value_has_forbidden val then Err (BadResponse ''invalid header value'')
      else Ok ())"

text \<open>A string that may be the value of a field: UTF-8 without CR, LF and NUL.\<close>

definition clean_value :: "string \<Rightarrow> bool" where
  "clean_value v \<longleftrightarrow> is_str v \<and> \<not> header_value_has_forbidden v"

text \<open>The names RFC 9113 section 8.2.2 forbids, and \<open>host\<close>, which \<open>:authority\<close> replaces.\<close>

definition dropped_names :: "string list" where
  "dropped_names = [''connection'', ''proxy-connection'', ''keep-alive'', ''transfer-encoding'', ''upgrade'', ''te'', ''host'']"

definition automatic_names :: "string list" where
  "automatic_names = [''authorization'', ''user-agent'', ''accept'', ''accept-encoding'', ''content-length'']"

lemma lower_char_token:
  "is_ascii_uppercase b \<or> is_ascii_lowercase b \<or> is_ascii_digit b \<or> b \<in> set ''!#$%&'' \<or> b = CHR 0x27 \<or>
       b \<in> set ''*+-.^_'' \<or> b = CHR 0x60 \<or> b \<in> set ''|~'' \<Longrightarrow>
   is_token_char (byte_of_char (to_ascii_lowercase_char b)) \<and> to_ascii_lowercase_char b \<noteq> CHR '':''"
proof -
  have "is_ascii_lowercase (to_ascii_lowercase_char b)" if u: "is_ascii_uppercase b"
  proof -
    have "(of_char b :: nat) + 32 < 256" using u by (simp add: is_ascii_uppercase_def)
    then have "of_char (char_of ((of_char b :: nat) + 32)) = (of_char b :: nat) + 32" by (simp add: of_char_of)
    with u show ?thesis by (simp add: to_ascii_lowercase_char_def is_ascii_uppercase_def is_ascii_lowercase_def)
  qed
  moreover have "to_ascii_lowercase_char b = b" if "\<not> is_ascii_uppercase b" using that by (simp add: to_ascii_lowercase_char_def)
  moreover have "is_token_char (byte_of_char x) \<and> x \<noteq> CHR '':''" if "is_ascii_lowercase x \<or> is_ascii_digit x \<or> x \<in> set ''!#$%&'' \<or> x = CHR 0x27 \<or>
       x \<in> set ''*+-.^_'' \<or> x = CHR 0x60 \<or> x \<in> set ''|~''" for x
  proof -
    have "byte_of_char (CHR 0x27) = 0x27" "byte_of_char (CHR 0x60) = 0x60" by (simp_all add: byte_of_char_def)
    with that show ?thesis by (auto simp: is_token_char_def is_ascii_lowercase_def is_ascii_digit_def)
  qed
  moreover assume "is_ascii_uppercase b \<or> is_ascii_lowercase b \<or> is_ascii_digit b \<or> b \<in> set ''!#$%&'' \<or> b = CHR 0x27 \<or>
       b \<in> set ''*+-.^_'' \<or> b = CHR 0x60 \<or> b \<in> set ''|~''"
  ultimately show ?thesis by metis
qed

lemma byte_of_char_eq: "byte_of_char c = b \<longleftrightarrow> c = char_of_byte b"
  by (metis char_of_byte_of_char byte_of_char_of_byte)

lemma control_bytes: "char_of_byte 0x00 = CHR 0x00" "char_of_byte 0x0a = CHR 0x0A" "char_of_byte 0x0d = CHR 0x0D" "char_of_byte 0x3a = CHR '':''"
  by (simp_all add: char_of_byte_def char_of_eq_iff)

lemma value_octets: "\<not> header_value_has_forbidden v \<Longrightarrow> \<not> list_ex (\<lambda>c. c = 0x00 \<or> c = 0x0a \<or> c = 0x0d) (as_bytes v)"
  by (auto simp: header_value_has_forbidden_def list_ex_iff as_bytes_def byte_of_char_eq control_bytes)

lemma token_ascii: "is_token_char b \<Longrightarrow> b < 0x80"
proof -
  have "unat b < 2 ^ LENGTH(8)" by (rule unsigned_less)
  then have u: "(of_char (char_of_byte b) :: nat) = unat b" by (simp add: char_of_byte_def)
  assume "is_token_char b"
  then have "(of_char (char_of_byte b) :: nat) < 128 \<or> b = 0x27 \<or> b = 0x60"
    by (auto simp: is_token_char_def is_ascii_digit_def is_ascii_lowercase_def)
  with u show ?thesis by (auto simp: word_less_nat_alt)
qed

lemma user_field_sendable:
  assumes "validate_header k v = Ok ()" "is_str v"
  shows "sendable (to_ascii_lowercase k, v)" "k \<noteq> []" "hd (to_ascii_lowercase k) \<noteq> CHR '':''"
proof -
  from assms(1) have k: "is_valid_header_name k" and v: "\<not> header_value_has_forbidden v"
    by (auto simp: validate_header_def split: if_splits)
  have tok: "is_token_char (byte_of_char x) \<and> x \<noteq> CHR '':''" if "x \<in> set (to_ascii_lowercase k)" for x
  proof -
    from that obtain y where y: "y \<in> set k" "x = to_ascii_lowercase_char y" by (auto simp: to_ascii_lowercase_def)
    with k show ?thesis using lower_char_token [of y] unfolding is_valid_header_name_def list_all_iff by metis
  qed
  show k0: "k \<noteq> []" using k by (simp add: is_valid_header_name_def)
  then obtain x r where x: "to_ascii_lowercase k = x # r" by (cases k) (auto simp: to_ascii_lowercase_def)
  with tok show "hd (to_ascii_lowercase k) \<noteq> CHR '':''" by simp
  have b: "byte_of_char x \<noteq> 0x3a" using tok [of x] by (auto simp: x byte_of_char_eq control_bytes)
  have all: "list_all is_token_char (as_bytes (to_ascii_lowercase k))" using tok by (auto simp: list_all_iff as_bytes_def)
  then have "is_str (to_ascii_lowercase k)" using token_ascii by (auto simp: is_str_def list_all_iff intro!: utf8_valid_ascii)
  with all b value_octets [OF v] assms(2) show "sendable (to_ascii_lowercase k, v)"
    by (simp add: sendable_def header_octets_ok_def x as_bytes_def Let_def)
qed

lemma fixed_name_sendable:
  assumes "clean_value v" "n \<in> set ['':method'', '':scheme'', '':authority'', '':path''] \<union> set automatic_names"
  shows "sendable (n, v)"
proof -
  have "is_str n" using assms(2) by (auto simp: automatic_names_def is_str_def as_bytes_def byte_of_char_def intro!: utf8_valid_ascii)
  moreover have "n \<noteq> []" "list_all is_token_char (if hd n = CHR '':'' then as_bytes (tl n) else as_bytes n)" "n \<noteq> '':''"
    using assms(2) by (auto simp: automatic_names_def as_bytes_def is_token_char_def is_ascii_lowercase_def is_ascii_digit_def)
  ultimately show ?thesis using assms(1) value_octets [of v]
    by (cases n) (auto simp: sendable_def clean_value_def header_octets_ok_def as_bytes_def byte_of_char_eq control_bytes split: if_splits)
qed

lemma pseudo_sendable:
  assumes "clean_value m" "clean_value s" "clean_value a" "clean_value p"
  shows "list_all sendable [('':method'', m), ('':scheme'', s), ('':authority'', a), ('':path'', p)]"
proof -
  have "sendable ('':method'', m)" "sendable ('':scheme'', s)" "sendable ('':authority'', a)" "sendable ('':path'', p)"
    by (rule fixed_name_sendable, rule assms, simp)+
  then show ?thesis by simp
qed

lemma show_nat_clean: "clean_value (show_nat n)"
proof -
  have d: "is_ascii_digit c" if "c \<in> set (show_nat n)" for c using that show_nat_digits [of n] by (simp add: list_all_iff)
  have "\<forall>b\<in>set (as_bytes (show_nat n)). b < 0x80"
    using d by (fastforce simp: as_bytes_def is_ascii_digit_def byte_of_char_def word_less_nat_alt unat_of_nat)
  then have "is_str (show_nat n)" by (simp add: is_str_def utf8_valid_ascii)
  moreover have "\<not> header_value_has_forbidden (show_nat n)"
    using d [of "CHR 0x0D"] d [of "CHR 0x0A"] d [of "CHR 0x00"] by (auto simp: header_value_has_forbidden_def list_ex_iff is_ascii_digit_def)
  ultimately show ?thesis by (simp add: clean_value_def)
qed

lemma clean_constants: "clean_value ''rsurl/0.1.21''" "clean_value ''*/*''" "clean_value ''gzip, deflate''" "clean_value ''Basic ''"
  by (simp_all add: clean_value_def header_value_has_forbidden_def is_str_def as_bytes_def byte_of_char_def utf8_valid_ascii)

lemma clean_append: "clean_value a \<Longrightarrow> clean_value b \<Longrightarrow> clean_value (a @ b)"
  by (simp add: clean_value_def header_value_has_forbidden_def is_str_append)

text \<open>The fields of a request in terms of the caller's headers.\<close>

definition kept_headers :: "header list \<Rightarrow> header list" where
  "kept_headers hs = map (\<lambda>(k, v). (to_ascii_lowercase k, v)) (filter (\<lambda>(k, v). to_ascii_lowercase k \<notin> set dropped_names) hs)"

lemma dropped_iff: "is_connection_specific_header k \<or> eq_ignore_ascii_case k ''host'' \<longleftrightarrow> to_ascii_lowercase k \<in> set dropped_names"
  by (simp add: is_connection_specific_header_def eq_ignore_ascii_case_def dropped_names_def to_ascii_lowercase_char_def is_ascii_uppercase_def)

lemma user_fields_kept: "user_fields hs = kept_headers hs"
  unfolding user_fields_def kept_headers_def dropped_iff ..

definition request_ok :: "request \<Rightarrow> bool" where
  "request_ok req \<longleftrightarrow> list_all (\<lambda>(k, v). validate_header k v = Ok () \<and> is_str v) (rq_headers req) \<and>
     clean_value (effective_method req) \<and> clean_value (rq_scheme req) \<and> clean_value (request_authority req) \<and> clean_value (rq_path req) \<and>
     (case rq_auth req of None \<Rightarrow> True | Some a \<Rightarrow> clean_value a)"

lemma request_fields:
  assumes "request_ok req"
  shows "\<exists>as. fst (request_header_fields req) @ snd (request_header_fields req) =
       [('':method'', effective_method req), ('':scheme'', rq_scheme req), ('':authority'', request_authority req), ('':path'', rq_path req)] @
       kept_headers (rq_headers req) @ as \<and>
     fst ` set as \<subseteq> set automatic_names \<and> (\<forall>h\<in>set as. clean_value (snd h))"
proof -
  have creds: "clean_value (''Basic '' @ a)" if "rq_auth req = Some a" for a
    using assms that clean_append [OF clean_constants(4), of a] by (simp add: request_ok_def)
  define as where "as = (if \<not> strict_headers req then auto_fields req (kept_headers (rq_headers req)) else []) @
    (if rq_body req \<noteq> [] then [(''content-length'', show_nat (length (rq_body req)))] else [])"
  have "list_all (\<lambda>h. fst h \<in> set automatic_names \<and> clean_value (snd h)) (auto_fields req fs)" for fs
    using creds by (simp add: auto_fields_def Let_def automatic_names_def clean_constants split: option.split)
  then have "list_all (\<lambda>h. fst h \<in> set automatic_names \<and> clean_value (snd h)) as"
    by (simp add: as_def) (simp add: automatic_names_def show_nat_clean)
  then have "fst ` set as \<subseteq> set automatic_names \<and> (\<forall>h\<in>set as. clean_value (snd h))" by (auto simp: list_all_iff)
  then show ?thesis by (intro exI [of _ as]) (simp add: request_header_fields_def user_fields_kept Let_def as_def)
qed

lemma kept_sendable:
  assumes "request_ok req" "(n, v) \<in> set (kept_headers (rq_headers req))"
  shows "sendable (n, v)" "n \<noteq> []" "hd n \<noteq> CHR '':''" "n \<notin> set dropped_names" "to_ascii_lowercase n = n"
proof -
  from assms(2) obtain k where k: "n = to_ascii_lowercase k" "(k, v) \<in> set (rq_headers req)" "n \<notin> set dropped_names"
    by (auto simp: kept_headers_def)
  with assms(1) have "validate_header k v = Ok ()" "is_str v" by (auto simp: request_ok_def list_all_iff)
  note u = user_field_sendable [OF this]
  have "to_ascii_lowercase k \<noteq> []" using u(2) by (simp add: to_ascii_lowercase_def)
  with u k show "sendable (n, v)" "n \<noteq> []" "hd n \<noteq> CHR '':''" "n \<notin> set dropped_names" "to_ascii_lowercase n = n" by simp_all
qed

lemma automatic_plain: "n \<in> set automatic_names \<Longrightarrow> n \<noteq> [] \<and> hd n \<noteq> CHR '':'' \<and> n \<notin> set dropped_names \<and> to_ascii_lowercase n = n"
  by (auto simp: automatic_names_def dropped_names_def to_ascii_lowercase_def to_ascii_lowercase_char_def is_ascii_uppercase_def)

lemma request_block_roundtrip:
  assumes "in_sync e d" "build_header_block e req = (e', bs)" "length bs < 2 ^ 63"
    and "list_all sendable (fst (request_header_fields req) @ snd (request_header_fields req))"
    and "table_size (fst (request_header_fields req) @ snd (request_header_fields req)) \<le> 262144"
  shows "\<exists>d'. decode_block d bs = (d', Ok (fst (request_header_fields req) @ snd (request_header_fields req))) \<and> in_sync e' d'"
proof -
  have "encode_headers e (fst (request_header_fields req) @ snd (request_header_fields req)) = (e', bs)"
    using assms(2) by (simp add: build_header_block_def split: prod.splits)
  from decode_block_encode_headers [OF assms(1) this assms(3,4,5)] show ?thesis .
qed

text \<open>The frames that carry one header block on stream \<open>i\<close>.\<close>

definition one_block :: "u32 \<Rightarrow> bool \<Rightarrow> nat \<Rightarrow> frame list \<Rightarrow> bool" where
  "one_block i es m fs \<longleftrightarrow> fs \<noteq> [] \<and> (\<forall>k < length fs. length (payload (fs ! k)) \<le> m \<and> stream_id (fs ! k) = i \<and>
     ftyp (fs ! k) = (if k = 0 then F_HEADERS else F_CONTINUATION) \<and>
     (flags (fs ! k) AND FLAG_END_HEADERS \<noteq> 0 \<longleftrightarrow> k = length fs - 1) \<and> (flags (fs ! k) AND FLAG_END_STREAM \<noteq> 0 \<longleftrightarrow> k = 0 \<and> es))"

lemma stage_request_frames:
  assumes "conn_inv None c" "get_stream c i = Some s" "sstate s = Idle" "build_header_block (cencoder c) req = (e, b)"
  shows "\<exists>c' s' fs. stage_request_on c i req = (c', Ok ()) \<and> tls_out c' = tls_out (send_priority_hint c i (rq_priority req)) @ fs \<and>
    one_block i (rq_body req = []) (send_frame_limit c) fs \<and> concat (map payload fs) = b \<and> cencoder c' = e \<and>
    get_stream c' i = Some s' \<and> pending_body s' = (if rq_body req = [] then pending_body s else Some (rq_body req, 0))"
proof -
  define c1 where "c1 = (send_priority_hint c i (rq_priority req))\<lparr>cencoder := e\<rparr>"
  define fs where "fs = fragment_header_block i b (send_frame_limit c1) (rq_body req = [])"
  have lim: "send_frame_limit c1 = send_frame_limit c" by (simp add: c1_def send_frame_limit_def send_priority_hint_def write_out_def split: option.split)
  have "0 < send_frame_limit c" using assms(1) by (auto simp: conn_inv_def peer_settings_ok_def send_frame_limit_def word_le_nat_alt)
  then have fr: "one_block i (rq_body req = []) (send_frame_limit c) fs" "concat (map payload fs) = b"
    using fragment_header_block_correct [of "send_frame_limit c" fs i b "rq_body req = []"] lim by (auto simp: one_block_def fs_def)
  have w: "write_request_headers c i req = (put_stream (write_all c1 fs) i
      (s\<lparr>sstate := (if rq_body req = [] then HalfClosedLocal else Open), head_request := eq_ignore_ascii_case (effective_method req) ''HEAD''\<rparr>),
      Ok (rq_body req \<noteq> []))"
    using assms(2-4) by (simp add: write_request_headers_def Let_def c1_def fs_def send_data_def)
  then show ?thesis using fr by (cases "rq_body req = []") (auto simp: stage_request_on_def c1_def)
qed

text \<open>
  (C8) A request reaches the server as the caller meant it: on a stream just opened on a reachable connection, staging a request
  writes one header block (HEADERS, then CONTINUATION frames, within the peer's frame size, END_HEADERS on the last, END_STREAM on the
  first exactly when there is no body) and leaves the whole body staged. A server whose HPACK decoder is in step reads from it
  the four pseudo-headers of the request first, then the caller's headers in order with lower-cased names, without the
  connection-specific ones and \<open>host\<close>, then only automatic fields; none of these later names starts with a colon, has an upper-case letter or
  is one of the seven dropped names; and the decoder is in step again for the next request. The caller's headers must pass
  \<open>validate_header\<close> (which only the HTTP/1.1 writer calls), the other strings must be free of CR, LF and NUL,
  and the section must be within the decoder's limit of 256 KiB.
\<close>

theorem h2_request_delivered:
  assumes c: "h2_reach c0" "open_stream c0 = (c, Ok i)" and sync: "in_sync (cencoder c0) d" and ok: "request_ok req"
    and size: "table_size (fst (request_header_fields req) @ snd (request_header_fields req)) \<le> 262144"
      "length (snd (build_header_block (cencoder c0) req)) < 2 ^ 63"
  shows "\<exists>c' s fs d' hs as. stage_request_on c i req = (c', Ok ()) \<and>
    tls_out c' = tls_out (send_priority_hint c i (rq_priority req)) @ fs \<and> one_block i (rq_body req = []) (send_frame_limit c) fs \<and>
    get_stream c' i = Some s \<and> pending_body s = (if rq_body req = [] then None else Some (rq_body req, 0)) \<and>
    decode_block d (concat (map payload fs)) =
      (d', Ok ([('':method'', effective_method req), ('':scheme'', rq_scheme req), ('':authority'', request_authority req), ('':path'', rq_path req)] @ hs)) \<and>
    in_sync (cencoder c') d' \<and>
    hs = map (\<lambda>(k, v). (to_ascii_lowercase k, v)) (filter (\<lambda>(k, v). to_ascii_lowercase k \<notin> set dropped_names) (rq_headers req)) @ as \<and>
    fst ` set as \<subseteq> set automatic_names \<and>
    (\<forall>n \<in> fst ` set hs. n \<noteq> [] \<and> hd n \<noteq> CHR '':'' \<and> to_ascii_lowercase n = n \<and> n \<notin> set dropped_names)"
proof -
  define all where "all = fst (request_header_fields req) @ snd (request_header_fields req)"
  obtain as where as: "all = [('':method'', effective_method req), ('':scheme'', rq_scheme req), ('':authority'', request_authority req), ('':path'', rq_path req)] @
      kept_headers (rq_headers req) @ as" "fst ` set as \<subseteq> set automatic_names" "\<forall>h\<in>set as. clean_value (snd h)"
    using request_fields [OF ok] unfolding all_def by blast
  have cv: "clean_value (effective_method req)" "clean_value (rq_scheme req)" "clean_value (request_authority req)" "clean_value (rq_path req)"
    using ok by (simp_all add: request_ok_def)
  note pseudo = pseudo_sendable [OF cv, unfolded list_all_iff]
  have auto: "sendable (n, v)" if "(n, v) \<in> set as" for n v
  proof (rule fixed_name_sendable)
    show "clean_value v" using as(3) that by force
    have "n \<in> fst ` set as" using that by force
    with as(2) show "n \<in> set ['':method'', '':scheme'', '':authority'', '':path''] \<union> set automatic_names" by blast
  qed
  have "sendable h" if "h \<in> set all" for h
  proof (cases h)
    case (Pair n v)
    with that have "h \<in> set [('':method'', effective_method req), ('':scheme'', rq_scheme req), ('':authority'', request_authority req),
        ('':path'', rq_path req)] \<or> (n, v) \<in> set (kept_headers (rq_headers req)) \<or> (n, v) \<in> set as"
      unfolding as(1) set_append by blast
    with pseudo auto kept_sendable(1) [OF ok] Pair show ?thesis by blast
  qed
  then have "list_all sendable all" by (simp add: list_all_iff)
  moreover obtain e b where b: "build_header_block (cencoder c0) req = (e, b)" by fastforce
  ultimately obtain d' where d': "decode_block d b = (d', Ok all)" "in_sync e d'"
    using request_block_roundtrip [OF sync b] size unfolding all_def [symmetric] by auto
  have inv: "conn_inv None c" by (rule open_stream_inv(1) [OF h2_reach_inv [OF c(1)] c(2)])
  obtain s where s: "get_stream c i = Some s" "sstate s = Idle" "pending_body s = None"
    using c(2) by (auto simp: open_stream_def Let_def stream_new_def split: if_splits option.splits)
  have enc: "build_header_block (cencoder c) req = (e, b)"
    using c(2) b by (auto simp: open_stream_def Let_def put_stream_def split: if_splits option.splits)
  obtain c' s' fs where staged: "stage_request_on c i req = (c', Ok ())" "tls_out c' = tls_out (send_priority_hint c i (rq_priority req)) @ fs"
    "one_block i (rq_body req = []) (send_frame_limit c) fs" "concat (map payload fs) = b" "cencoder c' = e"
    "get_stream c' i = Some s'" "pending_body s' = (if rq_body req = [] then None else Some (rq_body req, 0))"
    using stage_request_frames [OF inv s(1,2) enc] s(3) by auto
  have names: "\<forall>n \<in> fst ` set (kept_headers (rq_headers req) @ as). n \<noteq> [] \<and> hd n \<noteq> CHR '':'' \<and> to_ascii_lowercase n = n \<and> n \<notin> set dropped_names"
  proof
    fix n assume "n \<in> fst ` set (kept_headers (rq_headers req) @ as)"
    then consider v where "(n, v) \<in> set (kept_headers (rq_headers req))" | "n \<in> set automatic_names" using as(2) by force
    then show "n \<noteq> [] \<and> hd n \<noteq> CHR '':'' \<and> to_ascii_lowercase n = n \<and> n \<notin> set dropped_names"
      using kept_sendable(2-5) [OF ok] automatic_plain by cases blast+
  qed
  have hs: "decode_block d (concat (map payload fs)) = (d', Ok ([('':method'', effective_method req), ('':scheme'', rq_scheme req),
      ('':authority'', request_authority req), ('':path'', rq_path req)] @ (kept_headers (rq_headers req) @ as)))"
    unfolding staged(4) d'(1) as(1) ..
  have sync': "in_sync (cencoder c') d'" unfolding staged(5) by (rule d'(2))
  have kept: "kept_headers (rq_headers req) @ as =
      map (\<lambda>(k, v). (to_ascii_lowercase k, v)) (filter (\<lambda>(k, v). to_ascii_lowercase k \<notin> set dropped_names) (rq_headers req)) @ as"
    by (simp only: kept_headers_def)
  show ?thesis
    by (intro exI conjI) (rule staged(1), rule staged(2), rule staged(3), rule staged(6), rule staged(7), rule hs, rule sync', rule kept,
        rule as(2), rule names)
qed

text \<open>An upload with one header that is kept and one that is dropped.\<close>

definition demo_post :: request where
  "demo_post = \<lparr>rq_method = ''POST'', keep_method_case = True, rq_scheme = ''https'', rq_host = ''a'', rq_port = 443, rq_path = ''/'',
     rq_headers = [(''Upgrade'', ''b''), (''A'', ''b'')], strict_headers = True, rq_auth = None, rq_body = [7], rq_priority = Normal\<rparr>"

lemma demo_post_fields: "fst (request_header_fields demo_post) @ snd (request_header_fields demo_post) =
    [('':method'', ''POST''), ('':scheme'', ''https''), ('':authority'', ''a''), ('':path'', ''/''), (''a'', ''b''), (''content-length'', ''1'')]"
  by (simp add: request_header_fields_def demo_post_def effective_method_def request_authority_def user_fields_kept kept_headers_def dropped_names_def
      to_ascii_lowercase_char_def is_ascii_uppercase_def show_nat.simps char_of_def bit_0)

lemma demo_post_block: "length (snd (build_header_block encoder_new demo_post)) < 2 ^ 63"
proof -
  have st: "static_full_index '':method'' ''POST'' = Some 3" "static_full_index '':scheme'' ''https'' = Some 7" "static_full_index '':path'' ''/'' = Some 4"
    "static_full_index '':authority'' ''a'' = None" "static_full_index ''a'' ''b'' = None" "static_full_index ''content-length'' ''1'' = None"
    "static_name_index '':authority'' = Some 1" "static_name_index ''a'' = None" "static_name_index ''content-length'' = Some 28"
    by (simp_all add: static_full_index_def static_name_index_def STATIC_TABLE_def)
  have h: "HUFFMAN ! 97 = (3, 5)" "HUFFMAN ! 98 = (0x23, 6)" "HUFFMAN ! 49 = (1, 5)" by (simp_all add: HUFFMAN_def)
  have lit: "encode_literal_string ''a'' = [1, 97]" "encode_literal_string ''b'' = [1, 98]" "encode_literal_string ''1'' = [1, 49]"
    by (simp_all add: encode_literal_string_def huffman_bit_len_def h div_ceil_def encode_int_into_def byte_of_char_def as_bytes_def)
  have "build_header_block encoder_new demo_post =
      encode_headers encoder_new (fst (request_header_fields demo_post) @ snd (request_header_fields demo_post))"
    by (simp only: build_header_block_def Let_def case_prod_beta)
  then show ?thesis unfolding demo_post_fields
    by (simp add: encode_header_def encode_signals_def encode_field_def combined_full_index_def combined_name_index_def st lit e_insert_def
        e_entry_size_def e_evict_to_fit.simps encoder_new_def encode_int_into_def encode_int_tail.simps Let_def)
qed

lemma h2_request_delivered_witness:
  "\<exists>c' fs d' as. stage_request_on (fst (open_stream (connection_new 65535))) 1 demo_post = (c', Ok ()) \<and> one_block 1 False 16384 fs \<and>
     decode_block decoder_new (concat (map payload fs)) = (d', Ok ([('':method'', ''POST''), ('':scheme'', ''https''), ('':authority'', ''a''),
       ('':path'', ''/''), (''a'', ''b'')] @ as))"
proof -
  have ok: "request_ok demo_post"
    by (simp add: request_ok_def demo_post_def effective_method_def request_authority_def clean_value_def validate_header_def is_valid_header_name_def
        header_value_has_forbidden_def is_str_def as_bytes_def byte_of_char_def utf8_valid_ascii is_ascii_uppercase_def is_ascii_lowercase_def)
  have enc: "cencoder (connection_new 65535) = encoder_new" by (simp add: connection_new_def Let_def)
  have lim: "send_frame_limit ((connection_new 65535)\<lparr>next_stream_id := 3, streams := [(1, stream_new 1 65535 65535)]\<rparr>) = 16384"
    by (simp add: send_frame_limit_def connection_new_def Let_def peer_settings_default_def)
  have fields: "effective_method demo_post = ''POST''" "rq_scheme demo_post = ''https''" "request_authority demo_post = ''a''" "rq_path demo_post = ''/''"
    "rq_body demo_post \<noteq> []" "kept_headers (rq_headers demo_post) = [(''a'', ''b'')]"
    by (simp_all add: demo_post_def effective_method_def request_authority_def kept_headers_def dropped_names_def to_ascii_lowercase_char_def
        is_ascii_uppercase_def char_of_def bit_0)
  have sz: "table_size (fst (request_header_fields demo_post) @ snd (request_header_fields demo_post)) \<le> 262144"
    unfolding demo_post_fields by (simp add: table_size_def hsize_def)
  from h2_request_delivered [OF h2_reach.new demo_open, of decoder_new demo_post, unfolded enc lim, OF in_sync_new ok sz demo_post_block]
  obtain c' fs d' as where "stage_request_on (fst (open_stream (connection_new 65535))) 1 demo_post = (c', Ok ())" "one_block 1 False 16384 fs"
    "decode_block decoder_new (concat (map payload fs)) = (d', Ok ([('':method'', effective_method demo_post), ('':scheme'', rq_scheme demo_post),
       ('':authority'', request_authority demo_post), ('':path'', rq_path demo_post)] @ kept_headers (rq_headers demo_post) @ as))"
    using fields(5) unfolding kept_headers_def demo_open fst_conv by auto
  then show ?thesis unfolding fields by auto
qed

text \<open>
  Without the check of the caller's headers the section can be malformed: a header named \<open>:path\<close> is sent as a second pseudo-header behind a regular
  field, and a caller's \<open>content-length\<close> is sent beside the automatic one.
\<close>

lemma h2_request_headers_unchecked:
  "snd (request_header_fields (demo_post\<lparr>rq_headers := [(''A'', ''b''), ('':path'', ''/x''), (''Content-Length'', ''9'')]\<rparr>)) =
     [(''a'', ''b''), ('':path'', ''/x''), (''content-length'', ''9''), (''content-length'', ''1'')]"
  by (simp add: request_header_fields_def demo_post_def user_fields_kept kept_headers_def dropped_names_def
      to_ascii_lowercase_char_def is_ascii_uppercase_def show_nat.simps char_of_def bit_0)

end
