(* ===== verification/Http1_Head.thy ===== *)
theory Http1_Head
  imports Rust_Str
begin

text \<open>
  The head of an HTTP/1.1 response: the parsers of \<open>src/src/http.rs\<close> (\<open>parse_status_line\<close>, \<open>push_header_line\<close>,
  \<open>parse_content_length\<close>) and the head block and body framing of \<open>src/src/proto/http1.rs\<close>.
\<close>

section \<open>Lossy text\<close>

text \<open>
  \<open>String::from_utf8_lossy\<close>: each maximal ill-formed subpart becomes U+FFFD. \<open>utf8_step\<close> looks at the front of
  a non-empty input: is it a character, and how many bytes does it take?
\<close>

definition second_ok :: "byte \<Rightarrow> byte \<Rightarrow> bool" where
  "second_ok a b \<longleftrightarrow> cont_byte b \<and> (a = 0xE0 \<longrightarrow> 0xA0 \<le> b) \<and> (a = 0xED \<longrightarrow> b \<le> 0x9F) \<and>
     (a = 0xF0 \<longrightarrow> 0x90 \<le> b) \<and> (a = 0xF4 \<longrightarrow> b \<le> 0x8F)"

definition byte_or_0 :: "bytes \<Rightarrow> nat \<Rightarrow> byte" where
  "byte_or_0 bs i = (if i < length bs then bs ! i else 0)"

definition utf8_step :: "bytes \<Rightarrow> bool \<times> nat" where
  "utf8_step bs =
     (let a = byte_or_0 bs 0; b = byte_or_0 bs 1; c = byte_or_0 bs 2; d = byte_or_0 bs 3
      in if a < 0x80 then (True, 1)
         else if 0xC2 \<le> a \<and> a \<le> 0xDF then (if cont_byte b then (True, 2) else (False, 1))
         else if 0xE0 \<le> a \<and> a \<le> 0xEF then
           (if \<not> second_ok a b then (False, 1) else if \<not> cont_byte c then (False, 2) else (True, 3))
         else if 0xF0 \<le> a \<and> a \<le> 0xF4 then
           (if \<not> second_ok a b then (False, 1) else if \<not> cont_byte c then (False, 2)
            else if \<not> cont_byte d then (False, 3) else (True, 4))
         else (False, 1))"

lemma utf8_step_pos: "0 < snd (utf8_step bs)"
  by (simp add: utf8_step_def Let_def)

function from_utf8_lossy :: "bytes \<Rightarrow> string" where
  "from_utf8_lossy bs =
     (if bs = [] then []
      else (if fst (utf8_step bs) then map char_of_byte (take (snd (utf8_step bs)) bs) else map char_of_byte [0xEF, 0xBF, 0xBD])
           @ from_utf8_lossy (drop (snd (utf8_step bs)) bs))"
  by pat_completeness auto
termination
  by (relation "measure length") (use utf8_step_pos in \<open>auto simp: neq_Nil_conv\<close>)

declare from_utf8_lossy.simps [simp del]

lemma from_utf8_lossy_ascii: "\<forall>b\<in>set bs. b < 0x80 \<Longrightarrow> from_utf8_lossy bs = map char_of_byte bs"
proof (induction bs)
  case (Cons b bs)
  then have "utf8_step (b # bs) = (True, 1)" by (simp add: utf8_step_def byte_or_0_def)
  with Cons show ?case by (subst from_utf8_lossy.simps) simp
qed (simp add: from_utf8_lossy.simps)

text \<open>\<open>trim_end_matches\<close> with a set of ASCII characters.\<close>

definition trim_end_matches :: "(char \<Rightarrow> bool) \<Rightarrow> string \<Rightarrow> string" where
  "trim_end_matches P s = rev (dropWhile P (rev s))"

abbreviation (input) CR :: char where "CR \<equiv> CHR 0x0D"
abbreviation (input) LF :: char where "LF \<equiv> CHR 0x0A"

section \<open>Status line and header fields\<close>

abbreviation (input) MAX_HEADER_BYTES :: nat where "MAX_HEADER_BYTES \<equiv> 65536"
abbreviation (input) MAX_BODY_BYTES :: nat where "MAX_BODY_BYTES \<equiv> 268435456"

record response_head =
  rh_status :: nat
  rh_reason :: string
  rh_version :: string
  rh_headers :: "(string \<times> string) list"

definition parse_status_line :: "string \<Rightarrow> (string \<times> nat \<times> string) result" where
  "parse_status_line line =
     (let (version, rest) = (case split_once CHR '' '' line of Some (v, r) \<Rightarrow> (v, Some r) | None \<Rightarrow> (line, None))
      in if \<not> starts_with ''HTTP/'' version then Err (BadResponse ''not HTTP'')
         else case rest of
             None \<Rightarrow> Err (BadResponse ''missing status'')
           | Some r \<Rightarrow>
               (let (st, reason) = (case split_once CHR '' '' r of Some (s, m) \<Rightarrow> (s, m) | None \<Rightarrow> (r, []))
                in res_bind (ok_or (BadResponse ''bad status'') (parse_unsigned U16_MAX st)) (\<lambda>status.
                     Ok (version, status, reason))))"

definition push_header_line :: "(string \<times> string) list \<Rightarrow> string \<Rightarrow> (string \<times> string) list result" where
  "push_header_line headers line =
     (if starts_with '' '' line \<or> starts_with [CHR 0x09] line then
        (if headers = [] then Err (BadResponse ''folded header line with no field to continue'')
         else (let cont = trim line; (k, prev) = last headers
               in Ok (if cont = [] then headers
                      else butlast headers @ [(k, (if prev = [] then [] else prev @ '' '') @ cont)])))
      else res_bind (ok_or (BadResponse ''malformed header line'') (split_once CHR '':'' line)) (\<lambda>(k, v).
             Ok (headers @ [(trim k, trim v)])))"

text \<open>The loop over the comma-separated parts of one value, then over the fields.\<close>

fun length_parts :: "nat option \<Rightarrow> string list \<Rightarrow> nat option result" where
  "length_parts seen [] = Ok seen"
| "length_parts seen (part # parts) =
     (let t = trim part
      in if t = [] \<or> \<not> list_all is_ascii_digit t then Err (BadResponse ''bad Content-Length'')
         else res_bind (ok_or (BadResponse ''bad Content-Length'') (parse_unsigned U64_MAX t)) (\<lambda>n.
           if (case seen of Some prev \<Rightarrow> prev \<noteq> n | None \<Rightarrow> False) then Err (BadResponse ''conflicting Content-Length values'')
           else length_parts (Some n) parts))"

fun length_fields :: "nat option \<Rightarrow> (string \<times> string) list \<Rightarrow> nat option result" where
  "length_fields seen [] = Ok seen"
| "length_fields seen ((k, v) # fs) =
     (if \<not> eq_ignore_ascii_case k ''content-length'' then length_fields seen fs
      else res_bind (length_parts seen (split_on CHR '','' v)) (\<lambda>seen'. length_fields seen' fs))"

definition parse_content_length :: "(string \<times> string) list \<Rightarrow> nat option result" where
  "parse_content_length headers = length_fields None headers"

section \<open>The head block\<close>

fun find_header_end :: "bytes \<Rightarrow> nat option" where
  "find_header_end (a # b # r) =
     (if a = 0x0A \<and> b = 0x0A then Some 2
      else if a = 0x0D \<and> b = 0x0A \<and> take 2 r = [0x0D, 0x0A] then Some 4
      else map_option Suc (find_header_end (b # r)))"
| "find_header_end _ = None"

fun head_lines :: "nat \<Rightarrow> (string \<times> string) list \<Rightarrow> string list \<Rightarrow> (string \<times> string) list result" where
  "head_lines header_bytes headers [] = Ok headers"
| "head_lines header_bytes headers (raw # lines) =
     (let line = trim_end_matches (\<lambda>c. c = CR) raw
      in if line = [] then Ok headers
         else let n = header_bytes + length raw + 1
              in if n > MAX_HEADER_BYTES then Err (BadResponse ''headers exceed 64 KiB'')
                 else res_bind (push_header_line headers line) (\<lambda>hs. head_lines n hs lines))"

definition parse_head :: "bytes \<Rightarrow> response_head result" where
  "parse_head block =
     (case split_on LF (from_utf8_lossy block) of
        [] \<Rightarrow> Err (BadResponse ''not HTTP'')
      | l # lines \<Rightarrow>
          res_bind (parse_status_line (trim_end_matches (\<lambda>c. c = CR) l)) (\<lambda>(version, status, reason).
            res_bind (head_lines 0 [] lines) (\<lambda>headers.
              Ok \<lparr>rh_status = status, rh_reason = reason, rh_version = version, rh_headers = headers\<rparr>)))"

section \<open>Body framing\<close>

datatype body_mode = NoBody | LengthBody nat | ChunkedBody | EofBody

definition is_interim_status :: "nat \<Rightarrow> bool" where
  "is_interim_status status \<longleftrightarrow> 100 \<le> status \<and> status < 200 \<and> status \<noteq> 101"

definition bodyless :: "string \<Rightarrow> nat \<Rightarrow> bool" where
  "bodyless meth status \<longleftrightarrow> eq_ignore_ascii_case meth ''HEAD'' \<or> (100 \<le> status \<and> status < 200) \<or> status = 204 \<or> status = 304"

definition has_field :: "string \<Rightarrow> (string \<times> string) list \<Rightarrow> bool" where
  "has_field name headers \<longleftrightarrow> list_ex (\<lambda>(k, _). eq_ignore_ascii_case k name) headers"

definition is_chunked :: "(string \<times> string) list \<Rightarrow> bool" where
  "is_chunked headers \<longleftrightarrow>
     list_ex (\<lambda>(k, v). eq_ignore_ascii_case k ''transfer-encoding'' \<and> eq_ignore_ascii_case v ''chunked'') headers"

definition body_mode_of :: "string \<Rightarrow> response_head \<Rightarrow> bool \<Rightarrow> body_mode result" where
  "body_mode_of meth head streaming =
     (let headers = rh_headers head; has_te = has_field ''transfer-encoding'' headers; has_cl = has_field ''content-length'' headers
      in if bodyless meth (rh_status head) then Ok NoBody
         else if has_te \<and> has_cl then Err (BadResponse ''both Transfer-Encoding and Content-Length present'')
         else if is_chunked headers then Ok ChunkedBody
         else if has_te then Err (BadResponse ''unsupported Transfer-Encoding'')
         else res_bind (parse_content_length headers) (\<lambda>cl.
           case cl of
             Some len \<Rightarrow> if \<not> streaming \<and> len > MAX_BODY_BYTES then Err (BadResponse ''body too large'') else Ok (LengthBody len)
           | None \<Rightarrow> Ok EofBody))"

definition is_ascii_hexdigit :: "char \<Rightarrow> bool" where
  "is_ascii_hexdigit c \<longleftrightarrow> is_ascii_digit c \<or> (65 \<le> (of_char c :: nat) \<and> (of_char c :: nat) \<le> 70) \<or>
     (97 \<le> (of_char c :: nat) \<and> (of_char c :: nat) \<le> 102)"

definition hex_value :: "char \<Rightarrow> nat" where
  "hex_value c = (let n = of_char c in if n \<le> 57 then n - 48 else if n \<le> 70 then n - 55 else n - 87)"

text \<open>\<open>u64::from_str_radix(s, 16)\<close> on hexadecimal digits.\<close>

definition parse_hex_u64 :: "string \<Rightarrow> nat option" where
  "parse_hex_u64 s =
     (let n = foldl (\<lambda>a c. a * 16 + hex_value c) 0 s in if n \<le> U64_MAX then Some n else None)"

definition parse_chunk_size :: "bytes \<Rightarrow> nat result" where
  "parse_chunk_size line =
     (let size_str = hd (split_on CHR '';'' (trim_end_matches (\<lambda>c. c = CR \<or> c = LF) (from_utf8_lossy line)));
          s = trim size_str
      in if s = [] \<or> \<not> list_all is_ascii_hexdigit s then Err (BadResponse ''bad chunk size'')
         else ok_or (BadResponse ''bad chunk size'') (parse_hex_u64 s))"

end
