(* ===== verification/Http1.thy ===== *)
theory Http1
  imports Http1_Head
begin

text \<open>
  The sans-IO HTTP/1.1 client exchange (\<open>src/src/proto/http1.rs\<close>): a state machine fed with bytes as they
  arrive, which emits the decoded response. The chunked decoder works on the fields of the exchange it
  borrows, collected in the record \<open>chunker\<close>.
\<close>

section \<open>The chunked decoder\<close>

record chunk_state =
  remaining :: nat
  crlf_pending :: bool
  in_trailers :: bool
  trailer_bytes :: nat

definition chunk_state_default :: chunk_state where
  "chunk_state_default = \<lparr>remaining = 0, crlf_pending = False, in_trailers = False, trailer_bytes = 0\<rparr>"

record chunker = chunk_state +
  ck_rx :: bytes
  ck_body :: bytes
  ck_total :: nat

datatype progress = NeedMore | Finished | Failed error | Again

definition trim_eol :: "bytes \<Rightarrow> bytes" where
  "trim_eol line = rev (dropWhile (\<lambda>b. b = 0x0A \<or> b = 0x0D) (rev line))"

definition newline_pos :: "bytes \<Rightarrow> nat option" where
  "newline_pos rx = position (\<lambda>b. b = 0x0A) rx"

definition chunk_crlf :: "chunker \<Rightarrow> chunker \<times> progress" where
  "chunk_crlf c =
     (if \<not> crlf_pending c then (c, Again)
      else if length (ck_rx c) < 2 then (c, NeedMore)
      else if take 2 (ck_rx c) \<noteq> [0x0D, 0x0A] then (c, Failed (BadResponse ''missing CRLF after chunk''))
      else (c\<lparr>ck_rx := drop 2 (ck_rx c), crlf_pending := False\<rparr>, Again))"

definition chunk_trailer :: "chunker \<Rightarrow> chunker \<times> progress" where
  "chunk_trailer c =
     (case newline_pos (ck_rx c) of
        None \<Rightarrow> (c, if length (ck_rx c) > MAX_HEADER_BYTES then Failed (BadResponse ''trailer block too large'') else NeedMore)
      | Some nl \<Rightarrow>
          let blank = (trim_eol (take (nl + 1) (ck_rx c)) = []); c1 = c\<lparr>ck_rx := drop (nl + 1) (ck_rx c)\<rparr>
          in if blank then (c1, Finished)
             else let c2 = c1\<lparr>trailer_bytes := saturating_add_u64 (trailer_bytes c) (nl + 1)\<rparr>
                  in (c2, if trailer_bytes c2 > MAX_HEADER_BYTES then Failed (BadResponse ''trailer block too large'') else Again))"

definition chunk_data :: "chunker \<Rightarrow> chunker \<times> progress" where
  "chunk_data c =
     (let n = min (remaining c) (length (ck_rx c))
      in if n = 0 then (c, NeedMore)
         else (c\<lparr>ck_body := ck_body c @ take n (ck_rx c), ck_rx := drop n (ck_rx c), ck_total := ck_total c + n,
                 remaining := remaining c - n, crlf_pending := (if remaining c - n = 0 then True else crlf_pending c)\<rparr>, Again))"

definition chunk_size :: "bool \<Rightarrow> chunker \<Rightarrow> chunker \<times> progress" where
  "chunk_size streaming c =
     (case newline_pos (ck_rx c) of
        None \<Rightarrow> (c, if length (ck_rx c) > MAX_HEADER_BYTES then Failed (BadResponse ''chunk size line too large'') else NeedMore)
      | Some nl \<Rightarrow>
          (case parse_chunk_size (take (nl + 1) (ck_rx c)) of
             Inl e \<Rightarrow> (c, Failed e)
           | Inr size0 \<Rightarrow>
               let c1 = c\<lparr>ck_rx := drop (nl + 1) (ck_rx c)\<rparr>
               in if \<not> streaming \<and> saturating_add_u64 (ck_total c) size0 > MAX_BODY_BYTES
                  then (c1, Failed (BadResponse ''body too large''))
                  else if size0 = 0 then (c1\<lparr>in_trailers := True\<rparr>, Again)
                  else (c1\<lparr>remaining := size0\<rparr>, Again)))"

text \<open>One turn of the loop of \<open>advance_chunked\<close>, and the loop.\<close>

definition chunk_main :: "bool \<Rightarrow> chunker \<Rightarrow> chunker \<times> progress" where
  "chunk_main streaming c =
     (if in_trailers c then chunk_trailer c else if remaining c > 0 then chunk_data c else chunk_size streaming c)"

definition chunk_iter :: "bool \<Rightarrow> chunker \<Rightarrow> chunker \<times> progress" where
  "chunk_iter streaming c = (case chunk_crlf c of (c1, Again) \<Rightarrow> chunk_main streaming c1 | r \<Rightarrow> r)"

lemma chunk_crlf_rx: "chunk_crlf c = (c', p) \<Longrightarrow> length (ck_rx c') \<le> length (ck_rx c)"
  by (auto simp: chunk_crlf_def split: if_splits)

lemma newline_pos_lt: "newline_pos rx = Some n \<Longrightarrow> n < length rx"
  by (auto simp: newline_pos_def dest: position_SomeD)

lemma chunk_main_rx: "chunk_main s c = (c', Again) \<Longrightarrow> length (ck_rx c') < length (ck_rx c)"
  by (auto simp: chunk_main_def chunk_trailer_def chunk_data_def chunk_size_def Let_def dest: newline_pos_lt
      split: if_splits option.splits sum.splits)

lemma chunk_iter_rx: "chunk_iter s c = (c', Again) \<Longrightarrow> length (ck_rx c') < length (ck_rx c)"
  by (auto simp: chunk_iter_def dest!: chunk_crlf_rx chunk_main_rx split: prod.splits progress.splits)

function chunk_loop :: "bool \<Rightarrow> chunker \<Rightarrow> chunker \<times> progress" where
  "chunk_loop s c = (case chunk_iter s c of (c', Again) \<Rightarrow> chunk_loop s c' | r \<Rightarrow> r)"
  by pat_completeness auto
termination
  by (relation "measure (\<lambda>(s, c). length (ck_rx c))") (auto simp: chunk_iter_rx)

declare chunk_loop.simps [simp del]

section \<open>The exchange\<close>

datatype event = EvResponse response_head bytes | EvHead response_head | EvBody bytes | EvEnd

datatype xstate = XHead | XLength nat | XChunked chunk_state | XEof | XDone

abbreviation (input) MAX_INTERIM_RESPONSES :: nat where "MAX_INTERIM_RESPONSES \<equiv> 32"

record exchange =
  x_out :: bytes
  x_method :: string
  x_rx :: bytes
  x_state :: xstate
  x_head :: "response_head option"
  x_body :: bytes
  x_total :: nat
  x_events :: "event list"
  x_streaming :: bool
  x_head_emitted :: bool
  x_interim :: nat

definition to_ascii_uppercase :: "string \<Rightarrow> string" where
  "to_ascii_uppercase s = map (\<lambda>c. if is_ascii_lowercase c then char_of ((of_char c :: nat) - 32) else c) s"

definition build :: "string \<Rightarrow> bytes \<Rightarrow> bool \<Rightarrow> exchange" where
  "build meth request_bytes streaming =
     \<lparr>x_out = request_bytes, x_method = to_ascii_uppercase meth, x_rx = [], x_state = XHead, x_head = None, x_body = [],
      x_total = 0, x_events = [], x_streaming = streaming, x_head_emitted = False, x_interim = 0\<rparr>"

definition encode_request :: "string \<Rightarrow> string \<Rightarrow> (string \<times> string) list \<Rightarrow> bytes \<Rightarrow> bytes" where
  "encode_request meth target headers body =
     as_bytes meth @ [0x20] @ as_bytes target @ as_bytes '' HTTP/1.1'' @ [0x0D, 0x0A] @
     concat (map (\<lambda>(k, v). as_bytes k @ as_bytes '': '' @ as_bytes v @ [0x0D, 0x0A]) headers) @ [0x0D, 0x0A] @ body"

definition emit_streaming :: "exchange \<Rightarrow> exchange" where
  "emit_streaming x =
     (let x1 = (case x_head x of
            Some h \<Rightarrow> if \<not> x_head_emitted x then x\<lparr>x_events := x_events x @ [EvHead h], x_head_emitted := True\<rparr> else x
          | None \<Rightarrow> x)
      in if x_body x1 \<noteq> [] then x1\<lparr>x_events := x_events x1 @ [EvBody (x_body x1)], x_body := []\<rparr> else x1)"

text \<open>\<open>finish\<close>, with the assignment of the \<open>Done\<close> state it is always used in; the head is set before.\<close>

definition finish :: "exchange \<Rightarrow> exchange" where
  "finish x =
     (if x_streaming x then (let x1 = emit_streaming x in x1\<lparr>x_events := x_events x1 @ [EvEnd], x_state := XDone\<rparr>)
      else x\<lparr>x_events := x_events x @ [EvResponse (the (x_head x)) (x_body x)], x_body := [], x_state := XDone\<rparr>)"

definition to_chunker :: "chunk_state \<Rightarrow> exchange \<Rightarrow> chunker" where
  "to_chunker cs x = \<lparr>remaining = remaining cs, crlf_pending = crlf_pending cs, in_trailers = in_trailers cs,
     trailer_bytes = trailer_bytes cs, ck_rx = x_rx x, ck_body = x_body x, ck_total = x_total x\<rparr>"

definition of_chunker :: "chunker \<Rightarrow> exchange \<Rightarrow> exchange" where
  "of_chunker c x = x\<lparr>x_state := XChunked \<lparr>remaining = remaining c, crlf_pending = crlf_pending c, in_trailers = in_trailers c,
     trailer_bytes = trailer_bytes c\<rparr>, x_rx := ck_rx c, x_body := ck_body c, x_total := ck_total c\<rparr>"

definition advance_chunked :: "chunk_state \<Rightarrow> exchange \<Rightarrow> exchange \<times> bool result" where
  "advance_chunked cs x =
     (let (c, p) = chunk_loop (x_streaming x) (to_chunker cs x)
      in (of_chunker c x, case p of Finished \<Rightarrow> Ok True | Failed e \<Rightarrow> Err e | _ \<Rightarrow> Ok False))"

definition enter_body :: "body_mode \<Rightarrow> exchange \<Rightarrow> exchange" where
  "enter_body mode x =
     (case mode of
        NoBody \<Rightarrow> finish x
      | LengthBody n \<Rightarrow> if n = 0 then finish x else x\<lparr>x_state := XLength n\<rparr>
      | ChunkedBody \<Rightarrow> x\<lparr>x_state := XChunked chunk_state_default\<rparr>
      | EofBody \<Rightarrow> x\<lparr>x_state := XEof\<rparr>)"

lemma find_header_end_bounds: "find_header_end rx = Some e \<Longrightarrow> 2 \<le> e \<and> e \<le> length rx"
proof (induction rx arbitrary: e rule: find_header_end.induct)
  case (1 a b r)
  show ?case
  proof (cases "a = 0x0D \<and> b = 0x0A \<and> take 2 r = [0x0D, 0x0A]")
    case True
    then have "2 \<le> length r" by (metis length_Cons length_take list.size(3) min.cobounded1 numeral_2_eq_2 One_nat_def min_def)
    with True 1 show ?thesis by (auto split: if_splits)
  next
    case False
    with 1 show ?thesis by (fastforce split: if_splits)
  qed
qed auto

definition state_rank :: "xstate \<Rightarrow> nat" where
  "state_rank s = (case s of XHead \<Rightarrow> 2 | XDone \<Rightarrow> 0 | _ \<Rightarrow> 1)"

lemma finish_simps [simp]: "x_rx (finish x) = x_rx x" "x_state (finish x) = XDone" "x_rx (of_chunker c x) = ck_rx c"
    "ck_rx (to_chunker cs x) = x_rx x"
  by (auto simp: finish_def emit_streaming_def of_chunker_def to_chunker_def Let_def split: option.splits)

lemma enter_body_rx [simp]: "x_rx (enter_body mode x) = x_rx x" "state_rank (x_state (enter_body mode x)) \<le> 1"
  by (auto simp: enter_body_def state_rank_def split: body_mode.splits)

lemma chunk_loop_rx: "chunk_loop s c = (c', p) \<Longrightarrow> length (ck_rx c') \<le> length (ck_rx c)"
proof (induction s c arbitrary: c' p rule: chunk_loop.induct)
  case (1 s c)
  obtain c1 q where i: "chunk_iter s c = (c1, q)" by fastforce
  have le: "length (ck_rx c1) \<le> length (ck_rx c)"
  proof -
    obtain c2 p2 where c2: "chunk_crlf c = (c2, p2)" by fastforce
    then show ?thesis
      using i chunk_crlf_rx [OF c2]
      by (cases p2) (auto simp: chunk_iter_def chunk_main_def chunk_trailer_def chunk_data_def chunk_size_def Let_def
          split: if_splits option.splits sum.splits)
  qed
  show ?case
  proof (cases "q = Again")
    case True
    with "1.prems" i have "chunk_loop s c1 = (c', p)" by (subst (asm) chunk_loop.simps) simp
    from "1.IH" [OF i [symmetric] True this] le show ?thesis by simp
  next
    case False
    with "1.prems" i have "c' = c1" by (subst (asm) chunk_loop.simps) (simp split: progress.splits)
    with le show ?thesis by simp
  qed
qed

text \<open>One turn of the loop of \<open>advance\<close>: \<open>None\<close> goes round again, \<open>Some\<close> returns.\<close>

definition advance_head :: "exchange \<Rightarrow> exchange \<times> unit result option" where
  "advance_head x =
     (case find_header_end (x_rx x) of
        None \<Rightarrow> (x, Some (if length (x_rx x) > MAX_HEADER_BYTES then Err (BadResponse ''headers exceed 64 KiB'') else Ok ()))
      | Some e \<Rightarrow>
          (case parse_head (take e (x_rx x)) of
             Inl er \<Rightarrow> (x, Some (Err er))
           | Inr head \<Rightarrow>
               (let x1 = x\<lparr>x_rx := drop e (x_rx x)\<rparr>
                in if is_interim_status (rh_status head) then
                     (let x2 = x1\<lparr>x_interim := x_interim x + 1\<rparr>
                      in (x2, if x_interim x2 > MAX_INTERIM_RESPONSES
                              then Some (Err (BadResponse ''too many interim (1xx) responses'')) else None))
                   else (case body_mode_of (x_method x) head (x_streaming x) of
                           Inl er \<Rightarrow> (x1, Some (Err er))
                         | Inr mode \<Rightarrow> (enter_body mode (x1\<lparr>x_head := Some head\<rparr>), None)))))"

definition take_all :: "exchange \<Rightarrow> exchange" where
  "take_all x = x\<lparr>x_total := x_total x + length (x_rx x), x_body := x_body x @ x_rx x, x_rx := []\<rparr>"

definition advance_turn :: "exchange \<Rightarrow> exchange \<times> unit result option" where
  "advance_turn x =
     (case x_state x of
        XHead \<Rightarrow> advance_head x
      | XLength n \<Rightarrow>
          if x_total x + length (x_rx x) \<ge> n then
            (let need = n - x_total x
             in (finish (x\<lparr>x_body := x_body x @ take need (x_rx x), x_rx := drop need (x_rx x), x_total := x_total x + need\<rparr>), None))
          else (take_all x, Some (Ok ()))
      | XChunked cs \<Rightarrow>
          (case advance_chunked cs x of
             (x1, Inl e) \<Rightarrow> (x1, Some (Err e))
           | (x1, Inr fin) \<Rightarrow> if fin then (finish x1, None) else (x1, Some (Ok ())))
      | XEof \<Rightarrow>
          if \<not> x_streaming x \<and> x_total x + length (x_rx x) > MAX_BODY_BYTES then (x, Some (Err (BadResponse ''body too large'')))
          else (take_all x, Some (Ok ()))
      | XDone \<Rightarrow> (x, Some (Ok ())))"

lemma advance_head_decreases: "advance_head x = (x', None) \<Longrightarrow> length (x_rx x') < length (x_rx x)"
proof -
  assume h: "advance_head x = (x', None)"
  then obtain e where e: "find_header_end (x_rx x) = Some e" by (auto simp: advance_head_def split: option.splits)
  with h have "x_rx x' = drop e (x_rx x)" by (auto simp: advance_head_def Let_def split: sum.splits if_splits)
  with find_header_end_bounds [OF e] show ?thesis by simp linarith
qed

lemma advance_turn_decreases:
  assumes "advance_turn x = (x', None)"
  shows "length (x_rx x') < length (x_rx x) \<or> (length (x_rx x') = length (x_rx x) \<and> state_rank (x_state x') < state_rank (x_state x))"
proof (cases "x_state x")
  case XHead
  with assms show ?thesis by (simp add: advance_turn_def advance_head_decreases)
next
  case (XChunked cs)
  then obtain c where c: "chunk_loop (x_streaming x) (to_chunker cs x) = (c, Finished)" "x' = finish (of_chunker c x)"
    using assms by (auto simp: advance_turn_def advance_chunked_def split: prod.splits progress.splits)
  with chunk_loop_rx [OF c(1)] XChunked show ?thesis by (auto simp: state_rank_def)
qed (use assms in \<open>auto simp: advance_turn_def Let_def state_rank_def split: if_splits\<close>)

function advance :: "exchange \<Rightarrow> exchange \<times> unit result" where
  "advance x = (case advance_turn x of (x', None) \<Rightarrow> advance x' | (x', Some r) \<Rightarrow> (x', r))"
  by pat_completeness auto
termination
  by (relation "measures [\<lambda>x. length (x_rx x), \<lambda>x. state_rank (x_state x)]") (use advance_turn_decreases in force)+

declare advance.simps [simp del]

section \<open>The interface of the machine\<close>

definition handle_input :: "exchange \<Rightarrow> bytes \<Rightarrow> exchange \<times> nat result" where
  "handle_input x wire =
     (if x_state x = XDone then (x, Ok 0)
      else case advance (x\<lparr>x_rx := x_rx x @ wire\<rparr>) of
          (x1, Inl e) \<Rightarrow> (x1, Err e)
        | (x1, Inr _) \<Rightarrow> (if x_streaming x1 then emit_streaming x1 else x1, Ok (length wire)))"

definition handle_eof :: "exchange \<Rightarrow> exchange \<times> unit result" where
  "handle_eof x =
     (case x_state x of
        XEof \<Rightarrow> (finish (x\<lparr>x_body := x_body x @ x_rx x, x_rx := []\<rparr>), Ok ())
      | XDone \<Rightarrow> (x, Ok ())
      | _ \<Rightarrow> (x, Err UnexpectedEof))"

definition poll_transmit :: "exchange \<Rightarrow> exchange \<times> bytes \<times> bool" where
  "poll_transmit x = (if x_out x = [] then (x, [], False) else (x\<lparr>x_out := []\<rparr>, x_out x, True))"

definition poll_event :: "exchange \<Rightarrow> exchange \<times> event option" where
  "poll_event x = (case x_events x of [] \<Rightarrow> (x, None) | e # es \<Rightarrow> (x\<lparr>x_events := es\<rparr>, Some e))"

definition is_finished :: "exchange \<Rightarrow> bool" where
  "is_finished x \<longleftrightarrow> x_state x = XDone \<and> x_events x = []"

end
