(* ===== verification/Http1_Props.thy ===== *)
theory Http1_Props
  imports Http1
begin

text \<open>
  Properties of the HTTP/1.1 exchange: decoding does not depend on how the input is cut into pieces, the chunked
  decoder accepts exactly the chunked grammar, and memory stays bounded.
\<close>

section \<open>More input\<close>

definition ck_more :: "chunker \<Rightarrow> bytes \<Rightarrow> chunker" where
  "ck_more c b = c\<lparr>ck_rx := ck_rx c @ b\<rparr>"

definition x_more :: "exchange \<Rightarrow> bytes \<Rightarrow> exchange" where
  "x_more x b = x\<lparr>x_rx := x_rx x @ b\<rparr>"

lemma newline_pos_append: "newline_pos rx = Some n \<Longrightarrow> newline_pos (rx @ b) = Some n"
  by (simp add: newline_pos_def position_append)

lemma chunk_crlf_more:
  assumes "chunk_crlf c = (c1, Again)"
  shows "chunk_crlf (ck_more c b) = (ck_more c1 b, Again)" "\<not> crlf_pending c1"
  using assms by (auto simp: chunk_crlf_def ck_more_def take_append drop_append split: if_splits)

text \<open>A turn that goes on or finishes is unaffected by more input, except that a data turn may take more.\<close>

lemma chunk_main_more:
  assumes "chunk_main s c = (c', p)" "p = Again \<or> p = Finished" "\<not> (\<not> in_trailers c \<and> 0 < remaining c)"
  shows "chunk_main s (ck_more c b) = (ck_more c' b, p)"
  using assms newline_pos_append newline_pos_lt
  by (auto simp: chunk_main_def chunk_trailer_def chunk_size_def ck_more_def Let_def take_append drop_append Suc_le_eq
      split: if_splits option.splits sum.splits)

lemma chunk_need_more_same: "chunk_crlf c = (c', NeedMore) \<Longrightarrow> c' = c" "chunk_main s c = (c', NeedMore) \<Longrightarrow> c' = c"
proof -
  show "chunk_crlf c = (c', NeedMore) \<Longrightarrow> c' = c" by (auto simp: chunk_crlf_def split: if_splits)
  have "chunk_trailer c = (c', NeedMore) \<Longrightarrow> c' = c" by (auto simp: chunk_trailer_def Let_def split: if_splits option.splits)
  moreover have "chunk_data c = (c', NeedMore) \<Longrightarrow> c' = c" by (auto simp: chunk_data_def Let_def split: if_splits)
  moreover have "chunk_size s c = (c', NeedMore) \<Longrightarrow> c' = c"
    by (auto simp: chunk_size_def Let_def split: if_splits option.splits sum.splits)
  ultimately show "chunk_main s c = (c', NeedMore) \<Longrightarrow> c' = c" unfolding chunk_main_def by metis
qed

lemma chunk_loop_cong: "chunk_iter s c = chunk_iter s c' \<Longrightarrow> chunk_loop s c = chunk_loop s c'"
  by (simp only: chunk_loop.simps [of s c] chunk_loop.simps [of s c'])

lemma chunk_loop_again: "chunk_iter s c = (c', Again) \<Longrightarrow> chunk_loop s c = chunk_loop s c'"
  by (simp add: chunk_loop.simps [of s c])

lemma chunk_loop_stop: "chunk_iter s c = (c', p) \<Longrightarrow> p \<noteq> Again \<Longrightarrow> chunk_loop s c = (c', p)"
  by (subst chunk_loop.simps) (simp split: progress.splits)

lemma chunk_iter_idle: "\<not> crlf_pending c \<Longrightarrow> chunk_iter s c = chunk_main s c"
  by (simp add: chunk_iter_def chunk_crlf_def)

lemma ck_more_simps [simp]:
  "remaining (ck_more c b) = remaining c" "crlf_pending (ck_more c b) = crlf_pending c" "in_trailers (ck_more c b) = in_trailers c"
  "ck_rx (ck_more c b) = ck_rx c @ b" "ck_more c [] = c" "ck_body (ck_more c b) = ck_body c" "ck_total (ck_more c b) = ck_total c"
  by (simp_all add: ck_more_def)

lemma chunk_data_more:
  assumes "chunk_data c = (c', Again)" "\<not> crlf_pending c"
  shows "if remaining c \<le> length (ck_rx c) then chunk_data (ck_more c b) = (ck_more c' b, Again)
    else ck_rx c' = [] \<and> 0 < remaining c' \<and> \<not> crlf_pending c' \<and> in_trailers c' = in_trailers c \<and>
      (b \<noteq> [] \<longrightarrow> chunk_data (ck_more c b) = chunk_data (ck_more c' b))"
proof (cases "remaining c \<le> length (ck_rx c)")
  case True
  with assms show ?thesis by (auto simp: chunk_data_def Let_def ck_more_def min_def take_append drop_append split: if_splits)
next
  case False
  then have "c' = c\<lparr>ck_body := ck_body c @ ck_rx c, ck_rx := [], ck_total := ck_total c + length (ck_rx c),
      remaining := remaining c - length (ck_rx c)\<rparr>"
    using assms by (auto simp: chunk_data_def Let_def min_def split: if_splits)
  with False assms(2) show ?thesis
    by (auto simp: chunk_data_def Let_def ck_more_def min_def take_append drop_append diff_diff_eq)
qed

lemma chunk_iter_more:
  assumes "chunk_iter s c = (c1, Again)"
  shows "chunk_iter s (ck_more c b) = (ck_more c1 b, Again) \<or>
    (chunk_loop s c1 = (c1, NeedMore) \<and> chunk_loop s (ck_more c b) = chunk_loop s (ck_more c1 b))"
proof -
  from assms obtain c0 where c0: "chunk_crlf c = (c0, Again)" "chunk_main s c0 = (c1, Again)"
    by (auto simp: chunk_iter_def split: prod.splits progress.splits)
  note m = chunk_crlf_more(1) [OF c0(1), of b] chunk_crlf_more(2) [OF c0(1)]
  have it: "chunk_iter s (ck_more c b) = chunk_main s (ck_more c0 b)" using m by (simp add: chunk_iter_def)
  show ?thesis
  proof (cases "\<not> in_trailers c0 \<and> 0 < remaining c0")
    case False
    then show ?thesis using chunk_main_more [OF c0(2)] it by simp
  next
    case True
    then have d: "chunk_data c0 = (c1, Again)" "chunk_main s (ck_more c0 b) = chunk_data (ck_more c0 b)"
      using c0(2) by (auto simp: chunk_main_def)
    note dm = chunk_data_more [OF d(1) m(2), of b]
    show ?thesis
    proof (cases "remaining c0 \<le> length (ck_rx c0)")
      case True
      with dm d(2) it show ?thesis by simp
    next
      case False
      with dm True have c1: "ck_rx c1 = []" "0 < remaining c1" "\<not> crlf_pending c1" "\<not> in_trailers c1" by simp_all
      then have "chunk_iter s c1 = (c1, NeedMore)" by (simp add: chunk_iter_idle chunk_main_def chunk_data_def)
      then have nm: "chunk_loop s c1 = (c1, NeedMore)" by (simp add: chunk_loop_stop)
      have "chunk_loop s (ck_more c b) = chunk_loop s (ck_more c1 b)"
      proof (cases "b = []")
        case True
        then show ?thesis using chunk_loop_again [OF assms] by simp
      next
        case b: False
        have "chunk_iter s (ck_more c1 b) = chunk_data (ck_more c1 b)" using c1 by (simp add: chunk_iter_idle chunk_main_def)
        with it d(2) dm False b show ?thesis by (intro chunk_loop_cong) simp
      qed
      with nm show ?thesis by simp
    qed
  qed
qed

lemma chunk_loop_more:
  assumes "chunk_loop s c = (c', p)" "\<And>e. p \<noteq> Failed e"
  shows "chunk_loop s (ck_more c b) = (if p = Finished then (ck_more c' b, Finished) else chunk_loop s (ck_more c' b))"
  using assms
proof (induction s c arbitrary: c' p rule: chunk_loop.induct)
  case (1 s c)
  obtain c1 q where i: "chunk_iter s c = (c1, q)" by fastforce
  show ?case
  proof (cases q)
    case Again
    then have l: "chunk_loop s c1 = (c', p)" using "1.prems"(1) chunk_loop_again i by metis
    from chunk_iter_more [OF i [unfolded Again], of b] show ?thesis
    proof
      assume "chunk_iter s (ck_more c b) = (ck_more c1 b, Again)"
      then show ?thesis using "1.IH" [OF i [symmetric] Again l "1.prems"(2)] by (simp add: chunk_loop_again)
    qed (use l in auto)
  next
    case NeedMore
    then have cp: "c' = c1" "p = NeedMore" using "1.prems"(1) chunk_loop_stop [OF i] by simp_all
    obtain c0 q0 where c0: "chunk_crlf c = (c0, q0)" by fastforce
    show ?thesis
    proof (cases "q0 = Again")
      case True
      with i NeedMore c0 have "chunk_main s c0 = (c1, NeedMore)" by (simp add: chunk_iter_def)
      then have "c1 = c0" by (rule chunk_need_more_same)
      moreover have "chunk_iter s (ck_more c b) = chunk_main s (ck_more c0 b)" "\<not> crlf_pending c0"
        using chunk_crlf_more [OF c0 [unfolded True]] by (simp_all add: chunk_iter_def)
      ultimately show ?thesis using cp by (simp add: chunk_loop_cong chunk_iter_idle)
    next
      case False
      with i NeedMore c0 have "c1 = c" by (cases q0) (auto simp: chunk_iter_def dest: chunk_need_more_same)
      with cp show ?thesis by simp
    qed
  next
    case Finished
    then have cp: "c' = c1" "p = Finished" using "1.prems"(1) chunk_loop_stop [OF i] by simp_all
    from i Finished obtain c0 where c0: "chunk_crlf c = (c0, Again)" "chunk_main s c0 = (c1, Finished)"
      by (auto simp: chunk_iter_def chunk_crlf_def split: prod.splits progress.splits if_splits)
    then have "in_trailers c0" by (auto simp: chunk_main_def chunk_data_def chunk_size_def Let_def split: if_splits option.splits sum.splits)
    then have "chunk_main s (ck_more c0 b) = (ck_more c1 b, Finished)" using chunk_main_more [OF c0(2), of b] by simp
    then have "chunk_iter s (ck_more c b) = (ck_more c1 b, Finished)" using chunk_crlf_more(1) [OF c0(1), of b] by (simp add: chunk_iter_def)
    with cp show ?thesis by (simp add: chunk_loop_stop)
  next
    case (Failed e)
    with "1.prems"(1) chunk_loop_stop [OF i] have "p = Failed e" by simp
    with "1.prems"(2) show ?thesis by blast
  qed
qed

section \<open>The machine does not depend on how its input is cut\<close>

lemma find_header_end_append: "find_header_end rx = Some e \<Longrightarrow> find_header_end (rx @ b) = Some e"
proof (induction rx arbitrary: e rule: find_header_end.induct)
  case (1 a c r)
  show ?case
  proof (cases "a = 0x0A \<and> c = 0x0A \<or> (a = 0x0D \<and> c = 0x0A \<and> take 2 r = [0x0D, 0x0A])")
    case True
    moreover from this have "take 2 (r @ b) = [0x0D, 0x0A]" if "take 2 r = [0x0D, 0x0A]"
      using that by (cases r; cases "tl r") auto
    ultimately show ?thesis using "1.prems" by auto
  next
    case False
    then have "find_header_end (a # c # r) = map_option Suc (find_header_end (c # r))" by auto
    with "1.prems" obtain k where k: "find_header_end (c # r) = Some k" "e = Suc k"
      by (metis (no_types, lifting) map_option_eq_Some)
    then have ih: "find_header_end ((c # r) @ b) = Some k" using "1.IH" False by auto
    have "\<not> (a = 0x0D \<and> c = 0x0A \<and> take 2 (r @ b) = [0x0D, 0x0A])"
    proof
      assume n: "a = 0x0D \<and> c = 0x0A \<and> take 2 (r @ b) = [0x0D, 0x0A]"
      have "length r < 2" using n False by (cases r; cases "tl r") auto
      with k(1) n show False by (cases r) (auto split: if_splits)
    qed
    with False ih k show ?thesis by auto
  qed
qed auto

lemma advance_stop: "advance_turn x = (x', Some r) \<Longrightarrow> advance x = (x', r)"
  by (simp add: advance.simps [of x])

lemma advance_go: "advance_turn x = (x', None) \<Longrightarrow> advance x = advance x'"
  by (simp add: advance.simps [of x])

lemma x_more_simps [simp]:
  "x_state (x_more x b) = x_state x" "x_rx (x_more x b) = x_rx x @ b" "x_streaming (x_more x b) = x_streaming x" "x_more x [] = x"
  "x_method (x_more x b) = x_method x" "x_body (x_more x b) = x_body x" "x_total (x_more x b) = x_total x"
  "x_more (x_more x b) b' = x_more x (b @ b')"
  by (simp_all add: x_more_def)

lemma finish_more: "finish (x_more x b) = x_more (finish x) b"
  by (simp add: finish_def emit_streaming_def x_more_def Let_def split: option.splits)

lemma enter_body_more: "enter_body mode (x_more x b) = x_more (enter_body mode x) b"
  using finish_more [of x b] by (simp add: enter_body_def split: body_mode.splits) (simp add: x_more_def)

lemma to_chunker_more: "to_chunker cs (x_more x b) = ck_more (to_chunker cs x) b" "of_chunker (ck_more c b) (x_more x b') = x_more (of_chunker c x) b"
  by (simp_all add: to_chunker_def of_chunker_def x_more_def ck_more_def)

text \<open>A turn that goes round again is the same with more input; so is what follows a turn that waits.\<close>

lemma advance_turn_go_more: "advance_turn x = (x', None) \<Longrightarrow> advance_turn (x_more x b) = (x_more x' b, None)"
proof -
  assume t: "advance_turn x = (x', None)"
  show ?thesis
  proof (cases "x_state x")
    case XHead
    then have h: "advance_head x = (x', None)" using t by (simp add: advance_turn_def)
    then obtain e where e: "find_header_end (x_rx x) = Some e" by (auto simp: advance_head_def split: option.splits)
    have eb: "e \<le> length (x_rx x)" "find_header_end (x_rx x @ b) = Some e"
      using find_header_end_bounds [OF e] find_header_end_append [OF e] by simp_all
    have i: "x_interim (x_more y b) = x_interim y"
      "(x_more y b)\<lparr>x_rx := r @ b, x_interim := k\<rparr> = x_more (y\<lparr>x_rx := r, x_interim := k\<rparr>) b"
      "(x_more y b)\<lparr>x_rx := r @ b, x_head := hd0\<rparr> = x_more (y\<lparr>x_rx := r, x_head := hd0\<rparr>) b" for y r k hd0
      by (simp_all add: x_more_def)
    have "advance_head (x_more x b) = (x_more x' b, None)"
      using h e eb by (auto simp: advance_head_def Let_def i enter_body_more split: sum.splits if_splits)
    with XHead show ?thesis by (simp add: advance_turn_def)
  next
    case (XLength n)
    with t show ?thesis
      by (auto simp: advance_turn_def Let_def finish_more [symmetric] split: if_splits)
        (rule arg_cong [where f = finish], simp add: x_more_def take_append drop_append)
  next
    case (XChunked cs)
    then obtain c where c: "chunk_loop (x_streaming x) (to_chunker cs x) = (c, Finished)" "x' = finish (of_chunker c x)"
      using t by (auto simp: advance_turn_def advance_chunked_def split: prod.splits progress.splits)
    with chunk_loop_more [OF c(1), of b] XChunked show ?thesis
      by (simp add: advance_turn_def advance_chunked_def to_chunker_more finish_more)
  next
    case XEof
    with t show ?thesis by (auto simp: advance_turn_def split: if_splits)
  next
    case XDone
    with t show ?thesis by (simp add: advance_turn_def)
  qed
qed

lemma advance_turn_wait_more:
  assumes t: "advance_turn x = (x', Some (Ok ()))" and ok: "advance (x_more x' b) = (y, Ok ())"
  shows "advance (x_more x b) = (y, Ok ())"
proof -
  have "advance (x_more x b) = advance (x_more x' b)"
  proof (cases "x_state x")
    case XHead
    with t have "x' = x" by (auto simp: advance_turn_def advance_head_def Let_def split: option.splits sum.splits if_splits)
    then show ?thesis by simp
  next
    case (XLength n)
    with t have w: "x' = take_all x" "x_total x + length (x_rx x) < n" by (auto simp: advance_turn_def Let_def split: if_splits)
    have "advance_turn (x_more x b) = advance_turn (x_more (take_all x) b)"
      using XLength w by (auto simp: advance_turn_def take_all_def x_more_def Let_def take_append drop_append)
    with w show ?thesis by (simp only: advance.simps [of "x_more x b"] advance.simps [of "x_more (take_all x) b"])
  next
    case (XChunked cs)
    then obtain c p where c: "chunk_loop (x_streaming x) (to_chunker cs x) = (c, p)" "x' = of_chunker c x" "\<And>e. p \<noteq> Failed e" "p \<noteq> Finished"
      using t by (auto simp: advance_turn_def advance_chunked_def split: prod.splits progress.splits)
    define cs' where "cs' = \<lparr>remaining = remaining c, crlf_pending = crlf_pending c, in_trailers = in_trailers c, trailer_bytes = trailer_bytes c\<rparr>"
    have x': "x_state x' = XChunked cs'" "to_chunker cs' x' = c" by (simp_all add: c(2) of_chunker_def cs'_def to_chunker_def)
    have "of_chunker k (x_more x b) = of_chunker k (x_more x' b)" "x_streaming x' = x_streaming x" for k
      by (simp_all add: c(2) of_chunker_def x_more_def)
    moreover have "chunk_loop (x_streaming x) (to_chunker cs (x_more x b)) = chunk_loop (x_streaming x) (to_chunker cs' (x_more x' b))"
      using chunk_loop_more [OF c(1,3)] c(4) by (simp add: to_chunker_more x'(2))
    ultimately have "advance_chunked cs (x_more x b) = advance_chunked cs' (x_more x' b)" by (simp add: advance_chunked_def)
    then have "advance_turn (x_more x b) = advance_turn (x_more x' b)" using XChunked x'(1) by (simp add: advance_turn_def)
    then show ?thesis by (simp only: advance.simps [of "x_more x b"] advance.simps [of "x_more x' b"])
  next
    case XEof
    with t have w: "x' = take_all x" by (auto simp: advance_turn_def split: if_splits)
    have "\<not> (\<not> x_streaming x \<and> x_total x + length (x_rx x @ b) > MAX_BODY_BYTES)"
    proof
      assume big: "\<not> x_streaming x \<and> x_total x + length (x_rx x @ b) > MAX_BODY_BYTES"
      then have "advance_turn (x_more x' b) = (x_more x' b, Some (Err (BadResponse ''body too large'')))"
        using XEof by (simp add: w advance_turn_def take_all_def x_more_def)
      with ok advance_stop show False by fastforce
    qed
    then have "advance_turn (x_more x b) = advance_turn (x_more (take_all x) b)"
      using XEof by (auto simp: advance_turn_def take_all_def x_more_def)
    with w show ?thesis by (simp only: advance.simps [of "x_more x b"] advance.simps [of "x_more (take_all x) b"])
  next
    case XDone
    with t show ?thesis by (simp add: advance_turn_def)
  qed
  with ok show ?thesis by simp
qed

lemma advance_more:
  assumes "advance x = (x', Ok ())" "advance (x_more x' b) = (y, Ok ())"
  shows "advance (x_more x b) = (y, Ok ())"
  using assms
proof (induction x rule: advance.induct)
  case (1 x)
  obtain x1 r where t: "advance_turn x = (x1, r)" by fastforce
  show ?case
  proof (cases r)
    case None
    then have "advance x1 = (x', Ok ())" using "1.prems"(1) advance_go t by metis
    then have "advance (x_more x1 b) = (y, Ok ())" using "1.IH" [OF t [symmetric] None] "1.prems"(2) by simp
    with advance_go [OF advance_turn_go_more] t None show ?thesis by simp
  next
    case (Some q)
    then have "x1 = x'" "q = Ok ()" using "1.prems"(1) advance_stop [of x x1 q] t by simp_all
    with advance_turn_wait_more [of x x' b y] t Some "1.prems"(2) show ?thesis by simp
  qed
qed

lemma chunk_loop_stops: "chunk_loop s c = (c', p) \<Longrightarrow> p \<noteq> Again"
proof (induction s c arbitrary: c' p rule: chunk_loop.induct)
  case (1 s c)
  obtain c1 q where i: "chunk_iter s c = (c1, q)" by fastforce
  show ?case
  proof (cases "q = Again")
    case True
    then have "chunk_loop s c1 = (c', p)" using "1.prems" chunk_loop_again i by metis
    with "1.IH" [OF i [symmetric] True] show ?thesis by simp
  next
    case False
    with chunk_loop_stop [OF i] "1.prems" show ?thesis by simp
  qed
qed

lemma advance_stuck: "advance x = (x', Ok ()) \<Longrightarrow> advance x' = (x', Ok ())"
proof (induction x rule: advance.induct)
  case (1 x)
  obtain x1 r where t: "advance_turn x = (x1, r)" by fastforce
  show ?case
  proof (cases r)
    case None
    with "1.IH" [OF t [symmetric] None] "1.prems" advance_go t show ?thesis by metis
  next
    case (Some q)
    then have t': "advance_turn x = (x', Some (Ok ()))" using "1.prems" advance_stop [of x x1 q] t by simp
    have "advance_turn x' = (x', Some (Ok ()))"
    proof (cases "x_state x")
      case XHead
      with t' show ?thesis by (auto simp: advance_turn_def advance_head_def Let_def split: option.splits sum.splits if_splits)
    next
      case (XChunked cs)
      then obtain c p where c: "chunk_loop (x_streaming x) (to_chunker cs x) = (c, p)" "x' = of_chunker c x" "\<And>e. p \<noteq> Failed e" "p \<noteq> Finished"
        using t' by (auto simp: advance_turn_def advance_chunked_def split: prod.splits progress.splits)
      then have p: "p = NeedMore" using chunk_loop_stops [OF c(1)] by (cases p) auto
      have "chunk_loop (x_streaming x) c = (c, NeedMore)" using chunk_loop_more [OF c(1,3), of "[]"] c(1) p by simp
      moreover define cs' where "cs' = \<lparr>remaining = remaining c, crlf_pending = crlf_pending c, in_trailers = in_trailers c, trailer_bytes = trailer_bytes c\<rparr>"
      moreover have "x_state x' = XChunked cs'" "to_chunker cs' x' = c" "of_chunker c x' = x'" "x_streaming x' = x_streaming x"
        by (simp_all add: c(2) of_chunker_def cs'_def to_chunker_def)
      ultimately show ?thesis by (simp add: advance_turn_def advance_chunked_def)
    qed (use t' in \<open>auto simp: advance_turn_def take_all_def Let_def split: if_splits\<close>)
    then show ?thesis by (rule advance_stop)
  qed
qed

lemma advance_streaming: "advance x = (x', r) \<Longrightarrow> x_streaming x' = x_streaming x"
proof (induction x arbitrary: x' r rule: advance.induct)
  case (1 x)
  obtain x1 q where t: "advance_turn x = (x1, q)" by fastforce
  have f: "x_streaming (finish y) = x_streaming y" "x_streaming (enter_body m y) = x_streaming y" "x_streaming (of_chunker c y) = x_streaming y" for y m c
    by (auto simp: finish_def emit_streaming_def enter_body_def of_chunker_def Let_def split: option.splits body_mode.splits)
  have "x_streaming x1 = x_streaming x"
    using t by (cases "x_state x") (auto simp: advance_turn_def advance_head_def advance_chunked_def take_all_def Let_def f
        split: option.splits sum.splits if_splits prod.splits progress.splits)
  then show ?case using "1.IH" [OF t [symmetric]] "1.prems" advance_go advance_stop t by (cases q) fastforce+
qed

text \<open>Input delivered in pieces.\<close>

fun feed :: "exchange \<Rightarrow> bytes list \<Rightarrow> exchange \<times> unit result" where
  "feed x [] = (x, Ok ())"
| "feed x (w # ws) = (case handle_input x w of (x1, Inl e) \<Rightarrow> (x1, Err e) | (x1, Inr _) \<Rightarrow> feed x1 ws)"

lemma advance_done: "x_state x = XDone \<Longrightarrow> advance x = (x, Ok ())"
  by (rule advance_stop) (simp add: advance_turn_def)

lemma feed_done: "x_state x = XDone \<Longrightarrow> feed x ws = (x, Ok ())"
  by (induction ws) (simp_all add: handle_input_def)

lemma feed_advance:
  assumes "advance x = (x, Ok ())" "\<not> x_streaming x" "feed x ws = (x', Ok ())"
  shows "\<exists>b. advance (x_more x (concat ws)) = (x_more x' b, Ok ()) \<and> (x_state x' \<noteq> XDone \<longrightarrow> b = [])"
  using assms
proof (induction ws arbitrary: x)
  case Nil
  then show ?case by (intro exI [of _ "[]"]) simp
next
  case (Cons w ws)
  show ?case
  proof (cases "x_state x = XDone")
    case True
    have "x' = x" using Cons.prems(3) feed_done [OF True, of "w # ws"] by (simp del: feed.simps)
    then show ?thesis using True by (intro exI [of _ "concat (w # ws)"]) (simp add: advance_done)
  next
    case False
    obtain x1 r where a: "advance (x_more x w) = (x1, r)" by fastforce
    have st: "x_streaming x1 = x_streaming x" using advance_streaming [OF a] by simp
    have ok: "r = Ok ()" "feed x1 ws = (x', Ok ())"
      using Cons.prems(2,3) False a st by (auto simp: handle_input_def x_more_def split: sum.splits)
    from Cons.IH [OF advance_stuck [OF a [unfolded ok(1)]] _ ok(2)] st Cons.prems(2) obtain b where
      b: "advance (x_more x1 (concat ws)) = (x_more x' b, Ok ())" "x_state x' \<noteq> XDone \<longrightarrow> b = []" by auto
    from advance_more [OF a [unfolded ok(1)] b(1)] b(2) show ?thesis by auto
  qed
qed

text \<open>
  (C20) What a buffered exchange accepts in pieces it accepts as a whole: if the pieces of a response are accepted one after
  the other, then so is their concatenation in one call, with the same events and the same state (only bytes after the end of
  the response stay in the buffer). The statement is about the buffered exchange (\<open>build\<close> with streaming off); a streaming
  exchange reports one body event for each batch of bytes, so its events do depend on the cut. The converse does not hold:
  the limits on the head and on the chunk lines are only checked while the line end is missing, so an input accepted at once can be
  refused in pieces.
\<close>

theorem http1_segmentation:
  assumes "feed (build meth req False) ws = (x, Ok ())"
  shows "\<exists>y b. handle_input (build meth req False) (concat ws) = (y, Ok (length (concat ws))) \<and>
    y = x\<lparr>x_rx := x_rx x @ b\<rparr> \<and> (x_state x \<noteq> XDone \<longrightarrow> b = [])"
proof -
  let ?x0 = "build meth req False"
  have x0: "x_state ?x0 = XHead" "\<not> x_streaming ?x0" "x_rx ?x0 = []" by (simp_all add: build_def)
  then have "advance ?x0 = (?x0, Ok ())" by (intro advance_stop) (simp add: advance_turn_def advance_head_def)
  from feed_advance [OF this x0(2) assms] obtain b where
    b: "advance (x_more ?x0 (concat ws)) = (x_more x b, Ok ())" "x_state x \<noteq> XDone \<longrightarrow> b = []" by blast
  have "\<not> x_streaming (x_more x b)" using advance_streaming [OF b(1)] x0 by simp
  with b x0 show ?thesis
    by (intro exI [of _ "x_more x b"] exI [of _ b]) (simp add: handle_input_def x_more_def [symmetric], simp add: x_more_def)
qed

text \<open>A small response: a status line and no body.\<close>

definition demo_text :: string where
  "demo_text = ''HTTP/1 204'' @ [LF, LF]"

definition demo_head :: response_head where
  "demo_head = \<lparr>rh_status = 204, rh_reason = [], rh_version = ''HTTP/1'', rh_headers = []\<rparr>"

lemma demo_parse: "parse_head (as_bytes demo_text) = Ok demo_head" "find_header_end (as_bytes demo_text) = Some 12" "length (as_bytes demo_text) = 12"
proof -
  have "\<forall>b\<in>set (as_bytes demo_text). b < 0x80" by (simp add: demo_text_def as_bytes_def byte_of_char_def)
  then have "from_utf8_lossy (as_bytes demo_text) = demo_text"
    by (simp add: from_utf8_lossy_ascii as_bytes_def o_def)
  then show "parse_head (as_bytes demo_text) = Ok demo_head"
    by (simp add: demo_text_def demo_head_def parse_head_def trim_end_matches_def parse_status_line_def split_once_def starts_with_def
        parse_unsigned_def is_ascii_digit_def decimal_value_def digit_value_def)
  show "find_header_end (as_bytes demo_text) = Some 12" "length (as_bytes demo_text) = 12"
    by (simp_all add: demo_text_def as_bytes_def byte_of_char_def)
qed

lemma demo_advance:
  "advance (x_more (build ''GET'' [] False) (as_bytes demo_text)) =
     (finish (build ''GET'' [] False\<lparr>x_head := Some demo_head\<rparr>), Ok ())"
proof -
  let ?x = "x_more (build ''GET'' [] False) (as_bytes demo_text)"
  have x: "x_rx ?x = as_bytes demo_text" "x_state ?x = XHead" "x_interim ?x = 0" by (simp_all add: build_def x_more_def)
  have "body_mode_of (x_method ?x) demo_head (x_streaming ?x) = Ok NoBody" by (simp add: body_mode_of_def bodyless_def demo_head_def)
  then have "advance_turn ?x = (finish (?x\<lparr>x_rx := [], x_head := Some demo_head\<rparr>), None)"
    using x demo_parse by (simp add: advance_turn_def advance_head_def is_interim_status_def enter_body_def) (simp add: demo_head_def enter_body_def)
  moreover have "?x\<lparr>x_rx := [], x_head := Some demo_head\<rparr> = build ''GET'' [] False\<lparr>x_head := Some demo_head\<rparr>"
    by (simp add: x_more_def build_def)
  ultimately show ?thesis by (simp add: advance_go advance_done)
qed

theorem http1_segmentation_witness:
  "\<exists>y. handle_input (build ''GET'' [] False) (as_bytes demo_text @ [0x41]) = (y, Ok 13) \<and> x_events y = [EvResponse demo_head []]"
proof -
  let ?x0 = "build ''GET'' [] False"
  define x where "x = finish (?x0\<lparr>x_head := Some demo_head\<rparr>)"
  have fin: "x_state x = XDone" "\<not> x_streaming x" "x_events x = [EvResponse demo_head []]"
    by (simp_all add: x_def finish_def build_def)
  have "handle_input ?x0 (as_bytes demo_text) = (x, Ok 12)"
    using demo_advance fin demo_parse(3) by (simp add: handle_input_def x_more_def x_def) (simp add: build_def)
  then have f: "feed ?x0 [as_bytes demo_text, [0x41]] = (x, Ok ())" using fin by (simp add: handle_input_def)
  from http1_segmentation [OF f] fin(3) demo_parse(3) show ?thesis by auto
qed

section \<open>Framing\<close>

text \<open>What a buffered exchange guarantees in each state.\<close>

definition framed :: "string \<Rightarrow> response_head \<Rightarrow> bytes \<Rightarrow> bool" where
  "framed meth h body \<longleftrightarrow> length body \<le> MAX_BODY_BYTES \<and>
     (case body_mode_of meth h False of
        Inl _ \<Rightarrow> False | Inr NoBody \<Rightarrow> body = [] | Inr (LengthBody n) \<Rightarrow> length body = n | Inr _ \<Rightarrow> True)"

definition x_inv :: "exchange \<Rightarrow> bool" where
  "x_inv x \<longleftrightarrow> \<not> x_streaming x \<and>
     (case x_state x of
        XHead \<Rightarrow> x_body x = [] \<and> x_total x = 0 \<and> x_events x = []
      | XLength n \<Rightarrow> x_events x = [] \<and> x_total x = length (x_body x) \<and> length (x_body x) \<le> n \<and>
          (\<exists>h. x_head x = Some h \<and> body_mode_of (x_method x) h False = Ok (LengthBody n))
      | XChunked cs \<Rightarrow> x_events x = [] \<and> x_total x = length (x_body x) \<and> length (x_body x) + remaining cs \<le> MAX_BODY_BYTES \<and>
          (\<exists>h. x_head x = Some h \<and> body_mode_of (x_method x) h False = Ok ChunkedBody)
      | XEof \<Rightarrow> x_events x = [] \<and> x_total x = length (x_body x) \<and> length (x_body x) \<le> MAX_BODY_BYTES \<and>
          (\<exists>h. x_head x = Some h \<and> body_mode_of (x_method x) h False = Ok EofBody)
      | XDone \<Rightarrow> \<exists>h body. x_events x = [EvResponse h body] \<and> framed (x_method x) h body)"

lemma body_mode_length: "body_mode_of meth h False = Ok (LengthBody n) \<Longrightarrow> n \<le> MAX_BODY_BYTES"
  by (auto simp: body_mode_of_def Let_def split: if_splits option.splits)

definition ck_inv :: "chunker \<Rightarrow> bool" where
  "ck_inv c \<longleftrightarrow> ck_total c = length (ck_body c) \<and> length (ck_body c) + remaining c \<le> MAX_BODY_BYTES"

lemma chunk_main_inv: "ck_inv c \<Longrightarrow> chunk_main False c = (c', p) \<Longrightarrow> ck_inv c'"
proof -
  assume c: "ck_inv c" "chunk_main False c = (c', p)"
  have "chunk_trailer c = (c', p) \<Longrightarrow> ck_inv c'"
    using c(1) by (auto simp: chunk_trailer_def ck_inv_def Let_def split: option.splits if_splits)
  moreover have "chunk_data c = (c', p) \<Longrightarrow> ck_inv c'"
    using c(1) by (auto simp: chunk_data_def ck_inv_def Let_def split: if_splits)
  moreover have "chunk_size False c = (c', p) \<Longrightarrow> remaining c = 0 \<Longrightarrow> ck_inv c'"
    using c(1) by (auto simp: chunk_size_def ck_inv_def Let_def saturating_add_u64_def split: option.splits sum.splits if_splits)
  ultimately show "ck_inv c'" using c(2) by (auto simp: chunk_main_def split: if_splits)
qed

lemma chunk_iter_inv: "ck_inv c \<Longrightarrow> chunk_iter False c = (c', p) \<Longrightarrow> ck_inv c'"
proof -
  assume c: "ck_inv c" "chunk_iter False c = (c', p)"
  obtain c1 q where q: "chunk_crlf c = (c1, q)" by fastforce
  then have "ck_inv c1" using c(1) by (auto simp: chunk_crlf_def ck_inv_def split: if_splits)
  with c(2) q chunk_main_inv show "ck_inv c'" by (cases q) (auto simp: chunk_iter_def)
qed

lemma chunk_loop_inv: "ck_inv c \<Longrightarrow> chunk_loop False c = (c', p) \<Longrightarrow> ck_inv c'"
proof (induction False c arbitrary: c' p rule: chunk_loop.induct)
  case (1 c)
  obtain c1 q where i: "chunk_iter False c = (c1, q)" by fastforce
  then have ok: "ck_inv c1" using chunk_iter_inv "1.prems"(1) by blast
  show ?case
  proof (cases "q = Again")
    case True
    then have "chunk_loop False c1 = (c', p)" using "1.prems"(2) chunk_loop_again i by metis
    with "1.hyps" [OF i [symmetric] True ok] show ?thesis by blast
  next
    case False
    with chunk_loop_stop [OF i] "1.prems"(2) ok show ?thesis by simp
  qed
qed

lemma enter_body_inv:
  assumes "\<not> x_streaming x" "x_body x = []" "x_total x = 0" "x_events x = []" "x_head x = Some h" "body_mode_of (x_method x) h False = Ok mode"
  shows "x_inv (enter_body mode x)"
  using assms
  by (cases mode) (auto simp: enter_body_def x_inv_def finish_def framed_def chunk_state_default_def)

lemma advance_head_inv:
  assumes "x_inv x" "x_state x = XHead" "advance_head x = (x', r)"
  shows "x_inv x'"
proof -
  have b: "x_body x = []" "x_total x = 0" "x_events x = []" "\<not> x_streaming x" using assms(1,2) by (simp_all add: x_inv_def)
  consider "x' = x" | rx where "x' = x\<lparr>x_rx := rx\<rparr>" | rx k where "x' = x\<lparr>x_rx := rx, x_interim := k\<rparr>"
    | rx h mode where "x' = enter_body mode (x\<lparr>x_rx := rx, x_head := Some h\<rparr>)" "body_mode_of (x_method x) h False = Ok mode"
    using assms(3) b(4) by (auto simp: advance_head_def Let_def split: option.splits sum.splits if_splits)
  then show ?thesis
  proof cases
    case (4 rx h mode)
    with b show ?thesis by (auto intro!: enter_body_inv [of _ h])
  qed (use assms(1,2) in \<open>simp_all add: x_inv_def\<close>)
qed

lemma finish_inv:
  "\<not> x_streaming x \<Longrightarrow> x_events x = [] \<Longrightarrow> x_head x = Some h \<Longrightarrow> framed (x_method x) h (x_body x) \<Longrightarrow> x_inv (finish x)"
  by (simp add: x_inv_def finish_def)

lemma advance_turn_inv:
  assumes "x_inv x" "advance_turn x = (x', r)"
  shows "x_inv x'"
proof (cases "x_state x")
  case XHead
  with assms advance_head_inv show ?thesis by (simp add: advance_turn_def)
next
  case (XLength n)
  then obtain h where h: "x_head x = Some h" "body_mode_of (x_method x) h False = Ok (LengthBody n)" "x_total x = length (x_body x)"
    "length (x_body x) \<le> n" "x_events x = []" "\<not> x_streaming x" using assms(1) by (auto simp: x_inv_def)
  then show ?thesis
    using assms XLength body_mode_length [OF h(2)]
    by (auto simp: advance_turn_def Let_def take_all_def framed_def split: if_splits intro!: finish_inv [of _ h]) (simp add: x_inv_def)
next
  case (XChunked cs)
  then obtain h where h: "x_head x = Some h" "body_mode_of (x_method x) h False = Ok ChunkedBody" "x_total x = length (x_body x)"
    "length (x_body x) + remaining cs \<le> MAX_BODY_BYTES" "x_events x = []" "\<not> x_streaming x" using assms(1) by (auto simp: x_inv_def)
  obtain c p where c: "chunk_loop False (to_chunker cs x) = (c, p)" by fastforce
  have "ck_inv (to_chunker cs x)" using h by (simp add: ck_inv_def to_chunker_def)
  then have inv: "ck_inv c" using chunk_loop_inv c by blast
  then have "x_inv (of_chunker c x)" using h by (simp add: x_inv_def of_chunker_def ck_inv_def)
  moreover have "x_inv (finish (of_chunker c x))"
    using h inv by (intro finish_inv [of _ h]) (simp_all add: of_chunker_def framed_def ck_inv_def)
  ultimately show ?thesis
    using assms(2) XChunked h(6) c by (auto simp: advance_turn_def advance_chunked_def split: progress.splits)
next
  case XEof
  with assms show ?thesis by (auto simp: advance_turn_def take_all_def x_inv_def split: if_splits)
next
  case XDone
  with assms show ?thesis by (simp add: advance_turn_def)
qed

lemma advance_inv: "x_inv x \<Longrightarrow> advance x = (x', r) \<Longrightarrow> x_inv x'"
proof (induction x arbitrary: x' r rule: advance.induct)
  case (1 x)
  obtain x1 q where t: "advance_turn x = (x1, q)" by fastforce
  then have i: "x_inv x1" using advance_turn_inv "1.prems"(1) by blast
  show ?case
  proof (cases q)
    case None
    with "1.IH" [OF t [symmetric] None i] "1.prems"(2) advance_go t show ?thesis by metis
  next
    case (Some y)
    with advance_stop [of x x1 y] t "1.prems"(2) i show ?thesis by simp
  qed
qed

lemma handle_input_inv: "x_inv x \<Longrightarrow> x_inv (fst (handle_input x w))"
proof -
  assume x: "x_inv x"
  obtain x1 r where a: "advance (x_more x w) = (x1, r)" by fastforce
  have "x_inv (x_more x w)" using x by (auto simp: x_inv_def x_more_def split: xstate.splits)
  then have i: "x_inv x1" using advance_inv a by blast
  then have "\<not> x_streaming x1" by (simp add: x_inv_def)
  with i a x show ?thesis by (auto simp: handle_input_def x_more_def split: sum.splits)
qed

lemma feed_inv: "x_inv x \<Longrightarrow> x_inv (fst (feed x ws))"
proof (induction ws arbitrary: x)
  case (Cons w ws)
  then show ?case using handle_input_inv [of x w] by (auto split: prod.splits sum.splits)
qed simp

lemma feed_stuck: "feed x ws = (x', Ok ()) \<Longrightarrow> advance x = (x, Ok ()) \<Longrightarrow> \<not> x_streaming x \<Longrightarrow> advance x' = (x', Ok ())"
proof (induction ws arbitrary: x)
  case (Cons w ws)
  show ?case
  proof (cases "x_state x = XDone")
    case True
    have "x' = x" using Cons.prems(1) feed_done [OF True, of "w # ws"] by (simp del: feed.simps)
    with Cons.prems show ?thesis by simp
  next
    case False
    obtain x1 r where a: "advance (x_more x w) = (x1, r)" by fastforce
    have st: "\<not> x_streaming x1" using advance_streaming [OF a] Cons.prems(3) by simp
    then have ok: "r = Ok ()" "feed x1 ws = (x', Ok ())"
      using Cons.prems(1) False a by (auto simp: handle_input_def x_more_def split: sum.splits)
    with Cons.IH [OF ok(2) advance_stuck [OF a [unfolded ok(1)]] st] show ?thesis by simp
  qed
qed simp

lemma framed_bodyless:
  "framed meth rh body \<Longrightarrow>
     meth = ''HEAD'' \<or> 100 \<le> rh_status rh \<and> rh_status rh < 200 \<or> rh_status rh = 204 \<or> rh_status rh = 304 \<Longrightarrow> body = []"
  by (auto simp: framed_def body_mode_of_def bodyless_def Let_def eq_ignore_ascii_case_def split: sum.splits)

text \<open>
  (C21) A buffered response is framed by its head: whatever arrives, in whatever pieces, and whether or not the connection
  then closes, a response is only reported once and has at most 256 MiB; it is empty when the method or status
  forbids a body (HEAD, 1xx, 204 and 304) and has exactly the announced length when there is a \<open>Content-Length\<close>.
\<close>

theorem http1_response_framed:
  assumes "feed (build meth req False) ws = (x, Ok ())" "h = fst (handle_eof x)" "ev \<in> set (x_events x) \<union> set (x_events h)"
  shows "\<exists>rh body. ev = EvResponse rh body \<and> framed (x_method x) rh body \<and> length (x_events h) \<le> 1 \<and>
    (x_method x = ''HEAD'' \<or> 100 \<le> rh_status rh \<and> rh_status rh < 200 \<or> rh_status rh = 204 \<or> rh_status rh = 304 \<longrightarrow> body = [])"
proof -
  let ?x0 = "build meth req False"
  have x0: "x_inv ?x0" "advance ?x0 = (?x0, Ok ())" "\<not> x_streaming ?x0"
    by (simp_all add: build_def x_inv_def, rule advance_stop, simp add: advance_turn_def advance_head_def)
  have i: "x_inv x" using feed_inv [OF x0(1), of ws] assms(1) by simp
  have s: "advance x = (x, Ok ())" using feed_stuck [OF assms(1) x0(2,3)] .
  have m: "x_method (finish y) = x_method y" for y by (simp add: finish_def emit_streaming_def Let_def split: option.splits)
  have "x_inv h \<and> x_method h = x_method x"
  proof (cases "x_state x = XEof")
    case True
    have "take_all x = x"
    proof (cases "\<not> x_streaming x \<and> x_total x + length (x_rx x) > MAX_BODY_BYTES")
      case big: True
      with True have "advance_turn x = (x, Some (Err (BadResponse ''body too large'')))" by (simp add: advance_turn_def)
      with s advance_stop show ?thesis by fastforce
    next
      case False
      with True have "advance_turn x = (take_all x, Some (Ok ()))" by (auto simp: advance_turn_def)
      with s advance_stop show ?thesis by fastforce
    qed
    then have "x_rx (take_all x) = x_rx x" by (rule arg_cong)
    then have "x_rx x = []" by (simp add: take_all_def)
    with True i m show ?thesis
      by (auto simp: assms(2) handle_eof_def x_inv_def [of x] framed_def intro!: finish_inv)
  next
    case False
    with i show ?thesis by (auto simp: assms(2) handle_eof_def split: xstate.splits)
  qed
  with i assms(3) show ?thesis using framed_bodyless by (auto simp: x_inv_def split: xstate.splits)
qed

theorem http1_response_framed_witness: "framed ''GET'' demo_head []"
proof -
  let ?x0 = "build ''GET'' [] False"
  define x where "x = finish (?x0\<lparr>x_head := Some demo_head\<rparr>)"
  have x: "x_state x = XDone" "x_events x = [EvResponse demo_head []]" "\<not> x_streaming x" "x_method x = ''GET''"
    by (simp_all add: x_def finish_def build_def to_ascii_uppercase_def is_ascii_lowercase_def)
  have "feed ?x0 [as_bytes demo_text] = (x, Ok ())"
    using demo_advance x by (simp add: handle_input_def x_more_def x_def) (simp add: build_def)
  from http1_response_framed [OF this refl, of "EvResponse demo_head []"] x show ?thesis by simp
qed

section \<open>Termination\<close>

text \<open>The two loops, cut off after a given number of turns.\<close>

fun advance_turns :: "nat \<Rightarrow> exchange \<Rightarrow> (exchange \<times> unit result) option" where
  "advance_turns 0 x = None"
| "advance_turns (Suc k) x = (case advance_turn x of (x', None) \<Rightarrow> advance_turns k x' | (x', Some r) \<Rightarrow> Some (x', r))"

fun chunk_turns :: "nat \<Rightarrow> bool \<Rightarrow> chunker \<Rightarrow> (chunker \<times> progress) option" where
  "chunk_turns 0 s c = None"
| "chunk_turns (Suc k) s c = (case chunk_iter s c of (c', Again) \<Rightarrow> chunk_turns k s c' | r \<Rightarrow> Some r)"

lemma advance_turn_rank: "advance_turn x = (x', None) \<Longrightarrow> state_rank (x_state x') \<le> state_rank (x_state x)"
  by (cases "x_state x") (auto simp: advance_turn_def advance_head_def Let_def state_rank_def enter_body_def
      split: if_splits option.splits sum.splits body_mode.splits prod.splits)

lemma advance_turns_enough: "length (x_rx x) + state_rank (x_state x) < k \<Longrightarrow> advance_turns k x = Some (advance x)"
proof (induction k arbitrary: x)
  case (Suc k)
  obtain x' r where t: "advance_turn x = (x', r)" by fastforce
  show ?case
  proof (cases r)
    case None
    with t have "advance_turn x = (x', None)" by simp
    with Suc.prems have "length (x_rx x') + state_rank (x_state x') < k"
      using advance_turn_decreases [of x x'] advance_turn_rank [of x x'] by linarith
    from Suc.IH [OF this] t None show ?thesis by (simp add: advance.simps [of x])
  qed (use t in \<open>simp add: advance.simps [of x]\<close>)
qed simp

lemma chunk_turns_enough: "length (ck_rx c) < k \<Longrightarrow> chunk_turns k s c = Some (chunk_loop s c)"
proof (induction k arbitrary: c)
  case (Suc k)
  obtain c' p where t: "chunk_iter s c = (c', p)" by fastforce
  show ?case
  proof (cases "p = Again")
    case True
    with t chunk_iter_rx [of s c c'] Suc.prems have "length (ck_rx c') < k" by simp
    from Suc.IH [OF this] t True show ?thesis by (simp add: chunk_loop.simps [of s c])
  qed (use t in \<open>simp add: chunk_loop.simps [of s c] split: progress.split\<close>)
qed simp

text \<open>
  (C23) The loops of the exchange terminate: \<open>advance\<close> returns within three turns more than there are bytes in the buffer, and the loop of
  \<open>advance_chunked\<close> within one, whatever the state and the bytes. A server cannot make the client spin.
\<close>

theorem http1_loops_terminate:
  "advance_turns (length (x_rx x) + 3) x = Some (advance x) \<and> chunk_turns (length (ck_rx c) + 1) s c = Some (chunk_loop s c)"
proof -
  have "state_rank (x_state x) \<le> 2" by (simp add: state_rank_def split: xstate.split)
  then show ?thesis by (intro conjI advance_turns_enough chunk_turns_enough) simp_all
qed

end
