(* ===== verification/Http1_Chunked.thy ===== *)
theory Http1_Chunked
  imports Http1_Props
begin

text \<open>
  Chunked bodies: the grammar of RFC 9112 section 7.1 as the code reads it, the blocking reader of \<open>src/src/http.rs\<close>
  (\<open>read_chunked\<close>), and how it and the incremental decoder of \<open>src/src/proto/http1.rs\<close> relate to the grammar.
\<close>

section \<open>The grammar\<close>

definition is_line :: "bytes \<Rightarrow> bool" where
  "is_line l \<longleftrightarrow> l \<noteq> [] \<and> newline_pos l = Some (length l - 1)"

inductive trailer_section :: "nat \<Rightarrow> bytes \<Rightarrow> bool" where
  blank: "is_line l \<Longrightarrow> trim_eol l = [] \<Longrightarrow> trailer_section n l"
| field: "is_line l \<Longrightarrow> trim_eol l \<noteq> [] \<Longrightarrow> n + length l \<le> MAX_HEADER_BYTES \<Longrightarrow> trailer_section (n + length l) t \<Longrightarrow>
    trailer_section n (l @ t)"

inductive chunked_body :: "bytes \<Rightarrow> bytes \<Rightarrow> bool" where
  last_chunk: "is_line l \<Longrightarrow> parse_chunk_size l = Ok 0 \<Longrightarrow> trailer_section 0 t \<Longrightarrow> chunked_body (l @ t) []"
| chunk: "is_line l \<Longrightarrow> parse_chunk_size l = Ok (length d) \<Longrightarrow> d \<noteq> [] \<Longrightarrow> chunked_body w b \<Longrightarrow>
    chunked_body (l @ d @ [0x0D, 0x0A] @ w) (d @ b)"

lemma is_line_append: "is_line l \<Longrightarrow> newline_pos (l @ r) = Some (length l - 1) \<and> take (length l) (l @ r) = l"
  by (auto simp: is_line_def newline_pos_append)

lemma newline_split: "newline_pos rx = Some n \<Longrightarrow> \<exists>l r. rx = l @ r \<and> is_line l \<and> length l = Suc n"
proof -
  assume n: "newline_pos rx = Some n"
  then have d: "n < length rx" "rx ! n = 0x0A" "\<forall>x\<in>set (take n rx). x \<noteq> 0x0A"
    by (auto simp: newline_pos_def dest: position_SomeD)
  have "take (Suc n) rx = take n rx @ [0x0A]" using d by (simp add: take_Suc_conv_app_nth)
  moreover have "position (\<lambda>b. b = 0x0A) (take n rx @ 0x0A # []) = Some (length (take n rx))"
    using d(3) by (intro position_append_hit) auto
  ultimately have "is_line (take (Suc n) rx)" using d(1) by (simp add: is_line_def newline_pos_def)
  then show ?thesis using d(1) by (intro exI [of _ "take (Suc n) rx"] exI [of _ "drop (Suc n) rx"]) simp
qed

section \<open>The incremental decoder accepts exactly the grammar\<close>

text \<open>The three resting points of the decoder.\<close>

definition at_size :: "chunker \<Rightarrow> bool" where
  "at_size c \<longleftrightarrow> remaining c = 0 \<and> \<not> crlf_pending c \<and> \<not> in_trailers c \<and> trailer_bytes c = 0 \<and> ck_total c = length (ck_body c)"

definition fits :: "bool \<Rightarrow> nat \<Rightarrow> bool" where
  "fits s n \<longleftrightarrow> s \<or> n \<le> MAX_BODY_BYTES"

lemma chunk_trailer_line:
  assumes "is_line l" "ck_rx c = l @ r"
  shows "chunk_trailer c = (if trim_eol l = [] then (c\<lparr>ck_rx := r\<rparr>, Finished)
    else let t = saturating_add_u64 (trailer_bytes c) (length l)
         in (c\<lparr>ck_rx := r, trailer_bytes := t\<rparr>, if t > MAX_HEADER_BYTES then Failed (BadResponse ''trailer block too large'') else Again))"
proof -
  have n: "newline_pos (l @ r) = Some (length l - 1)" "l \<noteq> []" using assms(1) is_line_append by (auto simp: is_line_def)
  then have e: "length l - 1 + 1 = length l" by (cases l) auto
  show ?thesis unfolding chunk_trailer_def assms(2) n(1) option.case e by (simp add: Let_def)
qed

lemma chunk_size_line:
  assumes "is_line l" "ck_rx c = l @ r" "parse_chunk_size l = Ok n"
  shows "chunk_size s c = (if \<not> s \<and> saturating_add_u64 (ck_total c) n > MAX_BODY_BYTES then (c\<lparr>ck_rx := r\<rparr>, Failed (BadResponse ''body too large''))
    else (if n = 0 then c\<lparr>ck_rx := r, in_trailers := True\<rparr> else c\<lparr>ck_rx := r, remaining := n\<rparr>, Again))"
proof -
  have n: "newline_pos (l @ r) = Some (length l - 1)" "l \<noteq> []" using assms(1) is_line_append by (auto simp: is_line_def)
  then have e: "length l - 1 + 1 = length l" by (cases l) auto
  show ?thesis unfolding chunk_size_def assms(2) n(1) option.case e using assms(3) by (simp add: Let_def)
qed

lemma trailers_complete:
  assumes "trailer_section n t" "in_trailers c" "\<not> crlf_pending c" "trailer_bytes c = n" "ck_rx c = t @ rest"
  shows "\<exists>c'. chunk_loop s c = (c', Finished) \<and> ck_rx c' = rest \<and> ck_body c' = ck_body c"
  using assms
proof (induction arbitrary: c)
  case (blank l n)
  then have "chunk_iter s c = (c\<lparr>ck_rx := rest\<rparr>, Finished)"
    by (simp add: chunk_iter_idle chunk_main_def chunk_trailer_line)
  then show ?case by (auto dest: chunk_loop_stop)
next
  case (field l n t)
  define c1 where "c1 = c\<lparr>ck_rx := t @ rest, trailer_bytes := n + length l\<rparr>"
  have "chunk_iter s c = (c1, Again)"
    using field.prems field.hyps by (simp add: chunk_iter_idle chunk_main_def chunk_trailer_line [of l] saturating_add_u64_def c1_def)
  moreover have "\<exists>c'. chunk_loop s c1 = (c', Finished) \<and> ck_rx c' = rest \<and> ck_body c' = ck_body c1"
    using field.prems by (intro field.IH) (simp_all add: c1_def)
  ultimately show ?case by (auto simp: chunk_loop_again c1_def)
qed

lemma chunked_complete:
  assumes "chunked_body w b" "at_size c" "ck_rx c = w @ rest" "fits s (length (ck_body c) + length b)"
  shows "\<exists>c'. chunk_loop s c = (c', Finished) \<and> ck_rx c' = rest \<and> ck_body c' = ck_body c @ b"
  using assms
proof (induction arbitrary: c)
  case (last_chunk l t)
  define c1 where "c1 = c\<lparr>ck_rx := t @ rest, in_trailers := True\<rparr>"
  have "chunk_iter s c = (c1, Again)"
    using last_chunk.prems last_chunk.hyps
    by (auto simp: chunk_iter_idle chunk_main_def chunk_size_line [of l] saturating_add_u64_def c1_def at_size_def fits_def)
  moreover have "\<exists>c'. chunk_loop s c1 = (c', Finished) \<and> ck_rx c' = rest \<and> ck_body c' = ck_body c1"
    using last_chunk.prems by (intro trailers_complete [OF last_chunk.hyps(3)]) (simp_all add: c1_def at_size_def)
  ultimately show ?case by (auto simp: chunk_loop_again c1_def)
next
  case (chunk l d w b)
  define c1 where "c1 = c\<lparr>ck_rx := d @ [0x0D, 0x0A] @ w @ rest, remaining := length d\<rparr>"
  define c2 where "c2 = c1\<lparr>ck_rx := [0x0D, 0x0A] @ w @ rest, ck_body := ck_body c @ d, ck_total := ck_total c + length d,
    remaining := 0, crlf_pending := True\<rparr>"
  define c3 where "c3 = c2\<lparr>ck_rx := w @ rest, crlf_pending := False\<rparr>"
  have i1: "chunk_iter s c = (c1, Again)"
    using chunk.prems chunk.hyps
    by (auto simp: chunk_iter_idle chunk_main_def chunk_size_line [of l] saturating_add_u64_def c1_def at_size_def fits_def)
  have i2: "chunk_iter s c1 = (c2, Again)"
    using chunk.prems chunk.hyps(3)
    by (simp add: chunk_iter_idle chunk_main_def chunk_data_def c2_def c1_def at_size_def)
  have "chunk_iter s c2 = chunk_iter s c3"
    by (simp add: chunk_iter_def chunk_crlf_def c2_def c3_def c1_def)
  then have i3: "chunk_loop s c2 = chunk_loop s c3" by (rule chunk_loop_cong)
  have "\<exists>c'. chunk_loop s c3 = (c', Finished) \<and> ck_rx c' = rest \<and> ck_body c' = ck_body c3 @ b"
    using chunk.prems by (intro chunk.IH) (simp_all add: c3_def c2_def c1_def at_size_def add.assoc)
  then show ?case using i1 i2 i3 by (auto simp: chunk_loop_again) (simp add: c3_def c2_def)
qed

lemma trailers_sound:
  assumes "chunk_loop s c = (c', Finished)" "in_trailers c" "\<not> crlf_pending c"
  shows "\<exists>t. ck_rx c = t @ ck_rx c' \<and> trailer_section (trailer_bytes c) t \<and> ck_body c' = ck_body c"
  using assms
proof (induction s c arbitrary: c' rule: chunk_loop.induct)
  case (1 s c)
  have it: "chunk_iter s c = chunk_trailer c" using "1.prems" by (simp add: chunk_iter_idle chunk_main_def)
  show ?case
  proof (cases "newline_pos (ck_rx c)")
    case None
    then obtain q where "chunk_trailer c = (c, q)" "q \<noteq> Again" "q \<noteq> Finished" by (simp add: chunk_trailer_def)
    with it chunk_loop_stop [of s c c q] "1.prems"(1) show ?thesis by simp
  next
    case (Some n)
    then obtain l r where l: "ck_rx c = l @ r" "is_line l" using newline_split by blast
    show ?thesis
    proof (cases "trim_eol l = []")
      case True
      then have "chunk_iter s c = (c\<lparr>ck_rx := r\<rparr>, Finished)" using l it by (simp add: chunk_trailer_line)
      then have "c' = c\<lparr>ck_rx := r\<rparr>" using chunk_loop_stop "1.prems"(1) by fastforce
      then show ?thesis using l True by (auto intro: trailer_section.blank)
    next
      case False
      define b where "b = saturating_add_u64 (trailer_bytes c) (length l)"
      define c1 where "c1 = c\<lparr>ck_rx := r, trailer_bytes := b\<rparr>"
      have i: "chunk_iter s c = (c1, if b > MAX_HEADER_BYTES then Failed (BadResponse ''trailer block too large'') else Again)"
        using l it False by (simp add: chunk_trailer_line Let_def b_def c1_def)
      have small: "\<not> b > MAX_HEADER_BYTES" using chunk_loop_stop [OF i] "1.prems"(1) by (auto split: if_splits)
      then have b: "b = trailer_bytes c + length l" "trailer_bytes c + length l \<le> MAX_HEADER_BYTES"
        by (auto simp: b_def saturating_add_u64_def min_def split: if_splits)
      from i small have again: "chunk_iter s c = (c1, Again)" by simp
      then have "chunk_loop s c1 = (c', Finished)" using "1.prems"(1) chunk_loop_again by metis
      then obtain t where "ck_rx c1 = t @ ck_rx c'" "trailer_section (trailer_bytes c1) t" "ck_body c' = ck_body c1"
        using "1.IH" [OF again [symmetric] refl] "1.prems" by (auto simp: c1_def)
      then show ?thesis using l False b by (intro exI [of _ "l @ t"]) (auto simp: c1_def intro: trailer_section.field)
    qed
  qed
qed

lemma chunk_size_okD:
  assumes "chunk_size s c = (c1, Again)" "ck_total c = length (ck_body c)"
  obtains l r n where "ck_rx c = l @ r" "is_line l" "parse_chunk_size l = Ok n" "fits s (length (ck_body c) + n)"
    "c1 = (if n = 0 then c\<lparr>ck_rx := r, in_trailers := True\<rparr> else c\<lparr>ck_rx := r, remaining := n\<rparr>)"
proof -
  obtain k where k: "newline_pos (ck_rx c) = Some k" using assms(1) by (auto simp: chunk_size_def split: option.splits if_splits)
  then obtain l r where l: "ck_rx c = l @ r" "is_line l" "length l = Suc k" using newline_split by blast
  obtain n where n: "parse_chunk_size l = Ok n"
    using assms(1) k l by (auto simp: chunk_size_def Let_def split: sum.splits if_splits)
  note line = chunk_size_line [OF l(2,1) n, of s]
  show ?thesis
  proof (rule that [OF l(1,2) n])
    show "fits s (length (ck_body c) + n)" "c1 = (if n = 0 then c\<lparr>ck_rx := r, in_trailers := True\<rparr> else c\<lparr>ck_rx := r, remaining := n\<rparr>)"
      using assms unfolding line by (auto simp: fits_def saturating_add_u64_def min_def split: if_splits)
  qed
qed

lemma chunked_sound:
  assumes "chunk_loop s c = (c', Finished)" "at_size c"
  shows "\<exists>w b. ck_rx c = w @ ck_rx c' \<and> chunked_body w b \<and> ck_body c' = ck_body c @ b \<and> fits s (length (ck_body c'))"
  using assms
proof (induction "length (ck_rx c)" arbitrary: c rule: less_induct)
  case less
  have it: "chunk_iter s c = chunk_size s c" using less.prems(2) by (simp add: chunk_iter_idle chunk_main_def at_size_def)
  obtain c1 q where c1: "chunk_iter s c = (c1, q)" by fastforce
  have "q = Again"
    using chunk_loop_stop [OF c1] less.prems(1) c1 it
    by (cases q) (auto simp: chunk_size_def Let_def split: option.splits sum.splits if_splits)
  then have s1: "chunk_size s c = (c1, Again)" "chunk_loop s c1 = (c', Finished)"
    using c1 it less.prems(1) chunk_loop_again by metis+
  have tot: "ck_total c = length (ck_body c)" using less.prems(2) by (simp add: at_size_def)
  from chunk_size_okD [OF s1(1) tot] obtain l r n where
    l: "ck_rx c = l @ r" "is_line l" "parse_chunk_size l = Ok n" "fits s (length (ck_body c) + n)"
    and c1eq: "c1 = (if n = 0 then c\<lparr>ck_rx := r, in_trailers := True\<rparr> else c\<lparr>ck_rx := r, remaining := n\<rparr>)" by metis
  show ?case
  proof (cases "n = 0")
    case True
    then obtain t where "r = t @ ck_rx c'" "trailer_section 0 t" "ck_body c' = ck_body c"
      using trailers_sound [OF s1(2)] less.prems(2) c1eq by (auto simp: at_size_def)
    with True l show ?thesis by (intro exI [of _ "l @ t"] exI [of _ "[]"]) (auto intro: chunked_body.last_chunk)
  next
    case False
    have p1: "remaining c1 = n" "ck_rx c1 = r" "\<not> crlf_pending c1" "\<not> in_trailers c1" using False c1eq less.prems(2) by (simp_all add: at_size_def)
    have n: "n \<le> length r"
    proof (rule ccontr)
      assume short: "\<not> n \<le> length r"
      have "chunk_loop s c1 = (c', NeedMore) \<or> (\<exists>c2. chunk_loop s c1 = chunk_loop s c2 \<and> chunk_loop s c2 = (c2, NeedMore))"
      proof (cases "r = []")
        case True
        then have "chunk_iter s c1 = (c1, NeedMore)" using p1 False by (simp add: chunk_iter_idle chunk_main_def chunk_data_def)
        then show ?thesis using chunk_loop_stop [of s c1 c1 NeedMore] by (intro disjI2 exI [of _ c1]) simp
      next
        case nonempty: False
        then obtain c2 where d: "chunk_data c1 = (c2, Again)" using p1 False by (simp add: chunk_data_def Let_def)
        then have i: "chunk_iter s c1 = (c2, Again)" using p1 False by (simp add: chunk_iter_idle chunk_main_def)
        have "ck_rx c2 = [] \<and> 0 < remaining c2 \<and> \<not> crlf_pending c2 \<and> \<not> in_trailers c2"
          using chunk_data_more [OF d p1(3), of "[]"] p1 short by simp
        then have "chunk_iter s c2 = (c2, NeedMore)" by (simp add: chunk_iter_idle chunk_main_def chunk_data_def)
        then show ?thesis using chunk_loop_again [OF i] chunk_loop_stop [of s c2 c2 NeedMore] by (intro disjI2 exI [of _ c2]) simp
      qed
      with s1(2) show False by auto
    qed
    define d c2 where "d = take n r" and "c2 = c1\<lparr>ck_rx := drop n r, ck_body := ck_body c @ d, ck_total := ck_total c + n,
      remaining := 0, crlf_pending := True\<rparr>"
    have i1: "chunk_iter s c1 = (c2, Again)"
      using p1 False n c1eq by (simp add: chunk_iter_idle chunk_main_def chunk_data_def Let_def c2_def d_def min_def)
    then have l2: "chunk_loop s c2 = (c', Finished)" using s1(2) chunk_loop_again by metis
    have crlf: "take 2 (drop n r) = [0x0D, 0x0A]"
    proof (rule ccontr)
      assume "take 2 (drop n r) \<noteq> [0x0D, 0x0A]"
      moreover have "crlf_pending c2" "ck_rx c2 = drop n r" by (simp_all add: c2_def)
      ultimately have "\<exists>q. chunk_crlf c2 = (c2, q) \<and> q \<noteq> Again \<and> q \<noteq> Finished" by (auto simp: chunk_crlf_def)
      then obtain q where q0: "chunk_crlf c2 = (c2, q)" "q \<noteq> Again" "q \<noteq> Finished" by blast
      then have q: "chunk_iter s c2 = (c2, q)" "q \<noteq> Again" by (cases q; simp add: chunk_iter_def)+
      with q0(3) show False using chunk_loop_stop [OF q(1,2)] l2 by simp
    qed
    then have len2: "2 \<le> length (drop n r)" by (cases "drop n r"; cases "tl (drop n r)") auto
    define c3 where "c3 = c2\<lparr>ck_rx := drop 2 (drop n r), crlf_pending := False\<rparr>"
    have "chunk_iter s c2 = chunk_iter s c3"
      using crlf len2 by (simp add: chunk_iter_def chunk_crlf_def c2_def c3_def)
    then have l3: "chunk_loop s c3 = (c', Finished)" using l2 chunk_loop_cong by metis
    have at: "at_size c3" using less.prems(2) n c1eq False by (simp add: c3_def c2_def at_size_def d_def)
    have "length (ck_rx c3) < length (ck_rx c)" using l(1) len2 by (simp add: c3_def)
    from less.hyps [OF this l3 at] obtain w b where
      w: "ck_rx c3 = w @ ck_rx c'" "chunked_body w b" "ck_body c' = ck_body c3 @ b" "fits s (length (ck_body c'))" by blast
    have "r = d @ take 2 (drop n r) @ drop 2 (drop n r)" unfolding d_def by (simp only: append_take_drop_id)
    then have "r = d @ [0x0D, 0x0A] @ w @ ck_rx c'" using w(1) unfolding crlf by (simp add: c3_def)
    moreover have "length d = n" "d \<noteq> []" using n False by (auto simp: d_def)
    ultimately show ?thesis
      using l w(2-4) chunked_body.chunk [of l d w b]
      by (intro exI [of _ "l @ d @ [0x0D, 0x0A] @ w"] exI [of _ "d @ b"]) (simp add: c3_def c2_def)
  qed
qed

definition chunker_new :: "bytes \<Rightarrow> chunker" where
  "chunker_new inp = \<lparr>remaining = 0, crlf_pending = False, in_trailers = False, trailer_bytes = 0, ck_rx = inp, ck_body = [], ck_total = 0\<rparr>"

text \<open>
  (C22) The incremental decoder implements the grammar of chunked bodies exactly: from its initial state it finishes on an input
  if and only if a prefix of the input is a chunked body (within the size cap when the exchange is buffered); it has then
  decoded precisely that body and left precisely the rest of the input.
\<close>

theorem chunk_loop_exact:
  "(\<exists>c. chunk_loop s (chunker_new inp) = (c, Finished) \<and> ck_body c = body \<and> ck_rx c = rest) \<longleftrightarrow>
   (\<exists>w. inp = w @ rest \<and> chunked_body w body \<and> (s \<or> length body \<le> MAX_BODY_BYTES))"
proof -
  have "at_size (chunker_new inp)" "ck_rx (chunker_new inp) = inp" "ck_body (chunker_new inp) = []"
    by (simp_all add: chunker_new_def at_size_def)
  then show ?thesis
    using chunked_sound [of s "chunker_new inp"] chunked_complete [of _ body "chunker_new inp" rest s] by (auto simp: fits_def) fastforce+
qed

end
