(* ===== verification/Http1_Legacy.thy ===== *)
theory Http1_Legacy
  imports Http1_Chunked
begin

text \<open>
  The blocking HTTP/1.1 reader of \<open>src/src/http.rs\<close> over a byte stream that ends: \<open>read_line_capped\<close>, \<open>read_head\<close>,
  \<open>read_chunked\<close>, \<open>read_body\<close>. The stream is the bytes still to come; reading it does not fail.
\<close>

section \<open>Lines and heads\<close>

text \<open>The raw bytes of the line; the caller converts them. An empty line means the end of the stream.\<close>

definition read_line_capped :: "nat \<Rightarrow> bytes \<Rightarrow> (bytes \<times> bytes) result" where
  "read_line_capped mx r =
     (case newline_pos (take (mx + 1) r) of
        Some n \<Rightarrow> Ok (take (n + 1) r, drop (n + 1) r)
      | None \<Rightarrow> if length r > mx then Err (BadResponse ''response line exceeds 64 KiB'') else Ok (r, []))"

abbreviation (input) crlf_char :: "char \<Rightarrow> bool" where
  "crlf_char \<equiv> (\<lambda>c. c = CR \<or> c = LF)"

lemma read_line_capped_shorter: "read_line_capped mx r = Ok (line, r') \<Longrightarrow> line \<noteq> [] \<Longrightarrow> length r' < length r"
  by (cases r) (auto simp: read_line_capped_def split: option.splits if_splits)

function read_fields :: "nat \<Rightarrow> (string \<times> string) list \<Rightarrow> bytes \<Rightarrow> ((string \<times> string) list \<times> bytes) result" where
  "read_fields header_bytes headers r =
     (case read_line_capped MAX_HEADER_BYTES r of
        Inl e \<Rightarrow> Err e
      | Inr (line, r1) \<Rightarrow>
          if line = [] then Err UnexpectedEof
          else let n = header_bytes + length line; trimmed = trim_end_matches crlf_char (from_utf8_lossy line)
               in if n > MAX_HEADER_BYTES then Err (BadResponse ''headers exceed 64 KiB'')
                  else if trimmed = [] then Ok (headers, r1)
                  else (case push_header_line headers trimmed of
                          Inl e \<Rightarrow> Err e
                        | Inr hs \<Rightarrow> read_fields n hs r1))"
  by pat_completeness auto
termination
  by (relation "measure (\<lambda>(n, hs, r). length r)") (auto dest: read_line_capped_shorter)

declare read_fields.simps [simp del]

definition read_one_head :: "bytes \<Rightarrow> (response_head \<times> bytes) result" where
  "read_one_head r =
     res_bind (read_line_capped MAX_HEADER_BYTES r) (\<lambda>(line, r1).
       if line = [] then Err UnexpectedEof
       else res_bind (parse_status_line (trim_end_matches crlf_char (from_utf8_lossy line))) (\<lambda>(version, status, reason).
         res_bind (read_fields 0 [] r1) (\<lambda>(headers, r2).
           Ok (\<lparr>rh_status = status, rh_reason = reason, rh_version = version, rh_headers = headers\<rparr>, r2))))"

text \<open>At most \<open>k\<close> heads.\<close>

fun read_heads :: "nat \<Rightarrow> bytes \<Rightarrow> (response_head \<times> bytes) result" where
  "read_heads 0 r = Err (BadResponse ''too many interim (1xx) responses'')"
| "read_heads (Suc k) r =
     res_bind (read_one_head r) (\<lambda>(head, r1). if \<not> is_interim_status (rh_status head) then Ok (head, r1) else read_heads k r1)"

definition read_head :: "bytes \<Rightarrow> (response_head \<times> bytes) result" where
  "read_head r = read_heads (MAX_INTERIM_RESPONSES + 1) r"

section \<open>Bodies\<close>

definition read_chunk_size :: "bytes \<Rightarrow> (nat \<times> bytes) result" where
  "read_chunk_size r =
     res_bind (read_line_capped MAX_HEADER_BYTES r) (\<lambda>(line, r1).
       if line = [] then Err UnexpectedEof else res_bind (parse_chunk_size line) (\<lambda>n. Ok (n, r1)))"

function drain_chunk_trailers :: "nat \<Rightarrow> bytes \<Rightarrow> bytes result" where
  "drain_chunk_trailers tb r =
     (case read_line_capped MAX_HEADER_BYTES r of
        Inl e \<Rightarrow> Err e
      | Inr (line, r1) \<Rightarrow>
          if line = [] \<or> trim_end_matches crlf_char (from_utf8_lossy line) = [] then Ok r1
          else let n = saturating_add_u64 tb (length line)
               in if n > MAX_HEADER_BYTES then Err (BadResponse ''trailer block too large'') else drain_chunk_trailers n r1)"
  by pat_completeness auto
termination
  by (relation "measure (\<lambda>(n, r). length r)") (auto dest: read_line_capped_shorter)

declare drain_chunk_trailers.simps [simp del]

definition read_chunk_crlf :: "bytes \<Rightarrow> bytes result" where
  "read_chunk_crlf r =
     (case read_exact 2 r of
        Inl k \<Rightarrow> Err (Io k)
      | Inr (crlf, r1) \<Rightarrow> if crlf \<noteq> [0x0D, 0x0A] then Err (BadResponse ''missing CRLF after chunk'') else Ok r1)"

lemma read_chunk_size_shorter: "read_chunk_size r = Ok (n, r1) \<Longrightarrow> length r1 < length r"
  by (auto simp: read_chunk_size_def dest: read_line_capped_shorter split: if_splits)

lemma read_chunk_crlf_le: "read_chunk_crlf r = Ok r1 \<Longrightarrow> length r1 \<le> length r"
  by (auto simp: read_chunk_crlf_def read_exact_def split: if_splits)

function read_chunked :: "bytes \<Rightarrow> bytes \<Rightarrow> (bytes \<times> bytes) result" where
  "read_chunked body r =
     (case read_chunk_size r of
        Inl e \<Rightarrow> Err e
      | Inr (size0, r1) \<Rightarrow>
          if saturating_add_u64 (length body) size0 > MAX_BODY_BYTES then Err (BadResponse ''body too large'')
          else if size0 = 0 then res_bind (drain_chunk_trailers 0 r1) (\<lambda>r2. Ok (body, r2))
          else if length (take size0 r1) < size0 then Err UnexpectedEof
          else (case read_chunk_crlf (drop size0 r1) of
                  Inl e \<Rightarrow> Err e
                | Inr r3 \<Rightarrow> read_chunked (body @ take size0 r1) r3))"
  by pat_completeness auto
termination
  by (relation "measure (\<lambda>(b, r). length r)") (auto dest!: read_chunk_size_shorter read_chunk_crlf_le)

declare read_chunked.simps [simp del]

text \<open>\<open>truncated\<close> is what \<open>response_truncated\<close> of the transport says after the end of the stream.\<close>

definition read_body :: "bool \<Rightarrow> (string \<times> string) list \<Rightarrow> nat \<Rightarrow> string \<Rightarrow> bytes \<Rightarrow> (bytes \<times> bytes) result" where
  "read_body truncated headers status meth r =
     (if bodyless meth status then Ok ([], r)
      else if has_field ''transfer-encoding'' headers \<and> has_field ''content-length'' headers
      then Err (BadResponse ''both Transfer-Encoding and Content-Length present'')
      else if is_chunked headers then read_chunked [] r
      else res_bind (parse_content_length headers) (\<lambda>cl.
        case cl of
          Some len \<Rightarrow>
            if len > MAX_BODY_BYTES then Err (BadResponse ''body too large'')
            else if length (take len r) < len then Err UnexpectedEof else Ok (take len r, drop len r)
        | None \<Rightarrow> if truncated then Err UnexpectedEof else Ok (take MAX_BODY_BYTES r, drop MAX_BODY_BYTES r)))"

definition body_is_close_delimited :: "string \<Rightarrow> nat \<Rightarrow> (string \<times> string) list \<Rightarrow> bool" where
  "body_is_close_delimited meth status headers \<longleftrightarrow> \<not> bodyless meth status \<and>
     \<not> (has_field ''transfer-encoding'' headers \<or> has_field ''content-length'' headers)"

end
