(* ===== verification/Http1_Agree.thy ===== *)
theory Http1_Agree
  imports Http1_Legacy
begin

text \<open>
  How the blocking reader of \<open>http.rs\<close> and the incremental one of \<open>proto/http1.rs\<close> compare: they agree on every complete chunked
  body, and differ on three kinds of input.
\<close>

section \<open>Blank lines\<close>

lemma char_of_byte_crlf: "(char_of_byte b = CR \<or> char_of_byte b = LF) \<longleftrightarrow> (b = 0x0A \<or> b = 0x0D)"
proof -
  have "char_of_byte b = c \<longleftrightarrow> b = byte_of_char c" for c by (metis byte_of_char_of_byte char_of_byte_of_char)
  then show ?thesis by (auto simp: byte_of_char_def)
qed

lemma lossy_crlf: "list_all crlf_char (from_utf8_lossy bs) \<longleftrightarrow> list_all (\<lambda>b. b = 0x0A \<or> b = 0x0D) bs"
proof (induction bs rule: from_utf8_lossy.induct)
  case (1 bs)
  define n where "n = snd (utf8_step bs)"
  show ?case
  proof (cases "bs = []")
    case False
    have ih: "list_all crlf_char (from_utf8_lossy (drop n bs)) \<longleftrightarrow> list_all (\<lambda>b. b = 0x0A \<or> b = 0x0D) (drop n bs)"
      using "1.IH" False by (simp add: n_def)
    show ?thesis
    proof (cases "fst (utf8_step bs)")
      case True
      have "list_all (\<lambda>b. b = 0x0A \<or> b = 0x0D) bs \<longleftrightarrow> list_all (\<lambda>b. b = 0x0A \<or> b = 0x0D) (take n bs @ drop n bs)" by simp
      then show ?thesis
        using False True ih unfolding list_all_append
        by (subst from_utf8_lossy.simps) (simp add: n_def [symmetric] list_all_iff char_of_byte_crlf ball_Un)
    next
      case bad: False
      obtain a r where a: "bs = a # r" using False by (cases bs) auto
      have "\<not> a < 0x80" using bad by (auto simp: utf8_step_def a byte_or_0_def Let_def)
      then have "a \<noteq> 0x0A \<and> a \<noteq> 0x0D" by auto
      moreover have "char_of_byte 0xEF \<noteq> CR \<and> char_of_byte 0xEF \<noteq> LF" using char_of_byte_crlf [of "0xEF"] by auto
      ultimately show ?thesis using False bad by (subst from_utf8_lossy.simps) (simp add: a)
    qed
  qed (simp add: from_utf8_lossy.simps)
qed

lemma blank_iff: "trim_end_matches crlf_char (from_utf8_lossy line) = [] \<longleftrightarrow> trim_eol line = []"
  using lossy_crlf [of line] by (auto simp: trim_end_matches_def trim_eol_def dropWhile_eq_Nil_conv list_all_iff)

section \<open>Agreement on chunked bodies\<close>

lemma read_line_capped_cases:
  assumes "read_line_capped mx r = Ok (line, r1)"
  shows "(is_line line \<and> r = line @ r1) \<or> (line = r \<and> r1 = [] \<and> newline_pos r = None \<and> length r \<le> mx)"
proof (cases "newline_pos (take (mx + 1) r)")
  case None
  with assms show ?thesis by (auto simp: read_line_capped_def split: if_splits)
next
  case (Some n)
  then obtain l t where l: "take (mx + 1) r = l @ t" "is_line l" "length l = Suc n" using newline_split by blast
  then have "take (Suc n) (take (mx + 1) r) = l" by simp
  moreover have "Suc n \<le> mx + 1" using newline_pos_lt [OF Some] by simp
  ultimately have "take (Suc n) r = l" by (simp add: min_def split: if_splits)
  with assms Some l(2) show ?thesis by (auto simp: read_line_capped_def)
qed

lemma trailers_agree:
  assumes "drain_chunk_trailers tb r = Ok rest" "in_trailers c" "\<not> crlf_pending c" "trailer_bytes c = tb" "ck_rx c = r"
  shows "\<exists>c'. ck_body c' = ck_body c \<and>
    (chunk_loop s c = (c', Finished) \<and> ck_rx c' = rest \<or> chunk_loop s c = (c', NeedMore) \<and> rest = [])"
  using assms
proof (induction tb r arbitrary: c rule: drain_chunk_trailers.induct)
  case (1 tb r)
  from "1.prems"(1) obtain line r1 where rl: "read_line_capped MAX_HEADER_BYTES r = Ok (line, r1)"
    by (subst (asm) drain_chunk_trailers.simps) (auto split: sum.splits)
  note step = "1.prems"(1) [unfolded drain_chunk_trailers.simps [of tb r] rl sum.case prod.case blank_iff]
  have it: "chunk_iter s c = chunk_trailer c" using "1.prems"(2,3) by (simp add: chunk_iter_idle chunk_main_def)
  from read_line_capped_cases [OF rl] show ?case
  proof
    assume l: "is_line line \<and> r = line @ r1"
    then have ne: "line \<noteq> []" by (simp add: is_line_def)
    note tl = chunk_trailer_line [of line c r1] 
    show ?thesis
    proof (cases "trim_eol line = []")
      case True
      then have "chunk_loop s c = (c\<lparr>ck_rx := r1\<rparr>, Finished)" using l "1.prems"(5) it tl by (intro chunk_loop_stop) simp_all
      with step True show ?thesis by (intro exI [of _ "c\<lparr>ck_rx := r1\<rparr>"]) simp
    next
      case False
      define n where "n = saturating_add_u64 tb (length line)"
      define c1 where "c1 = c\<lparr>ck_rx := r1, trailer_bytes := n\<rparr>"
      have n: "\<not> n > MAX_HEADER_BYTES" "drain_chunk_trailers n r1 = Ok rest" using step False ne by (auto simp: n_def Let_def split: if_splits)
      have "chunk_iter s c = (c1, Again)" using l "1.prems"(4,5) it tl False n(1) by (simp add: c1_def n_def)
      then have "chunk_loop s c = chunk_loop s c1" by (rule chunk_loop_again)
      moreover have "\<exists>c'. ck_body c' = ck_body c1 \<and>
          (chunk_loop s c1 = (c', Finished) \<and> ck_rx c' = rest \<or> chunk_loop s c1 = (c', NeedMore) \<and> rest = [])"
        using "1.IH" [OF rl refl _ n_def n(1) n(2), of c1] False ne blank_iff "1.prems"(2,3) by (simp add: c1_def)
      ultimately show ?thesis by (simp add: c1_def)
    qed
  next
    assume e: "line = r \<and> r1 = [] \<and> newline_pos r = None \<and> length r \<le> MAX_HEADER_BYTES"
    have "chunk_loop s c = (c, NeedMore)" using it e "1.prems"(5) by (intro chunk_loop_stop) (simp_all add: chunk_trailer_def)
    moreover have "rest = []"
    proof (cases "r = [] \<or> trim_eol r = []")
      case True
      with step e show ?thesis by auto
    next
      case False
      then have "drain_chunk_trailers (saturating_add_u64 tb (length r)) [] = Ok rest" using step e by (simp add: Let_def split: if_splits)
      then show ?thesis by (subst (asm) drain_chunk_trailers.simps) (simp add: read_line_capped_def newline_pos_def)
    qed
    ultimately show ?thesis by blast
  qed
qed

lemma read_chunked_agrees:
  assumes "read_chunked body r = Ok (b, rest)" "at_size c" "ck_rx c = r" "ck_body c = body"
  shows "\<exists>c'. ck_body c' = b \<and>
    (chunk_loop False c = (c', Finished) \<and> ck_rx c' = rest \<or> chunk_loop False c = (c', NeedMore) \<and> rest = [])"
  using assms
proof (induction body r arbitrary: c rule: read_chunked.induct)
  case (1 body r)
  from "1.prems"(1) obtain n r1 where sz: "read_chunk_size r = Ok (n, r1)"
    by (subst (asm) read_chunked.simps) (auto split: sum.splits)
  note step = "1.prems"(1) [unfolded read_chunked.simps [of body r] sz sum.case prod.case]
  from sz obtain line where rl: "read_line_capped MAX_HEADER_BYTES r = Ok (line, r1)" "line \<noteq> []" "parse_chunk_size line = Ok n"
    by (auto simp: read_chunk_size_def split: if_splits)
  have it: "chunk_iter False c = chunk_size False c" using "1.prems"(2) by (simp add: chunk_iter_idle chunk_main_def at_size_def)
  have cap: "\<not> saturating_add_u64 (length body) n > MAX_BODY_BYTES" using step by (auto split: if_splits)
  from read_line_capped_cases [OF rl(1)] show ?case
  proof
    assume l: "is_line line \<and> r = line @ r1"
    define c1 where "c1 = (if n = 0 then c\<lparr>ck_rx := r1, in_trailers := True\<rparr> else c\<lparr>ck_rx := r1, remaining := n\<rparr>)"
    have i1: "chunk_iter False c = (c1, Again)"
      using l it "1.prems"(2-4) cap rl(3) chunk_size_line [of line c r1 n False] by (simp add: c1_def at_size_def)
    show ?thesis
    proof (cases "n = 0")
      case True
      then obtain d where "drain_chunk_trailers 0 r1 = Ok rest" "b = body" using step cap by (auto split: if_splits)
      then have "\<exists>c'. ck_body c' = ck_body c1 \<and>
          (chunk_loop False c1 = (c', Finished) \<and> ck_rx c' = rest \<or> chunk_loop False c1 = (c', NeedMore) \<and> rest = [])"
        using True "1.prems"(2) by (intro trailers_agree) (simp_all add: c1_def at_size_def)
      with True \<open>b = body\<close> "1.prems"(4) show ?thesis using chunk_loop_again [OF i1] by (simp add: c1_def)
    next
      case False
      from step cap False obtain r3 where r3: "n \<le> length r1" "read_chunk_crlf (drop n r1) = Ok r3"
        "read_chunked (body @ take n r1) r3 = Ok (b, rest)" by (auto split: if_splits sum.splits)
      have "take 2 (drop n r1) = [0x0D, 0x0A]" "drop 2 (drop n r1) = r3"
        using r3(2) by (auto simp: read_chunk_crlf_def read_exact_def split: if_splits)
      then have crlf: "drop n r1 = [0x0D, 0x0A] @ r3" using append_take_drop_id [of 2 "drop n r1"] by simp
      define c2 where "c2 = c1\<lparr>ck_rx := [0x0D, 0x0A] @ r3, ck_body := body @ take n r1, ck_total := length body + n, remaining := 0, crlf_pending := True\<rparr>"
      define c3 where "c3 = c2\<lparr>ck_rx := r3, crlf_pending := False\<rparr>"
      have i2: "chunk_iter False c1 = (c2, Again)"
        using False "1.prems"(2,4) r3(1) crlf by (simp add: chunk_iter_idle chunk_main_def chunk_data_def Let_def c2_def c1_def at_size_def)
      have "chunk_iter False c2 = chunk_iter False c3" by (simp add: chunk_iter_def chunk_crlf_def c2_def c3_def c1_def)
      then have "chunk_loop False c = chunk_loop False c3"
        using chunk_loop_again [OF i1] chunk_loop_again [OF i2] chunk_loop_cong by metis
      moreover have "\<exists>c'. ck_body c' = b \<and>
          (chunk_loop False c3 = (c', Finished) \<and> ck_rx c' = rest \<or> chunk_loop False c3 = (c', NeedMore) \<and> rest = [])"
        using "1.IH" [OF sz refl cap False _ r3(2,3), of c3] "1.prems"(2) r3(1) False by (simp add: c3_def c2_def c1_def at_size_def)
      ultimately show ?thesis by simp
    qed
  next
    assume e: "line = r \<and> r1 = [] \<and> newline_pos r = None \<and> length r \<le> MAX_HEADER_BYTES"
    have nm: "chunk_loop False c = (c, NeedMore)" using it e "1.prems"(3) by (intro chunk_loop_stop) (simp_all add: chunk_size_def)
    have "n = 0" using step cap e by (auto split: if_splits)
    then have "drain_chunk_trailers 0 [] = Ok rest" "b = body" using step cap e by (auto split: if_splits)
    then have "rest = []" by (subst (asm) drain_chunk_trailers.simps) (simp add: read_line_capped_def newline_pos_def)
    with nm \<open>b = body\<close> "1.prems"(4) show ?thesis by blast
  qed
qed

text \<open>
  The two HTTP/1.1 readers agree on chunked bodies: when the blocking reader returns a body, the incremental decoder decodes
  the same body and leaves the same bytes; the only exception is a stream that ends before the line that closes the
  body, which the blocking reader accepts and on which the incremental decoder still waits, with the same body decoded.
\<close>

theorem http1_chunked_readers_agree:
  assumes "read_chunked [] r = Ok (body, rest)"
  shows "\<exists>c. ck_body c = body \<and> (chunk_loop False (chunker_new r) = (c, Finished) \<and> ck_rx c = rest \<or>
    chunk_loop False (chunker_new r) = (c, NeedMore) \<and> rest = [])"
  by (rule read_chunked_agrees [OF assms]) (simp_all add: chunker_new_def at_size_def)

lemma demo_last_chunk: "parse_chunk_size [0x30, 0x0D, 0x0A] = Ok 0"
proof -
  have "from_utf8_lossy [0x30, 0x0D, 0x0A] = [CHR ''0'', CR, LF]"
    by (simp add: from_utf8_lossy_ascii char_of_byte_def char_of_eq_iff)
  moreover have "trim ''0'' = ''0''"
  proof -
    have "ws_front ''0'' = 0" "ws_back ''0'' = 0" by (simp_all add: ws_front_def ws_back_def ws_char_def byte_of_char_def)
    then show ?thesis by (simp add: trim_def trim_start.simps [of "''0''"] trim_end.simps [of "''0''"])
  qed
  ultimately show ?thesis
    by (simp add: parse_chunk_size_def trim_end_matches_def is_ascii_hexdigit_def is_ascii_digit_def parse_hex_u64_def hex_value_def)
qed

lemma demo_trailer_line: "trim_eol [0x0D, 0x0A] = []"
  by (simp add: trim_eol_def)

lemma demo_read_chunked:
  "read_chunked [] [0x30, 0x0D, 0x0A, 0x0D, 0x0A] = Ok ([], [])" "read_chunked [] [0x30, 0x0D, 0x0A] = Ok ([], [])"
proof -
  have l: "read_line_capped MAX_HEADER_BYTES (0x30 # 0x0D # 0x0A # r) = Ok ([0x30, 0x0D, 0x0A], r)"
    "read_line_capped MAX_HEADER_BYTES [0x0D, 0x0A] = Ok ([0x0D, 0x0A], [])" "read_line_capped MAX_HEADER_BYTES [] = Ok ([], [])" for r
    by (simp_all add: read_line_capped_def newline_pos_def take_Cons')
  have t: "drain_chunk_trailers 0 [0x0D, 0x0A] = Ok []" "drain_chunk_trailers 0 [] = Ok []"
    by (simp_all add: drain_chunk_trailers.simps l blank_iff demo_trailer_line)
  show "read_chunked [] [0x30, 0x0D, 0x0A, 0x0D, 0x0A] = Ok ([], [])" "read_chunked [] [0x30, 0x0D, 0x0A] = Ok ([], [])"
    by (simp_all add: read_chunked.simps read_chunk_size_def l demo_last_chunk t saturating_add_u64_def)
qed

theorem http1_chunked_readers_agree_witness:
  "\<exists>c. ck_body c = [] \<and> (chunk_loop False (chunker_new [0x30, 0x0D, 0x0A, 0x0D, 0x0A]) = (c, Finished) \<and> ck_rx c = [] \<or>
    chunk_loop False (chunker_new [0x30, 0x0D, 0x0A, 0x0D, 0x0A]) = (c, NeedMore))"
  using http1_chunked_readers_agree [OF demo_read_chunked(1)] by blast

section \<open>Where the readers differ\<close>

text \<open>
  The two HTTP/1.1 readers differ on three kinds of response, although the incremental one is documented to mirror the
  blocking one. A chunked body whose stream ends right after the last-chunk line is accepted by the blocking reader and waits for
  more (so fails at the end of the stream) in the incremental one. A body under a transfer coding other than chunked is read to the end
  of the stream by the blocking reader and refused by the incremental one. A head whose lines end in LF and whose blank line is
  CRLF is accepted by the blocking reader and not recognised as complete by the incremental one.
\<close>

theorem http1_readers_differ:
  "read_chunked [] [0x30, 0x0D, 0x0A] = Ok ([], []) \<and> snd (chunk_loop False (chunker_new [0x30, 0x0D, 0x0A])) = NeedMore \<and>
   read_body False [(''Transfer-Encoding'', ''gzip'')] 200 ''GET'' [0x41] = Ok ([0x41], []) \<and>
   body_mode_of ''GET'' \<lparr>rh_status = 200, rh_reason = [], rh_version = ''HTTP/1.1'', rh_headers = [(''Transfer-Encoding'', ''gzip'')]\<rparr> False
     = Err (BadResponse ''unsupported Transfer-Encoding'') \<and>
   read_one_head (as_bytes ''HTTP/1 204'' @ [0x0A, 0x0D, 0x0A]) = Ok (demo_head, []) \<and>
   find_header_end (as_bytes ''HTTP/1 204'' @ [0x0A, 0x0D, 0x0A]) = None"
proof -
  have nm: "snd (chunk_loop False (chunker_new [0x30, 0x0D, 0x0A])) = NeedMore"
  proof -
    define c1 where "c1 = chunker_new [0x30, 0x0D, 0x0A]\<lparr>ck_rx := [], in_trailers := True\<rparr>"
    have "is_line [0x30, 0x0D, 0x0A]" by (simp add: is_line_def newline_pos_def)
    from chunk_size_line [OF this, of "chunker_new [0x30, 0x0D, 0x0A]" "[]" 0 False]
    have "chunk_iter False (chunker_new [0x30, 0x0D, 0x0A]) = (c1, Again)"
      by (simp add: chunk_iter_idle chunk_main_def demo_last_chunk chunker_new_def saturating_add_u64_def c1_def)
    moreover have "chunk_iter False c1 = (c1, NeedMore)"
      by (simp add: c1_def chunker_new_def chunk_iter_idle chunk_main_def chunk_trailer_def newline_pos_def)
    ultimately show ?thesis using chunk_loop_again chunk_loop_stop [of False c1 c1 NeedMore] by simp
  qed
  have te: "has_field ''transfer-encoding'' [(''Transfer-Encoding'', ''gzip'')]" "\<not> has_field ''content-length'' [(''Transfer-Encoding'', ''gzip'')]"
    "\<not> is_chunked [(''Transfer-Encoding'', ''gzip'')]" "parse_content_length [(''Transfer-Encoding'', ''gzip'')] = Ok None"
    by (simp_all add: has_field_def is_chunked_def parse_content_length_def eq_ignore_ascii_case_def to_ascii_lowercase_def
        to_ascii_lowercase_char_def is_ascii_uppercase_def char_of_eq_iff)
  have get: "\<not> bodyless ''GET'' 200"
    by (simp add: bodyless_def eq_ignore_ascii_case_def to_ascii_lowercase_def to_ascii_lowercase_char_def is_ascii_uppercase_def char_of_eq_iff)
  have b: "read_body False [(''Transfer-Encoding'', ''gzip'')] 200 ''GET'' [0x41] = Ok ([0x41], [])"
    "body_mode_of ''GET'' \<lparr>rh_status = 200, rh_reason = [], rh_version = ''HTTP/1.1'', rh_headers = [(''Transfer-Encoding'', ''gzip'')]\<rparr> False
     = Err (BadResponse ''unsupported Transfer-Encoding'')"
    using te get by (simp_all add: read_body_def body_mode_of_def Let_def)
  define sl where "sl = as_bytes ''HTTP/1 204'' @ [0x0A]"
  have "read_line_capped MAX_HEADER_BYTES (sl @ [0x0D, 0x0A]) = Ok (sl, [0x0D, 0x0A])"
    "read_line_capped MAX_HEADER_BYTES [0x0D, 0x0A] = Ok ([0x0D, 0x0A], [])"
    by (simp_all add: read_line_capped_def newline_pos_def sl_def as_bytes_def byte_of_char_def take_Cons')
  moreover have "trim_end_matches crlf_char (from_utf8_lossy sl) = ''HTTP/1 204''"
  proof -
    have "from_utf8_lossy sl = map char_of_byte sl" by (rule from_utf8_lossy_ascii) (simp add: sl_def as_bytes_def byte_of_char_def)
    also have "\<dots> = ''HTTP/1 204'' @ [LF]" by (simp add: sl_def as_bytes_def o_def char_of_byte_def char_of_eq_iff byte_of_char_def)
    finally show ?thesis by (simp add: trim_end_matches_def)
  qed
  moreover have "parse_status_line ''HTTP/1 204'' = Ok (''HTTP/1'', 204, [])"
    by (simp add: parse_status_line_def split_once_def starts_with_def parse_unsigned_def is_ascii_digit_def decimal_value_def digit_value_def)
  moreover have "sl \<noteq> []" by (simp add: sl_def)
  ultimately have h: "read_one_head (sl @ [0x0D, 0x0A]) = Ok (demo_head, [])"
    by (simp add: read_one_head_def read_fields.simps [of 0 "[]" "[0x0D, 0x0A]"] blank_iff demo_trailer_line demo_head_def)
  have "find_header_end (sl @ [0x0D, 0x0A]) = None" by (simp add: sl_def as_bytes_def byte_of_char_def)
  with nm b h demo_read_chunked(2) show ?thesis by (simp add: sl_def)
qed

end
