(* ===== verification/Cookie_Date.thy ===== *)
theory Cookie_Date
  imports Rust_Str "HOL-Library.Signed_Division"
begin

text \<open>
  Cookie dates (\<open>src/src/cookie.rs\<close>): the lenient parser of RFC 6265 section 5.1.1 and the conversion of a
  calendar date to seconds since 1970, which is compared with counting the days of years and months.
\<close>

section \<open>Parsing\<close>

definition date_delim :: "char \<Rightarrow> bool" where
  "date_delim c \<longleftrightarrow> (let b = of_char c :: nat in b = 0x09 \<or> (0x20 \<le> b \<and> b \<le> 0x2f) \<or> (0x3b \<le> b \<and> b \<le> 0x40) \<or>
     (0x5b \<le> b \<and> b \<le> 0x60) \<or> (0x7b \<le> b \<and> b \<le> 0x7e))"

text \<open>\<open>split\<close> with a predicate on slices.\<close>

fun split_pred :: "('a \<Rightarrow> bool) \<Rightarrow> 'a list \<Rightarrow> 'a list list" where
  "split_pred P [] = [[]]"
| "split_pred P (c # s) = (if P c then [] # split_pred P s else case split_pred P s of p # ps \<Rightarrow> (c # p) # ps | [] \<Rightarrow> [[c]])"

definition leading_digits :: "string \<Rightarrow> nat \<Rightarrow> nat \<Rightarrow> nat option" where
  "leading_digits token mn mx =
     (let n = length (takeWhile is_ascii_digit token)
      in if n < mn \<or> n > mx then None else Some (decimal_value (take n token)))"

text \<open>One field of \<open>hms-time\<close>: one or two digits.\<close>

definition time_part :: "string \<Rightarrow> (nat \<times> string) option" where
  "time_part rest =
     (let n = length (takeWhile is_ascii_digit rest)
      in if n < 1 \<or> n > 2 then None else Some (decimal_value (take n rest), drop n rest))"

definition cookie_date_time :: "string \<Rightarrow> (nat \<times> nat \<times> nat) option" where
  "cookie_date_time token =
     Option.bind (time_part token) (\<lambda>(h, r1). Option.bind (strip_prefix '':'' r1) (\<lambda>r2.
     Option.bind (time_part r2) (\<lambda>(m, r3). Option.bind (strip_prefix '':'' r3) (\<lambda>r4.
     Option.bind (time_part r4) (\<lambda>(s, r5). Some (h, m, s))))))"

definition MONTHS :: "string list" where
  "MONTHS = [''jan'', ''feb'', ''mar'', ''apr'', ''may'', ''jun'', ''jul'', ''aug'', ''sep'', ''oct'', ''nov'', ''dec'']"

text \<open>\<open>str::get(..n)\<close>: \<open>None\<close> beyond the end and inside a character.\<close>

definition str_get_to :: "nat \<Rightarrow> string \<Rightarrow> string option" where
  "str_get_to n s =
     (if n > length s \<or> (n < length s \<and> cont_byte (byte_of_char (s ! n))) then None else Some (take n s))"

definition parse_month :: "string \<Rightarrow> nat option" where
  "parse_month s =
     Option.bind (str_get_to 3 s) (\<lambda>prefix.
       map_option Suc (position (\<lambda>m. eq_ignore_ascii_case m prefix) MONTHS))"

section \<open>The calendar\<close>

definition epoch_from_ymd_hms :: "int \<Rightarrow> nat \<Rightarrow> nat \<Rightarrow> nat \<Rightarrow> nat \<Rightarrow> nat \<Rightarrow> nat option" where
  "epoch_from_ymd_hms y m d hh mm ss =
     (if \<not> (1 \<le> m \<and> m \<le> 12) \<or> \<not> (1 \<le> d \<and> d \<le> 31) \<or> hh > 23 \<or> mm > 59 \<or> ss > 60 then None
      else
        let leap = (y smod 4 = 0 \<and> y smod 100 \<noteq> 0) \<or> y smod 400 = 0;
            month_days = (if m = 2 \<and> leap then 29 else if m = 2 then 28 else if m \<in> set [4, 6, 9, 11] then 30 else 31)
        in if d > month_days then None
           else
             let year = (if m \<le> 2 then y - 1 else y);
                 era = (if year \<ge> 0 then year else year - 399) sdiv 400;
                 yoe = nat (year - era * 400);
                 mp = (if m > 2 then m - 3 else m + 9);
                 doy = (153 * mp + 2) div 5 + d - 1;
                 doe = yoe * 365 + yoe div 4 - yoe div 100 + doy;
                 days = era * 146097 + int doe - 719468
             in if days < 0 then Some 0
                else Some (nat days * 86400 + hh * 3600 + mm * 60 + ss))"

text \<open>The four fields found so far, and one turn of the loop over the tokens.\<close>

record date_fields =
  df_time :: "(nat \<times> nat \<times> nat) option"
  df_day :: "nat option"
  df_month :: "nat option"
  df_year :: "int option"

definition date_token :: "date_fields \<Rightarrow> string \<Rightarrow> date_fields" where
  "date_token f token =
     (let t = (if df_time f = None then cookie_date_time token else None);
          d = (if df_day f = None then leading_digits token 1 2 else None);
          m = (if df_month f = None then Option.bind (from_utf8 (as_bytes token)) parse_month else None);
          y = (if df_year f = None then leading_digits token 2 4 else None)
      in if t \<noteq> None then f\<lparr>df_time := t\<rparr>
         else if d \<noteq> None then f\<lparr>df_day := d\<rparr>
         else if m \<noteq> None then f\<lparr>df_month := m\<rparr>
         else if y \<noteq> None then f\<lparr>df_year := map_option int y\<rparr>
         else f)"

definition parse_http_date :: "string \<Rightarrow> nat option" where
  "parse_http_date s =
     (let f = foldl date_token \<lparr>df_time = None, df_day = None, df_month = None, df_year = None\<rparr>
                (filter (\<lambda>t. t \<noteq> []) (split_pred date_delim s))
      in Option.bind (df_time f) (\<lambda>(hh, mm, ss). Option.bind (df_day f) (\<lambda>day. Option.bind (df_month f) (\<lambda>month.
         Option.bind (df_year f) (\<lambda>year0.
           let year = (if 70 \<le> year0 \<and> year0 \<le> 99 then year0 + 1900
                       else if 0 \<le> year0 \<and> year0 \<le> 69 then year0 + 2000 else year0)
           in if year < 1601 \<or> hh > 23 \<or> mm > 59 \<or> ss > 59 then None
              else epoch_from_ymd_hms year month day hh mm ss)))))"

section \<open>The conversion counts days\<close>

definition is_leap :: "int \<Rightarrow> bool" where
  "is_leap y \<longleftrightarrow> 4 dvd y \<and> (\<not> 100 dvd y \<or> 400 dvd y)"

definition days_in_year :: "int \<Rightarrow> nat" where
  "days_in_year y = (if is_leap y then 366 else 365)"

definition days_in_month :: "int \<Rightarrow> nat \<Rightarrow> nat" where
  "days_in_month y m = (if m = 2 then if is_leap y then 29 else 28 else if m = 4 \<or> m = 6 \<or> m = 9 \<or> m = 11 then 30 else 31)"

definition valid_date :: "int \<Rightarrow> nat \<Rightarrow> nat \<Rightarrow> bool" where
  "valid_date y m d \<longleftrightarrow> 1 \<le> m \<and> m \<le> 12 \<and> 1 \<le> d \<and> d \<le> days_in_month y m"

text \<open>The days from 1 January 1970 to the given date, counting whole years, whole months and days.\<close>

definition day_count :: "int \<Rightarrow> nat \<Rightarrow> nat \<Rightarrow> nat" where
  "day_count y m d = (\<Sum>k\<in>{1970..<y}. days_in_year k) + (\<Sum>j\<in>{1..<m}. days_in_month y j) + (d - 1)"

text \<open>Days from 1 March of year 0 to 1 March of year \<open>y\<close>.\<close>

definition march_days :: "int \<Rightarrow> int" where
  "march_days y = 365 * y + y div 4 - y div 100 + y div 400"

lemma div_pred: "0 < k \<Longrightarrow> (y::int) div k - (y - 1) div k = (if k dvd y then 1 else 0)"
proof -
  assume k: "0 < k"
  show ?thesis
  proof (cases "k dvd y")
    case True
    then obtain q where q: "y = k * q" by blast
    have "(y - 1) div k = ((k - 1) + k * (q - 1)) div k" by (simp add: q algebra_simps)
    also have "\<dots> = q - 1" using k by (simp only: div_mult_self2) simp
    finally show ?thesis using True k q by simp
  next
    case False
    then have m: "0 < y mod k" using k by (simp add: dvd_eq_mod_eq_0 order_less_le)
    have "y - 1 = (y mod k - 1) + k * (y div k)" by simp
    also have "\<dots> div k = y div k + (y mod k - 1) div k" using k by (intro div_mult_self2) simp
    finally have "(y - 1) div k = y div k + (y mod k - 1) div k" .
    moreover have "(y mod k - 1) div k = 0" using m pos_mod_bound [OF k, of y] by (intro div_pos_pos_trivial) auto
    ultimately show ?thesis using False by simp
  qed
qed

lemma leap_arith:
  "(c \<longrightarrow> b) \<Longrightarrow> (b \<longrightarrow> a) \<Longrightarrow>
   365 + (if a then 1 else 0) - (if b then 1 else 0) + (if c then 1 else 0) = int (if a \<and> (\<not> b \<or> c) then 366 else 365)"
  by (cases a; cases b; cases c; simp)

lemma march_days_step: "march_days y - march_days (y - 1) = int (days_in_year y)"
proof -
  have "march_days y - march_days (y - 1) =
      365 + (y div 4 - (y - 1) div 4) - (y div 100 - (y - 1) div 100) + (y div 400 - (y - 1) div 400)"
    by (simp add: march_days_def algebra_simps)
  then have "march_days y - march_days (y - 1) =
      365 + (if 4 dvd y then 1 else 0) - (if 100 dvd y then 1 else 0) + (if 400 dvd y then 1 else 0)"
    by (simp add: div_pred)
  moreover have "(4::int) dvd 100" "(100::int) dvd 400" by simp_all
  then have "100 dvd y \<longrightarrow> 4 dvd y" "400 dvd y \<longrightarrow> 100 dvd y" using dvd_trans by blast+
  ultimately show ?thesis unfolding days_in_year_def is_leap_def by (simp only: leap_arith)
qed

lemma march_days_1970: "march_days 1969 = 719162"
  by (simp add: march_days_def)

text \<open>1 January is 306 days after 1 March.\<close>

lemma year_days: "1970 \<le> y \<Longrightarrow> int (\<Sum>k\<in>{1970..<y}. days_in_year k) = march_days (y - 1) + 306 - 719468"
proof (induction y rule: int_ge_induct)
  case base
  show ?case by (simp add: march_days_1970)
next
  case (step y)
  have "{1970..<y + 1} = insert y {1970..<y}" using step.hyps by auto
  then have "(\<Sum>k\<in>{1970..<y + 1}. days_in_year k) = days_in_year y + (\<Sum>k\<in>{1970..<y}. days_in_year k)" by simp
  with step.IH march_days_step [of y] show ?case by simp
qed

text \<open>Within an era of 400 years the code's day of era is the same count.\<close>

lemma floor_era: "(if year \<ge> 0 then year else year - 399) sdiv 400 = (year :: int) div 400"
proof (cases "year \<ge> 0")
  case True
  then show ?thesis by (simp add: signed_divide_int_def sgn_if)
next
  case False
  have "(399 - year) div 400 = ((399 - year mod 400) + 400 * (- (year div 400))) div 400" by (simp add: minus_mult_div_eq_mod [symmetric])
  also have "\<dots> = - (year div 400)" by simp
  finally show ?thesis using False by (simp add: signed_divide_int_def)
qed

lemma era_days:
  fixes year :: int
  defines "e \<equiv> (if year \<ge> 0 then year else year - 399) sdiv 400"
  shows "e * 146097 + int (nat (year - e * 400) * 365 + nat (year - e * 400) div 4 - nat (year - e * 400) div 100 + doy)
    = march_days year + int doy"
proof -
  define r where "r = year mod 400"
  have e: "e = year div 400" unfolding e_def by (rule floor_era)
  have y: "year = 400 * e + r" and r: "0 \<le> r" "r < 400" by (simp_all add: e r_def)
  have "year div 4 = 100 * e + r div 4" "year div 100 = 4 * e + r div 100" unfolding y by simp_all
  then have md: "march_days year = 146097 * e + (365 * r + r div 4 - r div 100)"
    by (simp add: march_days_def e [symmetric]) (simp add: y)
  have le: "nat r div 100 \<le> nat r * 365 + nat r div 4" by (rule order_trans [of _ "nat r"]) simp_all
  have i: "int (nat r div 4) = r div 4" "int (nat r div 100) = r div 100" using r by (simp_all add: zdiv_int)
  have yr: "year - e * 400 = r" using y by simp
  show ?thesis unfolding yr md using le i r by (simp add: of_nat_diff)
qed

lemma march_days_mono: "y \<le> z \<Longrightarrow> march_days y \<le> march_days z"
proof (induction z rule: int_ge_induct)
  case (step z)
  with march_days_step [of "z + 1"] show ?case by simp
qed simp

lemma month_offset:
  assumes "1 \<le> m" "m \<le> 12"
  shows "m \<le> 2 \<Longrightarrow> (153 * (m + 9) + 2) div 5 = (\<Sum>j\<in>{1..<m}. days_in_month y j) + 306"
    and "2 < m \<Longrightarrow> (153 * (m - 3) + 2) div 5 + days_in_month y 2 + 31 = (\<Sum>j\<in>{1..<m}. days_in_month y j)"
proof -
  have sl: "(\<Sum>j\<in>{1..<m}. days_in_month y j) = sum_list (map (days_in_month y) [1..<m])"
    by (simp add: interv_sum_list_conv_sum_set_nat)
  have m: "m \<in> {1, 2, 3, 4, 5, 6, 7, 8, 9, 10, 11, 12}" using assms by (simp, presburger)
  show "m \<le> 2 \<Longrightarrow> (153 * (m + 9) + 2) div 5 = (\<Sum>j\<in>{1..<m}. days_in_month y j) + 306"
    unfolding sl using m by (elim insertE emptyE) (simp_all add: days_in_month_def upt_rec del: One_nat_def)
  show "2 < m \<Longrightarrow> (153 * (m - 3) + 2) div 5 + days_in_month y 2 + 31 = (\<Sum>j\<in>{1..<m}. days_in_month y j)"
    unfolding sl using m by (elim insertE emptyE) (simp_all add: days_in_month_def upt_rec del: One_nat_def)
qed

lemma smod_dvd: "(y :: int) smod k = 0 \<longleftrightarrow> k dvd y"
  by (cases "y = 0") (simp_all add: smod_int_alt_def sgn_eq_0_iff dvd_eq_mod_eq_0 [symmetric])

text \<open>The day number the code computes.\<close>

definition civil_days :: "int \<Rightarrow> nat \<Rightarrow> nat \<Rightarrow> int" where
  "civil_days y m d = march_days (if m \<le> 2 then y - 1 else y) + int ((153 * (if m > 2 then m - 3 else m + 9) + 2) div 5 + d - 1) - 719468"

lemma epoch_from_ymd_hms_eq:
  "epoch_from_ymd_hms y m d hh mm ss =
     (if valid_date y m d \<and> hh \<le> 23 \<and> mm \<le> 59 \<and> ss \<le> 60
      then Some (if civil_days y m d < 0 then 0 else nat (civil_days y m d) * 86400 + hh * 3600 + mm * 60 + ss) else None)"
proof -
  have dm: "d \<le> days_in_month y m \<Longrightarrow> d \<le> 31" by (auto simp: days_in_month_def split: if_splits)
  show ?thesis
    unfolding epoch_from_ymd_hms_def Let_def era_days
    using dm by (auto simp: valid_date_def days_in_month_def is_leap_def civil_days_def smod_dvd)
qed

lemma civil_days_after:
  assumes "1970 \<le> y" "valid_date y m d"
  shows "civil_days y m d = int (day_count y m d)"
proof -
  have m: "1 \<le> m" "m \<le> 12" "1 \<le> d" using assms(2) by (simp_all add: valid_date_def)
  have leap: "int (days_in_year y) = int (days_in_month y 2) + 337" by (simp add: days_in_year_def days_in_month_def)
  show ?thesis
  proof (cases "m \<le> 2")
    case True
    with month_offset(1) [OF m(1,2) True, of y] m(3) year_days [OF assms(1)] show ?thesis
      by (simp add: civil_days_def day_count_def of_nat_diff)
  next
    case False
    define a where "a = (153 * (m - 3) + 2) div 5"
    define S T where "S = (\<Sum>k\<in>{1970..<y}. days_in_year k)" and "T = (\<Sum>j\<in>{1..<m}. days_in_month y j)"
    have "int S = march_days (y - 1) + 306 - 719468" unfolding S_def by (rule year_days [OF assms(1)])
    moreover have "a + days_in_month y 2 + 31 = T" using month_offset(2) [OF m(1,2)] False unfolding a_def T_def by simp
    moreover have "civil_days y m d = march_days y + int (a + d - 1) - 719468" using False by (simp add: civil_days_def a_def)
    moreover have "day_count y m d = S + T + (d - 1)" by (simp only: day_count_def S_def T_def)
    ultimately show ?thesis using m(3) march_days_step [of y] leap by linarith
  qed
qed

lemma civil_days_before:
  assumes "y < 1970" "valid_date y m d"
  shows "civil_days y m d < 0"
proof -
  have m: "1 \<le> m" "m \<le> 12" "d \<le> days_in_month y m" using assms(2) by (simp_all add: valid_date_def)
  have "m \<in> {1, 2, 3, 4, 5, 6, 7, 8, 9, 10, 11, 12}" using m by (simp, presburger)
  then have doy: "(153 * (if m > 2 then m - 3 else m + 9) + 2) div 5 + d - 1 \<le> (if m \<le> 2 then 365 else 305)"
    using m(3) by (elim insertE emptyE) (auto simp: days_in_month_def split: if_splits)
  have "march_days (if m \<le> 2 then y - 1 else y) \<le> march_days (if m \<le> 2 then 1968 else 1969)"
    using assms(1) by (intro march_days_mono) auto
  also have "\<dots> = (if m \<le> 2 then 718797 else 719162)" by (simp add: march_days_def)
  finally show ?thesis using doy unfolding civil_days_def by (auto split: if_splits)
qed

text \<open>
  The conversion of a calendar date to seconds is the calendar: for every date it accepts exactly the dates that exist (and a leap
  second), gives zero before 1970, and otherwise the seconds of the days counted year by year and month by month
  with the Gregorian leap years.
\<close>

theorem epoch_counts_days:
  "epoch_from_ymd_hms y m d hh mm ss =
     (if valid_date y m d \<and> hh \<le> 23 \<and> mm \<le> 59 \<and> ss \<le> 60
      then Some (if y < 1970 then 0 else day_count y m d * 86400 + hh * 3600 + mm * 60 + ss) else None)"
  by (simp add: epoch_from_ymd_hms_eq civil_days_after civil_days_before)

end
