(* ===== verification/Url.thy ===== *)
theory Url
  imports Rust_Str
begin

text \<open>
  The URL parser (\<open>src/src/url.rs\<close>): \<open>Url::parse\<close> with its authority split, dot-segment removal,
  IPv6 literals and the forbidden-byte guard, redirect resolution (\<open>resolve\<close>) and the
  percent codecs. Strings are the bytes of their UTF-8 form; every separator is ASCII.
\<close>

section \<open>IP address literals of the standard library\<close>

definition to_digit :: "nat \<Rightarrow> char \<Rightarrow> nat option" where
  "to_digit radix c =
     (let n = of_char c :: nat;
          v = (if 48 \<le> n \<and> n \<le> 57 then n - 48 else if 97 \<le> n \<and> n \<le> 122 then n - 87
               else if 65 \<le> n \<and> n \<le> 90 then n - 55 else radix)
      in if v < radix then Some v else None)"

text \<open>\<open>Parser::read_number\<close>: the value, bounded by the integer type, and the rest of the input.\<close>

definition read_number :: "nat \<Rightarrow> nat \<Rightarrow> bool \<Rightarrow> nat \<Rightarrow> string \<Rightarrow> (nat \<times> string) option" where
  "read_number radix max_digits allow_zero_prefix type_max s =
     (let ds = takeWhile (\<lambda>c. to_digit radix c \<noteq> None) s;
          v = foldl (\<lambda>a c. a * radix + the (to_digit radix c)) 0 ds
      in if ds = [] \<or> length ds > max_digits \<or> (\<not> allow_zero_prefix \<and> hd ds = CHR ''0'' \<and> length ds > 1) \<or> v > type_max
         then None else Some (v, drop (length ds) s))"

definition read_separator :: "char \<Rightarrow> nat \<Rightarrow> (string \<Rightarrow> ('a \<times> string) option) \<Rightarrow> string \<Rightarrow> ('a \<times> string) option" where
  "read_separator sep i inner s =
     (if i = 0 then inner s
      else case s of c # r \<Rightarrow> if c = sep then inner r else None | [] \<Rightarrow> None)"

fun read_octets :: "nat \<Rightarrow> nat \<Rightarrow> string \<Rightarrow> (nat list \<times> string) option" where
  "read_octets 0 i s = Some ([], s)"
| "read_octets (Suc k) i s =
     (case read_separator CHR ''.'' i (read_number 10 3 False 255) s of
        None \<Rightarrow> None
      | Some (d, r) \<Rightarrow> map_option (\<lambda>(ds, r'). (d # ds, r')) (read_octets k (Suc i) r))"

definition read_ipv4_addr :: "string \<Rightarrow> (nat list \<times> string) option" where
  "read_ipv4_addr s = read_octets 4 0 s"

fun read_groups :: "nat \<Rightarrow> nat \<Rightarrow> string \<Rightarrow> nat list \<times> bool \<times> string" where
  "read_groups 0 i s = ([], False, s)"
| "read_groups (Suc left) i s =
     (case (if left > 0 then read_separator CHR '':'' i read_ipv4_addr s else None) of
        Some (ds, r) \<Rightarrow> ([ds ! 0 * 256 + ds ! 1, ds ! 2 * 256 + ds ! 3], True, r)
      | None \<Rightarrow>
          (case read_separator CHR '':'' i (read_number 16 4 True U16_MAX) s of
             Some (g, r) \<Rightarrow> (let (gs, v4, r') = read_groups left (Suc i) r in (g # gs, v4, r'))
           | None \<Rightarrow> ([], False, s)))"

definition parse_ipv6_addr :: "string \<Rightarrow> nat list option" where
  "parse_ipv6_addr s =
     (let (front, v4, r) = read_groups 8 0 s
      in if length front = 8 then (if r = [] then Some front else None)
         else if v4 then None
         else case strip_prefix ''::'' r of
             None \<Rightarrow> None
           | Some r1 \<Rightarrow>
               (let (back, _, r2) = read_groups (7 - length front) 0 r1
                in if r2 = [] then Some (front @ replicate (8 - length front - length back) 0 @ back) else None))"

datatype ip_addr = V4 "nat list" | V6 "nat list"

definition parse_ip_addr :: "string \<Rightarrow> ip_addr option" where
  "parse_ip_addr s =
     (case read_ipv4_addr s of
        Some (ds, r) \<Rightarrow> if r = [] then Some (V4 ds) else None
      | None \<Rightarrow> map_option V6 (parse_ipv6_addr s))"

section \<open>Parsing\<close>

record url =
  u_scheme :: string
  u_userinfo :: "string option"
  u_host :: string
  u_port :: nat
  u_path :: string

definition default_port :: "string \<Rightarrow> nat option" where
  "default_port scheme = map_of
     [(''http'', 80), (''ws'', 80), (''https'', 443), (''wss'', 443), (''ftp'', 21), (''ftps'', 990),
      (''dict'', 2628), (''gopher'', 70), (''gophers'', 70), (''imap'', 143), (''imaps'', 993),
      (''ldap'', 389), (''ldaps'', 636), (''mqtt'', 1883), (''mqtts'', 8883), (''pop3'', 110),
      (''pop3s'', 995), (''smtp'', 25), (''smtps'', 465), (''telnet'', 23), (''rtsp'', 554),
      (''tftp'', 69), (''sftp'', 22), (''scp'', 22)] scheme"

definition is_tls :: "url \<Rightarrow> bool" where
  "is_tls u \<longleftrightarrow> u_scheme u \<in> set [''https'', ''ftps'', ''imaps'', ''pop3s'', ''ldaps'', ''gophers'', ''mqtts'', ''wss'']"

definition parse_port :: "string \<Rightarrow> nat \<Rightarrow> nat option" where
  "parse_port p dflt =
     (if p = [] then Some dflt
      else if \<not> list_all is_ascii_digit p then None
      else parse_unsigned U16_MAX p)"

definition unbracket :: "string \<Rightarrow> string" where
  "unbracket host =
     (case strip_prefix ''['' host of
        Some h \<Rightarrow> if ends_with '']'' h then take (length h - 1) h else host
      | None \<Rightarrow> host)"

definition host_unbracketed :: "url \<Rightarrow> string" where
  "host_unbracketed u = unbracket (u_host u)"

definition zone_char :: "char \<Rightarrow> bool" where
  "zone_char c \<longleftrightarrow> is_ascii_alphanumeric c \<or> c \<in> set ''-._~''"

definition ipv6_literal :: "string \<Rightarrow> (nat list \<times> string option) option" where
  "ipv6_literal inner =
     (case position (\<lambda>c. c = CHR ''%'') inner of
        Some i \<Rightarrow>
          (let z0 = drop (i + 1) inner;
               z = (case strip_prefix ''25'' z0 of Some z1 \<Rightarrow> if z1 \<noteq> [] then z1 else z0 | None \<Rightarrow> z0)
           in if z = [] \<or> \<not> list_all zone_char z then None
              else map_option (\<lambda>a. (a, Some z)) (parse_ipv6_addr (take i inner)))
      | None \<Rightarrow> map_option (\<lambda>a. (a, None)) (parse_ipv6_addr inner))"

text \<open>A socket address: the IP, the port and the IPv6 scope id.\<close>

definition ip_literal_addr :: "string \<Rightarrow> nat \<Rightarrow> (ip_addr \<times> nat \<times> nat) option" where
  "ip_literal_addr host port =
     (let h = unbracket host
      in case parse_ip_addr h of
           Some ip \<Rightarrow> Some (ip, port, 0)
         | None \<Rightarrow>
             (case ipv6_literal h of
                None \<Rightarrow> None
              | Some (ip, zone) \<Rightarrow>
                  (case zone of
                     Some z \<Rightarrow> map_option (\<lambda>scope. (V6 ip, port, scope)) (parse_unsigned U32_MAX z)
                   | None \<Rightarrow> Some (V6 ip, port, 0))))"

definition forbidden_char :: "char \<Rightarrow> bool" where
  "forbidden_char c \<longleftrightarrow> (of_char c :: nat) < 0x20 \<or> (of_char c :: nat) = 0x7f \<or> c = CHR '' ''"

definition reject_forbidden :: "string \<Rightarrow> string \<Rightarrow> unit result" where
  "reject_forbidden field original = (if list_ex forbidden_char field then Err (InvalidUrl original) else Ok ())"

definition first_control_byte :: "string \<Rightarrow> byte option" where
  "first_control_byte s = List.find (\<lambda>b. b < 0x20 \<or> b = 0x7f) (as_bytes s)"

definition reject_ctl :: "string \<Rightarrow> string \<Rightarrow> string \<Rightarrow> unit result" where
  "reject_ctl proto what s =
     (case first_control_byte s of
        Some b \<Rightarrow> Err (BadResponse (proto @ '': '' @ what @ '' contains illegal control byte''))
      | None \<Rightarrow> Ok ())"

definition dot_seg :: "string \<Rightarrow> bool" where
  "dot_seg seg \<longleftrightarrow> seg = ''.'' \<or> seg = ''..''"

text \<open>The loop over the segments: \<open>out\<close> is a stack, \<open>last\<close> tells the final segment.\<close>

fun dot_loop :: "string list \<Rightarrow> string list \<Rightarrow> string list" where
  "dot_loop out [] = out"
| "dot_loop out (seg # segs) =
     (let out1 = (if seg = ''..'' then butlast out else if \<not> dot_seg seg then out @ [seg] else out);
          out2 = (if dot_seg seg \<and> segs = [] then out1 @ [[]] else out1)
      in dot_loop out2 segs)"

definition split_query :: "string \<Rightarrow> string \<times> string" where
  "split_query p = (case position (\<lambda>c. c = CHR ''?'') p of Some i \<Rightarrow> (take i p, drop i p) | None \<Rightarrow> (p, []))"

definition remove_dot_segments :: "string \<Rightarrow> string" where
  "remove_dot_segments path_and_query =
     (let (path, query) = split_query path_and_query
      in if \<not> list_ex dot_seg (split_on CHR ''/'' path) then path_and_query
         else ''/'' @ join_with CHR ''/'' (dot_loop [] (drop 1 (split_on CHR ''/'' path))) @ query)"

definition url_delim :: "char \<Rightarrow> bool" where
  "url_delim c \<longleftrightarrow> c = CHR ''/'' \<or> c = CHR ''?'' \<or> c = CHR ''#''"

definition strip_fragment :: "string \<Rightarrow> string" where
  "strip_fragment p = (case position (\<lambda>c. c = CHR ''#'') p of Some i \<Rightarrow> take i p | None \<Rightarrow> p)"

definition parse_file_url :: "string \<Rightarrow> string \<Rightarrow> string \<Rightarrow> url result" where
  "parse_file_url s scheme rest =
     (let path = (case strip_prefix ''localhost'' rest of
                    Some p \<Rightarrow> if starts_with ''/'' p then p else rest
                  | None \<Rightarrow> rest)
      in if \<not> starts_with ''/'' path then Err (InvalidUrl s)
         else Ok \<lparr>u_scheme = scheme, u_userinfo = None, u_host = [], u_port = 0, u_path = strip_fragment path\<rparr>)"

text \<open>Host, port, and whether the host is a bracketed literal.\<close>

definition split_hostport :: "string \<Rightarrow> string \<Rightarrow> nat \<Rightarrow> (string \<times> nat \<times> bool) result" where
  "split_hostport s hostport dflt =
     (case position (\<lambda>c. c = CHR '']'') hostport of
        Some close \<Rightarrow>
          if \<not> starts_with ''['' hostport then Err (InvalidUrl s)
          else
            (let rest = drop (close + 1) hostport
             in res_bind
                  (if rest = [] then Ok dflt
                   else case strip_prefix '':'' rest of
                       Some p \<Rightarrow> ok_or (InvalidUrl s) (parse_port p dflt)
                     | None \<Rightarrow> Err (InvalidUrl s))
                  (\<lambda>port.
                    if ipv6_literal (drop 1 (take close hostport)) = None then Err (InvalidUrl s)
                    else Ok (take (close + 1) hostport, port, True)))
      | None \<Rightarrow>
          if starts_with ''['' hostport then Err (InvalidUrl s)
          else (case rposition (\<lambda>c. c = CHR '':'') hostport of
                  Some i \<Rightarrow>
                    res_bind (ok_or (InvalidUrl s) (parse_port (drop (i + 1) hostport) dflt)) (\<lambda>p.
                      Ok (take i hostport, p, False))
                | None \<Rightarrow> Ok (hostport, dflt, False)))"

definition split_authority :: "string \<Rightarrow> string \<times> string" where
  "split_authority rest = (case position url_delim rest of Some i \<Rightarrow> (take i rest, drop i rest) | None \<Rightarrow> (rest, ''/''))"

definition split_user :: "string \<Rightarrow> string option \<times> string" where
  "split_user authority =
     (case rposition (\<lambda>c. c = CHR ''@'') authority of
        Some i \<Rightarrow> (Some (take i authority), drop (i + 1) authority)
      | None \<Rightarrow> (None, authority))"

definition request_path :: "string \<Rightarrow> string" where
  "request_path path =
     (let p = strip_fragment path
      in if starts_with ''/'' p then remove_dot_segments p else ''/'' @ p)"

definition check_userinfo :: "string option \<Rightarrow> string \<Rightarrow> unit result" where
  "check_userinfo userinfo s =
     (case userinfo of
        None \<Rightarrow> Ok ()
      | Some info \<Rightarrow> res_bind (reject_forbidden info s) (\<lambda>_.
          if CHR 0x5C \<in> set info then Err (InvalidUrl s) else Ok ()))"

text \<open>\<open>Url::parse\<close>.\<close>

definition url_parse :: "string \<Rightarrow> url result" where
  "url_parse s =
     res_bind (ok_or (InvalidUrl s) (split_once_str ''://'' s)) (\<lambda>(scheme0, rest).
     if scheme0 = [] then Err (InvalidUrl s)
     else
       (let scheme = to_ascii_lowercase scheme0;
            (authority, path0) = split_authority rest
        in if scheme = ''file'' then parse_file_url s scheme rest
           else if authority = [] then Err (InvalidUrl s)
           else
             (let path = request_path path0
              in res_bind (ok_or (UnsupportedScheme scheme) (default_port scheme)) (\<lambda>dflt.
                 (let (userinfo, hostport) = split_user authority
                  in res_bind (split_hostport s hostport dflt) (\<lambda>(host, port, bracketed).
                     if host = [] then Err (InvalidUrl s)
                     else if port = 0 then Err (InvalidUrl s)
                     else res_bind (reject_forbidden host s) (\<lambda>_.
                       if \<not> bracketed \<and> list_ex (\<lambda>c. c = CHR 0x5C \<or> c = CHR ''%'') host then Err (InvalidUrl s)
                       else res_bind (check_userinfo userinfo s) (\<lambda>_.
                         res_bind (reject_forbidden path s) (\<lambda>_.
                           Ok \<lparr>u_scheme = scheme, u_userinfo = userinfo, u_host = host, u_port = port,
                               u_path = path\<rparr>)))))))))"

section \<open>Resolving a redirect\<close>

definition hex_upper :: "nat \<Rightarrow> char" where
  "hex_upper n = (if n < 10 then char_of (48 + n) else char_of (55 + n))"

definition encode_loose_char :: "char \<Rightarrow> string" where
  "encode_loose_char c =
     (if c = CHR '' '' \<or> (of_char c :: nat) \<ge> 0x80
      then [CHR ''%'', hex_upper (of_char c div 16), hex_upper (of_char c mod 16)] else [c])"

definition encode_loose :: "string \<Rightarrow> string" where
  "encode_loose s = concat (map encode_loose_char s)"

definition split_delim :: "string \<Rightarrow> string \<times> string" where
  "split_delim s = (case position url_delim s of Some i \<Rightarrow> (take i s, drop i s) | None \<Rightarrow> (s, []))"

definition scheme_char :: "char \<Rightarrow> bool" where
  "scheme_char c \<longleftrightarrow> is_ascii_alphanumeric c \<or> c \<in> set ''+-.''"

definition base_authority :: "url \<Rightarrow> string" where
  "base_authority base =
     (if u_port base \<noteq> (case default_port (u_scheme base) of Some p \<Rightarrow> p | None \<Rightarrow> 0)
      then u_host base @ '':'' @ show_nat (u_port base) else u_host base)"

text \<open>The path of a reference that stays on the base's authority, fragment already removed.\<close>

definition merge_path :: "string \<Rightarrow> string \<Rightarrow> string" where
  "merge_path base_path loc =
     (let no_query = fst (split_query base_path)
      in if loc = [] then base_path
         else if starts_with ''?'' loc then no_query @ loc
         else if starts_with ''/'' loc then loc
         else (case rposition (\<lambda>c. c = CHR ''/'') no_query of
                 Some i \<Rightarrow> take (i + 1) no_query | None \<Rightarrow> ''/'') @ loc)"

definition absolute_ref :: "string \<Rightarrow> bool" where
  "absolute_ref loc \<longleftrightarrow> (case find_str ''://'' loc of
     Some i \<Rightarrow> i \<noteq> 0 \<and> list_all scheme_char (take i loc) | None \<Rightarrow> False)"

definition resolve :: "url \<Rightarrow> string \<Rightarrow> url result" where
  "resolve base location =
     (let loc = trim location
      in if loc = [] then Err (InvalidUrl ''empty Location'')
         else if absolute_ref loc then
           (let after = the (find_str ''://'' loc) + 3;
                (auth, rest) = split_delim (drop after loc)
            in url_parse (take after loc @ auth @ encode_loose rest))
         else case strip_prefix ''//'' loc of
             Some r \<Rightarrow>
               (let (auth, rest) = split_delim r
                in url_parse (u_scheme base @ ''://'' @ auth @ encode_loose rest))
           | None \<Rightarrow>
               url_parse (u_scheme base @ ''://'' @ base_authority base @
                 merge_path (u_path base) (encode_loose (strip_fragment loc))))"

section \<open>Percent decoding and small helpers\<close>

fun percent_decode_bytes :: "string \<Rightarrow> bytes" where
  "percent_decode_bytes (CHR ''%'' # h # l # s) =
     (case (to_digit 16 h, to_digit 16 l) of
        (Some x, Some y) \<Rightarrow> of_nat (x * 16 + y) # percent_decode_bytes s
      | _ \<Rightarrow> byte_of_char CHR ''%'' # percent_decode_bytes (h # l # s))"
| "percent_decode_bytes (c # s) = byte_of_char c # percent_decode_bytes s"
| "percent_decode_bytes [] = []"

definition authority :: "string \<Rightarrow> nat \<Rightarrow> string" where
  "authority host port =
     (if CHR '':'' \<in> set host \<and> \<not> starts_with ''['' host then ''['' @ host @ '']:'' @ show_nat port
      else host @ '':'' @ show_nat port)"

definition split_userinfo :: "string \<Rightarrow> string \<times> string" where
  "split_userinfo s = (case split_once CHR '':'' s of Some (u, p) \<Rightarrow> (u, p) | None \<Rightarrow> (s, []))"

end
