(* ===== verification/Cookie.thy ===== *)
theory Cookie
  imports Cookie_Date Url
begin

text \<open>
  HTTP cookies (\<open>src/src/cookie.rs\<close>): matching, parsing \<open>Set-Cookie\<close>, the jar and the Netscape file format. The clock is
  an argument. The public suffix list is the external crate \<open>psl2\<close>: the parameter \<open>psl\<close> stands for
  \<open>psl2::lookup\<close>, \<open>Some b\<close> telling whether the domain is itself a public suffix.
\<close>

section \<open>Cookies\<close>

datatype same_site = Unspecified | Lax | Strict | SameSiteNone

record cookie =
  c_name :: string
  c_value :: string
  c_domain :: string
  c_path :: string
  c_expires :: "nat option"
  c_secure :: bool
  c_http_only :: bool
  c_host_only :: bool
  c_same_site :: same_site
  c_partitioned :: bool
  c_partition_key :: "string option"

type_synonym cookie_key = "string \<times> string \<times> string"
type_synonym suffix_list = "string \<Rightarrow> bool option"

definition key :: "cookie \<Rightarrow> cookie_key" where
  "key c = (c_name c, c_domain c, c_path c)"

definition same_key :: "cookie_key \<Rightarrow> cookie_key \<Rightarrow> bool" where
  "same_key a b \<longleftrightarrow> (case (a, b) of ((n, d, p), (n', d', p')) \<Rightarrow> n = n' \<and> eq_ignore_ascii_case d d' \<and> p = p')"

section \<open>Matching\<close>

definition ends_with_ignore_ascii_case :: "string \<Rightarrow> string \<Rightarrow> bool" where
  "ends_with_ignore_ascii_case s suffix \<longleftrightarrow>
     length s \<ge> length suffix \<and> eq_ignore_ascii_case (drop (length s - length suffix) s) suffix"

definition starts_with_ignore_ascii_case :: "string \<Rightarrow> string \<Rightarrow> bool" where
  "starts_with_ignore_ascii_case s prefix \<longleftrightarrow> length s \<ge> length prefix \<and> eq_ignore_ascii_case (take (length prefix) s) prefix"

definition is_ip_literal :: "string \<Rightarrow> bool" where
  "is_ip_literal host \<longleftrightarrow>
     (if starts_with ''['' host \<or> CHR '':'' \<in> set host then True
      else let parts = split_on CHR ''.'' host in list_all (\<lambda>p. parse_unsigned 255 p \<noteq> None) parts \<and> length parts = 4)"

definition domain_match :: "string \<Rightarrow> string \<Rightarrow> bool \<Rightarrow> bool" where
  "domain_match request_host cookie_domain host_only \<longleftrightarrow>
     (if eq_ignore_ascii_case request_host cookie_domain then True
      else if host_only then False
      else if is_ip_literal request_host then False
      else length request_host > length cookie_domain \<and>
           request_host ! (length request_host - length cookie_domain - 1) = CHR ''.'' \<and>
           ends_with_ignore_ascii_case request_host cookie_domain)"

definition target_path :: "string \<Rightarrow> string" where
  "target_path path = (case position (\<lambda>c. c = CHR ''?'' \<or> c = CHR ''#'') path of Some i \<Rightarrow> take i path | None \<Rightarrow> path)"

definition trim_start_char :: "char \<Rightarrow> string \<Rightarrow> string" where
  "trim_start_char x s = dropWhile (\<lambda>c. c = x) s"

definition trim_end_char :: "char \<Rightarrow> string \<Rightarrow> string" where
  "trim_end_char x s = rev (dropWhile (\<lambda>c. c = x) (rev s))"

definition is_loopback_v4 :: "string \<Rightarrow> bool" where
  "is_loopback_v4 host \<longleftrightarrow> (case read_ipv4_addr host of Some (ds, r) \<Rightarrow> r = [] \<and> ds ! 0 = 127 | None \<Rightarrow> False)"

definition is_secure_context :: "url \<Rightarrow> bool" where
  "is_secure_context u \<longleftrightarrow>
     (if is_tls u then True
      else let host = trim_end_char CHR '']'' (trim_start_char CHR ''['' (u_host u))
           in eq_ignore_ascii_case host ''localhost'' \<or> ends_with_ignore_ascii_case host ''.localhost'' \<or> host = ''::1'' \<or>
              is_loopback_v4 host)"

definition path_match :: "string \<Rightarrow> string \<Rightarrow> bool" where
  "path_match rpath cookie_path \<longleftrightarrow>
     (if rpath = cookie_path then True
      else case strip_prefix cookie_path rpath of
             Some rest \<Rightarrow> if ends_with ''/'' cookie_path then True else starts_with ''/'' rest
           | None \<Rightarrow> False)"

definition matches_request :: "cookie \<Rightarrow> url \<Rightarrow> nat \<Rightarrow> bool" where
  "matches_request c u now \<longleftrightarrow>
     (if (case c_expires c of Some e \<Rightarrow> e \<le> now | None \<Rightarrow> False) then False
      else if c_secure c \<and> \<not> is_secure_context u then False
      else if \<not> domain_match (u_host u) (c_domain c) (c_host_only c) then False
      else path_match (target_path (u_path u)) (c_path c))"

definition is_scopable_cookie_domain :: "suffix_list \<Rightarrow> string \<Rightarrow> bool" where
  "is_scopable_cookie_domain psl domain \<longleftrightarrow>
     (let d = trim_end_char CHR ''.'' (trim_start_char CHR ''.'' domain)
      in if d = [] then False else psl (to_ascii_lowercase d) = Some False)"

section \<open>Parsing \<open>Set-Cookie\<close>\<close>

definition has_forbidden_cookie_char :: "string \<Rightarrow> bool" where
  "has_forbidden_cookie_char s \<longleftrightarrow> list_ex (\<lambda>c. (of_char c :: nat) < 0x20 \<or> (of_char c :: nat) = 0x7f) s"

definition has_jar_separator :: "string \<Rightarrow> bool" where
  "has_jar_separator s \<longleftrightarrow> list_ex (\<lambda>c. (of_char c :: nat) = 9 \<or> (of_char c :: nat) = 13 \<or> (of_char c :: nat) = 10) s"

definition default_path :: "string \<Rightarrow> string" where
  "default_path uri_path =
     (if \<not> starts_with ''/'' uri_path then ''/''
      else case rposition (\<lambda>c. c = CHR ''/'') uri_path of
             Some idx \<Rightarrow> if idx > 0 then take idx uri_path else ''/''
           | None \<Rightarrow> ''/'')"

text \<open>The variables of the loop over the attributes.\<close>

record attrs =
  a_domain :: "string option"
  a_host_only :: bool
  a_path :: string
  a_has_domain :: bool
  a_expires :: "nat option"
  a_max_age :: "int option"
  a_secure :: bool
  a_http_only :: bool
  a_same_site :: same_site
  a_partitioned :: bool

definition attr_domain :: "suffix_list \<Rightarrow> string \<Rightarrow> attrs \<Rightarrow> string \<Rightarrow> attrs option" where
  "attr_domain psl request_host a v0 =
     (let v = to_ascii_lowercase (case strip_prefix ''.'' v0 of Some r \<Rightarrow> r | None \<Rightarrow> v0)
      in if v = [] then Some a
         else let a1 = a\<lparr>a_has_domain := True\<rparr>
              in if is_ip_literal request_host then Some a1
                 else if \<not> is_scopable_cookie_domain psl v then
                   (if v = request_host then Some (a1\<lparr>a_domain := Some v, a_host_only := True\<rparr>) else None)
                 else if \<not> domain_match request_host v False then None
                 else Some (a1\<lparr>a_domain := Some v, a_host_only := False\<rparr>))"

definition attr_path :: "attrs \<Rightarrow> string \<Rightarrow> attrs option" where
  "attr_path a v =
     (if has_forbidden_cookie_char v then None
      else if starts_with ''/'' v then Some (a\<lparr>a_path := v\<rparr>) else Some a)"

definition parse_same_site :: "string option \<Rightarrow> same_site" where
  "parse_same_site v =
     (case map_option trim v of
        Some s \<Rightarrow> if eq_ignore_ascii_case s ''lax'' then Lax
                  else if eq_ignore_ascii_case s ''strict'' then Strict
                  else if eq_ignore_ascii_case s ''none'' then SameSiteNone else Unspecified
      | None \<Rightarrow> Unspecified)"

definition attr_step :: "suffix_list \<Rightarrow> string \<Rightarrow> attrs \<Rightarrow> string \<Rightarrow> attrs option" where
  "attr_step psl request_host a attr0 =
     (let attr = trim attr0
      in if attr = [] then Some a
         else let (k, v) = (case split_once CHR ''='' attr of Some (k, v) \<Rightarrow> (trim k, Some (trim v)) | None \<Rightarrow> (attr, None))
              in if eq_ignore_ascii_case k ''domain'' then
                   (case v of Some v \<Rightarrow> attr_domain psl request_host a v | None \<Rightarrow> Some a)
                 else if eq_ignore_ascii_case k ''path'' then
                   (case v of Some v \<Rightarrow> attr_path a v | None \<Rightarrow> Some a)
                 else if eq_ignore_ascii_case k ''expires'' then
                   (case v of Some v \<Rightarrow> Some (a\<lparr>a_expires := parse_http_date v\<rparr>) | None \<Rightarrow> Some a)
                 else if eq_ignore_ascii_case k ''max-age'' then
                   (case v of
                      Some v \<Rightarrow> (case parse_i64 v of Some n \<Rightarrow> Some (a\<lparr>a_max_age := Some n\<rparr>) | None \<Rightarrow> Some a)
                    | None \<Rightarrow> Some a)
                 else if eq_ignore_ascii_case k ''secure'' then Some (a\<lparr>a_secure := True\<rparr>)
                 else if eq_ignore_ascii_case k ''httponly'' then Some (a\<lparr>a_http_only := True\<rparr>)
                 else if eq_ignore_ascii_case k ''samesite'' then Some (a\<lparr>a_same_site := parse_same_site v\<rparr>)
                 else if eq_ignore_ascii_case k ''partitioned'' then Some (a\<lparr>a_partitioned := True\<rparr>)
                 else Some a)"

fun attr_loop :: "suffix_list \<Rightarrow> string \<Rightarrow> attrs \<Rightarrow> string list \<Rightarrow> attrs option" where
  "attr_loop psl host a [] = Some a"
| "attr_loop psl host a (p # ps) = Option.bind (attr_step psl host a p) (\<lambda>a1. attr_loop psl host a1 ps)"

definition attrs_default :: "url \<Rightarrow> attrs" where
  "attrs_default u =
     \<lparr>a_domain = None, a_host_only = True, a_path = default_path (target_path (u_path u)), a_has_domain = False,
      a_expires = None, a_max_age = None, a_secure = False, a_http_only = False, a_same_site = Unspecified, a_partitioned = False\<rparr>"

definition cookie_expiry :: "attrs \<Rightarrow> nat \<Rightarrow> nat option" where
  "cookie_expiry a now =
     (case a_max_age a of
        Some ma \<Rightarrow> if ma \<le> 0 then Some 0 else Some (saturating_add_u64 now (nat ma))
      | None \<Rightarrow> a_expires a)"

definition parse_set_cookie :: "suffix_list \<Rightarrow> string \<Rightarrow> url \<Rightarrow> nat \<Rightarrow> cookie option" where
  "parse_set_cookie psl line u now =
     (let parts = split_on CHR '';'' line; nv = trim (hd parts)
      in Option.bind (split_once CHR ''='' nv) (\<lambda>(name0, value0).
         let name = trim name0; value = trim value0; request_host = to_ascii_lowercase (u_host u)
         in if name = [] then None
            else if has_forbidden_cookie_char name \<or> has_forbidden_cookie_char value then None
            else Option.bind (attr_loop psl request_host (attrs_default u) (tl parts)) (\<lambda>a.
              if a_secure a \<and> \<not> is_secure_context u then None
              else if starts_with_ignore_ascii_case name ''__secure-'' \<and> \<not> a_secure a then None
              else if starts_with_ignore_ascii_case name ''__host-'' \<and> (\<not> a_secure a \<or> a_has_domain a \<or> a_path a \<noteq> ''/'') then None
              else Some \<lparr>c_name = name, c_value = value,
                         c_domain = (case a_domain a of Some d \<Rightarrow> d | None \<Rightarrow> request_host),
                         c_path = a_path a, c_expires = cookie_expiry a now, c_secure = a_secure a, c_http_only = a_http_only a,
                         c_host_only = a_host_only a, c_same_site = a_same_site a, c_partitioned = a_partitioned a,
                         c_partition_key = None\<rparr>)))"

section \<open>The jar\<close>

record cookie_jar =
  cookies :: "cookie list"
  explicits :: "cookie_key list"

definition jar_new :: cookie_jar where
  "jar_new = \<lparr>cookies = [], explicits = []\<rparr>"

definition remove_key :: "cookie_key \<Rightarrow> cookie_jar \<Rightarrow> cookie_jar" where
  "remove_key k jar =
     \<lparr>cookies = filter (\<lambda>x. \<not> same_key (key x) k) (cookies jar), explicits = filter (\<lambda>e. \<not> same_key e k) (explicits jar)\<rparr>"

definition remove_matching :: "cookie \<Rightarrow> cookie_jar \<Rightarrow> cookie_jar" where
  "remove_matching c jar = remove_key (key c) jar"

definition shadows_secure_cookie :: "cookie_jar \<Rightarrow> cookie \<Rightarrow> bool" where
  "shadows_secure_cookie jar new \<longleftrightarrow>
     list_ex (\<lambda>x. c_secure x \<and> c_name x = c_name new \<and>
       (domain_match (c_domain x) (c_domain new) False \<or> domain_match (c_domain new) (c_domain x) False) \<and>
       path_match (c_path new) (c_path x)) (cookies jar)"

definition jar_push :: "cookie \<Rightarrow> cookie_jar \<Rightarrow> cookie_jar" where
  "jar_push c jar = jar\<lparr>cookies := cookies jar @ [c]\<rparr>"

definition add_set_cookie :: "suffix_list \<Rightarrow> url \<Rightarrow> string \<Rightarrow> nat \<Rightarrow> cookie_jar \<Rightarrow> cookie_jar" where
  "add_set_cookie psl u line now jar =
     (case parse_set_cookie psl line u now of
        None \<Rightarrow> jar
      | Some parsed \<Rightarrow>
          if \<not> is_secure_context u \<and> shadows_secure_cookie jar parsed then jar
          else if (case c_expires parsed of Some e \<Rightarrow> e \<le> now | None \<Rightarrow> False) then remove_matching parsed jar
          else jar_push parsed (remove_matching parsed jar))"

definition ingest_response :: "suffix_list \<Rightarrow> url \<Rightarrow> (string \<times> string) list \<Rightarrow> nat \<Rightarrow> cookie_jar \<Rightarrow> cookie_jar" where
  "ingest_response psl u headers now jar =
     foldl (\<lambda>j (k, v). if eq_ignore_ascii_case k ''set-cookie'' then add_set_cookie psl u v now j else j) jar headers"

definition purge_expired :: "nat \<Rightarrow> cookie_jar \<Rightarrow> cookie_jar" where
  "purge_expired now jar = jar\<lparr>cookies := filter (\<lambda>c. case c_expires c of None \<Rightarrow> True | Some e \<Rightarrow> e > now) (cookies jar)\<rparr>"

definition add_explicit :: "string \<Rightarrow> string \<Rightarrow> url \<Rightarrow> cookie_jar \<Rightarrow> cookie_jar" where
  "add_explicit name value u jar =
     (let c = \<lparr>c_name = name, c_value = value, c_domain = to_ascii_lowercase (u_host u), c_path = ''/'', c_expires = None,
               c_secure = False, c_http_only = False, c_host_only = True, c_same_site = Unspecified, c_partitioned = False,
               c_partition_key = None\<rparr>;
          j = remove_matching c jar
      in jar_push c (j\<lparr>explicits := explicits j @ [key c]\<rparr>))"

definition is_explicit :: "cookie_jar \<Rightarrow> cookie \<Rightarrow> bool" where
  "is_explicit jar c \<longleftrightarrow> list_ex (\<lambda>e. same_key e (key c)) (explicits jar)"

definition jar_insert :: "cookie \<Rightarrow> cookie_jar \<Rightarrow> cookie_jar" where
  "jar_insert c jar = jar_push c (remove_matching c jar)"

definition jar_remove :: "string \<Rightarrow> string \<Rightarrow> string \<Rightarrow> cookie_jar \<Rightarrow> cookie_jar \<times> bool" where
  "jar_remove name domain path jar =
     (let j = remove_key (name, domain, path) jar in (j, length (cookies j) \<noteq> length (cookies jar)))"

definition jar_clear :: "cookie_jar \<Rightarrow> cookie_jar" where
  "jar_clear jar = \<lparr>cookies = [], explicits = []\<rparr>"

section \<open>The \<open>Cookie\<close> header\<close>

definition cookie_matches :: "cookie_jar \<Rightarrow> url \<Rightarrow> nat \<Rightarrow> cookie list" where
  "cookie_matches jar u now =
     filter (\<lambda>c. \<not> has_forbidden_cookie_char (c_name c) \<and> \<not> has_forbidden_cookie_char (c_value c))
       (filter (\<lambda>c. matches_request c u now) (cookies jar))"

text \<open>\<open>sort_by_key\<close> with a reversed key is stable, as is \<^const>\<open>sort_key\<close>.\<close>

definition send_order :: "cookie list \<Rightarrow> cookie list" where
  "send_order cs = sort_key (\<lambda>c. - int (length (c_path c))) cs"

fun header_text :: "cookie list \<Rightarrow> string" where
  "header_text [] = []"
| "header_text [c] = c_name c @ ''='' @ c_value c"
| "header_text (c # cs) = c_name c @ ''='' @ c_value c @ ''; '' @ header_text cs"

definition cookie_header :: "cookie_jar \<Rightarrow> url \<Rightarrow> nat \<Rightarrow> string option" where
  "cookie_header jar u now =
     (let ms = cookie_matches jar u now in if ms = [] then None else Some (header_text (send_order ms)))"

section \<open>The Netscape file\<close>

abbreviation (input) TAB :: char where "TAB \<equiv> CHR 0x09"

datatype line_outcome = CookieLine cookie | SkipLine | MalformedLine

definition netscape_fields :: "suffix_list \<Rightarrow> bool \<Rightarrow> string list \<Rightarrow> line_outcome" where
  "netscape_fields psl http_only fs =
     (if length fs \<noteq> 7 \<and> length fs \<noteq> 6 then MalformedLine
      else if fs ! 0 = [] then MalformedLine
      else case parse_i64 (fs ! 4) of
        None \<Rightarrow> MalformedLine
      | Some expires_raw \<Rightarrow>
          let expires = (if expires_raw \<le> 0 then None else Some (nat expires_raw));
              name = fs ! 5;
              value = (if length fs = 7 then fs ! 6 else []);
              domain = trim_start_char CHR ''.'' (fs ! 0);
              host_only = (\<not> eq_ignore_ascii_case (fs ! 1) ''TRUE'' \<or> is_ip_literal domain)
          in if name = [] then MalformedLine
             else if has_forbidden_cookie_char name \<or> has_forbidden_cookie_char value then SkipLine
             else if \<not> host_only \<and> \<not> is_scopable_cookie_domain psl domain then SkipLine
             else CookieLine \<lparr>c_name = name, c_value = value, c_domain = domain, c_path = fs ! 2, c_expires = expires,
                    c_secure = eq_ignore_ascii_case (fs ! 3) ''TRUE'', c_http_only = http_only, c_host_only = host_only,
                    c_same_site = Unspecified, c_partitioned = False, c_partition_key = None\<rparr>)"

definition parse_netscape_line :: "suffix_list \<Rightarrow> string \<Rightarrow> line_outcome" where
  "parse_netscape_line psl line =
     (case strip_prefix ''#HttpOnly_'' line of
        Some rest \<Rightarrow> netscape_fields psl True (split_on TAB rest)
      | None \<Rightarrow> if starts_with ''#'' line \<or> trim line = [] then SkipLine
                else netscape_fields psl False (split_on TAB line))"

text \<open>\<open>BufRead::lines\<close>: each line without its LF or CRLF; a line that is not UTF-8 is an error.\<close>

function buf_lines :: "bytes \<Rightarrow> bytes list" where
  "buf_lines bs =
     (if bs = [] then []
      else case position (\<lambda>b. b = 0x0A) bs of
             None \<Rightarrow> [bs]
           | Some n \<Rightarrow>
               (let l = take n bs in if l \<noteq> [] \<and> last l = 0x0D then butlast l else l) # buf_lines (drop (n + 1) bs))"
  by pat_completeness auto
termination
  by (relation "measure length") auto

declare buf_lines.simps [simp del]

fun load_lines :: "suffix_list \<Rightarrow> bytes list \<Rightarrow> cookie_jar \<Rightarrow> cookie_jar result" where
  "load_lines psl [] jar = Ok jar"
| "load_lines psl (l # ls) jar =
     (case from_utf8 l of
        None \<Rightarrow> Err (Io IoInvalidData)
      | Some line \<Rightarrow>
          load_lines psl ls (case parse_netscape_line psl line of CookieLine c \<Rightarrow> jar_push c jar | _ \<Rightarrow> jar))"

text \<open>The file is its contents, or the error of opening it.\<close>

definition load_netscape :: "suffix_list \<Rightarrow> io_kind + bytes \<Rightarrow> cookie_jar result" where
  "load_netscape psl file = (case file of Inl k \<Rightarrow> Err (Io k) | Inr bs \<Rightarrow> load_lines psl (buf_lines bs) jar_new)"

definition load_netscape_or_empty :: "suffix_list \<Rightarrow> io_kind + bytes \<Rightarrow> cookie_jar result" where
  "load_netscape_or_empty psl file =
     (case load_netscape psl file of
        Inr j \<Rightarrow> Ok j
      | Inl e \<Rightarrow> if e = Io IoNotFound then Ok jar_new else Err e)"

definition netscape_header :: string where
  "netscape_header = ''# Netscape HTTP Cookie File'' @ [CHR 0x0A] @ ''# https://curl.se/docs/http-cookies.html'' @ [CHR 0x0A] @
     ''# This file was generated by rsurl. Edit at your own risk.'' @ [CHR 0x0A, CHR 0x0A]"

definition netscape_line :: "cookie \<Rightarrow> string" where
  "netscape_line c =
     (if c_http_only c then ''#HttpOnly_'' else []) @ c_domain c @ [TAB] @ (if c_host_only c then ''FALSE'' else ''TRUE'') @ [TAB] @
     c_path c @ [TAB] @ (if c_secure c then ''TRUE'' else ''FALSE'') @ [TAB] @
     show_nat (case c_expires c of Some e \<Rightarrow> e | None \<Rightarrow> 0) @ [TAB] @ c_name c @ [TAB] @ c_value c @ [CHR 0x0A]"

definition skip_on_save :: "cookie_jar \<Rightarrow> cookie \<Rightarrow> bool" where
  "skip_on_save jar c \<longleftrightarrow> is_explicit jar c \<or> has_jar_separator (c_name c) \<or> has_jar_separator (c_value c) \<or>
     has_jar_separator (c_domain c) \<or> has_jar_separator (c_path c)"

text \<open>The bytes \<open>save_netscape\<close> hands to \<open>write_private\<close>.\<close>

definition save_netscape :: "cookie_jar \<Rightarrow> bytes" where
  "save_netscape jar = as_bytes (netscape_header @ concat (map netscape_line (filter (\<lambda>c. \<not> skip_on_save jar c) (cookies jar))))"

end
