(* ===== verification/Cookie_Jar.thy ===== *)
theory Cookie_Jar
  imports Cookie
begin

text \<open>
  The jar as a map from cookie keys, what insecure origins cannot touch, and which requests a cookie reaches.
\<close>

section \<open>Lists with one element per key\<close>

locale keyed_list =
  fixes key_of :: "'c \<Rightarrow> 'k" and same :: "'k \<Rightarrow> 'k \<Rightarrow> bool"
  assumes same_refl: "same k k"
    and same_sym: "same k l \<Longrightarrow> same l k"
    and same_trans: "same k l \<Longrightarrow> same l m \<Longrightarrow> same k m"
begin

lemma find_retain:
  "find (\<lambda>x. same (key_of x) l) (filter (\<lambda>x. \<not> same (key_of x) k) cs) =
     (if same k l then None else find (\<lambda>x. same (key_of x) l) cs)"
  by (induction cs) (auto dest: same_trans same_sym)

lemma find_replace:
  "find (\<lambda>x. same (key_of x) l) (filter (\<lambda>x. \<not> same (key_of x) (key_of c)) cs @ [c]) =
     (if same (key_of c) l then Some c else find (\<lambda>x. same (key_of x) l) cs)"
proof -
  have "find P (xs @ [c]) = (case find P xs of Some y \<Rightarrow> Some y | None \<Rightarrow> if P c then Some c else None)" for P xs
    by (induction xs) auto
  then show ?thesis by (simp add: find_retain split: option.split)
qed

abbreviation one_per_key :: "'c list \<Rightarrow> bool" where
  "one_per_key \<equiv> sorted_wrt (\<lambda>x y. \<not> same (key_of x) (key_of y))"

lemma one_per_key_filter: "one_per_key cs \<Longrightarrow> one_per_key (filter P cs)"
  by (simp add: sorted_wrt_filter)

lemma one_per_key_replace: "one_per_key cs \<Longrightarrow> one_per_key (filter (\<lambda>x. \<not> same (key_of x) (key_of c)) cs @ [c])"
  by (simp add: sorted_wrt_append sorted_wrt_filter)

end

lemma eq_ignore_ascii_case_iff: "eq_ignore_ascii_case a b \<longleftrightarrow> to_ascii_lowercase a = to_ascii_lowercase b"
  by (simp add: eq_ignore_ascii_case_def)

interpretation jar_list: keyed_list key same_key
  by unfold_locales (auto simp: same_key_def eq_ignore_ascii_case_iff)

definition jar_lookup :: "cookie_jar \<Rightarrow> cookie_key \<Rightarrow> cookie option" where
  "jar_lookup jar k = find (\<lambda>c. same_key (key c) k) (cookies jar)"

definition jar_inv :: "cookie_jar \<Rightarrow> bool" where
  "jar_inv jar \<longleftrightarrow> jar_list.one_per_key (cookies jar)"

definition is_expired :: "cookie \<Rightarrow> nat \<Rightarrow> bool" where
  "is_expired c now \<longleftrightarrow> (case c_expires c of Some e \<Rightarrow> e \<le> now | None \<Rightarrow> False)"

lemma cookies_simps [simp]:
  "cookies (remove_matching c jar) = filter (\<lambda>x. \<not> same_key (key x) (key c)) (cookies jar)"
  "cookies (remove_key k jar) = filter (\<lambda>x. \<not> same_key (key x) k) (cookies jar)"
  "cookies (jar_push c jar) = cookies jar @ [c]"
  by (simp_all add: remove_matching_def remove_key_def jar_push_def)

lemma add_set_cookie_cases:
  obtains (ignored) "add_set_cookie psl u line now jar = jar"
  | (deleted) c where "parse_set_cookie psl line u now = Some c" "is_secure_context u \<or> \<not> shadows_secure_cookie jar c" "is_expired c now"
      "add_set_cookie psl u line now jar = remove_matching c jar"
  | (stored) c where "parse_set_cookie psl line u now = Some c" "is_secure_context u \<or> \<not> shadows_secure_cookie jar c" "\<not> is_expired c now"
      "add_set_cookie psl u line now jar = jar_push c (remove_matching c jar)"
proof (cases "parse_set_cookie psl line u now")
  case None
  then show thesis using ignored by (simp add: add_set_cookie_def)
next
  case (Some c)
  consider "\<not> is_secure_context u \<and> shadows_secure_cookie jar c" | "is_secure_context u \<or> \<not> shadows_secure_cookie jar c" "is_expired c now"
    | "is_secure_context u \<or> \<not> shadows_secure_cookie jar c" "\<not> is_expired c now" by blast
  then show thesis
    by cases (use Some ignored deleted stored in \<open>auto simp: add_set_cookie_def is_expired_def\<close>)
qed

lemma add_set_cookie_inv: "jar_inv jar \<Longrightarrow> jar_inv (add_set_cookie psl u line now jar)"
  by (cases psl u line now jar rule: add_set_cookie_cases)
    (auto simp: jar_inv_def sorted_wrt_filter intro: jar_list.one_per_key_replace)

lemma ingest_response_inv: "jar_inv jar \<Longrightarrow> jar_inv (ingest_response psl u hs now jar)"
  unfolding ingest_response_def by (induction hs arbitrary: jar) (auto simp: add_set_cookie_inv)

text \<open>The jar after a sequence of responses, each with its URL, its \<open>Set-Cookie\<close> value and the time.\<close>

definition jar_after :: "suffix_list \<Rightarrow> (url \<times> string \<times> nat) list \<Rightarrow> cookie_jar" where
  "jar_after psl hs = foldl (\<lambda>j (u, line, now). add_set_cookie psl u line now j) jar_new hs"

lemma jar_after_simps [simp]:
  "jar_after psl [] = jar_new" "jar_after psl (hs @ [(u, line, now)]) = add_set_cookie psl u line now (jar_after psl hs)"
  by (simp_all add: jar_after_def)

lemma jar_after_inv: "jar_inv (jar_after psl hs)"
proof (induction hs rule: rev_induct)
  case (snoc h hs)
  then show ?case by (cases h) (simp add: add_set_cookie_inv)
qed (simp add: jar_inv_def jar_new_def)

lemma jar_lookup_push: "jar_lookup (jar_push c (remove_matching c jar)) k = (if same_key (key c) k then Some c else jar_lookup jar k)"
  by (simp add: jar_lookup_def jar_list.find_replace)

lemma jar_lookup_remove_key: "jar_lookup (remove_key l jar) k = (if same_key l k then None else jar_lookup jar k)"
  by (simp add: jar_lookup_def jar_list.find_retain)

lemma jar_remove_reports: "snd (jar_remove n d p jar) \<longleftrightarrow> jar_lookup jar (n, d, p) \<noteq> None"
proof -
  have "length (filter P xs) \<noteq> length xs \<longleftrightarrow> (\<exists>x\<in>set xs. \<not> P x)" for P and xs :: "cookie list"
    by (metis filter_True length_filter_less less_irrefl)
  then show ?thesis by (auto simp: jar_remove_def jar_lookup_def find_None_iff)
qed

text \<open>
  (C11) The jar implements a finite map from keys (name, domain without regard to case, path) to cookies: it starts empty, inserting and removing
  are map update and deletion, removal reports whether the key was there, a \<open>Set-Cookie\<close> header changes at most the
  entry of its own key (dropping it when it has expired, leaving everything when it is rejected), and no
  sequence of responses leaves two cookies with one key.
\<close>

theorem cookie_jar_refines_map:
  "jar_lookup jar_new = Map.empty \<and>
   jar_lookup (jar_insert c jar) k = (if same_key (key c) k then Some c else jar_lookup jar k) \<and>
   jar_lookup (fst (jar_remove n d p jar)) k = (if same_key (n, d, p) k then None else jar_lookup jar k) \<and>
   (snd (jar_remove n d p jar) \<longleftrightarrow> jar_lookup jar (n, d, p) \<noteq> None) \<and>
   jar_lookup (add_set_cookie psl u line now jar) k =
     (case parse_set_cookie psl line u now of
        None \<Rightarrow> jar_lookup jar k
      | Some nc \<Rightarrow>
          if same_key (key nc) k
          then (if \<not> is_secure_context u \<and> shadows_secure_cookie jar nc then jar_lookup jar k
                else if is_expired nc now then None else Some nc)
          else jar_lookup jar k) \<and>
   jar_list.one_per_key (cookies (jar_after psl hs))"
proof -
  have "jar_lookup jar_new = Map.empty" by (rule ext) (simp add: jar_lookup_def jar_new_def)
  moreover have "jar_lookup (add_set_cookie psl u line now jar) k =
     (case parse_set_cookie psl line u now of
        None \<Rightarrow> jar_lookup jar k
      | Some nc \<Rightarrow>
          if same_key (key nc) k
          then (if \<not> is_secure_context u \<and> shadows_secure_cookie jar nc then jar_lookup jar k
                else if is_expired nc now then None else Some nc)
          else jar_lookup jar k)"
    by (cases "parse_set_cookie psl line u now")
      (simp_all add: add_set_cookie_def is_expired_def [symmetric] jar_lookup_push remove_matching_def jar_lookup_remove_key
        jar_lookup_push [unfolded remove_matching_def])
  moreover have "jar_lookup (fst (jar_remove n d p jar)) k = (if same_key (n, d, p) k then None else jar_lookup jar k)"
    by (simp add: jar_remove_def Let_def jar_lookup_remove_key)
  moreover note jar_remove_reports [of n d p jar] jar_after_inv [of psl hs, unfolded jar_inv_def]
  ultimately show ?thesis by (simp only: jar_insert_def jar_lookup_push simp_thms)
qed

section \<open>Secure cookies\<close>

lemma shadows_same_key:
  assumes "x \<in> set (cookies jar)" "c_secure x" "same_key (key x) (key c)"
  shows "shadows_secure_cookie jar c"
proof -
  have "c_name x = c_name c" "eq_ignore_ascii_case (c_domain x) (c_domain c)" "c_path x = c_path c"
    using assms(3) by (simp_all add: same_key_def key_def)
  then have "domain_match (c_domain x) (c_domain c) False" "path_match (c_path c) (c_path x)" "c_name x = c_name c"
    by (simp_all add: domain_match_def path_match_def)
  with assms(1,2) show ?thesis unfolding shadows_secure_cookie_def list_ex_iff by blast
qed

text \<open>What an accepted cookie consists of.\<close>

lemma parse_set_cookieE:
  assumes "parse_set_cookie psl line u now = Some c"
  obtains a where "attr_loop psl (to_ascii_lowercase (u_host u)) (attrs_default u) (tl (split_on CHR '';'' line)) = Some a"
    "c_secure c = a_secure a" "c_path c = a_path a" "c_host_only c = a_host_only a" "c_expires c = cookie_expiry a now"
    "c_domain c = (case a_domain a of Some d \<Rightarrow> d | None \<Rightarrow> to_ascii_lowercase (u_host u))"
    "a_secure a \<Longrightarrow> is_secure_context u" "c_name c \<noteq> []"
    "\<not> has_forbidden_cookie_char (c_name c)" "\<not> has_forbidden_cookie_char (c_value c)"
proof -
  obtain name0 value0 where nv: "split_once CHR ''='' (trim (hd (split_on CHR '';'' line))) = Some (name0, value0)"
    using assms by (auto simp: parse_set_cookie_def Let_def bind_eq_Some_conv)
  obtain a where a: "attr_loop psl (to_ascii_lowercase (u_host u)) (attrs_default u) (tl (split_on CHR '';'' line)) = Some a"
    using assms by (auto simp: parse_set_cookie_def Let_def nv bind_eq_Some_conv split: if_splits)
  show thesis by (rule that [OF a]) (use assms in \<open>simp_all add: parse_set_cookie_def Let_def nv a split: if_splits\<close>, auto)
qed

lemma parse_set_cookie_secure: "parse_set_cookie psl line u now = Some c \<Longrightarrow> c_secure c \<Longrightarrow> is_secure_context u"
  by (elim parse_set_cookieE) simp

text \<open>
  (C10) A response that did not come over a secure channel leaves the Secure cookies alone: whatever it sets, the Secure cookies of the jar are
  the same afterwards, none is replaced, deleted or added. A network attacker on a plain connection cannot touch the
  session of the secure site.
\<close>

theorem cookie_secure_untouched:
  assumes "\<not> is_secure_context u"
  shows "filter c_secure (cookies (ingest_response psl u headers now jar)) = filter c_secure (cookies jar)"
proof -
  have step: "filter c_secure (cookies (add_set_cookie psl u line now j)) = filter c_secure (cookies j)" for line j
  proof (cases psl u line now j rule: add_set_cookie_cases)
    case (deleted c)
    then have "\<not> (x \<in> set (cookies j) \<and> c_secure x \<and> same_key (key x) (key c))" for x using assms shadows_same_key by blast
    with deleted show ?thesis by (auto intro!: filter_cong)
  next
    case (stored c)
    then have "\<not> (x \<in> set (cookies j) \<and> c_secure x \<and> same_key (key x) (key c))" for x using assms shadows_same_key by blast
    moreover have "\<not> c_secure c" using stored(1) assms parse_set_cookie_secure by blast
    ultimately show ?thesis using stored by (auto intro!: filter_cong)
  qed simp
  show ?thesis unfolding ingest_response_def
    by (induction headers arbitrary: jar) (auto simp: step)
qed

definition demo_psl :: suffix_list where
  "demo_psl d = Some (d = ''com'')"

definition demo_url :: "string \<Rightarrow> url" where
  "demo_url scheme = \<lparr>u_scheme = scheme, u_userinfo = None, u_host = ''a.ex.com'', u_port = 443, u_path = ''/d/f''\<rparr>"

theorem cookie_secure_untouched_witness:
  "cookies (ingest_response demo_psl (demo_url ''https'') [(''Set-Cookie'', ''s=1; Secure'')] 5 jar_new) \<noteq> [] \<and>
   filter c_secure (cookies (ingest_response demo_psl (demo_url ''http'') [(''Set-Cookie'', ''s=2; Max-Age=0'')] 6
     (ingest_response demo_psl (demo_url ''https'') [(''Set-Cookie'', ''s=1; Secure'')] 5 jar_new))) =
   filter c_secure (cookies (ingest_response demo_psl (demo_url ''https'') [(''Set-Cookie'', ''s=1; Secure'')] 5 jar_new))"
proof
  show "cookies (ingest_response demo_psl (demo_url ''https'') [(''Set-Cookie'', ''s=1; Secure'')] 5 jar_new) \<noteq> []" by code_simp
  have "\<not> is_secure_context (demo_url ''http'')" by code_simp
  then show "filter c_secure (cookies (ingest_response demo_psl (demo_url ''http'') [(''Set-Cookie'', ''s=2; Max-Age=0'')] 6
     (ingest_response demo_psl (demo_url ''https'') [(''Set-Cookie'', ''s=1; Secure'')] 5 jar_new))) =
   filter c_secure (cookies (ingest_response demo_psl (demo_url ''https'') [(''Set-Cookie'', ''s=1; Secure'')] 5 jar_new))"
    by (rule cookie_secure_untouched)
qed

end
