(* ===== verification/Cookie_Scope.thy ===== *)
theory Cookie_Scope
  imports Cookie_Jar "HOL-Library.Multiset"
begin

text \<open>
  Which requests a cookie reaches: the domain and path rules of RFC 6265, the scope of a cookie set by a server,
  and the header that is sent.
\<close>

section \<open>Domain and path rules\<close>

lemma to_ascii_lowercase_map: "to_ascii_lowercase s = map to_ascii_lowercase_char s"
  by (simp add: to_ascii_lowercase_def)

lemma lower_char_eq_iff:
  assumes "\<not> is_ascii_lowercase x" "\<not> is_ascii_uppercase x"
  shows "to_ascii_lowercase_char c = x \<longleftrightarrow> c = x"
proof (cases "is_ascii_uppercase c")
  case True
  then have "65 \<le> (of_char c :: nat) \<and> (of_char c :: nat) \<le> 90" by (simp add: is_ascii_uppercase_def)
  then have "is_ascii_lowercase (to_ascii_lowercase_char c)"
    using True by (simp add: to_ascii_lowercase_char_def is_ascii_lowercase_def)
  with True assms show ?thesis by auto
qed (simp add: to_ascii_lowercase_char_def)

lemma lower_dot: "to_ascii_lowercase_char c = CHR ''.'' \<longleftrightarrow> c = CHR ''.''"
  by (rule lower_char_eq_iff) (simp_all add: is_ascii_lowercase_def is_ascii_uppercase_def)

lemma suffix_match_iff:
  "length h > length d \<and> h ! (length h - length d - 1) = CHR ''.'' \<and> ends_with_ignore_ascii_case h d \<longleftrightarrow>
   (\<exists>p. to_ascii_lowercase h = p @ ''.'' @ to_ascii_lowercase d)"
proof
  assume a: "length h > length d \<and> h ! (length h - length d - 1) = CHR ''.'' \<and> ends_with_ignore_ascii_case h d"
  define m where "m = length h - length d - 1"
  have m: "m < length h" "Suc m = length h - length d" "h ! m = CHR ''.''" using a by (auto simp: m_def)
  have "to_ascii_lowercase (drop (Suc m) h) = to_ascii_lowercase d"
    using a m(2) by (simp add: ends_with_ignore_ascii_case_def eq_ignore_ascii_case_iff)
  moreover have "h = take m h @ CHR ''.'' # drop (Suc m) h" using m id_take_nth_drop by metis
  then have "to_ascii_lowercase h = to_ascii_lowercase (take m h) @ to_ascii_lowercase_char CHR ''.'' # to_ascii_lowercase (drop (Suc m) h)"
    unfolding to_ascii_lowercase_map by (metis map_append list.simps(9))
  ultimately have "to_ascii_lowercase h = to_ascii_lowercase (take m h) @ ''.'' @ to_ascii_lowercase d" using lower_dot by simp
  then show "\<exists>p. to_ascii_lowercase h = p @ ''.'' @ to_ascii_lowercase d" by blast
next
  assume "\<exists>p. to_ascii_lowercase h = p @ ''.'' @ to_ascii_lowercase d"
  then obtain p where p: "to_ascii_lowercase h = p @ CHR ''.'' # to_ascii_lowercase d" by auto
  then have l: "length h = Suc (length p + length d)" by (metis length_to_ascii_lowercase length_append length_Cons add_Suc_right)
  then have "to_ascii_lowercase_char (h ! length p) = CHR ''.''" using p by (metis to_ascii_lowercase_map nth_map nth_append_length less_add_Suc1)
  moreover have "to_ascii_lowercase (drop (Suc (length p)) h) = to_ascii_lowercase d"
    using p by (metis (no_types, lifting) to_ascii_lowercase_map drop_map append_Cons append_Nil append_assoc append_eq_conv_conj length_append_singleton)
  ultimately show "length h > length d \<and> h ! (length h - length d - 1) = CHR ''.'' \<and> ends_with_ignore_ascii_case h d"
    using l lower_dot by (simp add: ends_with_ignore_ascii_case_def eq_ignore_ascii_case_iff)
qed

lemma domain_match_iff:
  "domain_match h d host_only \<longleftrightarrow> to_ascii_lowercase h = to_ascii_lowercase d \<or>
     (\<not> host_only \<and> \<not> is_ip_literal h \<and> (\<exists>p. to_ascii_lowercase h = p @ ''.'' @ to_ascii_lowercase d))"
  using suffix_match_iff [of d h] by (auto simp: domain_match_def eq_ignore_ascii_case_iff)

lemma path_match_iff:
  "path_match r p \<longleftrightarrow> r = p \<or> (\<exists>rest. r = p @ rest \<and> (ends_with ''/'' p \<or> starts_with ''/'' rest))"
  by (auto simp: path_match_def strip_prefix_def starts_with_iff)

text \<open>The default path is the directory of the request, so the cookie goes back where it came from.\<close>

lemma default_path_matches:
  assumes "starts_with ''/'' r"
  shows "path_match r (default_path r)"
proof -
  obtain q where q: "r = CHR ''/'' # q" using assms by (auto simp: starts_with_iff)
  then obtain i where i: "rposition (\<lambda>c. c = CHR ''/'') r = Some i"
    using rposition_None_iff [of "\<lambda>c. c = CHR ''/''" r] by (cases "rposition (\<lambda>c. c = CHR ''/'') r") auto
  from rposition_SomeD [OF i] have i': "i < length r" "r ! i = CHR ''/''" by auto
  show ?thesis
  proof (cases "i > 0")
    case True
    have "r = take i r @ CHR ''/'' # drop (Suc i) r" using i' id_take_nth_drop by metis
    with True i assms show ?thesis unfolding path_match_iff
      by (auto simp: default_path_def intro!: exI [of _ "CHR ''/'' # drop (Suc i) r"] simp: starts_with_def)
  next
    case False
    with i q show ?thesis by (auto simp: path_match_iff default_path_def starts_with_def ends_with_def)
  qed
qed

section \<open>The attributes of an accepted cookie\<close>

text \<open>What the loop over the attributes keeps true of the domain: the host itself, or a domain the host belongs to and that is no public suffix.\<close>

definition attrs_scope :: "suffix_list \<Rightarrow> string \<Rightarrow> attrs \<Rightarrow> bool" where
  "attrs_scope psl host a \<longleftrightarrow>
     (case a_domain a of
        None \<Rightarrow> a_host_only a
      | Some d \<Rightarrow> if a_host_only a then d = host
                  else is_scopable_cookie_domain psl d \<and> domain_match host d False \<and> \<not> is_ip_literal host)"

lemma attrs_scope_update [simp]:
  "attrs_scope psl host (a\<lparr>a_expires := e\<rparr>) = attrs_scope psl host a" "attrs_scope psl host (a\<lparr>a_max_age := m\<rparr>) = attrs_scope psl host a"
  "attrs_scope psl host (a\<lparr>a_secure := b\<rparr>) = attrs_scope psl host a" "attrs_scope psl host (a\<lparr>a_http_only := b\<rparr>) = attrs_scope psl host a"
  "attrs_scope psl host (a\<lparr>a_same_site := s\<rparr>) = attrs_scope psl host a" "attrs_scope psl host (a\<lparr>a_partitioned := b\<rparr>) = attrs_scope psl host a"
  "attrs_scope psl host (a\<lparr>a_path := q\<rparr>) = attrs_scope psl host a" "attrs_scope psl host (a\<lparr>a_has_domain := b\<rparr>) = attrs_scope psl host a"
  "attrs_scope psl host (a\<lparr>a_domain := Some d, a_host_only := True\<rparr>) = (d = host)"
  "attrs_scope psl host (a\<lparr>a_domain := Some d, a_host_only := False\<rparr>) =
     (is_scopable_cookie_domain psl d \<and> domain_match host d False \<and> \<not> is_ip_literal host)"
  by (cases "a_domain a"; simp add: attrs_scope_def)+

lemma attr_domain_scope: "attr_domain psl host a v = Some a' \<Longrightarrow> attrs_scope psl host a \<Longrightarrow> attrs_scope psl host a'"
  by (auto simp: attr_domain_def Let_def split: if_splits)

lemma attr_path_scope: "attr_path a v = Some a' \<Longrightarrow> attrs_scope psl host a \<Longrightarrow> attrs_scope psl host a'"
  by (auto simp: attr_path_def split: if_splits)

lemma attr_step_scope:
  assumes "attr_step psl host a attr = Some a'" "attrs_scope psl host a"
  shows "attrs_scope psl host a'"
proof (cases "trim attr = []")
  case False
  obtain k v where kv: "(case split_once CHR ''='' (trim attr) of Some (k, v) \<Rightarrow> (trim k, Some (trim v)) | None \<Rightarrow> (trim attr, None)) = (k, v)"
    by fastforce
  from assms(1) show ?thesis
    unfolding attr_step_def Let_def kv using False assms(2)
    by (auto simp: attr_domain_scope attr_path_scope split: if_splits option.splits)
qed (use assms in \<open>simp add: attr_step_def\<close>)

lemma attr_loop_scope: "attr_loop psl host a ps = Some a' \<Longrightarrow> attrs_scope psl host a \<Longrightarrow> attrs_scope psl host a'"
  by (induction ps arbitrary: a) (auto simp: bind_eq_Some_conv dest: attr_step_scope)

text \<open>The host belongs to the domain.\<close>

definition in_domain :: "string \<Rightarrow> string \<Rightarrow> bool" where
  "in_domain h d \<longleftrightarrow> to_ascii_lowercase h = to_ascii_lowercase d \<or> (\<exists>p. to_ascii_lowercase h = p @ ''.'' @ to_ascii_lowercase d)"

lemma domain_match_in_domain: "domain_match h d b \<Longrightarrow> in_domain h d"
  by (auto simp: domain_match_iff in_domain_def)

lemma parse_set_cookie_scope:
  assumes "parse_set_cookie psl line u now = Some c"
  shows "if c_host_only c then c_domain c = to_ascii_lowercase (u_host u)
    else is_scopable_cookie_domain psl (c_domain c) \<and> domain_match (to_ascii_lowercase (u_host u)) (c_domain c) False \<and>
      \<not> is_ip_literal (to_ascii_lowercase (u_host u))"
  using assms
proof (rule parse_set_cookieE)
  fix a assume a: "attr_loop psl (to_ascii_lowercase (u_host u)) (attrs_default u) (tl (split_on CHR '';'' line)) = Some a"
    "c_host_only c = a_host_only a" "c_domain c = (case a_domain a of Some d \<Rightarrow> d | None \<Rightarrow> to_ascii_lowercase (u_host u))"
  have "attrs_scope psl (to_ascii_lowercase (u_host u)) a"
    by (rule attr_loop_scope [OF a(1)]) (simp add: attrs_scope_def attrs_default_def)
  with a(2,3) show ?thesis by (auto simp: attrs_scope_def split: option.splits)
qed

text \<open>Every cookie of the jar was set by one of the responses.\<close>

lemma jar_after_origin: "c \<in> set (cookies (jar_after psl hs)) \<Longrightarrow> \<exists>u line t. (u, line, t) \<in> set hs \<and> parse_set_cookie psl line u t = Some c"
proof (induction hs rule: rev_induct)
  case (snoc h hs)
  obtain u line t where h: "h = (u, line, t)" by (cases h)
  show ?case
  proof (cases psl u line t "jar_after psl hs" rule: add_set_cookie_cases)
    case ignored
    with snoc h show ?thesis by auto
  next
    case (deleted c')
    with snoc h show ?thesis by auto
  next
    case (stored c')
    with snoc.prems h have "c = c' \<or> c \<in> set (cookies (jar_after psl hs))" by auto
    with stored(1) snoc.IH h show ?thesis by auto
  qed
qed (simp add: jar_new_def)

text \<open>
  (C9) A cookie stays within the scope its server may claim. Whatever responses filled the jar, a cookie attached to a request was set by one
  of them, and either the request goes to the very same host, or both hosts belong to the cookie's domain and
  that domain is not a public suffix; a Secure cookie was set and is sent in secure contexts only, an expired cookie is
  not sent, and the cookie's path covers the request's.
\<close>

theorem cookie_scope:
  assumes "c \<in> set (cookie_matches (jar_after psl hs) v now)"
  shows "\<exists>u line t. (u, line, t) \<in> set hs \<and> parse_set_cookie psl line u t = Some c \<and>
    (to_ascii_lowercase (u_host v) = to_ascii_lowercase (u_host u) \<or>
     is_scopable_cookie_domain psl (c_domain c) \<and> in_domain (u_host u) (c_domain c) \<and> in_domain (u_host v) (c_domain c)) \<and>
    (c_secure c \<longrightarrow> is_secure_context u \<and> is_secure_context v) \<and> \<not> is_expired c now \<and>
    path_match (target_path (u_path v)) (c_path c)"
proof -
  have c: "c \<in> set (cookies (jar_after psl hs))" and m: "matches_request c v now" using assms by (simp_all add: cookie_matches_def)
  from jar_after_origin [OF c] obtain u line t where u: "(u, line, t) \<in> set hs" "parse_set_cookie psl line u t = Some c" by blast
  have r: "\<not> is_expired c now" "c_secure c \<Longrightarrow> is_secure_context v" "domain_match (u_host v) (c_domain c) (c_host_only c)"
    "path_match (target_path (u_path v)) (c_path c)"
    using m by (simp_all add: matches_request_def is_expired_def split: if_splits)
  have "to_ascii_lowercase (u_host v) = to_ascii_lowercase (u_host u) \<or>
     is_scopable_cookie_domain psl (c_domain c) \<and> in_domain (u_host u) (c_domain c) \<and> in_domain (u_host v) (c_domain c)"
  proof (cases "c_host_only c")
    case True
    with parse_set_cookie_scope [OF u(2)] r(3) show ?thesis by (simp add: domain_match_iff)
  next
    case False
    with parse_set_cookie_scope [OF u(2)] have "is_scopable_cookie_domain psl (c_domain c)" "in_domain (to_ascii_lowercase (u_host u)) (c_domain c)"
      by (auto dest: domain_match_in_domain)
    with domain_match_in_domain [OF r(3)] show ?thesis by (simp add: in_domain_def)
  qed
  with u r parse_set_cookie_secure [OF u(2)] show ?thesis by blast
qed

definition demo_cookie :: cookie where
  "demo_cookie = \<lparr>c_name = ''s'', c_value = ''1'', c_domain = ''ex.com'', c_path = ''/d'', c_expires = None, c_secure = False,
     c_http_only = False, c_host_only = False, c_same_site = Unspecified, c_partitioned = False, c_partition_key = None\<rparr>"

definition demo_target :: url where
  "demo_target = (demo_url ''http'')\<lparr>u_host := ''b.ex.com''\<rparr>"

lemma demo_cookie_sent:
  "demo_cookie \<in> set (cookie_matches (jar_after demo_psl [(demo_url ''http'', ''s=1; Domain=ex.com'', 5)]) demo_target 6)"
  by code_simp

theorem cookie_scope_witness:
  "\<exists>u line t. (u, line, t) \<in> set [(demo_url ''http'', ''s=1; Domain=ex.com'', 5)] \<and> parse_set_cookie demo_psl line u t = Some demo_cookie \<and>
    (to_ascii_lowercase (u_host demo_target) = to_ascii_lowercase (u_host u) \<or>
     is_scopable_cookie_domain demo_psl (c_domain demo_cookie) \<and> in_domain (u_host u) (c_domain demo_cookie) \<and>
     in_domain (u_host demo_target) (c_domain demo_cookie))"
  using cookie_scope [OF demo_cookie_sent] by blast

text \<open>A case-insensitive host.\<close>

lemma is_ip_literal_lower: "is_ip_literal (to_ascii_lowercase h) = is_ip_literal h"
proof -
  have sp: "split_on CHR ''.'' (to_ascii_lowercase h) = map to_ascii_lowercase (split_on CHR ''.'' h)"
  proof (induction h)
    case (Cons c h)
    then show ?case by (simp add: to_ascii_lowercase_map lower_dot split: list.split)
  qed simp
  have dig: "is_ascii_digit (to_ascii_lowercase_char c) = is_ascii_digit c" "is_ascii_digit c \<Longrightarrow> to_ascii_lowercase_char c = c" for c
  proof -
    have "\<not> is_ascii_digit c" "\<not> is_ascii_digit (to_ascii_lowercase_char c)" if "is_ascii_uppercase c"
      using that by (auto simp: is_ascii_uppercase_def is_ascii_digit_def to_ascii_lowercase_char_def)
    moreover have "to_ascii_lowercase_char c = c" if "\<not> is_ascii_uppercase c" using that by (simp add: to_ascii_lowercase_char_def)
    ultimately show "is_ascii_digit (to_ascii_lowercase_char c) = is_ascii_digit c" "is_ascii_digit c \<Longrightarrow> to_ascii_lowercase_char c = c"
      by metis+
  qed
  have low: "to_ascii_lowercase_char c = x \<longleftrightarrow> c = x" if "x \<in> {CHR ''+'', CHR '':'', CHR ''[''}" for c x
    using that by (intro lower_char_eq_iff) (auto simp: is_ascii_lowercase_def is_ascii_uppercase_def)
  have pu: "parse_unsigned 255 (to_ascii_lowercase p) = parse_unsigned 255 p" for p
  proof -
    have all: "list_all is_ascii_digit (to_ascii_lowercase q) = list_all is_ascii_digit q" for q
      by (induction q) (simp_all add: to_ascii_lowercase_map dig(1))
    have id: "list_all is_ascii_digit q \<Longrightarrow> to_ascii_lowercase q = q" for q
      by (induction q) (simp_all add: to_ascii_lowercase_map dig(2))
    define t where "t s = (case s of c # r \<Rightarrow> if c = CHR ''+'' \<and> r \<noteq> [] then r else s | [] \<Rightarrow> s)" for s :: string
    have t: "t (to_ascii_lowercase p) = to_ascii_lowercase (t p)"
      by (cases p) (simp_all add: t_def to_ascii_lowercase_map low)
    have pe: "parse_unsigned 255 s = (if t s = [] \<or> \<not> list_all is_ascii_digit (t s) then None
       else if decimal_value (t s) \<le> 255 then Some (decimal_value (t s)) else None)" for s
      by (simp add: parse_unsigned_def t_def)
    show ?thesis
      by (cases "list_all is_ascii_digit (t p)") (simp_all only: pe t all id if_False if_True not_True_eq_False not_False_eq_True simp_thms)
  qed
  have sw: "starts_with ''['' (to_ascii_lowercase h) = starts_with ''['' h" by (cases h) (simp_all add: starts_with_def to_ascii_lowercase_map low)
  have co: "CHR '':'' \<in> set (to_ascii_lowercase h) \<longleftrightarrow> CHR '':'' \<in> set h"
  proof -
    have "CHR '':'' \<in> set (to_ascii_lowercase h) \<longleftrightarrow> (\<exists>c\<in>set h. to_ascii_lowercase_char c = CHR '':'')"
      unfolding to_ascii_lowercase_map set_map image_iff by (metis (no_types))
    then show ?thesis by (simp add: low)
  qed
  show ?thesis by (simp add: is_ip_literal_def Let_def sw co sp pu list_all_iff)
qed

lemma domain_match_lower: "domain_match (to_ascii_lowercase h) d b = domain_match h d b"
  by (simp add: domain_match_iff is_ip_literal_lower)

text \<open>
  A cookie goes back where it came from: when the jar stores a cookie that a response set without a Path of its own and that has not
  expired, the next request to the same URL carries it.
\<close>

theorem cookie_returned:
  assumes "parse_set_cookie psl line u now = Some c" "\<not> is_expired c now" "is_secure_context u \<or> \<not> shadows_secure_cookie jar c"
    "c_path c = default_path (target_path (u_path u))" "starts_with ''/'' (target_path (u_path u))"
  shows "c \<in> set (cookie_matches (add_set_cookie psl u line now jar) u now)"
proof -
  have "domain_match (u_host u) (c_domain c) (c_host_only c)"
    using parse_set_cookie_scope [OF assms(1)] by (auto simp: domain_match_lower split: if_splits) (simp add: domain_match_iff)
  moreover have "path_match (target_path (u_path u)) (c_path c)" using default_path_matches [OF assms(5)] assms(4) by simp
  moreover have "c_secure c \<longrightarrow> is_secure_context u" using parse_set_cookie_secure [OF assms(1)] by blast
  ultimately have "matches_request c u now" using assms(2) by (simp add: matches_request_def is_expired_def)
  moreover have "\<not> has_forbidden_cookie_char (c_name c)" "\<not> has_forbidden_cookie_char (c_value c)"
    using assms(1) by (auto elim: parse_set_cookieE)
  moreover have "c \<in> set (cookies (add_set_cookie psl u line now jar))"
    using assms(1-3) by (auto simp: add_set_cookie_def is_expired_def)
  ultimately show ?thesis by (simp add: cookie_matches_def)
qed

theorem cookie_returned_witness:
  "demo_cookie \<in> set (cookie_matches (add_set_cookie demo_psl (demo_url ''http'') ''s=1; Domain=ex.com'' 5 jar_new) (demo_url ''http'') 5)"
proof (rule cookie_returned)
  show "parse_set_cookie demo_psl ''s=1; Domain=ex.com'' (demo_url ''http'') 5 = Some demo_cookie" by code_simp
  show "\<not> is_expired demo_cookie 5" by code_simp
  show "is_secure_context (demo_url ''http'') \<or> \<not> shadows_secure_cookie jar_new demo_cookie" by code_simp
  show "c_path demo_cookie = default_path (target_path (u_path (demo_url ''http'')))" by code_simp
  show "starts_with ''/'' (target_path (u_path (demo_url ''http'')))" by code_simp
qed

section \<open>The header\<close>

lemma header_text_clean:
  "\<forall>c\<in>set cs. \<not> has_forbidden_cookie_char (c_name c) \<and> \<not> has_forbidden_cookie_char (c_value c) \<Longrightarrow> \<not> has_forbidden_cookie_char (header_text cs)"
  by (induction cs rule: header_text.induct) (simp_all add: has_forbidden_cookie_char_def)

lemma send_order_sorted: "sorted_wrt (\<lambda>a b. length (c_path a) \<ge> length (c_path b)) (send_order cs)"
proof -
  have "sorted (map (\<lambda>c. - int (length (c_path c))) (send_order cs))" by (simp add: send_order_def)
  then show ?thesis by (simp add: sorted_map)
qed

lemma send_order_stable: "filter (\<lambda>c. length (c_path c) = k) (send_order cs) = filter (\<lambda>c. length (c_path c) = k) cs"
  using sort_key_stable [of "\<lambda>c. - int (length (c_path c))" "- int k" cs] by (simp add: send_order_def)

text \<open>
  The \<open>Cookie\<close> header contains no control character, whatever is in the jar, so it cannot end the header line; it lists exactly the matching
  cookies, those with longer paths first, and in the order of the jar among equal lengths.
\<close>

theorem cookie_header_clean:
  assumes "cookie_header jar u now = Some h"
  shows "\<not> has_forbidden_cookie_char h \<and>
    (\<exists>cs. h = header_text cs \<and> mset cs = mset (cookie_matches jar u now) \<and>
      sorted_wrt (\<lambda>a b. length (c_path a) \<ge> length (c_path b)) cs \<and>
      (\<forall>k. filter (\<lambda>c. length (c_path c) = k) cs = filter (\<lambda>c. length (c_path c) = k) (cookie_matches jar u now)))"
proof -
  have h: "h = header_text (send_order (cookie_matches jar u now))" using assms by (simp add: cookie_header_def Let_def split: if_splits)
  have "set (send_order cs) = set cs" for cs by (simp add: send_order_def)
  then have "\<not> has_forbidden_cookie_char h" unfolding h by (intro header_text_clean) (simp add: cookie_matches_def)
  moreover have "mset (send_order (cookie_matches jar u now)) = mset (cookie_matches jar u now)" by (simp add: send_order_def)
  ultimately show ?thesis using h send_order_sorted send_order_stable by blast
qed

theorem cookie_header_clean_witness: "\<not> has_forbidden_cookie_char ''s=1''"
proof -
  have "cookie_header (jar_after demo_psl [(demo_url ''http'', ''s=1; Domain=ex.com'', 5)]) demo_target 6 = Some ''s=1''" by code_simp
  from cookie_header_clean [OF this] show ?thesis by simp
qed

end
