(* ===== verification/Cookie_File.thy ===== *)
theory Cookie_File
  imports Cookie_Scope
begin

text \<open>
  The Netscape cookie file: what is saved is loaded again, up to the attributes the format has no column for.
\<close>

section \<open>Text\<close>

lemma is_str_ascii: "\<forall>c\<in>set s. (of_char c :: nat) < 128 \<Longrightarrow> is_str s"
  unfolding is_str_def by (rule utf8_valid_ascii) (auto simp: as_bytes_def byte_of_char_def word_less_nat_alt unat_of_nat)

lemma digit_code: "is_ascii_digit c \<Longrightarrow> 48 \<le> (of_char c :: nat) \<and> (of_char c :: nat) \<le> 57"
  by (simp add: is_ascii_digit_def)

lemma show_nat_code: "c \<in> set (show_nat n) \<Longrightarrow> 48 \<le> (of_char c :: nat) \<and> (of_char c :: nat) \<le> 57"
  using show_nat_digits [of n] by (auto simp: list_all_iff dest: digit_code)

lemma parse_i64_show_nat: "n < 2 ^ 63 \<Longrightarrow> parse_i64 (show_nat n) = Some (int n)"
proof -
  assume n: "n < 2 ^ 63"
  obtain c r where s: "show_nat n = c # r" by (cases "show_nat n") auto
  then have "is_ascii_digit c" using show_nat_digits [of n] by simp
  then have "c \<noteq> CHR ''-''" "c \<noteq> CHR ''+''" by (auto simp: is_ascii_digit_def)
  with n s show_nat_digits [of n] decimal_value_show_nat [of n] show ?thesis by (simp add: parse_i64_def Let_def)
qed

text \<open>Trimming keeps characters that are not white space.\<close>

lemma ws_char_E: "ws_char s \<Longrightarrow> CHR ''E'' \<notin> set s"
proof
  assume w: "ws_char s" and "CHR ''E'' \<in> set s"
  define bs where "bs = as_bytes s"
  then have e: "0x45 \<in> set bs" using \<open>CHR ''E'' \<in> set s\<close> by (force simp: as_bytes_def byte_of_char_def)
  from w consider b where "bs = [b]" "9 \<le> b \<and> b \<le> 13 \<or> b = 0x20" | "bs = [0xC2, 0x85]" | "bs = [0xC2, 0xA0]" | "bs = [0xE1, 0x9A, 0x80]"
    | "take 2 bs = [0xE2, 0x80]" "length bs = 3" "0x80 \<le> bs ! 2 \<and> bs ! 2 \<le> 0x8A \<or> bs ! 2 = 0xA8 \<or> bs ! 2 = 0xA9 \<or> bs ! 2 = 0xAF"
    | "bs = [0xE2, 0x81, 0x9F]" | "bs = [0xE3, 0x80, 0x80]"
    unfolding ws_char_def Let_def bs_def [symmetric] by blast
  then show False
  proof cases
    case (1 b)
    with e show ?thesis by auto
  next
    case 5
    then obtain c where "bs = [0xE2, 0x80, c]" by (cases bs; cases "tl bs"; cases "tl (tl bs)") (auto simp: numeral_2_eq_2)
    with 5 e show ?thesis by auto
  qed (use e in auto)
qed

lemma trim_start_E: "CHR ''E'' \<in> set s \<Longrightarrow> CHR ''E'' \<in> set (trim_start s)"
proof (induction s rule: trim_start.induct)
  case (1 s)
  show ?case
  proof (cases "s = [] \<or> ws_front s = 0")
    case False
    then have "ws_char (take (ws_front s) s)" by (auto simp: ws_front_def split: if_splits)
    then have "CHR ''E'' \<notin> set (take (ws_front s) s)" by (rule ws_char_E)
    with 1 have "CHR ''E'' \<in> set (drop (ws_front s) s)" by (metis Un_iff append_take_drop_id set_append)
    with 1 False show ?thesis by (simp add: trim_start.simps [of s])
  qed (use 1 in \<open>simp add: trim_start.simps [of s]\<close>)
qed

lemma trim_end_E: "CHR ''E'' \<in> set s \<Longrightarrow> CHR ''E'' \<in> set (trim_end s)"
proof (induction s rule: trim_end.induct)
  case (1 s)
  show ?case
  proof (cases "s = [] \<or> ws_back s = 0")
    case False
    then have "ws_char (drop (length s - ws_back s) s)" by (auto simp: ws_back_def split: if_splits)
    then have "CHR ''E'' \<notin> set (drop (length s - ws_back s) s)" by (rule ws_char_E)
    with 1 have "CHR ''E'' \<in> set (take (length s - ws_back s) s)" by (metis Un_iff append_take_drop_id set_append)
    with 1 False show ?thesis by (simp add: trim_end.simps [of s])
  qed (use 1 in \<open>simp add: trim_end.simps [of s]\<close>)
qed

lemma trim_E: "CHR ''E'' \<in> set s \<Longrightarrow> trim s \<noteq> []"
  using trim_end_E [OF trim_start_E, of s] by (auto simp: trim_def)

section \<open>Lines\<close>

text \<open>What a cookie must be for the file format to keep it, and what comes back.\<close>

definition clean_fields :: "suffix_list \<Rightarrow> cookie \<Rightarrow> bool" where
  "clean_fields psl c \<longleftrightarrow>
     c_name c \<noteq> [] \<and> \<not> has_forbidden_cookie_char (c_name c) \<and> \<not> has_forbidden_cookie_char (c_value c) \<and>
     \<not> has_jar_separator (c_domain c) \<and> \<not> has_jar_separator (c_path c) \<and>
     c_domain c \<noteq> [] \<and> hd (c_domain c) \<noteq> CHR ''.'' \<and> hd (c_domain c) \<noteq> CHR ''#'' \<and>
     (c_host_only c \<or> \<not> is_ip_literal (c_domain c) \<and> is_scopable_cookie_domain psl (c_domain c)) \<and>
     is_str (c_name c) \<and> is_str (c_value c) \<and> is_str (c_domain c) \<and> is_str (c_path c)"

definition storable :: "suffix_list \<Rightarrow> cookie \<Rightarrow> bool" where
  "storable psl c \<longleftrightarrow> clean_fields psl c \<and> (case c_expires c of None \<Rightarrow> True | Some e \<Rightarrow> 0 < e \<and> e < 2 ^ 63)"

definition persisted :: "cookie \<Rightarrow> cookie" where
  "persisted c = c\<lparr>c_same_site := Unspecified, c_partitioned := False, c_partition_key := None\<rparr>"

definition line_fields :: "cookie \<Rightarrow> string list" where
  "line_fields c = [c_domain c, if c_host_only c then ''FALSE'' else ''TRUE'', c_path c, if c_secure c then ''TRUE'' else ''FALSE'',
     show_nat (case c_expires c of Some e \<Rightarrow> e | None \<Rightarrow> 0), c_name c, c_value c]"

definition line_body :: "cookie \<Rightarrow> string" where
  "line_body c = (if c_http_only c then ''#HttpOnly_'' else []) @ join_with TAB (line_fields c)"

lemma netscape_line_body: "netscape_line c = line_body c @ [CHR 0x0A]"
  by (simp add: netscape_line_def line_body_def line_fields_def)

lemma clean_no_separator: "\<not> has_forbidden_cookie_char s \<Longrightarrow> \<not> has_jar_separator s"
  by (auto simp: has_jar_separator_def has_forbidden_cookie_char_def list_ex_iff)

lemma no_separator:
  "\<not> has_jar_separator s \<Longrightarrow> CHR 0x09 \<notin> set s \<and> CHR 0x0A \<notin> set s \<and> CHR 0x0D \<notin> set s"
  "\<not> has_forbidden_cookie_char s \<Longrightarrow> CHR 0x09 \<notin> set s \<and> CHR 0x0A \<notin> set s \<and> CHR 0x0D \<notin> set s"
  by (force simp: has_jar_separator_def list_ex_iff, force simp: has_forbidden_cookie_char_def list_ex_iff)

lemma show_nat_separator: "CHR 0x09 \<notin> set (show_nat n) \<and> CHR 0x0A \<notin> set (show_nat n) \<and> CHR 0x0D \<notin> set (show_nat n)"
  using show_nat_code [of "CHR 0x09" n] show_nat_code [of "CHR 0x0A" n] show_nat_code [of "CHR 0x0D" n] by auto

lemma line_fields_clean:
  assumes "clean_fields psl c" "f \<in> set (line_fields c)"
  shows "CHR 0x09 \<notin> set f \<and> CHR 0x0A \<notin> set f \<and> CHR 0x0D \<notin> set f"
proof -
  have "f \<in> {c_domain c, c_path c} \<or> f \<in> {c_name c, c_value c} \<or> f \<in> {''FALSE'', ''TRUE''} \<or> (\<exists>n. f = show_nat n)"
    using assms(2) by (simp add: line_fields_def) (elim disjE; simp; blast)
  then show ?thesis
  proof (elim disjE exE)
    assume "f \<in> {c_domain c, c_path c}"
    then show ?thesis using assms(1) no_separator(1) [of f] by (auto simp: clean_fields_def)
  next
    assume "f \<in> {c_name c, c_value c}"
    then show ?thesis using assms(1) no_separator(2) [of f] by (auto simp: clean_fields_def)
  next
    fix n assume "f = show_nat n"
    then show ?thesis using show_nat_separator by simp
  qed auto
qed

lemma line_split: "clean_fields psl c \<Longrightarrow> split_on TAB (join_with TAB (line_fields c)) = line_fields c"
  using line_fields_clean [of psl c] by (intro split_join) (auto simp: line_fields_def)

lemma netscape_fields_line:
  assumes "storable psl c"
  shows "netscape_fields psl (c_http_only c) (line_fields c) = CookieLine (persisted c)"
proof -
  have exp: "parse_i64 (show_nat (case c_expires c of Some e \<Rightarrow> e | None \<Rightarrow> 0)) = Some (int (case c_expires c of Some e \<Rightarrow> e | None \<Rightarrow> 0))"
    using assms by (intro parse_i64_show_nat) (auto simp: storable_def split: option.splits)
  have dom: "trim_start_char CHR ''.'' (c_domain c) = c_domain c"
    using assms by (cases "c_domain c") (auto simp: storable_def clean_fields_def trim_start_char_def)
  have flags: "eq_ignore_ascii_case ''TRUE'' ''TRUE''" "\<not> eq_ignore_ascii_case ''FALSE'' ''TRUE''"
    by code_simp+
  have e: "(if int (case c_expires c of Some e \<Rightarrow> e | None \<Rightarrow> 0) \<le> 0 then None else Some (nat (int (case c_expires c of Some e \<Rightarrow> e | None \<Rightarrow> 0)))) = c_expires c"
    using assms by (auto simp: storable_def split: option.splits)
  show ?thesis
    using assms flags unfolding netscape_fields_def line_fields_def storable_def clean_fields_def persisted_def
    by (simp add: exp dom e) (cases c; cases "c_host_only c"; auto split: option.splits)
qed

lemma is_str_join: "\<forall>p\<in>set ps. is_str p \<Longrightarrow> is_str (join_with TAB ps)"
proof (induction TAB ps rule: join_with.induct)
  case (3 p q ps)
  have "is_str (TAB # s) \<longleftrightarrow> is_str s" for s by (simp add: is_str_def as_bytes_def byte_of_char_def)
  with 3 show ?case by (simp add: is_str_append)
qed (simp_all add: is_str_def)

lemma line_body_str:
  assumes "clean_fields psl c"
  shows "is_str (line_body c)"
proof -
  have d: "is_str (show_nat n)" for n using show_nat_code by (intro is_str_ascii) fastforce
  have f: "is_str ''TRUE''" "is_str ''FALSE''" "is_str ''#HttpOnly_''" "is_str []" by (auto intro!: is_str_ascii)
  have "\<forall>p\<in>set (line_fields c). is_str p" using assms d f by (auto simp: line_fields_def clean_fields_def)
  with f show ?thesis unfolding line_body_def by (intro is_str_append is_str_join) auto
qed

lemma join_with_set: "set (join_with x ps) \<subseteq> insert x (\<Union> (set ` set ps))"
  by (induction x ps rule: join_with.induct) auto

lemma line_body_clean: "clean_fields psl c \<Longrightarrow> CHR 0x0A \<notin> set (line_body c) \<and> CHR 0x0D \<notin> set (line_body c)"
proof -
  assume c: "clean_fields psl c"
  have "CHR 0x0A \<notin> insert TAB (\<Union> (set ` set (line_fields c)))" "CHR 0x0D \<notin> insert TAB (\<Union> (set ` set (line_fields c)))"
    using line_fields_clean [OF c] by auto
  then show ?thesis using join_with_set [of TAB "line_fields c"] unfolding line_body_def by (auto simp: subset_iff)
qed

lemma parse_line_body:
  assumes "clean_fields psl c"
  shows "parse_netscape_line psl (line_body c) = netscape_fields psl (c_http_only c) (line_fields c)"
proof (cases "c_http_only c")
  case True
  then have "strip_prefix ''#HttpOnly_'' (line_body c) = Some (join_with TAB (line_fields c))"
    by (simp add: line_body_def strip_prefix_def starts_with_def)
  then show ?thesis using line_split [OF assms] True by (simp add: parse_netscape_line_def)
next
  case False
  obtain x d where d: "c_domain c = x # d" "x \<noteq> CHR ''#''" using assms by (cases "c_domain c") (auto simp: clean_fields_def)
  then obtain r where r: "line_body c = x # r" using False by (simp add: line_body_def line_fields_def)
  then have "strip_prefix ''#HttpOnly_'' (line_body c) = None" "\<not> starts_with ''#'' (line_body c)"
    using d(2) by (simp_all add: strip_prefix_def starts_with_def)
  moreover have "CHR ''E'' \<in> set (line_body c)" by (simp add: line_body_def line_fields_def)
  then have "trim (line_body c) \<noteq> []" by (rule trim_E)
  moreover have "split_on TAB (line_body c) = line_fields c" using False line_split [OF assms] by (simp add: line_body_def)
  ultimately show ?thesis using False by (simp add: parse_netscape_line_def)
qed

section \<open>Files\<close>

lemma buf_lines_cons:
  assumes "0x0A \<notin> set a" "0x0D \<notin> set a"
  shows "buf_lines (a @ 0x0A # r) = a # buf_lines r"
proof -
  have p: "position (\<lambda>b. b = 0x0A) (a @ 0x0A # r) = Some (length a)"
    using assms(1) by (intro position_append_hit) auto
  have "\<not> (a \<noteq> [] \<and> last a = 0x0D)" using assms(2) last_in_set by metis
  then show ?thesis by (auto simp: buf_lines.simps [of "a @ 0x0A # r"] p Let_def)
qed

lemma as_bytes_set: "byte_of_char c \<in> set (as_bytes l) \<longleftrightarrow> c \<in> set l"
  by (auto simp: as_bytes_def)

lemma buf_lines_line:
  assumes "CHR 0x0A \<notin> set l" "CHR 0x0D \<notin> set l"
  shows "buf_lines (as_bytes (l @ [CHR 0x0A]) @ r) = as_bytes l # buf_lines r"
proof -
  have "byte_of_char CHR 0x0A = 0x0A" "byte_of_char CHR 0x0D = 0x0D" by (simp_all add: byte_of_char_def)
  then have "0x0A \<notin> set (as_bytes l)" "0x0D \<notin> set (as_bytes l)" "as_bytes [CHR 0x0A] = [0x0A]"
    using assms as_bytes_set [of _ l] by (metis, metis, simp add: as_bytes_def)
  then show ?thesis using buf_lines_cons [of "as_bytes l" r] by simp
qed

lemma load_lines_append: "load_lines psl (xs @ ys) j = res_bind (load_lines psl xs j) (load_lines psl ys)"
  by (induction xs arbitrary: j) (auto split: option.splits)

lemma load_saved_lines:
  assumes "\<forall>c\<in>set cs. storable psl c"
  shows "load_lines psl (buf_lines (as_bytes (concat (map netscape_line cs)))) j = Ok (j\<lparr>cookies := cookies j @ map persisted cs\<rparr>)"
  using assms
proof (induction cs arbitrary: j)
  case Nil
  then show ?case by (simp add: buf_lines.simps)
next
  case (Cons c cs)
  then have c: "storable psl c" "clean_fields psl c" by (simp_all add: storable_def)
  have "buf_lines (as_bytes (concat (map netscape_line (c # cs)))) = as_bytes (line_body c) # buf_lines (as_bytes (concat (map netscape_line cs)))"
    using buf_lines_line [of "line_body c" "as_bytes (concat (map netscape_line cs))"] line_body_clean [OF c(2)]
    by (simp add: netscape_line_body)
  then show ?case using Cons parse_line_body [OF c(2)] netscape_fields_line [OF c(1)] line_body_str [OF c(2)] by (simp add: jar_push_def)
qed

lemma header_lines:
  "load_lines psl (buf_lines (as_bytes netscape_header @ r)) j = load_lines psl (buf_lines r) j"
proof -
  define l1 l2 l3 where "l1 = ''# Netscape HTTP Cookie File''" and "l2 = ''# https://curl.se/docs/http-cookies.html''"
    and "l3 = ''# This file was generated by rsurl. Edit at your own risk.''"
  have h: "netscape_header = (l1 @ [CHR 0x0A]) @ (l2 @ [CHR 0x0A]) @ (l3 @ [CHR 0x0A]) @ ([] @ [CHR 0x0A])"
    by (simp add: netscape_header_def l1_def l2_def l3_def)
  have "trim [] = []" by (simp add: trim_def trim_start.simps [of "[]"] trim_end.simps [of "[]"])
  then have skip: "parse_netscape_line psl l = SkipLine" if "l \<in> {l1, l2, l3, []}" for l
    using that by (auto simp: parse_netscape_line_def strip_prefix_def starts_with_def l1_def l2_def l3_def)
  have str: "is_str l" if "l \<in> {l1, l2, l3, []}" for l
    using that by (auto simp: l1_def l2_def l3_def intro!: is_str_ascii)
  have "buf_lines (as_bytes netscape_header @ r) = as_bytes l1 # as_bytes l2 # as_bytes l3 # as_bytes [] # buf_lines r"
    unfolding h as_bytes_simps append_assoc
    by (subst buf_lines_line [unfolded as_bytes_simps append_assoc], (simp add: l1_def l2_def l3_def; fail), (simp add: l1_def l2_def l3_def; fail))+ (use buf_lines_line [of "[]" r] in simp)
  then show ?thesis using skip [of l1] skip [of l2] skip [of l3] skip [of "[]"] str [of l1] str [of l2] str [of l3] str [of "[]"]
    by (simp only: load_lines.simps from_utf8_as_bytes option.case line_outcome.case insertI1 insertI2)
qed

text \<open>
  (C12) The cookie file round-trips: loading what was saved gives back exactly the cookies of the jar in order, without those given explicitly on
  the command line and without the attributes the format has no column for, provided each is storable in the format
  (in particular its expiry fits in 63 bits). This includes session cookies set by a server: the code saves them with
  expiry 0 and reads that back as no expiry, although the documentation of \<open>Cookie\<close> says that a cookie without an expiry
  is never persisted; only the cookies given on the command line are left out.
\<close>

theorem netscape_roundtrip:
  assumes "\<forall>c\<in>set (cookies jar). \<not> is_explicit jar c \<longrightarrow> storable psl c"
  shows "load_netscape psl (Inr (save_netscape jar)) =
    Ok \<lparr>cookies = map persisted (filter (\<lambda>c. \<not> is_explicit jar c) (cookies jar)), explicits = []\<rparr>"
proof -
  have "skip_on_save jar c = is_explicit jar c" if "c \<in> set (cookies jar)" for c
    using assms that by (auto simp: skip_on_save_def storable_def clean_fields_def clean_no_separator)
  then have f: "filter (\<lambda>c. \<not> skip_on_save jar c) (cookies jar) = filter (\<lambda>c. \<not> is_explicit jar c) (cookies jar)"
    by (intro filter_cong) auto
  have "\<forall>c\<in>set (filter (\<lambda>c. \<not> is_explicit jar c) (cookies jar)). storable psl c" using assms by simp
  from load_saved_lines [OF this] show ?thesis
    by (simp add: load_netscape_def save_netscape_def f header_lines jar_new_def)
qed

theorem netscape_roundtrip_witness:
  "load_netscape demo_psl (Inr (save_netscape \<lparr>cookies = [demo_cookie, demo_cookie\<lparr>c_name := ''b'', c_expires := Some 9\<rparr>], explicits = []\<rparr>)) =
    Ok \<lparr>cookies = map persisted [demo_cookie, demo_cookie\<lparr>c_name := ''b'', c_expires := Some 9\<rparr>], explicits = []\<rparr>"
proof -
  define jar where "jar = \<lparr>cookies = [demo_cookie, demo_cookie\<lparr>c_name := ''b'', c_expires := Some 9\<rparr>], explicits = []\<rparr>"
  have none: "\<not> is_explicit jar c" for c by (simp add: jar_def is_explicit_def)
  have "storable demo_psl demo_cookie" "clean_fields demo_psl (demo_cookie\<lparr>c_name := ''b'', c_expires := Some 9\<rparr>)" by code_simp+
  then have "storable demo_psl demo_cookie" "storable demo_psl (demo_cookie\<lparr>c_name := ''b'', c_expires := Some 9\<rparr>)"
    by (simp_all add: storable_def [of _ "demo_cookie\<lparr>c_name := ''b'', c_expires := Some 9\<rparr>"])
  then have "\<forall>c\<in>set (cookies jar). \<not> is_explicit jar c \<longrightarrow> storable demo_psl c" by (simp add: jar_def)
  note loaded = netscape_roundtrip [OF this]
  have "filter (\<lambda>c. \<not> is_explicit jar c) (cookies jar) = cookies jar" by (simp add: none)
  from loaded [unfolded this] show ?thesis unfolding jar_def cookie_jar.select_convs .
qed

text \<open>
  The bound on the expiry matters: a server may ask for the largest \<open>Max-Age\<close>, the sum with the clock does not fit in a signed
  64-bit integer, and the loader drops the line it cannot parse.
\<close>

theorem cookie_far_expiry_lost:
  assumes "clean_fields psl c" "a_max_age a = Some (2 ^ 63 - 1)" "c_expires c = cookie_expiry a now" "0 < now" "now < 2 ^ 63"
  shows "load_netscape psl (Inr (save_netscape \<lparr>cookies = [c], explicits = []\<rparr>)) = Ok jar_new"
proof -
  have e: "c_expires c = Some (now + (2 ^ 63 - 1))"
    using assms(2-5) by (simp add: cookie_expiry_def saturating_add_u64_def)
  obtain x r where x: "show_nat (now + (2 ^ 63 - 1)) = x # r" by (cases "show_nat (now + (2 ^ 63 - 1))") auto
  then have "is_ascii_digit x" using show_nat_digits [of "now + (2 ^ 63 - 1)"] by simp
  then have "x \<noteq> CHR ''-''" "x \<noteq> CHR ''+''" by (auto simp: is_ascii_digit_def)
  moreover have "decimal_value (x # r) = now + (2 ^ 63 - 1)" using decimal_value_show_nat [of "now + (2 ^ 63 - 1)"] by (simp only: x)
  ultimately have "parse_i64 (show_nat (now + (2 ^ 63 - 1))) = None"
    using assms(4) unfolding x parse_i64_def list.case Let_def by (simp only: if_False simp_thms) simp
  then have "netscape_fields psl (c_http_only c) (line_fields c) = MalformedLine"
    by (simp add: netscape_fields_def line_fields_def e)
  with parse_line_body [OF assms(1)] line_body_str [OF assms(1)]
  have "load_lines psl [as_bytes (line_body c)] jar_new = Ok jar_new" by simp
  moreover have "buf_lines (as_bytes (netscape_line c)) = [as_bytes (line_body c)]"
    using buf_lines_line [of "line_body c" "[]"] line_body_clean [OF assms(1)] by (simp add: netscape_line_body buf_lines.simps [of "[]"])
  moreover have "\<not> skip_on_save \<lparr>cookies = [c], explicits = []\<rparr> c"
    using assms(1) by (simp add: skip_on_save_def clean_fields_def is_explicit_def clean_no_separator)
  ultimately show ?thesis by (simp add: load_netscape_def save_netscape_def header_lines)
qed

end
