(* ===== verification/Ws_Frame.thy ===== *)
theory Ws_Frame
  imports Codec Rust_Str
begin

unbundle bit_operations_syntax

text \<open>
  The WebSocket frame codec (\<open>src/src/websocket.rs\<close>): the incremental parser of server frames, the builder of masked client
  frames, close payloads. The random mask is an argument.
\<close>

section \<open>Frames\<close>

record wframe =
  wf_fin :: bool
  wf_rsv1 :: bool
  wf_opcode :: byte
  wf_payload :: bytes

abbreviation (input) OPCODE_CONT :: byte where "OPCODE_CONT \<equiv> 0x0"
abbreviation (input) OPCODE_TEXT :: byte where "OPCODE_TEXT \<equiv> 0x1"
abbreviation (input) OPCODE_BINARY :: byte where "OPCODE_BINARY \<equiv> 0x2"
abbreviation (input) OPCODE_CLOSE :: byte where "OPCODE_CLOSE \<equiv> 0x8"
abbreviation (input) OPCODE_PING :: byte where "OPCODE_PING \<equiv> 0x9"
abbreviation (input) OPCODE_PONG :: byte where "OPCODE_PONG \<equiv> 0xA"
abbreviation (input) MAX_PAYLOAD_BYTES :: nat where "MAX_PAYLOAD_BYTES \<equiv> 67108864"
abbreviation (input) MAX_CONTROL_PAYLOAD :: nat where "MAX_CONTROL_PAYLOAD \<equiv> 125"

text \<open>The payload length and the offset behind it; \<open>None\<close> when more bytes are needed.\<close>

definition ws_length :: "nat \<Rightarrow> bytes \<Rightarrow> (nat \<times> nat) option result" where
  "ws_length len7 buf =
     (if len7 \<le> 125 then Ok (Some (len7, 2))
      else if len7 = 126 then
        (if length buf < 2 + 2 then Ok None
         else let v = be_val (take 2 (drop 2 buf))
              in if v < 126 then Err (BadResponse ''non-minimal 16-bit WS payload length'') else Ok (Some (v, 4)))
      else
        (if length buf < 2 + 8 then Ok None
         else let v = be_val (take 8 (drop 2 buf))
              in if drop_bit 63 v \<noteq> 0 then Err (BadResponse ''WS payload length has its most significant bit set'')
                 else if v \<le> U16_MAX then Err (BadResponse ''non-minimal 64-bit WS payload length'')
                 else Ok (Some (v, 10))))"

definition try_parse_frame :: "bytes \<Rightarrow> (wframe \<times> nat) option result" where
  "try_parse_frame buf =
     (if length buf < 2 then Ok None
      else let h0 = buf ! 0; h1 = buf ! 1; opcode = h0 AND 0x0F
        in if h0 AND 0x30 \<noteq> 0 then Err (BadResponse ''non-zero RSV2/RSV3 bits on incoming WS frame'')
           else if h1 AND 0x80 \<noteq> 0 then Err (BadResponse ''server-to-client frame is masked'')
           else case ws_length (unat (h1 AND 0x7F)) buf of
                  Inl e \<Rightarrow> Err e
                | Inr None \<Rightarrow> Ok None
                | Inr (Some (plen, pos)) \<Rightarrow>
                    if opcode \<ge> 0x8 \<and> plen > MAX_CONTROL_PAYLOAD then Err (BadResponse ''control frame payload too large'')
                    else if plen > MAX_PAYLOAD_BYTES then Err (BadResponse ''WS payload too large'')
                    else if length buf < pos + plen then Ok None
                    else Ok (Some (\<lparr>wf_fin = (h0 AND 0x80 \<noteq> 0), wf_rsv1 = (h0 AND 0x40 \<noteq> 0), wf_opcode = opcode,
                                    wf_payload = take plen (drop pos buf)\<rparr>, pos + plen)))"

definition validate_control_frame :: "wframe \<Rightarrow> unit result" where
  "validate_control_frame f =
     (if wf_rsv1 f then Err (BadResponse ''RSV1 set on a WS control frame'')
      else if \<not> wf_fin f then Err (BadResponse ''fragmented control frame (FIN=0 on a control opcode)'')
      else if length (wf_payload f) > MAX_CONTROL_PAYLOAD then Err (BadResponse ''control frame payload too large'')
      else Ok ())"

definition accumulate :: "bytes \<Rightarrow> bytes \<Rightarrow> bytes result" where
  "accumulate buf chunk =
     (if length buf + length chunk > MAX_PAYLOAD_BYTES then Err (BadResponse ''reassembled WS message too large'')
      else Ok (buf @ chunk))"

section \<open>Client frames\<close>

definition head_byte :: "bool \<Rightarrow> bool \<Rightarrow> byte \<Rightarrow> byte" where
  "head_byte fin rsv1 opcode = (if fin then 0x80 else 0) OR (if rsv1 then 0x40 else 0) OR (opcode AND 0x0F)"

text \<open>The length field, with the mask bit \<open>m\<close> in its first byte.\<close>

definition length_bytes :: "byte \<Rightarrow> nat \<Rightarrow> bytes" where
  "length_bytes m n =
     (if n < 126 then [m OR word_of_nat n]
      else if n \<le> U16_MAX then (m OR 126) # be_bytes 2 n
      else (m OR 127) # be_bytes 8 n)"

definition apply_mask :: "bytes \<Rightarrow> bytes \<Rightarrow> bytes" where
  "apply_mask mk payload = map (\<lambda>i. payload ! i XOR mk ! (i AND 3)) [0..<length payload]"

text \<open>\<open>rnd\<close> is the result of \<open>random_16\<close>.\<close>

definition build_client_frame_inner :: "bytes \<Rightarrow> bool \<Rightarrow> byte \<Rightarrow> bytes \<Rightarrow> bool \<Rightarrow> bytes" where
  "build_client_frame_inner rnd fin opcode payload rsv1 =
     (let mk = take 4 rnd
      in [head_byte fin rsv1 opcode] @ length_bytes 0x80 (length payload) @ mk @ apply_mask mk payload)"

definition is_valid_close_code :: "u16 \<Rightarrow> bool" where
  "is_valid_close_code code \<longleftrightarrow> (1000 \<le> code \<and> code \<le> 1003) \<or> (1007 \<le> code \<and> code \<le> 1014) \<or> (3000 \<le> code \<and> code \<le> 4999)"

record ws_close =
  wc_code :: u16
  wc_reason :: string

abbreviation (input) CLOSE_PROTOCOL_ERROR :: u16 where "CLOSE_PROTOCOL_ERROR \<equiv> 1002"
abbreviation (input) CLOSE_INVALID_DATA :: u16 where "CLOSE_INVALID_DATA \<equiv> 1007"

definition parse_close_payload :: "bytes \<Rightarrow> u16 + ws_close option" where
  "parse_close_payload payload =
     (if length payload = 0 then Inr None
      else if length payload = 1 then Inl CLOSE_PROTOCOL_ERROR
      else let code = u16_from_be_bytes [payload ! 0, payload ! 1]
           in if \<not> is_valid_close_code code then Inl CLOSE_PROTOCOL_ERROR
              else case from_utf8 (drop 2 payload) of
                     None \<Rightarrow> Inl CLOSE_INVALID_DATA
                   | Some reason \<Rightarrow> Inr (Some \<lparr>wc_code = code, wc_reason = reason\<rparr>))"

definition bad_close_error :: error where
  "bad_close_error = BadResponse ''websocket: malformed close frame from peer''"

definition close_echo_payload :: "ws_close option \<Rightarrow> bytes" where
  "close_echo_payload close = (case close of Some c \<Rightarrow> u16_to_be_bytes (wc_code c) | None \<Rightarrow> [])"

definition close_payload :: "u16 \<Rightarrow> string \<Rightarrow> bytes result" where
  "close_payload code reason =
     (if \<not> is_valid_close_code code then Err (BadResponse ''websocket: close code may not be sent'')
      else let payload = u16_to_be_bytes code @ as_bytes reason
           in if length payload > MAX_CONTROL_PAYLOAD then Err (BadResponse ''websocket: close reason too long'') else Ok payload)"

section \<open>The format\<close>

text \<open>The encoding of a server frame, and the frames it is defined for.\<close>

definition server_frame :: "wframe \<Rightarrow> bytes" where
  "server_frame f = head_byte (wf_fin f) (wf_rsv1 f) (wf_opcode f) # length_bytes 0 (length (wf_payload f)) @ wf_payload f"

definition wf_wframe :: "wframe \<Rightarrow> bool" where
  "wf_wframe f \<longleftrightarrow> wf_opcode f < 16 \<and> length (wf_payload f) \<le> MAX_PAYLOAD_BYTES \<and>
     (wf_opcode f \<ge> 8 \<longrightarrow> length (wf_payload f) \<le> MAX_CONTROL_PAYLOAD)"

lemma byte_cases: "list_all (\<lambda>n. P (word_of_nat n)) [0..<256] \<Longrightarrow> P (b :: byte)"
proof -
  assume a: "list_all (\<lambda>n. P (word_of_nat n)) [0..<256]"
  have "unat b < 256" using unsigned_less [of b, where ?'a = nat] by simp
  then have "unat b \<in> set [0..<256]" by simp
  with a have "P (word_of_nat (unat b))" unfolding list_all_iff by (rule bspec)
  then show ?thesis by simp
qed

lemma head_byte_split: "(h :: byte) AND 0x30 = 0 \<Longrightarrow> head_byte (h AND 0x80 \<noteq> 0) (h AND 0x40 \<noteq> 0) (h AND 0x0F) = h \<and> h AND 0x0F < 16"
proof -
  have "h AND 0x30 = 0 \<longrightarrow> head_byte (h AND 0x80 \<noteq> 0) (h AND 0x40 \<noteq> 0) (h AND 0x0F) = h \<and> h AND 0x0F < 16"
    by (rule byte_cases) code_simp
  then show "h AND 0x30 = 0 \<Longrightarrow> ?thesis" by blast
qed

lemma head_byte_bits:
  assumes "(op :: byte) < 16"
  shows "head_byte fin r op AND 0x30 = 0" "(head_byte fin r op AND 0x80 \<noteq> 0) = fin" "(head_byte fin r op AND 0x40 \<noteq> 0) = r"
    "head_byte fin r op AND 0x0F = op"
proof -
  have l: "list_all (\<lambda>n. list_all (\<lambda>(fin, r). let h = head_byte fin r (word_of_nat n) in h AND 0x30 = 0 \<and> (h AND 0x80 \<noteq> 0) = fin \<and>
      (h AND 0x40 \<noteq> 0) = r \<and> h AND 0x0F = word_of_nat n) [(True, True), (True, False), (False, True), (False, False)]) [0..<16]"
    by code_simp
  have "unat op \<in> set [0..<16]" using assms by (simp add: word_less_nat_alt)
  with l have "list_all (\<lambda>(fin, r). let h = head_byte fin r (word_of_nat (unat op)) in h AND 0x30 = 0 \<and> (h AND 0x80 \<noteq> 0) = fin \<and>
      (h AND 0x40 \<noteq> 0) = r \<and> h AND 0x0F = word_of_nat (unat op)) [(True, True), (True, False), (False, True), (False, False)]"
    unfolding list_all_iff [of _ "[0..<16]"] by (rule bspec)
  then show "head_byte fin r op AND 0x30 = 0" "(head_byte fin r op AND 0x80 \<noteq> 0) = fin" "(head_byte fin r op AND 0x40 \<noteq> 0) = r"
    "head_byte fin r op AND 0x0F = op" by (cases fin; cases r; simp add: Let_def)+
qed

lemma len7_split: "(h :: byte) AND 0x80 = 0 \<Longrightarrow> h = word_of_nat (unat (h AND 0x7F)) \<and> unat (h AND 0x7F) \<le> 127"
proof -
  have "h AND 0x80 = 0 \<longrightarrow> h = word_of_nat (unat (h AND 0x7F)) \<and> unat (h AND 0x7F) \<le> 127"
    by (rule byte_cases) code_simp
  then show "h AND 0x80 = 0 \<Longrightarrow> ?thesis" by blast
qed

lemma len7_bits:
  assumes "n \<le> 127"
  shows "(word_of_nat n :: byte) AND 0x80 = 0" "unat ((word_of_nat n :: byte) AND 0x7F) = n"
proof -
  have "list_all (\<lambda>n. (word_of_nat n :: byte) AND 0x80 = 0 \<and> unat ((word_of_nat n :: byte) AND 0x7F) = n) [0..<128]" by code_simp
  then show "(word_of_nat n :: byte) AND 0x80 = 0" "unat ((word_of_nat n :: byte) AND 0x7F) = n"
    using assms by (simp_all add: list_all_iff)
qed

text \<open>The first byte of the length field and the bytes behind it.\<close>

lemma length_bytes_0:
  "length_bytes 0 n = (if n < 126 then [word_of_nat n] else if n \<le> U16_MAX then word_of_nat 126 # be_bytes 2 n else word_of_nat 127 # be_bytes 8 n)"
  by (simp add: length_bytes_def)

lemma ws_length_encoded:
  assumes "n < 2 ^ 63"
  obtains l where "hd (length_bytes 0 n) = word_of_nat l" "l \<le> 127" "ws_length l (h # length_bytes 0 n @ r) = Ok (Some (n, 1 + length (length_bytes 0 n)))"
proof (cases "n < 126")
  case True
  then show ?thesis using that [of n] by (simp add: length_bytes_0 ws_length_def)
next
  case False
  show ?thesis
  proof (cases "n \<le> U16_MAX")
    case True
    then have "be_val (be_bytes 2 n) = n" by (simp add: be_val_be_bytes)
    with False True show ?thesis using that [of 126] by (simp add: length_bytes_0 ws_length_def Let_def)
  next
    case False
    have "be_val (be_bytes 8 n) = n" using assms by (simp add: be_val_be_bytes)
    moreover have "drop_bit 63 n = 0" using assms by (simp add: drop_bit_eq_div)
    ultimately show ?thesis using False \<open>\<not> n < 126\<close> that [of 127] by (simp add: length_bytes_0 ws_length_def Let_def)
  qed
qed

lemma length_bytes_not_Nil [simp]: "length_bytes m n \<noteq> []"
  by (simp add: length_bytes_def)

lemma try_parse_server_frame:
  assumes "wf_wframe f"
  shows "try_parse_frame (server_frame f @ r) = Ok (Some (f, length (server_frame f)))"
proof -
  let ?n = "length (wf_payload f)"
  have n: "?n \<le> MAX_PAYLOAD_BYTES" "wf_opcode f < 16" "wf_opcode f \<ge> 8 \<Longrightarrow> ?n \<le> MAX_CONTROL_PAYLOAD" using assms by (simp_all add: wf_wframe_def)
  define h where "h = head_byte (wf_fin f) (wf_rsv1 f) (wf_opcode f)"
  have "?n < 2 ^ 63" using n(1) by simp
  then obtain l where l: "hd (length_bytes 0 ?n) = word_of_nat l" "l \<le> 127"
    "ws_length l (h # length_bytes 0 ?n @ wf_payload f @ r) = Ok (Some (?n, 1 + length (length_bytes 0 ?n)))"
    by (rule ws_length_encoded)
  obtain lb where lb: "length_bytes 0 ?n = word_of_nat l # lb" using l(1) by (cases "length_bytes 0 ?n") auto
  have buf: "server_frame f @ r = h # word_of_nat l # lb @ wf_payload f @ r" by (simp add: server_frame_def h_def lb)
  note hb = head_byte_bits [OF n(2), of "wf_fin f" "wf_rsv1 f", folded h_def]
  show ?thesis
    unfolding buf try_parse_frame_def
    using hb len7_bits [OF l(2)] l(3) n
    by (auto simp: Let_def lb server_frame_def h_def [symmetric])
qed

lemma ws_length_OkD:
  assumes "ws_length l buf = Ok (Some (plen, pos))" "l \<le> 127" "buf = h # word_of_nat l # r" "plen \<le> MAX_PAYLOAD_BYTES"
  shows "\<exists>r'. buf = h # length_bytes 0 plen @ r' \<and> pos = 1 + length (length_bytes 0 plen)"
proof -
  consider "l \<le> 125" | "l = 126" | "l = 127" using assms(2) by linarith
  then show ?thesis
  proof cases
    case 1
    with assms show ?thesis by (auto simp: ws_length_def length_bytes_0)
  next
    case 2
    then have v: "2 \<le> length r" "plen = be_val (take 2 r)" "126 \<le> plen" "pos = 4"
      using assms by (auto simp: ws_length_def Let_def split: if_splits)
    have "plen \<le> U16_MAX" using v be_val_less [of "take 2 r"] by simp
    moreover have "be_bytes 2 plen = take 2 r" using v be_bytes_be_val [of "take 2 r"] by simp
    ultimately show ?thesis using 2 v assms(3) by (auto simp: length_bytes_0 intro!: exI [of _ "drop 2 r"])
  next
    case 3
    then have v: "8 \<le> length r" "plen = be_val (take 8 r)" "U16_MAX < plen" "pos = 10"
      using assms by (auto simp: ws_length_def Let_def split: if_splits)
    have "be_bytes 8 plen = take 8 r" using v be_bytes_be_val [of "take 8 r"] by simp
    then show ?thesis using 3 v assms(3) by (auto simp: length_bytes_0 intro!: exI [of _ "drop 8 r"])
  qed
qed

lemma try_parse_frame_OkD:
  assumes "try_parse_frame buf = Ok (Some (f, n))"
  shows "wf_wframe f \<and> n \<le> length buf \<and> take n buf = server_frame f"
proof -
  obtain h0 h1 r where buf: "buf = h0 # h1 # r" using assms by (cases buf; cases "tl buf") (auto simp: try_parse_frame_def)
  define l where "l = unat (h1 AND 0x7F)"
  have h: "h0 AND 0x30 = 0" "h1 AND 0x80 = 0" using assms by (auto simp: try_parse_frame_def buf Let_def split: if_splits)
  obtain plen pos where p: "ws_length l buf = Ok (Some (plen, pos))"
    using assms h by (auto simp: try_parse_frame_def buf Let_def l_def split: sum.splits option.splits)
  have f: "\<not> (h0 AND 0x0F \<ge> 8 \<and> plen > MAX_CONTROL_PAYLOAD)" "plen \<le> MAX_PAYLOAD_BYTES" "pos + plen \<le> length buf" "n = pos + plen"
    "f = \<lparr>wf_fin = (h0 AND 0x80 \<noteq> 0), wf_rsv1 = (h0 AND 0x40 \<noteq> 0), wf_opcode = h0 AND 0x0F, wf_payload = take plen (drop pos buf)\<rparr>"
    using assms h p by (auto simp: try_parse_frame_def Let_def buf l_def split: if_splits)
  have h1: "h1 = word_of_nat l" "l \<le> 127" using len7_split [OF h(2)] unfolding l_def by blast+
  obtain r' where r': "buf = h0 # length_bytes 0 plen @ r'" "pos = 1 + length (length_bytes 0 plen)"
    using ws_length_OkD [OF p h1(2) _ f(2)] buf h1(1) by blast
  have pl: "length (wf_payload f) = plen" using f(3,5) by simp
  have "take n buf = server_frame f"
    using head_byte_split [OF h(1)] f(3-5) r' pl by (simp add: server_frame_def)
  then show ?thesis using f head_byte_split [OF h(1)] pl by (auto simp: wf_wframe_def)
qed

text \<open>
  (C15) The frame parser accepts exactly the format: it returns a frame and a length if and only if the buffer starts with that many bytes that are
  the one encoding of that frame (unmasked, reserved bits clear, length in its shortest form, within the
  limits for data and for control frames).
\<close>

theorem try_parse_frame_exact:
  "try_parse_frame buf = Ok (Some (f, n)) \<longleftrightarrow> wf_wframe f \<and> n = length (server_frame f) \<and> take n buf = server_frame f"
proof
  assume a: "try_parse_frame buf = Ok (Some (f, n))"
  from try_parse_frame_OkD [OF a] show "wf_wframe f \<and> n = length (server_frame f) \<and> take n buf = server_frame f"
    by (metis length_take min.absorb2)
next
  assume a: "wf_wframe f \<and> n = length (server_frame f) \<and> take n buf = server_frame f"
  then have "buf = server_frame f @ drop n buf" by (metis append_take_drop_id)
  with a try_parse_server_frame [of f "drop n buf"] show "try_parse_frame buf = Ok (Some (f, n))" by simp
qed

section \<open>Masked frames\<close>

text \<open>What a server does with a client frame: check the mask bit, read the length, take off the mask.\<close>

definition server_parse :: "bytes \<Rightarrow> (wframe \<times> bytes) option" where
  "server_parse buf =
     (if length buf < 2 \<or> buf ! 1 AND 0x80 = 0 then None
      else case ws_length (unat (buf ! 1 AND 0x7F)) buf of
             Inr (Some (plen, pos)) \<Rightarrow>
               if length buf < pos + 4 + plen then None
               else Some (\<lparr>wf_fin = (buf ! 0 AND 0x80 \<noteq> 0), wf_rsv1 = (buf ! 0 AND 0x40 \<noteq> 0), wf_opcode = buf ! 0 AND 0x0F,
                      wf_payload = apply_mask (take 4 (drop pos buf)) (take plen (drop (pos + 4) buf))\<rparr>, drop (pos + 4 + plen) buf)
           | _ \<Rightarrow> None)"

lemma length_apply_mask [simp]: "length (apply_mask mk p) = length p"
  by (simp add: apply_mask_def)

lemma apply_mask_twice [simp]: "apply_mask mk (apply_mask mk p) = p"
  by (rule nth_equalityI) (simp_all add: apply_mask_def xor.assoc)

lemma len7_masked:
  assumes "n \<le> 127"
  shows "(0x80 OR word_of_nat n :: byte) AND 0x80 \<noteq> 0" "unat ((0x80 OR word_of_nat n :: byte) AND 0x7F) = n"
proof -
  have "list_all (\<lambda>n. (0x80 OR word_of_nat n :: byte) AND 0x80 \<noteq> 0 \<and> unat ((0x80 OR word_of_nat n :: byte) AND 0x7F) = n) [0..<128]" by code_simp
  then show "(0x80 OR word_of_nat n :: byte) AND 0x80 \<noteq> 0" "unat ((0x80 OR word_of_nat n :: byte) AND 0x7F) = n"
    using assms by (simp_all add: list_all_iff)
qed

lemma length_bytes_mask:
  obtains l where "l \<le> 127" "length_bytes 0x80 n = (0x80 OR word_of_nat l) # tl (length_bytes 0 n)" "length_bytes 0 n = word_of_nat l # tl (length_bytes 0 n)"
proof -
  consider "n < 126" | "126 \<le> n" "n \<le> U16_MAX" | "U16_MAX < n" by linarith
  then show ?thesis
  proof cases
    case 1
    with that [of n] show ?thesis by (simp add: length_bytes_def)
  next
    case 2
    with that [of 126] show ?thesis by (simp add: length_bytes_def)
  next
    case 3
    with that [of 127] show ?thesis by (simp add: length_bytes_def)
  qed
qed

text \<open>The length is read behind the first two bytes only.\<close>

lemma ws_length_head: "ws_length l (a # b # r) = ws_length l (a' # b' # r)"
  by (simp add: ws_length_def)

lemma server_parse_client_frame:
  assumes "opcode < 16" "length payload < 2 ^ 63" "4 \<le> length rnd"
  shows "server_parse (build_client_frame_inner rnd fin opcode payload rsv1 @ r) =
    Some (\<lparr>wf_fin = fin, wf_rsv1 = rsv1, wf_opcode = opcode, wf_payload = payload\<rparr>, r)"
proof -
  let ?n = "length payload" and ?mk = "take 4 rnd"
  obtain l where l: "l \<le> 127" "length_bytes 0x80 ?n = (0x80 OR word_of_nat l) # tl (length_bytes 0 ?n)"
    "length_bytes 0 ?n = word_of_nat l # tl (length_bytes 0 ?n)" by (rule length_bytes_mask)
  define h lb where "h = head_byte fin rsv1 opcode" and "lb = tl (length_bytes 0 ?n)"
  have buf: "build_client_frame_inner rnd fin opcode payload rsv1 @ r = h # (0x80 OR word_of_nat l) # lb @ ?mk @ apply_mask ?mk payload @ r"
    by (simp add: build_client_frame_inner_def Let_def l(2) h_def lb_def)
  obtain l' where l': "hd (length_bytes 0 ?n) = word_of_nat l'" "l' \<le> 127"
    "ws_length l' (h # length_bytes 0 ?n @ ?mk @ apply_mask ?mk payload @ r) = Ok (Some (?n, 1 + length (length_bytes 0 ?n)))"
    by (rule ws_length_encoded [OF assms(2)])
  have "l' = l" using l'(1,2) l(1,3) len7_bits(2) [OF l(1)] len7_bits(2) [OF l'(2)] by (metis list.sel(1))
  then have "ws_length l (h # (0x80 OR word_of_nat l) # lb @ ?mk @ apply_mask ?mk payload @ r) = Ok (Some (?n, 2 + length lb))"
    using l'(3) l(3) ws_length_head [of l h "0x80 OR word_of_nat l" _ h "word_of_nat l"] by (simp add: lb_def) (metis append_Cons length_Cons)
  moreover define B where "B = h # (0x80 OR word_of_nat l) # lb @ ?mk @ apply_mask ?mk payload @ r"
  have mk: "length ?mk = 4" using assms(3) by simp
  have "drop (2 + length lb) B = ?mk @ apply_mask ?mk payload @ r" by (simp add: B_def)
  moreover have "drop (2 + length lb + 4) B = drop 4 (drop (2 + length lb) B)" by (simp only: drop_drop add.commute)
  moreover have "drop (2 + length lb + 4 + ?n) B = drop (4 + ?n) (drop (2 + length lb) B)" by (simp add: add_ac)
  ultimately have "take 4 (drop (2 + length lb) B) = ?mk" "drop (2 + length lb + 4) B = apply_mask ?mk payload @ r"
    "drop (2 + length lb + 4 + ?n) B = r" "length B = 2 + length lb + 4 + ?n + length r" "B ! 0 = h" "B ! 1 = 0x80 OR word_of_nat l"
    "ws_length l B = Ok (Some (?n, 2 + length lb))"
    using mk by (simp_all add: B_def)
  then show ?thesis
    unfolding buf B_def [symmetric] server_parse_def
    using len7_masked [OF l(1)] head_byte_bits [OF assms(1), of fin rsv1, folded h_def] assms(3) by (simp add: Let_def)
qed

end
