(* ===== verification/Ws.thy ===== *)
theory Ws
  imports Ws_Frame
begin

text \<open>
  The WebSocket client over a byte stream (\<open>src/src/websocket.rs\<close>): \<open>WsReader\<close>, \<open>WsWriter\<close> and the transport they share, and the
  one-shot reader \<open>read_message\<close>. The incoming stream is the sequence of results of \<open>read\<close>; the random source is the
  sequence of results of \<open>random_16\<close>. Decompression (\<open>Pmd::inflate_message\<close>, which drives the external DEFLATE decoder) is
  the parameter \<open>infl\<close> on the decoder's state, and compression the parameter \<open>compress\<close>.
\<close>

section \<open>State\<close>

text \<open>One result of \<open>read\<close>; an empty chunk is the end of the stream, as is the end of the list.\<close>

datatype read_ev = Chunk bytes | ReadErr io_kind

record partial_message =
  pm_opcode :: byte
  pm_compressed :: bool
  pm_buf :: bytes

record 'd ws =
  w_in :: "read_ev list"
  w_rx :: bytes
  w_partial :: "partial_message option"
  w_pmd :: "'d option"
  w_auto_pong :: bool
  w_send_closed :: bool
  w_recv_closed :: bool
  w_compress :: bool
  w_out :: "bytes list"
  w_rng :: "bytes list"

type_synonym 'd inflater = "'d \<Rightarrow> bytes \<Rightarrow> 'd \<times> bytes result"

datatype ws_event = WsText string | WsBinary bytes | WsPing bytes | WsPong bytes | WsClosed "ws_close option"

datatype ws_message = MText string | MBinary bytes

datatype ws_opcode = OpContinuation | OpText | OpBinary | OpClose | OpPing | OpPong

fun to_u8 :: "ws_opcode \<Rightarrow> byte" where
  "to_u8 OpContinuation = OPCODE_CONT"
| "to_u8 OpText = OPCODE_TEXT"
| "to_u8 OpBinary = OPCODE_BINARY"
| "to_u8 OpClose = OPCODE_CLOSE"
| "to_u8 OpPing = OPCODE_PING"
| "to_u8 OpPong = OPCODE_PONG"

definition from_u8 :: "byte \<Rightarrow> ws_opcode result" where
  "from_u8 op =
     (if op = OPCODE_CONT then Ok OpContinuation else if op = OPCODE_TEXT then Ok OpText
      else if op = OPCODE_BINARY then Ok OpBinary else if op = OPCODE_CLOSE then Ok OpClose
      else if op = OPCODE_PING then Ok OpPing else if op = OPCODE_PONG then Ok OpPong
      else Err (BadResponse ''unknown WS opcode''))"

definition is_control :: "ws_opcode \<Rightarrow> bool" where
  "is_control op \<longleftrightarrow> op = OpClose \<or> op = OpPing \<or> op = OpPong"

section \<open>The transport\<close>

definition ws_write :: "'d ws \<Rightarrow> bytes \<Rightarrow> 'd ws" where
  "ws_write w frame = w\<lparr>w_out := w_out w @ [frame]\<rparr>"

definition write_unless_closed :: "'d ws \<Rightarrow> bytes \<Rightarrow> 'd ws \<times> unit result" where
  "write_unless_closed w frame =
     (if w_send_closed w then (w, Err (BadResponse ''websocket: the connection is closed'')) else (ws_write w frame, Ok ()))"

definition write_close :: "'d ws \<Rightarrow> bytes \<Rightarrow> 'd ws \<times> bool" where
  "write_close w frame = (if w_send_closed w then (w, False) else (ws_write (w\<lparr>w_send_closed := True\<rparr>) frame, True))"

text \<open>A client frame with a fresh mask.\<close>

definition build_frame :: "'d ws \<Rightarrow> bool \<Rightarrow> byte \<Rightarrow> bytes \<Rightarrow> bool \<Rightarrow> 'd ws \<times> bytes result" where
  "build_frame w fin opcode payload rsv1 =
     (case w_rng w of
        [] \<Rightarrow> (w, Err (BadResponse ''websocket: no secure entropy source available''))
      | r # rs \<Rightarrow> (w\<lparr>w_rng := rs\<rparr>, Ok (build_client_frame_inner r fin opcode payload rsv1)))"

definition build_client_frame :: "'d ws \<Rightarrow> byte \<Rightarrow> bytes \<Rightarrow> 'd ws \<times> bytes result" where
  "build_client_frame w opcode payload = build_frame w True opcode payload False"

section \<open>Reading\<close>

fun read_wframe :: "bytes \<Rightarrow> read_ev list \<Rightarrow> wframe result \<times> bytes \<times> read_ev list" where
  "read_wframe rx s =
     (case try_parse_frame rx of
        Inl e \<Rightarrow> (Err e, rx, s)
      | Inr (Some (f, n)) \<Rightarrow> (Ok f, drop n rx, s)
      | Inr None \<Rightarrow>
          (case s of
             [] \<Rightarrow> (Err UnexpectedEof, rx, [])
           | ReadErr k # s' \<Rightarrow> (Err (Io k), rx, s')
           | Chunk c # s' \<Rightarrow> if c = [] then (Err UnexpectedEof, rx, s') else read_wframe (rx @ c) s'))"

declare read_wframe.simps [simp del]

definition next_wframe :: "'d ws \<Rightarrow> 'd ws \<times> wframe result" where
  "next_wframe w =
     (let (r, rx, s) = read_wframe (w_rx w) (w_in w); w1 = w\<lparr>w_rx := rx, w_in := s\<rparr>
      in case r of
           Inl e \<Rightarrow> (if e = UnexpectedEof then w1\<lparr>w_recv_closed := True\<rparr> else w1, Err e)
         | Inr f \<Rightarrow> (w1, Ok f))"

definition ws_fail :: "'d ws \<Rightarrow> u16 \<Rightarrow> 'd ws" where
  "ws_fail w status =
     (case close_payload status [] of
        Inl e \<Rightarrow> w
      | Inr p \<Rightarrow> (case build_client_frame w OPCODE_CLOSE p of
                    (w1, Inl e) \<Rightarrow> w1
                  | (w1, Inr frame) \<Rightarrow> fst (write_close w1 frame)))"

definition handle_close :: "'d ws \<Rightarrow> bytes \<Rightarrow> 'd ws \<times> ws_event result" where
  "handle_close w payload =
     (let w1 = w\<lparr>w_recv_closed := True\<rparr>
      in case parse_close_payload payload of
           Inr close \<Rightarrow>
             ((case build_client_frame w1 OPCODE_CLOSE (close_echo_payload close) of
                 (w2, Inl e) \<Rightarrow> w2
               | (w2, Inr frame) \<Rightarrow> fst (write_close w2 frame)), Ok (WsClosed close))
         | Inl status \<Rightarrow> (ws_fail w1 status, Err bad_close_error))"

definition inflate_payload :: "'d inflater \<Rightarrow> 'd ws \<Rightarrow> bytes \<Rightarrow> bool \<Rightarrow> 'd ws \<times> bytes result" where
  "inflate_payload infl w payload compressed =
     (if compressed then
        (case w_pmd w of
           None \<Rightarrow> (w, Err (BadResponse ''compressed WS message without negotiated permessage-deflate''))
         | Some d \<Rightarrow> let (d', r) = infl d payload in (w\<lparr>w_pmd := Some d'\<rparr>, r))
      else (w, Ok payload))"

definition finish_event :: "'d inflater \<Rightarrow> 'd ws \<Rightarrow> byte \<Rightarrow> bytes \<Rightarrow> bool \<Rightarrow> 'd ws \<times> ws_event result" where
  "finish_event infl w opcode payload0 compressed =
     (case inflate_payload infl w payload0 compressed of
        (w1, Inl e) \<Rightarrow> (w1, Err e)
      | (w1, Inr payload) \<Rightarrow>
          if opcode \<noteq> OPCODE_TEXT then (w1, Ok (WsBinary payload))
          else case from_utf8 payload of
                 Some s \<Rightarrow> (w1, Ok (WsText s))
               | None \<Rightarrow> (ws_fail w1 CLOSE_INVALID_DATA, Err (BadResponse ''WS TEXT message payload is not valid UTF-8'')))"

text \<open>One turn of the loop of \<open>next_event\<close> on a frame: \<open>None\<close> goes round again.\<close>

definition on_control :: "bool \<Rightarrow> 'd ws \<Rightarrow> wframe \<Rightarrow> 'd ws \<times> ws_event result option" where
  "on_control auto_pong w f =
     (case validate_control_frame f of
        Inl e \<Rightarrow> (w, Some (Err e))
      | Inr _ \<Rightarrow>
          (let mid_message = (w_partial w \<noteq> None)
           in if wf_opcode f = OPCODE_PING then
                (case (if auto_pong then
                         (case build_client_frame w OPCODE_PONG (wf_payload f) of
                            (w1, Inl e) \<Rightarrow> (w1, Err e)
                          | (w1, Inr pong) \<Rightarrow> (ws_write w1 pong, Ok ()))
                       else (w, Ok ())) of
                   (w1, Inl e) \<Rightarrow> (w1, Some (Err e))
                 | (w1, Inr _) \<Rightarrow> (w1, if mid_message then None else Some (Ok (WsPing (wf_payload f)))))
              else if wf_opcode f = OPCODE_PONG then
                (w, if mid_message then None else Some (Ok (WsPong (wf_payload f))))
              else if wf_opcode f = OPCODE_CLOSE then
                (case handle_close w (wf_payload f) of (w1, r) \<Rightarrow> (w1, Some r))
              else (w, Some (Err (BadResponse ''unknown WS control opcode'')))))"

definition on_data :: "'d inflater \<Rightarrow> 'd ws \<Rightarrow> wframe \<Rightarrow> 'd ws \<times> ws_event result option" where
  "on_data infl w f =
     (if wf_opcode f = OPCODE_TEXT \<or> wf_opcode f = OPCODE_BINARY then
        (if w_partial w \<noteq> None then (w, Some (Err (BadResponse ''new data frame began while a fragmented message was in progress'')))
         else if wf_rsv1 f \<and> w_pmd w = None then
           (w, Some (Err (BadResponse ''RSV1 set on a WS frame but permessage-deflate was not negotiated'')))
         else if wf_fin f then
           (case finish_event infl w (wf_opcode f) (wf_payload f) (wf_rsv1 f) of (w1, r) \<Rightarrow> (w1, Some r))
         else (w\<lparr>w_partial := Some \<lparr>pm_opcode = wf_opcode f, pm_compressed = wf_rsv1 f, pm_buf = wf_payload f\<rparr>\<rparr>, None))
      else if wf_opcode f = OPCODE_CONT then
        (case w_partial w of
           None \<Rightarrow> (w, Some (Err (BadResponse ''continuation frame with no message in progress'')))
         | Some pm \<Rightarrow>
             if wf_rsv1 f then (w, Some (Err (BadResponse ''RSV1 set on a WS continuation frame'')))
             else (case accumulate (pm_buf pm) (wf_payload f) of
                     Inl e \<Rightarrow> (w, Some (Err e))
                   | Inr buf \<Rightarrow>
                       if wf_fin f then
                         (case finish_event infl (w\<lparr>w_partial := None\<rparr>) (pm_opcode pm) buf (pm_compressed pm) of (w1, r) \<Rightarrow> (w1, Some r))
                       else (w\<lparr>w_partial := Some (pm\<lparr>pm_buf := buf\<rparr>)\<rparr>, None)))
      else (w, Some (Err (BadResponse ''unknown WS opcode''))))"

definition on_frame :: "'d inflater \<Rightarrow> bool \<Rightarrow> 'd ws \<Rightarrow> wframe \<Rightarrow> 'd ws \<times> ws_event result option" where
  "on_frame infl auto_pong w f = (if wf_opcode f \<ge> 0x8 then on_control auto_pong w f else on_data infl w f)"

text \<open>The bytes still to be processed.\<close>

definition pending_bytes :: "'d ws \<Rightarrow> nat" where
  "pending_bytes w = length (w_rx w) + sum_list (map (\<lambda>e. case e of Chunk c \<Rightarrow> length c | ReadErr _ \<Rightarrow> 0) (w_in w))"

lemma try_parse_frame_pos: "try_parse_frame rx = Ok (Some (f, n)) \<Longrightarrow> 2 \<le> n \<and> n \<le> length rx"
  using try_parse_frame_OkD [of rx f n]
  by (auto simp: try_parse_frame_def Let_def ws_length_def split: if_splits sum.splits option.splits)

lemma read_wframe_bytes:
  "read_wframe rx s = (r, rx', s') \<Longrightarrow>
     length rx' + sum_list (map (\<lambda>e. case e of Chunk c \<Rightarrow> length c | ReadErr _ \<Rightarrow> 0) s') + (case r of Inr _ \<Rightarrow> 2 | _ \<Rightarrow> 0)
       \<le> length rx + sum_list (map (\<lambda>e. case e of Chunk c \<Rightarrow> length c | ReadErr _ \<Rightarrow> 0) s)"
proof (induction s arbitrary: rx)
  case Nil
  then show ?case by (subst (asm) read_wframe.simps) (auto dest: try_parse_frame_pos split: sum.splits option.splits)
next
  case (Cons e s)
  show ?case
  proof (cases "try_parse_frame rx = Inr None \<and> (\<exists>c. e = Chunk c \<and> c \<noteq> [])")
    case True
    then obtain c where "e = Chunk c" "read_wframe (rx @ c) s = (r, rx', s')"
      using Cons.prems by (subst (asm) read_wframe.simps) auto
    with Cons.IH [of "rx @ c"] show ?thesis by simp
  next
    case False
    with Cons.prems show ?thesis
      by (subst (asm) read_wframe.simps) (auto dest: try_parse_frame_pos split: sum.splits option.splits read_ev.splits if_splits)
  qed
qed

lemma next_wframe_bytes: "next_wframe w = (w', Inr f) \<Longrightarrow> pending_bytes w' < pending_bytes w"
  by (auto simp: next_wframe_def pending_bytes_def Let_def split: prod.splits sum.splits if_splits dest!: read_wframe_bytes)

text \<open>The handlers do not touch the input.\<close>

definition same_input :: "'d ws \<Rightarrow> 'd ws \<Rightarrow> bool" where
  "same_input w w' \<longleftrightarrow> w_rx w' = w_rx w \<and> w_in w' = w_in w"

lemma same_input_trans: "same_input a b \<Longrightarrow> same_input b c \<Longrightarrow> same_input a c"
  by (simp add: same_input_def)

lemma same_input_simps [simp]:
  "same_input w w" "same_input w (ws_write w f)" "same_input w (w\<lparr>w_recv_closed := b\<rparr>)" "same_input w (w\<lparr>w_partial := pm\<rparr>)"
  "same_input w (w\<lparr>w_pmd := d\<rparr>)" "same_input w (w\<lparr>w_rng := g\<rparr>)"
  by (simp_all add: same_input_def ws_write_def)

lemma build_client_frame_input: "build_client_frame w op p = (w', r) \<Longrightarrow> same_input w w'"
  by (auto simp: build_client_frame_def build_frame_def split: list.splits)

lemma write_close_input: "same_input w (fst (write_close w f))"
  by (simp add: write_close_def same_input_def ws_write_def)

text \<open>Sending a close frame: the part \<open>fail\<close> and \<open>handle_close\<close> share.\<close>

lemma close_frame_input:
  "same_input w (case build_client_frame w op p of (w1, Inl e) \<Rightarrow> w1 | (w1, Inr frame) \<Rightarrow> fst (write_close w1 frame))"
  using build_client_frame_input [of w op p] write_close_input same_input_trans
  by (cases "build_client_frame w op p"; cases "snd (build_client_frame w op p)") fastforce+

lemma ws_fail_input: "same_input w (ws_fail w st)"
  using close_frame_input by (auto simp: ws_fail_def split: sum.split)

lemma handle_close_input: "handle_close w p = (w', r) \<Longrightarrow> same_input w w'"
proof -
  assume h: "handle_close w p = (w', r)"
  have "same_input (w\<lparr>w_recv_closed := True\<rparr>) w'"
    using h close_frame_input [of "w\<lparr>w_recv_closed := True\<rparr>"] ws_fail_input [of "w\<lparr>w_recv_closed := True\<rparr>"]
    by (auto simp: handle_close_def Let_def split: sum.splits)
  then show ?thesis by (rule same_input_trans [rotated]) simp
qed

lemma inflate_payload_input: "inflate_payload infl w p c = (w', r) \<Longrightarrow> same_input w w'"
  by (auto simp: inflate_payload_def split: if_splits option.splits prod.splits)

lemma finish_event_input: "finish_event infl w op p c = (w', r) \<Longrightarrow> same_input w w'"
proof -
  assume f: "finish_event infl w op p c = (w', r)"
  obtain w1 q where i: "inflate_payload infl w p c = (w1, q)" by fastforce
  have "w' = w1 \<or> w' = ws_fail w1 CLOSE_INVALID_DATA"
    using f i by (auto simp: finish_event_def split: sum.splits if_splits option.splits)
  then show ?thesis using inflate_payload_input [OF i] ws_fail_input same_input_trans by blast
qed

lemma on_control_input: "on_control ap w f = (w', r) \<Longrightarrow> same_input w w'"
proof -
  assume c: "on_control ap w f = (w', r)"
  obtain w1 q where b: "build_client_frame w OPCODE_PONG (wf_payload f) = (w1, q)" by fastforce
  obtain w2 q2 where h: "handle_close w (wf_payload f) = (w2, q2)" by fastforce
  have "w' = w \<or> w' = w1 \<or> (\<exists>p. w' = ws_write w1 p) \<or> w' = w2"
    using c b h by (auto simp: on_control_def Let_def split: sum.splits if_splits)
  then show ?thesis using build_client_frame_input [OF b] handle_close_input [OF h] same_input_trans same_input_simps(1,2) by blast
qed

lemma on_data_input: "on_data infl w f = (w', r) \<Longrightarrow> same_input w w'"
proof -
  assume d: "on_data infl w f = (w', r)"
  have "w' = w \<or> (\<exists>pm. w' = w\<lparr>w_partial := pm\<rparr>) \<or> (\<exists>op p c q. finish_event infl w op p c = (w', q)) \<or>
      (\<exists>op p c q. finish_event infl (w\<lparr>w_partial := None\<rparr>) op p c = (w', q))"
    using d by (auto simp: on_data_def split: sum.splits if_splits option.splits prod.splits)
  then show ?thesis using finish_event_input same_input_trans same_input_simps by blast
qed

lemma on_frame_bytes: "on_frame infl ap w f = (w', r) \<Longrightarrow> pending_bytes w' = pending_bytes w"
  using on_control_input [of ap w f w' r] on_data_input [of infl w f w' r]
  by (auto simp: on_frame_def same_input_def pending_bytes_def split: if_splits)

function event_loop :: "'d inflater \<Rightarrow> bool \<Rightarrow> 'd ws \<Rightarrow> 'd ws \<times> ws_event result" where
  "event_loop infl auto_pong w =
     (case next_wframe w of
        (w1, Inl e) \<Rightarrow> (w1, Err e)
      | (w1, Inr f) \<Rightarrow> (case on_frame infl auto_pong w1 f of
                         (w2, Some r) \<Rightarrow> (w2, r)
                       | (w2, None) \<Rightarrow> event_loop infl auto_pong w2))"
  by pat_completeness auto
termination
  by (relation "measure (\<lambda>(infl, ap, w). pending_bytes w)") (auto dest!: next_wframe_bytes [OF sym] on_frame_bytes [OF sym])

declare event_loop.simps [simp del]

definition next_event :: "'d inflater \<Rightarrow> bool \<Rightarrow> 'd ws \<Rightarrow> 'd ws \<times> ws_event result" where
  "next_event infl auto_pong w = (if w_recv_closed w then (w, Ok (WsClosed None)) else event_loop infl auto_pong w)"

definition recv_event :: "'d inflater \<Rightarrow> 'd ws \<Rightarrow> 'd ws \<times> ws_event result" where
  "recv_event infl w = next_event infl (w_auto_pong w) w"

text \<open>Every event uses up at least a frame, so the loop of \<open>recv\<close> ends.\<close>

lemma event_loop_bytes: "event_loop infl ap w = (w', Inr ev) \<Longrightarrow> pending_bytes w' < pending_bytes w"
proof (induction infl ap w rule: event_loop.induct)
  case (1 infl ap w)
  obtain w1 r where n: "next_wframe w = (w1, r)" by fastforce
  show ?case
  proof (cases r)
    case (Inl e)
    with 1 n show ?thesis by (subst (asm) (2) event_loop.simps) simp
  next
    case (Inr f)
    obtain w2 q where o: "on_frame infl ap w1 f = (w2, q)" by fastforce
    have lt: "pending_bytes w2 < pending_bytes w" using next_wframe_bytes n Inr on_frame_bytes [OF o] by metis
    show ?thesis
    proof (cases q)
      case None
      then have "event_loop infl ap w2 = (w', Inr ev)" using "1.prems" n Inr o by (subst (asm) event_loop.simps) simp
      from "1.IH" [OF n [symmetric] Inr o [symmetric] None this] lt show ?thesis by simp
    next
      case (Some q')
      then show ?thesis using "1.prems" n Inr o lt by (subst (asm) event_loop.simps) simp
    qed
  qed
qed

function recv :: "'d inflater \<Rightarrow> 'd ws \<Rightarrow> 'd ws \<times> ws_message option result" where
  "recv infl w =
     (case next_event infl True w of
        (w1, Inl e) \<Rightarrow> (w1, Err e)
      | (w1, Inr ev) \<Rightarrow>
          (case ev of
             WsText s \<Rightarrow> (w1, Ok (Some (MText s)))
           | WsBinary b \<Rightarrow> (w1, Ok (Some (MBinary b)))
           | WsPing _ \<Rightarrow> recv infl w1
           | WsPong _ \<Rightarrow> recv infl w1
           | WsClosed _ \<Rightarrow> (w1, Ok None)))"
  by pat_completeness auto
termination
  by (relation "measure (\<lambda>(infl, w). pending_bytes w)")
    (auto simp: next_event_def dest!: event_loop_bytes [OF sym] split: if_splits)

declare recv.simps [simp del]

record ws_frame =
  wsf_fin :: bool
  wsf_opcode :: ws_opcode
  wsf_payload :: bytes

definition recv_frame :: "'d ws \<Rightarrow> 'd ws \<times> ws_frame result" where
  "recv_frame w =
     (case next_wframe w of
        (w1, Inl e) \<Rightarrow> (w1, Err e)
      | (w1, Inr f) \<Rightarrow>
          (w1, res_bind (if wf_opcode f \<ge> 0x8 then validate_control_frame f
                         else if wf_rsv1 f \<and> (w_pmd w1 = None \<or> wf_opcode f = OPCODE_CONT)
                         then Err (BadResponse ''RSV1 set on a WS frame where permessage-deflate does not allow it'')
                         else Ok ())
                 (\<lambda>_. res_bind (from_u8 (wf_opcode f)) (\<lambda>op.
                    Ok \<lparr>wsf_fin = wf_fin f, wsf_opcode = op, wsf_payload = wf_payload f\<rparr>))))"

section \<open>Writing\<close>

definition DEFLATE_TAIL :: bytes where
  "DEFLATE_TAIL = [0x00, 0x00, 0xFF, 0xFF]"

definition deflate_message :: "(bytes \<Rightarrow> bytes result) \<Rightarrow> bytes \<Rightarrow> bytes result" where
  "deflate_message compress payload =
     res_bind (compress payload) (\<lambda>out.
       Ok (if length out \<ge> 4 \<and> drop (length out - 4) out = DEFLATE_TAIL then take (length out - 4) out else out))"

definition build_data_frame :: "(bytes \<Rightarrow> bytes result) \<Rightarrow> 'd ws \<Rightarrow> byte \<Rightarrow> bytes \<Rightarrow> 'd ws \<times> bytes result" where
  "build_data_frame compress w opcode payload =
     (if opcode \<noteq> OPCODE_TEXT \<and> opcode \<noteq> OPCODE_BINARY then (w, Err (BadResponse ''send_message expects a data opcode (text/binary)''))
      else if w_compress w then
        (case deflate_message compress payload of
           Inl e \<Rightarrow> (w, Err e)
         | Inr compressed \<Rightarrow> build_frame w True opcode compressed True)
      else build_client_frame w opcode payload)"

text \<open>Build a frame, then write it unless the connection is closed for sending.\<close>

definition send_built :: "'d ws \<times> bytes result \<Rightarrow> 'd ws \<times> unit result" where
  "send_built b = (case b of (w, Inl e) \<Rightarrow> (w, Err e) | (w, Inr frame) \<Rightarrow> write_unless_closed w frame)"

definition send_close_built :: "'d ws \<times> bytes result \<Rightarrow> 'd ws \<times> unit result" where
  "send_close_built b = (case b of (w, Inl e) \<Rightarrow> (w, Err e) | (w, Inr frame) \<Rightarrow> (fst (write_close w frame), Ok ()))"

definition send_text :: "(bytes \<Rightarrow> bytes result) \<Rightarrow> 'd ws \<Rightarrow> string \<Rightarrow> 'd ws \<times> unit result" where
  "send_text compress w txt = send_built (build_data_frame compress w OPCODE_TEXT (as_bytes txt))"

definition send_binary :: "(bytes \<Rightarrow> bytes result) \<Rightarrow> 'd ws \<Rightarrow> bytes \<Rightarrow> 'd ws \<times> unit result" where
  "send_binary compress w dat = send_built (build_data_frame compress w OPCODE_BINARY dat)"

definition check_control_payload :: "bytes \<Rightarrow> unit result" where
  "check_control_payload payload =
     (if length payload > MAX_CONTROL_PAYLOAD then Err (BadResponse ''websocket: control frame payload too large'') else Ok ())"

definition send_control :: "'d ws \<Rightarrow> byte \<Rightarrow> bytes \<Rightarrow> 'd ws \<times> unit result" where
  "send_control w opcode payload =
     (case check_control_payload payload of
        Inl e \<Rightarrow> (w, Err e)
      | Inr _ \<Rightarrow> send_built (build_client_frame w opcode payload))"

definition ws_ping :: "'d ws \<Rightarrow> bytes \<Rightarrow> 'd ws \<times> unit result" where
  "ws_ping w payload = send_control w OPCODE_PING payload"

definition send_pong :: "'d ws \<Rightarrow> bytes \<Rightarrow> 'd ws \<times> unit result" where
  "send_pong w payload = send_control w OPCODE_PONG payload"

definition send_frame :: "'d ws \<Rightarrow> bool \<Rightarrow> ws_opcode \<Rightarrow> bytes \<Rightarrow> 'd ws \<times> unit result" where
  "send_frame w fin opcode payload =
     (case (if is_control opcode then
              (if \<not> fin then Err (BadResponse ''websocket: control frames cannot be fragmented (fin must be true)'')
               else check_control_payload payload)
            else Ok ()) of
        Inl e \<Rightarrow> (w, Err e)
      | Inr _ \<Rightarrow>
          if opcode = OpClose then send_close_built (build_frame w fin (to_u8 opcode) payload False)
          else send_built (build_frame w fin (to_u8 opcode) payload False))"

definition ws_send_close :: "'d ws \<Rightarrow> 'd ws \<times> unit result" where
  "ws_send_close w = send_close_built (build_client_frame w OPCODE_CLOSE [])"

definition close_with :: "'d ws \<Rightarrow> u16 \<Rightarrow> string \<Rightarrow> 'd ws \<times> unit result" where
  "close_with w code reason =
     (case close_payload code reason of
        Inl e \<Rightarrow> (w, Err e)
      | Inr payload \<Rightarrow> send_close_built (build_client_frame w OPCODE_CLOSE payload))"

abbreviation (input) STREAM_CHUNK :: nat where "STREAM_CHUNK \<equiv> 65536"

text \<open>
  \<open>read_chunk\<close>: short reads are gathered until \<open>cap\<close> bytes are there or the source ends. Each event of the source is the
  result of a \<open>read\<close>; what a read did not have room for comes with the next one.
\<close>

definition src_size :: "read_ev list \<Rightarrow> nat" where
  "src_size s = sum_list (map (\<lambda>e. case e of Chunk c \<Rightarrow> Suc (length c) | ReadErr _ \<Rightarrow> 1) s)"

lemma src_size_simps [simp]:
  "src_size [] = 0" "src_size (Chunk c # s) = Suc (length c + src_size s)" "src_size (ReadErr k # s) = Suc (src_size s)"
  by (simp_all add: src_size_def)

function read_chunk :: "nat \<Rightarrow> bytes \<Rightarrow> read_ev list \<Rightarrow> bytes result \<times> read_ev list" where
  "read_chunk cap buf s =
     (if cap \<le> length buf then (Ok buf, s)
      else case s of
             [] \<Rightarrow> (Ok buf, [])
           | Chunk c # s' \<Rightarrow>
               if c = [] then (Ok buf, s')
               else let n = cap - length buf
                 in if length c \<le> n then read_chunk cap (buf @ c) s' else read_chunk cap (buf @ take n c) (Chunk (drop n c) # s')
           | ReadErr k # s' \<Rightarrow> if k = IoInterrupted then read_chunk cap buf s' else (Err (Io k), s'))"
  by pat_completeness auto
termination
  by (relation "measure (\<lambda>(cap, buf, s). src_size s)") auto

declare read_chunk.simps [simp del]

lemma read_chunk_full: "cap \<le> length buf \<Longrightarrow> read_chunk cap buf s = (Ok buf, s)"
  by (subst read_chunk.simps) simp

lemma read_chunk_Nil: "read_chunk cap buf [] = (Ok buf, [])"
  by (subst read_chunk.simps) simp

lemma read_chunk_err:
  "length buf < cap \<Longrightarrow> read_chunk cap buf (ReadErr k # s) = (if k = IoInterrupted then read_chunk cap buf s else (Err (Io k), s))"
  by (subst read_chunk.simps) simp

lemma read_chunk_short:
  "length buf < cap \<Longrightarrow> length c \<le> cap - length buf \<Longrightarrow>
     read_chunk cap buf (Chunk c # s) = (if c = [] then (Ok buf, s) else read_chunk cap (buf @ c) s)"
  by (subst read_chunk.simps) (simp add: Let_def)

lemma read_chunk_long:
  "length buf < cap \<Longrightarrow> \<not> length c \<le> cap - length buf \<Longrightarrow>
     read_chunk cap buf (Chunk c # s) = (Ok (buf @ take (cap - length buf) c), Chunk (drop (cap - length buf) c) # s)"
  by (subst read_chunk.simps) (auto simp: Let_def read_chunk_full)

lemma read_chunk_left:
  "read_chunk cap buf s = (Inr nxt, s') \<Longrightarrow> src_size s' + length nxt \<le> src_size s + length buf"
proof (induction s arbitrary: buf)
  case Nil
  then show ?case by (simp add: read_chunk_Nil)
next
  case (Cons e s)
  show ?case
  proof (cases "cap \<le> length buf")
    case True
    with Cons.prems show ?thesis by (simp add: read_chunk_full)
  next
    case room: False
    show ?thesis
    proof (cases e)
      case (ReadErr k)
      with room Cons.prems Cons.IH [of buf] show ?thesis by (simp add: read_chunk_err split: if_splits)
    next
      case (Chunk c)
      show ?thesis
      proof (cases "length c \<le> cap - length buf")
        case True
        with room Chunk Cons.prems Cons.IH [of "buf @ c"] show ?thesis by (simp add: read_chunk_short split: if_splits)
      next
        case False
        with room Chunk Cons.prems show ?thesis by (auto simp: read_chunk_long)
      qed
    qed
  qed
qed

function stream_loop :: "byte \<Rightarrow> bool \<Rightarrow> bytes \<Rightarrow> read_ev list \<Rightarrow> 'd ws \<Rightarrow> 'd ws \<times> unit result" where
  "stream_loop opcode first cur src w =
     (case read_chunk STREAM_CHUNK [] src of
        (Inl e, src') \<Rightarrow> (w, Err e)
      | (Inr nxt, src') \<Rightarrow>
          (let fin = (nxt = []); op = (if first then opcode else OPCODE_CONT)
           in case send_built (build_frame w fin op cur False) of
                (w1, Inl e) \<Rightarrow> (w1, Err e)
              | (w1, Inr _) \<Rightarrow> if fin then (w1, Ok ()) else stream_loop opcode False nxt src' w1))"
  by pat_completeness auto
termination
  by (relation "measure (\<lambda>(op, first, cur, src, w). src_size src)") (auto dest!: read_chunk_left [OF sym] simp: neq_Nil_conv)

declare stream_loop.simps [simp del]

definition send_stream_inner :: "byte \<Rightarrow> read_ev list \<Rightarrow> 'd ws \<Rightarrow> 'd ws \<times> unit result" where
  "send_stream_inner opcode src w =
     (if opcode \<noteq> OPCODE_TEXT \<and> opcode \<noteq> OPCODE_BINARY then (w, Err (BadResponse ''send_stream expects a data opcode (text/binary)''))
      else case read_chunk STREAM_CHUNK [] src of
             (Inl e, src') \<Rightarrow> (w, Err e)
           | (Inr cur, src') \<Rightarrow> stream_loop opcode True cur src' w)"

section \<open>The one-shot reader\<close>

datatype ws_outcome = MsgData byte bytes | MsgClosed

record oneshot =
  os_frag :: "byte option"
  os_compressed :: bool
  os_buf :: bytes

definition finish_data_message :: "'d inflater \<Rightarrow> 'd ws \<Rightarrow> byte \<Rightarrow> bytes \<Rightarrow> bool \<Rightarrow> 'd ws \<times> ws_outcome result" where
  "finish_data_message infl w opcode payload0 compressed =
     (case inflate_payload infl w payload0 compressed of
        (w1, Inl e) \<Rightarrow> (w1, Err e)
      | (w1, Inr payload) \<Rightarrow>
          if opcode = OPCODE_TEXT \<and> from_utf8 payload = None
          then (w1, Err (BadResponse ''WS TEXT message payload is not valid UTF-8''))
          else (w1, Ok (MsgData opcode payload)))"

text \<open>One turn of the loop of \<open>read_message\<close>: a control frame, then a data frame.\<close>

definition message_control :: "'d ws \<Rightarrow> wframe \<Rightarrow> 'd ws \<times> ws_outcome result option" where
  "message_control w f =
     (if wf_rsv1 f then (w, Some (Err (BadResponse ''RSV1 set on a WS control frame'')))
      else if \<not> wf_fin f then (w, Some (Err (BadResponse ''fragmented control frame (FIN=0 on a control opcode)'')))
      else if length (wf_payload f) > MAX_CONTROL_PAYLOAD then (w, Some (Err (BadResponse ''control frame payload too large'')))
      else if wf_opcode f = OPCODE_PING then
        (case build_client_frame w OPCODE_PONG (wf_payload f) of
           (w1, Inl e) \<Rightarrow> (w1, Some (Err e))
         | (w1, Inr pong) \<Rightarrow> (ws_write w1 pong, None))
      else if wf_opcode f = OPCODE_PONG then (w, None)
      else if wf_opcode f = OPCODE_CLOSE then
        (let (echo, outcome) =
             (case parse_close_payload (wf_payload f) of
                Inr close \<Rightarrow> (Ok (close_echo_payload close), Ok MsgClosed)
              | Inl status \<Rightarrow> (close_payload status [], Err bad_close_error))
         in (case echo of
               Inl e \<Rightarrow> w
             | Inr p \<Rightarrow> (case build_client_frame w OPCODE_CLOSE p of
                           (w1, Inl e) \<Rightarrow> w1
                         | (w1, Inr close) \<Rightarrow> ws_write w1 close), Some outcome))
      else (w, Some (Err (BadResponse ''unknown WS control opcode''))))"

definition message_data :: "'d inflater \<Rightarrow> 'd ws \<Rightarrow> oneshot \<Rightarrow> wframe \<Rightarrow> 'd ws \<times> oneshot \<times> ws_outcome result option" where
  "message_data infl w st f =
     (if wf_opcode f = OPCODE_TEXT \<or> wf_opcode f = OPCODE_BINARY then
        (if os_frag st \<noteq> None then (w, st, Some (Err (BadResponse ''new data frame began while a fragmented message was in progress'')))
         else if wf_rsv1 f \<and> w_pmd w = None then
           (w, st, Some (Err (BadResponse ''RSV1 set on a WS frame but permessage-deflate was not negotiated'')))
         else let st1 = (if wf_rsv1 f then st\<lparr>os_compressed := True\<rparr> else st)
           in case accumulate (os_buf st1) (wf_payload f) of
                Inl e \<Rightarrow> (w, st1, Some (Err e))
              | Inr buf \<Rightarrow>
                  if wf_fin f then
                    (case finish_data_message infl w (wf_opcode f) buf (os_compressed st1) of (w1, r) \<Rightarrow> (w1, st1, Some r))
                  else (w, st1\<lparr>os_buf := buf, os_frag := Some (wf_opcode f)\<rparr>, None))
      else if wf_opcode f = OPCODE_CONT then
        (case os_frag st of
           None \<Rightarrow> (w, st, Some (Err (BadResponse ''continuation frame with no message in progress'')))
         | Some opcode \<Rightarrow>
             if wf_rsv1 f then (w, st, Some (Err (BadResponse ''RSV1 set on a WS continuation frame'')))
             else case accumulate (os_buf st) (wf_payload f) of
                    Inl e \<Rightarrow> (w, st, Some (Err e))
                  | Inr buf \<Rightarrow>
                      if wf_fin f then
                        (case finish_data_message infl w opcode buf (os_compressed st) of (w1, r) \<Rightarrow> (w1, st, Some r))
                      else (w, st\<lparr>os_buf := buf\<rparr>, None))
      else (w, st, Some (Err (BadResponse ''unknown WS opcode''))))"

definition message_turn :: "'d inflater \<Rightarrow> 'd ws \<Rightarrow> oneshot \<Rightarrow> wframe \<Rightarrow> 'd ws \<times> oneshot \<times> ws_outcome result option" where
  "message_turn infl w st f =
     (if wf_opcode f \<ge> 0x8 then (case message_control w f of (w1, r) \<Rightarrow> (w1, st, r)) else message_data infl w st f)"

text \<open>The frame source of the one-shot reader: no flag records the end of the stream.\<close>

definition pull_wframe :: "'d ws \<Rightarrow> 'd ws \<times> wframe result" where
  "pull_wframe w = (let (r, rx, s) = read_wframe (w_rx w) (w_in w) in (w\<lparr>w_rx := rx, w_in := s\<rparr>, r))"

lemma pull_wframe_bytes: "pull_wframe w = (w', Inr f) \<Longrightarrow> pending_bytes w' < pending_bytes w"
  by (auto simp: pull_wframe_def pending_bytes_def Let_def split: prod.splits dest!: read_wframe_bytes)

lemma message_turn_input: "message_turn infl w st f = (w', st', r) \<Longrightarrow> same_input w w'"
proof -
  assume t: "message_turn infl w st f = (w', st', r)"
  have c: "same_input w w1" if "message_control w f = (w1, q)" for w1 q
  proof -
    have "w1 = w \<or> (\<exists>op p w2 x. build_client_frame w op p = (w2, x) \<and> (w1 = w2 \<or> (\<exists>b. w1 = ws_write w2 b)))"
      using that by (auto simp: message_control_def Let_def split: sum.splits if_splits prod.splits)
    then show ?thesis using build_client_frame_input same_input_trans same_input_simps(1,2) by blast
  qed
  have fin: "same_input w w1" if "finish_data_message infl w op p cm = (w1, q)" for op p cm w1 q
    using that inflate_payload_input by (auto simp: finish_data_message_def split: sum.splits if_splits prod.splits)
  have d: "same_input w w1" if "message_data infl w st f = (w1, st1, q)" for w1 st1 q
    using that fin by (auto simp: message_data_def Let_def split: sum.splits if_splits prod.splits option.splits)
  show ?thesis using t c d by (auto simp: message_turn_def split: if_splits prod.splits)
qed

function message_loop :: "'d inflater \<Rightarrow> 'd ws \<Rightarrow> oneshot \<Rightarrow> 'd ws \<times> ws_outcome result" where
  "message_loop infl w st =
     (case pull_wframe w of
        (w1, Inl e) \<Rightarrow> (w1, Err e)
      | (w1, Inr f) \<Rightarrow> (case message_turn infl w1 st f of
                         (w2, st2, Some r) \<Rightarrow> (w2, r)
                       | (w2, st2, None) \<Rightarrow> message_loop infl w2 st2))"
  by pat_completeness auto
termination
  by (relation "measure (\<lambda>(infl, w, st). pending_bytes w)")
    (auto simp: same_input_def pending_bytes_def dest!: pull_wframe_bytes [OF sym] message_turn_input [OF sym])

declare message_loop.simps [simp del]

definition ws_read_message :: "'d inflater \<Rightarrow> 'd ws \<Rightarrow> 'd ws \<times> ws_outcome result" where
  "ws_read_message infl w = message_loop infl w \<lparr>os_frag = None, os_compressed = False, os_buf = []\<rparr>"

definition read_data_and_close :: "'d inflater \<Rightarrow> 'd ws \<Rightarrow> 'd ws \<times> bytes result" where
  "read_data_and_close infl w =
     (case ws_read_message infl w of
        (w1, Inl e) \<Rightarrow> (w1, Err e)
      | (w1, Inr MsgClosed) \<Rightarrow> (w1, Ok [])
      | (w1, Inr (MsgData _ payload)) \<Rightarrow>
          ((case build_client_frame w1 OPCODE_CLOSE [] of
              (w2, Inl e) \<Rightarrow> w2
            | (w2, Inr close) \<Rightarrow> ws_write w2 close), Ok payload))"

end
