(* ===== verification/Base64.thy ===== *)
theory Base64
  imports Rust_Str
begin

text \<open>
  The base64 codecs: the encoder of \<open>websocket.rs\<close> (which HTTP Basic, LDIF and SASL use too), the one of \<open>cli.rs\<close>, and the decoder
  of \<open>tls/client_auth.rs\<close>. The encoders compute the same text and the decoder inverts it.
\<close>

section \<open>Encoders\<close>

definition ALPHA :: bytes where
  "ALPHA = as_bytes ''ABCDEFGHIJKLMNOPQRSTUVWXYZabcdefghijklmnopqrstuvwxyz0123456789+/''"

definition alpha_char :: "byte \<Rightarrow> char" where
  "alpha_char b = char_of_byte (ALPHA ! unat b)"

fun base64_encode :: "bytes \<Rightarrow> string" where
  "base64_encode (b0 # b1 # b2 # rest) =
     alpha_char (drop_bit 2 b0) # alpha_char (push_bit 4 (b0 AND 0x03) OR drop_bit 4 b1) # alpha_char (push_bit 2 (b1 AND 0x0F) OR drop_bit 6 b2) #
     alpha_char (b2 AND 0x3F) # base64_encode rest"
| "base64_encode [b0] = [alpha_char (drop_bit 2 b0), alpha_char (push_bit 4 (b0 AND 0x03)), CHR ''='', CHR ''='']"
| "base64_encode [b0, b1] =
     [alpha_char (drop_bit 2 b0), alpha_char (push_bit 4 (b0 AND 0x03) OR drop_bit 4 b1), alpha_char (push_bit 2 (b1 AND 0x0F)), CHR ''='']"
| "base64_encode [] = []"

text \<open>The encoder of the command line works on a 24-bit number per group of up to three bytes.\<close>

definition group_word :: "bytes \<Rightarrow> u32" where
  "group_word c = push_bit 16 (ucast (c ! 0)) OR push_bit 8 (ucast (if 1 < length c then c ! 1 else 0)) OR ucast (if 2 < length c then c ! 2 else 0)"

definition cli_group :: "bytes \<Rightarrow> string" where
  "cli_group c =
     (let n = group_word c
      in map (\<lambda>(i, shift). if i \<le> length c then char_of_byte (ALPHA ! unat (drop_bit shift n AND 63)) else CHR ''='') [(0, 18), (1, 12), (2, 6), (3, 0)])"

function cli_base64_encode :: "bytes \<Rightarrow> string" where
  "cli_base64_encode input = (if input = [] then [] else cli_group (take 3 input) @ cli_base64_encode (drop 3 input))"
  by pat_completeness auto
termination
  by (relation "measure length") auto

declare cli_base64_encode.simps [simp del]

section \<open>Decoder\<close>

definition is_ascii_whitespace :: "byte \<Rightarrow> bool" where
  "is_ascii_whitespace b \<longleftrightarrow> b = 0x20 \<or> b = 0x09 \<or> b = 0x0A \<or> b = 0x0C \<or> b = 0x0D"

definition b64_val :: "byte \<Rightarrow> byte option" where
  "b64_val c =
     (if 0x41 \<le> c \<and> c \<le> 0x5A then Some (c - 0x41)
      else if 0x61 \<le> c \<and> c \<le> 0x7A then Some (c - 0x61 + 26)
      else if 0x30 \<le> c \<and> c \<le> 0x39 then Some (c - 0x30 + 52)
      else if c = 0x2B then Some 62
      else if c = 0x2F then Some 63
      else None)"

text \<open>The entries of \<open>quad\<close> written so far (\<open>qn\<close> is their number), the padding seen, and the output.\<close>

record b64 =
  b_quad :: bytes
  b_pad :: nat
  b_ended :: bool
  b_out :: bytes

definition b64_flush :: "b64 \<Rightarrow> b64" where
  "b64_flush st =
     (if length (b_quad st) = 4 then
        let q = b_quad st in
        st\<lparr>b_out := b_out st @ [push_bit 2 (q ! 0) OR drop_bit 4 (q ! 1)] @
                   (if b_pad st < 2 then [push_bit 4 (q ! 1) OR drop_bit 2 (q ! 2)] else []) @
                   (if b_pad st < 1 then [push_bit 6 (q ! 2) OR q ! 3] else []),
           b_ended := b_ended st \<or> b_pad st > 0, b_quad := [], b_pad := 0\<rparr>
      else st)"

definition b64_byte :: "b64 \<Rightarrow> byte \<Rightarrow> b64 option" where
  "b64_byte st b =
     (if is_ascii_whitespace b then Some st
      else if b_ended st then None
      else if b = 0x3D then Some (b64_flush (st\<lparr>b_pad := b_pad st + 1, b_quad := b_quad st @ [0]\<rparr>))
      else if b_pad st \<noteq> 0 then None
      else map_option (\<lambda>v. b64_flush (st\<lparr>b_quad := b_quad st @ [v]\<rparr>)) (b64_val b))"

fun b64_bytes :: "b64 \<Rightarrow> bytes \<Rightarrow> b64 option" where
  "b64_bytes st [] = Some st"
| "b64_bytes st (b # bs) = (case b64_byte st b of None \<Rightarrow> None | Some st' \<Rightarrow> b64_bytes st' bs)"

definition base64_decode :: "string \<Rightarrow> bytes option" where
  "base64_decode input =
     (case b64_bytes \<lparr>b_quad = [], b_pad = 0, b_ended = False, b_out = []\<rparr> (as_bytes input) of
        None \<Rightarrow> None
      | Some st \<Rightarrow> if b_quad st \<noteq> [] then None else Some (b_out st))"

section \<open>The encoders agree\<close>

lemma less_64_bits:
  fixes w :: "'a::len word"
  assumes "\<And>n. bit w n \<Longrightarrow> n < 6"
  shows "unat w < 64"
proof -
  have "take_bit 6 w = w" by (rule bit_word_eqI) (use assms in \<open>auto simp: bit_simps\<close>)
  then have "unat w = take_bit 6 (unat w)" by (metis take_bit_eq_mod unsigned_take_bit_eq)
  then show ?thesis using take_bit_nat_less_exp [of 6 "unat w"] by simp
qed

lemma bit_small_masks:
  "bit (3 :: byte) n \<longleftrightarrow> n < 2" "bit (0xF :: byte) n \<longleftrightarrow> n < 4" "bit (0x3F :: byte) n \<longleftrightarrow> n < 6" "bit (63 :: u32) n \<longleftrightarrow> n < 6"
proof -
  have e: "(3 :: byte) = mask 2" "(0xF :: byte) = mask 4" "(0x3F :: byte) = mask 6" "(63 :: u32) = mask 6" by (simp_all add: mask_eq_exp_minus_1)
  show "bit (3 :: byte) n \<longleftrightarrow> n < 2" unfolding e(1) by (auto simp: bit_mask_iff)
  show "bit (0xF :: byte) n \<longleftrightarrow> n < 4" unfolding e(2) by (auto simp: bit_mask_iff)
  show "bit (0x3F :: byte) n \<longleftrightarrow> n < 6" unfolding e(3) by (auto simp: bit_mask_iff)
  show "bit (63 :: u32) n \<longleftrightarrow> n < 6" unfolding e(4) by (auto simp: bit_mask_iff)
qed

lemmas b64_bits = bit_small_masks bit_and_iff bit_or_iff bit_push_bit_iff bit_drop_bit_eq bit_ucast_iff comp_apply

lemma bit_byte_less: "bit (b :: byte) n \<Longrightarrow> n < 8"
  by (drule bit_imp_le_length) simp

text \<open>The four six-bit values of a group.\<close>

definition sextet0 :: "byte \<Rightarrow> byte" where "sextet0 b0 = drop_bit 2 b0"
definition sextet1 :: "byte \<Rightarrow> byte \<Rightarrow> byte" where "sextet1 b0 b1 = push_bit 4 (b0 AND 3) OR drop_bit 4 b1"
definition sextet2 :: "byte \<Rightarrow> byte \<Rightarrow> byte" where "sextet2 b1 b2 = push_bit 2 (b1 AND 0xF) OR drop_bit 6 b2"
definition sextet3 :: "byte \<Rightarrow> byte" where "sextet3 b2 = b2 AND 0x3F"

lemma encode_sextets:
  "base64_encode (b0 # b1 # b2 # r) = alpha_char (sextet0 b0) # alpha_char (sextet1 b0 b1) # alpha_char (sextet2 b1 b2) # alpha_char (sextet3 b2) # base64_encode r"
  "base64_encode [b0] = [alpha_char (sextet0 b0), alpha_char (sextet1 b0 0), CHR ''='', CHR ''='']"
  "base64_encode [b0, b1] = [alpha_char (sextet0 b0), alpha_char (sextet1 b0 b1), alpha_char (sextet2 b1 0), CHR ''='']"
  by (simp_all only: base64_encode.simps sextet0_def sextet1_def sextet2_def sextet3_def drop_bit_of_0 or.right_neutral)

lemma six_bits: "unat (sextet0 b0) < 64" "unat (sextet1 b0 b1) < 64" "unat (sextet2 b1 b2) < 64" "unat (sextet3 b2) < 64"
proof -
  show "unat (sextet0 b0) < 64" unfolding sextet0_def by (rule less_64_bits, simp only: b64_bits) (auto dest!: bit_byte_less)
  show "unat (sextet1 b0 b1) < 64" unfolding sextet1_def by (rule less_64_bits, simp only: b64_bits) (auto dest!: bit_byte_less)
  show "unat (sextet2 b1 b2) < 64" unfolding sextet2_def by (rule less_64_bits, simp only: b64_bits) (auto dest!: bit_byte_less)
  show "unat (sextet3 b2) < 64" unfolding sextet3_def by (rule less_64_bits, simp only: b64_bits)
qed

lemma group_bits:
  fixes b0 b1 b2 :: byte
  defines "n \<equiv> push_bit 16 (ucast b0) OR push_bit 8 (ucast b1) OR ucast b2 :: u32"
  shows "drop_bit 18 n AND 63 = ucast (sextet0 b0)" "drop_bit 12 n AND 63 = ucast (sextet1 b0 b1)" "drop_bit 6 n AND 63 = ucast (sextet2 b1 b2)"
    "drop_bit 0 n AND 63 = ucast (sextet3 b2)"
proof -
  show "drop_bit 18 n AND 63 = ucast (sextet0 b0)" unfolding n_def sextet0_def
    by (rule bit_word_eqI, simp only: b64_bits) (auto dest: bit_byte_less)
  show "drop_bit 12 n AND 63 = ucast (sextet1 b0 b1)" unfolding n_def sextet1_def
    by (rule bit_word_eqI, simp only: b64_bits) (auto dest: bit_byte_less)
  show "drop_bit 6 n AND 63 = ucast (sextet2 b1 b2)" unfolding n_def sextet2_def
    by (rule bit_word_eqI, simp only: b64_bits) (auto dest: bit_byte_less)
  show "drop_bit 0 n AND 63 = ucast (sextet3 b2)" unfolding n_def sextet3_def
    by (rule bit_word_eqI, simp only: b64_bits) (auto dest: bit_byte_less)
qed

lemma unat_ucast_byte: "unat (ucast (b :: byte) :: u32) = unat b"
  using unsigned_less [of b, where 'a = nat] by (simp add: unsigned_ucast_eq take_bit_nat_eq_self)

lemma cli_group_eq:
  "cli_group [b0, b1, b2] = base64_encode [b0, b1, b2]" "cli_group [b0, b1] = base64_encode [b0, b1]" "cli_group [b0] = base64_encode [b0]"
proof -
  have w: "group_word [b0, b1, b2] = push_bit 16 (ucast b0) OR push_bit 8 (ucast b1) OR ucast b2"
    "group_word [b0, b1] = push_bit 16 (ucast b0) OR push_bit 8 (ucast b1) OR ucast (0 :: byte)"
    "group_word [b0] = push_bit 16 (ucast b0) OR push_bit 8 (ucast (0 :: byte)) OR ucast (0 :: byte)" for b0 b1 b2
    by (simp_all add: group_word_def)
  show "cli_group [b0, b1, b2] = base64_encode [b0, b1, b2]"
    unfolding cli_group_def Let_def w list.map prod.case group_bits by (simp add: encode_sextets alpha_char_def unat_ucast_byte del: base64_encode.simps(1-3))
  show "cli_group [b0, b1] = base64_encode [b0, b1]"
    unfolding cli_group_def Let_def w list.map prod.case group_bits by (simp add: encode_sextets alpha_char_def unat_ucast_byte del: base64_encode.simps(1-3))
  show "cli_group [b0] = base64_encode [b0]"
    unfolding cli_group_def Let_def w list.map prod.case group_bits by (simp add: encode_sextets alpha_char_def unat_ucast_byte del: base64_encode.simps(1-3))
qed

declare base64_encode.simps(1-3) [simp del]

lemma cli_base64_encode_eq: "cli_base64_encode input = base64_encode input"
proof (induction input rule: base64_encode.induct)
  case (1 b0 b1 b2 rest)
  then show ?case using cli_group_eq(1) [of b0 b1 b2] by (subst cli_base64_encode.simps) (simp add: encode_sextets)
qed (simp_all add: cli_base64_encode.simps cli_group_eq)

section \<open>The decoder inverts them\<close>

lemma ALPHA_bytes: "ALPHA =
  [65, 66, 67, 68, 69, 70, 71, 72, 73, 74, 75, 76, 77, 78, 79, 80, 81, 82, 83, 84, 85, 86, 87, 88, 89, 90, 97, 98, 99, 100, 101, 102, 103, 104,
   105, 106, 107, 108, 109, 110, 111, 112, 113, 114, 115, 116, 117, 118, 119, 120, 121, 122, 48, 49, 50, 51, 52, 53, 54, 55, 56, 57, 43, 47]"
  by (simp add: ALPHA_def byte_of_char_def)

lemma ALPHA_values:
  "list_all2 (\<lambda>b v. b64_val b = Some v \<and> \<not> is_ascii_whitespace b \<and> b \<noteq> 0x3D) ALPHA
    ([0, 1, 2, 3, 4, 5, 6, 7, 8, 9, 10, 11, 12, 13, 14, 15, 16, 17, 18, 19, 20, 21, 22, 23, 24, 25, 26, 27, 28, 29, 30, 31, 32, 33, 34, 35, 36, 37, 38, 39, 40, 41, 42, 43, 44, 45, 46, 47, 48, 49, 50, 51, 52, 53, 54, 55, 56, 57, 58, 59, 60, 61, 62, 63])"
  unfolding ALPHA_bytes by code_simp

lemma alpha_byte:
  assumes "unat v < 64"
  shows "b64_val (byte_of_char (alpha_char v)) = Some v" "\<not> is_ascii_whitespace (byte_of_char (alpha_char v))" "byte_of_char (alpha_char v) \<noteq> 0x3D"
proof -
  have n: "map word_of_nat [0..<64] ! unat v = v" using assms by simp
  have "map word_of_nat [0..<64] = ([0, 1, 2, 3, 4, 5, 6, 7, 8, 9, 10, 11, 12, 13, 14, 15, 16, 17, 18, 19, 20, 21, 22, 23, 24, 25, 26, 27, 28, 29, 30, 31, 32, 33, 34, 35, 36, 37, 38, 39, 40, 41, 42, 43, 44, 45, 46, 47, 48, 49, 50, 51, 52, 53, 54, 55, 56, 57, 58, 59, 60, 61, 62, 63] :: byte list)" by code_simp
  with ALPHA_values have "list_all2 (\<lambda>b v. b64_val b = Some v \<and> \<not> is_ascii_whitespace b \<and> b \<noteq> 0x3D) ALPHA (map word_of_nat [0..<64])" by simp
  from list_all2_nthD2 [OF this, of "unat v"] assms n
  show "b64_val (byte_of_char (alpha_char v)) = Some v" "\<not> is_ascii_whitespace (byte_of_char (alpha_char v))" "byte_of_char (alpha_char v) \<noteq> 0x3D"
    by (simp_all add: alpha_char_def)
qed

lemma b64_byte_alpha:
  "unat v < 64 \<Longrightarrow> \<not> b_ended st \<Longrightarrow> b_pad st = 0 \<Longrightarrow> b64_byte st (byte_of_char (alpha_char v)) = Some (b64_flush (st\<lparr>b_quad := b_quad st @ [v]\<rparr>))"
  by (simp add: b64_byte_def alpha_byte)

lemma b64_byte_pad:
  "\<not> b_ended st \<Longrightarrow> b64_byte st (byte_of_char CHR ''='') = Some (b64_flush (st\<lparr>b_pad := b_pad st + 1, b_quad := b_quad st @ [0]\<rparr>))"
  by (simp add: b64_byte_def is_ascii_whitespace_def byte_of_char_def)

lemma byte_eqI:
  fixes a b :: byte
  assumes "bit a 0 = bit b 0" "bit a 1 = bit b 1" "bit a 2 = bit b 2" "bit a 3 = bit b 3" "bit a 4 = bit b 4" "bit a 5 = bit b 5"
    "bit a 6 = bit b 6" "bit a 7 = bit b 7"
  shows "a = b"
proof (rule bit_word_eqI)
  fix n assume "n < LENGTH(8)"
  then have "n \<in> {0, 1, 2, 3, 4, 5, 6, 7}" by auto
  with assms show "bit a n = bit b n" by auto
qed

lemma regroup:
  "push_bit 2 (sextet0 b0) OR drop_bit 4 (sextet1 b0 b1) = b0" "push_bit 4 (sextet1 b0 b1) OR drop_bit 2 (sextet2 b1 b2) = b1" "push_bit 6 (sextet2 b1 b2) OR sextet3 b2 = b2"
proof -
  have high: "\<not> bit (b :: byte) n" if "8 \<le> n" for b n using that bit_byte_less by fastforce
  show "push_bit 2 (sextet0 b0) OR drop_bit 4 (sextet1 b0 b1) = b0" unfolding sextet0_def sextet1_def
    by (rule byte_eqI; simp only: b64_bits; simp add: high)
  show "push_bit 4 (sextet1 b0 b1) OR drop_bit 2 (sextet2 b1 b2) = b1" unfolding sextet1_def sextet2_def
    by (rule byte_eqI; simp only: b64_bits; simp add: high)
  show "push_bit 6 (sextet2 b1 b2) OR sextet3 b2 = b2" unfolding sextet2_def sextet3_def
    by (rule byte_eqI; simp only: b64_bits; simp add: high)
qed

lemma b64_bytes_encode:
  assumes "b_quad st = []" "b_pad st = 0" "\<not> b_ended st"
  shows "\<exists>e. b64_bytes st (as_bytes (base64_encode x)) = Some (st\<lparr>b_out := b_out st @ x, b_ended := e\<rparr>)"
  using assms
proof (induction x arbitrary: st rule: base64_encode.induct)
  case (1 b0 b1 b2 rest)
  let ?st = "st\<lparr>b_out := b_out st @ [b0, b1, b2], b_ended := False, b_quad := [], b_pad := 0\<rparr>"
  have same: "?st\<lparr>b_out := b_out ?st @ rest, b_ended := e\<rparr> = st\<lparr>b_out := b_out st @ b0 # b1 # b2 # rest, b_ended := e\<rparr>" for e
    using "1.prems" by (cases st) simp
  obtain e where "b64_bytes ?st (as_bytes (base64_encode rest)) = Some (?st\<lparr>b_out := b_out ?st @ rest, b_ended := e\<rparr>)"
    using "1.IH" [of ?st] by auto
  then have "b64_bytes ?st (as_bytes (base64_encode rest)) = Some (st\<lparr>b_out := b_out st @ b0 # b1 # b2 # rest, b_ended := e\<rparr>)"
    unfolding same .
  with "1.prems" show ?case
    by (intro exI [of _ e]) (simp add: encode_sextets as_bytes_def b64_byte_alpha six_bits b64_flush_def Let_def regroup nth_append)
next
  case (2 b0)
  then show ?case by (cases st, intro exI [of _ True]) (simp add: encode_sextets as_bytes_def b64_byte_alpha b64_byte_pad six_bits b64_flush_def Let_def regroup)
next
  case (3 b0 b1)
  then show ?case by (cases st, intro exI [of _ True]) (simp add: encode_sextets as_bytes_def b64_byte_alpha b64_byte_pad six_bits b64_flush_def Let_def regroup)
next
  case (4 st)
  then show ?case by (cases st, intro exI [of _ False]) simp
qed

text \<open>Whitespace is skipped wherever it stands, as in a PEM body.\<close>

lemma b64_bytes_filter: "b64_bytes st bs = b64_bytes st (filter (\<lambda>b. \<not> is_ascii_whitespace b) bs)"
  by (induction bs arbitrary: st) (auto simp: b64_byte_def split: option.splits)

definition strip_whitespace :: "string \<Rightarrow> string" where
  "strip_whitespace s = filter (\<lambda>c. \<not> is_ascii_whitespace (byte_of_char c)) s"

lemma base64_decode_strip: "base64_decode (strip_whitespace s) = base64_decode s"
proof -
  have "as_bytes (strip_whitespace s) = filter (\<lambda>b. \<not> is_ascii_whitespace b) (as_bytes s)"
    by (simp add: as_bytes_def strip_whitespace_def filter_map o_def)
  then show ?thesis by (simp add: base64_decode_def b64_bytes_filter [of _ "as_bytes s", symmetric])
qed

lemma base64_decode_encode: "base64_decode (base64_encode x) = Some x"
  using b64_bytes_encode [of "\<lparr>b_quad = [], b_pad = 0, b_ended = False, b_out = []\<rparr>" x] by (auto simp: base64_decode_def)

text \<open>
  The base64 codecs fit together: the two encoders of the library give the same text for every input, and the decoder gives the
  input back from it, also when whitespace (line breaks of a PEM body) is spread over the text.
\<close>

theorem base64_roundtrip:
  assumes "strip_whitespace s = base64_encode x"
  shows "base64_decode s = Some x \<and> cli_base64_encode x = base64_encode x"
  using assms base64_decode_encode [of x] base64_decode_strip [of s] cli_base64_encode_eq by simp

theorem base64_roundtrip_witness:
  "base64_decode ''aGVs bG8='' = Some (as_bytes ''hello'') \<and> cli_base64_encode (as_bytes ''hello'') = base64_encode (as_bytes ''hello'')"
  by (rule base64_roundtrip) (simp add: strip_whitespace_def is_ascii_whitespace_def base64_encode.simps alpha_char_def ALPHA_bytes byte_of_char_def char_of_byte_def char_of_def bit_0)

text \<open>What a header value needs: the text is in the alphabet, and its length is fixed.\<close>

definition b64_char :: "char \<Rightarrow> bool" where
  "b64_char c \<longleftrightarrow> byte_of_char c = 0x3D \<or> b64_val (byte_of_char c) \<noteq> None"

lemma b64_char_simps: "b64_char CHR ''=''" "unat v < 64 \<Longrightarrow> b64_char (alpha_char v)"
  by (simp_all add: b64_char_def alpha_byte) (simp add: byte_of_char_def)

lemma base64_encode_chars: "list_all b64_char (base64_encode x)"
  by (induction x rule: base64_encode.induct) (simp_all add: encode_sextets b64_char_simps six_bits)

lemma base64_encode_length: "length (base64_encode x) = 4 * ((length x + 2) div 3)"
proof (induction x rule: base64_encode.induct)
  case (1 b0 b1 b2 rest)
  have "(length (b0 # b1 # b2 # rest) + 2) div 3 = Suc ((length rest + 2) div 3)" by simp
  with 1 show ?case by (simp add: encode_sextets)
qed (simp_all add: encode_sextets)

lemma base64_encode_not_Nil: "x \<noteq> [] \<Longrightarrow> base64_encode x \<noteq> []"
  by (cases x rule: base64_encode.cases) (simp_all add: encode_sextets)

end
