(* ===== verification/Ws_Handshake.thy ===== *)
theory Ws_Handshake
  imports Ws Base64 Url
begin

text \<open>
  The opening handshake of \<open>websocket.rs\<close>: the upgrade request, the check of the response, the negotiation of permessage-deflate,
  reading the response head. SHA-1 is a parameter, the random nonce and the clock are arguments.
\<close>

section \<open>Strings\<close>

abbreviation (input) CR_LF :: string where "CR_LF \<equiv> [CHR 0x0D, CHR 0x0A]"

text \<open>\<open>str::split\<close> at CRLF.\<close>

fun split_crlf :: "string \<Rightarrow> string list" where
  "split_crlf [] = [[]]"
| "split_crlf [c] = [[c]]"
| "split_crlf (c # d # s) =
     (if c = CHR 0x0D \<and> d = CHR 0x0A then [] # split_crlf s
      else case split_crlf (d # s) of p # ps \<Rightarrow> (c # p) # ps | [] \<Rightarrow> [[c]])"

definition strip_suffix :: "string \<Rightarrow> string \<Rightarrow> string option" where
  "strip_suffix p s = (if ends_with p s then Some (take (length s - length p) s) else None)"

section \<open>The request\<close>

definition WS_GUID :: string where
  "WS_GUID = ''258EAFA5-E914-47DA-95CA-C5AB0DC85B11''"

definition PMD_OFFER :: string where
  "PMD_OFFER = ''permessage-deflate; client_no_context_takeover; server_no_context_takeover''"

definition is_http_token :: "string \<Rightarrow> bool" where
  "is_http_token s \<longleftrightarrow>
     s \<noteq> [] \<and>
     list_all (\<lambda>b. is_ascii_alphanumeric b \<or> b \<in> set ''!#$%&'' \<or> b = CHR 0x27 \<or> b \<in> set ''*+-.^_'' \<or> b = CHR 0x60 \<or> b \<in> set ''|~'') s"

fun proto_loop :: "nat \<Rightarrow> string \<Rightarrow> string list \<Rightarrow> string result" where
  "proto_loop i header [] = Ok header"
| "proto_loop i header (p # ps) =
     (if \<not> is_http_token p then Err (InvalidUrl ''websocket: invalid subprotocol (must be an HTTP token)'')
      else proto_loop (i + 1) (header @ (if i > 0 then '', '' else []) @ p) ps)"

definition subprotocol_header :: "string list \<Rightarrow> string result" where
  "subprotocol_header subprotocols =
     (if subprotocols = [] then Ok []
      else case proto_loop 0 ''Sec-WebSocket-Protocol: '' subprotocols of Inl e \<Rightarrow> Err e | Inr h \<Rightarrow> Ok (h @ CR_LF))"

definition upgrade_request :: "url \<Rightarrow> string \<Rightarrow> string option \<Rightarrow> string \<Rightarrow> string" where
  "upgrade_request u key_b64 extensions proto_header =
     (let path = (if u_path u = [] then ''/'' else u_path u);
          dflt = (u_scheme u = ''ws'' \<and> u_port u = 80 \<or> u_scheme u = ''wss'' \<and> u_port u = 443)
      in ''GET '' @ path @ '' HTTP/1.1'' @ CR_LF @ ''Host: '' @ u_host u @
         (if \<not> dflt then '':'' @ show_nat (u_port u) else []) @ CR_LF @
         ''Upgrade: websocket'' @ CR_LF @ ''Connection: Upgrade'' @ CR_LF @ ''Sec-WebSocket-Key: '' @ key_b64 @ CR_LF @
         ''Sec-WebSocket-Version: 13'' @ CR_LF @
         (case extensions of None \<Rightarrow> [] | Some ext \<Rightarrow> ''Sec-WebSocket-Extensions: '' @ ext @ CR_LF) @ proto_header @ CR_LF)"

section \<open>The response\<close>

definition derive_accept :: "(bytes \<Rightarrow> bytes) \<Rightarrow> string \<Rightarrow> string" where
  "derive_accept sha1 key_b64 = base64_encode (sha1 (as_bytes key_b64 @ as_bytes WS_GUID))"

record handshake_response =
  hr_extensions :: "string option"
  hr_subprotocol :: "string option"

record hs =
  upgrade_ok :: bool
  connection_ok :: bool
  accept_value :: "string option"
  extensions_value :: "string option"
  subprotocol_value :: "string option"

definition hs_field :: "hs \<Rightarrow> string \<Rightarrow> string \<Rightarrow> hs result" where
  "hs_field st k v =
     (if eq_ignore_ascii_case k ''upgrade'' then Ok (if eq_ignore_ascii_case v ''websocket'' then st\<lparr>upgrade_ok := True\<rparr> else st)
      else if eq_ignore_ascii_case k ''connection'' then
        Ok (if list_ex (\<lambda>t. eq_ignore_ascii_case (trim t) ''upgrade'') (split_on CHR '','' v) then st\<lparr>connection_ok := True\<rparr> else st)
      else if eq_ignore_ascii_case k ''sec-websocket-accept'' then Ok (st\<lparr>accept_value := Some v\<rparr>)
      else if eq_ignore_ascii_case k ''sec-websocket-protocol'' then
        (if subprotocol_value st \<noteq> None then Err (BadResponse ''websocket: server sent Sec-WebSocket-Protocol more than once'')
         else Ok (st\<lparr>subprotocol_value := Some v\<rparr>))
      else if eq_ignore_ascii_case k ''sec-websocket-extensions'' then
        Ok (st\<lparr>extensions_value := Some (case extensions_value st of Some existing \<Rightarrow> existing @ '', '' @ v | None \<Rightarrow> v)\<rparr>)
      else Ok st)"

fun hs_lines :: "hs \<Rightarrow> string list \<Rightarrow> hs result" where
  "hs_lines st [] = Ok st"
| "hs_lines st (line # lines) =
     (if line = [] then Ok st
      else case split_once CHR '':'' line of
             None \<Rightarrow> hs_lines st lines
           | Some (k, v) \<Rightarrow> (case hs_field st (trim k) (trim v) of Inl e \<Rightarrow> Err e | Inr st' \<Rightarrow> hs_lines st' lines))"

definition hs_start :: hs where
  "hs_start = \<lparr>upgrade_ok = False, connection_ok = False, accept_value = None, extensions_value = None, subprotocol_value = None\<rparr>"

definition hs_verdict :: "(bytes \<Rightarrow> bytes) \<Rightarrow> hs \<Rightarrow> string \<Rightarrow> string list \<Rightarrow> handshake_response result" where
  "hs_verdict sha1 st key_b64 offered =
     (if \<not> upgrade_ok st then Err (BadResponse ''missing or wrong Upgrade header in handshake response'')
      else if \<not> connection_ok st then Err (BadResponse ''missing or wrong Connection header in handshake response'')
      else case accept_value st of
             None \<Rightarrow> Err (BadResponse ''missing Sec-WebSocket-Accept header'')
           | Some accept \<Rightarrow>
               if accept \<noteq> derive_accept sha1 key_b64 then Err (BadResponse ''Sec-WebSocket-Accept mismatch'')
               else if (case subprotocol_value st of Some sel \<Rightarrow> sel \<notin> set offered | None \<Rightarrow> False)
               then Err (BadResponse ''websocket: server selected subprotocol which was not offered'')
               else Ok \<lparr>hr_extensions = (case extensions_value st of Some v \<Rightarrow> if trim v = [] then None else Some v | None \<Rightarrow> None),
                        hr_subprotocol = subprotocol_value st\<rparr>)"

definition check_handshake_response :: "(bytes \<Rightarrow> bytes) \<Rightarrow> bytes \<Rightarrow> string \<Rightarrow> string list \<Rightarrow> handshake_response result" where
  "check_handshake_response sha1 buf key_b64 offered =
     (case from_utf8 buf of
        None \<Rightarrow> Err (BadResponse ''non-utf8 handshake response'')
      | Some head \<Rightarrow>
          (case split_crlf head of
             [] \<Rightarrow> Err (BadResponse ''empty handshake response'')
           | status_line # lines \<Rightarrow>
               if take 2 (split_on CHR '' '' status_line) \<noteq> [''HTTP/1.1'', ''101'']
               then Err (BadResponse ''expected 101 Switching Protocols'')
               else (case hs_lines hs_start lines of Inl e \<Rightarrow> Err e | Inr st \<Rightarrow> hs_verdict sha1 st key_b64 offered)))"

section \<open>permessage-deflate\<close>

definition parse_window_bits :: "string \<Rightarrow> nat option" where
  "parse_window_bits v =
     (if v = [] \<or> length v > 2 \<or> starts_with ''0'' v \<or> \<not> list_all is_ascii_digit v then None
      else case parse_unsigned 255 v of
             None \<Rightarrow> None
           | Some n \<Rightarrow> if 8 \<le> n \<and> n \<le> 15 then Some n else None)"

record pmd_flags =
  client_no_context_takeover :: bool
  server_no_context_takeover :: bool
  server_max_window_bits :: bool
  client_max_window_bits :: bool

record pmd =
  pmd_client_nct :: bool
  pmd_server_nct :: bool

definition bad_ext :: "string \<Rightarrow> error" where
  "bad_ext why = BadResponse (''websocket: invalid Sec-WebSocket-Extensions response ('' @ why @ '')'')"

definition param_parts :: "string \<Rightarrow> string \<times> string option" where
  "param_parts param =
     (case split_once CHR ''='' param of
        Some (k, v0) \<Rightarrow>
          (let v = trim v0
           in (trim k, Some (case strip_prefix ''\"'' v of
                               Some w \<Rightarrow> (case strip_suffix ''\"'' w of Some x \<Rightarrow> x | None \<Rightarrow> v)
                             | None \<Rightarrow> v)))
      | None \<Rightarrow> (param, None))"

definition pmd_param :: "pmd_flags \<Rightarrow> string \<Rightarrow> pmd_flags result" where
  "pmd_param fl param =
     (case param_parts param of (key, val) \<Rightarrow>
        if eq_ignore_ascii_case key ''client_no_context_takeover'' then
          (if client_no_context_takeover fl then Err (bad_ext ''duplicate parameter'')
           else if val \<noteq> None then Err (bad_ext ''client_no_context_takeover takes no value'')
           else Ok (fl\<lparr>client_no_context_takeover := True\<rparr>))
        else if eq_ignore_ascii_case key ''server_no_context_takeover'' then
          (if server_no_context_takeover fl then Err (bad_ext ''duplicate parameter'')
           else if val \<noteq> None then Err (bad_ext ''server_no_context_takeover takes no value'')
           else Ok (fl\<lparr>server_no_context_takeover := True\<rparr>))
        else if eq_ignore_ascii_case key ''server_max_window_bits'' then
          (if server_max_window_bits fl then Err (bad_ext ''duplicate parameter'')
           else if Option.bind val parse_window_bits = None then Err (bad_ext ''server_max_window_bits must be 8..=15'')
           else Ok (fl\<lparr>server_max_window_bits := True\<rparr>))
        else if eq_ignore_ascii_case key ''client_max_window_bits'' then
          (if client_max_window_bits fl then Err (bad_ext ''duplicate parameter'')
           else if Option.bind val parse_window_bits \<noteq> Some 15 then Err (bad_ext ''client_max_window_bits was not offered'')
           else Ok (fl\<lparr>client_max_window_bits := True\<rparr>))
        else Err (bad_ext ''unknown parameter''))"

fun pmd_params :: "pmd_flags \<Rightarrow> string list \<Rightarrow> pmd_flags result" where
  "pmd_params fl [] = Ok fl"
| "pmd_params fl (param # params) = (case pmd_param fl param of Inl e \<Rightarrow> Err e | Inr fl' \<Rightarrow> pmd_params fl' params)"

definition no_flags :: pmd_flags where
  "no_flags = \<lparr>client_no_context_takeover = False, server_no_context_takeover = False, server_max_window_bits = False,
     client_max_window_bits = False\<rparr>"

fun pmd_exts :: "pmd option \<Rightarrow> string list \<Rightarrow> pmd option result" where
  "pmd_exts p [] = Ok p"
| "pmd_exts p (ext # exts) =
     (if ext = [] then pmd_exts p exts
      else case map trim (split_on CHR '';'' ext) of
             [] \<Rightarrow> Err (bad_ext ''extension was not offered'')
           | name # params \<Rightarrow>
               if \<not> eq_ignore_ascii_case name ''permessage-deflate'' then Err (bad_ext ''extension was not offered'')
               else if p \<noteq> None then Err (bad_ext ''permessage-deflate selected more than once'')
               else case pmd_params no_flags params of
                      Inl e \<Rightarrow> Err e
                    | Inr fl \<Rightarrow> pmd_exts (Some \<lparr>pmd_client_nct = client_no_context_takeover fl, pmd_server_nct = server_no_context_takeover fl\<rparr>) exts)"

definition parse_pmd_response :: "string \<Rightarrow> pmd option result" where
  "parse_pmd_response val = pmd_exts None (map trim (split_on CHR '','' val))"

section \<open>Reading the response head\<close>

text \<open>One byte per \<open>read\<close>; \<open>late n\<close> says whether the deadline has passed when \<open>n\<close> bytes have been read.\<close>

function head_loop :: "(nat \<Rightarrow> bool) \<Rightarrow> bytes \<Rightarrow> read_ev list \<Rightarrow> bytes result \<times> read_ev list" where
  "head_loop late buf s =
     (case s of
        [] \<Rightarrow> (Err UnexpectedEof, [])
      | ReadErr k # s' \<Rightarrow> (Err (Io k), s')
      | Chunk [] # s' \<Rightarrow> (Err UnexpectedEof, s')
      | Chunk (b # c) # s' \<Rightarrow>
          (let buf' = buf @ [b]; rest = (if c = [] then s' else Chunk c # s')
           in if 4 \<le> length buf' \<and> drop (length buf' - 4) buf' = [0x0D, 0x0A, 0x0D, 0x0A] then (Ok buf', rest)
              else if length buf' > 64 * 1024 then (Err (BadResponse ''handshake response too large''), rest)
              else if late (length buf') then (Err (BadResponse ''handshake response timed out (header read exceeded deadline)''), rest)
              else head_loop late buf' rest))"
  by pat_completeness auto
termination
  by (relation "measure (\<lambda>(late, buf, s). src_size s)") (auto split: if_splits)

declare head_loop.simps [simp del]

definition read_handshake_head :: "(nat \<Rightarrow> bool) \<Rightarrow> read_ev list \<Rightarrow> bytes result \<times> read_ev list" where
  "read_handshake_head late s = head_loop late [] s"

text \<open>The request that is written (if any), the result, and the rest of the stream.\<close>

definition ws_handshake ::
    "(bytes \<Rightarrow> bytes) \<Rightarrow> bytes result \<Rightarrow> (nat \<Rightarrow> bool) \<Rightarrow> url \<Rightarrow> string list \<Rightarrow> read_ev list \<Rightarrow>
      string option \<times> (pmd option \<times> string option) result \<times> read_ev list" where
  "ws_handshake sha1 random late u subprotocols s =
     (case random of
        Inl e \<Rightarrow> (None, Err e, s)
      | Inr nonce \<Rightarrow>
          (let key_b64 = base64_encode nonce
           in case subprotocol_header subprotocols of
                Inl e \<Rightarrow> (None, Err e, s)
              | Inr proto_header \<Rightarrow>
                  (let req = upgrade_request u key_b64 (Some PMD_OFFER) proto_header; (h, s') = read_handshake_head late s
                   in (Some req,
                       (case h of
                          Inl e \<Rightarrow> Err e
                        | Inr buf \<Rightarrow>
                            (case check_handshake_response sha1 buf key_b64 subprotocols of
                               Inl e \<Rightarrow> Err e
                             | Inr resp \<Rightarrow>
                                 (case hr_extensions resp of
                                    None \<Rightarrow> Ok (None, hr_subprotocol resp)
                                  | Some v \<Rightarrow> (case parse_pmd_response v of
                                                 Inl e \<Rightarrow> Err e
                                               | Inr p \<Rightarrow> Ok (p, hr_subprotocol resp))))), s'))))"

end
