(* ===== verification/Url_Props.thy ===== *)
theory Url_Props
  imports Url
begin

text \<open>
  The properties of the URL parser: what an accepted URL guarantees, dot-segment removal against
  the algorithm of RFC 3986 section 5.2.4, and the origin of a relative redirect.
\<close>

section \<open>What the parser has checked\<close>

lemma url_parse_netE:
  assumes "url_parse s = Ok u" "u_scheme u \<noteq> ''file''"
  obtains scheme0 rest dflt hostport bracketed where
    "split_once_str ''://'' s = Some (scheme0, rest)" "u_scheme u = to_ascii_lowercase scheme0"
    "default_port (u_scheme u) = Some dflt"
    "fst (split_authority rest) \<noteq> []"
    "split_user (fst (split_authority rest)) = (u_userinfo u, hostport)"
    "split_hostport s hostport dflt = Ok (u_host u, u_port u, bracketed)"
    "u_host u \<noteq> []" "0 < u_port u" "\<not> list_ex forbidden_char (u_host u)"
    "bracketed \<or> \<not> list_ex (\<lambda>c. c = CHR 0x5C \<or> c = CHR ''%'') (u_host u)"
    "check_userinfo (u_userinfo u) s = Ok ()"
    "u_path u = request_path (snd (split_authority rest))" "\<not> list_ex forbidden_char (u_path u)"
  using assms
  by (auto simp: url_parse_def Let_def parse_file_url_def reject_forbidden_def split: prod.splits if_splits)

lemma position_split:
  "position P xs = Some i \<Longrightarrow> \<exists>a y b. xs = a @ y # b \<and> P y \<and> (\<forall>x\<in>set a. \<not> P x) \<and> i = length a"
proof -
  assume i: "position P xs = Some i"
  note d = position_SomeD [OF i]
  have "xs = take i xs @ xs ! i # drop (Suc i) xs" using d by (simp add: id_take_nth_drop)
  moreover have "i = length (take i xs)" using d by simp
  ultimately show ?thesis using d by blast
qed

lemma rposition_split:
  "rposition P xs = Some i \<Longrightarrow> \<exists>a y b. xs = a @ y # b \<and> P y \<and> (\<forall>x\<in>set b. \<not> P x) \<and> i = length a"
proof -
  assume i: "rposition P xs = Some i"
  note d = rposition_SomeD [OF i]
  have "xs = take i xs @ xs ! i # drop (Suc i) xs" using d by (simp add: id_take_nth_drop)
  moreover have "i = length (take i xs)" using d by simp
  ultimately show ?thesis using d by blast
qed

lemma split_authority_spec:
  "\<forall>c\<in>set (fst (split_authority rest)). \<not> url_delim c"
  "\<exists>c r. snd (split_authority rest) = c # r \<and> url_delim c"
proof -
  have "(\<forall>c\<in>set (fst (split_authority rest)). \<not> url_delim c) \<and>
      (\<exists>c r. snd (split_authority rest) = c # r \<and> url_delim c)"
  proof (cases "position url_delim rest")
    case None
    then have "\<forall>c\<in>set rest. \<not> url_delim c" by (simp add: position_None_iff)
    with None show ?thesis by (simp add: split_authority_def) (simp add: url_delim_def)
  next
    case (Some i)
    from position_split [OF this] obtain a y b where
      "rest = a @ y # b" "url_delim y" "\<forall>x\<in>set a. \<not> url_delim x" "i = length a" by blast
    with Some show ?thesis by (simp add: split_authority_def)
  qed
  then show "\<forall>c\<in>set (fst (split_authority rest)). \<not> url_delim c"
    "\<exists>c r. snd (split_authority rest) = c # r \<and> url_delim c" by blast+
qed

lemma split_user_spec:
  assumes "split_user a = (ui, hp)"
  shows "CHR ''@'' \<notin> set hp" "set hp \<subseteq> set a" "\<forall>i. ui = Some i \<longrightarrow> a = i @ CHR ''@'' # hp"
proof -
  have "CHR ''@'' \<notin> set hp \<and> set hp \<subseteq> set a \<and> (\<forall>i. ui = Some i \<longrightarrow> a = i @ CHR ''@'' # hp)"
  proof (cases "rposition (\<lambda>c. c = CHR ''@'') a")
    case None
    then have "CHR ''@'' \<notin> set a" by (auto simp: rposition_None_iff)
    with None assms show ?thesis by (auto simp: split_user_def)
  next
    case (Some i)
    from rposition_split [OF this] obtain x b where
      "a = x @ CHR ''@'' # b" "CHR ''@'' \<notin> set b" "i = length x" by blast
    with Some assms show ?thesis by (auto simp: split_user_def)
  qed
  then show "CHR ''@'' \<notin> set hp" "set hp \<subseteq> set a" "\<forall>i. ui = Some i \<longrightarrow> a = i @ CHR ''@'' # hp" by blast+
qed

lemma parse_port_bound: "parse_port p d = Some n \<Longrightarrow> d \<le> U16_MAX \<Longrightarrow> n \<le> U16_MAX"
  by (auto simp: parse_port_def dest: parse_unsigned_le split: if_splits)

lemma default_port_bound: "default_port s = Some d \<Longrightarrow> 0 < d \<and> d \<le> U16_MAX \<and> CHR '':'' \<notin> set s \<and> s \<noteq> [] \<and> s \<noteq> ''file''"
  by (auto simp: default_port_def split: if_splits)

lemma starts_with_single: "starts_with [x] s \<longleftrightarrow> (\<exists>r. s = x # r)"
  by (auto simp: starts_with_iff)

text \<open>The shape of an accepted host.\<close>

definition good_host :: "string \<Rightarrow> bool \<Rightarrow> bool" where
  "good_host h bracketed \<longleftrightarrow>
     (if bracketed then \<exists>inner. h = CHR ''['' # inner @ '']'' \<and> CHR '']'' \<notin> set inner \<and> ipv6_literal inner \<noteq> None
      else CHR '']'' \<notin> set h \<and> \<not> starts_with ''['' h)"

lemma split_hostport_spec:
  assumes "split_hostport s hp dflt = Ok (h, p, br)" "dflt \<le> U16_MAX"
  shows "p \<le> U16_MAX" "set h \<subseteq> set hp" "good_host h br"
proof -
  have "p \<le> U16_MAX \<and> set h \<subseteq> set hp \<and> good_host h br"
  proof (cases "position (\<lambda>c. c = CHR '']'') hp")
    case None
    then have nb: "CHR '']'' \<notin> set hp" by (auto simp: position_None_iff)
    from None assms have st: "\<not> starts_with ''['' hp" by (auto simp: split_hostport_def split: if_splits)
    show ?thesis
    proof (cases "rposition (\<lambda>c. c = CHR '':'') hp")
      case None
      with \<open>position (\<lambda>c. c = CHR '']'') hp = None\<close> assms st nb show ?thesis
        by (simp add: split_hostport_def good_host_def)
    next
      case (Some i)
      from rposition_split [OF this] obtain a b where hp: "hp = a @ CHR '':'' # b" "i = length a" by blast
      with Some \<open>position (\<lambda>c. c = CHR '']'') hp = None\<close> assms(1) st
      have "h = a" "\<not> br" "parse_port b dflt = Some p" by (auto simp: split_hostport_def)
      with hp nb st assms(2) show ?thesis
        by (cases a) (auto simp: good_host_def starts_with_single dest: parse_port_bound)
    qed
  next
    case (Some close)
    then obtain a b where hp: "hp = a @ CHR '']'' # b" "CHR '']'' \<notin> set a" "close = length a"
      by (auto dest!: position_split)
    from assms Some have st: "starts_with ''['' hp" "h = take (close + 1) hp" "br"
      "ipv6_literal (drop 1 (take close hp)) \<noteq> None"
      by (auto simp: split_hostport_def Let_def split: if_splits option.splits)
    from st(1) hp obtain inner where "a = CHR ''['' # inner" by (cases a) (auto simp: starts_with_single)
    with st hp have "good_host h br" "set h \<subseteq> set hp" by (auto simp: good_host_def)
    moreover from assms Some st have "p \<le> U16_MAX"
      by (auto simp: split_hostport_def Let_def dest: parse_port_bound split: if_splits option.splits)
    ultimately show ?thesis by blast
  qed
  then show "p \<le> U16_MAX" "set h \<subseteq> set hp" "good_host h br" by auto
qed


section \<open>Dot segments\<close>

text \<open>A path as its segments, each with its leading slash.\<close>

definition slashed :: "string list \<Rightarrow> string" where
  "slashed segs = concat (map (\<lambda>g. CHR ''/'' # g) segs)"

lemma slashed_simps [simp]:
  "slashed [] = []" "slashed (g # gs) = CHR ''/'' # g @ slashed gs" "slashed (xs @ ys) = slashed xs @ slashed ys"
  by (simp_all add: slashed_def)

lemma slashed_join: "gs \<noteq> [] \<Longrightarrow> slashed gs = CHR ''/'' # join_with CHR ''/'' gs"
  by (induction "CHR ''/''" gs rule: join_with.induct) auto

lemma slashed_split: "starts_with ''/'' p \<Longrightarrow> slashed (drop 1 (split_on CHR ''/'' p)) = p"
proof -
  assume "starts_with ''/'' p"
  then obtain r where p: "p = CHR ''/'' # r" by (auto simp: starts_with_single)
  then show ?thesis by (simp add: slashed_join)
qed

text \<open>The algorithm of RFC 3986 section 5.2.4, on strings: input buffer and output buffer.\<close>

definition drop_last_segment :: "string \<Rightarrow> string" where
  "drop_last_segment out = (case rposition (\<lambda>c. c = CHR ''/'') out of Some i \<Rightarrow> take i out | None \<Rightarrow> [])"

function rfc_remove_dots :: "string \<Rightarrow> string \<Rightarrow> string" where
  "rfc_remove_dots out inp =
     (if inp = [] then out
      else if starts_with ''../'' inp then rfc_remove_dots out (drop 3 inp)
      else if starts_with ''./'' inp then rfc_remove_dots out (drop 2 inp)
      else if starts_with ''/./'' inp then rfc_remove_dots out (drop 2 inp)
      else if inp = ''/.'' then rfc_remove_dots out ''/''
      else if starts_with ''/../'' inp then rfc_remove_dots (drop_last_segment out) (drop 3 inp)
      else if inp = ''/..'' then rfc_remove_dots (drop_last_segment out) ''/''
      else if inp = ''.'' \<or> inp = ''..'' then out
      else rfc_remove_dots (out @ hd inp # takeWhile (\<lambda>c. c \<noteq> CHR ''/'') (tl inp))
             (dropWhile (\<lambda>c. c \<noteq> CHR ''/'') (tl inp)))"
  by pat_completeness auto
termination
  by (relation "measure (length \<circ> snd)") (auto intro: le_less_trans [OF length_dropWhile_le])

declare rfc_remove_dots.simps [simp del]

lemma starts_with_Cons [simp]:
  "starts_with [] s" "\<not> starts_with (x # p) []" "starts_with (x # p) (y # s) \<longleftrightarrow> x = y \<and> starts_with p s"
  by (auto simp: starts_with_def)

lemma segment_prefix:
  "CHR ''/'' \<notin> set d \<Longrightarrow> CHR ''/'' \<notin> set g \<Longrightarrow>
   starts_with (d @ ''/'') (g @ slashed gs) \<longleftrightarrow> g = d \<and> gs \<noteq> []"
proof (induction d arbitrary: g)
  case Nil
  then show ?case by (cases g; cases gs) auto
next
  case (Cons x d)
  then show ?case by (cases g; cases gs) auto
qed

lemma segment_eq:
  "CHR ''/'' \<notin> set d \<Longrightarrow> CHR ''/'' \<notin> set g \<Longrightarrow> g @ slashed gs = d \<longleftrightarrow> g = d \<and> gs = []"
  by (cases gs) auto

lemma take_segment:
  assumes "CHR ''/'' \<notin> set g"
  shows "takeWhile (\<lambda>c. c \<noteq> CHR ''/'') (g @ slashed gs) = g" "dropWhile (\<lambda>c. c \<noteq> CHR ''/'') (g @ slashed gs) = slashed gs"
  using assms by (induction g) (cases gs; auto)+

lemma rfc_last_slash: "rfc_remove_dots out ''/'' = out @ ''/''"
  by (subst rfc_remove_dots.simps) (simp add: rfc_remove_dots.simps [of "out @ ''/''" "[]"])

lemma rfc_remove_dots_step:
  assumes g: "CHR ''/'' \<notin> set g"
  shows "rfc_remove_dots out (slashed (g # gs)) =
     (if dot_seg g
      then (let out1 = (if g = ''..'' then drop_last_segment out else out)
            in if gs = [] then out1 @ ''/'' else rfc_remove_dots out1 (slashed gs))
      else rfc_remove_dots (out @ CHR ''/'' # g) (slashed gs))"
proof -
  have p: "starts_with ''/./'' (slashed (g # gs)) \<longleftrightarrow> g = ''.'' \<and> gs \<noteq> []"
    "starts_with ''/../'' (slashed (g # gs)) \<longleftrightarrow> g = ''..'' \<and> gs \<noteq> []"
    "slashed (g # gs) = ''/.'' \<longleftrightarrow> g = ''.'' \<and> gs = []" "slashed (g # gs) = ''/..'' \<longleftrightarrow> g = ''..'' \<and> gs = []"
    using segment_prefix [of "''.''" g gs] segment_prefix [of "''..''" g gs] segment_eq [of "''.''" g gs]
      segment_eq [of "''..''" g gs] g by simp_all
  have q: "\<not> starts_with ''../'' (slashed (g # gs))" "\<not> starts_with ''./'' (slashed (g # gs))" "slashed (g # gs) \<noteq> []"
    "slashed (g # gs) \<noteq> ''.''" "slashed (g # gs) \<noteq> ''..''" by simp_all
  have u: "rfc_remove_dots out (slashed (g # gs)) =
     (if g = ''.'' \<and> gs \<noteq> [] then rfc_remove_dots out (drop 2 (slashed (g # gs)))
      else if g = ''.'' \<and> gs = [] then rfc_remove_dots out ''/''
      else if g = ''..'' \<and> gs \<noteq> [] then rfc_remove_dots (drop_last_segment out) (drop 3 (slashed (g # gs)))
      else if g = ''..'' \<and> gs = [] then rfc_remove_dots (drop_last_segment out) ''/''
      else rfc_remove_dots (out @ CHR ''/'' # g) (slashed gs))"
    unfolding rfc_remove_dots.simps [of out "slashed (g # gs)"] p
    using q by (simp only: if_False take_segment [OF g, of gs] slashed_simps list.sel simp_thms)
  show ?thesis
  proof (cases "dot_seg g")
    case True
    then show ?thesis unfolding u rfc_last_slash Let_def by (cases gs) (auto simp: dot_seg_def)
  next
    case False
    then have "g \<noteq> ''.''" "g \<noteq> ''..''" by (simp_all add: dot_seg_def)
    with False show ?thesis unfolding u by simp
  qed
qed

lemma drop_last_slashed:
  assumes "\<forall>g\<in>set outs. CHR ''/'' \<notin> set g"
  shows "drop_last_segment (slashed outs) = slashed (butlast outs)"
proof (cases outs rule: rev_cases)
  case (snoc xs g)
  with assms have "rposition (\<lambda>c. c = CHR ''/'') (slashed xs @ CHR ''/'' # g) = Some (length (slashed xs))"
    by (intro rposition_append_hit) auto
  with snoc show ?thesis by (simp add: drop_last_segment_def)
qed (simp add: drop_last_segment_def rposition_def)

lemma rfc_remove_dots_loop:
  "segs \<noteq> [] \<Longrightarrow> \<forall>g\<in>set segs \<union> set outs. CHR ''/'' \<notin> set g \<Longrightarrow>
   rfc_remove_dots (slashed outs) (slashed segs) = slashed (dot_loop outs segs)"
proof (induction segs arbitrary: outs)
  case (Cons g gs)
  have g: "CHR ''/'' \<notin> set g" using Cons.prems by simp
  have bl: "\<forall>x\<in>set (butlast outs). CHR ''/'' \<notin> set x" using Cons.prems by (auto dest: in_set_butlastD)
  show ?case
  proof (cases "gs = []")
    case True
    with Cons.prems drop_last_slashed [of outs] show ?thesis
      unfolding rfc_remove_dots_step [OF g]
      by (auto simp: Let_def dot_seg_def rfc_remove_dots.simps [of _ "[]"])
  next
    case False
    have ih: "rfc_remove_dots (slashed os) (slashed gs) = slashed (dot_loop os gs)" if "\<forall>x\<in>set os. CHR ''/'' \<notin> set x" for os
      using Cons.IH [OF False, of os] Cons.prems that by auto
    have "drop_last_segment (slashed outs) = slashed (butlast outs)"
      using drop_last_slashed [of outs] Cons.prems by simp
    moreover have "slashed outs @ CHR ''/'' # g = slashed (outs @ [g])" by simp
    moreover have "\<forall>x\<in>set outs. CHR ''/'' \<notin> set x" "\<forall>x\<in>set (outs @ [g]). CHR ''/'' \<notin> set x"
      using Cons.prems by auto
    ultimately show ?thesis
      unfolding rfc_remove_dots_step [OF g] dot_loop.simps Let_def
      using False bl ih [of outs] ih [of "butlast outs"] ih [of "outs @ [g]"] by (simp del: slashed_simps add: dot_seg_def)
  qed
qed simp

lemma dot_loop_not_Nil: "segs \<noteq> [] \<Longrightarrow> dot_loop outs segs \<noteq> []"
proof (induction segs arbitrary: outs)
  case (Cons g gs)
  then show ?case by (cases "gs = []") (auto simp: Let_def dot_seg_def)
qed simp

lemma dot_loop_plain: "\<not> list_ex dot_seg segs \<Longrightarrow> dot_loop outs segs = outs @ segs"
  by (induction segs arbitrary: outs) (auto simp: Let_def dot_seg_def)

lemma split_query_fst: "CHR ''?'' \<notin> set (fst (split_query s)) \<and> fst (split_query s) @ snd (split_query s) = s"
proof (cases "position (\<lambda>c. c = CHR ''?'') s")
  case None
  then have "CHR ''?'' \<notin> set s" by (auto simp: position_None_iff)
  with None show ?thesis by (simp add: split_query_def)
next
  case (Some i)
  from position_split [OF this] obtain a b where
    "s = a @ CHR ''?'' # b" "CHR ''?'' \<notin> set a" "i = length a" by blast
  with Some show ?thesis by (simp add: split_query_def)
qed

lemma split_query_slash: "starts_with ''/'' s \<Longrightarrow> starts_with ''/'' (fst (split_query s))"
  by (auto simp: split_query_def starts_with_single split: option.splits)

lemma segments_free: "\<forall>g\<in>set (drop 1 (split_on CHR ''/'' p)). CHR ''/'' \<notin> set g"
  by (meson in_set_dropD split_on_free)

lemma remove_dot_segments_loop:
  assumes "starts_with ''/'' s" "split_query s = (p, q)"
  shows "remove_dot_segments s = slashed (dot_loop [] (drop 1 (split_on CHR ''/'' p))) @ q"
proof -
  define segs where "segs = drop 1 (split_on CHR ''/'' p)"
  from split_query_slash [OF assms(1)] assms(2) obtain r where p: "p = CHR ''/'' # r" by (auto simp: starts_with_single)
  then have segs: "segs \<noteq> []" "split_on CHR ''/'' p = [] # segs" by (simp_all add: segs_def)
  have s: "s = p @ q" using split_query_fst [of s] assms(2) by simp
  show ?thesis
  proof (cases "list_ex dot_seg segs")
    case True
    then show ?thesis
      using segs slashed_join [OF dot_loop_not_Nil [OF segs(1)], of "[]"]
      unfolding segs_def [symmetric] by (simp add: remove_dot_segments_def assms(2))
  next
    case False
    then have "slashed (dot_loop [] segs) = p"
      using slashed_split [of p] p by (simp add: dot_loop_plain segs_def)
    moreover have "remove_dot_segments s = s"
      using False segs by (simp add: remove_dot_segments_def assms(2) dot_seg_def)
    ultimately show ?thesis using s by (simp add: segs_def)
  qed
qed

lemma dot_loop_keeps:
  assumes "list_all P outs" "list_all (\<lambda>g. dot_seg g \<or> P g) segs" "P []"
  shows "list_all P (dot_loop outs segs)"
  using assms(1,2)
proof (induction segs arbitrary: outs)
  case (Cons g gs)
  define out1 where "out1 = (if g = ''..'' then butlast outs else if \<not> dot_seg g then outs @ [g] else outs)"
  define out2 where "out2 = (if dot_seg g \<and> gs = [] then out1 @ [[]] else out1)"
  have "list_all P out1" using Cons.prems by (auto simp: out1_def list_all_iff dest: in_set_butlastD)
  then have "list_all P out2" using assms(3) by (simp add: out2_def)
  from Cons.IH [OF this] Cons.prems(2) show ?case by (simp add: Let_def out1_def [symmetric] out2_def [symmetric])
qed simp

lemma split_query_snd: "snd (split_query s) = [] \<or> (\<exists>r. snd (split_query s) = CHR ''?'' # r)"
proof (cases "position (\<lambda>c. c = CHR ''?'') s")
  case (Some i)
  from position_split [OF this] obtain a b where "s = a @ CHR ''?'' # b" "i = length a" by blast
  with Some show ?thesis by (simp add: split_query_def)
qed (simp add: split_query_def)

lemma split_query_append:
  assumes "CHR ''?'' \<notin> set p" "q = [] \<or> (\<exists>r. q = CHR ''?'' # r)"
  shows "split_query (p @ q) = (p, q)"
proof (cases "q = []")
  case True
  have "position (\<lambda>c. c = CHR ''?'') p = None" using assms(1) by (auto simp: position_None_iff)
  with True show ?thesis by (simp add: split_query_def)
next
  case False
  with assms obtain r where q: "q = CHR ''?'' # r" by blast
  have "position (\<lambda>c. c = CHR ''?'') (p @ CHR ''?'' # r) = Some (length p)"
    using assms(1) by (intro position_append_hit) auto
  with q show ?thesis by (simp add: split_query_def)
qed

lemma split_on_slashed:
  assumes "L \<noteq> []" "\<forall>g\<in>set L. CHR ''/'' \<notin> set g"
  shows "split_on CHR ''/'' (slashed L) = [] # L"
  using split_join [OF assms] slashed_join [OF assms(1)] by simp

lemma strip_fragment_spec: "CHR ''#'' \<notin> set (strip_fragment p) \<and> (\<exists>r. p = strip_fragment p @ r)"
proof (cases "position (\<lambda>c. c = CHR ''#'') p")
  case None
  then have "CHR ''#'' \<notin> set p" by (auto simp: position_None_iff)
  with None show ?thesis by (simp add: strip_fragment_def)
next
  case (Some i)
  from position_split [OF this] obtain a b where "p = a @ CHR ''#'' # b" "CHR ''#'' \<notin> set a" "i = length a" by blast
  with Some show ?thesis by (simp add: strip_fragment_def)
qed

definition clean_path :: "string \<Rightarrow> bool" where
  "clean_path p \<longleftrightarrow> starts_with ''/'' p \<and> \<not> list_ex dot_seg (split_on CHR ''/'' (fst (split_query p)))"

lemma remove_dot_segments_clean:
  assumes "starts_with ''/'' s"
  shows "clean_path (remove_dot_segments s)" "set (remove_dot_segments s) \<subseteq> set s"
proof -
  obtain p q where pq: "split_query s = (p, q)" by fastforce
  define segs where "segs = drop 1 (split_on CHR ''/'' p)"
  define L where "L = dot_loop [] segs"
  note r = remove_dot_segments_loop [OF assms pq, folded segs_def, folded L_def]
  have p: "slashed segs = p" "starts_with ''/'' p" "CHR ''?'' \<notin> set p" "s = p @ q"
    using slashed_split [of p] split_query_slash [OF assms] split_query_fst [of s] pq by (auto simp: segs_def)
  then have ne: "segs \<noteq> []" by auto
  then have Lne: "L \<noteq> []" using dot_loop_not_Nil by (simp add: L_def)
  have mem: "set g \<subseteq> set p" if "g \<in> set segs" for g
    using that p(1) by (auto simp: slashed_def)
  have keep: "\<forall>g\<in>set L. P g" if "\<forall>g\<in>set segs. dot_seg g \<or> P g" "P []" for P
    using dot_loop_keeps [of P "[]" segs] that by (simp add: L_def list_all_iff)
  have noslash: "\<forall>g\<in>set L. CHR ''/'' \<notin> set g"
    by (rule keep) (use segments_free [of p] in \<open>auto simp: segs_def\<close>)
  have sub: "\<forall>g\<in>set L. set g \<subseteq> set p" by (rule keep) (use mem in auto)
  have nodot: "\<forall>g\<in>set L. \<not> dot_seg g" by (rule keep) (auto simp: dot_seg_def)
  have "CHR ''?'' \<notin> set (slashed L)" using sub p(3) by (auto simp: slashed_def)
  then have sq: "split_query (slashed L @ q) = (slashed L, q)"
    using split_query_snd [of s] pq by (intro split_query_append) auto
  show "clean_path (remove_dot_segments s)"
    unfolding clean_path_def r sq fst_conv split_on_slashed [OF Lne noslash]
    using nodot Lne by (cases L) (auto simp: list_ex_iff dot_seg_def)
  have "CHR ''/'' \<in> set p" using p(2) by (auto simp: starts_with_single)
  then have "set (slashed L) \<subseteq> set p" using sub by (auto simp: slashed_def)
  then have "set (slashed L @ q) \<subseteq> set s" using p(4) by auto
  then show "set (remove_dot_segments s) \<subseteq> set s" unfolding r .
qed

lemma remove_dot_segments_id: "clean_path p \<Longrightarrow> remove_dot_segments p = p"
  by (auto simp: clean_path_def remove_dot_segments_def split: prod.split)

lemma request_path_clean:
  assumes "path0 = c # r" "url_delim c"
  shows "clean_path (request_path path0)" "CHR ''#'' \<notin> set (request_path path0)"
proof -
  define p where "p = strip_fragment path0"
  have p: "CHR ''#'' \<notin> set p" "\<exists>t. path0 = p @ t" using strip_fragment_spec [of path0] by (simp_all add: p_def)
  show "clean_path (request_path path0)"
  proof (cases "starts_with ''/'' p")
    case True
    then show ?thesis using remove_dot_segments_clean by (simp add: request_path_def p_def [symmetric])
  next
    case False
    from p(2) assms p(1) False have "p = [] \<or> (\<exists>t. p = CHR ''?'' # t)"
      by (cases p) (auto simp: url_delim_def starts_with_single)
    then have "split_query (''/'' @ p) = (''/'', p)" by (intro split_query_append) auto
    with False show ?thesis by (simp add: request_path_def p_def [symmetric] clean_path_def dot_seg_def)
  qed
  show "CHR ''#'' \<notin> set (request_path path0)"
    using p(1) remove_dot_segments_clean(2) [of p] by (auto simp: request_path_def p_def [symmetric])
qed

section \<open>Parsing what was parsed\<close>

lemma net_scheme: "default_port sch = Some d \<Longrightarrow> split_once_str ''://'' (sch @ ''://'' @ rest) = Some (sch, rest)"
  using find_str_first [of "CHR '':''" sch "''//''" rest] default_port_bound [of sch d]
  by (simp add: split_once_str_def)

lemma digits_plain: "c \<in> set (show_nat n) \<Longrightarrow> \<not> url_delim c \<and> c \<noteq> CHR ''@'' \<and> c \<noteq> CHR '']'' \<and> c \<noteq> CHR '':'' \<and> c \<noteq> CHR ''[''"
  using show_nat_digits [of n] by (auto simp: list_all_iff is_ascii_digit_def url_delim_def)

lemma parse_port_show: "n \<le> U16_MAX \<Longrightarrow> parse_port (show_nat n) d = Some n"
  by (simp add: parse_port_def show_nat_digits parse_show_nat)

text \<open>Printing host and port and splitting them again.\<close>

lemma split_hostport_bracketed:
  assumes "good_host h True" "p \<le> U16_MAX"
  shows "split_hostport s h d = Ok (h, d, True)" "split_hostport s (h @ '':'' @ show_nat p) d = Ok (h, p, True)"
proof -
  from assms(1) obtain inner where h: "h = CHR ''['' # inner @ '']''" "CHR '']'' \<notin> set inner" "ipv6_literal inner \<noteq> None"
    by (auto simp: good_host_def)
  have "position (\<lambda>c. c = CHR '']'') ((CHR ''['' # inner) @ CHR '']'' # t) = Some (length (CHR ''['' # inner))" for t
    using h(2) by (intro position_append_hit) auto
  then have pos: "position (\<lambda>c. c = CHR '']'') (CHR ''['' # inner @ CHR '']'' # t) = Some (Suc (length inner))" for t by simp
  show "split_hostport s h d = Ok (h, d, True)" using h(3) pos [of "[]"] by (simp add: split_hostport_def h(1))
  show "split_hostport s (h @ '':'' @ show_nat p) d = Ok (h, p, True)"
    using h(3) pos [of "CHR '':'' # show_nat p"] parse_port_show [OF assms(2)]
    by (simp add: split_hostport_def h(1) strip_prefix_def)
qed

lemma split_hostport_plain:
  assumes "good_host h False" "CHR '':'' \<notin> set h" "h \<noteq> []" "p \<le> U16_MAX"
  shows "split_hostport s h d = Ok (h, d, False)" "split_hostport s (h @ '':'' @ show_nat p) d = Ok (h, p, False)"
proof -
  have n: "CHR '']'' \<notin> set h" "\<not> starts_with ''['' h" using assms(1) by (simp_all add: good_host_def)
  then have "position (\<lambda>c. c = CHR '']'') h = None" "rposition (\<lambda>c. c = CHR '':'') h = None"
    using assms(2) by (auto simp: position_None_iff rposition_None_iff)
  with n show "split_hostport s h d = Ok (h, d, False)" by (simp add: split_hostport_def)
  have "position (\<lambda>c. c = CHR '']'') (h @ CHR '':'' # show_nat p) = None"
    using n(1) digits_plain by (auto simp: position_None_iff)
  moreover have "rposition (\<lambda>c. c = CHR '':'') (h @ CHR '':'' # show_nat p) = Some (length h)"
    by (rule rposition_append_hit) (use digits_plain in auto)
  moreover have "\<not> starts_with ''['' (h @ CHR '':'' # show_nat p)"
    using n(2) assms(3) by (cases h) auto
  ultimately show "split_hostport s (h @ '':'' @ show_nat p) d = Ok (h, p, False)"
    using parse_port_show [OF assms(4)] by (simp add: split_hostport_def)
qed

text \<open>An unambiguous base: its host reads back as itself.\<close>

definition plain_host :: "string \<Rightarrow> bool" where
  "plain_host h \<longleftrightarrow> starts_with ''['' h \<or> CHR '':'' \<notin> set h"

lemma base_authority_split:
  assumes "good_host (u_host b) br" "plain_host (u_host b)" "u_host b \<noteq> []" "u_port b \<le> U16_MAX"
    and "default_port (u_scheme b) = Some d"
  shows "split_hostport s (base_authority b) d = Ok (u_host b, u_port b, br)"
proof -
  have "br \<or> CHR '':'' \<notin> set (u_host b)" using assms(1,2) by (auto simp: good_host_def plain_host_def)
  with assms split_hostport_bracketed [of "u_host b" "u_port b" s d] split_hostport_plain [of "u_host b" "u_port b" s d]
  show ?thesis by (cases br) (auto simp: base_authority_def)
qed

lemma split_authority_append:
  assumes "\<forall>c\<in>set a. \<not> url_delim c" "url_delim x"
  shows "split_authority (a @ x # t) = (a, x # t)"
  using position_append_hit [OF assms, of t] by (simp add: split_authority_def)

lemma split_user_plain: "CHR ''@'' \<notin> set a \<Longrightarrow> split_user a = (None, a)"
proof -
  assume "CHR ''@'' \<notin> set a"
  then have "rposition (\<lambda>c. c = CHR ''@'') a = None" by (auto simp: rposition_None_iff)
  then show ?thesis by (simp add: split_user_def)
qed

text \<open>The facts about a parsed URL that make it a base for redirects.\<close>

definition base_ok :: "url \<Rightarrow> bool" where
  "base_ok b \<longleftrightarrow> (\<exists>br d. good_host (u_host b) br \<and> default_port (u_scheme b) = Some d \<and>
       (br \<or> \<not> list_ex (\<lambda>c. c = CHR 0x5C \<or> c = CHR ''%'') (u_host b))) \<and>
     to_ascii_lowercase (u_scheme b) = u_scheme b \<and> u_host b \<noteq> [] \<and> 0 < u_port b \<and> u_port b \<le> U16_MAX \<and>
     list_all (\<lambda>c. \<not> forbidden_char c \<and> \<not> url_delim c \<and> c \<noteq> CHR ''@'') (u_host b) \<and>
     clean_path (u_path b) \<and> CHR ''#'' \<notin> set (u_path b) \<and> \<not> list_ex forbidden_char (u_path b)"

lemma url_parse_base_ok:
  assumes "url_parse s = Ok b" "u_scheme b \<noteq> ''file''"
  shows "base_ok b"
proof (rule url_parse_netE [OF assms])
  fix scheme0 rest d hostport br
  assume a: "u_scheme b = to_ascii_lowercase scheme0" "default_port (u_scheme b) = Some d"
    "split_user (fst (split_authority rest)) = (u_userinfo b, hostport)"
    "split_hostport s hostport d = Ok (u_host b, u_port b, br)"
    "u_host b \<noteq> []" "0 < u_port b" "\<not> list_ex forbidden_char (u_host b)"
    "u_path b = request_path (snd (split_authority rest))" "\<not> list_ex forbidden_char (u_path b)"
    "br \<or> \<not> list_ex (\<lambda>c. c = CHR 0x5C \<or> c = CHR ''%'') (u_host b)"
  have d: "d \<le> U16_MAX" using default_port_bound [OF a(2)] by simp
  note h = split_hostport_spec [OF a(4) d]
  have "\<forall>c\<in>set (u_host b). \<not> url_delim c \<and> c \<noteq> CHR ''@''"
    using h(2) split_user_spec(1,2) [OF a(3)] split_authority_spec(1) [of rest] by blast
  moreover from split_authority_spec(2) [of rest] obtain c r where "snd (split_authority rest) = c # r" "url_delim c" by blast
  note request_path_clean [OF this]
  ultimately show ?thesis using a h by (auto simp: base_ok_def list_all_iff list_ex_iff)
qed

lemma base_authority_chars:
  assumes "base_ok b"
  shows "\<forall>c\<in>set (base_authority b). \<not> url_delim c \<and> c \<noteq> CHR ''@''" "base_authority b \<noteq> []"
  using assms digits_plain [of _ "u_port b"]
  by (auto simp: base_ok_def base_authority_def list_all_iff url_delim_def)

lemma url_reparse:
  assumes b: "base_ok b" "plain_host (u_host b)" and p: "starts_with ''/'' p"
    and s: "s = u_scheme b @ ''://'' @ base_authority b @ p"
  shows "url_parse s =
    (if list_ex forbidden_char (request_path p) then Err (InvalidUrl s)
     else Ok (b\<lparr>u_userinfo := None, u_path := request_path p\<rparr>))"
proof -
  from b(1) obtain br d where g: "good_host (u_host b) br" "default_port (u_scheme b) = Some d"
    "br \<or> \<not> list_ex (\<lambda>c. c = CHR 0x5C \<or> c = CHR ''%'') (u_host b)" by (auto simp: base_ok_def)
  have f: "to_ascii_lowercase (u_scheme b) = u_scheme b" "u_host b \<noteq> []" "u_port b \<noteq> 0" "u_port b \<le> U16_MAX"
    "\<not> list_ex forbidden_char (u_host b)"
    using b(1) by (auto simp: base_ok_def list_all_iff list_ex_iff)
  have sc: "u_scheme b \<noteq> []" "u_scheme b \<noteq> ''file''" using default_port_bound [OF g(2)] by auto
  note ch = base_authority_chars [OF b(1)]
  from p obtain t where t: "p = CHR ''/'' # t" by (auto simp: starts_with_single)
  have a: "split_authority (base_authority b @ p) = (base_authority b, p)"
    unfolding t by (rule split_authority_append) (use ch in \<open>auto simp: url_delim_def\<close>)
  have u: "split_user (base_authority b) = (None, base_authority b)" by (rule split_user_plain) (use ch in auto)
  have h: "split_hostport s (base_authority b) d = Ok (u_host b, u_port b, br)"
    by (rule base_authority_split [OF g(1) b(2) f(2,4) g(2)])
  have split: "split_once_str ''://'' s = Some (u_scheme b, base_authority b @ p)"
    unfolding s by (rule net_scheme [OF g(2)])
  have "\<not> (\<not> br \<and> list_ex (\<lambda>c. c = CHR 0x5C \<or> c = CHR ''%'') (u_host b))" using g(3) by blast
  then show ?thesis
    unfolding url_parse_def split ok_or_simps res_bind_simps prod.case f(1) a Let_def g(2) u h
    using sc ch(2) f by (simp add: reject_forbidden_def check_userinfo_def) blast
qed

lemma merge_path_slash:
  assumes "starts_with ''/'' base"
  shows "starts_with ''/'' (merge_path base loc)"
proof -
  have q: "starts_with ''/'' (fst (split_query base))" using assms by (rule split_query_slash)
  then obtain t where t: "fst (split_query base) = CHR ''/'' # t" by (auto simp: starts_with_single)
  show ?thesis
    using assms by (auto simp: merge_path_def Let_def t split: option.split)
qed

text \<open>
  (C25) An accepted network URL is safe to dial and to put on a request line: the host is not
  empty and holds none of \<open>/ ? # @\<close> (so text after the authority or before an \<open>@\<close> cannot
  become the host), the port is between 1 and 65535, neither host nor path holds a space,
  a control byte or DEL (no header injection), and the path is absolute, without fragment and
  without dot segments.
\<close>

theorem url_parse_safe:
  assumes "url_parse s = Ok u" "u_scheme u \<noteq> ''file''"
  shows "u_host u \<noteq> [] \<and> 1 \<le> u_port u \<and> u_port u \<le> 65535 \<and>
    list_all (\<lambda>c. \<not> forbidden_char c \<and> \<not> url_delim c \<and> c \<noteq> CHR ''@'') (u_host u) \<and>
    list_all (\<lambda>c. \<not> forbidden_char c \<and> c \<noteq> CHR ''#'') (u_path u) \<and> starts_with ''/'' (u_path u) \<and>
    \<not> list_ex dot_seg (split_on CHR ''/'' (fst (split_query (u_path u))))"
  using url_parse_base_ok [OF assms]
  by (auto simp: base_ok_def clean_path_def list_all_iff list_ex_iff Suc_le_eq)

definition demo_url :: url where
  "demo_url = \<lparr>u_scheme = ''http'', u_userinfo = None, u_host = ''h'', u_port = 80, u_path = ''/b''\<rparr>"

lemma demo_url_parse: "url_parse ''http://h/a/../b#f'' = Ok demo_url"
  by (simp add: url_parse_def split_once_str_def to_ascii_lowercase_char_def is_ascii_uppercase_def Let_def
      split_authority_def url_delim_def request_path_def strip_fragment_def remove_dot_segments_def split_query_def
      dot_seg_def default_port_def split_user_def rposition_def split_hostport_def reject_forbidden_def
      forbidden_char_def check_userinfo_def demo_url_def)

lemma url_parse_safe_witness: "url_parse ''http://h/a/../b#f'' = Ok demo_url \<and> u_port demo_url \<le> 65535"
  using url_parse_safe [OF demo_url_parse] demo_url_parse by (simp add: demo_url_def)

text \<open>
  (C26) Dot-segment removal is the algorithm of RFC 3986 section 5.2.4 on the path part, the query
  untouched: the segment-stack loop of the code computes what the RFC's string rewriting computes.
\<close>

theorem remove_dot_segments_rfc3986:
  assumes "starts_with ''/'' s"
  shows "remove_dot_segments s = rfc_remove_dots [] (fst (split_query s)) @ snd (split_query s)"
proof -
  obtain p q where pq: "split_query s = (p, q)" by fastforce
  define segs where "segs = drop 1 (split_on CHR ''/'' p)"
  have p: "slashed segs = p" "starts_with ''/'' p"
    using slashed_split [of p] split_query_slash [OF assms] pq by (simp_all add: segs_def)
  then have "segs \<noteq> []" by auto
  with rfc_remove_dots_loop [of segs "[]"] segments_free [of p] p(1)
  show ?thesis unfolding remove_dot_segments_loop [OF assms pq] segs_def [symmetric] by (simp add: pq segs_def [symmetric])
qed

lemma remove_dot_segments_rfc3986_witness:
  "remove_dot_segments ''/a/../b?x/..'' = rfc_remove_dots [] ''/a/../b'' @ ''?x/..''"
  using remove_dot_segments_rfc3986 [of "''/a/../b?x/..''"] by (simp add: split_query_def)

text \<open>
  (C27) A relative redirect stays on the origin, for a base produced by the parser whose host is
  a bracketed literal or contains no colon (\<open>plain_host\<close>): any non-empty \<open>Location\<close> that is
  neither absolute nor a network-path reference resolves to the base's scheme, host and port
  with the merged, dot-free path and without userinfo, or is rejected because of a forbidden
  byte; there is no third outcome. The condition on the host is needed: the parser also accepts
  a bare host with a colon in it, and for such a base the redirect can reach another origin, as
  \<open>resolve_ambiguous_host\<close> below shows.
\<close>

theorem resolve_keeps_origin:
  assumes "url_parse s = Ok base" "u_scheme base \<noteq> ''file''" "plain_host (u_host base)"
    and "trim loc \<noteq> []" "\<not> absolute_ref (trim loc)" "\<not> starts_with ''//'' (trim loc)"
    and p: "p = request_path (merge_path (u_path base) (encode_loose (strip_fragment (trim loc))))"
  shows "resolve base loc = Ok (base\<lparr>u_userinfo := None, u_path := p\<rparr>) \<or>
    (list_ex forbidden_char p \<and> (\<exists>m. resolve base loc = Err (InvalidUrl m)))"
proof -
  note b = url_parse_base_ok [OF assms(1,2)]
  then have "starts_with ''/'' (u_path base)" by (simp add: base_ok_def clean_path_def)
  note url_reparse [OF b assms(3) merge_path_slash [OF this] refl, of "encode_loose (strip_fragment (trim loc))", folded p]
  then show ?thesis using assms(4-6) by (auto simp: resolve_def Let_def strip_prefix_def)
qed

lemmas demo_url_simps = split_once_str_def to_ascii_lowercase_char_def is_ascii_uppercase_def Let_def split_authority_def
  url_delim_def request_path_def strip_fragment_def remove_dot_segments_def split_query_def dot_seg_def default_port_def
  split_user_def rposition_def split_hostport_def reject_forbidden_def forbidden_char_def check_userinfo_def

lemmas demo_trim_simps = trim_def trim_start.simps trim_end.simps ws_front_def ws_back_def ws_char_def as_bytes_def
  byte_of_char_def

lemma resolve_keeps_origin_witness:
  "resolve demo_url ''c'' = Ok (demo_url\<lparr>u_userinfo := None, u_path := ''/c''\<rparr>)"
proof -
  have t: "trim ''c'' = ''c''" by (simp add: demo_trim_simps)
  have e: "encode_loose ''c'' = ''c''" by (simp add: encode_loose_def encode_loose_char_def)
  have p: "''/c'' = request_path (merge_path (u_path demo_url) (encode_loose (strip_fragment (trim ''c''))))"
    unfolding t by (simp add: demo_url_def strip_fragment_def e merge_path_def split_query_def rposition_def
        request_path_def remove_dot_segments_def dot_seg_def)
  have "\<not> list_ex forbidden_char ''/c''" by (simp add: forbidden_char_def)
  with resolve_keeps_origin [OF demo_url_parse _ _ _ _ _ p] show ?thesis
    unfolding t by (simp add: demo_url_def plain_host_def absolute_ref_def)
qed

text \<open>
  A host with a second colon is accepted and does not survive a relative redirect:
  \<open>http://x:22:80/\<close> parses to the host \<open>x:22\<close> on port 80, and resolving the same-origin
  reference \<open>/y\<close> against it yields the different host \<open>x\<close> on port 22.
\<close>

theorem resolve_ambiguous_host:
  "\<exists>base u. url_parse ''http://x:22:80/'' = Ok base \<and> u_host base = ''x:22'' \<and> u_port base = 80 \<and>
     resolve base ''/y'' = Ok u \<and> u_host u = ''x'' \<and> u_port u = 22"
proof -
  define base where "base = \<lparr>u_scheme = ''http'', u_userinfo = None, u_host = ''x:22'', u_port = 80, u_path = ''/''\<rparr>"
  have nums: "parse_unsigned U16_MAX ''80'' = Some 80" "parse_unsigned U16_MAX ''22'' = Some 22"
    by (simp_all add: parse_unsigned_def is_ascii_digit_def decimal_value_def digit_value_def)
  have b: "url_parse ''http://x:22:80/'' = Ok base"
    by (simp add: url_parse_def demo_url_simps base_def parse_port_def is_ascii_digit_def nums)
  have t: "trim ''/y'' = ''/y''" by (simp add: demo_trim_simps)
  have "resolve base ''/y'' = url_parse ''http://x:22/y''"
    by (simp add: resolve_def t absolute_ref_def strip_prefix_def base_def base_authority_def default_port_def
        merge_path_def encode_loose_def encode_loose_char_def strip_fragment_def Let_def split_query_def)
  also have "\<dots> = Ok \<lparr>u_scheme = ''http'', u_userinfo = None, u_host = ''x'', u_port = 22, u_path = ''/y''\<rparr>"
    by (simp add: url_parse_def demo_url_simps parse_port_def is_ascii_digit_def nums)
  finally show ?thesis using b by (auto simp: base_def)
qed

section \<open>Percent encoding\<close>

lemma to_digit_hex_upper: "n < 16 \<Longrightarrow> to_digit 16 (hex_upper n) = Some n"
  by (auto simp: to_digit_def hex_upper_def Let_def)

lemma percent_decode_encoded:
  assumes "(of_char c :: nat) < 256"
  shows "percent_decode_bytes (CHR ''%'' # hex_upper (of_char c div 16) # hex_upper (of_char c mod 16) # s) =
    byte_of_char c # percent_decode_bytes s"
proof -
  have "(of_char c :: nat) div 16 < 16" using assms by (simp add: less_mult_imp_div_less)
  then have "to_digit 16 (hex_upper (of_char c div 16)) = Some (of_char c div 16)"
    "to_digit 16 (hex_upper (of_char c mod 16)) = Some (of_char c mod 16)" by (simp_all add: to_digit_hex_upper)
  then show ?thesis by (simp add: byte_of_char_def)
qed

lemma percent_decode_plain: "c \<noteq> CHR ''%'' \<Longrightarrow> percent_decode_bytes (c # s) = byte_of_char c # percent_decode_bytes s"
  by (cases "c # s" rule: percent_decode_bytes.cases) auto

text \<open>
  What redirect resolution encodes, percent decoding gives back: for every reference without a
  literal percent sign the decoded bytes are the original ones.
\<close>

theorem encode_loose_roundtrip:
  assumes "CHR ''%'' \<notin> set s"
  shows "percent_decode_bytes (encode_loose s) = as_bytes s"
  using assms
proof (induction s)
  case (Cons c s)
  have "percent_decode_bytes (encode_loose_char c @ t) = byte_of_char c # percent_decode_bytes t" for t
    using Cons.prems percent_decode_encoded [OF of_char_bound, of c t] percent_decode_plain [of c t]
    by (auto simp: encode_loose_char_def)
  with Cons show ?case by (simp add: encode_loose_def as_bytes_def)
qed (simp add: encode_loose_def as_bytes_def)

lemma encode_loose_roundtrip_witness: "percent_decode_bytes (encode_loose ''a b'') = as_bytes ''a b''"
  by (rule encode_loose_roundtrip) simp

end
