(* ===== verification/Ws_Props.thy ===== *)
theory Ws_Props
  imports Ws
begin

text \<open>
  Properties of the WebSocket client: reading does not depend on how the stream is cut, fragmented messages are reassembled,
  the two readers agree, read errors lose nothing, and at most one close frame is sent.
\<close>

section \<open>Reading frames\<close>

text \<open>A decided parse stays decided when more bytes arrive.\<close>

lemma ws_length_mono:
  assumes "ws_length l buf \<noteq> Ok None" "2 \<le> length buf"
  shows "ws_length l (buf @ c) = ws_length l buf"
  using assms by (auto simp: ws_length_def Let_def split: if_splits)

lemma ws_length_pos: "ws_length l buf = Ok (Some (plen, pos)) \<Longrightarrow> 2 \<le> length buf \<Longrightarrow> pos \<le> length buf"
  by (auto simp: ws_length_def Let_def split: if_splits)

lemma try_parse_frame_mono:
  assumes "try_parse_frame rx \<noteq> Ok None"
  shows "try_parse_frame (rx @ c) = try_parse_frame rx"
proof -
  have l: "2 \<le> length rx" using assms by (auto simp: try_parse_frame_def split: if_splits)
  then have n: "(rx @ c) ! 0 = rx ! 0" "(rx @ c) ! 1 = rx ! 1" by (cases rx; auto simp: nth_append)+
  show ?thesis
  proof (cases "rx ! 0 AND 0x30 \<noteq> 0 \<or> rx ! 1 AND 0x80 \<noteq> 0")
    case True
    with l n show ?thesis by (auto simp: try_parse_frame_def Let_def)
  next
    case False
    define k where "k = unat (rx ! 1 AND 0x7F)"
    have w: "ws_length k rx \<noteq> Ok None" using assms False by (auto simp: try_parse_frame_def Let_def k_def split: if_splits)
    note m = ws_length_mono [OF w l, of c]
    show ?thesis
    proof (cases "ws_length k rx")
      case (Inl e)
      with l n m False show ?thesis by (simp add: try_parse_frame_def Let_def k_def)
    next
      case (Inr q)
      then obtain plen pos where q: "ws_length k rx = Ok (Some (plen, pos))" using w by (cases q) auto
      have "pos \<le> length rx" using ws_length_pos [OF q l] .
      with l n m q False assms show ?thesis by (auto simp: try_parse_frame_def Let_def k_def split: if_splits)
    qed
  qed
qed

text \<open>The bytes of a stream of chunks.\<close>

definition chunks_ok :: "bytes list \<Rightarrow> bool" where
  "chunks_ok cs \<longleftrightarrow> [] \<notin> set cs"

lemma read_wframe_frame:
  assumes "wf_wframe f" "rx @ concat cs = server_frame f @ rest" "chunks_ok cs"
  shows "\<exists>rx' cs'. read_wframe rx (map Chunk cs @ s) = (Ok f, rx', map Chunk cs' @ s) \<and> rx' @ concat cs' = rest \<and> chunks_ok cs'"
  using assms(2,3)
proof (induction cs arbitrary: rx)
  case Nil
  then have "try_parse_frame rx = Ok (Some (f, length (server_frame f)))" using try_parse_server_frame [OF assms(1), of rest] by simp
  then have "read_wframe rx (map Chunk [] @ s) = (Ok f, rest, map Chunk [] @ s)" using Nil by (subst read_wframe.simps) simp
  then show ?case by (intro exI [of _ rest] exI [of _ "[]"]) (simp add: chunks_ok_def)
next
  case (Cons c cs)
  show ?case
  proof (cases "try_parse_frame rx = Ok None")
    case True
    moreover have "c \<noteq> []" using Cons.prems(2) by (auto simp: chunks_ok_def)
    ultimately have "read_wframe rx (map Chunk (c # cs) @ s) = read_wframe (rx @ c) (map Chunk cs @ s)" by (subst read_wframe.simps) simp
    with Cons.IH [of "rx @ c"] Cons.prems show ?thesis by (simp add: chunks_ok_def)
  next
    case False
    have p: "try_parse_frame rx = Ok (Some (f, length (server_frame f)))"
      using try_parse_frame_mono [OF False, of "concat (c # cs)"] Cons.prems(1) try_parse_server_frame [OF assms(1), of rest] by simp
    then have le: "length (server_frame f) \<le> length rx" using try_parse_frame_pos by blast
    have r: "drop (length (server_frame f)) rx @ concat (c # cs) = rest"
      using arg_cong [OF Cons.prems(1), of "drop (length (server_frame f))"] le by simp
    have "read_wframe rx (map Chunk (c # cs) @ s) = (Ok f, drop (length (server_frame f)) rx, map Chunk (c # cs) @ s)"
      using p by (subst read_wframe.simps) simp
    with r Cons.prems(2) show ?thesis by blast
  qed
qed

section \<open>One loop\<close>

text \<open>\<open>recv\<close> as a single loop over frames.\<close>

lemma on_frame_continue:
  assumes "on_frame infl ap w f = (w', r)" "r = None \<or> (\<exists>p. r = Some (Ok (WsPing p)) \<or> r = Some (Ok (WsPong p)))"
  shows "w_recv_closed w' = w_recv_closed w \<and> w_send_closed w' = w_send_closed w"
proof -
  have b: "w_recv_closed w1 = w_recv_closed w \<and> w_send_closed w1 = w_send_closed w" if "build_client_frame w op p = (w1, q)" for op p w1 q
    using that by (auto simp: build_client_frame_def build_frame_def split: list.splits)
  have f: "\<nexists>p. q = Ok (WsPing p) \<or> q = Ok (WsPong p)" if "finish_event infl v op pl cm = (w1, q)" for v op pl cm w1 q
    using that by (auto simp: finish_event_def split: prod.splits sum.splits if_splits option.splits)
  show ?thesis
  proof (cases "wf_opcode f \<ge> 8")
    case True
    have h: "\<nexists>p. snd (handle_close w pl) = Ok (WsPing p) \<or> snd (handle_close w pl) = Ok (WsPong p)" for pl
      by (auto simp: handle_close_def Let_def split: sum.splits)
    with True assms b show ?thesis
      by (auto simp: on_frame_def on_control_def Let_def ws_write_def split: sum.splits if_splits prod.splits) (metis snd_conv)+
  next
    case False
    with assms f show ?thesis
      by (auto simp: on_frame_def on_data_def split: sum.splits if_splits prod.splits option.splits) blast+
  qed
qed

lemma recv_loop:
  assumes "\<not> w_recv_closed w"
  shows "recv infl w =
    (case next_wframe w of
       (w1, Inl e) \<Rightarrow> (w1, Err e)
     | (w1, Inr f) \<Rightarrow>
         (case on_frame infl True w1 f of
            (w2, None) \<Rightarrow> recv infl w2
          | (w2, Some (Inl e)) \<Rightarrow> (w2, Err e)
          | (w2, Some (Inr ev)) \<Rightarrow>
              (case ev of
                 WsText s \<Rightarrow> (w2, Ok (Some (MText s)))
               | WsBinary b \<Rightarrow> (w2, Ok (Some (MBinary b)))
               | WsPing _ \<Rightarrow> recv infl w2
               | WsPong _ \<Rightarrow> recv infl w2
               | WsClosed _ \<Rightarrow> (w2, Ok None))))"
proof -
  have n: "next_event infl True w = event_loop infl True w" using assms by (simp add: next_event_def)
  obtain w1 r where w1: "next_wframe w = (w1, r)" by fastforce
  show ?thesis
  proof (cases r)
    case (Inl e)
    with w1 n show ?thesis by (simp add: recv.simps [of infl w] event_loop.simps [of infl True w])
  next
    case (Inr f)
    obtain w2 q where o: "on_frame infl True w1 f = (w2, q)" by fastforce
    show ?thesis
    proof (cases q)
      case None
      have "w_recv_closed w1 = w_recv_closed w" using w1 Inr by (auto simp: next_wframe_def Let_def split: prod.splits sum.splits)
      then have "\<not> w_recv_closed w2" using on_frame_continue [OF o] None assms by simp
      then have "next_event infl True w2 = event_loop infl True w2" by (simp add: next_event_def)
      with w1 Inr o None n show ?thesis
        by (simp add: recv.simps [of infl w] recv.simps [of infl w2] event_loop.simps [of infl True w])
    next
      case (Some q')
      with w1 Inr o n show ?thesis
        by (cases q') (simp_all add: recv.simps [of infl w] event_loop.simps [of infl True w] split: ws_event.split)
    qed
  qed
qed

section \<open>Reassembly\<close>

lemma data_opcodes [simp]: "\<not> (8 :: byte) \<le> 1" "\<not> (8 :: byte) \<le> 2" "\<not> (8 :: byte) \<le> 0"
  by (simp_all add: word_le_nat_alt)

text \<open>Control frames that may come between fragments, and the pongs that answer them.\<close>

definition ping_or_pong :: "wframe \<Rightarrow> bool" where
  "ping_or_pong f \<longleftrightarrow> wf_opcode f \<in> {OPCODE_PING, OPCODE_PONG} \<and> wf_fin f \<and> \<not> wf_rsv1 f \<and> length (wf_payload f) \<le> MAX_CONTROL_PAYLOAD"

fun answers :: "bytes list \<Rightarrow> wframe list \<Rightarrow> bytes list" where
  "answers rng [] = []"
| "answers rng (f # fs) =
     (if wf_opcode f = OPCODE_PING then build_client_frame_inner (hd rng) True OPCODE_PONG (wf_payload f) False # answers (tl rng) fs
      else answers rng fs)"

definition ping_count :: "wframe list \<Rightarrow> nat" where
  "ping_count fs = length (filter (\<lambda>f. wf_opcode f = OPCODE_PING) fs)"

text \<open>A message in fragments, each preceded by control frames.\<close>

fun fragments :: "byte \<Rightarrow> (wframe list \<times> bytes) list \<Rightarrow> wframe list" where
  "fragments op [] = []"
| "fragments op [(cs, p)] = cs @ [\<lparr>wf_fin = True, wf_rsv1 = False, wf_opcode = op, wf_payload = p\<rparr>]"
| "fragments op ((cs, p) # x # xs) = cs @ [\<lparr>wf_fin = False, wf_rsv1 = False, wf_opcode = op, wf_payload = p\<rparr>] @ fragments OPCODE_CONT (x # xs)"

definition controls :: "(wframe list \<times> bytes) list \<Rightarrow> wframe list" where
  "controls xs = concat (map fst xs)"

definition content :: "(wframe list \<times> bytes) list \<Rightarrow> bytes" where
  "content xs = concat (map snd xs)"

text \<open>The stream holds these bytes, in whatever pieces, then continues with \<open>s\<close>.\<close>

definition holds :: "'d ws \<Rightarrow> bytes \<Rightarrow> read_ev list \<Rightarrow> bool" where
  "holds w bs s \<longleftrightarrow> (\<exists>cs. chunks_ok cs \<and> w_in w = map Chunk cs @ s \<and> w_rx w @ concat cs = bs)"

lemma next_wframe_holds:
  assumes "holds w (server_frame f @ bs) s" "wf_wframe f"
  shows "\<exists>rx i. next_wframe w = (w\<lparr>w_rx := rx, w_in := i\<rparr>, Ok f) \<and> holds (w\<lparr>w_rx := rx, w_in := i\<rparr>) bs s"
proof -
  obtain cs where cs: "chunks_ok cs" "w_in w = map Chunk cs @ s" "w_rx w @ concat cs = server_frame f @ bs" using assms(1) by (auto simp: holds_def)
  from read_wframe_frame [OF assms(2) cs(3,1), of s] obtain rx cs' where
    r: "read_wframe (w_rx w) (w_in w) = (Ok f, rx, map Chunk cs' @ s)" "rx @ concat cs' = bs" "chunks_ok cs'" using cs(2) by auto
  then show ?thesis by (auto simp: next_wframe_def holds_def)
qed

text \<open>The parts of the state a message goes through.\<close>

definition quiet :: "'d ws \<Rightarrow> 'd ws \<Rightarrow> bool" where
  "quiet w w' \<longleftrightarrow> w_pmd w' = w_pmd w \<and> w_recv_closed w' = w_recv_closed w \<and> w_send_closed w' = w_send_closed w \<and>
     w_auto_pong w' = w_auto_pong w \<and> w_compress w' = w_compress w"

lemma quiet_trans: "quiet a b \<Longrightarrow> quiet b c \<Longrightarrow> quiet a c"
  by (simp add: quiet_def)

lemma recv_controls:
  assumes "holds w (concat (map server_frame cs) @ bs) s" "list_all ping_or_pong cs" "\<not> w_recv_closed w" "ping_count cs \<le> length (w_rng w)"
  shows "\<exists>w'. recv infl w = recv infl w' \<and> holds w' bs s \<and> w_partial w' = w_partial w \<and> quiet w w' \<and>
    w_out w' = w_out w @ answers (w_rng w) cs \<and> w_rng w' = drop (ping_count cs) (w_rng w)"
  using assms
proof (induction cs arbitrary: w)
  case Nil
  then show ?case by (intro exI [of _ w]) (simp add: quiet_def ping_count_def)
next
  case (Cons f cs)
  have f: "ping_or_pong f" "wf_wframe f" using Cons.prems(2) by (auto simp: ping_or_pong_def wf_wframe_def)
  from next_wframe_holds [OF _ f(2)] Cons.prems(1) obtain rx i where
    n: "next_wframe w = (w\<lparr>w_rx := rx, w_in := i\<rparr>, Ok f)" "holds (w\<lparr>w_rx := rx, w_in := i\<rparr>) (concat (map server_frame cs) @ bs) s" by fastforce
  define w1 where "w1 = w\<lparr>w_rx := rx, w_in := i\<rparr>"
  define w2 where "w2 = (if wf_opcode f = OPCODE_PING
     then (w1\<lparr>w_rng := tl (w_rng w1)\<rparr>)\<lparr>w_out := w_out w1 @ [build_client_frame_inner (hd (w_rng w1)) True OPCODE_PONG (wf_payload f) False]\<rparr> else w1)"
  have v: "validate_control_frame f = Ok ()" using f(1) by (simp add: ping_or_pong_def validate_control_frame_def)
  have rng: "wf_opcode f = OPCODE_PING \<Longrightarrow> w_rng w \<noteq> []" using Cons.prems(4) by (auto simp: ping_count_def)
  have op: "wf_opcode f \<ge> 8" "wf_opcode f = OPCODE_PING \<or> wf_opcode f = OPCODE_PONG" using f(1) by (auto simp: ping_or_pong_def)
  have "\<exists>ev. on_frame infl True w1 f = (w2, None) \<or> on_frame infl True w1 f = (w2, Some (Ok (WsPing ev))) \<or> on_frame infl True w1 f = (w2, Some (Ok (WsPong ev)))"
    using op rng by (cases "w_rng w") (auto simp: on_frame_def on_control_def v Let_def build_client_frame_def build_frame_def ws_write_def w2_def w1_def)
  then have r: "recv infl w = recv infl w2" using recv_loop [OF Cons.prems(3)] n(1) by (auto simp: w1_def)
  have pc: "ping_count (f # cs) = (if wf_opcode f = OPCODE_PING then Suc (ping_count cs) else ping_count cs)" by (simp add: ping_count_def)
  have "holds w2 (concat (map server_frame cs) @ bs) s" using n(2) by (simp add: holds_def w2_def w1_def)
  moreover have "\<not> w_recv_closed w2" using Cons.prems(3) by (simp add: w2_def w1_def)
  moreover have "ping_count cs \<le> length (w_rng w2)" using Cons.prems(4) pc by (auto simp: w2_def w1_def split: if_splits)
  ultimately obtain w' where w': "recv infl w2 = recv infl w'" "holds w' bs s" "w_partial w' = w_partial w2" "quiet w2 w'"
    "w_out w' = w_out w2 @ answers (w_rng w2) cs" "w_rng w' = drop (ping_count cs) (w_rng w2)"
    using Cons.IH Cons.prems(2) by fastforce
  have q: "quiet w w2" "w_partial w2 = w_partial w" by (simp_all add: quiet_def w2_def w1_def)
  have "w_out w' = w_out w @ answers (w_rng w) (f # cs)" using w'(5) by (simp add: w2_def w1_def)
  moreover have "w_rng w' = drop (ping_count (f # cs)) (w_rng w)" using w'(6) pc by (simp add: w2_def w1_def drop_Suc)
  ultimately show ?case using r w'(1-4) q quiet_trans by metis
qed

lemma answers_append: "answers rng (a @ b) = answers rng a @ answers (drop (ping_count a) rng) b"
  by (induction a arbitrary: rng) (auto simp: ping_count_def drop_Suc)

lemma ping_count_append: "ping_count (a @ b) = ping_count a + ping_count b"
  by (simp add: ping_count_def)

definition message_of :: "byte \<Rightarrow> bytes \<Rightarrow> ws_message option" where
  "message_of op p = (if op = OPCODE_TEXT then map_option MText (from_utf8 p) else Some (MBinary p))"

lemma finish_event_message:
  assumes "message_of op p = Some m"
  shows "\<exists>ev. finish_event infl w op p False = (w, Ok ev) \<and>
    ((\<exists>t. ev = WsText t \<and> m = MText t) \<or> (\<exists>b. ev = WsBinary b \<and> m = MBinary b))"
  using assms by (auto simp: finish_event_def inflate_payload_def message_of_def split: if_splits option.splits)

text \<open>A data frame whose message is complete, and one that is not.\<close>

lemma recv_last_fragment:
  assumes "holds w (server_frame f @ bs) s" "f = \<lparr>wf_fin = True, wf_rsv1 = False, wf_opcode = op, wf_payload = p\<rparr>" "\<not> w_recv_closed w"
    "w_partial w = None \<and> op = dop \<and> buf = [] \<or> w_partial w = Some \<lparr>pm_opcode = dop, pm_compressed = False, pm_buf = buf\<rparr> \<and> op = OPCODE_CONT"
    "dop = OPCODE_TEXT \<or> dop = OPCODE_BINARY" "length (buf @ p) \<le> MAX_PAYLOAD_BYTES" "message_of dop (buf @ p) = Some m"
  shows "\<exists>w'. recv infl w = (w', Ok (Some m)) \<and> holds w' bs s \<and> w_partial w' = None \<and> quiet w w' \<and> w_out w' = w_out w \<and> w_rng w' = w_rng w"
proof -
  have f: "wf_wframe f" using assms(2,4-6) by (auto simp: wf_wframe_def word_le_nat_alt)
  from next_wframe_holds [OF assms(1) f] obtain rx i where
    n: "next_wframe w = (w\<lparr>w_rx := rx, w_in := i\<rparr>, Ok f)" "holds (w\<lparr>w_rx := rx, w_in := i\<rparr>) bs s" by blast
  define w1 where "w1 = w\<lparr>w_rx := rx, w_in := i, w_partial := None\<rparr>"
  obtain ev where ev: "finish_event infl w1 dop (buf @ p) False = (w1, Ok ev)"
    "(\<exists>t. ev = WsText t \<and> m = MText t) \<or> (\<exists>b. ev = WsBinary b \<and> m = MBinary b)" using finish_event_message [OF assms(7)] by blast
  have "on_frame infl True (w\<lparr>w_rx := rx, w_in := i\<rparr>) f = (w1, Some (Ok ev))"
    using assms(4)
  proof
    assume a: "w_partial w = None \<and> op = dop \<and> buf = []"
    then have e: "w\<lparr>w_rx := rx, w_in := i\<rparr> = w1" "w_partial w1 = None" by (simp_all add: w1_def)
    show ?thesis unfolding e(1) using a assms(2,5) ev(1) e(2) by (elim disjE) (simp_all add: on_frame_def on_data_def)
  next
    assume "w_partial w = Some \<lparr>pm_opcode = dop, pm_compressed = False, pm_buf = buf\<rparr> \<and> op = OPCODE_CONT"
    with assms(2,6) ev(1) show ?thesis by (auto simp: on_frame_def on_data_def accumulate_def w1_def)
  qed
  then have "recv infl w = (w1, Ok (Some m))" using recv_loop [OF assms(3)] n(1) ev(2) by auto
  moreover have "holds w1 bs s" using n(2) by (simp add: holds_def w1_def)
  ultimately show ?thesis by (auto simp: quiet_def w1_def)
qed

lemma recv_more_fragment:
  assumes "holds w (server_frame f @ bs) s" "f = \<lparr>wf_fin = False, wf_rsv1 = False, wf_opcode = op, wf_payload = p\<rparr>" "\<not> w_recv_closed w"
    "w_partial w = None \<and> op = dop \<and> buf = [] \<or> w_partial w = Some \<lparr>pm_opcode = dop, pm_compressed = False, pm_buf = buf\<rparr> \<and> op = OPCODE_CONT"
    "dop = OPCODE_TEXT \<or> dop = OPCODE_BINARY" "length (buf @ p) \<le> MAX_PAYLOAD_BYTES"
  shows "\<exists>w'. recv infl w = recv infl w' \<and> holds w' bs s \<and> quiet w w' \<and> w_out w' = w_out w \<and> w_rng w' = w_rng w \<and>
    w_partial w' = Some \<lparr>pm_opcode = dop, pm_compressed = False, pm_buf = buf @ p\<rparr>"
proof -
  have f: "wf_wframe f" using assms(2,4-6) by (auto simp: wf_wframe_def word_le_nat_alt)
  from next_wframe_holds [OF assms(1) f] obtain rx i where
    n: "next_wframe w = (w\<lparr>w_rx := rx, w_in := i\<rparr>, Ok f)" "holds (w\<lparr>w_rx := rx, w_in := i\<rparr>) bs s" by blast
  define w1 where "w1 = w\<lparr>w_rx := rx, w_in := i, w_partial := Some \<lparr>pm_opcode = dop, pm_compressed = False, pm_buf = buf @ p\<rparr>\<rparr>"
  have "on_frame infl True (w\<lparr>w_rx := rx, w_in := i\<rparr>) f = (w1, None)"
    using assms(2,4-6) by (auto simp: on_frame_def on_data_def accumulate_def w1_def)
  then have "recv infl w = recv infl w1" using recv_loop [OF assms(3)] n(1) by simp
  moreover have "holds w1 bs s" using n(2) by (simp add: holds_def w1_def)
  ultimately show ?thesis by (auto simp: quiet_def w1_def)
qed

lemma recv_fragments:
  assumes "xs \<noteq> []" "holds w (concat (map server_frame (fragments op xs)) @ bs) s" "list_all ping_or_pong (controls xs)"
    "\<not> w_recv_closed w" "ping_count (controls xs) \<le> length (w_rng w)"
    "w_partial w = None \<and> op = dop \<and> buf = [] \<or> w_partial w = Some \<lparr>pm_opcode = dop, pm_compressed = False, pm_buf = buf\<rparr> \<and> op = OPCODE_CONT"
    "dop = OPCODE_TEXT \<or> dop = OPCODE_BINARY" "length (buf @ content xs) \<le> MAX_PAYLOAD_BYTES" "message_of dop (buf @ content xs) = Some m"
  shows "\<exists>w'. recv infl w = (w', Ok (Some m)) \<and> holds w' bs s \<and> w_partial w' = None \<and> quiet w w' \<and>
    w_out w' = w_out w @ answers (w_rng w) (controls xs)"
  using assms
proof (induction op xs arbitrary: w buf rule: fragments.induct)
  case (2 op cs p)
  have c: "controls [(cs, p)] = cs" "content [(cs, p)] = p" by (simp_all add: controls_def content_def)
  define f where "f = \<lparr>wf_fin = True, wf_rsv1 = False, wf_opcode = op, wf_payload = p\<rparr>"
  obtain w1 where w1: "recv infl w = recv infl w1" "holds w1 (server_frame f @ bs) s" "w_partial w1 = w_partial w" "quiet w w1"
    "w_out w1 = w_out w @ answers (w_rng w) cs"
    using recv_controls [of w cs "server_frame f @ bs" s infl] "2.prems" c by (auto simp: f_def)
  have nc: "\<not> w_recv_closed w1" using "2.prems"(4) w1(4) by (simp add: quiet_def)
  obtain w' where "recv infl w1 = (w', Ok (Some m))" "holds w' bs s" "w_partial w' = None" "quiet w1 w'" "w_out w' = w_out w1"
    using recv_last_fragment [OF w1(2) f_def nc, of dop buf m infl] "2.prems"(6-9) w1(3) c by auto
  with w1 c show ?case using quiet_trans by (intro exI [of _ w']) auto
next
  case (3 op cs p x xs)
  have c: "controls ((cs, p) # x # xs) = cs @ controls (x # xs)" "content ((cs, p) # x # xs) = p @ content (x # xs)"
    by (simp_all add: controls_def content_def)
  define f where "f = \<lparr>wf_fin = False, wf_rsv1 = False, wf_opcode = op, wf_payload = p\<rparr>"
  define bs' where "bs' = concat (map server_frame (fragments OPCODE_CONT (x # xs))) @ bs"
  obtain w1 where w1: "recv infl w = recv infl w1" "holds w1 (server_frame f @ bs') s" "w_partial w1 = w_partial w" "quiet w w1"
    "w_out w1 = w_out w @ answers (w_rng w) cs" "w_rng w1 = drop (ping_count cs) (w_rng w)"
    using recv_controls [of w cs "server_frame f @ bs'" s infl] "3.prems" c by (auto simp: f_def bs'_def ping_count_append)
  have nc: "\<not> w_recv_closed w1" using "3.prems"(4) w1(4) by (simp add: quiet_def)
  obtain w2 where w2: "recv infl w1 = recv infl w2" "holds w2 bs' s" "quiet w1 w2" "w_out w2 = w_out w1" "w_rng w2 = w_rng w1"
    "w_partial w2 = Some \<lparr>pm_opcode = dop, pm_compressed = False, pm_buf = buf @ p\<rparr>"
    using recv_more_fragment [OF w1(2) f_def nc, of dop buf infl] "3.prems"(6-8) w1(3) c by auto
  have "\<exists>w'. recv infl w2 = (w', Ok (Some m)) \<and> holds w' bs s \<and> w_partial w' = None \<and> quiet w2 w' \<and>
      w_out w' = w_out w2 @ answers (w_rng w2) (controls (x # xs))"
    by (rule "3.IH" [where buf = "buf @ p"])
      (use "3.prems" w1 w2 c nc in \<open>auto simp: bs'_def ping_count_append quiet_def\<close>)
  with w1 w2 c show ?case using quiet_trans [OF quiet_trans [OF w1(4) w2(3)]] by (auto simp: answers_append)
qed simp

text \<open>
  (C13) Fragmented messages are reassembled: when the stream holds a text or binary message cut into any fragments, with any pings and pongs before
  and between them, and however the network cuts the bytes, \<open>recv\<close> returns the whole message, has answered
  every ping with a pong of the same payload in order, and leaves the stream at the first byte after the message.
\<close>

theorem ws_recv_reassembles:
  assumes "xs \<noteq> []" "holds w (concat (map server_frame (fragments op xs)) @ bs) s" "op = OPCODE_TEXT \<or> op = OPCODE_BINARY"
    "list_all ping_or_pong (controls xs)" "ping_count (controls xs) \<le> length (w_rng w)"
    "length (content xs) \<le> MAX_PAYLOAD_BYTES" "message_of op (content xs) = Some m" "\<not> w_recv_closed w" "w_partial w = None"
  shows "\<exists>w'. recv infl w = (w', Ok (Some m)) \<and> holds w' bs s \<and> w_partial w' = None \<and> quiet w w' \<and>
    w_out w' = w_out w @ answers (w_rng w) (controls xs)"
  using recv_fragments [of xs w op bs s op "[]" m infl] assms by simp

end
