(* ===== verification/Ws_Readers.thy ===== *)
theory Ws_Readers
  imports Ws_Props
begin

text \<open>
  The persistent and the one-shot WebSocket reader agree on every input.
\<close>

section \<open>A message\<close>

definition demo_ping :: wframe where
  "demo_ping = \<lparr>wf_fin = True, wf_rsv1 = False, wf_opcode = OPCODE_PING, wf_payload = [7]\<rparr>"

definition demo_parts :: "(wframe list \<times> bytes) list" where
  "demo_parts = [([], [0x68, 0x65]), ([demo_ping], [0x79])]"

definition demo_ws :: "unit ws" where
  "demo_ws = \<lparr>w_in = [Chunk (concat (map server_frame (fragments OPCODE_TEXT demo_parts)))], w_rx = [], w_partial = None, w_pmd = None,
     w_auto_pong = True, w_send_closed = False, w_recv_closed = False, w_compress = False, w_out = [],
     w_rng = [replicate 16 1, replicate 16 2]\<rparr>"

lemma demo_parts_facts:
  "controls demo_parts = [demo_ping]" "content demo_parts = [0x68, 0x65, 0x79]" "ping_or_pong demo_ping" "ping_count [demo_ping] = 1"
  "message_of OPCODE_TEXT [0x68, 0x65, 0x79] = Some (MText ''hey'')"
  by (simp_all add: controls_def content_def demo_parts_def demo_ping_def ping_or_pong_def ping_count_def message_of_def from_utf8_def
      char_of_byte_def char_of_eq_iff)

lemma demo_holds: "holds demo_ws (concat (map server_frame (fragments OPCODE_TEXT demo_parts)) @ []) []"
proof -
  have "concat (map server_frame (fragments OPCODE_TEXT demo_parts)) \<noteq> []" by (simp add: demo_parts_def server_frame_def)
  then show ?thesis unfolding holds_def
    by (intro exI [of _ "[concat (map server_frame (fragments OPCODE_TEXT demo_parts))]"]) (simp add: demo_ws_def chunks_ok_def)
qed

theorem ws_recv_reassembles_witness:
  "\<exists>w'. recv (\<lambda>d p. (d, Ok p)) demo_ws = (w', Ok (Some (MText ''hey''))) \<and> holds w' [] [] \<and> w_partial w' = None \<and> quiet demo_ws w' \<and>
    w_out w' = w_out demo_ws @ answers (w_rng demo_ws) (controls demo_parts)"
  by (rule ws_recv_reassembles [OF _ demo_holds])
    (simp_all add: demo_parts_facts, simp_all add: demo_parts_def demo_ws_def)

section \<open>The two readers\<close>

text \<open>The states correspond: the partial message of the reader is held in the variables of the loop.\<close>

definition same_stream :: "'d ws \<Rightarrow> 'd ws \<Rightarrow> bool" where
  "same_stream a b \<longleftrightarrow> w_in a = w_in b \<and> w_rx a = w_rx b \<and> w_pmd a = w_pmd b \<and> w_out a = w_out b \<and> w_rng a = w_rng b"

definition os_of :: "'d ws \<Rightarrow> oneshot \<Rightarrow> bool" where
  "os_of w st \<longleftrightarrow>
     (case w_partial w of
        None \<Rightarrow> os_frag st = None \<and> \<not> os_compressed st \<and> os_buf st = []
      | Some pm \<Rightarrow> os_frag st = Some (pm_opcode pm) \<and> os_compressed st = pm_compressed pm \<and> os_buf st = pm_buf pm)"

text \<open>How the outcomes correspond.\<close>

definition same_outcome :: "ws_message option result \<Rightarrow> ws_outcome result \<Rightarrow> bool" where
  "same_outcome a b \<longleftrightarrow>
     (case (a, b) of
        (Inl e, Inl e') \<Rightarrow> e = e'
      | (Inr None, Inr MsgClosed) \<Rightarrow> True
      | (Inr (Some (MText t)), Inr (MsgData op p)) \<Rightarrow> op = OPCODE_TEXT \<and> p = as_bytes t
      | (Inr (Some (MBinary q)), Inr (MsgData op p)) \<Rightarrow> op = OPCODE_BINARY \<and> p = q
      | _ \<Rightarrow> False)"

definition utf8_error :: error where
  "utf8_error = BadResponse ''WS TEXT message payload is not valid UTF-8''"

lemma same_stream_build:
  assumes "same_stream a b" "build_client_frame a op p = (a1, r)"
  shows "\<exists>b1. build_client_frame b op p = (b1, r) \<and> same_stream a1 b1 \<and> w_partial a1 = w_partial a \<and>
    w_send_closed a1 = w_send_closed a \<and> w_recv_closed a1 = w_recv_closed a"
  using assms by (auto simp: build_client_frame_def build_frame_def same_stream_def split: list.splits)

lemma same_stream_inflate:
  assumes "same_stream a b" "inflate_payload infl a p c = (a1, r)"
  shows "\<exists>b1. inflate_payload infl b p c = (b1, r) \<and> same_stream a1 b1"
  using assms by (auto simp: inflate_payload_def same_stream_def split: if_splits option.splits prod.splits)

lemma finish_agree:
  assumes "same_stream a b" "finish_event infl a op p c = (a1, r)" "op = OPCODE_TEXT \<or> op = OPCODE_BINARY"
  obtains b1 q where "finish_data_message infl b op p c = (b1, q)"
    "(\<exists>e. r = Err e \<and> q = Err e \<and> (same_stream a1 b1 \<or> e = utf8_error)) \<or>
     (\<exists>t. r = Ok (WsText t) \<and> q = Ok (MsgData OPCODE_TEXT (as_bytes t)) \<and> same_stream a1 b1) \<or>
     (\<exists>x. r = Ok (WsBinary x) \<and> q = Ok (MsgData OPCODE_BINARY x) \<and> same_stream a1 b1)"
proof -
  obtain a2 i where a2: "inflate_payload infl a p c = (a2, i)" by fastforce
  from same_stream_inflate [OF assms(1) a2] obtain b2 where b2: "inflate_payload infl b p c = (b2, i)" "same_stream a2 b2" by blast
  show thesis
  proof (cases i)
    case (Inl e)
    with a2 b2 assms(2) show ?thesis by (intro that [of b2 "Inl e"]) (auto simp: finish_event_def finish_data_message_def)
  next
    case (Inr x)
    show ?thesis
    proof (cases "op = OPCODE_TEXT")
      case True
      show ?thesis
      proof (cases "from_utf8 x")
        case None
        with Inr True a2 b2 assms(2) show ?thesis
          by (intro that [of b2 "Err utf8_error"]) (auto simp: finish_event_def finish_data_message_def utf8_error_def)
      next
        case (Some t)
        with Inr True a2 b2 assms(2) show ?thesis
          by (intro that [of b2 "Ok (MsgData OPCODE_TEXT x)"]) (auto simp: finish_event_def finish_data_message_def dest: from_utf8_SomeD)
      qed
    next
      case False
      with Inr a2 b2 assms(2,3) show ?thesis
        by (intro that [of b2 "Ok (MsgData OPCODE_BINARY x)"]) (auto simp: finish_event_def finish_data_message_def)
    qed
  qed
qed

text \<open>One turn of either loop: both go on, or both end with the same outcome.\<close>

definition agree_on :: "'d ws \<Rightarrow> ws_event result option \<Rightarrow> 'd ws \<Rightarrow> oneshot \<Rightarrow> ws_outcome result option \<Rightarrow> bool" where
  "agree_on a r b st q \<longleftrightarrow>
     (q = None \<and> (r = None \<or> (\<exists>p. r = Some (Ok (WsPing p)) \<or> r = Some (Ok (WsPong p)))) \<and> same_stream a b \<and> os_of a st) \<or>
     (\<exists>e. r = Some (Err e) \<and> q = Some (Err e) \<and> (same_stream a b \<or> e = utf8_error)) \<or>
     (\<exists>t. r = Some (Ok (WsText t)) \<and> q = Some (Ok (MsgData OPCODE_TEXT (as_bytes t))) \<and> same_stream a b) \<or>
     (\<exists>x. r = Some (Ok (WsBinary x)) \<and> q = Some (Ok (MsgData OPCODE_BINARY x)) \<and> same_stream a b) \<or>
     (\<exists>c. r = Some (Ok (WsClosed c)) \<and> q = Some (Ok MsgClosed) \<and> same_stream a b)"

lemma agree_on_stop: "same_stream a b \<Longrightarrow> agree_on a (Some (Err e)) b st (Some (Err e))"
  by (simp add: agree_on_def)

lemma same_stream_write: "same_stream a b \<Longrightarrow> same_stream (ws_write a f) (ws_write b f)"
  by (simp add: same_stream_def ws_write_def)

text \<open>Sending the close frame, which the reader does once and the one-shot reader always.\<close>

lemma close_agree:
  assumes "same_stream a b" "\<not> w_send_closed a"
  shows "same_stream (case build_client_frame a op p of (w1, Inl e) \<Rightarrow> w1 | (w1, Inr frame) \<Rightarrow> fst (write_close w1 frame))
    (case build_client_frame b op p of (w1, Inl e) \<Rightarrow> w1 | (w1, Inr close) \<Rightarrow> ws_write w1 close)"
proof -
  obtain a1 r where a1: "build_client_frame a op p = (a1, r)" by fastforce
  from same_stream_build [OF assms(1) this] obtain b1 where
    b1: "build_client_frame b op p = (b1, r)" "same_stream a1 b1" "w_send_closed a1 = w_send_closed a" by blast
  with a1 assms(2) show ?thesis by (cases r) (auto simp: write_close_def same_stream_def ws_write_def)
qed

lemma control_agree:
  assumes "same_stream a b" "os_of a st" "\<not> w_send_closed a" "on_control True a f = (a1, r)" "message_control b f = (b1, q)"
  shows "agree_on a1 r b1 st q"
proof (cases "validate_control_frame f")
  case (Inl e)
  then have "r = Some (Err e) \<and> a1 = a" using assms(4) by (simp add: on_control_def)
  moreover have "q = Some (Err e) \<and> b1 = b" using Inl assms(5) by (auto simp: message_control_def validate_control_frame_def split: if_splits)
  ultimately show ?thesis using assms(1) agree_on_stop by simp
next
  case (Inr u)
  then have v: "\<not> wf_rsv1 f" "wf_fin f" "\<not> length (wf_payload f) > MAX_CONTROL_PAYLOAD" by (auto simp: validate_control_frame_def split: if_splits)
  consider "wf_opcode f = OPCODE_PING" | "wf_opcode f = OPCODE_PONG" | "wf_opcode f = OPCODE_CLOSE"
    | "wf_opcode f \<noteq> OPCODE_PING" "wf_opcode f \<noteq> OPCODE_PONG" "wf_opcode f \<noteq> OPCODE_CLOSE" by blast
  then show ?thesis
  proof cases
    case 1
    obtain a2 x where a2: "build_client_frame a OPCODE_PONG (wf_payload f) = (a2, x)" by fastforce
    from same_stream_build [OF assms(1) this] obtain b2 where
      b2: "build_client_frame b OPCODE_PONG (wf_payload f) = (b2, x)" "same_stream a2 b2" "w_partial a2 = w_partial a" by blast
    show ?thesis
    proof (cases x)
      case (Inl e)
      with 1 a2 b2 v Inr assms(4,5) show ?thesis by (auto simp: on_control_def message_control_def agree_on_def)
    next
      case (Inr pong)
      have "os_of (ws_write a2 pong) st" using assms(2) b2(3) by (simp add: os_of_def ws_write_def)
      with 1 Inr a2 b2 v \<open>validate_control_frame f = Inr u\<close> assms(4,5) same_stream_write [OF b2(2), of pong] show ?thesis
        by (auto simp: on_control_def message_control_def agree_on_def Let_def split: if_splits)
    qed
  next
    case 2
    with v Inr assms show ?thesis by (auto simp: on_control_def message_control_def agree_on_def Let_def split: if_splits)
  next
    case 3
    have s: "same_stream (a\<lparr>w_recv_closed := True\<rparr>) b" "\<not> w_send_closed (a\<lparr>w_recv_closed := True\<rparr>)"
      using assms(1,3) by (simp_all add: same_stream_def)
    obtain x where hc: "handle_close a (wf_payload f) = (a1, x)" "r = Some x"
      using 3 Inr assms(4) by (auto simp: on_control_def Let_def split: prod.splits)
    show ?thesis
    proof (cases "parse_close_payload (wf_payload f)")
      case (Inl status)
      then have "status = CLOSE_PROTOCOL_ERROR \<or> status = CLOSE_INVALID_DATA"
        by (auto simp: parse_close_payload_def Let_def split: if_splits option.splits)
      then obtain p where p: "close_payload status [] = Ok p" by (auto simp: close_payload_def is_valid_close_code_def Let_def)
      from close_agree [OF s, of OPCODE_CLOSE p] Inl p 3 v hc assms(5) show ?thesis
        by (auto simp: handle_close_def message_control_def ws_fail_def agree_on_def Let_def)
    next
      case (Inr close)
      from close_agree [OF s, of OPCODE_CLOSE "close_echo_payload close"] Inr 3 v hc assms(5) show ?thesis
        by (auto simp: handle_close_def message_control_def agree_on_def Let_def)
    qed
  next
    case 4
    with v Inr assms show ?thesis by (auto simp: on_control_def message_control_def agree_on_def Let_def)
  qed
qed

lemma finish_agree_on:
  assumes "same_stream a b" "finish_event infl a op p c = (a1, x)" "op = OPCODE_TEXT \<or> op = OPCODE_BINARY"
    "finish_data_message infl b op p c = (b1, y)"
  shows "agree_on a1 (Some x) b1 st (Some y)"
proof (rule finish_agree [OF assms(1-3)])
  fix b1' q assume "finish_data_message infl b op p c = (b1', q)"
    "(\<exists>e. x = Err e \<and> q = Err e \<and> (same_stream a1 b1' \<or> e = utf8_error)) \<or>
     (\<exists>t. x = Ok (WsText t) \<and> q = Ok (MsgData OPCODE_TEXT (as_bytes t)) \<and> same_stream a1 b1') \<or>
     (\<exists>d. x = Ok (WsBinary d) \<and> q = Ok (MsgData OPCODE_BINARY d) \<and> same_stream a1 b1')"
  with assms(4) show ?thesis by (auto simp: agree_on_def)
qed

definition partial_ok :: "'d ws \<Rightarrow> bool" where
  "partial_ok w \<longleftrightarrow> (case w_partial w of None \<Rightarrow> True | Some pm \<Rightarrow> pm_opcode pm = OPCODE_TEXT \<or> pm_opcode pm = OPCODE_BINARY)"

lemma data_agree:
  assumes "same_stream a b" "os_of a st" "partial_ok a" "wf_wframe f" "on_data infl a f = (a1, r)" "message_data infl b st f = (b1, st1, q)"
  shows "agree_on a1 r b1 st1 q"
proof -
  have pmd: "w_pmd a = w_pmd b" using assms(1) by (simp add: same_stream_def)
  consider "wf_opcode f = OPCODE_TEXT \<or> wf_opcode f = OPCODE_BINARY" | "wf_opcode f = OPCODE_CONT"
    | "wf_opcode f \<noteq> OPCODE_TEXT" "wf_opcode f \<noteq> OPCODE_BINARY" "wf_opcode f \<noteq> OPCODE_CONT" by blast
  then show ?thesis
  proof cases
    case 1
    show ?thesis
    proof (cases "w_partial a")
      case None
      then have st: "os_frag st = None" "\<not> os_compressed st" "os_buf st = []" using assms(2) by (simp_all add: os_of_def)
      show ?thesis
      proof (cases "wf_rsv1 f \<and> w_pmd a = None")
        case True
        with 1 None st pmd assms(1,5,6) show ?thesis by (auto simp: on_data_def message_data_def agree_on_def)
      next
        case False
        have acc: "accumulate [] (wf_payload f) = Ok (wf_payload f)" using assms(4) by (simp add: accumulate_def wf_wframe_def)
        define st' where "st' = (if wf_rsv1 f then st\<lparr>os_compressed := True\<rparr> else st)"
        have st': "os_buf st' = []" "os_compressed st' = wf_rsv1 f" "os_frag st' = None" using st by (simp_all add: st'_def)
        show ?thesis
        proof (cases "wf_fin f")
          case True
          obtain a2 x where x: "finish_event infl a (wf_opcode f) (wf_payload f) (wf_rsv1 f) = (a2, x)" by fastforce
          obtain b2 y where y: "finish_data_message infl b (wf_opcode f) (wf_payload f) (wf_rsv1 f) = (b2, y)" by fastforce
          have "a1 = a2 \<and> r = Some x" using 1 None False True x assms(5) by (auto simp: on_data_def)
          moreover have "b1 = b2 \<and> q = Some y"
            using 1 st False True y assms(6) pmd acc st' unfolding message_data_def Let_def st'_def [symmetric] by auto
          ultimately show ?thesis using finish_agree_on [OF assms(1) x 1 y] by simp
        next
          case nf: False
          have "r = None \<and> a1 = a\<lparr>w_partial := Some \<lparr>pm_opcode = wf_opcode f, pm_compressed = wf_rsv1 f, pm_buf = wf_payload f\<rparr>\<rparr>"
            using 1 None False nf assms(5) by (auto simp: on_data_def)
          moreover have "q = None \<and> b1 = b \<and> st1 = st'\<lparr>os_buf := wf_payload f, os_frag := Some (wf_opcode f)\<rparr>"
            using 1 st False nf assms(6) pmd acc st' unfolding message_data_def Let_def st'_def [symmetric] by auto
          ultimately show ?thesis using assms(1) st' by (simp add: agree_on_def same_stream_def os_of_def)
        qed
      qed
    next
      case (Some pm)
      with 1 assms show ?thesis by (auto simp: on_data_def message_data_def agree_on_def os_of_def)
    qed
  next
    case 2
    show ?thesis
    proof (cases "w_partial a")
      case None
      with 2 assms show ?thesis by (auto simp: on_data_def message_data_def agree_on_def os_of_def)
    next
      case (Some pm)
      then have st: "os_frag st = Some (pm_opcode pm)" "os_compressed st = pm_compressed pm" "os_buf st = pm_buf pm"
        and op: "pm_opcode pm = OPCODE_TEXT \<or> pm_opcode pm = OPCODE_BINARY" using assms(2,3) by (simp_all add: os_of_def partial_ok_def)
      show ?thesis
      proof (cases "accumulate (pm_buf pm) (wf_payload f)")
        case (Inl e)
        with 2 Some st assms(1,5,6) show ?thesis by (auto simp: on_data_def message_data_def agree_on_def split: if_splits)
      next
        case (Inr buf)
        have s': "same_stream (a\<lparr>w_partial := None\<rparr>) b" using assms(1) by (simp add: same_stream_def)
        obtain a2 x where x: "finish_event infl (a\<lparr>w_partial := None\<rparr>) (pm_opcode pm) buf (pm_compressed pm) = (a2, x)" by fastforce
        obtain b2 y where y: "finish_data_message infl b (pm_opcode pm) buf (pm_compressed pm) = (b2, y)" by fastforce
        show ?thesis
          using 2 Some st Inr x y assms(1,5,6) finish_agree_on [OF s' x op y]
          by (cases "wf_rsv1 f"; cases "wf_fin f") (auto simp: on_data_def message_data_def agree_on_def same_stream_def os_of_def)
      qed
    qed
  next
    case 3
    with assms show ?thesis by (auto simp: on_data_def message_data_def agree_on_def)
  qed
qed

lemma on_frame_partial_ok:
  assumes "on_frame infl ap a f = (a1, r)" "partial_ok a" "r = None \<or> (\<exists>p. r = Some (Ok (WsPing p)) \<or> r = Some (Ok (WsPong p)))"
  shows "partial_ok a1"
proof (cases "wf_opcode f \<ge> 8")
  case True
  have b: "w_partial w1 = w_partial a" if "build_client_frame a op p = (w1, q)" for op p w1 q
    using that by (auto simp: build_client_frame_def build_frame_def split: list.splits)
  have h: "\<nexists>p. snd (handle_close a pl) = Ok (WsPing p) \<or> snd (handle_close a pl) = Ok (WsPong p)" for pl
    by (auto simp: handle_close_def Let_def split: sum.splits)
  have "w_partial a1 = w_partial a"
    using True assms(1,3) b h
    by (auto simp: on_frame_def on_control_def Let_def ws_write_def split: sum.splits if_splits prod.splits) (metis snd_conv)+
  with assms(2) show ?thesis by (simp add: partial_ok_def)
next
  case False
  have f: "\<nexists>p. q = Ok (WsPing p) \<or> q = Ok (WsPong p)" if "finish_event infl v op pl cm = (w1, q)" for v op pl cm w1 q
    using that by (auto simp: finish_event_def split: prod.splits sum.splits if_splits option.splits)
  show ?thesis
    using False assms f by (auto simp: on_frame_def on_data_def partial_ok_def split: sum.splits if_splits prod.splits option.splits) blast+
qed

lemma frame_agree:
  assumes "same_stream a b" "os_of a st" "partial_ok a" "wf_wframe f" "\<not> w_send_closed a"
    "on_frame infl True a f = (a1, r)" "message_turn infl b st f = (b1, st1, q)"
  shows "agree_on a1 r b1 st1 q"
  using assms control_agree [OF assms(1,2,5)] data_agree [OF assms(1-4)]
  by (auto simp: on_frame_def message_turn_def split: if_splits prod.splits)

lemma read_wframe_wf: "read_wframe rx s = (Inr f, rx', s') \<Longrightarrow> wf_wframe f"
proof (induction s arbitrary: rx)
  case Nil
  then show ?case by (subst (asm) read_wframe.simps) (auto dest: try_parse_frame_OkD split: sum.splits option.splits)
next
  case (Cons e s)
  then show ?case
    by (subst (asm) (2) read_wframe.simps) (auto dest: try_parse_frame_OkD split: sum.splits option.splits read_ev.splits if_splits)
qed

lemma readers_agree_from:
  assumes "same_stream a b" "os_of a st" "partial_ok a" "\<not> w_send_closed a" "\<not> w_recv_closed a"
    "recv infl a = (a', r)" "message_loop infl b st = (b', q)"
  shows "same_outcome r q \<and> (same_stream a' b' \<or> r = Err utf8_error)"
  using assms
proof (induction "pending_bytes a" arbitrary: a b st rule: less_induct)
  case less
  obtain x rx s where x: "read_wframe (w_rx a) (w_in a) = (x, rx, s)" by (metis prod_cases3)
  define a1 b1 where "a1 = a\<lparr>w_rx := rx, w_in := s\<rparr>" and "b1 = b\<lparr>w_rx := rx, w_in := s\<rparr>"
  have s1: "same_stream a1 b1" "os_of a1 st" "partial_ok a1" "\<not> w_send_closed a1" "\<not> w_recv_closed a1"
    using less.prems(1-5) by (simp_all add: same_stream_def os_of_def partial_ok_def a1_def b1_def)
  have pb: "pull_wframe b = (b1, x)" using x less.prems(1) by (simp add: pull_wframe_def same_stream_def b1_def)
  show ?case
  proof (cases x)
    case (Inl e)
    then have "r = Err e" "a' = (if e = UnexpectedEof then a1\<lparr>w_recv_closed := True\<rparr> else a1)"
      using recv_loop [OF less.prems(5), of infl] x less.prems(6) by (simp_all add: next_wframe_def Let_def a1_def)
    moreover have "q = Err e \<and> b' = b1" using Inl pb less.prems(7) by (simp add: message_loop.simps [of infl b st])
    ultimately show ?thesis using s1(1) by (auto simp: same_outcome_def same_stream_def)
  next
    case (Inr f)
    have nf: "next_wframe a = (a1, Ok f)" using x Inr by (simp add: next_wframe_def a1_def)
    obtain a2 y where y: "on_frame infl True a1 f = (a2, y)" by fastforce
    obtain b2 st2 z where z: "message_turn infl b1 st f = (b2, st2, z)" by (metis prod_cases3)
    have ag: "agree_on a2 y b2 st2 z" using frame_agree [OF s1(1-3) _ s1(4) y z] read_wframe_wf x Inr by blast
    show ?thesis
    proof (cases z)
      case None
      then have y': "y = None \<or> (\<exists>p. y = Some (Ok (WsPing p)) \<or> y = Some (Ok (WsPong p)))" and s2: "same_stream a2 b2" "os_of a2 st2"
        using ag by (auto simp: agree_on_def)
      have c2: "\<not> w_send_closed a2" "\<not> w_recv_closed a2" using on_frame_continue [OF y y'] s1(4,5) by auto
      have "recv infl a2 = (a', r)" using recv_loop [OF less.prems(5), of infl] nf y y' less.prems(6) by auto
      moreover have "message_loop infl b2 st2 = (b', q)" using pb Inr z None less.prems(7) by (simp add: message_loop.simps [of infl b st])
      moreover have "pending_bytes a2 < pending_bytes a" using next_wframe_bytes [OF nf] on_frame_bytes [OF y] by simp
      ultimately show ?thesis using less.hyps [OF _ s2 on_frame_partial_ok [OF y s1(3) y'] c2] by blast
    next
      case (Some z')
      have "message_loop infl b st = (b2, z')" using pb Inr z Some by (simp add: message_loop.simps [of infl b st])
      with ag Some recv_loop [OF less.prems(5), of infl] nf y less.prems(6,7) show ?thesis
        by (auto simp: agree_on_def same_outcome_def)
    qed
  qed
qed

text \<open>
  (C14) The persistent and the one-shot reader agree: on any input whatsoever, from a fresh connection, they return the same message, the same
  close or the same error, having read the same bytes and written the same frames; the one exception is a text
  message that is not UTF-8, where the persistent reader also sends a close frame.
\<close>

theorem ws_readers_agree:
  assumes "w_partial w = None" "\<not> w_send_closed w" "\<not> w_recv_closed w" "recv infl w = (a, r)" "ws_read_message infl w = (b, q)"
  shows "same_outcome r q \<and> (same_stream a b \<or> r = Err utf8_error)"
  by (rule readers_agree_from [of w w "\<lparr>os_frag = None, os_compressed = False, os_buf = []\<rparr>" infl])
    (use assms in \<open>simp_all add: same_stream_def os_of_def partial_ok_def ws_read_message_def\<close>)

theorem ws_readers_agree_witness:
  "same_outcome (snd (recv (\<lambda>d p. (d, Ok p)) demo_ws)) (snd (ws_read_message (\<lambda>d p. (d, Ok p)) demo_ws))"
  by (rule ws_readers_agree [of demo_ws "\<lambda>d p. (d, Ok p)", THEN conjunct1]) (simp_all add: demo_ws_def prod_eq_iff)

end
