(* ===== verification/Ws_Close.thy ===== *)
theory Ws_Close
  imports Ws_Readers
begin

text \<open>
  What a WebSocket client puts on the wire around closing, whatever the peer sends and whatever the application calls.
\<close>

section \<open>Frames on the wire\<close>

definition frame_opcode :: "bytes \<Rightarrow> byte" where
  "frame_opcode b = hd b AND 0x0F"

abbreviation is_close_frame :: "bytes \<Rightarrow> bool" where
  "is_close_frame b \<equiv> frame_opcode b = OPCODE_CLOSE"

abbreviation is_pong_frame :: "bytes \<Rightarrow> bool" where
  "is_pong_frame b \<equiv> frame_opcode b = OPCODE_PONG"

lemma client_frame_opcode: "op < 16 \<Longrightarrow> frame_opcode (build_client_frame_inner rnd fin op p r) = op"
  by (simp add: frame_opcode_def build_client_frame_inner_def Let_def head_byte_bits)

text \<open>What an operation may write: frames while open, one close frame that shuts the sending side, and pongs.\<close>

inductive emits :: "'d ws \<Rightarrow> 'd ws \<Rightarrow> bool" where
  none: "w_out w' = w_out w \<Longrightarrow> w_send_closed w' = w_send_closed w \<Longrightarrow> emits w w'"
| frame: "emits w v \<Longrightarrow> \<not> w_send_closed v \<Longrightarrow> \<not> is_close_frame b \<Longrightarrow> w_out w' = w_out v @ [b] \<Longrightarrow> \<not> w_send_closed w' \<Longrightarrow> emits w w'"
| close: "emits w v \<Longrightarrow> \<not> w_send_closed v \<Longrightarrow> is_close_frame b \<Longrightarrow> w_out w' = w_out v @ [b] \<Longrightarrow> w_send_closed w' \<Longrightarrow> emits w w'"
| pong: "emits w v \<Longrightarrow> is_pong_frame b \<Longrightarrow> w_out w' = w_out v @ [b] \<Longrightarrow> w_send_closed w' = w_send_closed v \<Longrightarrow> emits w w'"

lemma emits_refl [simp]: "emits w w"
  by (rule emits.none) simp_all

lemma emits_same: "emits w v \<Longrightarrow> w_out v' = w_out v \<Longrightarrow> w_send_closed v' = w_send_closed v \<Longrightarrow> emits w v'"
  by (induction rule: emits.induct) (auto intro: emits.intros)

lemma emits_trans: "emits v w \<Longrightarrow> emits u v \<Longrightarrow> emits u w"
  by (induction rule: emits.induct) (auto intro: emits.intros emits_same)

section \<open>Every operation\<close>

lemma build_frame_emits: "build_frame w fin op p r = (w', q) \<Longrightarrow>
    w_out w' = w_out w \<and> w_send_closed w' = w_send_closed w \<and> (op < 16 \<longrightarrow> (\<forall>b. q = Ok b \<longrightarrow> frame_opcode b = op))"
  by (auto simp: build_frame_def client_frame_opcode split: list.splits)

lemma send_built_emits:
  assumes "send_built (build_frame w fin op p r) = (w', q)" "op < 16" "op \<noteq> OPCODE_CLOSE"
  shows "emits w w'"
proof -
  obtain w1 x where b: "build_frame w fin op p r = (w1, x)" by fastforce
  note e = build_frame_emits [OF b]
  have w1: "emits w w1" using e by (intro emits.none) simp_all
  show ?thesis
  proof (cases x)
    case (Inl er)
    with assms(1) b w1 show ?thesis by (simp add: send_built_def)
  next
    case (Inr frame)
    with assms(2,3) e have "\<not> is_close_frame frame" by simp
    with assms(1) b w1 Inr show ?thesis
      by (auto simp: send_built_def write_unless_closed_def ws_write_def split: if_splits intro: emits.frame)
  qed
qed

lemma write_close_emits:
  assumes "build_frame w fin OPCODE_CLOSE p r = (w1, Ok frame)"
  shows "emits w (fst (write_close w1 frame))"
proof -
  have e: "w_out w1 = w_out w" "w_send_closed w1 = w_send_closed w" "is_close_frame frame"
    using build_frame_emits [OF assms] by (simp_all add: word_less_nat_alt)
  show ?thesis
  proof (cases "w_send_closed w1")
    case True
    with e show ?thesis by (simp add: write_close_def emits.none)
  next
    case False
    have w: "emits w w1" using e by (intro emits.none) simp_all
    show ?thesis by (rule emits.close [OF w False e(3)]) (use False in \<open>simp_all add: write_close_def ws_write_def\<close>)
  qed
qed

lemma close_case_emits:
  "emits w (case build_client_frame w OPCODE_CLOSE p of (w1, Inl e) \<Rightarrow> w1 | (w1, Inr frame) \<Rightarrow> fst (write_close w1 frame))"
proof -
  obtain w1 x where b: "build_client_frame w OPCODE_CLOSE p = (w1, x)" by fastforce
  then have b': "build_frame w True OPCODE_CLOSE p False = (w1, x)" by (simp add: build_client_frame_def)
  show ?thesis
  proof (cases x)
    case (Inl e)
    with b build_frame_emits [OF b'] show ?thesis by (simp add: emits.none)
  next
    case (Inr frame)
    with b write_close_emits b' show ?thesis by simp
  qed
qed

lemma send_close_built_emits: "send_close_built (build_frame w fin OPCODE_CLOSE p r) = (w', q) \<Longrightarrow> emits w w'"
proof -
  assume s: "send_close_built (build_frame w fin OPCODE_CLOSE p r) = (w', q)"
  obtain w1 x where b: "build_frame w fin OPCODE_CLOSE p r = (w1, x)" by fastforce
  show ?thesis
  proof (cases x)
    case (Inl e)
    with s b build_frame_emits [OF b] show ?thesis by (auto simp: send_close_built_def intro: emits.none)
  next
    case (Inr frame)
    with s b write_close_emits show ?thesis by (auto simp: send_close_built_def)
  qed
qed

lemma ws_fail_emits: "emits w (ws_fail w st)"
  using close_case_emits by (auto simp: ws_fail_def split: sum.split)

lemma handle_close_emits: "handle_close w p = (w', r) \<Longrightarrow> emits w w'"
proof -
  assume h: "handle_close w p = (w', r)"
  have "emits (w\<lparr>w_recv_closed := True\<rparr>) w'"
    using h close_case_emits [of "w\<lparr>w_recv_closed := True\<rparr>"] ws_fail_emits [of "w\<lparr>w_recv_closed := True\<rparr>"]
    by (auto simp: handle_close_def Let_def split: sum.splits)
  then show ?thesis by (rule emits_trans) (simp add: emits.none)
qed

lemma finish_event_emits: "finish_event infl w op p c = (w', r) \<Longrightarrow> emits w w'"
proof -
  assume f: "finish_event infl w op p c = (w', r)"
  obtain w1 q where i: "inflate_payload infl w p c = (w1, q)" by fastforce
  have "w' = w1 \<or> w' = ws_fail w1 CLOSE_INVALID_DATA"
    using f i by (auto simp: finish_event_def split: sum.splits if_splits option.splits)
  moreover have "emits w w1" using i by (auto simp: inflate_payload_def split: if_splits option.splits prod.splits intro!: emits.none)
  ultimately show ?thesis using ws_fail_emits emits_trans by blast
qed

lemma on_control_emits: "on_control ap w f = (w', r) \<Longrightarrow> emits w w'"
proof -
  assume c: "on_control ap w f = (w', r)"
  obtain w1 q where b: "build_client_frame w OPCODE_PONG (wf_payload f) = (w1, q)" by fastforce
  then have b': "build_frame w True OPCODE_PONG (wf_payload f) False = (w1, q)" by (simp add: build_client_frame_def)
  note e = build_frame_emits [OF b']
  have w1: "emits w w1" using e by (intro emits.none) simp_all
  have wp: "emits w (ws_write w1 pong)" if "q = Ok pong" for pong
    by (rule emits.pong [OF w1, of pong]) (use e that in \<open>simp_all add: ws_write_def word_less_nat_alt\<close>)
  obtain w2 q2 where h: "handle_close w (wf_payload f) = (w2, q2)" by fastforce
  have "w' = w \<or> w' = w1 \<or> (\<exists>p. q = Ok p \<and> w' = ws_write w1 p) \<or> w' = w2"
    using c b h by (auto simp: on_control_def Let_def split: sum.splits if_splits)
  then show ?thesis using w1 wp handle_close_emits [OF h] by auto
qed

lemma on_data_emits: "on_data infl w f = (w', r) \<Longrightarrow> emits w w'"
proof -
  assume d: "on_data infl w f = (w', r)"
  have "w' = w \<or> (\<exists>pm. w' = w\<lparr>w_partial := pm\<rparr>) \<or> (\<exists>op p c q. finish_event infl w op p c = (w', q)) \<or>
      (\<exists>op p c q. finish_event infl (w\<lparr>w_partial := None\<rparr>) op p c = (w', q))"
    using d by (auto simp: on_data_def split: sum.splits if_splits option.splits prod.splits)
  moreover have "emits w (w\<lparr>w_partial := pm\<rparr>)" for pm by (simp add: emits.none)
  ultimately show ?thesis using finish_event_emits emits_trans by (metis emits_refl)
qed

lemma next_wframe_emits: "next_wframe w = (w', r) \<Longrightarrow> emits w w'"
  by (auto simp: next_wframe_def Let_def split: prod.splits sum.splits if_splits intro!: emits.none)

lemma on_frame_emits: "on_frame infl ap w f = (w', r) \<Longrightarrow> emits w w'"
  using on_control_emits on_data_emits by (auto simp: on_frame_def split: if_splits)

lemma event_loop_emits: "event_loop infl ap w = (w', r) \<Longrightarrow> emits w w'"
proof (induction infl ap w rule: event_loop.induct)
  case (1 infl ap w)
  obtain w1 x where n: "next_wframe w = (w1, x)" by fastforce
  show ?case
  proof (cases x)
    case (Inl e)
    with "1.prems" n next_wframe_emits show ?thesis by (auto simp: event_loop.simps [of infl ap w])
  next
    case (Inr f)
    obtain w2 q where o: "on_frame infl ap w1 f = (w2, q)" by fastforce
    have e: "emits w w2" using emits_trans [OF on_frame_emits [OF o] next_wframe_emits [OF n]] .
    show ?thesis
    proof (cases q)
      case None
      then have "event_loop infl ap w2 = (w', r)" using "1.prems" n Inr o by (simp add: event_loop.simps [of infl ap w])
      from "1.IH" [OF n [symmetric] Inr o [symmetric] None this] e show ?thesis by (rule emits_trans)
    qed (use "1.prems" n Inr o e in \<open>simp add: event_loop.simps [of infl ap w]\<close>)
  qed
qed

lemma next_event_emits: "next_event infl ap w = (w', r) \<Longrightarrow> emits w w'"
  by (auto simp: next_event_def dest: event_loop_emits split: if_splits)

lemma recv_emits: "recv infl w = (w', r) \<Longrightarrow> emits w w'"
proof (induction infl w rule: recv.induct)
  case (1 infl w)
  obtain w1 x where n: "next_event infl True w = (w1, x)" by fastforce
  note e = next_event_emits [OF n]
  show ?case
  proof (cases x)
    case (Inl er)
    with "1.prems" n e show ?thesis by (simp add: recv.simps [of infl w])
  next
    case (Inr ev)
    show ?thesis
    proof (cases "\<exists>p. ev = WsPing p \<or> ev = WsPong p")
      case True
      then have "recv infl w1 = (w', r)" using "1.prems" n Inr by (auto simp: recv.simps [of infl w])
      with True "1.IH" n Inr have "emits w1 w'" by metis
      then show ?thesis using e by (rule emits_trans)
    next
      case False
      with "1.prems" n Inr e show ?thesis by (auto simp: recv.simps [of infl w] split: ws_event.splits)
    qed
  qed
qed

lemma stream_loop_emits:
  assumes "stream_loop op first cur src w = (w', r)" "op = OPCODE_TEXT \<or> op = OPCODE_BINARY"
  shows "emits w w'"
  using assms
proof (induction op first cur src w rule: stream_loop.induct)
  case (1 op first cur src w)
  obtain rc src' where rc: "read_chunk STREAM_CHUNK [] src = (rc, src')" by fastforce
  show ?case
  proof (cases rc)
    case (Inl e)
    with rc "1.prems"(1) show ?thesis by (simp add: stream_loop.simps [of op first cur src w])
  next
    case (Inr nxt)
    with rc have c: "read_chunk STREAM_CHUNK [] src = (Inr nxt, src')" by simp
    define o' where "o' = (if first then op else OPCODE_CONT)"
    have o': "o' < 16" "o' \<noteq> OPCODE_CLOSE" using "1.prems"(2) by (auto simp: o'_def word_less_nat_alt)
    obtain w1 x where b: "send_built (build_frame w (nxt = []) o' cur False) = (w1, x)" by fastforce
    note e = send_built_emits [OF b o']
    show ?thesis
    proof (cases "(\<exists>e. x = Inl e) \<or> nxt = []")
      case True
      with "1.prems"(1) c b e show ?thesis by (auto simp: stream_loop.simps [of op first cur src w] o'_def [symmetric] split: sum.splits)
    next
      case False
      then obtain u where x: "x = Inr u" "nxt \<noteq> []" by (cases x) auto
      then have "stream_loop op False nxt src' w1 = (w', r)"
        using "1.prems"(1) c b by (simp add: stream_loop.simps [of op first cur src w] o'_def [symmetric])
      then have "emits w1 w'" using "1.IH" [OF c [symmetric] refl refl refl] c b x "1.prems"(2) by (simp add: o'_def)
      then show ?thesis using e by (rule emits_trans)
    qed
  qed
qed

lemma build_data_frame_emits:
  assumes "send_built (build_data_frame compress w op p) = (w', r)"
  shows "emits w w'"
proof (cases "op = OPCODE_TEXT \<or> op = OPCODE_BINARY")
  case True
  then have op: "op < 16" "op \<noteq> OPCODE_CLOSE" by (auto simp: word_less_nat_alt)
  show ?thesis
  proof (cases "w_compress w")
    case False
    with True assms send_built_emits [OF _ op] show ?thesis by (auto simp: build_data_frame_def build_client_frame_def)
  next
    case c: True
    with True assms send_built_emits [OF _ op] show ?thesis
      by (cases "deflate_message compress p") (auto simp: build_data_frame_def send_built_def)
  qed
qed (use assms in \<open>simp add: build_data_frame_def send_built_def\<close>)

lemma send_control_emits: "send_control w op p = (w', r) \<Longrightarrow> op < 16 \<Longrightarrow> op \<noteq> OPCODE_CLOSE \<Longrightarrow> emits w w'"
  by (auto simp: send_control_def build_client_frame_def split: sum.splits dest: send_built_emits)

lemma to_u8_less: "to_u8 op < 16" "to_u8 op = OPCODE_CLOSE \<longleftrightarrow> op = OpClose"
  by (cases op; simp add: word_less_nat_alt)+

lemma send_frame_emits: "send_frame w fin op p = (w', r) \<Longrightarrow> emits w w'"
  using send_built_emits [of w fin "to_u8 op" p False w' r] send_close_built_emits [of w fin p False w' r] to_u8_less [of op]
  by (auto simp: send_frame_def split: sum.splits if_splits)

section \<open>Any sequence of operations\<close>

text \<open>The reachable states: input arrives, the application calls any operation of reader and writer.\<close>

inductive ws_reach :: "'d inflater \<Rightarrow> (bytes \<Rightarrow> bytes result) \<Rightarrow> 'd ws \<Rightarrow> bool" for infl compress where
  fresh: "w_out w = [] \<Longrightarrow> \<not> w_send_closed w \<Longrightarrow> ws_reach infl compress w"
| arrive: "ws_reach infl compress w \<Longrightarrow> ws_reach infl compress (w\<lparr>w_in := w_in w @ s\<rparr>)"
| recv: "ws_reach infl compress w \<Longrightarrow> recv infl w = (w', r) \<Longrightarrow> ws_reach infl compress w'"
| recv_event: "ws_reach infl compress w \<Longrightarrow> recv_event infl w = (w', e) \<Longrightarrow> ws_reach infl compress w'"
| recv_frame: "ws_reach infl compress w \<Longrightarrow> recv_frame w = (w', f) \<Longrightarrow> ws_reach infl compress w'"
| send_text: "ws_reach infl compress w \<Longrightarrow> send_text compress w t = (w', u) \<Longrightarrow> ws_reach infl compress w'"
| send_binary: "ws_reach infl compress w \<Longrightarrow> send_binary compress w d = (w', u) \<Longrightarrow> ws_reach infl compress w'"
| send_stream: "ws_reach infl compress w \<Longrightarrow> send_stream_inner op src w = (w', u) \<Longrightarrow> ws_reach infl compress w'"
| ping: "ws_reach infl compress w \<Longrightarrow> ws_ping w p = (w', u) \<Longrightarrow> ws_reach infl compress w'"
| pong: "ws_reach infl compress w \<Longrightarrow> send_pong w p = (w', u) \<Longrightarrow> ws_reach infl compress w'"
| frame: "ws_reach infl compress w \<Longrightarrow> send_frame w fin opc p = (w', u) \<Longrightarrow> ws_reach infl compress w'"
| close: "ws_reach infl compress w \<Longrightarrow> ws_send_close w = (w', u) \<Longrightarrow> ws_reach infl compress w'"
| close_with: "ws_reach infl compress w \<Longrightarrow> close_with w code reason = (w', u) \<Longrightarrow> ws_reach infl compress w'"

definition close_inv :: "'d ws \<Rightarrow> bool" where
  "close_inv w \<longleftrightarrow>
     (if w_send_closed w
      then \<exists>pre c post. w_out w = pre @ c # post \<and> is_close_frame c \<and> (\<forall>b\<in>set pre. \<not> is_close_frame b) \<and> (\<forall>b\<in>set post. is_pong_frame b)
      else \<forall>b\<in>set (w_out w). \<not> is_close_frame b)"

lemma emits_close_inv: "emits w w' \<Longrightarrow> close_inv w \<Longrightarrow> close_inv w'"
proof (induction rule: emits.induct)
  case (close w v b w')
  have n: "\<forall>b\<in>set (w_out v). \<not> is_close_frame b" using close.IH [OF close.prems] close.hyps(2) by (simp add: close_inv_def)
  have "w_out w' = w_out v @ b # []" using close.hyps(4) by simp
  moreover have "\<forall>b\<in>set ([] :: bytes list). is_pong_frame b" by simp
  ultimately show ?case using n close.hyps(3,5) unfolding close_inv_def by (simp only: if_True) blast
next
  case (pong w v b w')
  show ?case
  proof (cases "w_send_closed v")
    case True
    have "close_inv v" using pong.IH pong.prems by blast
    with True obtain pre c post where p: "w_out v = pre @ c # post" "is_close_frame c" "\<forall>b\<in>set pre. \<not> is_close_frame b" "\<forall>b\<in>set post. is_pong_frame b"
      by (auto simp: close_inv_def)
    then have "w_out w' = pre @ c # (post @ [b])" "\<forall>b\<in>set (post @ [b]). is_pong_frame b" using pong.hyps by auto
    with True pong.hyps(4) p(2,3) show ?thesis unfolding close_inv_def by (simp only: if_True) blast
  next
    case False
    moreover have "close_inv v" using pong.IH pong.prems by blast
    ultimately show ?thesis using pong.hyps by (auto simp: close_inv_def)
  qed
next
  case (frame w v b w')
  then have "close_inv v" by blast
  with frame.hyps show ?case by (auto simp: close_inv_def)
next
  case (none w' w)
  then show ?case by (simp add: close_inv_def)
qed

lemma ws_reach_close_inv: "ws_reach infl compress w \<Longrightarrow> close_inv w"
proof (induction rule: ws_reach.induct)
  case (recv_frame w w' f)
  then have "emits w w'" by (auto simp: recv_frame_def split: prod.splits sum.splits dest: next_wframe_emits)
  with recv_frame show ?case using emits_close_inv by blast
next
  case (send_stream w op src w' u)
  have "emits w w'"
  proof (cases "op = OPCODE_TEXT \<or> op = OPCODE_BINARY")
    case True
    with send_stream(2) show ?thesis by (auto simp: send_stream_inner_def split: prod.splits sum.splits dest: stream_loop_emits)
  next
    case False
    with send_stream(2) show ?thesis by (simp add: send_stream_inner_def)
  qed
  with send_stream show ?case using emits_close_inv by blast
next
  case (ping w p w' u)
  have "emits w w'" using send_control_emits [of w OPCODE_PING p w' u] ping(2) by (simp add: ws_ping_def word_less_nat_alt)
  with ping show ?case using emits_close_inv by blast
next
  case (pong w p w' u)
  have "emits w w'" using send_control_emits [of w OPCODE_PONG p w' u] pong(2) by (simp add: send_pong_def word_less_nat_alt)
  with pong show ?case using emits_close_inv by blast
next
  case (close_with w code reason w' u)
  then have "emits w w'" by (auto simp: close_with_def build_client_frame_def split: sum.splits dest: send_close_built_emits)
  with close_with show ?case using emits_close_inv by blast
next
  case (arrive w s)
  then show ?case by (simp add: close_inv_def)
next
  case (fresh w)
  then show ?case by (simp add: close_inv_def)
qed (auto simp: recv_event_def send_text_def send_binary_def ws_send_close_def build_client_frame_def
      intro: emits_close_inv dest: recv_emits next_event_emits build_data_frame_emits send_frame_emits send_close_built_emits)

text \<open>
  (C16) Closing is orderly: whatever the peer sends and whatever the application calls, in any order, the client never sends two close frames, and
  nothing but automatic pongs follows its close frame on the wire.
\<close>

theorem ws_close_once:
  assumes "ws_reach infl compress w"
  shows "length (filter is_close_frame (w_out w)) \<le> 1 \<and>
    (\<forall>pre c post. w_out w = pre @ c # post \<longrightarrow> is_close_frame c \<longrightarrow> list_all is_pong_frame post)"
proof (cases "w_send_closed w")
  case True
  then obtain pre c post where p: "w_out w = pre @ c # post" "is_close_frame c" "\<forall>b\<in>set pre. \<not> is_close_frame b" "\<forall>b\<in>set post. is_pong_frame b"
    using ws_reach_close_inv [OF assms] by (auto simp: close_inv_def)
  have np: "\<forall>b\<in>set post. \<not> is_close_frame b" using p(4) by auto
  have "list_all is_pong_frame post'" if "w_out w = pre' @ c' # post'" "is_close_frame c'" for pre' c' post'
  proof -
    have "pre @ c # post = pre' @ c' # post'" using that(1) p(1) by simp
    moreover have "c' \<notin> set pre" "c' \<notin> set post" "c \<notin> set post" using p(3) np that(2) p(2) by auto
    ultimately have "post = post'" by (auto simp: append_eq_append_conv2 Cons_eq_append_conv append_eq_Cons_conv)
    with p(4) show ?thesis by (simp add: list_all_iff)
  qed
  moreover have "filter is_close_frame (w_out w) = [c]" using p np by (simp add: filter_empty_conv)
  ultimately show ?thesis by simp
next
  case False
  then have n: "\<forall>b\<in>set (w_out w). \<not> is_close_frame b" using ws_reach_close_inv [OF assms] by (simp add: close_inv_def)
  then have "filter is_close_frame (w_out w) = []" by (simp add: filter_empty_conv)
  with n show ?thesis by auto
qed

text \<open>The exception is real: a ping that arrives after the client has closed is still answered, since only \<open>recv_closed\<close> is looked at.\<close>

lemma recv_event_answers_ping:
  assumes "holds w (server_frame f @ bs) s" "wf_wframe f" "ping_or_pong f" "wf_opcode f = OPCODE_PING" "\<not> w_recv_closed w" "w_partial w = None"
    "w_auto_pong w" "w_rng w = k # ks"
  shows "w_out (fst (recv_event infl w)) = w_out w @ [build_client_frame_inner k True OPCODE_PONG (wf_payload f) False]"
proof -
  obtain rx i where n: "next_wframe w = (w\<lparr>w_rx := rx, w_in := i\<rparr>, Ok f)" using next_wframe_holds [OF assms(1,2)] by blast
  have "validate_control_frame f = Ok ()" using assms(3) by (simp add: validate_control_frame_def ping_or_pong_def)
  then show ?thesis using n assms(4-8)
    by (simp add: recv_event_def next_event_def event_loop.simps [of infl _ w] on_frame_def on_control_def Let_def build_client_frame_def build_frame_def
        ws_write_def)
qed

definition demo_closing :: "unit ws" where
  "demo_closing = fst (ws_send_close (demo_ws\<lparr>w_in := [Chunk (server_frame demo_ping)]\<rparr>))"

theorem ws_close_once_witness:
  "length (filter is_close_frame (w_out (fst (recv_event (\<lambda>d p. (d, Ok p)) demo_closing)))) \<le> 1"
proof -
  let ?infl = "\<lambda>(d :: unit) (p :: bytes). (d, Ok p :: bytes result)"
  have "ws_reach ?infl (\<lambda>p. Ok p) (demo_ws\<lparr>w_in := [Chunk (server_frame demo_ping)]\<rparr>)"
    by (rule ws_reach.fresh) (simp_all add: demo_ws_def)
  then have "ws_reach ?infl (\<lambda>p. Ok p) demo_closing" unfolding demo_closing_def by (rule ws_reach.close) (rule prod.collapse [symmetric])
  then have "ws_reach ?infl (\<lambda>p. Ok p) (fst (recv_event ?infl demo_closing))" by (rule ws_reach.recv_event) (rule prod.collapse [symmetric])
  from ws_close_once [OF this] show ?thesis by blast
qed

end
