(* ===== verification/Ws_Stream.thy ===== *)
theory Ws_Stream
  imports Ws_Close
begin

text \<open>
  Sending a message from a source: however the source delivers its bytes, \<open>send_stream\<close> cuts them into one well-formed
  fragmented message that a server puts back together.
\<close>

section \<open>Reading the source\<close>

text \<open>A source that delivers: reads may be short or interrupted, but none fails before the end.\<close>

fun steady :: "read_ev list \<Rightarrow> bool" where
  "steady [] = True"
| "steady (Chunk c # s) = (c \<noteq> [] \<and> steady s)"
| "steady (ReadErr k # s) = (k = IoInterrupted \<and> steady s)"

fun src_bytes :: "read_ev list \<Rightarrow> bytes" where
  "src_bytes [] = []"
| "src_bytes (Chunk c # s) = c @ src_bytes s"
| "src_bytes (ReadErr k # s) = src_bytes s"

lemma read_chunk_steady:
  assumes "steady s" "length buf \<le> cap"
  shows "\<exists>s'. read_chunk cap buf s = (Ok (take cap (buf @ src_bytes s)), s') \<and> steady s' \<and> src_bytes s' = drop cap (buf @ src_bytes s)"
  using assms
proof (induction s arbitrary: buf rule: steady.induct)
  case 1
  then show ?case by (simp add: read_chunk_Nil)
next
  case (2 c s)
  show ?case
  proof (cases "length buf = cap")
    case True
    with 2 show ?thesis by (simp add: read_chunk_full)
  next
    case room: False
    with 2 have lt: "length buf < cap" by simp
    show ?thesis
    proof (cases "length c \<le> cap - length buf")
      case True
      with lt "2.prems" "2.IH" [of "buf @ c"] show ?thesis by (simp add: read_chunk_short)
    next
      case False
      with lt "2.prems" show ?thesis by (simp add: read_chunk_long)
    qed
  qed
next
  case (3 k s)
  show ?case
  proof (cases "length buf = cap")
    case True
    with 3 show ?thesis by (simp add: read_chunk_full)
  next
    case False
    with 3 show ?thesis by (simp add: read_chunk_err)
  qed
qed

section \<open>Cutting a message\<close>

function cut_every :: "nat \<Rightarrow> bytes \<Rightarrow> bytes list" where
  "cut_every n bs = (if n = 0 \<or> length bs \<le> n then [bs] else take n bs # cut_every n (drop n bs))"
  by pat_completeness auto
termination
  by (relation "measure (\<lambda>(n, bs). length bs)") auto

declare cut_every.simps [simp del]

lemma cut_every_concat [simp]: "concat (cut_every n bs) = bs"
  by (induction n bs rule: cut_every.induct) (subst cut_every.simps, simp)

lemma cut_every_not_Nil [simp]: "cut_every n bs \<noteq> []"
  by (subst cut_every.simps) simp

lemma cut_every_sizes: "0 < n \<Longrightarrow> p \<in> set (cut_every n bs) \<Longrightarrow> length p \<le> n"
  by (induction n bs rule: cut_every.induct) (subst (asm) (2) cut_every.simps, auto split: if_splits)

abbreviation plain_fragments :: "byte \<Rightarrow> bytes list \<Rightarrow> wframe list" where
  "plain_fragments op ps \<equiv> fragments op (map (Pair []) ps)"

lemma send_built_open:
  assumes "\<not> w_send_closed w" "w_rng w = k # ks"
  shows "send_built (build_frame w fin op p False) =
    (w\<lparr>w_rng := ks, w_out := w_out w @ [build_client_frame_inner k fin op p False]\<rparr>, Ok ())"
  using assms by (simp add: send_built_def build_frame_def write_unless_closed_def ws_write_def)

lemma stream_loop_fragments:
  assumes "op < 16" "steady s" "\<not> w_send_closed w" "list_all (\<lambda>k. length k = 16) (w_rng w)"
    "cur = take STREAM_CHUNK d" "src_bytes s = drop STREAM_CHUNK d" "length (cut_every STREAM_CHUNK d) \<le> length (w_rng w)"
  shows "\<exists>w' bufs. stream_loop op first cur s w = (w', Ok ()) \<and> w_out w' = w_out w @ bufs \<and>
    map server_parse bufs = map (\<lambda>f. Some (f, [])) (plain_fragments (if first then op else OPCODE_CONT) (cut_every STREAM_CHUNK d))"
  using assms
proof (induction "length d" arbitrary: d first cur s w rule: less_induct)
  case less
  let ?op = "if first then op else OPCODE_CONT"
  obtain k ks where rng: "w_rng w = k # ks" using less.prems(7) by (cases "w_rng w") simp_all
  have k: "length k = 16" "list_all (\<lambda>k. length k = 16) ks" using less.prems(4) rng by simp_all
  have op: "?op < 16" using less.prems(1) by (simp add: word_less_nat_alt)
  obtain s' where rc: "read_chunk STREAM_CHUNK [] s = (Ok (take STREAM_CHUNK (src_bytes s)), s')" "steady s'"
      "src_bytes s' = drop STREAM_CHUNK (src_bytes s)"
    using read_chunk_steady [OF less.prems(2), of "[]" STREAM_CHUNK] by auto
  define w1 where "w1 fin = w\<lparr>w_rng := ks, w_out := w_out w @ [build_client_frame_inner k fin ?op cur False]\<rparr>" for fin
  have sent: "send_built (build_frame w fin ?op cur False) = (w1 fin, Ok ())" for fin
    unfolding w1_def by (rule send_built_open [OF less.prems(3) rng])
  have cl: "length cur < 2 ^ 63" unfolding less.prems(5) by (rule le_less_trans [of _ STREAM_CHUNK]) simp_all
  have parse: "server_parse (build_client_frame_inner k fin ?op cur False) =
      Some (\<lparr>wf_fin = fin, wf_rsv1 = False, wf_opcode = ?op, wf_payload = cur\<rparr>, [])" for fin
    using server_parse_client_frame [of ?op cur k fin False "[]", OF op cl] k(1) by simp
  show ?case
  proof (cases "length d \<le> STREAM_CHUNK")
    case True
    then have "stream_loop op first cur s w = (w1 True, Ok ())"
      using rc(1) less.prems(6) sent [of True] by (simp add: stream_loop.simps [of op first cur s w])
    moreover have "cut_every STREAM_CHUNK d = [d]" "cur = d" using True less.prems(5) by (simp_all add: cut_every.simps [of _ d])
    ultimately show ?thesis using parse [of True] by (simp add: w1_def)
  next
    case False
    let ?d = "drop STREAM_CHUNK d"
    have ct: "cut_every STREAM_CHUNK d = cur # cut_every STREAM_CHUNK ?d" using False less.prems(5) by (simp add: cut_every.simps [of _ d])
    have loop: "stream_loop op first cur s w = stream_loop op False (take STREAM_CHUNK ?d) s' (w1 False)"
      using False rc(1) less.prems(6) sent [of False] by (simp add: stream_loop.simps [of op first cur s w])
    have opn: "\<not> w_send_closed (w1 False)" "list_all (\<lambda>k. length k = 16) (w_rng (w1 False))" using less.prems(3) k(2) by (simp_all add: w1_def)
    have left: "src_bytes s' = drop STREAM_CHUNK ?d" using rc(3) less.prems(6) by simp
    have enough: "length (cut_every STREAM_CHUNK ?d) \<le> length (w_rng (w1 False))" using less.prems(7) ct rng by (simp add: w1_def)
    have shorter: "length ?d < length d" using False by simp
    obtain w' bufs where ih: "stream_loop op False (take STREAM_CHUNK ?d) s' (w1 False) = (w', Ok ())" "w_out w' = w_out (w1 False) @ bufs"
        "map server_parse bufs = map (\<lambda>f. Some (f, [])) (plain_fragments OPCODE_CONT (cut_every STREAM_CHUNK ?d))"
      using less.hyps [OF shorter less.prems(1) rc(2) opn refl left enough, of False] by auto
    obtain q qs where "cut_every STREAM_CHUNK ?d = q # qs" by (cases "cut_every STREAM_CHUNK ?d") simp_all
    then have "plain_fragments ?op (cut_every STREAM_CHUNK d) =
        \<lparr>wf_fin = False, wf_rsv1 = False, wf_opcode = ?op, wf_payload = cur\<rparr> # plain_fragments OPCODE_CONT (cut_every STREAM_CHUNK ?d)"
      using ct by simp
    then show ?thesis using loop ih parse [of False]
      by (intro exI [of _ w'] exI [of _ "build_client_frame_inner k False ?op cur False # bufs"]) (simp add: w1_def)
  qed
qed

text \<open>
  A streamed message arrives whole: however the source delivers its bytes (short reads, interrupted reads), the client writes
  one frame per 64 KiB chunk, each of which a server parses exactly, and the frames form one fragmented message: the data opcode first,
  continuations after it, FIN on the last frame alone, and the payloads put together are the source.
\<close>

theorem ws_send_stream_fragments:
  assumes "op = OPCODE_TEXT \<or> op = OPCODE_BINARY" "steady src" "\<not> w_send_closed w" "list_all (\<lambda>k. length k = 16) (w_rng w)"
    "length (cut_every STREAM_CHUNK (src_bytes src)) \<le> length (w_rng w)"
  shows "\<exists>w' bufs ps. send_stream_inner op src w = (w', Ok ()) \<and> w_out w' = w_out w @ bufs \<and>
    map server_parse bufs = map (\<lambda>f. Some (f, [])) (plain_fragments op ps) \<and> concat ps = src_bytes src \<and> list_all (\<lambda>p. length p \<le> STREAM_CHUNK) ps"
proof -
  obtain s' where rc: "read_chunk STREAM_CHUNK [] src = (Ok (take STREAM_CHUNK (src_bytes src)), s')" "steady s'"
      "src_bytes s' = drop STREAM_CHUNK (src_bytes src)"
    using read_chunk_steady [OF assms(2), of "[]" STREAM_CHUNK] by auto
  have op: "op < 16" using assms(1) by (auto simp: word_less_nat_alt)
  obtain w' bufs where "stream_loop op True (take STREAM_CHUNK (src_bytes src)) s' w = (w', Ok ())" "w_out w' = w_out w @ bufs"
      "map server_parse bufs = map (\<lambda>f. Some (f, [])) (plain_fragments op (cut_every STREAM_CHUNK (src_bytes src)))"
    using stream_loop_fragments [OF op rc(2) assms(3,4) refl rc(3) assms(5), of True] by auto
  moreover have "list_all (\<lambda>p. length p \<le> STREAM_CHUNK) (cut_every STREAM_CHUNK (src_bytes src))"
    using cut_every_sizes [of STREAM_CHUNK] by (auto simp: list_all_iff)
  ultimately show ?thesis using rc(1) assms(1)
    by (intro exI [of _ w'] exI [of _ bufs] exI [of _ "cut_every STREAM_CHUNK (src_bytes src)"]) (auto simp: send_stream_inner_def)
qed

theorem ws_send_stream_fragments_witness:
  "\<exists>w' bufs ps. send_stream_inner OPCODE_BINARY [Chunk [1, 2], ReadErr IoInterrupted, Chunk [3]] demo_ws = (w', Ok ()) \<and>
    w_out w' = w_out demo_ws @ bufs \<and> map server_parse bufs = map (\<lambda>f. Some (f, [])) (plain_fragments OPCODE_BINARY ps) \<and>
    concat ps = [1, 2, 3] \<and> list_all (\<lambda>p. length p \<le> STREAM_CHUNK) ps"
  using ws_send_stream_fragments [of OPCODE_BINARY "[Chunk [1, 2], ReadErr IoInterrupted, Chunk [3]]" demo_ws]
  by (simp add: demo_ws_def cut_every.simps [of _ "[1, 2, 3]"])

end
