(* ===== verification/Ws_Open.thy ===== *)
theory Ws_Open
  imports Ws_Upgrade Ws_Stream
begin

text \<open>
  The handshake with a conforming server: the request is the lines it should be, whatever the URL and the subprotocols, and the reply completes
  the handshake with the stream left at the first frame.
\<close>

section \<open>Lines\<close>

lemma split_crlf_append: "split_crlf (a @ CHR 0x0D # CHR 0x0A # c) = split_crlf a @ split_crlf c"
proof (induction a rule: split_crlf.induct)
  case (2 x)
  then show ?case by simp
next
  case (3 x y s)
  obtain p ps where "split_crlf (y # s) = p # ps" by (cases "split_crlf (y # s)") auto
  with 3 show ?case by auto
qed simp

definition one_line :: "string \<Rightarrow> bool" where
  "one_line p \<longleftrightarrow> CHR 0x0D \<notin> set p"

lemma split_crlf_plain: "one_line p \<Longrightarrow> split_crlf p = [p]"
  by (induction p rule: split_crlf.induct) (auto simp: one_line_def)

lemma split_crlf_line: "one_line p \<Longrightarrow> split_crlf (p @ CHR 0x0D # CHR 0x0A # c) = p # split_crlf c"
  by (simp add: split_crlf_append split_crlf_plain)

definition crlf_lines :: "string list \<Rightarrow> string" where
  "crlf_lines ls = concat (map (\<lambda>l. l @ CR_LF) ls)"

lemma crlf_lines_simps [simp]: "crlf_lines [] = []" "crlf_lines (l # ls) = l @ CHR 0x0D # CHR 0x0A # crlf_lines ls"
  by (simp_all add: crlf_lines_def)

lemma crlf_lines_append: "crlf_lines (ls @ ms) = crlf_lines ls @ crlf_lines ms"
  by (simp add: crlf_lines_def)

lemma split_crlf_lines: "list_all one_line ls \<Longrightarrow> split_crlf (crlf_lines ls @ c) = ls @ split_crlf c"
  by (induction ls) (simp_all add: split_crlf_line)

text \<open>A blank line ends a head: there is no earlier one.\<close>

lemma no_earlier_blank:
  assumes "list_all (\<lambda>l. one_line l \<and> l \<noteq> []) ls" "crlf_lines ls @ CR_LF = a @ CR_LF @ CR_LF @ b"
  shows "b = []"
proof -
  have "split_crlf (crlf_lines ls @ CHR 0x0D # CHR 0x0A # []) = ls @ [[], []]"
    using assms(1) split_crlf_lines [of ls "CR_LF"] by (simp add: list_all_iff)
  then have eq: "ls @ [[], []] = split_crlf a @ [] # split_crlf b"
    using assms(2) split_crlf_append [of a "CHR 0x0D # CHR 0x0A # b"] split_crlf_append [of "[]" b] by simp
  have ne: "[] \<notin> set ls" using assms(1) by (auto simp: list_all_iff)
  have "\<not> length (split_crlf a) < length ls"
  proof
    assume "length (split_crlf a) < length ls"
    then have "ls ! length (split_crlf a) = []" using arg_cong [OF eq, of "\<lambda>xs. xs ! length (split_crlf a)"] by (simp add: nth_append)
    with ne \<open>length (split_crlf a) < length ls\<close> show False by (metis nth_mem)
  qed
  moreover have "length ls + 2 = length (split_crlf a) + 1 + length (split_crlf b)" using arg_cong [OF eq, of length] by simp
  moreover have "0 < length (split_crlf b)" by simp
  ultimately have "length (split_crlf a) = length ls" by linarith
  with eq have "split_crlf b = [[]]" by (auto simp: append_eq_append_conv)
  then show ?thesis
  proof (cases b rule: split_crlf.cases)
    case (3 c d s)
    with \<open>split_crlf b = [[]]\<close> show ?thesis by (auto split: if_splits list.splits)
  qed auto
qed

section \<open>The request\<close>

lemma proto_loop_Ok:
  "proto_loop i h ps = Ok h' \<longleftrightarrow> list_all is_http_token ps \<and>
     h' = h @ (if ps = [] then [] else if i > 0 then '', '' @ comma_join ps else comma_join ps)"
proof (induction i h ps rule: proto_loop.induct)
  case (2 i h p ps)
  then show ?case by (cases ps) auto
qed auto

lemma token_chars:
  assumes "is_http_token p"
  shows "\<forall>c\<in>set p. 0x20 < (of_char c :: nat) \<and> (of_char c :: nat) < 0x7F \<and> c \<noteq> CHR '',''"
  using assms by (auto simp: is_http_token_def list_all_iff is_ascii_alphanumeric_def is_ascii_digit_def is_ascii_lowercase_def is_ascii_uppercase_def)

lemma one_lineI: "\<forall>c\<in>set p. 0x20 \<le> (of_char c :: nat) \<Longrightarrow> one_line p"
  by (force simp: one_line_def)

lemma comma_join_chars: "\<forall>p\<in>set ps. \<forall>c\<in>set p. 0x20 < (of_char c :: nat) \<Longrightarrow> \<forall>c\<in>set (comma_join ps). 0x20 \<le> (of_char c :: nat)"
  by (induction ps rule: comma_join.induct) (auto simp: less_imp_le)

lemma b64_char_bounds:
  assumes "b64_char c"
  shows "0x20 < (of_char c :: nat) \<and> (of_char c :: nat) < 0x7F \<and> c \<noteq> CHR '',''"
proof -
  have "unat (byte_of_char c) = of_char c" using of_char_bound [of c] by (simp add: byte_of_char_def unat_of_nat)
  moreover have "c = CHR '','' \<Longrightarrow> byte_of_char c = 0x2C" by (simp add: byte_of_char_def)
  ultimately show ?thesis using assms by (auto simp: b64_char_def b64_val_def word_le_nat_alt split: if_splits)
qed

lemma base64_bounds: "\<forall>c\<in>set (base64_encode x). 0x20 < (of_char c :: nat) \<and> (of_char c :: nat) < 0x7F \<and> c \<noteq> CHR '',''"
  using base64_encode_chars [of x] b64_char_bounds by (auto simp: list_all_iff)

definition request_lines :: "url \<Rightarrow> bytes \<Rightarrow> string list \<Rightarrow> string list" where
  "request_lines u nonce ps =
     [''GET '' @ u_path u @ '' HTTP/1.1'',
      ''Host: '' @ u_host u @ (if default_port (u_scheme u) = Some (u_port u) then [] else '':'' @ show_nat (u_port u)),
      ''Upgrade: websocket'', ''Connection: Upgrade'', ''Sec-WebSocket-Key: '' @ base64_encode nonce, ''Sec-WebSocket-Version: 13'',
      ''Sec-WebSocket-Extensions: '' @ PMD_OFFER] @ (if ps = [] then [] else [''Sec-WebSocket-Protocol: '' @ comma_join ps])"

lemma upgrade_request_eq:
  assumes "u_scheme u = ''ws'' \<or> u_scheme u = ''wss''" "u_path u \<noteq> []" "subprotocol_header ps = Ok h"
  shows "upgrade_request u (base64_encode nonce) (Some PMD_OFFER) h = crlf_lines (request_lines u nonce ps) @ CR_LF"
proof -
  have h: "h = (if ps = [] then [] else ''Sec-WebSocket-Protocol: '' @ comma_join ps @ CR_LF)"
    using assms(3) by (auto simp: subprotocol_header_def proto_loop_Ok split: if_splits sum.splits)
  show ?thesis using assms(1,2)
    by (auto simp: upgrade_request_def Let_def request_lines_def default_port_def h)
qed

lemma request_lines_ok:
  assumes "url_parse s = Ok u" "u_scheme u = ''ws'' \<or> u_scheme u = ''wss''" "subprotocol_header ps = Ok h"
  shows "list_all one_line (request_lines u nonce ps)" "u_path u \<noteq> []"
proof -
  have f: "u_scheme u \<noteq> ''file''" using assms(2) by auto
  have u: "\<forall>c\<in>set (u_host u). \<not> forbidden_char c" "\<forall>c\<in>set (u_path u). \<not> forbidden_char c" "starts_with ''/'' (u_path u)"
    using url_parse_base_ok [OF assms(1) f] by (auto simp: base_ok_def clean_path_def list_all_iff list_ex_iff)
  then show "u_path u \<noteq> []" by (auto simp: starts_with_def)
  have clean: "one_line p" if "\<forall>c\<in>set p. \<not> forbidden_char c" for p
    using that by (intro one_lineI) (auto simp: forbidden_char_def not_less)
  have tok: "list_all is_http_token ps" using assms(3) by (auto simp: subprotocol_header_def proto_loop_Ok split: if_splits sum.splits)
  have protos: "one_line (comma_join ps)"
    by (rule one_lineI, rule comma_join_chars) (use tok token_chars in \<open>auto simp: list_all_iff\<close>)
  have key: "one_line (base64_encode nonce)" by (rule one_lineI) (use base64_bounds [of nonce] in \<open>auto simp: less_imp_le\<close>)
  have port: "one_line (show_nat (u_port u))"
    by (rule one_lineI) (use show_nat_digits [of "u_port u"] in \<open>auto simp: list_all_iff is_ascii_digit_def\<close>)
  show "list_all one_line (request_lines u nonce ps)"
    using clean [OF u(1)] clean [OF u(2)] protos key port by (simp add: request_lines_def one_line_def PMD_OFFER_def)
qed

text \<open>
  (C18) Nothing can be injected into the upgrade request: for every URL the parser accepts and every list of subprotocols that is accepted, the
  request is exactly its eight or fewer lines and the blank line, whatever bytes the URL and the subprotocols were made of, and the offered subprotocols are
  tokens.
\<close>

theorem ws_upgrade_request_lines:
  assumes "url_parse s = Ok u" "u_scheme u = ''ws'' \<or> u_scheme u = ''wss''" "subprotocol_header ps = Ok h"
  shows "split_crlf (upgrade_request u (base64_encode nonce) (Some PMD_OFFER) h) = request_lines u nonce ps @ [[], []] \<and> list_all is_http_token ps"
proof -
  note r = request_lines_ok [OF assms]
  have "split_crlf (crlf_lines (request_lines u nonce ps) @ CR_LF) = request_lines u nonce ps @ [[], []]"
    using split_crlf_lines [OF r(1)] by simp
  moreover have "list_all is_http_token ps" using assms(3) by (auto simp: subprotocol_header_def proto_loop_Ok split: if_splits sum.splits)
  ultimately show ?thesis using upgrade_request_eq [OF assms(2) r(2) assms(3)] by simp
qed

definition demo_ws_url :: url where
  "demo_ws_url = \<lparr>u_scheme = ''ws'', u_userinfo = None, u_host = ''h'', u_port = 80, u_path = ''/b''\<rparr>"

lemma demo_ws_url_parse: "url_parse ''ws://h/b'' = Ok demo_ws_url"
  by (simp add: url_parse_def split_once_str_def to_ascii_lowercase_char_def is_ascii_uppercase_def Let_def
      split_authority_def url_delim_def request_path_def strip_fragment_def remove_dot_segments_def split_query_def
      dot_seg_def default_port_def split_user_def rposition_def split_hostport_def reject_forbidden_def starts_with_def
      forbidden_char_def check_userinfo_def demo_ws_url_def)

lemma demo_protos: "subprotocol_header [''chat'', ''mqtt''] = Ok (''Sec-WebSocket-Protocol: chat, mqtt'' @ CR_LF)"
  by (simp add: subprotocol_header_def is_http_token_def is_ascii_alphanumeric_def is_ascii_lowercase_def)

theorem ws_upgrade_request_lines_witness:
  "split_crlf (upgrade_request demo_ws_url (base64_encode [1, 2]) (Some PMD_OFFER) (''Sec-WebSocket-Protocol: chat, mqtt'' @ CR_LF)) =
    request_lines demo_ws_url [1, 2] [''chat'', ''mqtt''] @ [[], []] \<and> list_all is_http_token [''chat'', ''mqtt'']"
  by (rule ws_upgrade_request_lines [OF demo_ws_url_parse _ demo_protos]) (simp add: demo_ws_url_def)

section \<open>Reading the reply\<close>

abbreviation (input) BLANK :: bytes where "BLANK \<equiv> [0x0D, 0x0A, 0x0D, 0x0A]"

lemma head_loop_reads:
  assumes "chunks_ok cs" "buf @ concat cs = h @ rest" "length buf < length h" "length h \<le> 64 * 1024" "4 \<le> length h \<and> drop (length h - 4) h = BLANK"
    "\<And>n. n < length h \<Longrightarrow> \<not> (4 \<le> n \<and> drop (n - 4) (take n h) = BLANK)"
  shows "\<exists>cs'. head_loop (\<lambda>_. False) buf (map Chunk cs @ s) = (Ok h, map Chunk cs' @ s) \<and> concat cs' = rest \<and> chunks_ok cs'"
  using assms(1-3)
proof (induction "length h - length buf" arbitrary: buf cs rule: less_induct)
  case less
  obtain b c cs0 where cs: "cs = (b # c) # cs0"
  proof (cases cs)
    case Nil
    with less.prems(2,3) have "length buf = length h + length rest" by (metis append_Nil2 concat.simps(1) length_append)
    with less.prems(3) show ?thesis by simp
  next
    case (Cons x cs0)
    with less.prems(1) that show ?thesis by (cases x) (auto simp: chunks_ok_def)
  qed
  define cs1 where "cs1 = (if c = [] then cs0 else c # cs0)"
  have cs1: "chunks_ok cs1" "concat cs1 = c @ concat cs0" "(if c = [] then map Chunk cs0 @ s else Chunk c # map Chunk cs0 @ s) = map Chunk cs1 @ s"
    using less.prems(1) cs by (auto simp: cs1_def chunks_ok_def)
  have eq: "(buf @ [b]) @ concat cs1 = h @ rest" using less.prems(2) cs cs1(2) by simp
  have pre: "buf @ [b] = take (Suc (length buf)) h" using arg_cong [OF eq, of "take (Suc (length buf))"] less.prems(3) by simp
  show ?case
  proof (cases "Suc (length buf) = length h")
    case True
    then have "buf @ [b] = h" "concat cs1 = rest" using pre eq by auto
    then show ?thesis using assms(5) cs cs1 by (intro exI [of _ cs1]) (simp add: head_loop.simps [of _ buf] Let_def)
  next
    case False
    with less.prems(3) have lt: "length (buf @ [b]) < length h" by simp
    have nb: "\<not> (4 \<le> length (buf @ [b]) \<and> drop (length (buf @ [b]) - 4) (buf @ [b]) = BLANK)"
    proof -
      have "take (length (buf @ [b])) h = buf @ [b]" using pre by (metis length_append_singleton)
      then show ?thesis using assms(6) [OF lt] by metis
    qed
    have "head_loop (\<lambda>_. False) buf (map Chunk cs @ s) = head_loop (\<lambda>_. False) (buf @ [b]) (map Chunk cs1 @ s)"
      unfolding head_loop.simps [of _ buf] using nb lt assms(4) cs cs1(3) by (simp add: Let_def) auto
    moreover have "length h - length (buf @ [b]) < length h - length buf" using less.prems(3) by simp
    ultimately show ?thesis using less.hyps [OF _ cs1(1) eq lt] by simp
  qed
qed

lemma blank_as_bytes: "as_bytes (CR_LF @ CR_LF) = BLANK"
  by (simp add: byte_of_char_def)

lemma reply_head_read:
  assumes "list_all (\<lambda>l. one_line l \<and> l \<noteq> []) ls" "ls \<noteq> []" "h = as_bytes (crlf_lines ls @ CR_LF)" "length h \<le> 64 * 1024" "chunks_ok cs" "concat cs = h @ rest"
  shows "\<exists>cs'. read_handshake_head (\<lambda>_. False) (map Chunk cs @ s) = (Ok h, map Chunk cs' @ s) \<and> concat cs' = rest \<and> chunks_ok cs'"
  unfolding read_handshake_head_def
proof (rule head_loop_reads [OF assms(5)])
  obtain ms l where "ls = ms @ [l]" using assms(2) by (cases ls rule: rev_cases) auto
  then have h: "h = as_bytes (crlf_lines ms @ l) @ BLANK" using assms(3) blank_as_bytes by (simp add: crlf_lines_append as_bytes_def)
  then show "4 \<le> length h \<and> drop (length h - 4) h = BLANK" "length [] < length h" by simp_all
  show "[] @ concat cs = h @ rest" "length h \<le> 64 * 1024" using assms(4,6) by simp_all
  show "\<not> (4 \<le> n \<and> drop (n - 4) (take n h) = BLANK)" if "n < length h" for n
  proof
    assume n: "4 \<le> n \<and> drop (n - 4) (take n h) = BLANK"
    define a b where "a = map char_of_byte (take (n - 4) h)" and "b = map char_of_byte (drop n h)"
    have "h = take (n - 4) h @ drop (n - 4) (take n h) @ drop n h"
      using n by (metis append.assoc append_take_drop_id diff_le_self min.absorb1 take_take)
    moreover have "as_bytes a = take (n - 4) h" "as_bytes b = drop n h" by (simp_all add: a_def b_def as_bytes_def o_def)
    ultimately have "h = as_bytes (a @ CR_LF @ CR_LF @ b)"
      using n blank_as_bytes by (metis (no_types) append.assoc as_bytes_simps(3))
    then have "as_bytes (crlf_lines ls @ CR_LF) = as_bytes (a @ CR_LF @ CR_LF @ b)" using assms(3) by simp
    then have "crlf_lines ls @ CR_LF = a @ CR_LF @ CR_LF @ b" by (simp only: as_bytes_eq_iff)
    from no_earlier_blank [OF assms(1) this] have "b = []" .
    with that show False by (simp add: b_def)
  qed
qed

section \<open>A conforming server\<close>

definition plain_char :: "char \<Rightarrow> bool" where
  "plain_char c \<longleftrightarrow> 0x20 < (of_char c :: nat) \<and> (of_char c :: nat) < 0x7F"

lemma unat_byte_of_char [simp]: "unat (byte_of_char c) = of_char c"
  using of_char_bound [of c] by (simp add: byte_of_char_def unat_of_nat)

lemma plain_byte: "plain_char c \<Longrightarrow> 0x20 < byte_of_char c \<and> byte_of_char c < 0x7F"
  by (simp add: plain_char_def word_less_nat_alt)

lemma ws_char_plain_hd: "plain_char c \<Longrightarrow> \<not> ws_char (c # s)"
proof
  assume c: "plain_char c" "ws_char (c # s)"
  define b where "b = byte_of_char c"
  have "0x20 < b" "b < 0x7F" using plain_byte [OF c(1)] by (simp_all add: b_def)
  with c(2) show False by (auto simp: ws_char_def Let_def b_def [symmetric] word_le_nat_alt word_less_nat_alt)
qed

lemma ws_char_plain_last:
  assumes "plain_char (List.last s)" "s \<noteq> []"
  shows "\<not> ws_char s"
proof -
  have "List.last (as_bytes s) = byte_of_char (List.last s)" using assms(2) by (simp add: as_bytes_def last_map)
  then have l: "0x20 < List.last (as_bytes s)" "List.last (as_bytes s) < 0x7F" using plain_byte [OF assms(1)] by simp_all
  have three: "List.last bs = bs ! 2" if "length bs = 3" for bs :: bytes using that by (cases bs rule: rev_cases) (auto simp: nth_append)
  show ?thesis
  proof
    assume "ws_char s"
    then show False using l three [of "as_bytes s"]
      by (auto simp: ws_char_def Let_def word_le_nat_alt word_less_nat_alt)
  qed
qed

lemma trim_plain:
  assumes "p \<noteq> []" "plain_char (hd p)" "plain_char (List.last p)"
  shows "trim p = p" "trim (CHR 0x20 # p) = p"
proof -
  obtain c q where p: "p = c # q" "plain_char c" using assms by (cases p) auto
  have f: "ws_front p = 0" using ws_char_plain_hd [OF p(2)] p(1) by (simp add: ws_front_def)
  have sp: "ws_char [CHR 0x20]" by (simp add: ws_char_def byte_of_char_def)
  have bk: "\<not> ws_char (drop k p)" if "k < length p" for k
    using ws_char_plain_last [of "drop k p"] assms(3) that by simp
  have "ws_back p = 0"
    using bk [of "length p - 1"] bk [of "length p - 2"] bk [of "length p - 3"] assms(1) by (simp add: ws_back_def)
  then have en: "trim_end p = p" by (subst trim_end.simps) simp
  show "trim p = p" using f en by (simp add: trim_def trim_start.simps [of p])
  have "ws_front (CHR 0x20 # p) = 1" using sp by (simp add: ws_front_def)
  then have "trim_start (CHR 0x20 # p) = trim_start p" by (subst trim_start.simps) simp
  then show "trim (CHR 0x20 # p) = p" using f en by (simp add: trim_def trim_start.simps [of p])
qed

lemma split_once_first: "x \<notin> set a \<Longrightarrow> split_once x (a @ x # b) = Some (a, b)"
proof -
  assume "x \<notin> set a"
  then have "\<forall>c\<in>set a. c \<noteq> x" by auto
  then have "position (\<lambda>c. c = x) (a @ x # b) = Some (length a)" using position_append_hit [of a "\<lambda>c. c = x" x b] by simp
  then show ?thesis by (simp add: split_once_def)
qed

text \<open>A field line with a plain name and value.\<close>

definition plain_text :: "string \<Rightarrow> bool" where
  "plain_text p \<longleftrightarrow> p \<noteq> [] \<and> plain_char (hd p) \<and> plain_char (List.last p)"

lemma fields_of_line:
  assumes "plain_text k" "CHR '':'' \<notin> set k" "plain_text v"
  shows "fields_of ((k @ '': '' @ v) # ls) = (k, v) # fields_of ls"
  using assms split_once_first [of "CHR '':''" k "CHR 0x20 # v"] trim_plain [of k] trim_plain [of v] by (auto simp: plain_text_def)

definition reply_lines :: "(bytes \<Rightarrow> bytes) \<Rightarrow> bytes \<Rightarrow> string option \<Rightarrow> string list" where
  "reply_lines sha1 nonce proto =
     [''HTTP/1.1 101 Switching Protocols'', ''Upgrade'' @ '': '' @ ''websocket'', ''Connection'' @ '': '' @ ''Upgrade'',
      ''Sec-WebSocket-Accept'' @ '': '' @ derive_accept sha1 (base64_encode nonce)] @
     (case proto of None \<Rightarrow> [] | Some p \<Rightarrow> [''Sec-WebSocket-Protocol'' @ '': '' @ p]) @ [''Sec-WebSocket-Extensions'' @ '': '' @ PMD_OFFER]"

lemma plain_texts:
  "plain_text ''Upgrade''" "plain_text ''websocket''" "plain_text ''Connection''" "plain_text ''Sec-WebSocket-Accept''"
  "plain_text ''Sec-WebSocket-Protocol''" "plain_text ''Sec-WebSocket-Extensions''" "plain_text PMD_OFFER"
  by (simp_all add: plain_text_def plain_char_def PMD_OFFER_def)

lemma plain_textI: "p \<noteq> [] \<Longrightarrow> \<forall>c\<in>set p. plain_char c \<Longrightarrow> plain_text p"
  by (simp add: plain_text_def)

lemma derive_accept_plain:
  assumes "sha1 (as_bytes (base64_encode nonce) @ as_bytes WS_GUID) \<noteq> []"
  shows "plain_text (derive_accept sha1 (base64_encode nonce))"
proof (rule plain_textI)
  show "derive_accept sha1 (base64_encode nonce) \<noteq> []"
    using assms by (simp add: derive_accept_def base64_encode_not_Nil)
qed (use base64_bounds in \<open>auto simp: derive_accept_def plain_char_def\<close>)

lemma reply_lines_ok:
  assumes "case proto of None \<Rightarrow> True | Some p \<Rightarrow> is_http_token p"
  shows "list_all (\<lambda>l. one_line l \<and> l \<noteq> []) (reply_lines sha1 nonce proto)" "\<forall>l\<in>set (reply_lines sha1 nonce proto). \<forall>c\<in>set l. (of_char c :: nat) < 0x80"
proof -
  have acc: "\<forall>c\<in>set (derive_accept sha1 (base64_encode nonce)). 0x20 < (of_char c :: nat) \<and> (of_char c :: nat) < 0x7F"
    using base64_bounds by (auto simp: derive_accept_def)
  then have "one_line (derive_accept sha1 (base64_encode nonce))" by (intro one_lineI) (auto simp: less_imp_le)
  moreover have "one_line p" if "proto = Some p" for p
    by (rule one_lineI) (use assms that token_chars in \<open>auto simp: less_imp_le\<close>)
  ultimately show "list_all (\<lambda>l. one_line l \<and> l \<noteq> []) (reply_lines sha1 nonce proto)"
    by (cases proto) (simp_all add: reply_lines_def one_line_def PMD_OFFER_def)
  have "\<forall>c\<in>set p. (of_char c :: nat) < 0x80" if "proto = Some p" for p
    using assms that token_chars [of p] by fastforce
  moreover have "\<forall>c\<in>set (derive_accept sha1 (base64_encode nonce)). (of_char c :: nat) < 0x80" using acc by fastforce
  ultimately show "\<forall>l\<in>set (reply_lines sha1 nonce proto). \<forall>c\<in>set l. (of_char c :: nat) < 0x80"
    by (cases proto) (simp_all add: reply_lines_def PMD_OFFER_def)
qed

lemma reply_fields:
  assumes "sha1 (as_bytes (base64_encode nonce) @ as_bytes WS_GUID) \<noteq> []" "case proto of None \<Rightarrow> True | Some p \<Rightarrow> is_http_token p"
  shows "fields_of (tl (reply_lines sha1 nonce proto) @ [[], []]) =
    [(''Upgrade'', ''websocket''), (''Connection'', ''Upgrade''), (''Sec-WebSocket-Accept'', derive_accept sha1 (base64_encode nonce))] @
    (case proto of None \<Rightarrow> [] | Some p \<Rightarrow> [(''Sec-WebSocket-Protocol'', p)]) @ [(''Sec-WebSocket-Extensions'', PMD_OFFER)]"
proof -
  have tok: "plain_text p" if "proto = Some p" for p
  proof (rule plain_textI)
    show "p \<noteq> []" using assms(2) that by (simp add: is_http_token_def)
    show "\<forall>c\<in>set p. plain_char c" using assms(2) that token_chars [of p] by (simp add: plain_char_def)
  qed
  have line: "fields_of ((''Upgrade'' @ '': '' @ ''websocket'') # ls) = (''Upgrade'', ''websocket'') # fields_of ls"
    "fields_of ((''Connection'' @ '': '' @ ''Upgrade'') # ls) = (''Connection'', ''Upgrade'') # fields_of ls"
    "fields_of ((''Sec-WebSocket-Accept'' @ '': '' @ derive_accept sha1 (base64_encode nonce)) # ls) =
      (''Sec-WebSocket-Accept'', derive_accept sha1 (base64_encode nonce)) # fields_of ls"
    "fields_of ((''Sec-WebSocket-Extensions'' @ '': '' @ PMD_OFFER) # ls) = (''Sec-WebSocket-Extensions'', PMD_OFFER) # fields_of ls" for ls
    by (rule fields_of_line; simp add: plain_texts derive_accept_plain [of sha1 nonce, OF assms(1)])+
  have proto: "fields_of ((''Sec-WebSocket-Protocol'' @ '': '' @ p) # ls) = (''Sec-WebSocket-Protocol'', p) # fields_of ls" if "proto = Some p" for p ls
    by (rule fields_of_line) (simp_all add: plain_texts tok [OF that])
  have blank: "fields_of ([] # ls) = []" for ls by simp
  show ?thesis using line proto by (cases proto) (simp_all add: reply_lines_def blank del: fields_of.simps(2))
qed

lemma reply_check:
  assumes "sha1 (as_bytes (base64_encode nonce) @ as_bytes WS_GUID) \<noteq> []" "proto = None \<or> (\<exists>p. proto = Some p \<and> p \<in> set ps)" "list_all is_http_token ps"
  shows "check_handshake_response sha1 (as_bytes (crlf_lines (reply_lines sha1 nonce proto) @ CR_LF)) (base64_encode nonce) ps =
    Ok \<lparr>hr_extensions = Some PMD_OFFER, hr_subprotocol = proto\<rparr>"
proof -
  have tok: "case proto of None \<Rightarrow> True | Some p \<Rightarrow> is_http_token p" using assms(2,3) by (auto simp: list_all_iff)
  note ok = reply_lines_ok [OF tok, of sha1 nonce]
  let ?head = "crlf_lines (reply_lines sha1 nonce proto) @ CR_LF"
  have "\<forall>c\<in>set ?head. (of_char c :: nat) < 0x80" using ok(2) by (auto simp: crlf_lines_def)
  then have "utf8_valid (as_bytes ?head)"
    by (intro utf8_valid_ascii) (auto simp: as_bytes_def word_less_nat_alt)
  then have utf8: "from_utf8 (as_bytes ?head) = Some ?head" by (simp only: from_utf8_as_bytes is_str_def)
  have lines: "split_crlf ?head = hd (reply_lines sha1 nonce proto) # (tl (reply_lines sha1 nonce proto) @ [[], []])"
    using split_crlf_lines [of "reply_lines sha1 nonce proto" CR_LF] ok(1) by (simp add: list_all_iff reply_lines_def)
  have status: "take 2 (split_on CHR '' '' (hd (reply_lines sha1 nonce proto))) = [''HTTP/1.1'', ''101'']" by (simp add: reply_lines_def)
  define fs where "fs = fields_of (tl (reply_lines sha1 nonce proto) @ [[], []])"
  have lower: "to_ascii_lowercase ''Upgrade'' = ''upgrade''" "to_ascii_lowercase ''Connection'' = ''connection''"
    "to_ascii_lowercase ''Sec-WebSocket-Accept'' = ''sec-websocket-accept''" "to_ascii_lowercase ''Sec-WebSocket-Protocol'' = ''sec-websocket-protocol''"
    "to_ascii_lowercase ''Sec-WebSocket-Extensions'' = ''sec-websocket-extensions''"
    by (simp_all add: to_ascii_lowercase_char_def is_ascii_uppercase_def char_of_eq_iff)
  have vs: "vals ''upgrade'' fs = [''websocket'']" "vals ''connection'' fs = [''Upgrade'']"
    "vals ''sec-websocket-accept'' fs = [derive_accept sha1 (base64_encode nonce)]"
    "vals ''sec-websocket-protocol'' fs = (case proto of None \<Rightarrow> [] | Some p \<Rightarrow> [p])" "vals ''sec-websocket-extensions'' fs = [PMD_OFFER]"
    unfolding fs_def reply_fields [of sha1 nonce proto, OF assms(1) tok] by (cases proto; simp only: option.case append.simps vals_simps lower; simp)+
  have up: "is_upgrade ''Upgrade''"
    using trim_plain(1) [of "''Upgrade''"] by (simp add: is_upgrade_def eq_ignore_ascii_case_def plain_char_def to_ascii_lowercase_char_def is_ascii_uppercase_def char_of_eq_iff)
  have offer: "trim PMD_OFFER = PMD_OFFER" "PMD_OFFER \<noteq> []"
    using trim_plain(1) [of PMD_OFFER] plain_texts(7) by (simp_all add: plain_text_def)
  show ?thesis unfolding check_response_iff
    using utf8 lines status up offer assms(2)
    by (intro exI [of _ ?head] exI [of _ "hd (reply_lines sha1 nonce proto)"] exI [of _ "tl (reply_lines sha1 nonce proto) @ [[], []]"] exI [of _ fs])
      (auto simp: fs_def [symmetric] vs opt_last_def Let_def)
qed

lemma pmd_offer_accepted: "parse_pmd_response PMD_OFFER = Ok (Some \<lparr>pmd_client_nct = True, pmd_server_nct = True\<rparr>)"
  by code_simp

text \<open>
  (C19) The handshake completes with a conforming server: when the server answers the request with the hash of the key, one of the offered subprotocols
  or none, and the offered compression, the client accepts, however the network cuts the reply, reports that subprotocol and the
  compression, and leaves the stream exactly at the first byte behind the reply, where the first frame starts.
\<close>

theorem ws_handshake_completes:
  assumes "\<And>x. sha1 x \<noteq> []" "proto = None \<or> (\<exists>p. proto = Some p \<and> p \<in> set ps)" "subprotocol_header ps = Ok h"
    "reply = as_bytes (crlf_lines (reply_lines sha1 nonce proto) @ CR_LF)" "length reply \<le> 64 * 1024" "chunks_ok cs" "concat cs = reply @ frames"
  shows "\<exists>cs'. ws_handshake sha1 (Ok nonce) (\<lambda>_. False) u ps (map Chunk cs @ s) =
      (Some (upgrade_request u (base64_encode nonce) (Some PMD_OFFER) h),
       Ok (Some \<lparr>pmd_client_nct = True, pmd_server_nct = True\<rparr>, proto), map Chunk cs' @ s) \<and> concat cs' = frames \<and> chunks_ok cs'"
proof -
  have tok: "list_all is_http_token ps" using assms(3) by (auto simp: subprotocol_header_def proto_loop_Ok split: if_splits sum.splits)
  then have ptok: "case proto of None \<Rightarrow> True | Some p \<Rightarrow> is_http_token p" using assms(2) by (auto simp: list_all_iff)
  have ne: "reply_lines sha1 nonce proto \<noteq> []" by (simp add: reply_lines_def)
  obtain cs' where rd: "read_handshake_head (\<lambda>_. False) (map Chunk cs @ s) = (Ok reply, map Chunk cs' @ s)" "concat cs' = frames" "chunks_ok cs'"
    using reply_head_read [OF reply_lines_ok(1) [OF ptok] ne assms(4-7)] by blast
  have "check_handshake_response sha1 reply (base64_encode nonce) ps = Ok \<lparr>hr_extensions = Some PMD_OFFER, hr_subprotocol = proto\<rparr>"
    unfolding assms(4) using assms(1,2) tok by (intro reply_check)
  with rd assms(3) pmd_offer_accepted show ?thesis
    by (intro exI [of _ cs']) (simp add: ws_handshake_def Let_def)
qed

theorem ws_handshake_completes_witness:
  "\<exists>cs'. ws_handshake (\<lambda>x. [7]) (Ok [1, 2]) (\<lambda>_. False) demo_ws_url [''chat'', ''mqtt'']
      [Chunk (as_bytes (crlf_lines (reply_lines (\<lambda>x. [7]) [1, 2] (Some ''mqtt'')) @ CR_LF) @ [0x81, 0])] =
      (Some (upgrade_request demo_ws_url (base64_encode [1, 2]) (Some PMD_OFFER) (''Sec-WebSocket-Protocol: chat, mqtt'' @ CR_LF)),
       Ok (Some \<lparr>pmd_client_nct = True, pmd_server_nct = True\<rparr>, Some ''mqtt''), map Chunk cs' @ []) \<and> concat cs' = [0x81, 0] \<and> chunks_ok cs'"
  using ws_handshake_completes [of "\<lambda>x. [7]" "Some ''mqtt''" "[''chat'', ''mqtt'']" "''Sec-WebSocket-Protocol: chat, mqtt'' @ CR_LF"
      "as_bytes (crlf_lines (reply_lines (\<lambda>x. [7]) [1, 2] (Some ''mqtt'')) @ CR_LF)" "[1, 2]"
      "[as_bytes (crlf_lines (reply_lines (\<lambda>x. [7]) [1, 2] (Some ''mqtt'')) @ CR_LF) @ [0x81, 0]]" "[0x81, 0]" demo_ws_url "[]", OF _ _ demo_protos refl]
  by (simp add: chunks_ok_def reply_lines_def derive_accept_def base64_encode_length PMD_OFFER_def)

end
