(* ===== verification/Url_Text.thy ===== *)
theory Url_Text
  imports Url Http1_Head
begin

text \<open>Percent-decoding to text, which the protocol engines apply to the parts of a URL.\<close>

definition percent_decode :: "string \<Rightarrow> string" where
  "percent_decode s = from_utf8_lossy (percent_decode_bytes s)"

end
