(* ===== verification/Tftp.thy ===== *)
theory Tftp
  imports Url_Text
begin

text \<open>
  TFTP (\<open>tftp.rs\<close>): packets, and the download and upload loops as machines over the events of the UDP socket. A turn of a loop starts with a
  look at the clock and one \<open>recv_from\<close>; sending is taken to succeed and is recorded in the state.
\<close>

section \<open>Packets\<close>

abbreviation (input) OP_RRQ :: u16 where "OP_RRQ \<equiv> 1"
abbreviation (input) OP_WRQ :: u16 where "OP_WRQ \<equiv> 2"
abbreviation (input) OP_DATA :: u16 where "OP_DATA \<equiv> 3"
abbreviation (input) OP_ACK :: u16 where "OP_ACK \<equiv> 4"
abbreviation (input) OP_ERROR :: u16 where "OP_ERROR \<equiv> 5"

abbreviation (input) BLOCK_SIZE :: nat where "BLOCK_SIZE \<equiv> 512"
abbreviation (input) MAX_RETRIES :: nat where "MAX_RETRIES \<equiv> 3"
abbreviation (input) MAX_TOTAL_BYTES :: nat where "MAX_TOTAL_BYTES \<equiv> 268435456"

definition build_request :: "u16 \<Rightarrow> string \<Rightarrow> bytes" where
  "build_request opcode filename = u16_to_be_bytes opcode @ as_bytes filename @ [0] @ as_bytes ''octet'' @ [0]"

definition build_rrq :: "string \<Rightarrow> bytes" where
  "build_rrq filename = build_request OP_RRQ filename"

definition build_wrq :: "string \<Rightarrow> bytes" where
  "build_wrq filename = build_request OP_WRQ filename"

definition write_data :: "u16 \<Rightarrow> bytes \<Rightarrow> bytes" where
  "write_data block payload = u16_to_be_bytes OP_DATA @ u16_to_be_bytes block @ payload"

definition build_ack :: "u16 \<Rightarrow> bytes" where
  "build_ack block = u16_to_be_bytes OP_ACK @ u16_to_be_bytes block"

definition parse_opcode :: "bytes \<Rightarrow> u16 option" where
  "parse_opcode buf = (if length buf < 2 then None else Some (u16_from_be_bytes (take 2 buf)))"

definition parse_data :: "bytes \<Rightarrow> (u16 \<times> bytes) result" where
  "parse_data buf =
     (if length buf < 4 then Err (BadResponse ''tftp: short DATA packet'')
      else if parse_opcode buf \<noteq> Some OP_DATA then Err (BadResponse ''tftp: not a DATA packet'')
      else Ok (u16_from_be_bytes (take 2 (drop 2 buf)), drop 4 buf))"

definition parse_ack :: "bytes \<Rightarrow> u16 result" where
  "parse_ack buf =
     (if length buf < 4 then Err (BadResponse ''tftp: short ACK packet'')
      else if parse_opcode buf \<noteq> Some OP_ACK then Err (BadResponse ''tftp: not an ACK packet'')
      else Ok (u16_from_be_bytes (take 2 (drop 2 buf))))"

definition parse_error :: "bytes \<Rightarrow> string result" where
  "parse_error buf =
     (if length buf < 4 then Err (BadResponse ''tftp: short ERROR packet'')
      else if parse_opcode buf \<noteq> Some OP_ERROR then Err (BadResponse ''tftp: not an ERROR packet'')
      else let msg = drop 4 buf; e = (case position (\<lambda>b. b = 0) msg of Some i \<Rightarrow> i | None \<Rightarrow> length msg)
           in Ok (from_utf8_lossy (take e msg)))"

definition filename_of :: "url \<Rightarrow> string result" where
  "filename_of u =
     (let raw = (case strip_prefix ''/'' (u_path u) of Some r \<Rightarrow> r | None \<Rightarrow> u_path u); filename = percent_decode raw
      in if filename = [] then Err (InvalidUrl ''tftp: empty filename'')
         else if 0 \<in> set (as_bytes filename) then Err (InvalidUrl ''tftp: filename contains NUL'')
         else Ok filename)"

section \<open>The socket\<close>

text \<open>A socket address is an IP address and a port.\<close>

type_synonym addr = "string \<times> nat"

text \<open>
  What a turn of the loop meets: the deadline has passed, a datagram, a time-out of the socket, or another error (also that of the user's time limit). The buffer of \<open>recv_from\<close>
  holds 532 bytes.
\<close>

datatype tftp_ev = Late | Datagram addr bytes | TimedOut | RecvErr io_kind

abbreviation (input) RECV_BUF :: nat where "RECV_BUF \<equiv> 4 + BLOCK_SIZE + 16"

section \<open>Download\<close>

record fetch_st =
  f_peer :: "addr option"
  f_out :: bytes
  f_expected :: u16
  f_last_packet :: bytes
  f_last_dest :: addr
  f_retries :: nat
  f_sent :: "(bytes \<times> addr) list"

definition fetch_start :: "addr \<Rightarrow> string \<Rightarrow> fetch_st" where
  "fetch_start server filename =
     \<lparr>f_peer = None, f_out = [], f_expected = 1, f_last_packet = build_rrq filename, f_last_dest = server, f_retries = 0,
      f_sent = [(build_rrq filename, server)]\<rparr>"

definition f_send :: "fetch_st \<Rightarrow> bytes \<Rightarrow> addr \<Rightarrow> fetch_st" where
  "f_send st pkt dest = st\<lparr>f_sent := f_sent st @ [(pkt, dest)]\<rparr>"

definition deadline_error :: error where
  "deadline_error = BadResponse ''tftp: transfer exceeded deadline''"

definition fetch_data :: "fetch_st \<Rightarrow> addr \<Rightarrow> u16 \<Rightarrow> bytes \<Rightarrow> fetch_st \<times> bytes result option" where
  "fetch_data st from block dat =
     (if block \<noteq> f_expected st then
        (case f_peer st of
           Some p \<Rightarrow> if block + 1 = f_expected st then (f_send st (build_ack block) p, None) else (st, None)
         | None \<Rightarrow> (st, None))
      else
        (let st1 = (if f_peer st = None then st\<lparr>f_peer := Some from\<rparr> else st)
         in if length (f_out st1) + length dat > MAX_TOTAL_BYTES then (st1, Some (Err (BadResponse ''tftp: transfer exceeds limit'')))
            else let st2 = f_send (st1\<lparr>f_out := f_out st1 @ dat\<rparr>) (build_ack block) from
              in if length dat < BLOCK_SIZE then (st2, Some (Ok (f_out st2)))
                 else (st2\<lparr>f_last_packet := build_ack block, f_last_dest := from, f_retries := 0, f_expected := f_expected st2 + 1\<rparr>, None)))"

definition fetch_packet :: "fetch_st \<Rightarrow> addr \<Rightarrow> bytes \<Rightarrow> fetch_st \<times> bytes result option" where
  "fetch_packet st from pkt =
     (case parse_opcode pkt of
        None \<Rightarrow> (st, Some (Err (BadResponse ''tftp: packet too short'')))
      | Some op \<Rightarrow>
          if op = OP_DATA then
            (case parse_data pkt of Inl e \<Rightarrow> (st, Some (Err e)) | Inr (block, dat) \<Rightarrow> fetch_data st from block dat)
          else if op = OP_ERROR then
            (case parse_error pkt of
               Inl e \<Rightarrow> (st, Some (Err e))
             | Inr msg \<Rightarrow> (st, Some (Err (BadResponse (''tftp: '' @ msg)))))
          else (st, Some (Err (BadResponse ''tftp: unexpected opcode''))))"

definition fetch_turn :: "addr \<Rightarrow> fetch_st \<Rightarrow> tftp_ev \<Rightarrow> fetch_st \<times> bytes result option" where
  "fetch_turn server st ev =
     (case ev of
        Late \<Rightarrow> (st, Some (Err deadline_error))
      | TimedOut \<Rightarrow>
          if f_retries st \<ge> MAX_RETRIES then (st, Some (Err UnexpectedEof))
          else (f_send (st\<lparr>f_retries := f_retries st + 1\<rparr>) (f_last_packet st) (f_last_dest st), None)
      | RecvErr k \<Rightarrow> (st, Some (Err (Io k)))
      | Datagram from dgram \<Rightarrow>
          if (case f_peer st of Some p \<Rightarrow> from \<noteq> p | None \<Rightarrow> fst from \<noteq> fst server) then (st, None)
          else fetch_packet st from (take RECV_BUF dgram))"

text \<open>The loop over the events of the socket; \<open>None\<close> while it still waits for the next one.\<close>

fun fetch_loop :: "addr \<Rightarrow> fetch_st \<Rightarrow> tftp_ev list \<Rightarrow> fetch_st \<times> bytes result option" where
  "fetch_loop server st [] = (st, None)"
| "fetch_loop server st (ev # evs) =
     (case fetch_turn server st ev of
        (st', Some r) \<Rightarrow> (st', Some r)
      | (st', None) \<Rightarrow> fetch_loop server st' evs)"

definition tftp_fetch :: "url \<Rightarrow> addr result \<Rightarrow> tftp_ev list \<Rightarrow> (bytes \<times> addr) list \<times> bytes result option" where
  "tftp_fetch u resolved evs =
     (case filename_of u of
        Inl e \<Rightarrow> ([], Some (Err e))
      | Inr filename \<Rightarrow>
          (case resolved of
             Inl e \<Rightarrow> ([], Some (Err e))
           | Inr server \<Rightarrow> (case fetch_loop server (fetch_start server filename) evs of (st, r) \<Rightarrow> (f_sent st, r))))"

section \<open>Upload\<close>

record store_st =
  s_peer :: "addr option"
  s_block :: u16
  s_blocks_sent :: nat
  s_final :: bool
  s_last_packet :: bytes
  s_last_dest :: addr
  s_retries :: nat
  s_sent :: "(bytes \<times> addr) list"

definition store_start :: "addr \<Rightarrow> string \<Rightarrow> store_st" where
  "store_start server filename =
     \<lparr>s_peer = None, s_block = 0, s_blocks_sent = 0, s_final = False, s_last_packet = build_wrq filename, s_last_dest = server,
      s_retries = 0, s_sent = [(build_wrq filename, server)]\<rparr>"

definition s_send :: "store_st \<Rightarrow> bytes \<Rightarrow> addr \<Rightarrow> store_st" where
  "s_send st pkt dest = st\<lparr>s_sent := s_sent st @ [(pkt, dest)]\<rparr>"

definition store_ack :: "bytes \<Rightarrow> store_st \<Rightarrow> addr \<Rightarrow> u16 \<Rightarrow> store_st \<times> unit result option" where
  "store_ack data st from acked =
     (if acked \<noteq> s_block st then (st, None)
      else
        (let st1 = (if s_peer st = None then st\<lparr>s_peer := Some from\<rparr> else st)
         in if s_final st1 then (st1, Some (Ok ()))
            else let next_offset = s_blocks_sent st1 * BLOCK_SIZE; next_block = s_block st1 + 1;
                     fin = min (next_offset + BLOCK_SIZE) (length data);
                     payload = take (fin - next_offset) (drop next_offset data);
                     pkt = write_data next_block payload
              in ((s_send st1 pkt from)\<lparr>s_last_packet := pkt, s_block := next_block, s_blocks_sent := s_blocks_sent st1 + 1,
                    s_final := length payload < BLOCK_SIZE, s_last_dest := from, s_retries := 0\<rparr>, None)))"

definition store_packet :: "bytes \<Rightarrow> store_st \<Rightarrow> addr \<Rightarrow> bytes \<Rightarrow> store_st \<times> unit result option" where
  "store_packet data st from pkt =
     (case parse_opcode pkt of
        None \<Rightarrow> (st, Some (Err (BadResponse ''tftp: packet too short'')))
      | Some op \<Rightarrow>
          if op = OP_ACK then
            (case parse_ack pkt of Inl e \<Rightarrow> (st, Some (Err e)) | Inr acked \<Rightarrow> store_ack data st from acked)
          else if op = OP_ERROR then
            (case parse_error pkt of
               Inl e \<Rightarrow> (st, Some (Err e))
             | Inr msg \<Rightarrow> (st, Some (Err (BadResponse (''tftp: '' @ msg)))))
          else (st, Some (Err (BadResponse ''tftp: unexpected opcode''))))"

definition store_turn :: "bytes \<Rightarrow> addr \<Rightarrow> store_st \<Rightarrow> tftp_ev \<Rightarrow> store_st \<times> unit result option" where
  "store_turn data server st ev =
     (case ev of
        Late \<Rightarrow> (st, Some (Err deadline_error))
      | TimedOut \<Rightarrow>
          if s_retries st \<ge> MAX_RETRIES then (st, Some (Err UnexpectedEof))
          else (s_send (st\<lparr>s_retries := s_retries st + 1\<rparr>) (s_last_packet st) (s_last_dest st), None)
      | RecvErr k \<Rightarrow> (st, Some (Err (Io k)))
      | Datagram from dgram \<Rightarrow>
          if (case s_peer st of Some p \<Rightarrow> from \<noteq> p | None \<Rightarrow> fst from \<noteq> fst server) then (st, None)
          else store_packet data st from (take RECV_BUF dgram))"

fun store_loop :: "bytes \<Rightarrow> addr \<Rightarrow> store_st \<Rightarrow> tftp_ev list \<Rightarrow> store_st \<times> unit result option" where
  "store_loop data server st [] = (st, None)"
| "store_loop data server st (ev # evs) =
     (case store_turn data server st ev of
        (st', Some r) \<Rightarrow> (st', Some r)
      | (st', None) \<Rightarrow> store_loop data server st' evs)"

definition tftp_store :: "url \<Rightarrow> bytes \<Rightarrow> addr result \<Rightarrow> tftp_ev list \<Rightarrow> (bytes \<times> addr) list \<times> unit result option" where
  "tftp_store u data resolved evs =
     (case filename_of u of
        Inl e \<Rightarrow> ([], Some (Err e))
      | Inr filename \<Rightarrow>
          if length data > MAX_TOTAL_BYTES then ([], Some (Err (BadResponse ''tftp: upload exceeds limit'')))
          else case resolved of
                 Inl e \<Rightarrow> ([], Some (Err e))
               | Inr server \<Rightarrow> (case store_loop data server (store_start server filename) evs of (st, r) \<Rightarrow> (s_sent st, r)))"

end
