(* ===== verification/Tftp_Props.thy ===== *)
theory Tftp_Props
  imports Tftp
begin

text \<open>
  TFTP transfers: whatever the network loses, repeats or delays, and whatever strangers send, a download that finishes has the file and an upload
  that finishes has sent it; a download whose packets get through finishes.
\<close>

section \<open>Files in blocks\<close>

definition nblocks :: "bytes \<Rightarrow> nat" where
  "nblocks file = length file div BLOCK_SIZE + 1"

definition file_block :: "bytes \<Rightarrow> nat \<Rightarrow> bytes" where
  "file_block file k = take BLOCK_SIZE (drop (BLOCK_SIZE * (k - 1)) file)"

definition data_packet :: "bytes \<Rightarrow> nat \<Rightarrow> bytes" where
  "data_packet file k = write_data (of_nat k) (file_block file k)"

lemma nblocks_bounds: "BLOCK_SIZE * (nblocks file - 1) \<le> length file" "length file < BLOCK_SIZE * nblocks file"
proof -
  define n where "n = length file"
  have "512 * (n div 512) \<le> n" "n < 512 * (n div 512 + 1)" using div_mult_mod_eq [of n 512] mod_less_divisor [of 512 n] by simp_all
  then show "BLOCK_SIZE * (nblocks file - 1) \<le> length file" "length file < BLOCK_SIZE * nblocks file" by (simp_all add: nblocks_def n_def)
qed

lemma file_block_append: "1 \<le> k \<Longrightarrow> take (BLOCK_SIZE * (k - 1)) file @ file_block file k = take (BLOCK_SIZE * k) file"
  by (cases k) (simp_all add: file_block_def take_add [symmetric] algebra_simps)

lemma length_file_block:
  assumes "1 \<le> k" "k \<le> nblocks file"
  shows "length (file_block file k) < BLOCK_SIZE \<longleftrightarrow> k = nblocks file" "length (file_block file k) \<le> BLOCK_SIZE"
proof -
  show "length (file_block file k) \<le> BLOCK_SIZE" by (simp add: file_block_def)
  show "length (file_block file k) < BLOCK_SIZE \<longleftrightarrow> k = nblocks file"
  proof (cases "k = nblocks file")
    case True
    with nblocks_bounds [of "file"] show ?thesis by (simp add: file_block_def nblocks_def)
  next
    case False
    with assms have "BLOCK_SIZE * k \<le> BLOCK_SIZE * (nblocks file - 1)" by simp
    also have "\<dots> \<le> length file" by (rule nblocks_bounds)
    finally have "BLOCK_SIZE \<le> length file - BLOCK_SIZE * (k - 1)" using assms(1) by (cases k) (simp_all add: algebra_simps)
    then show ?thesis using False by (simp add: file_block_def)
  qed
qed

lemma take_all_blocks: "take (BLOCK_SIZE * nblocks file) file = file"
  using nblocks_bounds(2) [of "file"] by simp

lemma blocks_concat: "concat (map (file_block file) [1..<Suc n]) = take (BLOCK_SIZE * n) file"
  by (induction n) (simp_all add: file_block_append [of "Suc n" for n, simplified])

section \<open>Packets\<close>

lemma packet_opcodes:
  "parse_opcode (write_data b p) = Some OP_DATA" "parse_opcode (build_ack b) = Some OP_ACK"
  by (simp_all add: parse_opcode_def write_data_def build_ack_def)

lemma parse_write_data [simp]: "parse_data (write_data b p) = Ok (b, p)"
  by (simp add: parse_data_def packet_opcodes) (simp add: write_data_def)

lemma parse_build_ack [simp]: "parse_ack (build_ack b) = Ok b"
  by (simp add: parse_ack_def packet_opcodes) (simp add: build_ack_def)

lemma data_packet_fits: "take RECV_BUF (data_packet file k) = data_packet file k"
  by (simp add: data_packet_def write_data_def file_block_def)

lemma ack_fits: "take RECV_BUF (build_ack b) = build_ack b"
  by (simp add: build_ack_def)

lemma block_numbers:
  assumes "k < n + 65536" "n < k + 65536"
  shows "(of_nat k :: u16) = of_nat n \<longleftrightarrow> k = n"
proof
  assume eq: "(of_nat k :: u16) = of_nat n"
  then have "unat (of_nat k :: u16) = unat (of_nat n :: u16)" by simp
  then have "k mod 65536 = n mod 65536" by (simp add: unat_of_nat)
  then have "(65536 :: nat) dvd k - n" "(65536 :: nat) dvd n - k" by (metis mod_eq_dvd_iff_nat dvd_0_right diff_is_0_eq nat_le_linear)+
  moreover have "k - n < 65536" "n - k < 65536" using assms by linarith+
  ultimately have "k - n = 0" "n - k = 0" by (metis dvd_imp_le not_gr_zero not_less)+
  then show "k = n" by simp
qed simp

section \<open>Downloads\<close>

definition stranger :: "addr \<Rightarrow> addr option \<Rightarrow> addr \<Rightarrow> bool" where
  "stranger server peer from \<longleftrightarrow> (case peer of Some p \<Rightarrow> from \<noteq> p | None \<Rightarrow> fst from \<noteq> fst server)"

text \<open>
  What a server of the file may send: any block, any number of times, in any order, as long as no datagram is 65536 blocks old (block numbers have
  16 bits). Time-outs, errors and the datagrams of strangers are not restricted.
\<close>

definition blocks_done :: "fetch_st \<Rightarrow> nat" where
  "blocks_done st = length (f_out st) div BLOCK_SIZE"

definition serves :: "bytes \<Rightarrow> addr \<Rightarrow> fetch_st \<Rightarrow> tftp_ev \<Rightarrow> bool" where
  "serves file server st ev \<longleftrightarrow>
     (case ev of
        Datagram from d \<Rightarrow> stranger server (f_peer st) from \<or>
          list_ex (\<lambda>k. k < blocks_done st + 65536 \<and> blocks_done st + 1 < k + 65536 \<and> d = data_packet file k) [1..<Suc (nblocks file)]
      | _ \<Rightarrow> True)"

fun serves_run :: "bytes \<Rightarrow> addr \<Rightarrow> fetch_st \<Rightarrow> tftp_ev list \<Rightarrow> bool" where
  "serves_run file server st [] = True"
| "serves_run file server st (ev # evs) =
     (serves file server st ev \<and> (case fetch_turn server st ev of (st', None) \<Rightarrow> serves_run file server st' evs | _ \<Rightarrow> True))"

text \<open>The packets a client that has \<open>n\<close> blocks may have sent.\<close>

definition acks_ok :: "string \<Rightarrow> nat \<Rightarrow> (bytes \<times> addr) list \<Rightarrow> bool" where
  "acks_ok filename n sent \<longleftrightarrow> list_all (\<lambda>(p, d). p = build_rrq filename \<or> list_ex (\<lambda>k. p = build_ack (of_nat k)) [1..<Suc n]) sent"

definition fetch_inv :: "bytes \<Rightarrow> string \<Rightarrow> fetch_st \<Rightarrow> nat \<Rightarrow> bool" where
  "fetch_inv file filename st n \<longleftrightarrow>
     n < nblocks file \<and> f_out st = take (BLOCK_SIZE * n) file \<and> f_expected st = of_nat (n + 1) \<and> acks_ok filename n (f_sent st) \<and>
     acks_ok filename n [(f_last_packet st, f_last_dest st)]"

lemma acks_ok_mono: "acks_ok filename n sent \<Longrightarrow> n \<le> m \<Longrightarrow> acks_ok filename m sent"
  by (fastforce simp: acks_ok_def list_all_iff list_ex_iff)

lemma acks_ok_append: "acks_ok filename n (xs @ ys) \<longleftrightarrow> acks_ok filename n xs \<and> acks_ok filename n ys"
  by (simp add: acks_ok_def)

lemma acks_ok_ack: "1 \<le> k \<Longrightarrow> k \<le> n \<Longrightarrow> acks_ok filename n [(build_ack (of_nat k), d)]"
  by (auto simp: acks_ok_def list_ex_iff simp del: upt_Suc)

lemma fetch_inv_done: "fetch_inv file filename st n \<Longrightarrow> blocks_done st = n \<and> length (f_out st) = BLOCK_SIZE * n"
proof -
  assume i: "fetch_inv file filename st n"
  then have "BLOCK_SIZE * n \<le> BLOCK_SIZE * (nblocks file - 1)" by (auto simp: fetch_inv_def)
  also have "\<dots> \<le> length file" by (rule nblocks_bounds)
  finally have "length (f_out st) = BLOCK_SIZE * n" using i by (simp add: fetch_inv_def)
  then show ?thesis by (simp add: blocks_done_def)
qed

lemma fetch_inv_start: "fetch_inv file filename (fetch_start server filename) 0"
  by (simp add: fetch_inv_def fetch_start_def acks_ok_def nblocks_def)

text \<open>A block of the file: the next one is stored, any other leaves the state alone but for a repeated acknowledgement.\<close>

lemma fetch_data_block:
  assumes "fetch_inv file filename st n" "1 \<le> k" "k \<le> nblocks file" "k < n + 65536" "n + 1 < k + 65536"
    "fetch_data st from (of_nat k) (file_block file k) = (st', r)"
  shows "(r = None \<longrightarrow> (\<exists>m. fetch_inv file filename st' m)) \<and>
    (\<forall>out. r = Some (Ok out) \<longrightarrow> out = file \<and> acks_ok filename (nblocks file) (f_sent st'))"
proof (cases "k = n + 1")
  case False
  then have ne: "(of_nat k :: u16) \<noteq> f_expected st" using block_numbers [of k "n + 1"] assms(1,4,5) by (simp add: fetch_inv_def)
  have again: "k \<le> n" if "(of_nat k :: u16) + 1 = f_expected st"
  proof -
    have "(of_nat (k + 1) :: u16) = of_nat (n + 1)" using that assms(1) by (simp add: fetch_inv_def add.commute)
    then have "(of_nat k :: u16) = of_nat n" by simp
    then show ?thesis using block_numbers [of k n] assms(4,5) by simp
  qed
  then show ?thesis using ne assms(1,2,6) acks_ok_ack [of k n filename]
    by (auto simp: fetch_data_def fetch_inv_def f_send_def acks_ok_append split: option.splits if_splits)
next
  case True
  note i = fetch_inv_done [OF assms(1)]
  have exp: "f_expected st = of_nat k" and out: "f_out st = take (BLOCK_SIZE * n) file" using assms(1) True by (simp_all add: fetch_inv_def)
  have app: "f_out st @ file_block file k = take (BLOCK_SIZE * k) file" using file_block_append [OF assms(2), of "file"] True out by simp
  show ?thesis
  proof (cases "k = nblocks file")
    case last: True
    then have "length (file_block file k) < BLOCK_SIZE" using length_file_block [OF assms(2,3)] by simp
    moreover have "acks_ok filename k (f_sent st @ [(build_ack (of_nat k), from)])"
      using assms(1,2) True acks_ok_mono [of filename n _ k] acks_ok_ack [of k k] by (simp add: fetch_inv_def acks_ok_append)
    ultimately show ?thesis using assms(6) exp app last take_all_blocks [of "file"]
      by (auto simp: fetch_data_def Let_def f_send_def split: if_splits)
  next
    case False
    then have "\<not> length (file_block file k) < BLOCK_SIZE" using length_file_block [OF assms(2,3)] by simp
    moreover have "acks_ok filename k (f_sent st @ [(build_ack (of_nat k), from)])" "acks_ok filename k [(build_ack (of_nat k), from)]"
      using assms(1,2) True acks_ok_mono [of filename n _ k] acks_ok_ack [of k k] by (simp_all add: fetch_inv_def acks_ok_append)
    ultimately show ?thesis using assms(3,6) exp app False
      by (auto simp: fetch_data_def Let_def f_send_def fetch_inv_def algebra_simps intro!: exI [of _ k] split: if_splits)
  qed
qed

lemma fetch_turn_packet:
  assumes "\<not> stranger server (f_peer st) src"
  shows "fetch_turn server st (Datagram src (data_packet file k)) = fetch_data st src (of_nat k) (file_block file k)"
proof -
  have "fetch_turn server st (Datagram src (data_packet file k)) = fetch_packet st src (take RECV_BUF (data_packet file k))"
    using assms unfolding fetch_turn_def stranger_def by simp
  then show ?thesis unfolding data_packet_fits by (simp add: fetch_packet_def data_packet_def packet_opcodes)
qed

lemma fetch_turn_serves:
  assumes "fetch_inv file filename st n" "serves file server st ev" "fetch_turn server st ev = (st', r)"
  shows "(r = None \<longrightarrow> (\<exists>m. fetch_inv file filename st' m)) \<and>
    (\<forall>out. r = Some (Ok out) \<longrightarrow> out = file \<and> acks_ok filename (nblocks file) (f_sent st'))"
proof (cases ev)
  case TimedOut
  with assms show ?thesis by (auto simp: fetch_turn_def fetch_inv_def f_send_def acks_ok_append split: if_splits)
next
  case (Datagram src d)
  show ?thesis
  proof (cases "stranger server (f_peer st) src")
    case True
    with Datagram assms show ?thesis by (auto simp: fetch_turn_def stranger_def)
  next
    case False
    with Datagram assms(2) obtain k where k: "1 \<le> k" "k \<le> nblocks file" "k < blocks_done st + 65536" "blocks_done st + 1 < k + 65536" "d = data_packet file k"
      by (auto simp: serves_def list_ex_iff simp del: upt_Suc)
    have "fetch_turn server st ev = fetch_data st src (of_nat k) (file_block file k)"
      unfolding Datagram k(5) by (rule fetch_turn_packet [OF False])
    then have "fetch_data st src (of_nat k) (file_block file k) = (st', r)" using assms(3) by simp
    moreover have "k < n + 65536" "n + 1 < k + 65536" using k(3,4) fetch_inv_done [OF assms(1)] by simp_all
    ultimately show ?thesis using fetch_data_block [OF assms(1) k(1,2)] by blast
  qed
qed (use assms in \<open>auto simp: fetch_turn_def\<close>)

lemma fetch_loop_serves:
  assumes "fetch_inv file filename st n" "serves_run file server st evs" "fetch_loop server st evs = (st', r)"
  shows "(r = None \<longrightarrow> (\<exists>m. fetch_inv file filename st' m)) \<and>
    (\<forall>out. r = Some (Ok out) \<longrightarrow> out = file \<and> acks_ok filename (nblocks file) (f_sent st'))"
  using assms
proof (induction evs arbitrary: st n)
  case (Cons ev evs)
  obtain st1 r1 where t: "fetch_turn server st ev = (st1, r1)" by fastforce
  from Cons.prems(2) have sv: "serves file server st ev" by simp
  note s = fetch_turn_serves [OF Cons.prems(1) sv t]
  show ?case
  proof (cases r1)
    case None
    then obtain m where "fetch_inv file filename st1 m" using s by blast
    with Cons.IH Cons.prems t None show ?thesis by auto
  next
    case (Some x)
    with Cons.prems t s show ?thesis by auto
  qed
qed auto

text \<open>
  (C34) A TFTP download is exact: whatever is lost, repeated, reordered or delayed by less than 65536 blocks, and whatever strangers send, a
  download that finishes returns the file, at any moment before it has a prefix of the file in whole blocks, and it never
  acknowledges a block it has not stored.
\<close>

theorem tftp_fetch_exact:
  assumes "serves_run file server (fetch_start server filename) evs" "fetch_loop server (fetch_start server filename) evs = (st, r)"
  shows "(\<forall>out. r = Some (Ok out) \<longrightarrow> out = file \<and> acks_ok filename (nblocks file) (f_sent st)) \<and>
    (r = None \<longrightarrow> (\<exists>n < nblocks file. f_out st = take (BLOCK_SIZE * n) file \<and> acks_ok filename n (f_sent st)))"
  using fetch_loop_serves [OF fetch_inv_start assms] by (auto simp: fetch_inv_def)

section \<open>Downloads that get through\<close>

text \<open>
  What may happen while the client waits for block \<open>k\<close>: up to three time-outs, datagrams of strangers, and the previous block again.
\<close>

definition noise :: "bytes \<Rightarrow> addr \<Rightarrow> addr \<Rightarrow> nat \<Rightarrow> tftp_ev list \<Rightarrow> bool" where
  "noise file server peer k evs \<longleftrightarrow>
     length (filter (\<lambda>e. e = TimedOut) evs) \<le> MAX_RETRIES \<and>
     list_all (\<lambda>e. case e of
        TimedOut \<Rightarrow> True
      | Datagram from d \<Rightarrow> stranger server (if k = 1 then None else Some peer) from \<or> k > 1 \<and> from = peer \<and> d = data_packet file (k - 1)
      | _ \<Rightarrow> False) evs"

definition waiting :: "bytes \<Rightarrow> addr \<Rightarrow> addr \<Rightarrow> nat \<Rightarrow> fetch_st \<Rightarrow> bool" where
  "waiting file server peer k st \<longleftrightarrow>
     f_peer st = (if k = 1 then None else Some peer) \<and> f_out st = take (BLOCK_SIZE * (k - 1)) file \<and> f_expected st = of_nat k"

lemma fetch_noise:
  assumes "waiting file server peer k st" "1 \<le> k" "list_all (\<lambda>e. case e of
        TimedOut \<Rightarrow> True
      | Datagram from d \<Rightarrow> stranger server (if k = 1 then None else Some peer) from \<or> k > 1 \<and> from = peer \<and> d = data_packet file (k - 1)
      | _ \<Rightarrow> False) evs" "f_retries st + length (filter (\<lambda>e. e = TimedOut) evs) \<le> MAX_RETRIES"
  shows "\<exists>st'. fetch_loop server st (evs @ rest) = fetch_loop server st' rest \<and> waiting file server peer k st'"
  using assms
proof (induction evs arbitrary: st)
  case (Cons e evs)
  have step: "\<exists>st1. fetch_turn server st e = (st1, None) \<and> waiting file server peer k st1 \<and>
      f_retries st1 + length (filter (\<lambda>e. e = TimedOut) evs) \<le> MAX_RETRIES"
  proof (cases e)
    case TimedOut
    with Cons.prems show ?thesis by (auto simp: fetch_turn_def f_send_def waiting_def)
  next
    case (Datagram src d)
    show ?thesis
    proof (cases "stranger server (f_peer st) src")
      case True
      with Datagram Cons.prems show ?thesis by (auto simp: fetch_turn_def stranger_def)
    next
      case False
      with Datagram Cons.prems have k: "k > 1" "src = peer" "d = data_packet file (k - 1)" by (auto simp: waiting_def)
      obtain j where j: "k = Suc j" "j \<ge> 1" using k(1) by (cases k) auto
      have "(of_nat j :: u16) \<noteq> of_nat k" using block_numbers [of j k] j by simp
      moreover have "fetch_turn server st e = fetch_data st peer (of_nat j) (file_block file j)"
        using fetch_turn_packet [OF False, of "file" j] Datagram k(2,3) j by simp
      ultimately show ?thesis using Cons.prems Datagram j by (auto simp: fetch_data_def waiting_def f_send_def split: option.splits)
    qed
  qed (use Cons.prems in auto)
  then obtain st1 where t: "fetch_turn server st e = (st1, None)" "waiting file server peer k st1"
      "f_retries st1 + length (filter (\<lambda>e. e = TimedOut) evs) \<le> MAX_RETRIES" by blast
  then show ?case using Cons.IH [OF t(2) Cons.prems(2) _ t(3)] Cons.prems(3) by simp
qed auto

lemma fetch_noise_ok:
  assumes "waiting file server peer k st" "1 \<le> k" "f_retries st = 0" "noise file server peer k evs"
  shows "\<exists>st'. fetch_loop server st (evs @ rest) = fetch_loop server st' rest \<and> waiting file server peer k st'"
  by (rule fetch_noise [OF assms(1,2)]) (use assms(3,4) in \<open>simp_all add: noise_def\<close>)

text \<open>The arrival of the block the client waits for.\<close>

lemma fetch_arrival:
  assumes "waiting file server peer k st" "1 \<le> k" "k \<le> nblocks file" "length file \<le> MAX_TOTAL_BYTES" "fst peer = fst server"
  shows "\<exists>st' r. fetch_turn server st (Datagram peer (data_packet file k)) = (st', r) \<and>
    (if k = nblocks file then r = Some (Ok file) else r = None \<and> f_retries st' = 0 \<and> waiting file server peer (Suc k) st')"
proof -
  have ns: "\<not> stranger server (f_peer st) peer" using assms(1,5) by (simp add: stranger_def waiting_def split: if_splits)
  have app: "f_out st @ file_block file k = take (BLOCK_SIZE * k) file"
    using assms(1) file_block_append [OF assms(2), of "file"] by (simp add: waiting_def)
  have le: "length (f_out st) + length (file_block file k) \<le> MAX_TOTAL_BYTES"
    using arg_cong [OF app, of length] assms(4) by simp
  have exp: "f_expected st = of_nat k" using assms(1) by (simp add: waiting_def)
  show ?thesis
  proof (cases "k = nblocks file")
    case True
    then have "length (file_block file k) < BLOCK_SIZE" using length_file_block [OF assms(2,3)] by simp
    then show ?thesis using le exp app True take_all_blocks [of "file"] unfolding fetch_turn_packet [OF ns]
      by (auto simp: fetch_data_def Let_def f_send_def)
  next
    case False
    then have "\<not> length (file_block file k) < BLOCK_SIZE" using length_file_block [OF assms(2,3)] by simp
    then show ?thesis using le exp app False assms(1,2) unfolding fetch_turn_packet [OF ns]
      by (auto simp: fetch_data_def Let_def f_send_def waiting_def)
  qed
qed

text \<open>Block after block, each preceded by noise.\<close>

definition delivery :: "bytes \<Rightarrow> addr \<Rightarrow> (nat \<Rightarrow> tftp_ev list) \<Rightarrow> nat \<Rightarrow> tftp_ev list" where
  "delivery file peer ns k = ns k @ [Datagram peer (data_packet file k)]"

lemma fetch_from_block:
  assumes "waiting file server peer k st" "f_retries st = 0" "1 \<le> k" "k \<le> nblocks file" "length file \<le> MAX_TOTAL_BYTES" "fst peer = fst server"
    "\<And>j. 1 \<le> j \<Longrightarrow> j \<le> nblocks file \<Longrightarrow> noise file server peer j (ns j)"
  shows "\<exists>st'. fetch_loop server st (concat (map (delivery file peer ns) [k..<Suc (nblocks file)]) @ rest) = (st', Some (Ok file))"
  using assms(1-4)
proof (induction "nblocks file - k" arbitrary: k st)
  case 0
  then have k: "k = nblocks file" by simp
  obtain st1 where "fetch_loop server st (ns k @ [Datagram peer (data_packet file k)] @ rest) = fetch_loop server st1 ([Datagram peer (data_packet file k)] @ rest)"
      "waiting file server peer k st1"
    using fetch_noise_ok [OF 0(2,4,3) assms(7) [OF 0(4,5)]] by blast
  with fetch_arrival [OF _ 0(4,5) assms(5,6), of st1] k show ?case by (auto simp: delivery_def)
next
  case (Suc d)
  then have k: "k < nblocks file" "[k..<Suc (nblocks file)] = k # [Suc k..<Suc (nblocks file)]" by (simp_all add: upt_conv_Cons del: upt_Suc)
  let ?more = "concat (map (delivery file peer ns) [Suc k..<Suc (nblocks file)]) @ rest"
  obtain st1 where l1: "fetch_loop server st (ns k @ [Datagram peer (data_packet file k)] @ ?more) = fetch_loop server st1 ([Datagram peer (data_packet file k)] @ ?more)"
      and w1: "waiting file server peer k st1"
    using fetch_noise_ok [OF Suc(3,5,4) assms(7) [OF Suc(5,6)]] by blast
  obtain st2 where t: "fetch_turn server st1 (Datagram peer (data_packet file k)) = (st2, None)" "f_retries st2 = 0" "waiting file server peer (Suc k) st2"
    using fetch_arrival [OF w1 Suc(5,6) assms(5,6)] k(1) by auto
  have "\<exists>st'. fetch_loop server st2 ?more = (st', Some (Ok file))" using Suc(1) [OF _ t(3,2)] Suc(2) k(1) by simp
  then show ?case using l1 t(1) k(2) by (simp add: delivery_def del: upt_Suc)
qed

text \<open>
  (C35) A TFTP download whose packets get through finishes with the file: if for each block at most three time-outs happen before it arrives, then
  whatever strangers send in between and however often the previous block is repeated, the download returns the whole file (of up to
  256 MiB, where block numbers wrap around several times).
\<close>

theorem tftp_fetch_completes:
  assumes "length file \<le> MAX_TOTAL_BYTES" "fst peer = fst server" "\<And>k. 1 \<le> k \<Longrightarrow> k \<le> nblocks file \<Longrightarrow> noise file server peer k (ns k)"
  shows "\<exists>st. fetch_loop server (fetch_start server filename) (concat (map (delivery file peer ns) [1..<Suc (nblocks file)])) = (st, Some (Ok file))"
proof -
  have "waiting file server peer 1 (fetch_start server filename)" "f_retries (fetch_start server filename) = 0"
    by (simp_all add: waiting_def fetch_start_def)
  from fetch_from_block [OF this _ _ assms, of "[]"] show ?thesis by (simp add: nblocks_def del: upt_Suc)
qed

definition demo_server :: addr where
  "demo_server = (''10.0.0.1'', 69)"

definition demo_peer :: addr where
  "demo_peer = (''10.0.0.1'', 4000)"

definition demo_events :: "tftp_ev list" where
  "demo_events = [TimedOut, Datagram (''10.0.0.9'', 1) [0, 9], Datagram demo_peer (data_packet [1, 2, 3] 1)]"

lemma demo_fetch_turns:
  "fetch_turn demo_server (fetch_start demo_server ''f'') TimedOut =
    (f_send ((fetch_start demo_server ''f'')\<lparr>f_retries := 1\<rparr>) (build_rrq ''f'') demo_server, None)"
  by (simp add: fetch_turn_def fetch_start_def)

theorem tftp_fetch_completes_witness:
  "\<exists>st. fetch_loop demo_server (fetch_start demo_server ''f'')
     (concat (map (delivery [1, 2, 3] demo_peer (\<lambda>k. [TimedOut, Datagram (''10.0.0.9'', 1) [0, 9]])) [1..<Suc (nblocks [1, 2, 3])])) =
     (st, Some (Ok [1, 2, 3]))"
  by (rule tftp_fetch_completes) (simp_all add: demo_server_def demo_peer_def noise_def stranger_def nblocks_def)

lemma demo_serves: "serves_run [1, 2, 3] demo_server (fetch_start demo_server ''f'') demo_events"
  by (simp add: demo_events_def serves_def stranger_def demo_fetch_turns) 
    (simp add: f_send_def fetch_start_def fetch_turn_def demo_server_def demo_peer_def blocks_done_def nblocks_def split: prod.splits option.splits)

lemma demo_fetched: "\<exists>st. fetch_loop demo_server (fetch_start demo_server ''f'') demo_events = (st, Some (Ok [1, 2, 3]))"
  by (simp add: demo_events_def demo_fetch_turns)
    (simp add: f_send_def fetch_start_def fetch_turn_def fetch_packet_def fetch_data_def demo_server_def demo_peer_def data_packet_def
      file_block_def parse_opcode_def parse_data_def write_data_def)

theorem tftp_fetch_exact_witness:
  "\<exists>st. fetch_loop demo_server (fetch_start demo_server ''f'') demo_events = (st, Some (Ok [1, 2, 3])) \<and> acks_ok ''f'' 1 (f_sent st)"
  using demo_fetched tftp_fetch_exact [OF demo_serves] by (fastforce simp: nblocks_def)

section \<open>Uploads\<close>

text \<open>A server acknowledges only blocks that were sent, none of them 65536 blocks old when it arrives.\<close>

definition acknowledges :: "addr \<Rightarrow> store_st \<Rightarrow> tftp_ev \<Rightarrow> bool" where
  "acknowledges server st ev \<longleftrightarrow>
     (case ev of
        Datagram from d \<Rightarrow> stranger server (s_peer st) from \<or>
          list_ex (\<lambda>k. s_blocks_sent st < k + 65536 \<and> d = build_ack (of_nat k)) [0..<Suc (s_blocks_sent st)]
      | _ \<Rightarrow> True)"

fun acknowledges_run :: "bytes \<Rightarrow> addr \<Rightarrow> store_st \<Rightarrow> tftp_ev list \<Rightarrow> bool" where
  "acknowledges_run data server st [] = True"
| "acknowledges_run data server st (ev # evs) =
     (acknowledges server st ev \<and> (case store_turn data server st ev of (st', None) \<Rightarrow> acknowledges_run data server st' evs | _ \<Rightarrow> True))"

text \<open>The packets in order, repetitions of one packet counted once.\<close>

definition packet_order :: "(bytes \<times> addr) list \<Rightarrow> bytes list" where
  "packet_order sent = remdups_adj (map fst sent)"

definition upload_packets :: "string \<Rightarrow> bytes \<Rightarrow> nat \<Rightarrow> bytes list" where
  "upload_packets filename data n = build_wrq filename # map (data_packet data) [1..<Suc n]"

definition store_inv :: "bytes \<Rightarrow> string \<Rightarrow> store_st \<Rightarrow> bool" where
  "store_inv data filename st \<longleftrightarrow>
     (let n = s_blocks_sent st
      in n \<le> nblocks data \<and> s_block st = of_nat n \<and> (s_final st \<longleftrightarrow> n = nblocks data) \<and>
         packet_order (s_sent st) = upload_packets filename data n \<and> s_sent st \<noteq> [] \<and> fst (List.last (s_sent st)) = s_last_packet st \<and>
         s_last_packet st = List.last (upload_packets filename data n))"

lemma packet_order_snoc:
  assumes "sent \<noteq> []"
  shows "packet_order (sent @ [(p, d)]) = packet_order sent @ (if fst (List.last sent) = p then [] else [p])"
proof -
  obtain ss q e where "sent = ss @ [(q, e)]" using assms by (metis append_butlast_last_id surj_pair)
  then show ?thesis by (simp add: packet_order_def remdups_adj_append_two)
qed

lemma store_inv_start: "store_inv data filename (store_start server filename)"
  by (simp add: store_inv_def store_start_def packet_order_def upload_packets_def nblocks_def)

lemma store_resend:
  assumes "store_inv data filename st"
  shows "store_inv data filename (s_send (st\<lparr>s_retries := r\<rparr>) (s_last_packet st) (s_last_dest st))"
  using assms by (auto simp: store_inv_def s_send_def packet_order_snoc Let_def)

lemma next_packet_new:
  assumes "n < nblocks data"
  shows "List.last (upload_packets filename data n) \<noteq> data_packet data (Suc n)"
proof (cases n)
  case 0
  have "parse_opcode (build_wrq filename) = Some OP_WRQ" by (simp add: parse_opcode_def build_wrq_def build_request_def)
  then show ?thesis using 0 packet_opcodes(1) by (auto simp: upload_packets_def data_packet_def)
next
  case (Suc m)
  have "(of_nat (Suc m) :: u16) \<noteq> of_nat (Suc (Suc m))" using block_numbers [of "Suc m" "Suc (Suc m)"] by simp
  then have "parse_data (data_packet data (Suc m)) \<noteq> parse_data (data_packet data (Suc (Suc m)))" unfolding data_packet_def parse_write_data by blast
  then show ?thesis using Suc by (auto simp: upload_packets_def)
qed

lemma store_ack_step:
  assumes "store_inv data filename st" "k \<le> s_blocks_sent st" "s_blocks_sent st < k + 65536" "store_ack data st src (of_nat k) = (st', r)"
  shows "(r = None \<longrightarrow> store_inv data filename st') \<and> (r = Some (Ok ()) \<longrightarrow> packet_order (s_sent st') = upload_packets filename data (nblocks data) \<and> k = nblocks data)"
proof -
  let ?n = "s_blocks_sent st"
  have bl: "s_block st = of_nat ?n" "?n \<le> nblocks data" "s_final st \<longleftrightarrow> ?n = nblocks data" using assms(1) by (simp_all add: store_inv_def Let_def)
  have num: "(of_nat k :: u16) = s_block st \<longleftrightarrow> k = ?n" using block_numbers [of k ?n] assms(2,3) bl(1) by simp
  show ?thesis
  proof (cases "k = ?n \<and> \<not> s_final st")
    case False
    then show ?thesis using assms(1,4) num bl by (auto simp: store_ack_def store_inv_def Let_def split: if_splits)
  next
    case True
    then have lt: "?n < nblocks data" using bl by simp
    define p where "p = data_packet data (Suc ?n)"
    have off: "?n * BLOCK_SIZE \<le> length data" using lt nblocks_bounds(1) [of data] by (simp add: nblocks_def)
    have pay: "take (min (?n * BLOCK_SIZE + BLOCK_SIZE) (length data) - ?n * BLOCK_SIZE) (drop (?n * BLOCK_SIZE) data) = file_block data (Suc ?n)"
      using off by (simp add: file_block_def min_def mult.commute take_all_iff)
    have "write_data (s_block st + 1) (file_block data (Suc ?n)) = p" using bl(1) by (simp add: p_def data_packet_def add.commute)
    moreover have "length (file_block data (Suc ?n)) < BLOCK_SIZE \<longleftrightarrow> Suc ?n = nblocks data" using length_file_block(1) [of "Suc ?n" data] lt by simp
    ultimately have st': "r = None" "s_sent st' = s_sent st @ [(p, src)]" "s_last_packet st' = p" "s_blocks_sent st' = Suc ?n" "s_block st' = of_nat (Suc ?n)"
        "s_final st' \<longleftrightarrow> Suc ?n = nblocks data"
      using assms(4) True num bl(1) pay by (auto simp: store_ack_def Let_def s_send_def add.commute simp del: length_take split: if_splits)
    have "packet_order (s_sent st') = upload_packets filename data ?n @ [p]"
      using assms(1) packet_order_snoc [of "s_sent st" p src] next_packet_new [OF lt, of filename] st'(2) by (simp add: store_inv_def Let_def p_def)
    then show ?thesis using st' lt by (simp add: store_inv_def Let_def upload_packets_def p_def)
  qed
qed

lemma store_turn_packet:
  assumes "\<not> stranger server (s_peer st) src"
  shows "store_turn data server st (Datagram src (build_ack b)) = store_ack data st src b"
proof -
  have "store_turn data server st (Datagram src (build_ack b)) = store_packet data st src (take RECV_BUF (build_ack b))"
    using assms unfolding store_turn_def stranger_def by simp
  then show ?thesis unfolding ack_fits by (simp add: store_packet_def packet_opcodes)
qed

lemma store_turn_acknowledges:
  assumes "store_inv data filename st" "acknowledges server st ev" "store_turn data server st ev = (st', r)"
  shows "(r = None \<longrightarrow> store_inv data filename st') \<and>
    (r = Some (Ok ()) \<longrightarrow> packet_order (s_sent st') = upload_packets filename data (nblocks data) \<and> (\<exists>src. ev = Datagram src (build_ack (of_nat (nblocks data)))))"
proof (cases ev)
  case TimedOut
  with assms store_resend [OF assms(1)] show ?thesis by (auto simp: store_turn_def split: if_splits)
next
  case (Datagram src d)
  show ?thesis
  proof (cases "stranger server (s_peer st) src")
    case True
    with Datagram assms show ?thesis by (auto simp: store_turn_def stranger_def)
  next
    case False
    with Datagram assms(2) obtain k where k: "k \<le> s_blocks_sent st" "s_blocks_sent st < k + 65536" "d = build_ack (of_nat k)"
      by (auto simp: acknowledges_def list_ex_iff less_Suc_eq_le simp del: upt_Suc)
    have "store_ack data st src (of_nat k) = (st', r)" using assms(3) unfolding Datagram k(3) store_turn_packet [OF False] .
    from store_ack_step [OF assms(1) k(1,2) this] Datagram k(3) show ?thesis by auto
  qed
qed (use assms in \<open>auto simp: store_turn_def\<close>)

lemma store_loop_acknowledges:
  assumes "store_inv data filename st" "acknowledges_run data server st evs" "store_loop data server st evs = (st', Some (Ok ()))"
  shows "packet_order (s_sent st') = upload_packets filename data (nblocks data) \<and> (\<exists>src. Datagram src (build_ack (of_nat (nblocks data))) \<in> set evs)"
  using assms
proof (induction evs arbitrary: st)
  case (Cons ev evs)
  obtain st1 r1 where t: "store_turn data server st ev = (st1, r1)" by fastforce
  from Cons.prems(2) have a: "acknowledges server st ev" by simp
  note s = store_turn_acknowledges [OF Cons.prems(1) a t]
  show ?case
  proof (cases r1)
    case None
    with Cons.IH [of st1] Cons.prems t s show ?thesis by auto
  next
    case (Some x)
    with Cons.prems t s show ?thesis by auto
  qed
qed simp

text \<open>
  (C36) A TFTP upload that is reported as done has been sent: whatever acknowledgements are lost, repeated or late by less than 65536 blocks, and
  whatever strangers send, the packets are the write request and then every block of the data in order, each perhaps repeated, ending with a
  short one, and the last block has been acknowledged.
\<close>

theorem tftp_store_exact:
  assumes "acknowledges_run data server (store_start server filename) evs" "store_loop data server (store_start server filename) evs = (st, Some (Ok ()))"
  shows "packet_order (s_sent st) = build_wrq filename # map (data_packet data) [1..<Suc (nblocks data)] \<and>
    concat (map (file_block data) [1..<Suc (nblocks data)]) = data \<and> length (file_block data (nblocks data)) < BLOCK_SIZE \<and>
    (\<exists>src. Datagram src (build_ack (of_nat (nblocks data))) \<in> set evs)"
proof -
  have "1 \<le> nblocks data" by (simp add: nblocks_def)
  then have "length (file_block data (nblocks data)) < BLOCK_SIZE" using length_file_block(1) [of "nblocks data" data] by simp
  moreover have "concat (map (file_block data) [1..<Suc (nblocks data)]) = data" unfolding blocks_concat by (rule take_all_blocks)
  ultimately show ?thesis using store_loop_acknowledges [OF store_inv_start assms] by (simp add: upload_packets_def del: upt_Suc)
qed

definition demo_acks :: "tftp_ev list" where
  "demo_acks = [Datagram demo_peer (build_ack 0), TimedOut, Datagram demo_peer (build_ack 0), Datagram demo_peer (build_ack 1)]"

lemma demo_first_ack:
  "store_turn [7] demo_server (store_start demo_server ''f'') (Datagram demo_peer (build_ack 0)) =
    (\<lparr>s_peer = Some demo_peer, s_block = 1, s_blocks_sent = 1, s_final = True, s_last_packet = write_data 1 [7], s_last_dest = demo_peer,
      s_retries = 0, s_sent = [(build_wrq ''f'', demo_server), (write_data 1 [7], demo_peer)]\<rparr>, None)"
  by (subst store_turn_packet) (simp_all add: stranger_def store_start_def demo_server_def demo_peer_def store_ack_def s_send_def Let_def)

definition demo_stored :: "nat \<Rightarrow> (bytes \<times> addr) list \<Rightarrow> store_st" where
  "demo_stored r sent = \<lparr>s_peer = Some demo_peer, s_block = 1, s_blocks_sent = 1, s_final = True, s_last_packet = write_data 1 [7],
     s_last_dest = demo_peer, s_retries = r, s_sent = sent\<rparr>"

lemma demo_more_acks:
  "store_turn [7] demo_server (demo_stored r sent) (Datagram demo_peer (build_ack 0)) = (demo_stored r sent, None)"
  "store_turn [7] demo_server (demo_stored r sent) (Datagram demo_peer (build_ack 1)) = (demo_stored r sent, Some (Ok ()))"
  "store_turn [7] demo_server (demo_stored 0 sent) TimedOut = (demo_stored 1 (sent @ [(write_data 1 [7], demo_peer)]), None)"
  by (subst store_turn_packet, simp add: stranger_def demo_stored_def, simp add: store_ack_def demo_stored_def)
    (subst store_turn_packet, simp add: stranger_def demo_stored_def, simp add: store_ack_def demo_stored_def,
     simp add: store_turn_def demo_stored_def s_send_def)

lemmas demo_turns = demo_first_ack [folded demo_stored_def] demo_more_acks

lemma demo_acknowledged:
  "acknowledges_run [7] demo_server (store_start demo_server ''f'') demo_acks"
  "store_loop [7] demo_server (store_start demo_server ''f'') demo_acks =
    (demo_stored 1 [(build_wrq ''f'', demo_server), (write_data 1 [7], demo_peer), (write_data 1 [7], demo_peer)], Some (Ok ()))"
  by (simp_all add: demo_acks_def demo_turns acknowledges_def) (simp add: store_start_def demo_stored_def)

theorem tftp_store_exact_witness:
  "packet_order (s_sent (fst (store_loop [7] demo_server (store_start demo_server ''f'') demo_acks))) = [build_wrq ''f'', data_packet [7] 1]"
  using tftp_store_exact [OF demo_acknowledged] by (simp add: demo_acknowledged(2) nblocks_def)

end
