(* ===== verification/Ldap_Ber.thy ===== *)
theory Ldap_Ber
  imports Codec
begin

text \<open>
  The BER subset of \<open>ldap.rs\<close>: tags, definite lengths, TLVs and two's-complement integers. The cursor of \<open>BerReader\<close> is the remaining input.
  What is written is read back, so the encoding of a sequence of TLVs is unambiguous.
\<close>

section \<open>Tags\<close>

type_synonym i64 = "64 word"

abbreviation (input) BOOLEAN :: byte where "BOOLEAN \<equiv> 0x01"
abbreviation (input) INTEGER :: byte where "INTEGER \<equiv> 0x02"
abbreviation (input) OCTET_STRING :: byte where "OCTET_STRING \<equiv> 0x04"
abbreviation (input) ENUMERATED :: byte where "ENUMERATED \<equiv> 0x0A"
abbreviation (input) SEQUENCE :: byte where "SEQUENCE \<equiv> 0x30"
abbreviation (input) BER_SET :: byte where "BER_SET \<equiv> 0x31"

definition tag_app :: "byte \<Rightarrow> bool \<Rightarrow> byte" where
  "tag_app n constructed = 0x40 OR (if constructed then 0x20 else 0) OR (n AND 0x1f)"

definition tag_ctx :: "byte \<Rightarrow> bool \<Rightarrow> byte" where
  "tag_ctx n constructed = 0x80 OR (if constructed then 0x20 else 0) OR (n AND 0x1f)"

section \<open>Writer\<close>

text \<open>The bytes the loop of \<open>encode_length\<close> stores in \<open>tmp\<close>, least significant first.\<close>

fun length_tmp :: "nat \<Rightarrow> bytes" where
  "length_tmp l = (if l = 0 then [] else of_nat (l mod 256) # length_tmp (l div 256))"

declare length_tmp.simps [simp del]

definition encode_length :: "nat \<Rightarrow> bytes" where
  "encode_length len =
     (if len < 0x80 then [of_nat len]
      else let tmp = length_tmp len in (0x80 OR of_nat (length tmp)) # rev tmp)"

definition write_tlv :: "byte \<Rightarrow> bytes \<Rightarrow> bytes" where
  "write_tlv tag value = tag # encode_length (length value) @ value"

text \<open>The body is written behind a one-byte place holder for the length, which is patched or spliced out afterwards.\<close>

definition write_constructed :: "byte \<Rightarrow> bytes \<Rightarrow> bytes" where
  "write_constructed tag body =
     (let out = [tag, 0] @ body; body_len = length out - 2
      in if body_len < 0x80 then out[1 := of_nat body_len]
         else take 1 out @ encode_length body_len @ drop 2 out)"

fun int_skip :: "bytes \<Rightarrow> bytes" where
  "int_skip (first # next # r) =
     (if (first = 0x00 \<and> next AND 0x80 = 0) \<or> (first = 0xff \<and> next AND 0x80 \<noteq> 0) then int_skip (next # r)
      else first # next # r)"
| "int_skip bs = bs"

definition write_int_tlv :: "byte \<Rightarrow> i64 \<Rightarrow> bytes" where
  "write_int_tlv tag v = write_tlv tag (int_skip (be_bytes 8 (unat v)))"

definition write_integer :: "i64 \<Rightarrow> bytes" where
  "write_integer v = write_int_tlv INTEGER v"

definition write_enumerated :: "i64 \<Rightarrow> bytes" where
  "write_enumerated v = write_int_tlv ENUMERATED v"

definition write_octet_string :: "bytes \<Rightarrow> bytes" where
  "write_octet_string s = write_tlv OCTET_STRING s"

definition write_boolean :: "bool \<Rightarrow> bytes" where
  "write_boolean b = write_tlv BOOLEAN [if b then 0xff else 0x00]"

section \<open>Reader\<close>

definition read_length :: "bytes \<Rightarrow> (nat \<times> bytes) result" where
  "read_length data =
     (case data of
        [] \<Rightarrow> Err (BadResponse ''ber: truncated length'')
      | first # r \<Rightarrow>
          if first < 0x80 then Ok (unat first, r)
          else let n = unat (first AND 0x7f)
            in if n = 0 then Err (BadResponse ''ber: indefinite length not allowed'')
               else if n > 8 then Err (BadResponse ''ber: length too large'')
               else if length r < n then Err (BadResponse ''ber: truncated length bytes'')
               else Ok (be_val (take n r), drop n r))"

definition read_tlv :: "bytes \<Rightarrow> ((byte \<times> bytes) \<times> bytes) result" where
  "read_tlv data =
     (case data of
        [] \<Rightarrow> Err (BadResponse ''ber: truncated tag'')
      | tag # r \<Rightarrow>
          res_bind (read_length r) (\<lambda>(len, r').
            if length r' < len then Err (BadResponse ''ber: truncated value'')
            else Ok ((tag, take len r'), drop len r')))"

definition read_expect :: "byte \<Rightarrow> bytes \<Rightarrow> (bytes \<times> bytes) result" where
  "read_expect tag data =
     res_bind (read_tlv data) (\<lambda>((t, value), r). if t \<noteq> tag then Err (BadResponse ''ber: expected tag'') else Ok (value, r))"

definition int_step :: "i64 \<Rightarrow> byte \<Rightarrow> i64" where
  "int_step acc b = push_bit 8 acc OR ucast b"

definition decode_integer_i64 :: "bytes \<Rightarrow> i64 result" where
  "decode_integer_i64 bs =
     (if bs = [] \<or> length bs > 8 then Err (BadResponse ''ber: bad integer length'')
      else Ok (foldl int_step (if hd bs AND 0x80 \<noteq> 0 then - 1 else 0) bs))"

definition read_integer_i64 :: "bytes \<Rightarrow> (i64 \<times> bytes) result" where
  "read_integer_i64 data =
     res_bind (read_expect INTEGER data) (\<lambda>(v, r). res_bind (decode_integer_i64 v) (\<lambda>n. Ok (n, r)))"

definition read_enumerated_i64 :: "bytes \<Rightarrow> (i64 \<times> bytes) result" where
  "read_enumerated_i64 data =
     res_bind (read_expect ENUMERATED data) (\<lambda>(v, r). res_bind (decode_integer_i64 v) (\<lambda>n. Ok (n, r)))"

definition read_octet_string :: "bytes \<Rightarrow> (bytes \<times> bytes) result" where
  "read_octet_string data = read_expect OCTET_STRING data"

section \<open>Lengths\<close>

lemma length_tmp_simps: "length_tmp 0 = []" "l \<noteq> 0 \<Longrightarrow> length_tmp l = of_nat (l mod 256) # length_tmp (l div 256)"
  by (simp_all add: length_tmp.simps)

lemma be_val_length_tmp: "be_val (rev (length_tmp l)) = l"
proof (induction l rule: length_tmp.induct)
  case (1 l)
  then show ?case by (cases "l = 0") (simp_all add: length_tmp_simps unat_of_nat)
qed

lemma length_length_tmp: "l < 256 ^ n \<Longrightarrow> length (length_tmp l) \<le> n"
proof (induction n arbitrary: l)
  case 0
  then show ?case by (simp add: length_tmp_simps)
next
  case (Suc n)
  have "l div 256 < 256 ^ n" using Suc.prems by (simp add: less_mult_imp_div_less mult.commute)
  with Suc.IH show ?case by (cases "l = 0") (simp_all add: length_tmp_simps)
qed

lemma long_form_byte:
  assumes "n \<le> 8"
  shows "\<not> 0x80 OR of_nat n < (0x80 :: byte)" "unat ((0x80 OR of_nat n) AND 0x7f :: byte) = n"
proof -
  have "n = 0 \<or> n = 1 \<or> n = 2 \<or> n = 3 \<or> n = 4 \<or> n = 5 \<or> n = 6 \<or> n = 7 \<or> n = 8" using assms by arith
  then show "\<not> 0x80 OR of_nat n < (0x80 :: byte)" "unat ((0x80 OR of_nat n) AND 0x7f :: byte) = n" by (elim disjE; simp)+
qed

lemma read_encode_length [simp]:
  assumes "len \<le> U64_MAX"
  shows "read_length (encode_length len @ r) = Ok (len, r)"
proof (cases "len < 0x80")
  case True
  then show ?thesis by (simp add: encode_length_def read_length_def word_less_nat_alt unat_of_nat)
next
  case False
  let ?n = "length (length_tmp len)"
  have "len < 256 ^ 8" using assms by simp
  then have n: "?n \<le> 8" by (rule length_length_tmp)
  have "0 < ?n" using False by (simp add: length_tmp_simps)
  then show ?thesis using False n long_form_byte [OF n]
    by (simp add: encode_length_def read_length_def Let_def be_val_length_tmp)
qed

lemma read_length_shorter: "read_length data = Ok (n, r) \<Longrightarrow> length r < length data"
  by (auto simp: read_length_def Let_def split: list.splits if_splits)

section \<open>Values\<close>

lemma write_constructed_eq: "write_constructed tag body = write_tlv tag body"
  by (simp add: write_constructed_def write_tlv_def encode_length_def Let_def)

lemma read_write_tlv [simp]: "length value \<le> U64_MAX \<Longrightarrow> read_tlv (write_tlv tag value @ r) = Ok ((tag, value), r)"
  by (simp add: read_tlv_def write_tlv_def)

lemma read_tlv_shorter: "read_tlv data = Ok (tv, r) \<Longrightarrow> length r < length data \<and> length (snd tv) < length data"
  by (auto simp: read_tlv_def dest!: read_length_shorter split: list.splits if_splits)

lemma read_expect_shorter: "read_expect t data = Ok (v, r) \<Longrightarrow> length r < length data \<and> length v < length data"
  by (auto simp: read_expect_def dest!: read_tlv_shorter split: if_splits)

lemma read_expect_write [simp]: "length value \<le> U64_MAX \<Longrightarrow> read_expect tag (write_tlv tag value @ r) = Ok (value, r)"
  by (simp add: read_expect_def)

interpretation ber: stream_codec "\<lambda>(tag, value). write_tlv tag value" read_tlv "\<lambda>(tag, value). length value \<le> U64_MAX"
  by unfold_locales auto

text \<open>A sequence of TLVs is determined by its bytes.\<close>

lemma tlvs_unique:
  assumes "\<forall>tv \<in> set xs \<union> set ys. length (snd tv) \<le> U64_MAX"
    and "concat (map (\<lambda>(tag, value). write_tlv tag value) xs) = concat (map (\<lambda>(tag, value). write_tlv tag value) ys)"
  shows "xs = ys"
  using assms
proof (induction xs arbitrary: ys)
  case Nil
  then show ?case by (cases ys) (auto simp: write_tlv_def)
next
  case (Cons x xs)
  show ?case
  proof (cases ys)
    case Nil
    with Cons.prems show ?thesis by (cases x) (simp add: write_tlv_def)
  next
    case (Cons y ys')
    have "x = y \<and> concat (map (\<lambda>(tag, value). write_tlv tag value) xs) = concat (map (\<lambda>(tag, value). write_tlv tag value) ys')"
      by (rule ber.unique_parse) (use Cons.prems Cons in \<open>simp_all add: case_prod_unfold\<close>)
    with Cons.IH [of ys'] Cons.prems Cons show ?thesis by simp
  qed
qed

section \<open>Integers\<close>

lemma int_step_eq: "int_step acc b = 256 * acc + ucast b"
proof -
  have "push_bit 8 acc AND ucast b = 0"
    by (rule bit_word_eqI) (auto simp: bit_simps dest: bit_imp_le_length)
  then have "push_bit 8 acc OR ucast b = push_bit 8 acc + ucast b" by (simp add: disjunctive_add_eq_or)
  then show ?thesis by (simp add: int_step_def push_bit_eq_mult mult.commute)
qed

lemma foldl_int_step: "foldl int_step acc bs = acc * 256 ^ length bs + of_nat (be_val bs)"
proof (induction bs rule: rev_induct)
  case (snoc b bs)
  then show ?case by (simp add: int_step_eq algebra_simps)
qed simp

lemma int_step_neutral: "int_step 0 0 = 0" "int_step (- 1) 0xff = - 1"
  by (simp_all add: int_step_eq)

lemma decode_int_skip:
  "bs \<noteq> [] \<Longrightarrow> foldl int_step (if hd (int_skip bs) AND 0x80 \<noteq> 0 then - 1 else 0) (int_skip bs) =
    foldl int_step (if hd bs AND 0x80 \<noteq> 0 then - 1 else 0) bs"
  by (induction bs rule: int_skip.induct) (auto simp: int_step_neutral)

lemma int_skip_length: "bs \<noteq> [] \<Longrightarrow> int_skip bs \<noteq> [] \<and> length (int_skip bs) \<le> length bs"
  by (induction bs rule: int_skip.induct) auto

lemma decode_int_bytes: "decode_integer_i64 (int_skip (be_bytes 8 (unat v))) = Ok v"
proof -
  let ?b = "be_bytes 8 (unat v)"
  have ne: "?b \<noteq> []" by (metis length_be_bytes list.size(3) zero_neq_numeral)
  have z: "(256 :: i64) ^ 8 = 0" by simp
  have "be_val ?b = unat v" using unsigned_less [of v, where 'a = nat] by (simp add: be_val_be_bytes)
  then have "foldl int_step a ?b = v" for a by (simp only: foldl_int_step length_be_bytes z) simp
  with decode_int_skip [OF ne] int_skip_length [OF ne] show ?thesis by (simp add: decode_integer_i64_def)
qed

lemma int_bytes_small: "length (int_skip (be_bytes 8 (unat v))) \<le> U64_MAX"
  using int_skip_length [of "be_bytes 8 (unat v)"] by (cases "be_bytes 8 (unat v) = []") auto

interpretation ber_integer: stream_codec write_integer read_integer_i64 "\<lambda>_. True"
  by unfold_locales (simp add: write_integer_def write_int_tlv_def read_integer_i64_def int_bytes_small decode_int_bytes)

interpretation ber_enumerated: stream_codec write_enumerated read_enumerated_i64 "\<lambda>_. True"
  by unfold_locales (simp add: write_enumerated_def write_int_tlv_def read_enumerated_i64_def int_bytes_small decode_int_bytes)

interpretation ber_octets: stream_codec write_octet_string read_octet_string "\<lambda>s. length s \<le> U64_MAX"
  by unfold_locales (simp add: write_octet_string_def read_octet_string_def)

end
