(* ===== verification/Ldap_Filter.thy ===== *)
theory Ldap_Filter
  imports Ldap_Ber Url
begin

text \<open>
  Search filters (\<open>ldap.rs\<close>): the recursive parser of the string form (RFC 4515) and the BER encoding (RFC 4511). The cursor of the parser is
  the remaining input.
\<close>

section \<open>Filters\<close>

datatype ldap_filter =
    FAnd "ldap_filter list"
  | FOr "ldap_filter list"
  | FNot ldap_filter
  | EqualityMatch string bytes
  | GreaterOrEqual string bytes
  | LessOrEqual string bytes
  | ApproxMatch string bytes
  | Substrings string "bytes option" "bytes list" "bytes option"
  | Present string
  | ExtensibleMatch "string option" "string option" bytes bool

abbreviation ferr :: "string \<Rightarrow> error" where
  "ferr m \<equiv> BadResponse (''filter: '' @ m)"

definition hex_val :: "byte \<Rightarrow> byte option" where
  "hex_val b =
     (if 0x30 \<le> b \<and> b \<le> 0x39 then Some (b - 0x30)
      else if 0x61 \<le> b \<and> b \<le> 0x66 then Some (10 + b - 0x61)
      else if 0x41 \<le> b \<and> b \<le> 0x46 then Some (10 + b - 0x41)
      else None)"

definition hex_pair :: "bytes \<Rightarrow> byte option" where
  "hex_pair p =
     (case p of
        h # l # r \<Rightarrow> (case hex_val h of None \<Rightarrow> None | Some hv \<Rightarrow> map_option (\<lambda>lv. push_bit 4 hv OR lv) (hex_val l))
      | _ \<Rightarrow> None)"

function unescape_bytes :: "bytes \<Rightarrow> bytes result" where
  "unescape_bytes [] = Ok []"
| "unescape_bytes (b # r) =
     (if b = 0x5c then
        (case hex_pair r of
           Some v \<Rightarrow> res_bind (unescape_bytes (drop 2 r)) (\<lambda>out. Ok (v # out))
         | None \<Rightarrow> Err (ferr ''bad escape (expected XX hex pair)''))
      else res_bind (unescape_bytes r) (\<lambda>out. Ok (b # out)))"
  by pat_completeness auto
termination
  by (relation "measure length") auto

definition unescape_value :: "string \<Rightarrow> bytes result" where
  "unescape_value raw = unescape_bytes (as_bytes raw)"

section \<open>Parser\<close>

abbreviation (input) MAX_FILTER_DEPTH :: nat where "MAX_FILTER_DEPTH \<equiv> 64"

definition expect :: "byte \<Rightarrow> bytes \<Rightarrow> bytes result" where
  "expect c inp = (case inp of x # r \<Rightarrow> if x = c then Ok r else Err (ferr ''expected'') | [] \<Rightarrow> Err (ferr ''got EOF''))"

definition read_value :: "bytes \<Rightarrow> (string \<times> bytes) result" where
  "read_value inp =
     res_bind (ok_or (ferr ''non-utf8 value'') (from_utf8 (takeWhile (\<lambda>c. c \<noteq> 0x29) inp)))
       (\<lambda>s. Ok (s, dropWhile (\<lambda>c. c \<noteq> 0x29) inp))"

text \<open>The loop over the segments of a substring pattern; \<open>i\<close> is the index of the next segment and \<open>last\<close> the number of asterisks.\<close>

fun segment_loop :: "nat \<Rightarrow> nat \<Rightarrow> bytes option \<times> bytes list \<times> bytes option \<Rightarrow> string list \<Rightarrow> (bytes option \<times> bytes list \<times> bytes option) result"
where
  "segment_loop lst i acc [] = Ok acc"
| "segment_loop lst i (initial, any, final) (seg # segs) =
     (if seg = [] then segment_loop lst (i + 1) (initial, any, final) segs
      else res_bind (reject_ctl ''ldap'' ''filter substring segment'' seg) (\<lambda>_.
        res_bind (unescape_value seg) (\<lambda>v.
          segment_loop lst (i + 1)
            (if i = 0 then (Some v, any, final) else if i = lst then (initial, any, Some v) else (initial, any @ [v], final)) segs)))"

text \<open>The loop over the tokens between the attribute and the operator of an extensible match.\<close>

fun token_loop :: "bool \<Rightarrow> string option \<Rightarrow> string list \<Rightarrow> (bool \<times> string option) result" where
  "token_loop dn rule [] = Ok (dn, rule)"
| "token_loop dn rule (tok # toks) =
     (if tok = ''dn'' then (if dn then Err (ferr ''duplicate dn in extensible match'') else token_loop True rule toks)
      else if tok = [] then Err (ferr ''empty token in extensible match'')
      else if rule \<noteq> None then Err (ferr ''multiple matching rules in extensible match'')
      else token_loop dn (Some tok) toks)"

definition reject_opt :: "string \<Rightarrow> string option \<Rightarrow> unit result" where
  "reject_opt what t = (case t of Some s \<Rightarrow> reject_ctl ''ldap'' what s | None \<Rightarrow> Ok ())"

definition parse_extensible :: "string \<Rightarrow> bytes \<Rightarrow> (ldap_filter \<times> bytes) result" where
  "parse_extensible desc inp =
     (if \<not> ends_with '':'' desc then Err (ferr ''malformed extensible match'')
      else
        (let tokens = split_on (CHR '':'') (butlast desc);
             attr_type = (if hd tokens = [] then None else Some (hd tokens))
         in res_bind (token_loop False None (tl tokens)) (\<lambda>(dn_attributes, matching_rule).
              if attr_type = None \<and> matching_rule = None then Err (ferr ''extensible match needs an attribute or matching rule'')
              else res_bind (read_value inp) (\<lambda>(raw, rest).
                res_bind (reject_ctl ''ldap'' ''filter extensible match value'' raw) (\<lambda>_.
                res_bind (unescape_value raw) (\<lambda>match_value.
                res_bind (reject_opt ''filter extensible match attribute'' attr_type) (\<lambda>_.
                res_bind (reject_opt ''filter extensible match rule'' matching_rule) (\<lambda>_.
                  Ok (ExtensibleMatch matching_rule attr_type match_value dn_attributes, rest)))))))))"

definition parse_assertion :: "string \<Rightarrow> bytes \<Rightarrow> (ldap_filter \<times> bytes) result" where
  "parse_assertion attr inp =
     res_bind (read_value inp) (\<lambda>(value_raw, rest).
       if value_raw = ''*'' then Ok (Present attr, rest)
       else if CHR ''*'' \<in> set value_raw then
         res_bind (segment_loop (length (filter (\<lambda>c. c = CHR ''*'') value_raw)) 0 (None, [], None) (split_on (CHR ''*'') value_raw))
           (\<lambda>(initial, any, final). Ok (Substrings attr initial any final, rest))
       else res_bind (reject_ctl ''ldap'' ''filter value'' value_raw) (\<lambda>_.
         res_bind (unescape_value value_raw) (\<lambda>value. Ok (EqualityMatch attr value, rest))))"

definition parse_ordering :: "byte \<Rightarrow> string \<Rightarrow> bytes \<Rightarrow> (ldap_filter \<times> bytes) result" where
  "parse_ordering op desc inp =
     res_bind (expect 0x3d inp) (\<lambda>r1.
       if desc = [] \<or> CHR '':'' \<in> set desc then Err (ferr ''bad attribute'')
       else res_bind (read_value r1) (\<lambda>(raw, rest).
         res_bind (reject_ctl ''ldap'' ''filter value'' raw) (\<lambda>_.
         res_bind (unescape_value raw) (\<lambda>value.
           Ok (if op = 0x3e then GreaterOrEqual desc value else if op = 0x3c then LessOrEqual desc value else ApproxMatch desc value, rest)))))"

definition desc_byte :: "byte \<Rightarrow> bool" where
  "desc_byte c \<longleftrightarrow> c \<noteq> 0x3d \<and> c \<noteq> 0x29 \<and> c \<noteq> 0x7e \<and> c \<noteq> 0x3c \<and> c \<noteq> 0x3e"

definition parse_simple :: "bytes \<Rightarrow> (ldap_filter \<times> bytes) result" where
  "parse_simple inp =
     res_bind (ok_or (ferr ''non-utf8 attr'') (from_utf8 (takeWhile desc_byte inp))) (\<lambda>desc.
       let r = dropWhile desc_byte inp
       in if r \<noteq> [] \<and> (hd r = 0x7e \<or> hd r = 0x3c \<or> hd r = 0x3e) then parse_ordering (hd r) desc (tl r)
          else res_bind (expect 0x3d r) (\<lambda>r1.
            if CHR '':'' \<in> set desc then parse_extensible desc r1 else parse_assertion desc r1))"

function (sequential) parse_at :: "nat \<Rightarrow> bytes \<Rightarrow> (ldap_filter \<times> bytes) result"
  and parse_list :: "nat \<Rightarrow> ldap_filter list \<Rightarrow> bytes \<Rightarrow> (ldap_filter list \<times> bytes) result" where
  "parse_at depth inp =
     (if depth > MAX_FILTER_DEPTH then Err (BadResponse ''ldap: filter nesting too deep'')
      else
        (case inp of
           [] \<Rightarrow> Err (ferr ''got EOF'')
         | x # r \<Rightarrow>
             if x \<noteq> 0x28 then Err (ferr ''expected'')
             else res_bind
               (case r of
                  [] \<Rightarrow> Err (ferr ''empty filter'')
                | c # r1 \<Rightarrow>
                    if c = 0x26 then res_bind (parse_list (depth + 1) [] r1) (\<lambda>(items, r2). Ok (FAnd items, r2))
                    else if c = 0x7c then res_bind (parse_list (depth + 1) [] r1) (\<lambda>(items, r2). Ok (FOr items, r2))
                    else if c = 0x21 then res_bind (parse_at (depth + 1) r1) (\<lambda>(inner, r2). Ok (FNot inner, r2))
                    else parse_simple r)
               (\<lambda>(f, r3). res_bind (expect 0x29 r3) (\<lambda>rest. Ok (f, rest)))))"
| "parse_list depth out inp =
     (if inp \<noteq> [] \<and> hd inp = 0x28 then
        res_bind (parse_at depth inp) (\<lambda>(f, r). parse_list depth (out @ [f]) r)
      else if out = [] then Err (ferr ''empty list'')
      else Ok (out, inp))"
  by pat_completeness auto

lemma read_value_shorter: "read_value inp = Ok (s, r) \<Longrightarrow> length r \<le> length inp"
  by (auto simp: read_value_def length_dropWhile_le)

lemma expect_shorter: "expect c inp = Ok r \<Longrightarrow> length r < length inp"
  by (auto simp: expect_def split: list.splits if_splits)

lemma parse_simple_shorter: "parse_simple inp = Ok (f, r) \<Longrightarrow> length r \<le> length inp"
proof -
  assume a: "parse_simple inp = Ok (f, r)"
  have d: "length (dropWhile desc_byte inp) \<le> length inp" by (rule length_dropWhile_le)
  have "length r \<le> length (dropWhile desc_byte inp)"
    using a by (auto simp: parse_simple_def parse_ordering_def parse_extensible_def parse_assertion_def Let_def
        dest!: read_value_shorter expect_shorter split: if_splits) arith+
  with d show ?thesis by simp
qed

lemma parse_at_shorter:
  "parse_at_parse_list_dom (Inl (d, inp)) \<Longrightarrow> parse_at d inp = Ok (f, rest) \<Longrightarrow> length rest < length inp"
  "parse_at_parse_list_dom (Inr (d, out, inp)) \<Longrightarrow> parse_list d out inp = Ok (fs, rest) \<Longrightarrow> length rest \<le> length inp"
proof (induction d inp and d out inp arbitrary: f rest and fs rest rule: parse_at_parse_list.pinduct)
  case (1 depth inp)
  show ?case
  proof (cases inp)
    case (Cons x r)
    note c1 = this
    show ?thesis
    proof (cases r)
      case (Cons c r1)
      note ih = "1.IH" [OF _ c1 _ Cons]
      show ?thesis using "1.prems" "1.hyps" c1 Cons ih
        by (auto simp: parse_at.psimps dest!: expect_shorter parse_simple_shorter split: if_splits)
    qed (use "1.prems" "1.hyps" c1 in \<open>simp add: parse_at.psimps split: if_splits\<close>)
  qed (use "1.prems" "1.hyps" in \<open>simp add: parse_at.psimps split: if_splits\<close>)
next
  case (2 depth out inp)
  then show ?case by (fastforce simp: parse_list.psimps split: if_splits)
qed

termination parse_at
  by (relation "measures [\<lambda>x. case x of Inl (d, inp) \<Rightarrow> length inp | Inr (d, out, inp) \<Rightarrow> length inp, \<lambda>x. case x of Inl _ \<Rightarrow> 0 | Inr _ \<Rightarrow> 1]")
    (auto dest!: parse_at_shorter(1))

declare parse_at.simps [simp del] parse_list.simps [simp del]

definition parse_filter :: "string \<Rightarrow> ldap_filter result" where
  "parse_filter s =
     res_bind (parse_at 0 (as_bytes s)) (\<lambda>(f, rest). if rest \<noteq> [] then Err (ferr ''trailing garbage'') else Ok f)"

section \<open>Encoding\<close>

definition encode_ava :: "byte \<Rightarrow> string \<Rightarrow> bytes \<Rightarrow> bytes" where
  "encode_ava n attr value = write_constructed (tag_ctx n True) (write_octet_string (as_bytes attr) @ write_octet_string value)"

definition opt_tlv :: "byte \<Rightarrow> bytes option \<Rightarrow> bytes" where
  "opt_tlv n v = (case v of Some s \<Rightarrow> write_tlv (tag_ctx n False) s | None \<Rightarrow> [])"

fun encode_filter :: "ldap_filter \<Rightarrow> bytes" where
  "encode_filter (FAnd items) = write_constructed (tag_ctx 0 True) (concat (map encode_filter items))"
| "encode_filter (FOr items) = write_constructed (tag_ctx 1 True) (concat (map encode_filter items))"
| "encode_filter (FNot inner) = write_constructed (tag_ctx 2 True) (encode_filter inner)"
| "encode_filter (EqualityMatch attr value) = encode_ava 3 attr value"
| "encode_filter (GreaterOrEqual attr value) = encode_ava 5 attr value"
| "encode_filter (LessOrEqual attr value) = encode_ava 6 attr value"
| "encode_filter (ApproxMatch attr value) = encode_ava 8 attr value"
| "encode_filter (Substrings attr initial any final) =
     write_constructed (tag_ctx 4 True)
       (write_octet_string (as_bytes attr) @
        write_constructed SEQUENCE (opt_tlv 0 initial @ concat (map (write_tlv (tag_ctx 1 False)) any) @ opt_tlv 2 final))"
| "encode_filter (Present attr) = write_tlv (tag_ctx 7 False) (as_bytes attr)"
| "encode_filter (ExtensibleMatch matching_rule attr_type match_value dn_attributes) =
     write_constructed (tag_ctx 9 True)
       (opt_tlv 1 (map_option as_bytes matching_rule) @ opt_tlv 2 (map_option as_bytes attr_type) @
        write_tlv (tag_ctx 3 False) match_value @ (if dn_attributes then write_tlv (tag_ctx 4 False) [0xff] else []))"

end
