(* ===== verification/Ldap.thy ===== *)
theory Ldap
  imports Ldap_Filter Url_Text Base64
begin

text \<open>
  The LDAP client (\<open>ldap.rs\<close>): the query of an LDAP URL, requests, responses, LDIF output and the exchange of one search. The
  connection is the list of bytes the server sends before it closes; what is written is returned.
\<close>

section \<open>URLs\<close>

datatype scope = BaseObject | OneLevel | Subtree

definition scope_int :: "scope \<Rightarrow> i64" where
  "scope_int sc = (case sc of BaseObject \<Rightarrow> 0 | OneLevel \<Rightarrow> 1 | Subtree \<Rightarrow> 2)"

record query =
  q_dn :: string
  q_attrs :: "string list"
  q_scope :: scope
  q_filter :: string

text \<open>\<open>splitn\<close>: at most \<open>n\<close> parts, the last one unsplit.\<close>

fun splitn :: "nat \<Rightarrow> char \<Rightarrow> string \<Rightarrow> string list" where
  "splitn 0 x s = []"
| "splitn (Suc 0) x s = [s]"
| "splitn (Suc (Suc n)) x s = (case split_once x s of None \<Rightarrow> [s] | Some (a, b) \<Rightarrow> a # splitn (Suc n) x b)"

definition part :: "string list \<Rightarrow> nat \<Rightarrow> string" where
  "part ps i = (if i < length ps then ps ! i else [])"

definition parse_scope :: "string \<Rightarrow> scope result" where
  "parse_scope raw =
     (let s = to_ascii_lowercase raw
      in if s = [] \<or> s = ''base'' then Ok BaseObject
         else if s = ''one'' then Ok OneLevel
         else if s = ''sub'' then Ok Subtree
         else Err (BadResponse ''ldap url: unknown scope''))"

definition parse_ldap_path :: "string \<Rightarrow> query result" where
  "parse_ldap_path path =
     (let rest = (case strip_prefix ''/'' path of Some r \<Rightarrow> r | None \<Rightarrow> path);
          parts = splitn 5 (CHR ''?'') rest;
          attrs_raw = part parts 1; filter_raw = part parts 3
      in res_bind (parse_scope (part parts 2)) (\<lambda>sc.
           Ok \<lparr>q_dn = percent_decode (part parts 0),
               q_attrs = (if attrs_raw = [] then []
                          else filter (\<lambda>a. a \<noteq> []) (map (\<lambda>a. percent_decode (trim a)) (split_on (CHR '','') attrs_raw))),
               q_scope = sc,
               q_filter = (if filter_raw = [] then ''(objectClass=*)'' else percent_decode filter_raw)\<rparr>))"

section \<open>Requests\<close>

type_synonym i32 = "32 word"

definition build_bind_request :: "i32 \<Rightarrow> string \<Rightarrow> string \<Rightarrow> bytes" where
  "build_bind_request message_id name password =
     write_constructed SEQUENCE
       (write_integer (scast message_id) @
        write_constructed (tag_app 0 True)
          (write_integer 3 @ write_octet_string (as_bytes name) @ write_tlv (tag_ctx 0 False) (as_bytes password)))"

definition build_unbind_request :: "i32 \<Rightarrow> bytes" where
  "build_unbind_request message_id =
     write_constructed SEQUENCE (write_integer (scast message_id) @ write_tlv (tag_app 2 False) [])"

definition search_body :: "query \<Rightarrow> ldap_filter \<Rightarrow> bytes" where
  "search_body q f =
     write_octet_string (as_bytes (q_dn q)) @ write_enumerated (scope_int (q_scope q)) @ write_enumerated 0 @
     write_integer 0 @ write_integer 0 @ write_boolean False @ encode_filter f @
     write_constructed SEQUENCE (concat (map (\<lambda>attr. write_octet_string (as_bytes attr)) (q_attrs q)))"

definition build_search_request :: "i32 \<Rightarrow> query \<Rightarrow> bytes result" where
  "build_search_request message_id q =
     res_bind (parse_filter (q_filter q)) (\<lambda>f.
       Ok (write_constructed SEQUENCE
             (write_integer (scast message_id) @ write_constructed (tag_app 3 True) (search_body q f))))"

section \<open>Responses\<close>

abbreviation (input) MAX_MESSAGE_BYTES :: nat where "MAX_MESSAGE_BYTES \<equiv> 67108864"
abbreviation (input) MAX_OUTPUT_BYTES :: nat where "MAX_OUTPUT_BYTES \<equiv> 268435456"
abbreviation (input) LDAP_SIZE_LIMIT_EXCEEDED :: i64 where "LDAP_SIZE_LIMIT_EXCEEDED \<equiv> 4"

definition ldap_read_exact :: "nat \<Rightarrow> bytes \<Rightarrow> (bytes \<times> bytes) result" where
  "ldap_read_exact n inp = (if length inp < n then Err UnexpectedEof else Ok (take n inp, drop n inp))"

definition message_length :: "byte \<Rightarrow> bytes \<Rightarrow> (nat \<times> bytes) result" where
  "message_length first inp =
     (if first < 0x80 then Ok (unat first, inp)
      else let n = unat (first AND 0x7f)
        in if n = 0 \<or> n > 8 then Err (BadResponse ''ldap: bad length form'')
           else res_bind (ldap_read_exact n inp) (\<lambda>(lb, r). Ok (be_val lb, r)))"

definition read_message_from :: "bytes \<Rightarrow> (bytes \<times> bytes) result" where
  "read_message_from inp =
     res_bind (ldap_read_exact 1 inp) (\<lambda>(tag_buf, r1).
       if tag_buf ! 0 \<noteq> SEQUENCE then Err (BadResponse ''ldap: expected SEQUENCE'')
       else res_bind (ldap_read_exact 1 r1) (\<lambda>(first, r2).
         res_bind (message_length (first ! 0) r2) (\<lambda>(len, r3).
           if len > MAX_MESSAGE_BYTES then Err (BadResponse ''ldap: message length exceeds maximum'')
           else let body = take len r3
             in if length body < len then Err UnexpectedEof else Ok (body, drop len r3))))"

definition split_message :: "bytes \<Rightarrow> (i64 \<times> byte \<times> bytes) result" where
  "split_message body =
     res_bind (read_integer_i64 body) (\<lambda>(mid, r). res_bind (read_tlv r) (\<lambda>((t, v), _). Ok (mid, t, v)))"

definition parse_ldap_result :: "bytes \<Rightarrow> (i64 \<times> string) result" where
  "parse_ldap_result body =
     res_bind (read_enumerated_i64 body) (\<lambda>(rc, r1).
       res_bind (read_octet_string r1) (\<lambda>(matched_dn, r2).
         res_bind (read_octet_string r2) (\<lambda>(diag, r3). Ok (rc, from_utf8_lossy diag))))"

type_synonym ldap_attr = "string \<times> bytes list"
type_synonym search_entry = "string \<times> ldap_attr list"

function read_values :: "bytes \<Rightarrow> bytes list result" where
  "read_values data =
     (if data = [] then Ok []
      else res_bind (read_octet_string data) (\<lambda>(v, r). res_bind (read_values r) (\<lambda>vs. Ok (v # vs))))"
  by pat_completeness auto
termination
  by (relation "measure length") (auto simp: read_octet_string_def dest: read_expect_shorter)

definition read_attribute :: "bytes \<Rightarrow> (ldap_attr \<times> bytes) result" where
  "read_attribute data =
     res_bind (read_expect SEQUENCE data) (\<lambda>(pa, r).
       res_bind (read_octet_string pa) (\<lambda>(name_bytes, pr).
         res_bind (read_expect BER_SET pr) (\<lambda>(vals_tlv, _).
           res_bind (read_values vals_tlv) (\<lambda>vals. Ok ((from_utf8_lossy name_bytes, vals), r)))))"

lemma read_attribute_shorter: "read_attribute data = Ok (a, r) \<Longrightarrow> length r < length data"
  by (auto simp: read_attribute_def dest!: read_expect_shorter)

function read_attributes :: "bytes \<Rightarrow> ldap_attr list result" where
  "read_attributes data =
     (if data = [] then Ok []
      else res_bind (read_attribute data) (\<lambda>(a, r). res_bind (read_attributes r) (\<lambda>as. Ok (a # as))))"
  by pat_completeness auto
termination
  by (relation "measure length") (auto dest: read_attribute_shorter)

declare read_values.simps [simp del] read_attributes.simps [simp del]

definition parse_search_entry :: "bytes \<Rightarrow> search_entry result" where
  "parse_search_entry body =
     res_bind (read_octet_string body) (\<lambda>(dn_bytes, r).
       res_bind (read_expect SEQUENCE r) (\<lambda>(attrs_tlv, _).
         res_bind (read_attributes attrs_tlv) (\<lambda>attributes. Ok (from_utf8_lossy dn_bytes, attributes))))"

section \<open>LDIF\<close>

definition ldif_is_safe :: "bytes \<Rightarrow> bool" where
  "ldif_is_safe value \<longleftrightarrow>
     (value = [] \<or>
      (hd value \<noteq> 0x20 \<and> hd value \<noteq> 0x3a \<and> hd value \<noteq> 0x3c \<and>
       \<not> list_ex (\<lambda>b. b = 0 \<or> b = 0x0d \<or> b = 0x0a \<or> b \<ge> 0x80) value))"

definition write_ldif_line :: "string \<Rightarrow> bytes \<Rightarrow> bytes" where
  "write_ldif_line name value =
     as_bytes name @ (if ldif_is_safe value then as_bytes '': '' @ value else as_bytes '':: '' @ as_bytes (base64_encode value)) @ [0x0a]"

definition ldif_name_is_safe :: "string \<Rightarrow> bool" where
  "ldif_name_is_safe name \<longleftrightarrow>
     name \<noteq> [] \<and> list_all (\<lambda>c. is_ascii_alphanumeric c \<or> c = CHR ''-'' \<or> c = CHR '';'' \<or> c = CHR ''.'') name"

definition write_ldif_entry :: "search_entry \<Rightarrow> bytes" where
  "write_ldif_entry entry =
     (case entry of (dn, attrs) \<Rightarrow>
        write_ldif_line ''dn'' (as_bytes dn) @
        concat (map (\<lambda>(name, vals). if \<not> ldif_name_is_safe name then [] else concat (map (write_ldif_line name) vals)) attrs) @
        [0x0a])"

section \<open>The exchange\<close>

lemma read_message_shorter: "read_message_from inp = Ok (body, r) \<Longrightarrow> length r < length inp"
  by (auto simp: read_message_from_def ldap_read_exact_def message_length_def Let_def split: if_splits)

text \<open>The loop that reads the entries until SearchResultDone; it returns the LDIF text and the unread input.\<close>

function search_loop :: "i32 \<Rightarrow> bytes \<Rightarrow> bytes \<Rightarrow> (bytes \<times> bytes) result" where
  "search_loop search_mid out inp =
     res_bind (read_message_from inp) (\<lambda>(body, r).
       res_bind (split_message body) (\<lambda>(mid, otag, obody).
         if mid \<noteq> scast search_mid then search_loop search_mid out r
         else if otag = tag_app 4 True then
           res_bind (parse_search_entry obody) (\<lambda>entry.
             let out' = out @ write_ldif_entry entry
             in if length out' > MAX_OUTPUT_BYTES then Err (BadResponse ''ldap: search results exceed maximum'')
                else search_loop search_mid out' r)
         else if otag = tag_app 19 True then search_loop search_mid out r
         else if otag = tag_app 5 True then
           res_bind (parse_ldap_result obody) (\<lambda>(rc, diag).
             if rc \<noteq> 0 \<and> rc \<noteq> LDAP_SIZE_LIMIT_EXCEEDED then Err (BadResponse (''ldap search failed: '' @ diag)) else Ok (out, r))
         else Err (BadResponse ''ldap: unexpected protocolOp tag'')))"
  by pat_completeness auto
termination
  by (relation "measure (\<lambda>(_, _, inp). length inp)") (auto dest: read_message_shorter)

declare search_loop.simps [simp del]

definition bind_response :: "bytes \<Rightarrow> bytes result" where
  "bind_response inp =
     res_bind (read_message_from inp) (\<lambda>(resp, r).
       res_bind (split_message resp) (\<lambda>(_, op_tag, op_body).
         if op_tag \<noteq> tag_app 1 True then Err (BadResponse ''ldap: expected BindResponse'')
         else res_bind (parse_ldap_result op_body) (\<lambda>(rc, diag).
           if rc \<noteq> 0 then Err (BadResponse (''ldap bind failed: '' @ diag)) else Ok r)))"

definition bind_identity :: "url \<Rightarrow> string \<times> string" where
  "bind_identity u =
     (case u_userinfo u of
        None \<Rightarrow> ([], [])
      | Some ui \<Rightarrow>
          (case split_once (CHR '':'') ui of
             Some (n, p) \<Rightarrow> (percent_decode n, percent_decode p)
           | None \<Rightarrow> (percent_decode ui, [])))"

text \<open>The checks made before anything is sent: the query, and the name and password to bind with.\<close>

definition ldap_prepare :: "url \<Rightarrow> (query \<times> string \<times> string) result" where
  "ldap_prepare u =
     (if u_scheme u \<noteq> ''ldap'' \<and> u_scheme u \<noteq> ''ldaps'' then Err (UnsupportedScheme (u_scheme u))
      else res_bind (parse_ldap_path (u_path u)) (\<lambda>q.
        res_bind (reject_ctl ''ldap'' ''search DN'' (q_dn q)) (\<lambda>_.
        res_bind (reject_ctl ''ldap'' ''search filter'' (q_filter q)) (\<lambda>_.
        case bind_identity u of (bind_name, bind_pass) \<Rightarrow>
          res_bind (reject_ctl ''ldap'' ''bind DN'' bind_name) (\<lambda>_.
          res_bind (reject_ctl ''ldap'' ''bind password'' bind_pass) (\<lambda>_. Ok (q, bind_name, bind_pass)))))))"

text \<open>The exchange over a connection; the messages written and the result.\<close>

definition ldap_exchange :: "query \<Rightarrow> string \<Rightarrow> string \<Rightarrow> bytes \<Rightarrow> bytes list \<times> bytes result" where
  "ldap_exchange q bind_name bind_pass inp =
     (let m1 = build_bind_request 1 bind_name bind_pass
      in case bind_response inp of
           Inl e \<Rightarrow> ([m1], Err e)
         | Inr r \<Rightarrow>
             (case build_search_request 2 q of
                Inl e \<Rightarrow> ([m1], Err e)
              | Inr m2 \<Rightarrow>
                  (case search_loop 2 [] r of
                     Inl e \<Rightarrow> ([m1, m2], Err e)
                   | Inr (out, _) \<Rightarrow> ([m1, m2, build_unbind_request 3], Ok out))))"

definition ldap_fetch :: "url \<Rightarrow> bytes result \<Rightarrow> bytes list \<times> bytes result" where
  "ldap_fetch u connection =
     (case ldap_prepare u of
        Inl e \<Rightarrow> ([], Err e)
      | Inr (q, bind_name, bind_pass) \<Rightarrow>
          (case connection of
             Inl e \<Rightarrow> ([], Err e)
           | Inr inp \<Rightarrow> ldap_exchange q bind_name bind_pass inp))"

end
