(* ===== verification/Ldap_Filter_Props.thy ===== *)
theory Ldap_Filter_Props
  imports Ldap_Filter
begin

text \<open>
  The string form of a filter: the parser accepts exactly the well-formed filters up to the nesting limit, and reads back what is written with
  RFC 4515 escapes, so no attribute value can change the structure of a filter. Its BER encoding is unambiguous.
\<close>

section \<open>Escaping values\<close>

definition literal_byte :: "byte \<Rightarrow> bool" where
  "literal_byte b \<longleftrightarrow> 0x20 \<le> b \<and> b \<le> 0x7e \<and> b \<notin> {0x28, 0x29, 0x2a, 0x5c}"

definition hex_byte :: "byte \<Rightarrow> byte" where
  "hex_byte n = (if n < 10 then 0x30 + n else 0x57 + n)"

definition escape_byte :: "byte \<Rightarrow> bytes" where
  "escape_byte b = (if literal_byte b then [b] else [0x5c, hex_byte (drop_bit 4 b), hex_byte (b AND 0x0f)])"

definition escape :: "bytes \<Rightarrow> string" where
  "escape v = map char_of_byte (concat (map escape_byte v))"

lemma as_bytes_escape [simp]: "as_bytes (escape v) = concat (map escape_byte v)"
  by (simp add: as_bytes_def escape_def o_def)

lemma nibble_all: "list_all P (map of_nat [0..<16]) \<Longrightarrow> (n :: byte) < 16 \<Longrightarrow> P n"
proof -
  assume "list_all P (map of_nat [0..<16])" "n < 16"
  moreover have "unat n \<in> set [0..<16]" "n = of_nat (unat n)" using \<open>n < 16\<close> by (simp_all add: word_less_nat_alt)
  ultimately show "P n" by (metis imageI list.set_map list_all_iff)
qed

lemma hex_byte_props:
  "n < 16 \<Longrightarrow> hex_val (hex_byte n) = Some n \<and> 0x20 \<le> hex_byte n \<and> hex_byte n \<le> 0x7e \<and> hex_byte n \<noteq> 0x29 \<and> hex_byte n \<noteq> 0x2a"
  by (erule nibble_all [rotated]) (simp add: upt_rec hex_val_def hex_byte_def)

lemma nibbles:
  fixes b :: byte
  shows "drop_bit 4 b < 16" "b AND 0x0f < 16" "push_bit 4 (drop_bit 4 b) OR (b AND 0x0f) = b"
proof -
  have m: "(0x0f :: byte) = mask 4" by (simp add: mask_eq_exp_minus_1)
  have "unat (drop_bit 4 b) = unat b div 16" by (subst unat_drop_bit_eq) (simp add: drop_bit_eq_div)
  then show "drop_bit 4 b < 16" using unsigned_less [of b, where 'a = nat] by (simp add: word_less_nat_alt less_mult_imp_div_less)
  show "b AND 0x0f < 16" unfolding m using take_bit_nat_less_exp [of 4 "unat b"]
    by (simp add: word_less_nat_alt unsigned_take_bit_eq flip: take_bit_eq_mask)
  show "push_bit 4 (drop_bit 4 b) OR (b AND 0x0f) = b"
    unfolding m by (rule bit_word_eqI) (auto simp: bit_simps dest: bit_imp_le_length)
qed

lemma unescape_escape_byte:
  "unescape_bytes (escape_byte b @ r) = res_bind (unescape_bytes r) (\<lambda>out. Ok (b # out))"
  by (auto simp: escape_byte_def literal_byte_def hex_pair_def hex_byte_props nibbles)

lemma unescape_escape [simp]: "unescape_value (escape v) = Ok v"
proof -
  have "unescape_bytes (concat (map escape_byte v)) = Ok v" by (induction v) (simp_all add: unescape_escape_byte)
  then show ?thesis by (simp add: unescape_value_def)
qed

lemma escape_bytes_clean: "c \<in> set (concat (map escape_byte v)) \<Longrightarrow> 0x20 \<le> c \<and> c \<le> 0x7e \<and> c \<noteq> 0x29 \<and> c \<noteq> 0x2a"
proof -
  assume "c \<in> set (concat (map escape_byte v))"
  then obtain b where "c \<in> set (escape_byte b)" by auto
  then show ?thesis using hex_byte_props [OF nibbles(1)] hex_byte_props [OF nibbles(2)] by (auto simp: escape_byte_def literal_byte_def split: if_splits)
qed

lemma escape_clean: "c \<in> set (escape v) \<Longrightarrow> c \<noteq> CHR '')'' \<and> c \<noteq> CHR ''*''"
proof -
  assume "c \<in> set (escape v)"
  then have "byte_of_char c \<in> set (as_bytes (escape v))" by (simp add: as_bytes_def)
  then have "byte_of_char c \<noteq> 0x29 \<and> byte_of_char c \<noteq> 0x2a" unfolding as_bytes_escape by (blast dest: escape_bytes_clean)
  then show ?thesis by (auto simp: byte_of_char_def)
qed

lemma escape_str: "is_str (escape v)"
  unfolding is_str_def as_bytes_escape
  by (rule utf8_valid_ascii) (use escape_bytes_clean in \<open>fastforce simp: word_le_nat_alt word_less_nat_alt\<close>)

lemma escape_no_ctl [simp]: "reject_ctl p w (escape v) = Ok ()"
proof -
  have "first_control_byte (escape v) = None" using escape_bytes_clean [of _ v]
    by (fastforce simp: first_control_byte_def find_None_iff simp del: set_concat)
  then show ?thesis by (simp add: reject_ctl_def)
qed

lemma escape_Nil_iff: "escape v = [] \<longleftrightarrow> v = []"
  by (cases v) (auto simp: escape_def escape_byte_def)

section \<open>Well-formed filters\<close>

text \<open>What the description part of an item may hold, and a first character that is not taken for a group.\<close>

definition name_ok :: "string \<Rightarrow> bool" where
  "name_ok a \<longleftrightarrow> is_str a \<and> list_all (\<lambda>c. desc_byte (byte_of_char c) \<and> c \<noteq> CHR '':'') a"

definition attr_ok :: "string \<Rightarrow> bool" where
  "attr_ok a \<longleftrightarrow> name_ok a \<and> (a \<noteq> [] \<longrightarrow> hd a \<notin> {CHR ''&'', CHR ''|'', CHR ''!''})"

definition part_ok :: "string \<Rightarrow> bool" where
  "part_ok a \<longleftrightarrow> a \<noteq> [] \<and> first_control_byte a = None"

fun filter_ok :: "nat \<Rightarrow> ldap_filter \<Rightarrow> bool" where
  "filter_ok d (FAnd fs) \<longleftrightarrow> d \<le> MAX_FILTER_DEPTH \<and> fs \<noteq> [] \<and> list_all (filter_ok (d + 1)) fs"
| "filter_ok d (FOr fs) \<longleftrightarrow> d \<le> MAX_FILTER_DEPTH \<and> fs \<noteq> [] \<and> list_all (filter_ok (d + 1)) fs"
| "filter_ok d (FNot f) \<longleftrightarrow> d \<le> MAX_FILTER_DEPTH \<and> filter_ok (d + 1) f"
| "filter_ok d (EqualityMatch a v) \<longleftrightarrow> d \<le> MAX_FILTER_DEPTH \<and> attr_ok a"
| "filter_ok d (GreaterOrEqual a v) \<longleftrightarrow> d \<le> MAX_FILTER_DEPTH \<and> attr_ok a \<and> a \<noteq> []"
| "filter_ok d (LessOrEqual a v) \<longleftrightarrow> d \<le> MAX_FILTER_DEPTH \<and> attr_ok a \<and> a \<noteq> []"
| "filter_ok d (ApproxMatch a v) \<longleftrightarrow> d \<le> MAX_FILTER_DEPTH \<and> attr_ok a \<and> a \<noteq> []"
| "filter_ok d (Substrings a i ms e) \<longleftrightarrow> d \<le> MAX_FILTER_DEPTH \<and> attr_ok a \<and> i \<noteq> Some [] \<and> [] \<notin> set ms \<and> e \<noteq> Some []"
| "filter_ok d (Present a) \<longleftrightarrow> d \<le> MAX_FILTER_DEPTH \<and> attr_ok a"
| "filter_ok d (ExtensibleMatch rule a v dn) \<longleftrightarrow>
     d \<le> MAX_FILTER_DEPTH \<and> \<not> (rule = None \<and> a = None) \<and> pred_option (\<lambda>s. attr_ok s \<and> part_ok s) a \<and>
     pred_option (\<lambda>s. name_ok s \<and> part_ok s \<and> s \<noteq> ''dn'') rule"

definition show_segments :: "bytes option \<Rightarrow> bytes list \<Rightarrow> bytes option \<Rightarrow> string list" where
  "show_segments i ms e =
     (let seg = (\<lambda>x. case x of None \<Rightarrow> [] | Some v \<Rightarrow> escape v)
      in if i = None \<and> ms = [] \<and> e = None then [[], [], []] else seg i # map escape ms @ [seg e])"

definition show_desc :: "string option \<Rightarrow> string option \<Rightarrow> bool \<Rightarrow> string list" where
  "show_desc rule a dn =
     (case a of None \<Rightarrow> [] | Some s \<Rightarrow> s) # (if dn then [''dn''] else []) @ (case rule of None \<Rightarrow> [] | Some s \<Rightarrow> [s])"

fun show_filter :: "ldap_filter \<Rightarrow> string" where
  "show_filter (FAnd fs) = ''(&'' @ concat (map show_filter fs) @ '')''"
| "show_filter (FOr fs) = ''(|'' @ concat (map show_filter fs) @ '')''"
| "show_filter (FNot f) = ''(!'' @ show_filter f @ '')''"
| "show_filter (EqualityMatch a v) = ''('' @ a @ ''='' @ escape v @ '')''"
| "show_filter (GreaterOrEqual a v) = ''('' @ a @ ''>='' @ escape v @ '')''"
| "show_filter (LessOrEqual a v) = ''('' @ a @ ''<='' @ escape v @ '')''"
| "show_filter (ApproxMatch a v) = ''('' @ a @ ''~='' @ escape v @ '')''"
| "show_filter (Substrings a i ms e) = ''('' @ a @ ''='' @ join_with (CHR ''*'') (show_segments i ms e) @ '')''"
| "show_filter (Present a) = ''('' @ a @ ''=*)''"
| "show_filter (ExtensibleMatch rule a v dn) = ''('' @ join_with (CHR '':'') (show_desc rule a dn) @ '':='' @ escape v @ '')''"

section \<open>Reading back\<close>

lemma byte_chars:
  "byte_of_char (CHR ''('') = 0x28" "byte_of_char (CHR '')'') = 0x29" "byte_of_char (CHR ''&'') = 0x26" "byte_of_char (CHR ''|'') = 0x7c"
  "byte_of_char (CHR ''!'') = 0x21" "byte_of_char (CHR ''='') = 0x3d" "byte_of_char (CHR ''>'') = 0x3e" "byte_of_char (CHR ''<'') = 0x3c"
  "byte_of_char (CHR ''~'') = 0x7e" "byte_of_char (CHR ''*'') = 0x2a" "byte_of_char (CHR '':'') = 0x3a"
  by (simp_all add: byte_of_char_def)

lemma read_value_text: "is_str s \<Longrightarrow> CHR '')'' \<notin> set s \<Longrightarrow> read_value (as_bytes s @ 0x29 # r) = Ok (s, 0x29 # r)"
proof -
  assume a: "is_str s" "CHR '')'' \<notin> set s"
  have "\<forall>b \<in> set (as_bytes s). b \<noteq> 0x29" using a(2) by (auto simp: as_bytes_def byte_chars(2) [symmetric] simp del: byte_chars)
  then show ?thesis using a(1) by (simp add: read_value_def takeWhile_append2 dropWhile_append2)
qed

lemma read_value_escape: "read_value (as_bytes (escape v) @ 0x29 # r) = Ok (escape v, 0x29 # r)"
  by (rule read_value_text) (use escape_str escape_clean in blast)+

text \<open>The description part is read up to its operator.\<close>

lemma parse_simple_desc:
  assumes "is_str desc" "list_all (\<lambda>c. desc_byte (byte_of_char c)) desc" "\<not> desc_byte b"
  shows "parse_simple (as_bytes desc @ b # r) =
    (if b = 0x7e \<or> b = 0x3c \<or> b = 0x3e then parse_ordering b desc r
     else res_bind (expect 0x3d (b # r)) (\<lambda>r1. if CHR '':'' \<in> set desc then parse_extensible desc r1 else parse_assertion desc r1))"
proof -
  have "\<forall>c \<in> set (as_bytes desc). desc_byte c" using assms(2) by (auto simp: as_bytes_def list_all_iff)
  then have "takeWhile desc_byte (as_bytes desc @ b # r) = as_bytes desc" "dropWhile desc_byte (as_bytes desc @ b # r) = b # r"
    using assms(3) by (simp_all add: takeWhile_append2 dropWhile_append2)
  then show ?thesis using assms(1) by (simp add: parse_simple_def)
qed

lemma parse_item:
  assumes "d \<le> MAX_FILTER_DEPTH" "s \<noteq> []" "hd s \<notin> {0x26, 0x7c, 0x21}" "parse_simple s = Ok (f, 0x29 # r)"
  shows "parse_at d (0x28 # s) = Ok (f, r)"
  using assms by (cases s) (simp_all add: parse_at.simps [of d] expect_def)

subsection \<open>Joined texts\<close>

lemma set_join_with: "set (join_with x ps) \<subseteq> insert x (\<Union> (set ` set ps))"
  by (induction x ps rule: join_with.induct) auto

lemma join_with_hit: "2 \<le> length ps \<Longrightarrow> x \<in> set (join_with x ps)"
  by (induction x ps rule: join_with.induct) auto

lemma count_join_with: "\<forall>p\<in>set ps. x \<notin> set p \<Longrightarrow> length (filter (\<lambda>c. c = x) (join_with x ps)) = length ps - 1"
proof (induction x ps rule: join_with.induct)
  case (3 x p q ps)
  moreover have "filter (\<lambda>c. c = x) p = []" using 3 by (auto simp: filter_empty_conv)
  ultimately show ?case by simp
qed (auto simp: filter_empty_conv)

lemma is_str_simps [simp]: "is_str []" "byte_of_char c < 0x80 \<Longrightarrow> is_str (c # s) \<longleftrightarrow> is_str s"
  by (simp_all add: is_str_def)

lemma is_str_join_with: "byte_of_char x < 0x80 \<Longrightarrow> list_all is_str ps \<Longrightarrow> is_str (join_with x ps)"
  by (induction x ps rule: join_with.induct) (auto intro: is_str_append)

lemma join_with_parts: "p \<in> set ps \<Longrightarrow> set p \<subseteq> set (join_with x ps)"
  by (induction x ps rule: join_with.induct) auto

subsection \<open>Substring patterns\<close>

lemma segment_loop_middle:
  "[] \<notin> set ms \<Longrightarrow> 0 < i \<Longrightarrow> i + length ms \<le> lst \<Longrightarrow>
    segment_loop lst i (a, any, e) (map escape ms @ rest) = segment_loop lst (i + length ms) (a, any @ ms, e) rest"
  by (induction ms arbitrary: i any) (auto simp: escape_Nil_iff)

lemma show_segments_free: "p \<in> set (show_segments i ms e) \<Longrightarrow> CHR ''*'' \<notin> set p \<and> CHR '')'' \<notin> set p \<and> is_str p"
  by (auto simp: show_segments_def Let_def escape_str dest: escape_clean split: if_splits option.splits)

lemma show_segments_length: "2 \<le> length (show_segments i ms e)"
  by (simp add: show_segments_def Let_def)

lemma show_segments_loop:
  assumes "i \<noteq> Some []" "[] \<notin> set ms" "e \<noteq> Some []"
  shows "segment_loop (length (show_segments i ms e) - 1) 0 (None, [], None) (show_segments i ms e) = Ok (i, ms, e)"
proof (cases "i = None \<and> ms = [] \<and> e = None")
  case True
  then show ?thesis by (simp add: show_segments_def)
next
  case False
  have "segment_loop (Suc (length ms)) (Suc (length ms)) (i, ms, None) [case e of None \<Rightarrow> [] | Some v \<Rightarrow> escape v] = Ok (i, ms, e)"
    using assms(3) by (cases e) (auto simp: escape_Nil_iff)
  then show ?thesis using False assms(1) segment_loop_middle [OF assms(2), of 1 "Suc (length ms)" i "[]" None]
    by (cases i) (auto simp: show_segments_def escape_Nil_iff)
qed

lemma show_segments_not_star:
  assumes "i \<noteq> Some []" "e \<noteq> Some []"
  shows "join_with (CHR ''*'') (show_segments i ms e) \<noteq> ''*''"
proof
  let ?s = "show_segments i ms e"
  assume "join_with (CHR ''*'') ?s = ''*''"
  then have "split_on (CHR ''*'') ''*'' = ?s" using split_join [of ?s "CHR ''*''"] show_segments_free [of _ i ms e] show_segments_length [of i ms e]
    by (metis list.size(3) not_numeral_le_zero)
  then have "?s = [[], []]" by simp
  then show False using assms by (auto simp: show_segments_def Let_def escape_Nil_iff split: if_splits option.splits)
qed

lemma parse_substrings:
  assumes "i \<noteq> Some []" "[] \<notin> set ms" "e \<noteq> Some []"
  shows "parse_assertion a (as_bytes (join_with (CHR ''*'') (show_segments i ms e)) @ 0x29 # r) = Ok (Substrings a i ms e, 0x29 # r)"
proof -
  let ?s = "show_segments i ms e" and ?j = "join_with (CHR ''*'') (show_segments i ms e)"
  have free: "\<forall>p\<in>set ?s. CHR ''*'' \<notin> set p" using show_segments_free by blast
  have ne: "?s \<noteq> []" using show_segments_length [of i ms e] by auto
  have "is_str ?j" by (rule is_str_join_with) (use show_segments_free in \<open>auto simp: list_all_iff byte_chars\<close>)
  moreover have "CHR '')'' \<notin> set ?j" using set_join_with [of "CHR ''*''" ?s] show_segments_free by fastforce
  ultimately have "read_value (as_bytes ?j @ 0x29 # r) = Ok (?j, 0x29 # r)" by (rule read_value_text)
  then show ?thesis
    using show_segments_not_star [OF assms(1,3)] join_with_hit [OF show_segments_length] split_join [OF ne free] show_segments_loop [OF assms]
    by (simp add: parse_assertion_def count_join_with [OF free])
qed

subsection \<open>Extensible matches\<close>

lemma show_desc_free:
  assumes "filter_ok d (ExtensibleMatch rule a v dn)" "p \<in> set (show_desc rule a dn)"
  shows "CHR '':'' \<notin> set p \<and> is_str p \<and> list_all (\<lambda>c. desc_byte (byte_of_char c)) p"
proof -
  have "name_ok p" if "p = ''dn''" using that by (simp add: name_ok_def desc_byte_def byte_of_char_def)
  moreover have "name_ok []" by (simp add: name_ok_def)
  ultimately have "name_ok p" using assms by (auto simp: show_desc_def attr_ok_def split: option.splits if_splits)
  then show ?thesis by (auto simp: name_ok_def list_all_iff)
qed

lemma no_ctl_iff: "reject_ctl p w s = Ok u \<longleftrightarrow> first_control_byte s = None"
  by (simp add: reject_ctl_def split: option.splits)

lemma no_ctl: "first_control_byte s = None \<Longrightarrow> reject_ctl p w s = Ok ()"
  by (simp add: reject_ctl_def)

lemma parse_extensible_desc:
  assumes ok: "filter_ok d (ExtensibleMatch rule a v dn)"
  shows "parse_extensible (join_with (CHR '':'') (show_desc rule a dn) @ '':'') (as_bytes (escape v) @ 0x29 # r) =
    Ok (ExtensibleMatch rule a v dn, 0x29 # r)"
proof -
  let ?t = "show_desc rule a dn"
  have "split_on (CHR '':'') (join_with (CHR '':'') ?t) = ?t"
    by (rule split_join) (use show_desc_free [OF ok] in \<open>auto simp: show_desc_def\<close>)
  moreover have "hd ?t = (case a of None \<Rightarrow> [] | Some s \<Rightarrow> s)" by (simp add: show_desc_def)
  moreover have "token_loop False None (tl ?t) = Ok (dn, rule)" using ok by (auto simp: show_desc_def part_ok_def split: option.splits)
  moreover have "ends_with '':'' (join_with (CHR '':'') ?t @ '':'')" by (simp add: ends_with_def)
  ultimately show ?thesis using ok
    by (cases a; cases rule) (auto simp: parse_extensible_def read_value_escape reject_opt_def no_ctl part_ok_def simp del: as_bytes_escape)
qed

subsection \<open>Filters\<close>

lemma attr_ok_desc: "attr_ok a \<Longrightarrow> is_str a \<and> list_all (\<lambda>c. desc_byte (byte_of_char c)) a \<and> CHR '':'' \<notin> set a"
  by (auto simp: attr_ok_def name_ok_def list_all_iff)

lemma group_bytes: "byte_of_char c = 0x26 \<longleftrightarrow> c = CHR ''&''" "byte_of_char c = 0x7c \<longleftrightarrow> c = CHR ''|''" "byte_of_char c = 0x21 \<longleftrightarrow> c = CHR ''!''"
  unfolding byte_chars(3-5) [symmetric] by simp_all

text \<open>An item whose description is a plain attribute, followed by an operator.\<close>

lemma parse_attr_item:
  assumes "d \<le> MAX_FILTER_DEPTH" "attr_ok a" "\<not> desc_byte b" "b \<notin> {0x26, 0x7c, 0x21}"
    and "(if b = 0x7e \<or> b = 0x3c \<or> b = 0x3e then parse_ordering b a t else res_bind (expect 0x3d (b # t)) (parse_assertion a)) = Ok (f, 0x29 # r)"
  shows "parse_at d (0x28 # as_bytes a @ b # t) = Ok (f, r)"
proof (rule parse_item)
  show "parse_simple (as_bytes a @ b # t) = Ok (f, 0x29 # r)"
    using assms(5) attr_ok_desc [OF assms(2)] by (auto simp: parse_simple_desc [OF _ _ assms(3)] split: if_splits)
  show "hd (as_bytes a @ b # t) \<notin> {0x26, 0x7c, 0x21}"
    using assms(2,4) by (cases a) (auto simp: attr_ok_def group_bytes)
qed (use assms in auto)

lemma operator_bytes [simp]: "\<not> desc_byte 0x3d" "\<not> desc_byte 0x7e" "\<not> desc_byte 0x3c" "\<not> desc_byte 0x3e"
  by (simp_all add: desc_byte_def)

lemma parse_ordering_escape:
  "a \<noteq> [] \<Longrightarrow> CHR '':'' \<notin> set a \<Longrightarrow> parse_ordering op a (0x3d # as_bytes (escape v) @ 0x29 # r) =
    Ok (if op = 0x3e then GreaterOrEqual a v else if op = 0x3c then LessOrEqual a v else ApproxMatch a v, 0x29 # r)"
  by (simp add: parse_ordering_def expect_def read_value_escape del: as_bytes_escape)

lemma parse_equality_escape: "parse_assertion a (as_bytes (escape v) @ 0x29 # r) = Ok (EqualityMatch a v, 0x29 # r)"
proof -
  have "CHR ''*'' \<notin> set (escape v)" using escape_clean by blast
  then show ?thesis by (auto simp: parse_assertion_def read_value_escape simp del: as_bytes_escape)
qed

lemma parse_extensible_item:
  assumes ok: "filter_ok d (ExtensibleMatch rule a v dn)"
  shows "parse_at d (as_bytes (show_filter (ExtensibleMatch rule a v dn)) @ r) = Ok (ExtensibleMatch rule a v dn, r)"
proof -
  let ?t = "show_desc rule a dn" and ?d = "join_with (CHR '':'') (show_desc rule a dn) @ '':''"
  have s: "is_str ?d" by (rule is_str_append, rule is_str_join_with) (use show_desc_free [OF ok] in \<open>auto simp: list_all_iff byte_chars\<close>)
  have l: "list_all (\<lambda>c. desc_byte (byte_of_char c)) ?d"
    using show_desc_free [OF ok] set_join_with [of "CHR '':''" ?t] by (fastforce simp: list_all_iff byte_chars desc_byte_def)
  have p: "parse_simple (as_bytes ?d @ 0x3d # as_bytes (escape v) @ 0x29 # r) = Ok (ExtensibleMatch rule a v dn, 0x29 # r)"
    using parse_extensible_desc [OF ok, of r] by (simp add: parse_simple_desc [OF s l] expect_def del: as_bytes_escape as_bytes_simps)
  have "hd ?d \<notin> {CHR ''&'', CHR ''|'', CHR ''!''}"
    using ok by (cases a; cases rule; cases dn) (auto simp: show_desc_def attr_ok_def part_ok_def neq_Nil_conv)
  moreover have "hd (as_bytes ?d @ t) = byte_of_char (hd ?d)" for t by (cases "join_with (CHR '':'') ?t") simp_all
  ultimately have h: "hd (as_bytes ?d @ t) \<notin> {0x26, 0x7c, 0x21}" for t by (simp only: insert_iff empty_iff group_bytes) blast
  have "parse_at d (0x28 # as_bytes ?d @ 0x3d # as_bytes (escape v) @ 0x29 # r) = Ok (ExtensibleMatch rule a v dn, r)"
    by (rule parse_item [OF _ _ h p]) (use ok in simp_all)
  then show ?thesis by (simp add: byte_chars)
qed

lemma parse_show_list:
  assumes "\<And>f r. f \<in> set fs \<Longrightarrow> parse_at d (as_bytes (show_filter f) @ r) = Ok (f, r)" "out @ fs \<noteq> []"
  shows "parse_list d out (as_bytes (concat (map show_filter fs)) @ 0x29 # r) = Ok (out @ fs, 0x29 # r)"
  using assms
proof (induction fs arbitrary: out)
  case Nil
  then show ?case by (simp add: parse_list.simps)
next
  case (Cons f fs)
  have "\<exists>t. as_bytes (show_filter f) = 0x28 # t" by (cases f) (auto simp: byte_chars)
  with Cons show ?case by (subst parse_list.simps) auto
qed

lemma parse_show: "filter_ok d f \<Longrightarrow> parse_at d (as_bytes (show_filter f) @ r) = Ok (f, r)"
proof (induction f arbitrary: d r)
  case (FAnd fs)
  have "parse_list (Suc d) [] (as_bytes (concat (map show_filter fs)) @ 0x29 # r) = Ok (fs, 0x29 # r)"
    using parse_show_list [of fs "Suc d" "[]" r] FAnd by (auto simp: list_all_iff)
  then show ?case using FAnd.prems by (simp add: parse_at.simps [of d] byte_chars expect_def)
next
  case (FOr fs)
  have "parse_list (Suc d) [] (as_bytes (concat (map show_filter fs)) @ 0x29 # r) = Ok (fs, 0x29 # r)"
    using parse_show_list [of fs "Suc d" "[]" r] FOr by (auto simp: list_all_iff)
  then show ?case using FOr.prems by (simp add: parse_at.simps [of d] byte_chars expect_def)
next
  case (FNot f)
  then show ?case by (simp add: parse_at.simps [of d] byte_chars expect_def)
next
  case (ExtensibleMatch rule a v dn)
  then show ?case by (rule parse_extensible_item)
next
  case (Substrings a i ms e)
  then have "parse_assertion a (as_bytes (join_with (CHR ''*'') (show_segments i ms e)) @ 0x29 # r) = Ok (Substrings a i ms e, 0x29 # r)"
    by (intro parse_substrings) auto
  with Substrings show ?case using parse_attr_item [where b = "0x3d" and t = "as_bytes (join_with (CHR ''*'') (show_segments i ms e)) @ 0x29 # r"]
    by (simp add: byte_chars expect_def)
next
  case (Present a)
  have "parse_assertion a (0x2a # 0x29 # r) = Ok (Present a, 0x29 # r)"
    using read_value_text [of "''*''" r] by (simp add: parse_assertion_def byte_chars)
  with Present show ?case using parse_attr_item [where b = "0x3d" and t = "0x2a # 0x29 # r"] by (simp add: byte_chars expect_def)
next
  case (EqualityMatch a v)
  then show ?case using parse_attr_item [where b = "0x3d" and t = "as_bytes (escape v) @ 0x29 # r"]
    by (simp add: byte_chars expect_def parse_equality_escape del: as_bytes_escape)
next
  case (GreaterOrEqual a v)
  then show ?case using parse_attr_item [where b = "0x3e" and t = "0x3d # as_bytes (escape v) @ 0x29 # r"] attr_ok_desc [of a]
    by (simp add: byte_chars parse_ordering_escape del: as_bytes_escape)
next
  case (LessOrEqual a v)
  then show ?case using parse_attr_item [where b = "0x3c" and t = "0x3d # as_bytes (escape v) @ 0x29 # r"] attr_ok_desc [of a]
    by (simp add: byte_chars parse_ordering_escape del: as_bytes_escape)
next
  case (ApproxMatch a v)
  then show ?case using parse_attr_item [where b = "0x7e" and t = "0x3d # as_bytes (escape v) @ 0x29 # r"] attr_ok_desc [of a]
    by (simp add: byte_chars parse_ordering_escape del: as_bytes_escape)
qed

interpretation filter_text: stream_codec "\<lambda>f. as_bytes (show_filter f)" "parse_at 0" "filter_ok 0"
  by unfold_locales (rule parse_show)

section \<open>Accepted filters\<close>

lemma utf8_valid_split: "utf8_valid (xs @ b # ys) \<Longrightarrow> b < 0x80 \<Longrightarrow> utf8_valid xs \<and> utf8_valid ys"
proof (induction xs rule: utf8_valid.induct)
  case (2 a bs)
  have nc: "\<not> cont_byte b" using "2.prems"(2) by (auto simp: cont_byte_def)
  consider "bs = []" | b1 where "bs = [b1]" | b1 c where "bs = [b1, c]" | b1 c d r where "bs = b1 # c # d # r"
    by (metis list.exhaust)
  then show ?case using 2 nc
    by cases (simp_all add: utf8_valid.simps(2) [of a] del: utf8_valid.simps(2) split: if_split_asm list.split_asm, blast+)
qed simp

lemma is_str_join_withD: "byte_of_char x < 0x80 \<Longrightarrow> is_str (join_with x ps) \<Longrightarrow> list_all is_str ps"
proof (induction x ps rule: join_with.induct)
  case (3 x p q ps)
  then have "is_str p \<and> is_str (join_with x (q # ps))" using utf8_valid_split [of "as_bytes p" "byte_of_char x"] by (simp add: is_str_def)
  with 3 show ?case by simp
qed simp_all

lemma is_str_split_on: "byte_of_char x < 0x80 \<Longrightarrow> is_str s \<Longrightarrow> list_all is_str (split_on x s)"
  using is_str_join_withD [of x "split_on x s"] by simp

lemma unescape_not_Nil: "unescape_value s = Ok v \<Longrightarrow> s \<noteq> [] \<Longrightarrow> v \<noteq> []"
  by (cases s) (auto simp: unescape_value_def split: if_splits option.splits)

lemma segment_loop_ok:
  "segment_loop lst k (i, ms, e) segs = Ok (i', ms', e') \<Longrightarrow> i \<noteq> Some [] \<and> [] \<notin> set ms \<and> e \<noteq> Some [] \<Longrightarrow>
    i' \<noteq> Some [] \<and> [] \<notin> set ms' \<and> e' \<noteq> Some []"
proof (induction segs arbitrary: k i ms e)
  case (Cons s segs)
  show ?case
  proof (cases "s = []")
    case False
    then obtain v where v: "v \<noteq> []" "segment_loop lst (k + 1)
        (if k = 0 then (Some v, ms, e) else if k = lst then (i, ms, Some v) else (i, ms @ [v], e)) segs = Ok (i', ms', e')"
      using Cons.prems(1) unescape_not_Nil [of s] by auto
    then show ?thesis using Cons.prems(2) Cons.IH [of "k + 1" "Some v" ms e] Cons.IH [of "k + 1" i ms "Some v"] Cons.IH [of "k + 1" i "ms @ [v]" e]
      by (simp split: if_splits)
  qed (use Cons in auto)
qed auto

lemma token_loop_ok:
  "token_loop dn rule toks = Ok (dn', rule') \<Longrightarrow> rule' = rule \<or> (\<exists>t \<in> set toks. rule' = Some t \<and> t \<noteq> [] \<and> t \<noteq> ''dn'')"
  by (induction toks arbitrary: dn rule) (fastforce split: if_splits)+

lemma desc_attr_ok:
  assumes "as_bytes desc = takeWhile desc_byte inp" "is_str desc" "hd inp \<notin> {0x26, 0x7c, 0x21}"
  shows "CHR '':'' \<notin> set desc \<Longrightarrow> attr_ok desc" "desc \<noteq> [] \<Longrightarrow> hd desc \<notin> {CHR ''&'', CHR ''|'', CHR ''!''}"
    "list_all (\<lambda>c. desc_byte (byte_of_char c)) desc"
proof -
  show l: "list_all (\<lambda>c. desc_byte (byte_of_char c)) desc"
    using set_takeWhileD [of _ desc_byte inp] unfolding assms(1) [symmetric] by (auto simp: list_all_iff as_bytes_def)
  show h: "hd desc \<notin> {CHR ''&'', CHR ''|'', CHR ''!''}" if "desc \<noteq> []"
  proof -
    have "byte_of_char (hd desc) = hd inp" using assms(1) that by (cases desc; cases inp) (auto split: if_splits)
    with assms(3) show ?thesis by (auto simp: group_bytes [symmetric])
  qed
  show "attr_ok desc" if "CHR '':'' \<notin> set desc"
    using l h assms(2) that by (auto simp: attr_ok_def name_ok_def list_all_iff)
qed

lemma extensible_ok:
  assumes "parse_extensible desc inp = Ok (f, r)" "d \<le> MAX_FILTER_DEPTH" "is_str desc"
    and "desc \<noteq> [] \<Longrightarrow> hd desc \<notin> {CHR ''&'', CHR ''|'', CHR ''!''}" "list_all (\<lambda>c. desc_byte (byte_of_char c)) desc"
  shows "filter_ok d f"
proof -
  let ?t = "split_on (CHR '':'') (butlast desc)"
  have e: "ends_with '':'' desc" using assms(1) by (auto simp: parse_extensible_def split: if_splits)
  then have desc: "desc = butlast desc @ '':''"
    by (cases desc rule: rev_cases) (auto simp: ends_with_def)
  have "is_str (butlast desc)"
    using assms(3) utf8_valid_split [of "as_bytes (butlast desc)" "byte_of_char (CHR '':'')" "[]"] by (subst (asm) desc) (simp add: is_str_def byte_chars)
  then have "list_all is_str ?t" by (intro is_str_split_on) (simp_all add: byte_chars)
  moreover have "set p \<subseteq> set (butlast desc)" if "p \<in> set ?t" for p
    using that by (metis join_split join_with_parts)
  ultimately have name: "name_ok p" if "p \<in> set ?t" for p
    using that assms(5) split_on_free [OF that] in_set_butlastD [of _ desc] by (fastforce simp: name_ok_def list_all_iff)
  have hd: "hd (hd ?t) = hd desc" if "hd ?t \<noteq> []"
  proof -
    obtain p ps where p: "?t = p # ps" by (cases ?t) auto
    then have "butlast desc = join_with (CHR '':'') (p # ps)" by (metis join_split)
    then have "hd (butlast desc) = hd p" "butlast desc \<noteq> []" using that p by (cases ps; simp)+
    with p show ?thesis by (subst desc) simp
  qed
  have attr: "attr_ok (hd ?t)" if "hd ?t \<noteq> []" using name [of "hd ?t"] hd assms(4) desc that by (auto simp: attr_ok_def)
  have "name_ok p" if "p \<in> set (tl ?t)" for p using that by (intro name) (simp add: list.set_sel(2))
  then show ?thesis using assms(1,2) e attr
    by (auto simp: parse_extensible_def Let_def part_ok_def reject_opt_def no_ctl_iff dest!: token_loop_ok split: if_splits option.splits)
qed

lemma parse_simple_ok:
  assumes "parse_simple inp = Ok (f, r)" "d \<le> MAX_FILTER_DEPTH" "hd inp \<notin> {0x26, 0x7c, 0x21}"
  shows "filter_ok d f"
proof -
  obtain desc where "from_utf8 (takeWhile desc_byte inp) = Some desc" using assms(1) by (auto simp: parse_simple_def)
  then have u: "from_utf8 (takeWhile desc_byte inp) = Some desc" "as_bytes desc = takeWhile desc_byte inp" "is_str desc"
    by (auto dest: from_utf8_SomeD)
  note ok = desc_attr_ok [OF u(2,3) assms(3)]
  note desc = assms(1) [unfolded parse_simple_def u(1) ok_or_simps res_bind_simps Let_def]
  show ?thesis
  proof (cases "CHR '':'' \<in> set desc")
    case True
    then show ?thesis using desc extensible_ok [OF _ assms(2) u(3) ok(2,3)] by (auto simp: parse_ordering_def split: if_splits)
  next
    case False
    then show ?thesis using desc ok(1) [OF False] assms(2)
      by (auto simp: parse_ordering_def parse_assertion_def dest!: segment_loop_ok [of _ 0 None "[]" None] split: if_splits)
  qed
qed

lemma parse_at_ok:
  "parse_at d inp = Ok (f, rest) \<Longrightarrow> filter_ok d f"
  "parse_list d out inp = Ok (fs, rest) \<Longrightarrow> list_all (filter_ok d) out \<Longrightarrow> fs \<noteq> [] \<and> list_all (filter_ok d) fs"
proof (induction d inp and d out inp arbitrary: f rest and fs rest rule: parse_at_parse_list.induct)
  case (1 depth inp)
  then obtain c r1 where inp: "depth \<le> MAX_FILTER_DEPTH" "inp = 0x28 # c # r1"
    by (subst (asm) parse_at.simps) (auto split: list.splits if_splits)
  note ih = "1.IH" [OF _ inp(2) _ refl]
  show ?case using "1.prems" inp ih parse_simple_ok [of "c # r1" f _ depth]
    by (auto simp: parse_at.simps [of depth] split: if_splits)
next
  case (2 depth out inp)
  then show ?case by (subst (asm) (2) parse_list.simps) (fastforce split: if_splits)
qed

lemma parse_filter_show: "filter_ok 0 f \<Longrightarrow> parse_filter (show_filter f) = Ok f"
  using parse_show [of 0 f "[]"] by (simp add: parse_filter_def)

lemma parse_filter_ok: "parse_filter s = Ok f \<Longrightarrow> filter_ok 0 f"
  by (auto simp: parse_filter_def dest: parse_at_ok(1) split: if_splits)

text \<open>
  (C39) The filter parser is exact: the filters it returns for some text are precisely the well-formed ones nested at most 64 deep, and
  each of them is read back from its RFC 4515 text with escaped values, whatever bytes the values hold.
\<close>

theorem ldap_filter_exact:
  "((\<exists>s. parse_filter s = Ok f) \<longleftrightarrow> filter_ok 0 f) \<and> (parse_filter (show_filter f) = Ok f \<longleftrightarrow> filter_ok 0 f)"
  using parse_filter_show parse_filter_ok by blast

end
