(* ===== verification/Ldap_Filter_Wire.thy ===== *)
theory Ldap_Filter_Wire
  imports Ldap_Filter_Props
begin

text \<open>The BER encoding of filters is unambiguous: a filter is determined by its bytes, also in front of other data.\<close>

section \<open>Sequences of TLVs\<close>

abbreviation tlvs :: "(byte \<times> bytes) list \<Rightarrow> bytes" where
  "tlvs xs \<equiv> concat (map (\<lambda>(tag, value). write_tlv tag value) xs)"

definition opt_list :: "byte \<Rightarrow> bytes option \<Rightarrow> (byte \<times> bytes) list" where
  "opt_list n v = (case v of Some s \<Rightarrow> [(tag_ctx n False, s)] | None \<Rightarrow> [])"

lemma opt_tlv_list: "opt_tlv n v = tlvs (opt_list n v)"
  by (simp add: opt_tlv_def opt_list_def split: option.splits)

lemma map_tlv_list: "concat (map (write_tlv t) vs) = tlvs (map (Pair t) vs)"
  by (induction vs) simp_all

lemma length_write_tlv: "length value < length (write_tlv tag value)"
  by (simp add: write_tlv_def)

lemma tlvs_bound: "tv \<in> set xs \<Longrightarrow> length (snd tv) \<le> length (tlvs xs)"
proof (induction xs)
  case (Cons x xs)
  then show ?case using length_write_tlv [of "snd x" "fst x"] by (auto simp: case_prod_unfold)
qed simp

lemma tlvs_inj:
  assumes "length (tlvs xs) \<le> U64_MAX" "length (tlvs ys) \<le> U64_MAX" "tlvs xs = tlvs ys"
  shows "xs = ys"
proof (rule tlvs_unique)
  show "\<forall>tv \<in> set xs \<union> set ys. length (snd tv) \<le> U64_MAX"
    using tlvs_bound [of _ xs] tlvs_bound [of _ ys] assms(1,2) by (meson Un_iff le_trans)
qed (rule assms(3))

section \<open>Tag and body\<close>

definition ava_list :: "string \<Rightarrow> bytes \<Rightarrow> (byte \<times> bytes) list" where
  "ava_list a v = [(OCTET_STRING, as_bytes a), (OCTET_STRING, v)]"

definition sub_list :: "bytes option \<Rightarrow> bytes list \<Rightarrow> bytes option \<Rightarrow> (byte \<times> bytes) list" where
  "sub_list i ms e = opt_list 0 i @ map (Pair (tag_ctx 1 False)) ms @ opt_list 2 e"

definition ext_list :: "string option \<Rightarrow> string option \<Rightarrow> bytes \<Rightarrow> bool \<Rightarrow> (byte \<times> bytes) list" where
  "ext_list rule a v dn = opt_list 1 (map_option as_bytes rule) @ opt_list 2 (map_option as_bytes a) @
     (tag_ctx 3 False, v) # (if dn then [(tag_ctx 4 False, [0xff])] else [])"

fun filter_tag :: "ldap_filter \<Rightarrow> byte" where
  "filter_tag (FAnd fs) = tag_ctx 0 True"
| "filter_tag (FOr fs) = tag_ctx 1 True"
| "filter_tag (FNot f) = tag_ctx 2 True"
| "filter_tag (EqualityMatch a v) = tag_ctx 3 True"
| "filter_tag (Substrings a i ms e) = tag_ctx 4 True"
| "filter_tag (GreaterOrEqual a v) = tag_ctx 5 True"
| "filter_tag (LessOrEqual a v) = tag_ctx 6 True"
| "filter_tag (Present a) = tag_ctx 7 False"
| "filter_tag (ApproxMatch a v) = tag_ctx 8 True"
| "filter_tag (ExtensibleMatch rule a v dn) = tag_ctx 9 True"

fun filter_body :: "ldap_filter \<Rightarrow> bytes" where
  "filter_body (FAnd fs) = concat (map encode_filter fs)"
| "filter_body (FOr fs) = concat (map encode_filter fs)"
| "filter_body (FNot f) = encode_filter f"
| "filter_body (EqualityMatch a v) = tlvs (ava_list a v)"
| "filter_body (GreaterOrEqual a v) = tlvs (ava_list a v)"
| "filter_body (LessOrEqual a v) = tlvs (ava_list a v)"
| "filter_body (ApproxMatch a v) = tlvs (ava_list a v)"
| "filter_body (Substrings a i ms e) = tlvs [(OCTET_STRING, as_bytes a), (SEQUENCE, tlvs (sub_list i ms e))]"
| "filter_body (Present a) = as_bytes a"
| "filter_body (ExtensibleMatch rule a v dn) = tlvs (ext_list rule a v dn)"

lemma encode_filter_tlv: "encode_filter f = write_tlv (filter_tag f) (filter_body f)"
  by (cases f) (simp_all add: write_constructed_eq encode_ava_def write_octet_string_def ava_list_def sub_list_def ext_list_def opt_tlv_list map_tlv_list)

lemma ctx_tags:
  "tag_ctx 0 True = 0xa0" "tag_ctx 1 True = 0xa1" "tag_ctx 2 True = 0xa2" "tag_ctx 3 True = 0xa3" "tag_ctx 4 True = 0xa4" "tag_ctx 5 True = 0xa5"
  "tag_ctx 6 True = 0xa6" "tag_ctx 7 False = 0x87" "tag_ctx 8 True = 0xa8" "tag_ctx 9 True = 0xa9"
  "tag_ctx 0 False = 0x80" "tag_ctx 1 False = 0x81" "tag_ctx 2 False = 0x82" "tag_ctx 3 False = 0x83" "tag_ctx 4 False = 0x84"
  by (simp_all add: tag_ctx_def)

lemma sub_list_inj:
  assumes "sub_list i ms e = sub_list i' ms' e'"
  shows "i = i' \<and> ms = ms' \<and> e = e'"
proof -
  define sel where "sel t xs = map snd (filter (\<lambda>p. fst p = t) xs)" for t :: byte and xs :: "(byte \<times> bytes) list"
  have "sel t (sub_list i ms e) = sel t (sub_list i' ms' e')" for t using assms by simp
  from this [of "0x80"] this [of "0x81"] this [of "0x82"] show ?thesis
    by (auto simp: sel_def sub_list_def opt_list_def ctx_tags filter_map o_def split: option.splits)
qed

lemma ext_list_inj:
  assumes "ext_list rule a v dn = ext_list rule' a' v' dn'"
  shows "rule = rule' \<and> a = a' \<and> v = v' \<and> dn = dn'"
  using assms by (auto simp: ext_list_def opt_list_def ctx_tags split: option.splits if_splits)

section \<open>Filters\<close>

abbreviation sized :: "ldap_filter \<Rightarrow> bool" where
  "sized f \<equiv> length (encode_filter f) \<le> U64_MAX"

lemma sized_body: "sized f \<Longrightarrow> length (filter_body f) \<le> U64_MAX"
  using length_write_tlv [of "filter_body f" "filter_tag f"] by (simp add: encode_filter_tlv)

lemma filters_inj:
  assumes "\<And>f g r s. f \<in> set fs \<Longrightarrow> sized f \<Longrightarrow> sized g \<Longrightarrow> encode_filter f @ r = encode_filter g @ s \<Longrightarrow> f = g \<and> r = s"
    and "length (concat (map encode_filter fs)) \<le> U64_MAX" "concat (map encode_filter fs) = concat (map encode_filter gs)"
  shows "fs = gs"
  using assms
proof (induction fs arbitrary: gs)
  case Nil
  then show ?case by (cases gs) (auto simp: encode_filter_tlv write_tlv_def)
next
  case (Cons f fs)
  then obtain g gs' where g: "gs = g # gs'" by (cases gs) (auto simp: encode_filter_tlv write_tlv_def)
  have len: "sized f" "sized g" using Cons.prems(2) unfolding Cons.prems(3) g by (simp_all, use Cons.prems(2) in simp)
  have "f = g \<and> concat (map encode_filter fs) = concat (map encode_filter gs')"
    by (rule Cons.prems(1) [OF _ len]) (use Cons.prems(3) g in auto)
  moreover from this have "fs = gs'" by (intro Cons.IH Cons.prems(1)) (use Cons.prems(2) in simp_all)
  ultimately show ?case using g by simp
qed

lemma encode_filter_parts:
  assumes "sized f" "sized g" "encode_filter f @ r = encode_filter g @ s"
  shows "filter_tag f = filter_tag g \<and> filter_body f = filter_body g \<and> r = s"
  using ber.unique_parse [of "(filter_tag f, filter_body f)" "(filter_tag g, filter_body g)" r s] assms sized_body [OF assms(1)] sized_body [OF assms(2)]
  by (simp add: encode_filter_tlv)

text \<open>Equal bodies of leaf filters under one tag.\<close>

lemma ava_inj: "length (tlvs (ava_list a v)) \<le> U64_MAX \<Longrightarrow> tlvs (ava_list a v) = tlvs (ava_list b w) \<Longrightarrow> a = b \<and> v = w"
  using tlvs_inj [of "ava_list a v" "ava_list b w"] by (simp add: ava_list_def del: concat.simps list.map)

lemma ext_inj:
  "length (tlvs (ext_list rule a v dn)) \<le> U64_MAX \<Longrightarrow> tlvs (ext_list rule a v dn) = tlvs (ext_list rule' a' v' dn') \<Longrightarrow>
    ExtensibleMatch rule a v dn = ExtensibleMatch rule' a' v' dn'"
  using tlvs_inj [of "ext_list rule a v dn" "ext_list rule' a' v' dn'"] ext_list_inj [of rule a v dn rule' a' v' dn'] by simp

lemma sub_inj:
  assumes "length (filter_body (Substrings a i ms e)) \<le> U64_MAX" "filter_body (Substrings a i ms e) = filter_body (Substrings b i' ms' e')"
  shows "Substrings a i ms e = Substrings b i' ms' e'"
proof -
  let ?x = "[(OCTET_STRING, as_bytes a), (SEQUENCE, tlvs (sub_list i ms e))]" and ?y = "[(OCTET_STRING, as_bytes b), (SEQUENCE, tlvs (sub_list i' ms' e'))]"
  have "length (tlvs ?x) \<le> U64_MAX" "tlvs ?x = tlvs ?y" using assms by (simp_all only: filter_body.simps)
  then have "?x = ?y" by (metis tlvs_inj)
  then have "as_bytes a = as_bytes b" "tlvs (sub_list i ms e) = tlvs (sub_list i' ms' e')" by (simp_all only: list.inject prod.inject)
  moreover have "length (tlvs (sub_list i ms e)) \<le> U64_MAX"
    using tlvs_bound [of "(SEQUENCE, tlvs (sub_list i ms e))" ?x] assms(1) unfolding filter_body.simps snd_conv by (meson le_trans list.set_intros)
  ultimately show ?thesis using tlvs_inj [of "sub_list i ms e" "sub_list i' ms' e'"] sub_list_inj [of i ms e i' ms' e'] by simp
qed

lemma encode_filter_unique:
  "sized f \<Longrightarrow> sized g \<Longrightarrow> encode_filter f @ r = encode_filter g @ s \<Longrightarrow> f = g \<and> r = s"
proof (induction f arbitrary: g r s)
  case (FAnd fs)
  note p = encode_filter_parts [OF FAnd.prems] and b = sized_body [OF FAnd.prems(1)]
  then obtain gs where g: "g = FAnd gs" by (cases g) (simp_all add: ctx_tags)
  have "fs = gs" by (rule filters_inj [OF FAnd.IH]) (use p b g in simp_all)
  with p g show ?case by simp
next
  case (FOr fs)
  note p = encode_filter_parts [OF FOr.prems] and b = sized_body [OF FOr.prems(1)]
  then obtain gs where g: "g = FOr gs" by (cases g) (simp_all add: ctx_tags)
  have "fs = gs" by (rule filters_inj [OF FOr.IH]) (use p b g in simp_all)
  with p g show ?case by simp
next
  case (FNot f)
  note p = encode_filter_parts [OF FNot.prems] and b = sized_body [OF FNot.prems(1)]
  then obtain g' where g: "g = FNot g'" by (cases g) (simp_all add: ctx_tags)
  with FNot.IH [of g' "[]" "[]"] p b sized_body [OF FNot.prems(2)] show ?case by simp
next
  case (EqualityMatch a v)
  note p = encode_filter_parts [OF EqualityMatch.prems] and b = sized_body [OF EqualityMatch.prems(1)]
  with ava_inj [of a v] show ?case by (cases g) (simp_all add: ctx_tags)
next
  case (GreaterOrEqual a v)
  note p = encode_filter_parts [OF GreaterOrEqual.prems] and b = sized_body [OF GreaterOrEqual.prems(1)]
  with ava_inj [of a v] show ?case by (cases g) (simp_all add: ctx_tags)
next
  case (LessOrEqual a v)
  note p = encode_filter_parts [OF LessOrEqual.prems] and b = sized_body [OF LessOrEqual.prems(1)]
  with ava_inj [of a v] show ?case by (cases g) (simp_all add: ctx_tags)
next
  case (ApproxMatch a v)
  note p = encode_filter_parts [OF ApproxMatch.prems] and b = sized_body [OF ApproxMatch.prems(1)]
  with ava_inj [of a v] show ?case by (cases g) (simp_all add: ctx_tags)
next
  case (Substrings a i ms e)
  note p = encode_filter_parts [OF Substrings.prems] and b = sized_body [OF Substrings.prems(1)]
  then obtain a' i' ms' e' where g: "g = Substrings a' i' ms' e'" by (cases g) (simp_all add: ctx_tags del: filter_body.simps)
  with sub_inj [OF b, of a' i' ms' e'] p show ?case by (simp only: simp_thms)
next
  case (Present a)
  note p = encode_filter_parts [OF Present.prems] and b = sized_body [OF Present.prems(1)]
  then show ?case by (cases g) (simp_all add: ctx_tags)
next
  case (ExtensibleMatch rule a v dn)
  note p = encode_filter_parts [OF ExtensibleMatch.prems] and b = sized_body [OF ExtensibleMatch.prems(1)]
  then obtain rule' a' v' dn' where g: "g = ExtensibleMatch rule' a' v' dn'" by (cases g) (simp_all add: ctx_tags del: filter_body.simps)
  with ext_inj [of rule a v dn rule' a' v' dn'] p b show ?case by (simp only: filter_body.simps simp_thms)
qed

end
