(* ===== verification/Ldap_Props.thy ===== *)
theory Ldap_Props
  imports Ldap Ldap_Filter_Wire
begin

text \<open>
  The LDAP exchange: requests are unambiguous on the wire, a search against a server that answers in BER returns the LDIF text of exactly its
  entries, and nothing a server sends can forge a line of that text.
\<close>

section \<open>Requests\<close>

lemma attrs_tlvs: "concat (map (\<lambda>attr. write_octet_string (as_bytes attr)) as) = tlvs (map (\<lambda>a. (OCTET_STRING, as_bytes a)) as)"
  by (induction as) (simp_all add: write_octet_string_def)

lemma scast_i32_inj: "(scast (a :: i32) :: i64) = scast b \<longleftrightarrow> a = b"
proof -
  have "ucast (scast w :: i64) = w" for w :: i32 by (rule bit_word_eqI) (auto simp: bit_simps)
  then show ?thesis by metis
qed

lemma scope_int_inj: "scope_int a = scope_int b \<Longrightarrow> a = b"
  by (auto simp: scope_int_def split: scope.splits)

lemma write_int_tlv_bound: "length (write_octet_string s) \<le> n \<Longrightarrow> length s \<le> n"
  using length_write_tlv [of s OCTET_STRING] by (simp add: write_octet_string_def)

lemma search_body_unique:
  assumes "length (search_body q f) \<le> U64_MAX" "search_body q f = search_body q' f'"
  shows "q_dn q = q_dn q' \<and> q_scope q = q_scope q' \<and> f = f' \<and> q_attrs q = q_attrs q'"
proof -
  note len = assms(1) assms(1) [unfolded assms(2)]
  define mid where "mid = write_enumerated 0 @ write_integer 0 @ write_integer 0 @ write_boolean False"
  let ?A = "\<lambda>q. write_constructed SEQUENCE (concat (map (\<lambda>attr. write_octet_string (as_bytes attr)) (q_attrs q)))"
  have b: "search_body q f = write_octet_string (as_bytes (q_dn q)) @ write_enumerated (scope_int (q_scope q)) @ mid @ encode_filter f @ ?A q" for q f
    by (simp add: search_body_def mid_def)
  have l: "length (as_bytes (q_dn q)) \<le> U64_MAX" "length (as_bytes (q_dn q')) \<le> U64_MAX" "sized f" "sized f'"
    by (rule write_int_tlv_bound, use len(1) in \<open>simp add: b\<close>) (rule write_int_tlv_bound, use len in \<open>simp_all add: b\<close>)
  have dn: "as_bytes (q_dn q) = as_bytes (q_dn q') \<and> write_enumerated (scope_int (q_scope q)) @ mid @ encode_filter f @ ?A q =
      write_enumerated (scope_int (q_scope q')) @ mid @ encode_filter f' @ ?A q'"
    by (rule ber_octets.unique_parse [OF l(1,2)]) (use assms(2) in \<open>simp add: b\<close>)
  then have sc: "scope_int (q_scope q) = scope_int (q_scope q') \<and> mid @ encode_filter f @ ?A q = mid @ encode_filter f' @ ?A q'"
    by (intro ber_enumerated.unique_parse) simp_all
  then have fl: "f = f' \<and> ?A q = ?A q'"
    by (intro encode_filter_unique l) simp
  let ?L = "\<lambda>q. map (\<lambda>a. (OCTET_STRING, as_bytes a)) (q_attrs q)"
  have al: "length (tlvs (?L q)) \<le> U64_MAX" "length (tlvs (?L q')) \<le> U64_MAX"
    using len length_write_tlv [of "tlvs (?L q)" SEQUENCE] length_write_tlv [of "tlvs (?L q')" SEQUENCE]
    by (simp_all add: b attrs_tlvs write_constructed_eq)
  have "(SEQUENCE, tlvs (?L q)) = (SEQUENCE, tlvs (?L q')) \<and> [] = ([] :: bytes)"
    by (rule ber.unique_parse) (use fl al in \<open>simp_all add: attrs_tlvs write_constructed_eq\<close>)
  then have "?L q = ?L q'" using tlvs_inj [OF al] by simp
  then have "q_attrs q = q_attrs q'" by (rule map_injective) (simp add: inj_def)
  with dn sc fl scope_int_inj show ?thesis by simp
qed

lemma message_unique:
  assumes "length (write_tlv SEQUENCE (write_integer m @ write_tlv t b)) \<le> U64_MAX"
    and "write_tlv SEQUENCE (write_integer m @ write_tlv t b) = write_tlv SEQUENCE (write_integer m' @ write_tlv t' b')"
  shows "m = m' \<and> t = t' \<and> b = b'"
proof -
  have len: "length (write_integer m @ write_tlv t b) \<le> U64_MAX" "length (write_integer m' @ write_tlv t' b') \<le> U64_MAX"
    using assms(1) assms(1) [unfolded assms(2)] length_write_tlv [of "write_integer m @ write_tlv t b" SEQUENCE]
      length_write_tlv [of "write_integer m' @ write_tlv t' b'" SEQUENCE] by simp_all
  have "(SEQUENCE, write_integer m @ write_tlv t b) = (SEQUENCE, write_integer m' @ write_tlv t' b') \<and> [] = ([] :: bytes)"
    by (rule ber.unique_parse) (use assms len in simp_all)
  then have "m = m' \<and> write_tlv t b = write_tlv t' b'" by (intro ber_integer.unique_parse) simp_all
  moreover from this have "(t, b) = (t', b') \<and> [] = ([] :: bytes)"
    by (intro ber.unique_parse) (use len length_write_tlv [of b t] length_write_tlv [of b' t'] in simp_all)
  ultimately show ?thesis by simp
qed

text \<open>
  (C40) A search request says what was asked: two requests with the same bytes have the same message number, base DN, scope and attributes, and
  their filter texts parse to the same filter. No value can be shifted from one field of the request into another.
\<close>

theorem ldap_search_request_unambiguous:
  assumes "build_search_request m q = Ok bs" "build_search_request m' q' = Ok bs" "length bs \<le> U64_MAX"
  shows "m = m' \<and> q_dn q = q_dn q' \<and> q_scope q = q_scope q' \<and> q_attrs q = q_attrs q' \<and> parse_filter (q_filter q) = parse_filter (q_filter q')"
proof -
  let ?m = "\<lambda>m q f. write_tlv SEQUENCE (write_integer (scast m) @ write_tlv (tag_app 3 True) (search_body q f))"
  obtain f f' where f: "parse_filter (q_filter q) = Ok f" "parse_filter (q_filter q') = Ok f'" "bs = ?m m q f" "bs = ?m m' q' f'"
    using assms(1,2) by (auto simp: build_search_request_def write_constructed_eq)
  have p: "(scast m :: i64) = scast m' \<and> tag_app 3 True = tag_app 3 True \<and> search_body q f = search_body q' f'"
    by (rule message_unique) (use f assms(3) in simp_all)
  have "length (search_body q f) \<le> U64_MAX"
    using assms(3) unfolding f(3) using length_write_tlv [of "search_body q f" "tag_app 3 True"]
      length_write_tlv [of "write_integer (scast m) @ write_tlv (tag_app 3 True) (search_body q f)" SEQUENCE] by simp
  from search_body_unique [OF this] p f show ?thesis by (simp add: scast_i32_inj)
qed

definition demo_query :: "string \<Rightarrow> query" where
  "demo_query f = \<lparr>q_dn = ''dc=x'', q_attrs = [''cn''], q_scope = Subtree, q_filter = f\<rparr>"

text \<open>An escaped character and the character itself.\<close>

definition escaped_text :: string where
  "escaped_text = ''(cn='' @ CHR 0x5C # ''61)''"

lemma demo_filters:
  "parse_filter ''(cn=a)'' = Ok (EqualityMatch ''cn'' [0x61])" "parse_filter escaped_text = Ok (EqualityMatch ''cn'' [0x61])"
  by code_simp+

definition demo_bytes :: bytes where
  "demo_bytes = write_constructed SEQUENCE (write_integer (scast (2 :: i32)) @
     write_constructed (tag_app 3 True) (search_body (demo_query []) (EqualityMatch ''cn'' [0x61])))"

lemma demo_built:
  "build_search_request 2 (demo_query ''(cn=a)'') = Ok demo_bytes" "build_search_request 2 (demo_query escaped_text) = Ok demo_bytes" "length demo_bytes < 100"
proof -
  show "build_search_request 2 (demo_query ''(cn=a)'') = Ok demo_bytes" "build_search_request 2 (demo_query escaped_text) = Ok demo_bytes"
    by (simp_all add: build_search_request_def demo_bytes_def demo_query_def search_body_def demo_filters)
  show "length demo_bytes < 100" by code_simp
qed

theorem ldap_search_request_unambiguous_witness:
  "build_search_request 2 (demo_query ''(cn=a)'') = build_search_request 2 (demo_query escaped_text) \<and>
    parse_filter (q_filter (demo_query ''(cn=a)'')) = parse_filter (q_filter (demo_query escaped_text))"
  using ldap_search_request_unambiguous [OF demo_built(1,2)] demo_built by simp

section \<open>What a server sends\<close>

text \<open>An entry as a server has it: the DN and the attributes with their values, all of them bytes.\<close>

type_synonym raw_entry = "bytes \<times> (bytes \<times> bytes list) list"

definition enc_attribute :: "bytes \<times> bytes list \<Rightarrow> bytes" where
  "enc_attribute a = write_tlv SEQUENCE (write_octet_string (fst a) @ write_tlv BER_SET (concat (map write_octet_string (snd a))))"

definition enc_entry :: "raw_entry \<Rightarrow> bytes" where
  "enc_entry e = write_octet_string (fst e) @ write_tlv SEQUENCE (concat (map enc_attribute (snd e)))"

definition enc_result :: "i64 \<Rightarrow> bytes \<Rightarrow> bytes \<Rightarrow> bytes \<Rightarrow> bytes" where
  "enc_result rc dn diag rest = write_enumerated rc @ write_octet_string dn @ write_octet_string diag @ rest"

text \<open>A message with its controls, as far as the client reads it.\<close>

definition enc_message :: "i64 \<Rightarrow> byte \<Rightarrow> bytes \<Rightarrow> bytes \<Rightarrow> bytes" where
  "enc_message mid op body controls = write_tlv SEQUENCE (write_integer mid @ write_tlv op body @ controls)"

definition message_fits :: "i64 \<Rightarrow> byte \<Rightarrow> bytes \<Rightarrow> bytes \<Rightarrow> bool" where
  "message_fits mid op body controls \<longleftrightarrow> length (write_integer mid @ write_tlv op body @ controls) \<le> MAX_MESSAGE_BYTES"

definition text_entry :: "raw_entry \<Rightarrow> search_entry" where
  "text_entry e = (from_utf8_lossy (fst e), map (\<lambda>a. (from_utf8_lossy (fst a), snd a)) (snd e))"

lemma read_octets_simp: "length s \<le> U64_MAX \<Longrightarrow> read_octet_string (write_octet_string s @ r) = Ok (s, r)"
  by (rule ber_octets.dec_enc)

lemma concat_bound: "x \<in> set xs \<Longrightarrow> length (f x) \<le> length (concat (map f xs))"
  by (induction xs) auto

lemma octets_bound: "length s \<le> length (write_octet_string s)"
  using length_write_tlv [of s OCTET_STRING] by (simp add: write_octet_string_def)

lemma read_values_enc: "list_all (\<lambda>v. length v \<le> U64_MAX) vs \<Longrightarrow> read_values (concat (map write_octet_string vs)) = Ok vs"
proof (induction vs)
  case (Cons v vs)
  have "write_octet_string v \<noteq> []" by (simp add: write_octet_string_def write_tlv_def)
  with Cons show ?case by (subst read_values.simps) (simp add: read_octets_simp)
qed (simp add: read_values.simps)

lemma read_attribute_enc:
  assumes "length (enc_attribute a) \<le> U64_MAX"
  shows "read_attribute (enc_attribute a @ r) = Ok ((from_utf8_lossy (fst a), snd a), r)"
proof -
  let ?v = "concat (map write_octet_string (snd a))"
  let ?b = "write_octet_string (fst a) @ write_tlv BER_SET ?v"
  have b: "length ?b \<le> U64_MAX" using assms length_write_tlv [of ?b SEQUENCE] by (simp add: enc_attribute_def)
  then have n: "length (fst a) \<le> U64_MAX" "length ?v \<le> U64_MAX"
    using octets_bound [of "fst a"] length_write_tlv [of ?v BER_SET] by simp_all
  have "length v \<le> U64_MAX" if "v \<in> set (snd a)" for v
    using octets_bound [of v] concat_bound [OF that, of write_octet_string] n(2) by linarith
  then have "read_values ?v = Ok (snd a)" by (intro read_values_enc) (simp add: list_all_iff)
  then show ?thesis using n read_expect_write [OF b, of SEQUENCE r] read_expect_write [OF n(2), of BER_SET "[]"]
    by (simp add: read_attribute_def enc_attribute_def read_octets_simp)
qed

lemma read_attributes_enc:
  "length (concat (map enc_attribute as)) \<le> U64_MAX \<Longrightarrow>
    read_attributes (concat (map enc_attribute as)) = Ok (map (\<lambda>a. (from_utf8_lossy (fst a), snd a)) as)"
proof (induction as)
  case (Cons a as)
  have "enc_attribute a \<noteq> []" by (simp add: enc_attribute_def write_tlv_def)
  with Cons show ?case by (subst read_attributes.simps) (simp add: read_attribute_enc)
qed (simp add: read_attributes.simps)

lemma parse_entry_enc:
  assumes "length (enc_entry e) \<le> U64_MAX"
  shows "parse_search_entry (enc_entry e) = Ok (text_entry e)"
proof -
  let ?a = "concat (map enc_attribute (snd e))"
  have "length (fst e) \<le> U64_MAX" "length ?a \<le> U64_MAX"
    using assms octets_bound [of "fst e"] length_write_tlv [of ?a SEQUENCE] by (simp_all add: enc_entry_def)
  then show ?thesis using read_expect_write [of ?a SEQUENCE "[]"]
    by (simp add: parse_search_entry_def enc_entry_def read_octets_simp read_attributes_enc text_entry_def)
qed

lemma parse_result_enc:
  assumes "length (enc_result rc dn diag rest) \<le> U64_MAX"
  shows "parse_ldap_result (enc_result rc dn diag rest) = Ok (rc, from_utf8_lossy diag)"
proof -
  have "length dn \<le> U64_MAX" "length diag \<le> U64_MAX"
    using assms octets_bound [of dn] octets_bound [of diag] by (simp_all add: enc_result_def)
  then show ?thesis by (simp add: parse_ldap_result_def enc_result_def ber_enumerated.dec_enc read_octets_simp)
qed

lemma read_length_message:
  assumes "read_length data = Ok (n, r)"
  shows "\<exists>first t. data = first # t \<and> message_length first t = Ok (n, r)"
proof (cases data)
  case (Cons first t)
  with assms have "message_length first t = Ok (n, r)"
    by (auto simp: read_length_def message_length_def ldap_read_exact_def Let_def split: if_splits)
  with Cons show ?thesis by blast
qed (use assms in \<open>simp add: read_length_def\<close>)

lemma read_message_enc:
  assumes "length body \<le> MAX_MESSAGE_BYTES"
  shows "read_message_from (write_tlv SEQUENCE body @ r) = Ok (body, r)"
proof -
  have "read_length (encode_length (length body) @ body @ r) = Ok (length body, body @ r)" using assms by simp
  then obtain first t where t: "encode_length (length body) @ body @ r = first # t" "message_length first t = Ok (length body, body @ r)"
    by (blast dest: read_length_message)
  have "write_tlv SEQUENCE body @ r = SEQUENCE # first # t" using t(1) by (simp add: write_tlv_def)
  then show ?thesis using assms t(2) by (simp add: read_message_from_def ldap_read_exact_def)
qed

lemma message_enc:
  assumes "message_fits mid op body controls"
  shows "\<exists>b. read_message_from (enc_message mid op body controls @ r) = Ok (b, r) \<and> split_message b = Ok (mid, op, body)"
proof (intro exI conjI)
  show "read_message_from (enc_message mid op body controls @ r) = Ok (write_integer mid @ write_tlv op body @ controls, r)"
    using assms unfolding enc_message_def message_fits_def by (rule read_message_enc)
  have "length body \<le> U64_MAX" using assms length_write_tlv [of body op] by (simp add: message_fits_def)
  then show "split_message (write_integer mid @ write_tlv op body @ controls) = Ok (mid, op, body)"
    by (simp add: split_message_def ber_integer.dec_enc)
qed

section \<open>A whole search\<close>

text \<open>What a server may send between the bind response and the end of the search.\<close>

datatype reply = Entry raw_entry bytes | Reference bytes bytes | Other i64 byte bytes bytes

fun enc_reply :: "reply \<Rightarrow> bytes" where
  "enc_reply (Entry e c) = enc_message 2 (tag_app 4 True) (enc_entry e) c"
| "enc_reply (Reference b c) = enc_message 2 (tag_app 19 True) b c"
| "enc_reply (Other mid op b c) = enc_message mid op b c"

fun reply_ok :: "reply \<Rightarrow> bool" where
  "reply_ok (Entry e c) \<longleftrightarrow> message_fits 2 (tag_app 4 True) (enc_entry e) c"
| "reply_ok (Reference b c) \<longleftrightarrow> message_fits 2 (tag_app 19 True) b c"
| "reply_ok (Other mid op b c) \<longleftrightarrow> mid \<noteq> 2 \<and> message_fits mid op b c"

fun reply_ldif :: "reply \<Rightarrow> bytes" where
  "reply_ldif (Entry e c) = write_ldif_entry (text_entry e)"
| "reply_ldif r = []"

lemma app_tags: "tag_app 1 True = 0x61" "tag_app 3 True = 0x63" "tag_app 4 True = 0x64" "tag_app 5 True = 0x65" "tag_app 19 True = 0x73"
  by (simp_all add: tag_app_def)

lemma fits_body: "message_fits mid op body c \<Longrightarrow> length body \<le> U64_MAX"
  using length_write_tlv [of body op] by (simp add: message_fits_def)

lemma scast_ids [simp]: "(scast (2 :: i32) :: i64) = 2"
  by (rule bit_word_eqI) (simp add: bit_simps)

lemma search_loop_done:
  assumes "message_fits 2 (tag_app 5 True) (enc_result rc dn diag rs) c" "rc \<in> {0, LDAP_SIZE_LIMIT_EXCEEDED}"
  shows "search_loop 2 out (enc_message 2 (tag_app 5 True) (enc_result rc dn diag rs) c @ r) = Ok (out, r)"
  using message_enc [OF assms(1), of r] assms(2) parse_result_enc [OF fits_body [OF assms(1)]]
  by (subst search_loop.simps) (auto simp: app_tags)

lemma search_loop_reply:
  assumes "reply_ok x" "length (out @ reply_ldif x) \<le> MAX_OUTPUT_BYTES"
  shows "search_loop 2 out (enc_reply x @ r) = search_loop 2 (out @ reply_ldif x) r"
proof (cases x)
  case (Entry e c)
  then have ok: "message_fits 2 (tag_app 4 True) (enc_entry e) c" using assms(1) by simp
  show ?thesis using message_enc [OF ok, of r] parse_entry_enc [OF fits_body [OF ok]] assms(2) Entry
    by (subst search_loop.simps) (auto simp: app_tags)
next
  case (Reference b c)
  then have ok: "message_fits 2 (tag_app 19 True) b c" using assms(1) by simp
  show ?thesis using message_enc [OF ok, of r] Reference by (subst search_loop.simps) (auto simp: app_tags)
next
  case (Other mid op b c)
  then have ok: "message_fits mid op b c" "mid \<noteq> 2" using assms(1) by simp_all
  show ?thesis using message_enc [OF ok(1), of r] ok(2) Other by (subst search_loop.simps) auto
qed

lemma search_loop_replies:
  "list_all reply_ok xs \<Longrightarrow> length (out @ concat (map reply_ldif xs)) \<le> MAX_OUTPUT_BYTES \<Longrightarrow>
    search_loop 2 out (concat (map enc_reply xs) @ r) = search_loop 2 (out @ concat (map reply_ldif xs)) r"
  by (induction xs arbitrary: out) (simp_all add: search_loop_reply)

lemma bind_response_enc:
  assumes "message_fits mid (tag_app 1 True) (enc_result 0 dn diag rs) c"
  shows "bind_response (enc_message mid (tag_app 1 True) (enc_result 0 dn diag rs) c @ r) = Ok r"
  using message_enc [OF assms, of r] parse_result_enc [OF fits_body [OF assms]] by (auto simp: bind_response_def)

text \<open>
  (C37) A search against a server that speaks LDAP returns its entries: whatever entries, referrals and messages of other exchanges the server sends
  after accepting the bind, in any order, the client sends bind, search and unbind and returns the LDIF text of exactly the entries, in order.
\<close>

theorem ldap_search_complete:
  assumes "ldap_prepare u = Ok (q, name, pass)" "build_search_request 2 q = Ok req"
    and "message_fits mid (tag_app 1 True) (enc_result 0 bdn bdiag brest) bc"
    and "list_all reply_ok replies" "length (concat (map reply_ldif replies)) \<le> MAX_OUTPUT_BYTES"
    and "message_fits 2 (tag_app 5 True) (enc_result rc ddn ddiag drest) dc" "rc \<in> {0, LDAP_SIZE_LIMIT_EXCEEDED}"
  shows "ldap_fetch u (Ok (enc_message mid (tag_app 1 True) (enc_result 0 bdn bdiag brest) bc @ concat (map enc_reply replies) @
      enc_message 2 (tag_app 5 True) (enc_result rc ddn ddiag drest) dc @ rest)) =
    ([build_bind_request 1 name pass, req, build_unbind_request 3], Ok (concat (map reply_ldif replies)))"
  using assms(1,2) search_loop_replies [OF assms(4), of "[]"] assms(5)
  by (simp add: ldap_fetch_def ldap_exchange_def bind_response_enc [OF assms(3)] search_loop_done [OF assms(6,7)])

definition demo_ldap_url :: url where
  "demo_ldap_url = \<lparr>u_scheme = ''ldap'', u_userinfo = None, u_host = ''h'', u_port = 389, u_path = ''/dc=x?cn?sub''\<rparr>"

definition demo_entry :: raw_entry where
  "demo_entry = (as_bytes ''cn=a'', [(as_bytes ''cn'', [[0x61], [0x0a]])])"

lemma demo_prepared: "ldap_prepare demo_ldap_url = Ok (demo_query ''(objectClass=*)'', [], [])"
  by code_simp

lemma demo_search_request: "\<exists>req. build_search_request 2 (demo_query ''(objectClass=*)'') = Ok req"
proof -
  have "parse_filter ''(objectClass=*)'' = Ok (Present ''objectClass'')" by code_simp
  then show ?thesis by (simp add: build_search_request_def demo_query_def)
qed

lemma fits_small: "length (write_integer mid @ write_tlv op body @ controls) < 100 \<Longrightarrow> message_fits mid op body controls"
  by (simp add: message_fits_def)

definition demo_replies :: "reply list" where
  "demo_replies = [Other 0 0x78 [] [], Entry demo_entry [], Reference [] []]"

lemma demo_session:
  "message_fits 1 (tag_app 1 True) (enc_result 0 [] [] []) []" "message_fits 2 (tag_app 5 True) (enc_result 4 [] [] []) []"
  "list_all reply_ok demo_replies" "concat (map reply_ldif demo_replies) = write_ldif_entry (''cn=a'', [(''cn'', [[0x61], [0x0a]])])"
  "length (concat (map reply_ldif demo_replies)) < 100"
proof -
  show "message_fits 1 (tag_app 1 True) (enc_result 0 [] [] []) []" by (rule fits_small) code_simp
  show "message_fits 2 (tag_app 5 True) (enc_result 4 [] [] []) []" by (rule fits_small) code_simp
  have "message_fits 0 0x78 [] []" "message_fits 2 (tag_app 4 True) (enc_entry demo_entry) []" "message_fits 2 (tag_app 19 True) [] []"
    by (rule fits_small, code_simp)+
  then show "list_all reply_ok demo_replies" by (simp add: demo_replies_def)
  show "concat (map reply_ldif demo_replies) = write_ldif_entry (''cn=a'', [(''cn'', [[0x61], [0x0a]])])" by code_simp
  show "length (concat (map reply_ldif demo_replies)) < 100" by code_simp
qed

theorem ldap_search_complete_witness:
  "snd (ldap_fetch demo_ldap_url (Ok (enc_message 1 (tag_app 1 True) (enc_result 0 [] [] []) [] @ concat (map enc_reply demo_replies) @
     enc_message 2 (tag_app 5 True) (enc_result 4 [] [] []) []))) = Ok (write_ldif_entry (''cn=a'', [(''cn'', [[0x61], [0x0a]])]))"
proof -
  obtain req where req: "build_search_request 2 (demo_query ''(objectClass=*)'') = Ok req" using demo_search_request by blast
  have "length (concat (map reply_ldif demo_replies)) \<le> MAX_OUTPUT_BYTES" "(4 :: i64) \<in> {0, LDAP_SIZE_LIMIT_EXCEEDED}"
    using demo_session(5) by simp_all
  from ldap_search_complete [OF demo_prepared req demo_session(1,3) this(1) demo_session(2) this(2), of "[]"] show ?thesis
    unfolding demo_session(4) by simp
qed

section \<open>LDIF\<close>

text \<open>A reader of LDIF text: a line is an attribute name and its value, plain or in base64; a blank line ends a record.\<close>

definition ldif_line :: "bytes \<Rightarrow> (bytes \<times> bytes) option" where
  "ldif_line line =
     (case position (\<lambda>b. b = 0x3a) line of
        None \<Rightarrow> None
      | Some k \<Rightarrow>
          let name = take k line; r = drop (k + 1) line
          in if take 2 r = [0x3a, 0x20] then map_option (Pair name) (base64_decode (map char_of_byte (drop 2 r)))
             else if take 1 r = [0x20] then Some (name, drop 1 r) else None)"

function read_ldif :: "(bytes \<times> bytes) list \<Rightarrow> bytes \<Rightarrow> (bytes \<times> bytes) list list option" where
  "read_ldif cur text =
     (if text = [] then (if cur = [] then Some [] else None)
      else let line = takeWhile (\<lambda>b. b \<noteq> 0x0a) text; rest = drop (length line + 1) text
        in if line = [] then map_option (Cons cur) (read_ldif [] rest)
           else case ldif_line line of None \<Rightarrow> None | Some p \<Rightarrow> read_ldif (cur @ [p]) rest)"
  by pat_completeness auto
termination
  by (relation "measure (\<lambda>(_, text). length text)") auto

declare read_ldif.simps [simp del]

definition ldif_pairs :: "search_entry \<Rightarrow> (bytes \<times> bytes) list" where
  "ldif_pairs e = (as_bytes ''dn'', as_bytes (fst e)) #
     concat (map (\<lambda>(name, vals). if ldif_name_is_safe name then map (Pair (as_bytes name)) vals else []) (snd e))"

lemma safe_name_bytes:
  assumes "ldif_name_is_safe name"
  shows "as_bytes name \<noteq> []" "\<forall>b \<in> set (as_bytes name). b \<noteq> 0x3a \<and> b \<noteq> 0x0a"
proof -
  show "as_bytes name \<noteq> []" using assms by (simp add: ldif_name_is_safe_def as_bytes_def)
  have "CHR '':'' \<notin> set name" "CHR 0x0A \<notin> set name"
    using assms by (auto simp: ldif_name_is_safe_def list_all_iff is_ascii_alphanumeric_def is_ascii_digit_def is_ascii_lowercase_def is_ascii_uppercase_def)
  moreover have "byte_of_char c = 0x3a \<longleftrightarrow> c = CHR '':''" "byte_of_char c = 0x0a \<longleftrightarrow> c = CHR 0x0A" for c
    using byte_of_char_eq_iff [of c "CHR '':''"] byte_of_char_eq_iff [of c "CHR 0x0A"] by (simp_all add: byte_of_char_def)
  ultimately show "\<forall>b \<in> set (as_bytes name). b \<noteq> 0x3a \<and> b \<noteq> 0x0a" by (auto simp: as_bytes_def)
qed

definition ldif_value_text :: "bytes \<Rightarrow> bytes" where
  "ldif_value_text v =
     (if ldif_is_safe v then as_bytes '' '' @ v else as_bytes '': '' @ as_bytes (base64_encode v))"

lemma ldif_value_one_line: "\<forall>b \<in> set (ldif_value_text v). b \<noteq> 0x0a"
proof -
  have "byte_of_char c \<noteq> 0x0a" if "c \<in> set (base64_encode v)" for c
    using base64_encode_chars [of v] that by (auto simp: list_all_iff b64_char_def b64_val_def)
  then show ?thesis by (auto simp: ldif_value_text_def ldif_is_safe_def as_bytes_def list_ex_iff byte_of_char_def)
qed

lemma read_ldif_text:
  assumes "line \<noteq> []" "\<forall>b \<in> set line. b \<noteq> 0x0a" "ldif_line line = Some p"
  shows "read_ldif cur (line @ 0x0a # r) = read_ldif (cur @ [p]) r"
proof -
  have "takeWhile (\<lambda>b. b \<noteq> 0x0a) (line @ 0x0a # r) = line" using assms(2) by (simp add: takeWhile_append2)
  then show ?thesis using assms(1,3) by (subst read_ldif.simps) simp
qed

lemma ldif_line_write:
  assumes "\<forall>b \<in> set name. b \<noteq> 0x3a"
  shows "ldif_line (name @ 0x3a # ldif_value_text v) = Some (name, v)"
proof -
  have p: "position (\<lambda>b. b = 0x3a) (name @ 0x3a # t) = Some (length name)" for t
    using assms by (intro position_append_hit) auto
  have "take 2 (0x20 # v) \<noteq> [0x3a, 0x20]" "map char_of_byte (as_bytes (base64_encode v)) = base64_encode v"
    by (simp_all add: as_bytes_def o_def)
  then show ?thesis
    by (simp add: ldif_line_def p ldif_value_text_def base64_decode_encode byte_of_char_def)
qed

lemma read_ldif_line:
  assumes "ldif_name_is_safe name"
  shows "read_ldif cur (write_ldif_line name v @ r) = read_ldif (cur @ [(as_bytes name, v)]) r"
proof -
  let ?l = "as_bytes name @ 0x3a # ldif_value_text v"
  have "write_ldif_line name v @ r = ?l @ 0x0a # r" by (simp add: write_ldif_line_def ldif_value_text_def byte_of_char_def)
  then show ?thesis
    using read_ldif_text [of ?l "(as_bytes name, v)" cur r] safe_name_bytes [OF assms] ldif_value_one_line [of v] ldif_line_write [of "as_bytes name" v]
    by auto
qed

lemma read_ldif_values:
  "ldif_name_is_safe name \<Longrightarrow> read_ldif cur (concat (map (write_ldif_line name) vs) @ r) = read_ldif (cur @ map (Pair (as_bytes name)) vs) r"
  by (induction vs arbitrary: cur) (simp_all add: read_ldif_line)

lemma read_ldif_attrs:
  "read_ldif cur (concat (map (\<lambda>(name, vals). if \<not> ldif_name_is_safe name then [] else concat (map (write_ldif_line name) vals)) attrs) @ r) =
    read_ldif (cur @ concat (map (\<lambda>(name, vals). if ldif_name_is_safe name then map (Pair (as_bytes name)) vals else []) attrs)) r"
  by (induction attrs arbitrary: cur) (auto simp: read_ldif_values)

lemma read_ldif_entry: "read_ldif [] (write_ldif_entry e @ r) = map_option (Cons (ldif_pairs e)) (read_ldif [] r)"
proof -
  have "ldif_name_is_safe ''dn''" by (simp add: ldif_name_is_safe_def is_ascii_alphanumeric_def is_ascii_lowercase_def)
  moreover have "read_ldif cur (0x0a # r) = map_option (Cons cur) (read_ldif [] r)" for cur by (subst read_ldif.simps) simp
  ultimately show ?thesis by (cases e) (simp add: write_ldif_entry_def read_ldif_line read_ldif_attrs ldif_pairs_def)
qed

text \<open>
  (C38) LDIF output cannot be forged: read line by line, the text written for any entries a server sends has exactly one record per entry, with
  its DN and exactly the values of its attributes with legal names. No DN, attribute name or value can add, hide or end a line.
\<close>

theorem ldif_roundtrip: "read_ldif [] (concat (map write_ldif_entry entries)) = Some (map ldif_pairs entries)"
  by (induction entries) (simp_all add: read_ldif_entry read_ldif.simps [of "[]" "[]"])

end
