(* ===== verification/Bencode.thy ===== *)
theory Bencode
  imports Rust_Str "HOL-Library.List_Lexorder"
begin

text \<open>
  Bencode (\<open>src/src/bittorrent/bencode.rs\<close>): the value type, the recursive decoder with its nesting
  and allocation limits, the validating skipper used to find the byte span of the \<open>info\<close>
  dictionary, and the canonical encoder. The decoder's cursor is the remaining input.
\<close>

section \<open>Values\<close>

datatype bvalue = BInt int | BBytes bytes | BList "bvalue list" | BDict "(bytes \<times> bvalue) list"

text \<open>A \<open>BTreeMap\<close> with byte-string keys is its list of entries in key order.\<close>

fun bt_insert :: "'k::linorder \<Rightarrow> 'v \<Rightarrow> ('k \<times> 'v) list \<Rightarrow> ('k \<times> 'v) list" where
  "bt_insert k v [] = [(k, v)]"
| "bt_insert k v ((k', v') # m) =
     (if k < k' then (k, v) # (k', v') # m
      else if k = k' then (k, v) # m
      else (k', v') # bt_insert k v m)"

definition as_int :: "bvalue \<Rightarrow> int option" where
  "as_int v = (case v of BInt i \<Rightarrow> Some i | _ \<Rightarrow> None)"

definition as_byte_string :: "bvalue \<Rightarrow> bytes option" where
  "as_byte_string v = (case v of BBytes b \<Rightarrow> Some b | _ \<Rightarrow> None)"

definition as_utf8 :: "bvalue \<Rightarrow> string option" where
  "as_utf8 v = (case v of BBytes b \<Rightarrow> from_utf8 b | _ \<Rightarrow> None)"

definition as_list :: "bvalue \<Rightarrow> bvalue list option" where
  "as_list v = (case v of BList l \<Rightarrow> Some l | _ \<Rightarrow> None)"

definition as_dict :: "bvalue \<Rightarrow> (bytes \<times> bvalue) list option" where
  "as_dict v = (case v of BDict d \<Rightarrow> Some d | _ \<Rightarrow> None)"

definition dict_get :: "bvalue \<Rightarrow> bytes \<Rightarrow> bvalue option" where
  "dict_get v key = (case as_dict v of Some d \<Rightarrow> map_of d key | None \<Rightarrow> None)"

section \<open>Scanning\<close>

abbreviation (input) MAX_ALLOC :: nat where "MAX_ALLOC \<equiv> 268435456"
abbreviation (input) MAX_DEPTH :: nat where "MAX_DEPTH \<equiv> 256"

abbreviation berr :: "string \<Rightarrow> error" where
  "berr m \<equiv> BadResponse (''bencode: '' @ m)"

definition digit_byte :: "byte \<Rightarrow> bool" where
  "digit_byte b \<longleftrightarrow> 0x30 \<le> b \<and> b \<le> 0x39"

definition show_int :: "int \<Rightarrow> string" where
  "show_int n = (if n < 0 then CHR ''-'' # show_nat (nat (- n)) else show_nat (nat n))"

text \<open>\<open>find(b)\<close> and the text before it; the rest starts after the terminator.\<close>

definition until_byte :: "byte \<Rightarrow> bytes \<Rightarrow> (bytes \<times> bytes) result" where
  "until_byte b inp =
     (case position (\<lambda>c. c = b) inp of
        Some k \<Rightarrow> Ok (take k inp, drop (k + 1) inp)
      | None \<Rightarrow> Err (berr ''missing terminator''))"

text \<open>\<open>integer\<close>, after the leading \<open>i\<close>.\<close>

definition ben_integer :: "bytes \<Rightarrow> (int \<times> bytes) result" where
  "ben_integer inp =
     res_bind (until_byte 0x65 inp) (\<lambda>(t, rest).
       res_bind (ok_or (berr ''non-utf8 integer'') (from_utf8 t)) (\<lambda>s.
         let digits = (case strip_prefix ''-'' s of Some d \<Rightarrow> d | None \<Rightarrow> s)
         in if digits = [] \<or> \<not> list_all is_ascii_digit digits \<or>
               (starts_with ''0'' digits \<and> length digits > 1) \<or> s = ''-0''
            then Err (berr ''malformed integer'')
            else res_bind (ok_or (berr ''integer out of range'') (parse_i64 s)) (\<lambda>n. Ok (n, rest))))"

definition byte_string :: "bytes \<Rightarrow> (bytes \<times> bytes) result" where
  "byte_string inp =
     res_bind (until_byte 0x3a inp) (\<lambda>(t, rest).
       res_bind (ok_or (berr ''bad length'') (from_utf8 t)) (\<lambda>len_s.
         if len_s = [] \<or> \<not> list_all is_ascii_digit len_s \<or> (starts_with ''0'' len_s \<and> length len_s > 1)
         then Err (berr ''malformed string length'')
         else res_bind (ok_or (berr ''string length out of range'') (parse_unsigned U64_MAX len_s)) (\<lambda>len.
           if len > MAX_ALLOC then Err (berr ''string too large'')
           else if len > length rest then Err (berr ''string runs past end'')
           else Ok (take len rest, drop len rest))))"

lemma until_byte_shorter: "until_byte b inp = Ok (t, rest) \<Longrightarrow> length rest < length inp"
  by (auto simp: until_byte_def dest: position_SomeD split: option.splits)

lemma ben_integer_shorter: "ben_integer inp = Ok (n, rest) \<Longrightarrow> length rest < length inp"
  by (auto simp: ben_integer_def Let_def dest: until_byte_shorter split: if_splits)

lemma byte_string_shorter: "byte_string inp = Ok (s, rest) \<Longrightarrow> length rest < length inp"
  by (auto simp: byte_string_def Let_def dest!: until_byte_shorter split: if_splits) (metis diff_le_self le_less_trans)+

section \<open>The decoder\<close>

function (sequential) value_depth :: "nat \<Rightarrow> bytes \<Rightarrow> (bvalue \<times> bytes) result"
  and list_loop :: "nat \<Rightarrow> bvalue list \<Rightarrow> bytes \<Rightarrow> (bvalue \<times> bytes) result"
  and dict_loop :: "nat \<Rightarrow> (bytes \<times> bvalue) list \<Rightarrow> bytes \<Rightarrow> (bvalue \<times> bytes) result" where
  "value_depth depth inp =
     (if depth > MAX_DEPTH then Err (berr ''nesting too deep'')
      else case inp of
          [] \<Rightarrow> Err (berr ''unexpected end'')
        | b # r \<Rightarrow>
            if b = 0x69 then res_bind (ben_integer r) (\<lambda>(n, r'). Ok (BInt n, r'))
            else if b = 0x6c then list_loop depth [] r
            else if b = 0x64 then dict_loop depth [] r
            else if digit_byte b then res_bind (byte_string inp) (\<lambda>(s, r'). Ok (BBytes s, r'))
            else Err (berr ''unexpected byte''))"
| "list_loop depth out [] = Err (berr ''unexpected end'')"
| "list_loop depth out (b # r) =
     (if b = 0x65 then Ok (BList out, r)
      else res_bind (value_depth (depth + 1) (b # r)) (\<lambda>(v, r'). list_loop depth (out @ [v]) r'))"
| "dict_loop depth m [] = Err (berr ''unexpected end'')"
| "dict_loop depth m (b # r) =
     (if b = 0x65 then Ok (BDict m, r)
      else if \<not> digit_byte b then Err (berr ''dict key is not a byte string'')
      else res_bind (byte_string (b # r)) (\<lambda>(k, r1).
        res_bind (value_depth (depth + 1) r1) (\<lambda>(v, r2).
          if k \<in> fst ` set m then Err (berr ''duplicate dict key'')
          else dict_loop depth (bt_insert k v m) r2)))"
  by pat_completeness auto

lemma value_depth_shorter:
  "value_depth_list_loop_dict_loop_dom (Inl (d, inp)) \<Longrightarrow> value_depth d inp = Ok (v, rest) \<Longrightarrow> length rest < length inp"
  "value_depth_list_loop_dict_loop_dom (Inr (Inl (d, out, inp))) \<Longrightarrow> list_loop d out inp = Ok (v, rest) \<Longrightarrow> length rest < length inp"
  "value_depth_list_loop_dict_loop_dom (Inr (Inr (d, m, inp))) \<Longrightarrow> dict_loop d m inp = Ok (v, rest) \<Longrightarrow> length rest < length inp"
proof (induction d inp and d out inp and d m inp arbitrary: v rest and v rest and v rest
    rule: value_depth_list_loop_dict_loop.pinduct)
  case (1 depth inp)
  show ?case
  proof (cases inp)
    case (Cons b r)
    with "1.prems" "1.hyps" show ?thesis
      using "1.IH"(1) [OF _ Cons, of v rest] "1.IH"(2) [OF _ Cons, of v rest]
      by (auto simp: value_depth.psimps dest!: ben_integer_shorter byte_string_shorter intro: less_SucI split: if_splits)
  qed (use "1.prems" "1.hyps" in \<open>simp add: value_depth.psimps split: if_splits\<close>)
next
  case (3 depth out b r)
  then show ?case by (fastforce simp: list_loop.psimps split: if_splits)
next
  case (5 depth m b r)
  then show ?case by (fastforce simp: dict_loop.psimps dest: byte_string_shorter split: if_splits)
qed (auto simp: list_loop.psimps dict_loop.psimps)

termination value_depth
  by (relation "measures [\<lambda>x. case x of Inl (d, inp) \<Rightarrow> length inp | Inr (Inl (d, out, inp)) \<Rightarrow> length inp
        | Inr (Inr (d, m, inp)) \<Rightarrow> length inp, \<lambda>x. case x of Inl _ \<Rightarrow> 0 | Inr _ \<Rightarrow> 1]")
    (auto dest!: value_depth_shorter(1) byte_string_shorter)

declare value_depth.simps [simp del]

definition ben_parse :: "bytes \<Rightarrow> bvalue result" where
  "ben_parse inp =
     res_bind (value_depth 0 inp) (\<lambda>(v, rest).
       if rest \<noteq> [] then Err (berr ''trailing bytes after value'') else Ok v)"

section \<open>Skipping\<close>

function (sequential) skip_value :: "nat \<Rightarrow> bytes \<Rightarrow> bytes result"
  and skip_list :: "nat \<Rightarrow> bytes \<Rightarrow> bytes result"
  and skip_dict :: "nat \<Rightarrow> bytes list \<Rightarrow> bytes \<Rightarrow> bytes result" where
  "skip_value depth inp =
     (if depth > MAX_DEPTH then Err (berr ''nesting too deep'')
      else case inp of
          [] \<Rightarrow> Err (berr ''unexpected end'')
        | b # r \<Rightarrow>
            if b = 0x69 then res_bind (ben_integer r) (\<lambda>(n, r'). Ok r')
            else if b = 0x6c then skip_list depth r
            else if b = 0x64 then skip_dict depth [] r
            else if digit_byte b then res_bind (byte_string inp) (\<lambda>(s, r'). Ok r')
            else Err (berr ''unexpected byte''))"
| "skip_list depth [] = Err (berr ''unexpected end'')"
| "skip_list depth (b # r) =
     (if b = 0x65 then Ok r
      else res_bind (skip_value (depth + 1) (b # r)) (\<lambda>r'. skip_list depth r'))"
| "skip_dict depth keys [] = Err (berr ''unexpected end'')"
| "skip_dict depth keys (b # r) =
     (if b = 0x65 then Ok r
      else if \<not> digit_byte b then Err (berr ''dict key is not a byte string'')
      else res_bind (byte_string (b # r)) (\<lambda>(k, r1).
        res_bind (skip_value (depth + 1) r1) (\<lambda>r2.
          if k \<in> set keys then Err (berr ''duplicate dict key'')
          else skip_dict depth (k # keys) r2)))"
  by pat_completeness auto

lemma skip_value_shorter:
  "skip_value_skip_list_skip_dict_dom (Inl (d, inp)) \<Longrightarrow> skip_value d inp = Ok rest \<Longrightarrow> length rest < length inp"
  "skip_value_skip_list_skip_dict_dom (Inr (Inl (d, inp))) \<Longrightarrow> skip_list d inp = Ok rest \<Longrightarrow> length rest < length inp"
  "skip_value_skip_list_skip_dict_dom (Inr (Inr (d, m, inp))) \<Longrightarrow> skip_dict d m inp = Ok rest \<Longrightarrow> length rest < length inp"
proof (induction d inp and d inp and d m inp arbitrary: rest and rest and rest rule: skip_value_skip_list_skip_dict.pinduct)
  case (1 depth inp)
  show ?case
  proof (cases inp)
    case (Cons b r)
    with "1.prems" "1.hyps" show ?thesis
      using "1.IH"(1) [OF _ Cons, of rest] "1.IH"(2) [OF _ Cons, of rest]
      by (auto simp: skip_value.psimps dest!: ben_integer_shorter byte_string_shorter intro: less_SucI split: if_splits)
  qed (use "1.prems" "1.hyps" in \<open>simp add: skip_value.psimps split: if_splits\<close>)
next
  case (3 depth b r)
  then show ?case by (fastforce simp: skip_list.psimps split: if_splits)
next
  case (5 depth keys b r)
  then show ?case by (fastforce simp: skip_dict.psimps dest: byte_string_shorter split: if_splits)
qed (auto simp: skip_list.psimps skip_dict.psimps)

lemma skip_dom: "All skip_value_skip_list_skip_dict_dom"
  by (relation "measures [\<lambda>x. case x of Inl (d, inp) \<Rightarrow> length inp | Inr (Inl (d, inp)) \<Rightarrow> length inp
        | Inr (Inr (d, m, inp)) \<Rightarrow> length inp, \<lambda>x. case x of Inl _ \<Rightarrow> 0 | Inr _ \<Rightarrow> 1]")
    (auto dest!: skip_value_shorter(1) byte_string_shorter)

termination skip_value
  by (rule skip_dom)

declare skip_value.simps [simp del]

text \<open>\<open>dict_entry_spans\<close>: key and byte range of each top-level entry; \<open>n\<close> is the buffer length.\<close>

lemma skip_value_less: "skip_value d inp = Ok rest \<Longrightarrow> length rest < length inp"
  by (rule skip_value_shorter(1)) (simp_all add: skip_dom [rule_format])

function entry_spans :: "nat \<Rightarrow> (bytes \<times> nat \<times> nat) list \<Rightarrow> bytes \<Rightarrow> ((bytes \<times> nat \<times> nat) list \<times> bytes) result" where
  "entry_spans n out inp =
     (case inp of
        [] \<Rightarrow> Err (berr ''unexpected end'')
      | b # r \<Rightarrow>
          if b = 0x65 then Ok (out, r)
          else if \<not> digit_byte b then Err (berr ''dict key is not a byte string'')
          else res_bind (byte_string inp) (\<lambda>(k, r1).
            res_bind (skip_value 0 r1) (\<lambda>r2.
              entry_spans n (out @ [(k, n - length r1, n - length r2)]) r2)))"
  by pat_completeness auto
termination
  by (relation "measure (\<lambda>(n, out, inp). length inp)") (auto dest!: skip_value_less byte_string_shorter)

declare entry_spans.simps [simp del]

definition dict_entry_spans :: "bytes \<Rightarrow> (bytes \<times> nat \<times> nat) list result" where
  "dict_entry_spans buf =
     (case buf of
        [] \<Rightarrow> Err (berr ''unexpected end'')
      | b # r \<Rightarrow> if b \<noteq> 0x64 then Err (berr ''expected dictionary'')
                 else res_bind (entry_spans (length buf) [] r) (\<lambda>(out, _). Ok out))"

section \<open>The encoder\<close>

definition encode_bytes :: "bytes \<Rightarrow> bytes" where
  "encode_bytes b = as_bytes (show_nat (length b)) @ [0x3a] @ b"

lemma size_entry_less [termination_simp]: "(k, v) \<in> set d \<Longrightarrow> size v < Suc (size_list (size_prod (\<lambda>x. 0) size) d)"
  by (induction d) auto

fun ben_encode :: "bvalue \<Rightarrow> bytes" where
  "ben_encode (BInt i) = [0x69] @ as_bytes (show_int i) @ [0x65]"
| "ben_encode (BBytes b) = encode_bytes b"
| "ben_encode (BList l) = [0x6c] @ concat (map ben_encode l) @ [0x65]"
| "ben_encode (BDict d) = [0x64] @ concat (map (\<lambda>(k, v). encode_bytes k @ ben_encode v) d) @ [0x65]"

end
