(* ===== verification/Bencode_Props.thy ===== *)
theory Bencode_Props
  imports Bencode Codec "HOL-Library.Multiset"
begin

text \<open>
  Properties of the bencode codec: the decoder inverts the encoder on every value within the
  limits, the inputs it accepts are exactly the documents of such values in the grammar of bencode, and the skipper accepts
  and consumes exactly what the decoder does.
\<close>

section \<open>Numbers\<close>

lemma show_nat_ascii: "\<forall>c\<in>set (show_nat n). is_ascii_digit c"
  using show_nat_digits [of n] by (simp add: list_all_iff)

lemma from_utf8_ascii: "\<forall>c\<in>set s. (of_char c :: nat) < 128 \<Longrightarrow> from_utf8 (as_bytes s) = Some s"
proof -
  assume "\<forall>c\<in>set s. (of_char c :: nat) < 128"
  then have "\<forall>b\<in>set (as_bytes s). b < 0x80"
    by (auto simp: as_bytes_def byte_of_char_def word_less_nat_alt unat_of_nat)
  then have "is_str s" by (simp add: is_str_def utf8_valid_ascii)
  then show ?thesis by simp
qed

lemma until_byte_append: "b \<notin> set t \<Longrightarrow> until_byte b (t @ b # r) = Ok (t, r)"
proof -
  assume "b \<notin> set t"
  then have "position (\<lambda>c. c = b) (t @ b # r) = Some (length t)" by (intro position_append_hit) auto
  then show ?thesis by (simp add: until_byte_def)
qed

lemma byte_of_char_notin: "(\<forall>c\<in>set s. byte_of_char c \<noteq> b) \<Longrightarrow> b \<notin> set (as_bytes s)"
  by (auto simp: as_bytes_def)

lemma byte_of_char_unat: "unat (byte_of_char c) = of_char c"
  using of_char_bound [of c] by (simp add: byte_of_char_def unat_of_nat)

lemma digit_not: "is_ascii_digit c \<Longrightarrow> byte_of_char c \<noteq> 0x65 \<and> byte_of_char c \<noteq> 0x3a \<and> digit_byte (byte_of_char c)"
  using byte_of_char_unat [of c]
  by (auto simp: is_ascii_digit_def digit_byte_def word_le_nat_alt)

lemma show_nat_head: "\<exists>c t. show_nat n = c # t \<and> is_ascii_digit c \<and> (c = CHR ''0'' \<longrightarrow> t = [] \<and> n = 0)"
proof (induction n rule: show_nat.induct)
  case (1 n)
  show ?case
  proof (cases "n < 10")
    case True
    then have "n = 0" if "char_of (48 + n) = CHR ''0''"
      using digit_char(2) [OF True] unfolding that by (simp add: digit_value_def)
    with True digit_char(1) [of n] show ?thesis by (subst show_nat.simps) auto
  next
    case False
    with 1 obtain c t where "show_nat (n div 10) = c # t" "is_ascii_digit c" "c = CHR ''0'' \<longrightarrow> t = [] \<and> n div 10 = 0" by blast
    with False show ?thesis by (subst show_nat.simps) auto
  qed
qed

lemma decimal_length_canonical: "\<not> (starts_with ''0'' (show_nat n) \<and> length (show_nat n) > 1)"
  using show_nat_head [of n] by (auto simp: starts_with_def)

lemma byte_string_encode:
  assumes "length b \<le> MAX_ALLOC"
  shows "byte_string (encode_bytes b @ r) = Ok (b, r)"
proof -
  define s where "s = show_nat (length b)"
  have d: "\<forall>c\<in>set s. is_ascii_digit c" by (simp add: s_def show_nat_ascii)
  then have "from_utf8 (as_bytes s) = Some s" by (intro from_utf8_ascii) (auto simp: is_ascii_digit_def)
  moreover have "until_byte 0x3a (as_bytes s @ 0x3a # b @ r) = Ok (as_bytes s, b @ r)"
    using d digit_not by (intro until_byte_append byte_of_char_notin) auto
  moreover have "parse_unsigned U64_MAX s = Some (length b)" unfolding s_def using assms by (intro parse_show_nat) simp
  moreover have "s \<noteq> []" "\<not> (starts_with ''0'' s \<and> length s > 1)" unfolding s_def by (simp, rule decimal_length_canonical)
  ultimately show ?thesis
    using assms d by (auto simp: byte_string_def encode_bytes_def s_def [symmetric] list_all_iff)
qed

lemma encode_bytes_head: "\<exists>c t. encode_bytes b = c # t \<and> digit_byte c \<and> c \<noteq> 0x65 \<and> c \<noteq> 0x69 \<and> c \<noteq> 0x6c \<and> c \<noteq> 0x64"
proof -
  obtain c t where c: "show_nat (length b) = c # t" "is_ascii_digit c" using show_nat_head by blast
  have "digit_byte (byte_of_char c)" using digit_not [OF c(2)] by simp
  moreover from this have "byte_of_char c \<noteq> 0x65 \<and> byte_of_char c \<noteq> 0x69 \<and> byte_of_char c \<noteq> 0x6c \<and> byte_of_char c \<noteq> 0x64"
    by (auto simp: digit_byte_def)
  ultimately show ?thesis using c(1) by (simp add: encode_bytes_def as_bytes_def)
qed

definition i64_range :: "int \<Rightarrow> bool" where
  "i64_range n \<longleftrightarrow> - (2 ^ 63) \<le> n \<and> n < 2 ^ 63"

lemma parse_show_int:
  assumes "i64_range n"
  shows "parse_i64 (show_int n) = Some n"
proof (cases "n < 0")
  case True
  with assms show_nat_digits [of "nat (- n)"] decimal_value_show_nat [of "nat (- n)"] show ?thesis
    by (simp add: show_int_def parse_i64_def Let_def i64_range_def)
next
  case False
  obtain c t where c: "show_nat (nat n) = c # t" "is_ascii_digit c" using show_nat_head by blast
  then have "c \<noteq> CHR ''-''" "c \<noteq> CHR ''+''" by (auto simp: is_ascii_digit_def)
  with False assms c show_nat_digits [of "nat n"] decimal_value_show_nat [of "nat n"] show ?thesis
    by (simp add: show_int_def parse_i64_def Let_def i64_range_def)
qed

lemma ben_integer_show:
  assumes "i64_range n"
  shows "ben_integer (as_bytes (show_int n) @ 0x65 # r) = Ok (n, r)"
proof -
  define s where "s = show_int n"
  define k where "k = nat \<bar>n\<bar>"
  have dash: "byte_of_char CHR ''-'' = 0x2d" by (simp add: byte_of_char_def)
  have sk: "s = (if n < 0 then CHR ''-'' # show_nat k else show_nat k)" by (simp add: s_def show_int_def k_def)
  obtain c t where c: "show_nat k = c # t" "is_ascii_digit c" "c = CHR ''0'' \<longrightarrow> t = [] \<and> k = 0" using show_nat_head by blast
  then have cm: "c \<noteq> CHR ''-''" by (auto simp: is_ascii_digit_def)
  have chars: "\<forall>c\<in>set s. is_ascii_digit c \<or> c = CHR ''-''" using show_nat_ascii [of k] by (simp add: sk)
  then have u: "from_utf8 (as_bytes s) = Some s" by (intro from_utf8_ascii) (auto simp: is_ascii_digit_def)
  have t: "until_byte 0x65 (as_bytes s @ 0x65 # r) = Ok (as_bytes s, r)"
    using chars digit_not dash by (intro until_byte_append byte_of_char_notin) auto
  have digits: "(case strip_prefix ''-'' s of Some d \<Rightarrow> d | None \<Rightarrow> s) = show_nat k"
    using cm c by (simp add: sk strip_prefix_def starts_with_def)
  have "s \<noteq> ''-0''" using c cm by (auto simp: sk k_def split: if_splits)
  moreover have "parse_i64 s = Some n" unfolding s_def by (rule parse_show_int [OF assms])
  ultimately show ?thesis
    using u t digits decimal_length_canonical [of k] show_nat_digits [of k]
    by (auto simp: ben_integer_def s_def [symmetric])
qed

section \<open>Round trip\<close>

text \<open>The values within the decoder's limits, at nesting depth \<open>d\<close>.\<close>

fun value_ok :: "nat \<Rightarrow> bvalue \<Rightarrow> bool" where
  "value_ok d (BInt n) \<longleftrightarrow> d \<le> MAX_DEPTH \<and> i64_range n"
| "value_ok d (BBytes b) \<longleftrightarrow> d \<le> MAX_DEPTH \<and> length b \<le> MAX_ALLOC"
| "value_ok d (BList l) \<longleftrightarrow> d \<le> MAX_DEPTH \<and> (\<forall>v\<in>set l. value_ok (Suc d) v)"
| "value_ok d (BDict m) \<longleftrightarrow> d \<le> MAX_DEPTH \<and> sorted_wrt (<) (map fst m) \<and>
     (\<forall>e\<in>set m. length (fst e) \<le> MAX_ALLOC \<and> value_ok (Suc d) (snd e))"

section \<open>Accepted values\<close>

lemma bt_insert_keys: "fst ` set (bt_insert k v m) = insert k (fst ` set m)"
  by (induction k v m rule: bt_insert.induct) (simp_all add: insert_commute)

lemma bt_insert_set: "e \<in> set (bt_insert k v m) \<Longrightarrow> e = (k, v) \<or> e \<in> set m"
  by (induction m) (auto split: if_splits)

lemma bt_insert_sorted: "sorted_wrt (<) (map fst m) \<Longrightarrow> sorted_wrt (<) (map fst (bt_insert k v m))"
proof (induction m)
  case (Cons e m)
  have "\<forall>k'\<in>fst ` set (bt_insert k v m). fst e < k'" if "fst e < k"
    using Cons.prems that bt_insert_keys [of k v m] by auto
  with Cons show ?case by (cases e) (auto intro: less_trans)
qed simp

lemma byte_string_bound: "byte_string inp = Ok (s, r) \<Longrightarrow> length s \<le> MAX_ALLOC"
  by (auto simp: byte_string_def Let_def split: if_splits)

lemma ben_integer_range: "ben_integer inp = Ok (n, r) \<Longrightarrow> i64_range n"
  by (auto simp: ben_integer_def parse_i64_def i64_range_def Let_def split: if_splits list.splits)

lemma accepted_ok:
  "value_depth d inp = Ok (v, r) \<Longrightarrow> value_ok d v"
  "list_loop d out inp = Ok (v, r) \<Longrightarrow> d \<le> MAX_DEPTH \<Longrightarrow> (\<forall>x\<in>set out. value_ok (Suc d) x) \<Longrightarrow> value_ok d v"
  "dict_loop d m inp = Ok (v, r) \<Longrightarrow> d \<le> MAX_DEPTH \<Longrightarrow> sorted_wrt (<) (map fst m) \<Longrightarrow>
     (\<forall>e\<in>set m. length (fst e) \<le> MAX_ALLOC \<and> value_ok (Suc d) (snd e)) \<Longrightarrow> value_ok d v"
proof (induction d inp and d out inp and d m inp arbitrary: v r and v r and v r rule: value_depth_list_loop_dict_loop.induct)
  case (1 d inp)
  then show ?case
    by (subst (asm) value_depth.simps)
      (auto dest: ben_integer_range byte_string_bound split: if_splits list.splits)
next
  case (3 d out b r)
  then show ?case by (fastforce split: if_splits)
next
  case (5 d m b r v ra)
  show ?case
  proof (cases "b = 0x65")
    case True
    with "5.prems" show ?thesis by auto
  next
    case False
    with "5.prems"(1) obtain k r1 x r2 where
      s: "digit_byte b" "byte_string (b # r) = Ok (k, r1)" "value_depth (d + 1) r1 = Ok (x, r2)" "k \<notin> fst ` set m"
      "dict_loop d (bt_insert k x m) r2 = Ok (v, ra)"
      by (auto split: if_splits)
    have x: "value_ok (Suc d) x" "length k \<le> MAX_ALLOC"
      using "5.IH"(1) [OF False _ s(2) refl, of x r2] s byte_string_bound [OF s(2)] by auto
    have "\<forall>e\<in>set (bt_insert k x m). length (fst e) \<le> MAX_ALLOC \<and> value_ok (Suc d) (snd e)"
      using x "5.prems"(4) bt_insert_set [of _ k x m] by fastforce
    then show ?thesis
      using "5.IH"(2) [OF False _ s(2) refl s(3) refl s(4) s(5) "5.prems"(2) bt_insert_sorted [OF "5.prems"(3)]] s(1) by blast
  qed
qed auto

section \<open>Canonical numbers\<close>

lemma digit_value_char: "is_ascii_digit c \<Longrightarrow> digit_value c < 10 \<and> char_of (48 + digit_value c) = c"
  by (auto simp: is_ascii_digit_def digit_value_def)

lemma char_of_48: "char_of (48 :: nat) = CHR ''0''"
  by (simp add: char_of_eq_iff)

lemma decimal_value_pos: "c \<noteq> CHR ''0'' \<Longrightarrow> is_ascii_digit c \<Longrightarrow> 0 < decimal_value (c # s)"
proof (induction s rule: rev_induct)
  case Nil
  then show ?case using digit_value_char [of c] by (cases "digit_value c") (auto simp: decimal_value_def char_of_48)
next
  case (snoc x s)
  then show ?case using decimal_value_snoc [of "c # s" x] by simp
qed

lemma show_nat_decimal_value:
  "s \<noteq> [] \<Longrightarrow> list_all is_ascii_digit s \<Longrightarrow> \<not> (starts_with ''0'' s \<and> length s > 1) \<Longrightarrow> show_nat (decimal_value s) = s"
proof (induction s rule: rev_induct)
  case (snoc c s)
  have c: "digit_value c < 10" "char_of (48 + digit_value c) = c" using snoc.prems digit_value_char by auto
  show ?case
  proof (cases s)
    case Nil
    then show ?thesis using c by (simp add: decimal_value_def show_nat.simps)
  next
    case (Cons h t)
    then have "h \<noteq> CHR ''0''" using snoc.prems(3) by (auto simp: starts_with_def)
    then have "0 < decimal_value s" "\<not> starts_with ''0'' s"
      using decimal_value_pos [of h t] snoc.prems(2) by (simp_all add: Cons starts_with_def)
    moreover from this have "show_nat (decimal_value s) = s" using snoc Cons by simp
    ultimately show ?thesis using c unfolding decimal_value_snoc by (subst show_nat.simps) simp
  qed
qed simp

lemma until_byte_OkD: "until_byte b inp = Ok (t, r) \<Longrightarrow> inp = t @ b # r"
  by (auto simp: until_byte_def id_take_nth_drop dest!: position_SomeD split: option.splits)

lemma byte_string_canonical:
  assumes "byte_string inp = Ok (b, r)"
  shows "inp = encode_bytes b @ r"
proof -
  from assms obtain t rest s n where s: "until_byte 0x3a inp = Ok (t, rest)" "from_utf8 t = Some s"
    "s \<noteq> []" "list_all is_ascii_digit s" "\<not> (starts_with ''0'' s \<and> length s > 1)" "parse_unsigned U64_MAX s = Some n"
    "n \<le> length rest" "b = take n rest" "r = drop n rest"
    by (auto simp: byte_string_def split: if_splits)
  obtain h s' where h: "s = h # s'" using s(3) by (cases s) auto
  with s(4) have "h \<noteq> CHR ''+''" by (auto simp: is_ascii_digit_def)
  with s(4,6) h have "n = decimal_value s" by (auto simp: parse_unsigned_def Let_def split: if_splits)
  then have "show_nat (length b) = s" using show_nat_decimal_value [OF s(3-5)] s(7,8) by simp
  then show ?thesis using until_byte_OkD [OF s(1)] from_utf8_SomeD [OF s(2)] s(8,9) by (simp add: encode_bytes_def)
qed

lemma ben_integer_canonical:
  assumes "ben_integer inp = Ok (n, r)"
  shows "inp = as_bytes (show_int n) @ 0x65 # r"
proof -
  from assms obtain t s where s: "until_byte 0x65 inp = Ok (t, r)" "from_utf8 t = Some s" "parse_i64 s = Some n" "s \<noteq> ''-0''"
    and d: "\<And>ds. (case strip_prefix ''-'' s of Some d \<Rightarrow> d | None \<Rightarrow> s) = ds \<Longrightarrow>
      ds \<noteq> [] \<and> list_all is_ascii_digit ds \<and> \<not> (starts_with ''0'' ds \<and> length ds > 1)"
    by (auto simp: ben_integer_def Let_def split: if_splits)
  have "show_int n = s"
  proof (cases "starts_with ''-'' s")
    case True
    then obtain ds where ds: "s = CHR ''-'' # ds" by (cases s) (auto simp: starts_with_def)
    have c: "ds \<noteq> []" "list_all is_ascii_digit ds" "\<not> (starts_with ''0'' ds \<and> length ds > 1)"
      using d [of ds] ds by (auto simp: strip_prefix_def starts_with_def)
    have "decimal_value ds \<noteq> 0"
    proof
      assume "decimal_value ds = 0"
      then have "ds = ''0''" using show_nat_decimal_value [OF c] by (simp add: show_nat.simps [of 0] char_of_48)
      with s(4) ds show False by simp
    qed
    moreover have "n = - int (decimal_value ds)" using s(3) ds c by (auto simp: parse_i64_def Let_def split: if_splits)
    ultimately show ?thesis using show_nat_decimal_value [OF c] ds by (simp add: show_int_def)
  next
    case False
    have c: "s \<noteq> []" "list_all is_ascii_digit s" "\<not> (starts_with ''0'' s \<and> length s > 1)"
      using d [of s] False by (auto simp: strip_prefix_def)
    then have "n = int (decimal_value s)"
      using s(3) by (cases s) (auto simp: parse_i64_def Let_def is_ascii_digit_def split: if_splits)
    then show ?thesis using show_nat_decimal_value [OF c] by (simp add: show_int_def)
  qed
  then show ?thesis using until_byte_OkD [OF s(1)] from_utf8_SomeD [OF s(2)] by simp
qed

section \<open>The documents of a value\<close>

text \<open>
  The grammar of bencode as a relation between a value and its documents: a number in canonical decimal, a string behind its
  canonical length, the items of a list in order, the entries of a dictionary in any order.
\<close>

inductive document :: "bvalue \<Rightarrow> bytes \<Rightarrow> bool"
  and documents :: "bvalue list \<Rightarrow> bytes \<Rightarrow> bool"
  and doc_entries :: "(bytes \<times> bvalue) list \<Rightarrow> bytes \<Rightarrow> bool" where
  doc_int: "document (BInt n) (0x69 # as_bytes (show_int n) @ [0x65])"
| doc_bytes: "document (BBytes b) (as_bytes (show_nat (length b)) @ 0x3a # b)"
| doc_list: "documents l ds \<Longrightarrow> document (BList l) (0x6c # ds @ [0x65])"
| doc_dict: "doc_entries es ds \<Longrightarrow> mset es = mset m \<Longrightarrow> document (BDict m) (0x64 # ds @ [0x65])"
| docs_nil: "documents [] []"
| docs_cons: "document v s \<Longrightarrow> documents l ds \<Longrightarrow> documents (v # l) (s @ ds)"
| ents_nil: "doc_entries [] []"
| ents_cons: "document v s \<Longrightarrow> doc_entries es ds \<Longrightarrow> doc_entries ((k, v) # es) (as_bytes (show_nat (length k)) @ 0x3a # k @ s @ ds)"

lemmas document_intros = document_documents_doc_entries.intros

lemma encode_document: "document v (ben_encode v)"
proof (induction v rule: ben_encode.induct)
  case (3 l)
  then have "documents l (concat (map ben_encode l))" by (induction l) (simp_all add: document_intros)
  then show ?case by (simp add: doc_list)
next
  case (4 m)
  then have "\<forall>e\<in>set m. document (snd e) (ben_encode (snd e))" by auto
  then have "doc_entries m (concat (map (\<lambda>(k, v). encode_bytes k @ ben_encode v) m))"
    by (induction m) (auto simp: encode_bytes_def intro: document_intros)
  then show ?case by (simp add: doc_dict)
qed (simp_all add: doc_int doc_bytes encode_bytes_def)

lemma document_head: "document v s \<Longrightarrow> \<exists>c t. s = c # t \<and> c \<noteq> 0x65"
  by (cases rule: document.cases) (use encode_bytes_head in \<open>fastforce simp: encode_bytes_def\<close>)+

lemma bt_insert_mset: "k \<notin> fst ` set m \<Longrightarrow> mset (bt_insert k v m) = add_mset (k, v) (mset m)"
  by (induction k v m rule: bt_insert.induct) auto

text \<open>Every accepted input is a document of the value.\<close>

lemma accepted_document:
  "value_depth d inp = Ok (v, r) \<Longrightarrow> \<exists>s. inp = s @ r \<and> document v s"
  "list_loop d out inp = Ok (v, r) \<Longrightarrow> \<exists>l ds. v = BList (out @ l) \<and> inp = ds @ 0x65 # r \<and> documents l ds"
  "dict_loop d m inp = Ok (v, r) \<Longrightarrow> \<exists>m' es ds. v = BDict m' \<and> mset m' = mset m + mset es \<and> inp = ds @ 0x65 # r \<and> doc_entries es ds"
proof (induction d inp and d out inp and d m inp arbitrary: v r and v r and v r rule: value_depth_list_loop_dict_loop.induct)
  case (1 d inp)
  then obtain b t where inp: "inp = b # t" "d \<le> MAX_DEPTH" by (cases inp) (auto simp: value_depth.simps [of d] split: if_splits)
  note v = "1.prems" [unfolded inp value_depth.simps [of d "b # t"]]
  consider (i) n where "b = 0x69" "ben_integer t = Ok (n, r)" "v = BInt n"
    | (l) "b = 0x6c" "list_loop d [] t = Ok (v, r)"
    | (d) "b = 0x64" "dict_loop d [] t = Ok (v, r)"
    | (s) s where "byte_string (b # t) = Ok (s, r)" "v = BBytes s"
    using v by (auto split: if_splits)
  then show ?case
  proof cases
    case i
    then show ?thesis using ben_integer_canonical [OF i(2)] doc_int [of n] by (auto simp: inp)
  next
    case l
    with "1.IH"(1) [of b t v r] inp show ?thesis using doc_list by fastforce
  next
    case d
    with "1.IH"(2) [of b t v r] inp show ?thesis using doc_dict by fastforce
  next
    case s
    then show ?thesis using byte_string_canonical [OF s(1)] doc_bytes [of s] by (auto simp: inp encode_bytes_def)
  qed
next
  case (3 d out b r v ra)
  show ?case
  proof (cases "b = 0x65")
    case False
    with "3.prems" obtain x r' where s: "value_depth (d + 1) (b # r) = Ok (x, r')" "list_loop d (out @ [x]) r' = Ok (v, ra)"
      by (auto split: if_splits)
    from "3.IH"(1) [OF False s(1)] "3.IH"(2) [OF False s(1) refl s(2)] show ?thesis using docs_cons by fastforce
  qed (use "3.prems" docs_nil in auto)
next
  case (5 d m b r v ra)
  show ?case
  proof (cases "b = 0x65")
    case True
    with "5.prems" ents_nil show ?thesis by fastforce
  next
    case False
    with "5.prems"(1) obtain k r1 x r2 where
      s: "digit_byte b" "byte_string (b # r) = Ok (k, r1)" "value_depth (d + 1) r1 = Ok (x, r2)" "k \<notin> fst ` set m"
      "dict_loop d (bt_insert k x m) r2 = Ok (v, ra)"
      by (auto split: if_splits)
    obtain s' where s': "r1 = s' @ r2" "document x s'" using "5.IH"(1) [OF False _ s(2) refl s(3)] s(1) by blast
    obtain m' es ds where e: "v = BDict m'" "mset m' = mset (bt_insert k x m) + mset es" "r2 = ds @ 0x65 # ra" "doc_entries es ds"
      using "5.IH"(2) [OF False _ s(2) refl s(3) refl s(4) s(5)] s(1) by blast
    from e(1-3) ents_cons [OF s'(2) e(4), of k] byte_string_canonical [OF s(2)] bt_insert_mset [OF s(4), of x] s'(1) show ?thesis
      by (intro exI [of _ m'] exI [of _ "(k, x) # es"] exI conjI) (auto simp: encode_bytes_def)
  qed
qed auto

text \<open>Every document of a value within the limits is accepted.\<close>

lemma sorted_entries_unique:
  assumes "sorted_wrt (<) (map fst m)" "sorted_wrt (<) (map fst n)" "mset m = mset (n :: ('k::linorder \<times> 'v) list)"
  shows "m = n"
proof -
  have d: "sorted (map fst m)" "distinct (map fst m)" "sorted (map fst n)" "distinct (map fst n)" "set m = set n"
    using assms strict_sorted_iff mset_eq_setD by blast+
  then have "inj_on fst (set m \<union> set n)" by (simp add: distinct_map)
  with d show ?thesis by (intro map_sorted_distinct_set_unique) auto
qed

lemma document_accepted:
  "document v s \<Longrightarrow> value_ok d v \<Longrightarrow> value_depth d (s @ r) = Ok (v, r)"
  "documents l ds \<Longrightarrow> \<forall>v\<in>set l. value_ok (Suc d) v \<Longrightarrow> list_loop d out (ds @ 0x65 # r) = Ok (BList (out @ l), r)"
  "doc_entries es ds \<Longrightarrow> \<forall>e\<in>set es. length (fst e) \<le> MAX_ALLOC \<and> value_ok (Suc d) (snd e) \<Longrightarrow>
     distinct (map fst es) \<Longrightarrow> fst ` set es \<inter> fst ` set m = {} \<Longrightarrow> sorted_wrt (<) (map fst m) \<Longrightarrow>
     \<exists>m'. dict_loop d m (ds @ 0x65 # r) = Ok (BDict m', r) \<and> mset m' = mset m + mset es \<and> sorted_wrt (<) (map fst m')"
proof (induction arbitrary: d r and d r out and d r m rule: document_documents_doc_entries.inducts)
  case (doc_int n)
  then show ?case using ben_integer_show [of n r] by (simp add: value_depth.simps)
next
  case (doc_bytes b)
  obtain c t where c: "encode_bytes b = c # t" "digit_byte c" "c \<noteq> 0x69" "c \<noteq> 0x6c" "c \<noteq> 0x64" using encode_bytes_head by blast
  have "byte_string (encode_bytes b @ r) = Ok (b, r)" using doc_bytes by (intro byte_string_encode) simp
  with c doc_bytes have "value_depth d (encode_bytes b @ r) = Ok (BBytes b, r)" by (simp add: value_depth.simps)
  then show ?case by (simp add: encode_bytes_def)
next
  case (doc_list l ds)
  then show ?case by (simp add: value_depth.simps [of d])
next
  case (doc_dict es ds m)
  have m: "sorted_wrt (<) (map fst m)" "set es = set m" using doc_dict.prems doc_dict.hyps mset_eq_setD by auto
  moreover have "distinct (map fst es)"
    using m(1) mset_eq_imp_distinct_iff [of "map fst es" "map fst m"] doc_dict.hyps(2) by (simp add: strict_sorted_iff)
  ultimately obtain m' where m': "dict_loop d [] (ds @ 0x65 # r) = Ok (BDict m', r)" "mset m' = mset es" "sorted_wrt (<) (map fst m')"
    using doc_dict.IH [of d "[]" r] doc_dict.prems by auto
  with m(1) doc_dict.hyps(2) sorted_entries_unique have "m' = m" by metis
  with m'(1) doc_dict.prems show ?case by (simp add: value_depth.simps [of d])
next
  case (docs_cons v s l ds)
  obtain c t where c: "s = c # t" "c \<noteq> 0x65" using document_head [OF docs_cons.hyps(1)] by blast
  have "value_depth (Suc d) (s @ ds @ 0x65 # r) = Ok (v, ds @ 0x65 # r)" using docs_cons by simp
  with c docs_cons show ?case by simp
next
  case (ents_cons v s es ds k)
  obtain c t where c: "encode_bytes k = c # t" "digit_byte c" "c \<noteq> 0x65" using encode_bytes_head by blast
  have k: "byte_string (encode_bytes k @ s @ ds @ 0x65 # r) = Ok (k, s @ ds @ 0x65 # r)"
    using ents_cons.prems(1) by (intro byte_string_encode) simp
  have v: "value_depth (Suc d) (s @ ds @ 0x65 # r) = Ok (v, ds @ 0x65 # r)" using ents_cons by simp
  have new: "k \<notin> fst ` set m" "fst ` set es \<inter> fst ` set (bt_insert k v m) = {}"
    using ents_cons.prems(2,3) bt_insert_keys [of k v m] by auto
  then have "dict_loop d m (encode_bytes k @ s @ ds @ 0x65 # r) = dict_loop d (bt_insert k v m) (ds @ 0x65 # r)"
    using k v c by simp
  moreover obtain m' where "dict_loop d (bt_insert k v m) (ds @ 0x65 # r) = Ok (BDict m', r)"
    "mset m' = mset (bt_insert k v m) + mset es" "sorted_wrt (<) (map fst m')"
    using ents_cons.IH(2) [OF _ _ new(2) bt_insert_sorted [OF ents_cons.prems(4)], of d r] ents_cons.prems by auto
  ultimately show ?case using bt_insert_mset [OF new(1)] by (auto simp: encode_bytes_def)
qed (auto)

interpretation bencode: stream_codec ben_encode "value_depth 0" "value_ok 0"
  by unfold_locales (rule document_accepted(1) [OF encode_document])

section \<open>Skipping agrees with decoding\<close>

abbreviation (input) rest_of :: "('a \<times> bytes) result \<Rightarrow> bytes result" where
  "rest_of r \<equiv> res_bind r (\<lambda>(_, rest). Ok rest)"

lemma res_bind_assoc: "res_bind (res_bind r f) g = res_bind r (\<lambda>x. res_bind (f x) g)"
  by (cases r) simp_all

lemma skip_eq_decode:
  "skip_value d inp = rest_of (value_depth d inp)"
  "skip_list d inp = rest_of (list_loop d out inp)"
  "set keys = fst ` set m \<Longrightarrow> skip_dict d keys inp = rest_of (dict_loop d m inp)"
proof (induction d inp and d out inp and d m inp arbitrary: and and keys rule: value_depth_list_loop_dict_loop.induct)
  case (1 d inp)
  show ?case
  proof (cases "d > MAX_DEPTH \<or> inp = []")
    case False
    then obtain b r where inp: "inp = b # r" by (cases inp) auto
    note ih = "1.IH"(1) [OF _ inp] "1.IH"(2) [OF _ inp, of "[]"]
    show ?thesis
      unfolding inp value_depth.simps [of d "b # r"] skip_value.simps [of d "b # r"] list.case
      using False ih by (auto simp: res_bind_def split: sum.split)
  qed (auto simp: value_depth.simps [of d inp] skip_value.simps [of d inp])
next
  case (3 d out b r)
  show ?case
  proof (cases "b = 0x65")
    case False
    then show ?thesis
      using "3.IH" by (cases "value_depth (d + 1) (b # r)") (auto split: prod.split)
  qed simp
next
  case (5 d m b r)
  show ?case
  proof (cases "b = 0x65 \<or> \<not> digit_byte b")
    case False
    then have b: "b \<noteq> 0x65" "digit_byte b" by auto
    show ?thesis
    proof (cases "byte_string (b # r)")
      case (Inr p)
      obtain k r1 where p: "p = (k, r1)" by (cases p)
      have s: "skip_value (d + 1) r1 = rest_of (value_depth (d + 1) r1)"
        using "5.IH"(1) [OF b(1) _ Inr p [symmetric]] b by simp
      show ?thesis
      proof (cases "value_depth (d + 1) r1")
        case (Inr q)
        obtain v r2 where q: "q = (v, r2)" by (cases q)
        have "skip_dict d (k # keys) r2 = rest_of (dict_loop d (bt_insert k v m) r2)" if "k \<notin> fst ` set m"
          using "5.IH"(2) [OF b(1) _ \<open>byte_string (b # r) = Inr p\<close> p [symmetric] Inr q [symmetric] that, of "k # keys"] b "5.prems"
          by (simp add: bt_insert_keys)
        with b s Inr q p \<open>byte_string (b # r) = Inr p\<close> "5.prems" show ?thesis by simp
      qed (use b s \<open>byte_string (b # r) = Inr p\<close> p in simp)
    qed (use b in simp)
  qed auto
qed simp_all

section \<open>Properties\<close>

text \<open>
  Bencode round trip: every value within the limits (64-bit integers, strings of at most
  256 MiB, at most 256 levels, dictionary keys in strictly increasing byte order) is read back from
  its encoding, whole and without error.
\<close>

theorem bencode_roundtrip:
  assumes "value_ok 0 v"
  shows "ben_parse (ben_encode v) = Ok v"
  using bencode.dec_enc [OF assms, of "[]"] by (simp add: ben_parse_def)

lemma bencode_roundtrip_witness:
  "ben_parse (ben_encode (BDict [([0x61], BInt (-3)), ([0x62], BList [BBytes [0]])])) =
     Ok (BDict [([0x61], BInt (-3)), ([0x62], BList [BBytes [0]])])"
  by (rule bencode_roundtrip) (simp add: i64_range_def)

text \<open>
  (C28) The decoder accepts exactly the documents of the values within its limits: parsing an input gives a value if and only if
  the value holds only 64-bit integers and strings of at most 256 MiB, nests at most 256 deep, has dictionaries with
  distinct keys (kept sorted), and the input spells it out in the grammar: numbers and lengths in canonical decimal, list
  items in order, dictionary entries in any order, and nothing else. The encoder's output is one of these documents. So no
  padded number, repeated key or ignored byte is accepted, and two accepted inputs for a value differ only in the order of dictionary entries.
\<close>

theorem bencode_accepts_canonical:
  "(ben_parse inp = Ok v \<longleftrightarrow> value_ok 0 v \<and> document v inp) \<and> document v (ben_encode v)"
proof -
  have "ben_parse inp = Ok v \<longleftrightarrow> value_depth 0 inp = Ok (v, [])" by (auto simp: ben_parse_def split: if_splits)
  also have "\<dots> \<longleftrightarrow> value_ok 0 v \<and> document v inp"
    using accepted_ok(1) accepted_document(1) [of 0 inp v "[]"] document_accepted(1) [of v inp 0 "[]"] by auto
  finally show ?thesis using encode_document by blast
qed

text \<open>A dictionary with its keys out of order is accepted and sorted.\<close>

lemma bencode_unsorted_dict:
  "ben_parse (as_bytes ''d1:bi2e1:alee'') = Ok (BDict [([0x61], BList []), ([0x62], BInt 2)])"
proof -
  have "document (BDict [([0x61], BList []), ([0x62], BInt 2)]) (as_bytes ''d1:bi2e1:alee'')"
    using doc_dict [OF ents_cons [OF doc_int [of 2] ents_cons [OF doc_list [OF docs_nil] ents_nil, of "[0x61]"], of "[0x62]"]]
    by (simp add: as_bytes_def byte_of_char_def show_int_def show_nat.simps)
  then have "value_depth 0 (as_bytes ''d1:bi2e1:alee'' @ []) = Ok (BDict [([0x61], BList []), ([0x62], BInt 2)], [])"
    by (rule document_accepted(1)) (simp add: i64_range_def)
  then show ?thesis by (simp only: ben_parse_def append_Nil2) simp
qed

text \<open>
  The skipper is the decoder without the value: on every input and depth \<open>skip_value\<close> fails with
  the decoder's error or consumes exactly the bytes the decoder consumes, so the byte span
  hashed for the infohash is the span of the value that is parsed.
\<close>

theorem skip_value_agrees:
  "skip_value d inp = (case value_depth d inp of Inl e \<Rightarrow> Err e | Inr (v, rest) \<Rightarrow> Ok rest)"
  unfolding skip_eq_decode(1) by (auto simp: res_bind_def split: sum.split)

end
