(* ===== verification/Bt_Piece.thy ===== *)
theory Bt_Piece
  imports Rsurl_Prelude
begin

unbundle bit_operations_syntax

text \<open>
  Piece bookkeeping of the BitTorrent client (\<open>src/src/bittorrent/picker.rs\<close>): the wire bitfield and
  the rarest-first picker. A bitfield implements a set of piece numbers below its length; that
  contract is the locale \<open>piece_set\<close>, which the picker, the storage and the engine use.
\<close>

section \<open>Bitfields\<close>

record bitfield =
  bf_bits :: bytes
  bf_len :: nat

definition bf_new :: "nat \<Rightarrow> bitfield" where
  "bf_new len = \<lparr>bf_bits = replicate (div_ceil len 8) 0, bf_len = len\<rparr>"

definition piece_mask :: "nat \<Rightarrow> byte" where
  "piece_mask i = drop_bit (i mod 8) 0x80"

definition from_bytes :: "bytes \<Rightarrow> nat \<Rightarrow> bitfield" where
  "from_bytes bs len =
     (let bits0 = bf_bits (bf_new len);
          n = min (length bs) (length bits0);
          bits1 = take n bs @ drop n bits0;
          bits2 = (if len mod 8 \<noteq> 0 \<and> bits1 \<noteq> []
                   then bits1[length bits1 - 1 := last bits1 AND push_bit (8 - len mod 8) 0xff] else bits1)
      in \<lparr>bf_bits = bits2, bf_len = len\<rparr>)"

definition from_wire :: "bytes \<Rightarrow> nat \<Rightarrow> bitfield option" where
  "from_wire bs len =
     (if length bs \<noteq> div_ceil len 8 then None
      else if len mod 8 \<noteq> 0 \<and> bs \<noteq> [] \<and> last bs AND drop_bit (len mod 8) 0xff \<noteq> 0 then None
      else Some \<lparr>bf_bits = bs, bf_len = len\<rparr>)"

definition bf_merge :: "bitfield \<Rightarrow> bitfield \<Rightarrow> bitfield" where
  "bf_merge bf other =
     bf\<lparr>bf_bits := map2 (OR) (bf_bits bf) (bf_bits other) @ drop (length (bf_bits other)) (bf_bits bf)\<rparr>"

definition bf_has :: "bitfield \<Rightarrow> nat \<Rightarrow> bool" where
  "bf_has bf i \<longleftrightarrow> i < bf_len bf \<and> bf_bits bf ! (i div 8) AND piece_mask i \<noteq> 0"

definition bf_set :: "bitfield \<Rightarrow> nat \<Rightarrow> bitfield" where
  "bf_set bf i = (if i < bf_len bf then bf\<lparr>bf_bits := (bf_bits bf)[i div 8 := bf_bits bf ! (i div 8) OR piece_mask i]\<rparr> else bf)"

definition bf_unset :: "bitfield \<Rightarrow> nat \<Rightarrow> bitfield" where
  "bf_unset bf i =
     (if i < bf_len bf then bf\<lparr>bf_bits := (bf_bits bf)[i div 8 := bf_bits bf ! (i div 8) AND NOT (piece_mask i)]\<rparr> else bf)"

definition count_ones :: "byte \<Rightarrow> nat" where
  "count_ones b = length (filter (bit b) [0..<8])"

definition bf_count :: "bitfield \<Rightarrow> nat" where
  "bf_count bf = sum_list (map count_ones (bf_bits bf))"

definition bf_is_complete :: "bitfield \<Rightarrow> bool" where
  "bf_is_complete bf \<longleftrightarrow> bf_count bf = bf_len bf"

text \<open>The representation invariant: exactly the bytes needed, spare bits clear.\<close>

definition bf_ok :: "bitfield \<Rightarrow> bool" where
  "bf_ok bf \<longleftrightarrow> length (bf_bits bf) = div_ceil (bf_len bf) 8 \<and>
     (\<forall>i. bf_len bf \<le> i \<longrightarrow> i < 8 * length (bf_bits bf) \<longrightarrow> \<not> bit (bf_bits bf ! (i div 8)) (7 - i mod 8))"

section \<open>Bits of a byte\<close>

lemma less_8_cases: "k < 8 \<Longrightarrow> k = 0 \<or> k = 1 \<or> k = 2 \<or> k = 3 \<or> k = 4 \<or> k = 5 \<or> k = 6 \<or> k = (7 :: nat)"
  by linarith

lemma bit_0x80: "bit (0x80 :: byte) n \<longleftrightarrow> n = 7"
proof (cases "n < 8")
  case True
  from less_8_cases [OF this] show ?thesis by (elim disjE) (simp_all add: bit_0)
next
  case False
  then have "\<not> bit (0x80 :: byte) n" using bit_imp_le_length [of "0x80 :: byte" n] by auto
  with False show ?thesis by auto
qed

lemma bit_piece_mask: "bit (piece_mask i) n \<longleftrightarrow> n = 7 - i mod 8"
proof -
  have "i mod 8 < 8" by simp
  then show ?thesis unfolding piece_mask_def bit_drop_bit_eq o_def bit_0x80 by linarith
qed

lemma and_piece_mask: "b AND piece_mask i \<noteq> 0 \<longleftrightarrow> bit b (7 - i mod 8)"
proof
  assume "b AND piece_mask i \<noteq> 0"
  then obtain n where "bit (b AND piece_mask i) n" using bit_eqI [of "b AND piece_mask i" 0] by auto
  then show "bit b (7 - i mod 8)" by (auto simp: bit_and_iff bit_piece_mask)
next
  assume "bit b (7 - i mod 8)"
  then have "bit (b AND piece_mask i) (7 - i mod 8)" by (simp add: bit_and_iff bit_piece_mask)
  then show "b AND piece_mask i \<noteq> 0" by auto
qed

lemma bf_has_bit: "bf_has bf i \<longleftrightarrow> i < bf_len bf \<and> bit (bf_bits bf ! (i div 8)) (7 - i mod 8)"
  by (simp add: bf_has_def and_piece_mask)

lemma byte_index: "i < len \<Longrightarrow> i div 8 < div_ceil len 8"
  using div_ceil_upper [of 8 len] by (simp add: less_mult_imp_div_less mult.commute)

lemma same_byte: "i div 8 = j div 8 \<Longrightarrow> 7 - i mod 8 = 7 - j mod 8 \<Longrightarrow> i = (j :: nat)"
proof -
  assume "i div 8 = j div 8" "7 - i mod 8 = 7 - j mod 8"
  moreover have "i mod 8 < 8" "j mod 8 < 8" by simp_all
  ultimately have "i mod 8 = j mod 8" by linarith
  with \<open>i div 8 = j div 8\<close> show "i = j" by (metis div_mod_decomp)
qed

section \<open>The operations as set operations\<close>

lemma bf_update_has:
  assumes "bf_ok bf" "i < bf_len bf" "\<And>n. n < 8 \<Longrightarrow> bit b' n = (if n = 7 - i mod 8 then v else bit (bf_bits bf ! (i div 8)) n)"
    and "bf' = bf\<lparr>bf_bits := (bf_bits bf)[i div 8 := b']\<rparr>"
  shows "bf_ok bf'" "bf_has bf' j \<longleftrightarrow> (if j = i then v else bf_has bf j)"
proof -
  have idx: "i div 8 < length (bf_bits bf)" using byte_index [OF assms(2)] assms(1) by (simp add: bf_ok_def)
  have at: "bit ((bf_bits bf)[i div 8 := b'] ! (k div 8)) (7 - k mod 8) =
      (if k = i then v else bit (bf_bits bf ! (k div 8)) (7 - k mod 8))" if "k div 8 < length (bf_bits bf)" for k
    using that idx assms(3) [of "7 - k mod 8"] same_byte [of k i] by (auto simp: nth_list_update)
  show "bf_ok bf'"
    using assms(1,2) at by (auto simp: bf_ok_def assms(4) less_mult_imp_div_less mult.commute)
  have "j div 8 < length (bf_bits bf)" if "j < bf_len bf"
    using byte_index [OF that] assms(1) by (simp add: bf_ok_def)
  then show "bf_has bf' j \<longleftrightarrow> (if j = i then v else bf_has bf j)"
    using at [of j] assms(2) by (auto simp: bf_has_bit assms(4))
qed

lemma bf_set_laws:
  assumes "bf_ok bf"
  shows "bf_ok (bf_set bf i)" "bf_has (bf_set bf i) j \<longleftrightarrow> (j = i \<and> i < bf_len bf) \<or> bf_has bf j" "bf_len (bf_set bf i) = bf_len bf"
proof -
  have "bf_ok (bf_set bf i) \<and> (bf_has (bf_set bf i) j \<longleftrightarrow> (j = i \<and> i < bf_len bf) \<or> bf_has bf j)"
  proof (cases "i < bf_len bf")
    case True
    then show ?thesis
      using bf_update_has [OF assms True, of "bf_bits bf ! (i div 8) OR piece_mask i" True "bf_set bf i"]
      by (auto simp: bf_set_def bit_or_iff bit_piece_mask)
  qed (use assms in \<open>auto simp: bf_set_def bf_has_def\<close>)
  then show "bf_ok (bf_set bf i)" "bf_has (bf_set bf i) j \<longleftrightarrow> (j = i \<and> i < bf_len bf) \<or> bf_has bf j" by auto
  show "bf_len (bf_set bf i) = bf_len bf" by (simp add: bf_set_def)
qed

lemma bf_unset_laws:
  assumes "bf_ok bf"
  shows "bf_ok (bf_unset bf i)" "bf_has (bf_unset bf i) j \<longleftrightarrow> j \<noteq> i \<and> bf_has bf j" "bf_len (bf_unset bf i) = bf_len bf"
proof -
  have "bf_ok (bf_unset bf i) \<and> (bf_has (bf_unset bf i) j \<longleftrightarrow> j \<noteq> i \<and> bf_has bf j)"
  proof (cases "i < bf_len bf")
    case True
    then show ?thesis
      using bf_update_has [OF assms True, of "bf_bits bf ! (i div 8) AND NOT (piece_mask i)" False "bf_unset bf i"]
      by (auto simp: bf_unset_def bit_and_iff bit_not_iff bit_piece_mask)
  qed (use assms in \<open>auto simp: bf_unset_def bf_has_def\<close>)
  then show "bf_ok (bf_unset bf i)" "bf_has (bf_unset bf i) j \<longleftrightarrow> j \<noteq> i \<and> bf_has bf j" by auto
  show "bf_len (bf_unset bf i) = bf_len bf" by (simp add: bf_unset_def)
qed

lemma bf_new_laws: "bf_ok (bf_new len)" "\<not> bf_has (bf_new len) i" "bf_len (bf_new len) = len"
proof -
  show "bf_ok (bf_new len)" by (auto simp: bf_ok_def bf_new_def less_mult_imp_div_less mult.commute)
  show "\<not> bf_has (bf_new len) i" using byte_index [of i len] by (auto simp: bf_has_bit bf_new_def)
  show "bf_len (bf_new len) = len" by (simp add: bf_new_def)
qed

lemma bf_merge_laws:
  assumes "bf_ok a" "bf_ok b" "bf_len a = bf_len b"
  shows "bf_ok (bf_merge a b)" "bf_has (bf_merge a b) i \<longleftrightarrow> bf_has a i \<or> bf_has b i" "bf_len (bf_merge a b) = bf_len a"
proof -
  have len: "length (bf_bits a) = length (bf_bits b)" using assms by (simp add: bf_ok_def)
  then have bits: "bf_bits (bf_merge a b) = map2 (OR) (bf_bits a) (bf_bits b)" by (simp add: bf_merge_def)
  have nth: "bf_bits (bf_merge a b) ! k = bf_bits a ! k OR bf_bits b ! k" if "k < length (bf_bits a)" for k
    using that len by (simp add: bits)
  show l: "bf_len (bf_merge a b) = bf_len a" by (simp add: bf_merge_def)
  show "bf_ok (bf_merge a b)"
    using assms len nth by (auto simp: bf_ok_def l bits bit_or_iff less_mult_imp_div_less mult.commute)
  have "i div 8 < length (bf_bits a)" if "i < bf_len a" using byte_index [OF that] assms(1) by (simp add: bf_ok_def)
  then show "bf_has (bf_merge a b) i \<longleftrightarrow> bf_has a i \<or> bf_has b i"
    using nth [of "i div 8"] assms(3) by (auto simp: bf_has_bit l bit_or_iff)
qed

section \<open>Wire form\<close>

lemma spare_index:
  assumes "len \<le> i" "i < 8 * div_ceil len 8"
  shows "len mod 8 \<noteq> 0" "i div 8 = div_ceil len 8 - 1" "len mod 8 \<le> i mod 8" "div_ceil len 8 \<noteq> 0"
proof -
  show ne: "len mod 8 \<noteq> 0" using assms by (auto simp: div_ceil_def split: if_splits)
  then have c: "div_ceil len 8 = len div 8 + 1" by (simp add: div_ceil_def)
  have d: "8 * (len div 8) + len mod 8 = len" "8 * (i div 8) + i mod 8 = i" "len mod 8 < 8" "i mod 8 < 8" by simp_all
  have "i < 8 * (len div 8 + 1)" using assms(2) c by simp
  then have "i div 8 < len div 8 + 1" by (intro less_mult_imp_div_less) (simp add: mult.commute)
  then have "i div 8 \<le> len div 8" by simp
  moreover have "len div 8 \<le> i div 8" using assms(1) by (rule div_le_mono)
  ultimately have "i div 8 = len div 8" by simp
  then show "i div 8 = div_ceil len 8 - 1" "len mod 8 \<le> i mod 8" "div_ceil len 8 \<noteq> 0" using c d assms(1) by linarith+
qed

lemma bit_0xff: "bit (0xff :: byte) n \<longleftrightarrow> n < 8"
proof (cases "n < 8")
  case True
  from less_8_cases [OF this] show ?thesis by (elim disjE) (simp_all add: bit_0)
next
  case False
  then show ?thesis using bit_imp_le_length [of "0xff :: byte" n] by auto
qed

lemma from_wire_laws:
  assumes "from_wire bs len = Some bf"
  shows "bf_ok bf" "bf_bits bf = bs" "bf_len bf = len"
proof -
  have bf: "bf = \<lparr>bf_bits = bs, bf_len = len\<rparr>" "length bs = div_ceil len 8"
    and sp: "len mod 8 \<noteq> 0 \<Longrightarrow> bs \<noteq> [] \<Longrightarrow> last bs AND drop_bit (len mod 8) 0xff = 0"
    using assms by (auto simp: from_wire_def split: if_splits)
  have "\<not> bit (bs ! (i div 8)) (7 - i mod 8)" if i: "len \<le> i" "i < 8 * length bs" for i
  proof -
    note x = spare_index [OF i(1) i(2) [unfolded bf(2)]]
    then have ne: "bs \<noteq> []" using bf(2) by auto
    have "\<not> bit (last bs AND drop_bit (len mod 8) 0xff) (7 - i mod 8)" using sp [OF x(1) ne] by simp
    moreover have "i mod 8 < 8" by simp
    then have "bit (drop_bit (len mod 8) (0xff :: byte)) (7 - i mod 8)"
      using x(3) unfolding bit_drop_bit_eq o_def bit_0xff by linarith
    ultimately have "\<not> bit (last bs) (7 - i mod 8)" by (simp add: bit_and_iff)
    then show ?thesis using x(2) bf(2) ne by (simp add: last_conv_nth)
  qed
  then show "bf_ok bf" "bf_bits bf = bs" "bf_len bf = len" using bf by (auto simp: bf_ok_def)
qed

lemma from_wire_as_bytes:
  assumes "bf_ok bf"
  shows "from_wire (bf_bits bf) (bf_len bf) = Some bf"
proof -
  have len: "length (bf_bits bf) = div_ceil (bf_len bf) 8" using assms by (simp add: bf_ok_def)
  have "last (bf_bits bf) AND drop_bit (bf_len bf mod 8) 0xff = 0" if "bf_len bf mod 8 \<noteq> 0" "bf_bits bf \<noteq> []"
  proof (rule bit_eqI)
    fix n assume "possible_bit TYPE(byte) n"
    then have n: "n < 8" by simp
    have "\<not> bit (last (bf_bits bf)) n" if b: "n + bf_len bf mod 8 < 8"
    proof -
      define m where "m = 7 - n"
      define i where "i = 8 * (bf_len bf div 8) + m"
      have m: "m < 8" by (simp add: m_def)
      then have i: "i div 8 = bf_len bf div 8" "i mod 8 = m" by (simp_all add: i_def)
      have c: "div_ceil (bf_len bf) 8 = bf_len bf div 8 + 1" using \<open>bf_len bf mod 8 \<noteq> 0\<close> by (simp add: div_ceil_def)
      have "8 * (bf_len bf div 8) + bf_len bf mod 8 = bf_len bf" by simp
      with b n have "bf_len bf \<le> i" unfolding i_def m_def by linarith
      moreover have "i < 8 * length (bf_bits bf)" using m unfolding i_def len c by simp
      ultimately have "\<not> bit (bf_bits bf ! (bf_len bf div 8)) (7 - m)" using assms i unfolding bf_ok_def by metis
      moreover have "7 - m = n" using n by (simp add: m_def)
      ultimately show ?thesis using n c len \<open>bf_bits bf \<noteq> []\<close> by (simp add: last_conv_nth)
    qed
    then show "bit (last (bf_bits bf) AND drop_bit (bf_len bf mod 8) 0xff) n \<longleftrightarrow> bit (0 :: byte) n"
      unfolding bit_and_iff bit_drop_bit_eq o_def bit_0xff by (auto simp: add.commute)
  qed
  with len show ?thesis by (auto simp: from_wire_def)
qed

lemma from_bytes_ok: "bf_ok (from_bytes bs len)"
proof -
  define bits1 where "bits1 = take (min (length bs) (div_ceil len 8)) bs @
      drop (min (length bs) (div_ceil len 8)) (replicate (div_ceil len 8) (0 :: byte))"
  define bits2 where "bits2 = (if len mod 8 \<noteq> 0 \<and> bits1 \<noteq> []
      then bits1[length bits1 - 1 := last bits1 AND push_bit (8 - len mod 8) 0xff] else bits1)"
  have l1: "length bits1 = div_ceil len 8" by (simp add: bits1_def)
  then have l2: "length bits2 = div_ceil len 8" by (simp add: bits2_def)
  have fb: "from_bytes bs len = \<lparr>bf_bits = bits2, bf_len = len\<rparr>"
    by (simp add: from_bytes_def Let_def bf_new_def bits2_def bits1_def)
  have "\<not> bit (bits2 ! (i div 8)) (7 - i mod 8)" if i: "len \<le> i" "i < 8 * length bits2" for i
  proof -
    note x = spare_index [OF i(1) i(2) [unfolded l2]]
    then have "bits1 \<noteq> []" using l1 by auto
    then have "bits2 ! (i div 8) = last bits1 AND push_bit (8 - len mod 8) 0xff" using x l1 by (simp add: bits2_def)
    moreover have "\<not> 8 - len mod 8 \<le> 7 - i mod 8" using x(3) by (simp add: not_le)
    ultimately show ?thesis by (simp add: bit_and_iff bit_push_bit_iff)
  qed
  with l2 show ?thesis by (simp add: fb bf_ok_def)
qed

section \<open>Counting\<close>

definition bit_list :: "bytes \<Rightarrow> bool list" where
  "bit_list bs = concat (map (\<lambda>b. map (\<lambda>k. bit b (7 - k)) [0..<8]) bs)"

lemma length_bit_list [simp]: "length (bit_list bs) = 8 * length bs"
  by (induction bs) (simp_all add: bit_list_def)

lemma nth_bit_list: "i < 8 * length bs \<Longrightarrow> bit_list bs ! i = bit (bs ! (i div 8)) (7 - i mod 8)"
proof (induction bs arbitrary: i)
  case (Cons b bs)
  have c: "bit_list (b # bs) = map (\<lambda>k. bit b (7 - k)) [0..<8] @ bit_list bs" by (simp add: bit_list_def)
  show ?case
  proof (cases "i < 8")
    case True
    then show ?thesis unfolding c by (simp add: nth_append)
  next
    case False
    then have "i - 8 < 8 * length bs" "i div 8 = Suc ((i - 8) div 8)" "i mod 8 = (i - 8) mod 8"
      using Cons.prems by (simp_all add: le_div_geq le_mod_geq)
    with False Cons.IH [of "i - 8"] show ?thesis unfolding c by (simp add: nth_append)
  qed
qed simp

lemma count_ones_alt: "count_ones b = length (filter id (map (\<lambda>k. bit b (7 - k)) [0..<8]))"
proof -
  have "[0..<8] = [0, 1, 2, 3, 4, 5, 6, 7 :: nat]" by (simp add: upt_rec)
  then show ?thesis by (simp add: count_ones_def)
qed

lemma bf_count_bit_list: "bf_count bf = length (filter id (bit_list (bf_bits bf)))"
proof -
  have "sum_list (map count_ones bs) = length (filter id (bit_list bs))" for bs
    by (induction bs) (simp_all add: bit_list_def count_ones_alt o_def)
  then show ?thesis by (simp add: bf_count_def)
qed

lemma bf_count_card:
  assumes "bf_ok bf"
  shows "bf_count bf = card {i. bf_has bf i}"
proof -
  have le: "bf_len bf \<le> 8 * length (bf_bits bf)" using div_ceil_upper [of 8 "bf_len bf"] assms by (simp add: bf_ok_def)
  have "bit_list (bf_bits bf) ! i \<longleftrightarrow> bf_has bf i" if "i < 8 * length (bf_bits bf)" for i
  proof (cases "i < bf_len bf")
    case True
    with nth_bit_list [OF that] show ?thesis by (simp add: bf_has_bit)
  next
    case False
    with assms that have "\<not> bit (bf_bits bf ! (i div 8)) (7 - i mod 8)" by (simp add: bf_ok_def)
    with False nth_bit_list [OF that] show ?thesis by (simp add: bf_has_bit)
  qed
  then have "{i. i < length (bit_list (bf_bits bf)) \<and> id (bit_list (bf_bits bf) ! i)} = {i. bf_has bf i}"
    using le by (auto simp: bf_has_def)
  then show ?thesis unfolding bf_count_bit_list length_filter_conv_card by simp
qed

section \<open>The piece set contract\<close>

locale piece_set =
  fixes ok :: "'s \<Rightarrow> bool" and cap :: "'s \<Rightarrow> nat" and none :: "nat \<Rightarrow> 's" and has :: "'s \<Rightarrow> nat \<Rightarrow> bool"
    and add :: "'s \<Rightarrow> nat \<Rightarrow> 's" and remove :: "'s \<Rightarrow> nat \<Rightarrow> 's" and merge :: "'s \<Rightarrow> 's \<Rightarrow> 's" and count :: "'s \<Rightarrow> nat"
  assumes none_laws: "ok (none n)" "\<not> has (none n) i" "cap (none n) = n"
    and add_laws: "ok s \<Longrightarrow> ok (add s i)" "ok s \<Longrightarrow> has (add s i) j \<longleftrightarrow> (j = i \<and> i < cap s) \<or> has s j"
      "cap (add s i) = cap s"
    and remove_laws: "ok s \<Longrightarrow> ok (remove s i)" "ok s \<Longrightarrow> has (remove s i) j \<longleftrightarrow> j \<noteq> i \<and> has s j"
      "cap (remove s i) = cap s"
    and merge_laws: "ok s \<Longrightarrow> ok t \<Longrightarrow> cap s = cap t \<Longrightarrow> ok (merge s t)"
      "ok s \<Longrightarrow> ok t \<Longrightarrow> cap s = cap t \<Longrightarrow> has (merge s t) i \<longleftrightarrow> has s i \<or> has t i" "cap (merge s t) = cap s"
    and has_cap: "has s i \<Longrightarrow> i < cap s"
    and count_card: "ok s \<Longrightarrow> count s = card {i. has s i}"
begin

definition pieces :: "'s \<Rightarrow> nat set" where
  "pieces s = {i. has s i}"

lemma pieces_sub: "pieces s \<subseteq> {..<cap s}"
  using has_cap by (auto simp: pieces_def)

lemma pieces_ops:
  "pieces (none n) = {}"
  "ok s \<Longrightarrow> i < cap s \<Longrightarrow> pieces (add s i) = insert i (pieces s)"
  "ok s \<Longrightarrow> pieces (remove s i) = pieces s - {i}"
  "ok s \<Longrightarrow> ok t \<Longrightarrow> cap s = cap t \<Longrightarrow> pieces (merge s t) = pieces s \<union> pieces t"
  using none_laws add_laws remove_laws merge_laws by (auto simp: pieces_def)

lemma complete_iff: "ok s \<Longrightarrow> count s = cap s \<longleftrightarrow> pieces s = {..<cap s}"
proof -
  assume "ok s"
  then have c: "count s = card (pieces s)" by (simp add: count_card pieces_def)
  show ?thesis
  proof
    assume "count s = cap s"
    then have "card (pieces s) = card {..<cap s}" by (simp add: c)
    with pieces_sub show "pieces s = {..<cap s}" by (intro card_subset_eq) auto
  qed (simp add: c)
qed

lemma add_all:
  assumes "ok s"
  shows "ok (fold (\<lambda>i s. add s i) is s) \<and> cap (fold (\<lambda>i s. add s i) is s) = cap s \<and>
    (has (fold (\<lambda>i s. add s i) is s) j \<longleftrightarrow> has s j \<or> j \<in> set is \<and> j < cap s)"
  using assms by (induction "is" arbitrary: s) (auto simp: add_laws)

end

interpretation bf: piece_set bf_ok bf_len bf_new bf_has bf_set bf_unset bf_merge bf_count
proof unfold_locales
  show "bf_len (bf_merge s t) = bf_len s" "bf_len (bf_set s i) = bf_len s" "bf_len (bf_unset s i) = bf_len s" for s t i
    by (simp_all add: bf_merge_def bf_set_def bf_unset_def)
  show "bf_has s i \<Longrightarrow> i < bf_len s" for s i by (simp add: bf_has_def)
qed (simp_all add: bf_new_laws bf_set_laws bf_unset_laws bf_merge_laws bf_count_card)

section \<open>The rarest-first picker\<close>

record picker =
  availability :: "u32 list"

definition picker_new :: "nat \<Rightarrow> picker" where
  "picker_new num_pieces = \<lparr>availability = replicate num_pieces 0\<rparr>"

definition add_have :: "picker \<Rightarrow> nat \<Rightarrow> picker" where
  "add_have p i =
     (if i < length (availability p) then p\<lparr>availability := (availability p)[i := availability p ! i + 1]\<rparr> else p)"

definition add_bitfield :: "picker \<Rightarrow> bitfield \<Rightarrow> picker" where
  "add_bitfield p b = fold (\<lambda>i p. if bf_has b i then add_have p i else p) [0..<bf_len b] p"

definition drop_have :: "picker \<Rightarrow> nat \<Rightarrow> picker" where
  "drop_have p i =
     (if i < length (availability p)
      then p\<lparr>availability := (availability p)[i := if availability p ! i = 0 then 0 else availability p ! i - 1]\<rparr> else p)"

definition remove_bitfield :: "picker \<Rightarrow> bitfield \<Rightarrow> picker" where
  "remove_bitfield p b = fold (\<lambda>i p. if bf_has b i then drop_have p i else p) [0..<bf_len b] p"

definition better :: "u32 list \<Rightarrow> nat \<Rightarrow> (u32 \<times> nat) option \<Rightarrow> (u32 \<times> nat) option" where
  "better av i best =
     (case best of
        None \<Rightarrow> Some (av ! i, i)
      | Some (b, _) \<Rightarrow> if av ! i < b then Some (av ! i, i) else best)"

definition eligible :: "bitfield \<Rightarrow> bitfield \<Rightarrow> nat set \<Rightarrow> nat \<Rightarrow> bool" where
  "eligible ours peer_has exclude i \<longleftrightarrow> \<not> (bf_has ours i \<or> \<not> bf_has peer_has i \<or> i \<in> exclude)"

definition pick :: "picker \<Rightarrow> bitfield \<Rightarrow> bitfield \<Rightarrow> nat set \<Rightarrow> nat option" where
  "pick p ours peer_has exclude =
     map_option snd
       (fold (\<lambda>i best. if eligible ours peer_has exclude i then better (availability p) i best else best)
          [0..<length (availability p)] None)"

subsection \<open>Availability counts the peers\<close>

lemma fold_update_nth:
  assumes "\<And>p i. length (availability (f p i)) = length (availability p)"
    and "\<And>p i j. j < length (availability p) \<Longrightarrow> availability (f p i) ! j = (if j = i then g (availability p ! j) else availability p ! j)"
    and "distinct is" "j < length (availability p)"
  shows "availability (fold (\<lambda>i p. if Q i then f p i else p) is p) ! j =
      (if j \<in> set is \<and> Q j then g (availability p ! j) else availability p ! j) \<and>
    length (availability (fold (\<lambda>i p. if Q i then f p i else p) is p)) = length (availability p)"
  using assms(3,4)
proof (induction "is" arbitrary: p)
  case (Cons k "is")
  have "j < length (availability (if Q k then f p k else p))" using Cons.prems assms(1) by simp
  with Cons.IH [of "if Q k then f p k else p"] Cons.prems assms(1,2) show ?case by auto
qed simp

lemma add_bitfield_nth:
  assumes "j < length (availability p)"
  shows "availability (add_bitfield p b) ! j = availability p ! j + (if bf_has b j then 1 else 0)"
    "length (availability (add_bitfield p b)) = length (availability p)"
  using fold_update_nth [of add_have "\<lambda>c. c + 1" "[0..<bf_len b]" j p "bf_has b"] assms
  by (auto simp: add_bitfield_def add_have_def nth_list_update bf_has_def)

lemma remove_bitfield_nth:
  assumes "j < length (availability p)"
  shows "availability (remove_bitfield p b) ! j =
      (if bf_has b j then if availability p ! j = 0 then 0 else availability p ! j - 1 else availability p ! j)"
  using fold_update_nth [of drop_have "\<lambda>c. if c = 0 then 0 else c - 1" "[0..<bf_len b]" j p "bf_has b"] assms
  by (auto simp: remove_bitfield_def drop_have_def nth_list_update bf_has_def)

definition join_all :: "nat \<Rightarrow> bitfield list \<Rightarrow> picker" where
  "join_all n ps = fold (\<lambda>b p. add_bitfield p b) ps (picker_new n)"

lemma join_all_nth:
  assumes "i < n"
  shows "availability (join_all n ps) ! i = of_nat (length (filter (\<lambda>b. bf_has b i) ps)) \<and>
    length (availability (join_all n ps)) = n"
proof -
  have "availability (fold (\<lambda>b p. add_bitfield p b) ps p) ! i =
      availability p ! i + of_nat (length (filter (\<lambda>b. bf_has b i) ps)) \<and>
      length (availability (fold (\<lambda>b p. add_bitfield p b) ps p)) = length (availability p)"
    if "i < length (availability p)" for p
    using that by (induction ps arbitrary: p) (auto simp: add_bitfield_nth)
  from this [of "picker_new n"] assms show ?thesis by (simp add: join_all_def picker_new_def)
qed

subsection \<open>The pick\<close>

definition best_ok :: "u32 list \<Rightarrow> (nat \<Rightarrow> bool) \<Rightarrow> nat \<Rightarrow> (u32 \<times> nat) option \<Rightarrow> bool" where
  "best_ok av E n best \<longleftrightarrow>
     (case best of
        None \<Rightarrow> \<forall>j<n. \<not> E j
      | Some (a, i) \<Rightarrow> i < n \<and> E i \<and> a = av ! i \<and> (\<forall>j<n. E j \<longrightarrow> av ! i < av ! j \<or> (av ! i = av ! j \<and> i \<le> j)))"

lemma best_ok_fold: "best_ok av E n (fold (\<lambda>i best. if E i then better av i best else best) [0..<n] None)"
proof (induction n)
  case (Suc n)
  define b where "b = fold (\<lambda>i best. if E i then better av i best else best) [0..<n] None"
  have "best_ok av E (Suc n) (if E n then better av n b else b)"
  proof (cases b)
    case None
    with Suc.IH show ?thesis by (auto simp: b_def [symmetric] best_ok_def better_def less_Suc_eq)
  next
    case (Some p)
    obtain a i where p: "p = (a, i)" by (cases p)
    from Suc.IH Some p have ih: "i < n" "E i" "a = av ! i"
      "\<forall>j<n. E j \<longrightarrow> av ! i < av ! j \<or> (av ! i = av ! j \<and> i \<le> j)" by (auto simp: b_def [symmetric] best_ok_def)
    show ?thesis
    proof (cases "E n \<and> av ! n < a")
      case True
      have "av ! n < av ! j" if "j < n" "E j" for j
      proof -
        from ih(4) that have "av ! i \<le> av ! j" by (metis order_less_imp_le order_refl)
        with True show ?thesis unfolding ih(3) by (meson order_less_le_trans)
      qed
      with True Some p show ?thesis by (auto simp: best_ok_def better_def less_Suc_eq)
    next
      case False
      then have same: "(if E n then better av n b else b) = b" by (auto simp: Some p better_def)
      have "av ! i < av ! n \<or> (av ! i = av ! n \<and> i \<le> n)" if "E n"
        using False that ih(1) unfolding ih(3) by (simp add: not_less le_less)
      with ih have "\<forall>j<Suc n. E j \<longrightarrow> av ! i < av ! j \<or> (av ! i = av ! j \<and> i \<le> j)" by (metis less_Suc_eq)
      with ih show ?thesis unfolding same by (simp add: best_ok_def Some p)
    qed
  qed
  then show ?case by (simp add: b_def split: if_splits)
qed (simp add: best_ok_def)

section \<open>Properties\<close>

text \<open>
  The picker is rarest-first: \<open>pick\<close> returns piece \<open>i\<close> exactly when \<open>i\<close> is wanted, offered by the peer
  and not excluded, and every other such piece is more widely available, or equally available
  with a higher number; it returns nothing exactly when no piece qualifies.
\<close>

theorem pick_rarest_first:
  "(pick p ours peer ex = Some i \<longleftrightarrow>
      i < length (availability p) \<and> eligible ours peer ex i \<and>
      (\<forall>j < length (availability p). eligible ours peer ex j \<longrightarrow>
         availability p ! i < availability p ! j \<or> (availability p ! i = availability p ! j \<and> i \<le> j))) \<and>
   (pick p ours peer ex = None \<longleftrightarrow> (\<forall>j < length (availability p). \<not> eligible ours peer ex j))"
proof -
  define n where "n = length (availability p)"
  define best where "best = fold (\<lambda>i best. if eligible ours peer ex i then better (availability p) i best else best) [0..<n] None"
  have b: "best_ok (availability p) (eligible ours peer ex) n best" unfolding best_def by (rule best_ok_fold)
  have pk: "pick p ours peer ex = map_option snd best" by (simp add: pick_def best_def n_def)
  show ?thesis
  proof (cases best)
    case None
    with b show ?thesis by (auto simp: pk n_def [symmetric] best_ok_def)
  next
    case (Some q)
    obtain a k where q: "q = (a, k)" by (cases q)
    have k: "k < n" "eligible ours peer ex k" "\<forall>j<n. eligible ours peer ex j \<longrightarrow>
        availability p ! k < availability p ! j \<or> (availability p ! k = availability p ! j \<and> k \<le> j)"
      using b Some q by (auto simp: best_ok_def)
    have "i = k" if "i < n" "eligible ours peer ex i" "\<forall>j<n. eligible ours peer ex j \<longrightarrow>
        availability p ! i < availability p ! j \<or> (availability p ! i = availability p ! j \<and> i \<le> j)"
      using that k by (metis order.asym order_less_irrefl le_antisym)
    with k Some q show ?thesis by (auto simp: pk n_def [symmetric])
  qed
qed

theorem pick_rarest_first_witness:
  "pick \<lparr>availability = [2, 1, 1]\<rparr> (bf_new 3) \<lparr>bf_bits = [0xE0], bf_len = 3\<rparr> {} = Some 1"
proof -
  have "eligible (bf_new 3) \<lparr>bf_bits = [0xE0], bf_len = 3\<rparr> {} 1"
    by (simp add: eligible_def bf_has_def bf_new_def piece_mask_def div_ceil_def)
  moreover have "[2, 1, 1 :: u32] ! 1 < [2, 1, 1] ! j \<or> ([2, 1, 1 :: u32] ! 1 = [2, 1, 1] ! j \<and> 1 \<le> j)" if "j < 3" for j
    using that by (auto simp: numeral_3_eq_3 less_Suc_eq)
  ultimately show ?thesis
    using pick_rarest_first [of "\<lparr>availability = [2, 1, 1]\<rparr>" "bf_new 3" "\<lparr>bf_bits = [0xE0], bf_len = 3\<rparr>" "{}" 1]
    by (auto simp: eq_commute [of 1])
qed

text \<open>
  Availability is exact: after any peers joined with their bitfields (fewer than 2^32), the
  count of a piece is the number of joined peers that have it, and when one of them leaves it is
  the count over the remaining peers.
\<close>

theorem picker_counts_peers:
  assumes "i < n" "b \<in> set ps" "length ps < 2 ^ 32"
  shows "unat (availability (join_all n ps) ! i) = length (filter (\<lambda>b. bf_has b i) ps) \<and>
    unat (availability (remove_bitfield (join_all n ps) b) ! i) = length (filter (\<lambda>b. bf_has b i) (remove1 b ps))"
proof -
  define k where "k = length (filter (\<lambda>b. bf_has b i) ps)"
  note j = join_all_nth [OF assms(1), of ps, folded k_def]
  have k: "k < 2 ^ 32" using length_filter_le [of "\<lambda>b. bf_has b i" ps] assms(3) unfolding k_def by (rule le_less_trans)
  then have u: "unat (of_nat k :: u32) = k" by (simp add: unat_of_nat)
  have rem: "length (filter (\<lambda>b. bf_has b i) (remove1 b ps)) = (if bf_has b i then k - 1 else k)"
  proof -
    have "filter (\<lambda>b. bf_has b i) (remove1 b ps) =
        (if bf_has b i then remove1 b (filter (\<lambda>b. bf_has b i) ps) else filter (\<lambda>b. bf_has b i) ps)"
      by (simp add: filter_remove1)
    then show ?thesis using assms(2) by (auto simp: k_def length_remove1)
  qed
  have pos: "k \<noteq> 0" if "bf_has b i" using that assms(2) by (auto simp: k_def filter_empty_conv)
  have "unat (availability (remove_bitfield (join_all n ps) b) ! i) = (if bf_has b i then k - 1 else k)"
  proof (cases "bf_has b i")
    case True
    with pos u have "(of_nat k :: u32) \<noteq> 0" by (metis unat_0)
    with True u j assms(1) show ?thesis by (simp add: remove_bitfield_nth unat_minus_one)
  qed (use u j assms(1) in \<open>simp add: remove_bitfield_nth\<close>)
  with u j rem show ?thesis by (simp add: k_def)
qed

lemma picker_counts_peers_witness:
  "unat (availability (join_all 2 [\<lparr>bf_bits = [0x80], bf_len = 2\<rparr>]) ! 0) = 1"
proof -
  have "unat (availability (join_all 2 [\<lparr>bf_bits = [0x80], bf_len = 2\<rparr>]) ! 0) =
      length (filter (\<lambda>b. bf_has b 0) [\<lparr>bf_bits = [0x80], bf_len = 2\<rparr>])"
    using picker_counts_peers [of 0 2 "\<lparr>bf_bits = [0x80], bf_len = 2\<rparr>" "[\<lparr>bf_bits = [0x80], bf_len = 2\<rparr>]"] by simp
  then show ?thesis by (simp add: bf_has_def piece_mask_def)
qed

text \<open>
  A bitfield is the set of its pieces: every constructor and setter keeps the representation
  (exact byte count, spare bits clear), setting, clearing and merging are insertion, removal and
  union, the population count is the number of pieces, a bitfield is complete exactly when it has
  every piece, and what is sent is accepted back unchanged.
\<close>

theorem bitfield_refines_set:
  assumes "bf_ok s" "bf_ok t" "bf_len s = bf_len t" "i < bf_len s"
  shows "bf_ok (bf_set s i) \<and> Collect (bf_has (bf_set s i)) = insert i (Collect (bf_has s)) \<and>
    bf_ok (bf_unset s i) \<and> Collect (bf_has (bf_unset s i)) = Collect (bf_has s) - {i} \<and>
    bf_ok (bf_merge s t) \<and> Collect (bf_has (bf_merge s t)) = Collect (bf_has s) \<union> Collect (bf_has t) \<and>
    bf_count s = card (Collect (bf_has s)) \<and> (bf_is_complete s \<longleftrightarrow> Collect (bf_has s) = {..<bf_len s}) \<and>
    from_wire (bf_bits s) (bf_len s) = Some s \<and> bf_ok (bf_new n) \<and> bf_ok (from_bytes bs n)"
  using assms bf.pieces_ops(2-4) [of s] bf.complete_iff [of s] from_wire_as_bytes [of s] bf_count_card [of s]
  by (simp add: bf_set_laws(1) bf_unset_laws(1) bf_merge_laws(1) bf.pieces_def bf_is_complete_def bf_new_laws(1) from_bytes_ok)

lemma bitfield_refines_set_witness:
  "Collect (bf_has (bf_set (bf_new 9) 8)) = insert 8 (Collect (bf_has (bf_new 9)))"
  using bitfield_refines_set [of "bf_new 9" "bf_new 9" 8] bf_new_laws(1) [of 9] by (simp add: bf_new_laws(3))

end
