(* ===== verification/Bt_Storage.thy ===== *)
theory Bt_Storage
  imports Bt_Piece
begin

text \<open>
  The torrent storage (\<open>src/src/bittorrent/storage.rs\<close>): the linear byte space of a torrent on one or
  many files, verified piece writes across file boundaries, the completion bitfield, re-checking
  and block reads. The SHA-1 function is a parameter. A slot carries the current content of its
  file (the paths of a layout are distinct); a seek past the end and a write leave zeros in the gap.
\<close>

section \<open>Files\<close>

record file_slot =
  fs_path :: string
  fs_length :: nat
  fs_start :: nat
  fs_data :: bytes
  fs_padding :: bool

abbreviation serr :: "string \<Rightarrow> error" where
  "serr m \<equiv> BadResponse (''bt storage: '' @ m)"

text \<open>\<open>seek(off)\<close> followed by \<open>write_all\<close>.\<close>

definition file_write :: "bytes \<Rightarrow> nat \<Rightarrow> bytes \<Rightarrow> bytes" where
  "file_write d off ys = take off (d @ replicate (off - length d) 0) @ ys @ drop (off + length ys) d"

text \<open>\<open>seek(off)\<close> followed by \<open>read_exact\<close>.\<close>

definition file_read :: "bytes \<Rightarrow> nat \<Rightarrow> nat \<Rightarrow> bytes result" where
  "file_read d off n = (if off + n \<le> length d then Ok (take n (drop off d)) else Err (Io IoUnexpectedEof))"

text \<open>\<open>set_len\<close>.\<close>

definition file_set_len :: "bytes \<Rightarrow> nat \<Rightarrow> bytes" where
  "file_set_len d n = take n (d @ replicate (n - length d) 0)"

section \<open>The store\<close>

record storage =
  piece_length :: nat
  st_total :: nat
  st_hashes :: "bytes list"
  st_files :: "file_slot list"
  st_have :: bitfield
  st_window :: "(nat \<times> nat) option"

fun layout_slots :: "(string \<Rightarrow> bytes) \<Rightarrow> nat \<Rightarrow> (string \<times> nat) list \<Rightarrow> (file_slot list \<times> nat) result" where
  "layout_slots disk start [] = Ok ([], start)"
| "layout_slots disk start ((path, len) # layout) =
     (case checked_add_u64 start len of
        None \<Rightarrow> Err (serr ''size overflow'')
      | Some start' \<Rightarrow>
          res_bind (layout_slots disk start' layout) (\<lambda>(slots, tot).
            Ok (\<lparr>fs_path = path, fs_length = len, fs_start = start, fs_data = disk path, fs_padding = False\<rparr> # slots, tot)))"

definition st_create :: "(string \<Rightarrow> bytes) \<Rightarrow> (string \<times> nat) list \<Rightarrow> nat \<Rightarrow> bytes list \<Rightarrow> storage result" where
  "st_create disk layout plen hashes =
     (if plen = 0 then Err (serr ''zero piece length'')
      else res_bind (layout_slots disk 0 layout) (\<lambda>(slots, tot).
        Ok \<lparr>piece_length = plen, st_total = tot, st_hashes = hashes, st_files = slots,
            st_have = bf_new (length hashes), st_window = None\<rparr>))"

definition window_overlaps :: "nat \<Rightarrow> nat \<Rightarrow> nat \<Rightarrow> nat \<Rightarrow> nat \<Rightarrow> bool" where
  "window_overlaps plen tot start stop i \<longleftrightarrow> plen * i < stop \<and> min (plen * i + plen) tot > start"

definition st_create_window ::
  "(string \<Rightarrow> bytes) \<Rightarrow> string \<Rightarrow> nat \<Rightarrow> bytes list \<Rightarrow> nat \<Rightarrow> nat \<Rightarrow> nat \<Rightarrow> storage result" where
  "st_create_window disk out plen hashes tot start0 end0 =
     (if plen = 0 then Err (serr ''zero piece length'')
      else let stop = min end0 tot; start = min start0 stop;
               slot = \<lparr>fs_path = out, fs_length = stop - start, fs_start = start, fs_data = disk out, fs_padding = False\<rparr>;
               have0 = fold (\<lambda>i h. if \<not> window_overlaps plen tot start stop i then bf_set h i else h)
                        [0..<length hashes] (bf_new (length hashes))
           in Ok \<lparr>piece_length = plen, st_total = tot, st_hashes = hashes, st_files = [slot], st_have = have0,
                  st_window = Some (start, stop)\<rparr>)"

definition set_padding :: "storage \<Rightarrow> nat \<Rightarrow> storage" where
  "set_padding st file =
     (if file < length (st_files st)
      then st\<lparr>st_files := (st_files st)[file := (st_files st ! file)\<lparr>fs_padding := True\<rparr>]\<rparr> else st)"

definition finalize_files :: "storage \<Rightarrow> storage" where
  "finalize_files st =
     st\<lparr>st_files := map (\<lambda>s. if \<not> fs_padding s then s\<lparr>fs_data := file_set_len (fs_data s) (fs_length s)\<rparr> else s) (st_files st)\<rparr>"

definition num_pieces :: "storage \<Rightarrow> nat" where
  "num_pieces st = length (st_hashes st)"

definition piece_size :: "storage \<Rightarrow> nat \<Rightarrow> nat" where
  "piece_size st index = min (st_total st - piece_length st * index) (piece_length st)"

definition st_has :: "storage \<Rightarrow> nat \<Rightarrow> bool" where
  "st_has st index = bf_has (st_have st) index"

definition st_is_complete :: "storage \<Rightarrow> bool" where
  "st_is_complete st = bf_is_complete (st_have st)"

definition restore_have :: "storage \<Rightarrow> bitfield \<Rightarrow> storage" where
  "restore_have st bits =
     st\<lparr>st_have := fold (\<lambda>i h. if bf_has bits i then bf_set h i else h) [0..<num_pieces st] (st_have st)\<rparr>"

definition bytes_complete :: "storage \<Rightarrow> nat" where
  "bytes_complete st =
     sum_list (map (\<lambda>i. case st_window st of
          Some (ws, we) \<Rightarrow> min (piece_length st * i + piece_size st i) we - max (piece_length st * i) ws
        | None \<Rightarrow> piece_size st i)
       (filter (bf_has (st_have st)) [0..<num_pieces st]))"

text \<open>
  The walk over the files covering \<open>[offset, offset + len)\<close>: \<open>f\<close> gets the file, the offset in it and
  the range of the buffer, and may change the file and the closure's state.
\<close>

fun rw :: "(bytes \<Rightarrow> nat \<Rightarrow> nat \<Rightarrow> nat \<Rightarrow> 'a \<Rightarrow> (bytes \<times> 'a) result) \<Rightarrow> nat \<Rightarrow> nat \<Rightarrow> file_slot list \<Rightarrow> 'a \<Rightarrow>
    file_slot list \<times> 'a result" where
  "rw f offset len [] a = ([], Ok a)"
| "rw f offset len (slot # slots) a =
     (let ov_start = max offset (fs_start slot);
          ov_end = min (offset + len) (fs_start slot + fs_length slot)
      in if ov_start \<ge> ov_end \<or> fs_padding slot
         then (let (slots', r) = rw f offset len slots a in (slot # slots', r))
         else case f (fs_data slot) (ov_start - fs_start slot) (ov_start - offset) (ov_end - offset) a of
             Inl e \<Rightarrow> (slot # slots, Err e)
           | Inr (d, a') \<Rightarrow>
               (let (slots', r) = rw f offset len slots a' in (slot\<lparr>fs_data := d\<rparr> # slots', r)))"

definition byte_range :: "nat \<Rightarrow> nat \<Rightarrow> bytes \<Rightarrow> bytes" where
  "byte_range lo hi bs = take (hi - lo) (drop lo bs)"

definition write_span :: "bytes \<Rightarrow> bytes \<Rightarrow> nat \<Rightarrow> nat \<Rightarrow> nat \<Rightarrow> unit \<Rightarrow> (bytes \<times> unit) result" where
  "write_span buf d off lo hi u = Ok (file_write d off (byte_range lo hi buf), ())"

definition read_span :: "bytes \<Rightarrow> nat \<Rightarrow> nat \<Rightarrow> nat \<Rightarrow> bytes \<Rightarrow> (bytes \<times> bytes) result" where
  "read_span d off lo hi out =
     res_bind (file_read d off (hi - lo)) (\<lambda>bs. Ok (d, take lo out @ bs @ drop hi out))"

definition read_at :: "storage \<Rightarrow> nat \<Rightarrow> nat \<Rightarrow> bytes result" where
  "read_at st offset len = snd (rw read_span offset len (st_files st) (replicate len 0))"

definition write_piece :: "(bytes \<Rightarrow> bytes) \<Rightarrow> storage \<Rightarrow> nat \<Rightarrow> bytes \<Rightarrow> storage \<times> bool result" where
  "write_piece sha1 st index dat =
     (if index \<ge> num_pieces st then (st, Err (serr ''piece index out of range''))
      else if length dat \<noteq> piece_size st index then (st, Err (serr ''piece has wrong length''))
      else if sha1 dat \<noteq> st_hashes st ! index then (st, Ok False)
      else (let (slots, r) = rw (write_span dat) (piece_length st * index) (length dat) (st_files st) ();
                st1 = st\<lparr>st_files := slots\<rparr>
            in case r of
                 Inl e \<Rightarrow> (st1, Err e)
               | Inr _ \<Rightarrow> (st1\<lparr>st_have := bf_set (st_have st1) index\<rparr>, Ok True)))"

definition recheck :: "(bytes \<Rightarrow> bytes) \<Rightarrow> storage \<Rightarrow> storage" where
  "recheck sha1 st =
     st\<lparr>st_have := fold (\<lambda>i h.
          case read_at st (piece_length st * i) (piece_size st i) of
            Inr buf \<Rightarrow> if sha1 buf = st_hashes st ! i then bf_set h i else h
          | Inl _ \<Rightarrow> h) [0..<num_pieces st] (bf_new (num_pieces st))\<rparr>"

definition read_block :: "storage \<Rightarrow> nat \<Rightarrow> nat \<Rightarrow> nat \<Rightarrow> bytes result" where
  "read_block st index begin0 len =
     (if \<not> st_has st index then Err (serr ''read of incomplete piece'')
      else if begin0 + len > piece_size st index then Err (serr ''read past end of piece'')
      else read_at st (piece_length st * index + begin0) len)"

section \<open>The byte space\<close>

text \<open>The file that holds global byte \<open>g\<close>, and that byte: absent when the file is too short, zero when
  no file on disk covers it (padding, or outside a window).\<close>

definition holds_byte :: "nat \<Rightarrow> file_slot \<Rightarrow> bool" where
  "holds_byte g s \<longleftrightarrow> \<not> fs_padding s \<and> fs_start s \<le> g \<and> g < fs_start s + fs_length s"

definition slot_byte :: "file_slot \<Rightarrow> nat \<Rightarrow> byte option" where
  "slot_byte s g = (if g - fs_start s < length (fs_data s) then Some (fs_data s ! (g - fs_start s)) else None)"

definition byte_at :: "file_slot list \<Rightarrow> nat \<Rightarrow> byte option" where
  "byte_at slots g = (case List.find (holds_byte g) slots of None \<Rightarrow> Some 0 | Some s \<Rightarrow> slot_byte s g)"

definition layout_ok :: "file_slot list \<Rightarrow> bool" where
  "layout_ok slots \<longleftrightarrow> sorted_wrt (\<lambda>a b. fs_start a + fs_length a \<le> fs_start b) slots"

lemma layout_ok_Cons: "layout_ok (s # slots) \<longleftrightarrow> (\<forall>t\<in>set slots. fs_start s + fs_length s \<le> fs_start t) \<and> layout_ok slots"
  by (simp add: layout_ok_def)

lemma byte_at_Cons: "byte_at (s # slots) g = (if holds_byte g s then slot_byte s g else byte_at slots g)"
  by (simp add: byte_at_def)

lemma uncovered: "\<forall>t\<in>set slots. \<not> holds_byte g t \<Longrightarrow> byte_at slots g = Some 0"
  by (induction slots) (simp_all add: byte_at_Cons, simp add: byte_at_def)

lemma length_file_write [simp]: "length (file_write d off ys) = max (length d) (off + length ys)"
  by (auto simp: file_write_def)

lemma file_write_nth:
  assumes "k < length d \<or> off \<le> k \<and> k < off + length ys"
  shows "file_write d off ys ! k = (if off \<le> k \<and> k < off + length ys then ys ! (k - off) else d ! k)"
proof -
  have l: "length (take off (d @ replicate (off - length d) 0)) = off" by simp
  show ?thesis
  proof (cases "k < off")
    case True
    with assms l show ?thesis by (auto simp: file_write_def nth_append)
  next
    case False
    with assms l show ?thesis by (auto simp: file_write_def nth_append add.commute)
  qed
qed

subsection \<open>Writing\<close>

definition same_slot :: "file_slot \<Rightarrow> file_slot \<Rightarrow> bool" where
  "same_slot a b \<longleftrightarrow> fs_path a = fs_path b \<and> fs_length a = fs_length b \<and> fs_start a = fs_start b \<and> fs_padding a = fs_padding b"

definition wrote :: "nat \<Rightarrow> bytes \<Rightarrow> file_slot list \<Rightarrow> file_slot list \<Rightarrow> bool" where
  "wrote off buf slots slots' \<longleftrightarrow> list_all2 same_slot slots slots' \<and>
     (\<forall>g. (off \<le> g \<and> g < off + length buf \<longrightarrow>
            byte_at slots' g = (if list_ex (holds_byte g) slots then Some (buf ! (g - off)) else Some 0)) \<and>
          (\<not> (off \<le> g \<and> g < off + length buf) \<longrightarrow> byte_at slots g \<noteq> None \<longrightarrow> byte_at slots' g = byte_at slots g))"

lemma holds_byte_same: "same_slot a b \<Longrightarrow> holds_byte g a = holds_byte g b"
  by (simp add: same_slot_def holds_byte_def)

lemma rw_write:
  assumes "layout_ok slots"
  shows "\<exists>slots'. rw (write_span buf) off (length buf) slots () = (slots', Ok ()) \<and> wrote off buf slots slots'"
  using assms
proof (induction slots)
  case Nil
  then show ?case by (simp add: wrote_def byte_at_def)
next
  case (Cons s slots)
  then obtain slots' where ih: "rw (write_span buf) off (length buf) slots () = (slots', Ok ())" "wrote off buf slots slots'"
    by (auto simp: layout_ok_Cons)
  define lo where "lo = max off (fs_start s)"
  define hi where "hi = min (off + length buf) (fs_start s + fs_length s)"
  define s' where "s' = (if lo \<ge> hi \<or> fs_padding s then s
      else s\<lparr>fs_data := file_write (fs_data s) (lo - fs_start s) (byte_range (lo - off) (hi - off) buf)\<rparr>)"
  have run: "rw (write_span buf) off (length buf) (s # slots) () = (s' # slots', Ok ())"
    by (simp add: ih(1) lo_def [symmetric] hi_def [symmetric] write_span_def s'_def Let_def)
  have same: "same_slot s s'" by (simp add: s'_def same_slot_def)
  have sb: "slot_byte s' g = (if off \<le> g \<and> g < off + length buf then Some (buf ! (g - off)) else slot_byte s g)"
    if h: "holds_byte g s" and w: "off \<le> g \<and> g < off + length buf \<or> slot_byte s g \<noteq> None" for g
  proof (cases "lo \<ge> hi")
    case True
    with h w show ?thesis by (auto simp: lo_def hi_def holds_byte_def s'_def max_def min_def split: if_splits)
  next
    case False
    have len: "length (byte_range (lo - off) (hi - off) buf) = hi - lo"
      using False by (auto simp: byte_range_def lo_def hi_def)
    have pad: "\<not> fs_padding s" using h by (simp add: holds_byte_def)
    have inside: "off \<le> g \<and> g < off + length buf \<longleftrightarrow> lo \<le> g \<and> g < hi" using h by (auto simp: holds_byte_def lo_def hi_def)
    have st: "fs_start s \<le> lo" "off \<le> lo" "fs_start s \<le> g" using h by (simp_all add: lo_def holds_byte_def)
    have d: "fs_data s' = file_write (fs_data s) (lo - fs_start s) (byte_range (lo - off) (hi - off) buf)" "fs_start s' = fs_start s"
      using False pad by (simp_all add: s'_def)
    show ?thesis
    proof (cases "lo \<le> g \<and> g < hi")
      case True
      then have r: "lo - fs_start s \<le> g - fs_start s" "g - fs_start s < lo - fs_start s + (hi - lo)" using st by auto
      have "byte_range (lo - off) (hi - off) buf ! (g - fs_start s - (lo - fs_start s)) = buf ! (g - off)"
      proof -
        have e: "g - fs_start s - (lo - fs_start s) = g - lo" "lo - off + (g - lo) = g - off" "hi - off - (lo - off) = hi - lo"
          using True st by auto
        have "g - lo < hi - lo" "lo - off \<le> length buf" using True st by (auto simp: hi_def)
        then have "byte_range (lo - off) (hi - off) buf ! (g - lo) = buf ! (lo - off + (g - lo))"
          unfolding byte_range_def e(3) by (subst nth_take) simp_all
        then show ?thesis unfolding e(1,2) .
      qed
      then have "fs_data s' ! (g - fs_start s) = buf ! (g - off)"
        unfolding d by (subst file_write_nth) (use r in \<open>simp_all only: len, simp_all\<close>)
      with r inside True show ?thesis by (simp add: slot_byte_def d len)
    next
      case out: False
      with inside w have k: "g - fs_start s < length (fs_data s)" by (auto simp: slot_byte_def split: if_splits)
      have "\<not> (lo - fs_start s \<le> g - fs_start s \<and> g - fs_start s < lo - fs_start s + (hi - lo))" using out st by auto
      then have "fs_data s' ! (g - fs_start s) = fs_data s ! (g - fs_start s)"
        unfolding d by (subst file_write_nth) (use k in \<open>auto simp: len\<close>)
      with out inside k show ?thesis by (auto simp: slot_byte_def d)
    qed
  qed
  have hb: "holds_byte g s' = holds_byte g s" for g using holds_byte_same [OF same] by simp
  have "wrote off buf (s # slots) (s' # slots')"
    using ih(2) same sb unfolding wrote_def byte_at_Cons hb by auto
  with run show ?case by blast
qed

subsection \<open>Reading\<close>

lemma rw_read:
  assumes "layout_ok slots" "length out = len" "rw read_span off len slots out = (slots', r)"
  shows "slots' = slots \<and>
    (case r of
       Inr out' \<Rightarrow> length out' = len \<and> (\<forall>k<len. if list_ex (holds_byte (off + k)) slots
         then byte_at slots (off + k) = Some (out' ! k) else out' ! k = out ! k)
     | Inl e \<Rightarrow> \<exists>k<len. byte_at slots (off + k) = None)"
  using assms
proof (induction slots arbitrary: out slots' r)
  case Nil
  then show ?case by auto
next
  case (Cons s slots)
  define lo where "lo = max off (fs_start s)"
  define hi where "hi = min (off + len) (fs_start s + fs_length s)"
  have ok: "layout_ok slots" and after: "\<forall>t\<in>set slots. fs_start s + fs_length s \<le> fs_start t"
    using Cons.prems(1) by (auto simp: layout_ok_Cons)
  then have only: "\<not> list_ex (holds_byte g) slots" if "holds_byte g s" for g
    using that by (fastforce simp: holds_byte_def list_ex_iff)
  have none_later: "\<exists>k<len. byte_at (s # slots) (off + k) = None" if "\<exists>k<len. byte_at slots (off + k) = None"
  proof -
    from that obtain k where k: "k < len" "byte_at slots (off + k) = None" by blast
    then have "\<not> holds_byte (off + k) s" using only [of "off + k"] uncovered [of slots "off + k"] by (auto simp: list_ex_iff)
    with k show ?thesis by (auto simp: byte_at_Cons)
  qed
  show ?case
  proof (cases "lo \<ge> hi \<or> fs_padding s")
    case True
    then have nh: "\<not> holds_byte (off + k) s" if "k < len" for k
      using that by (auto simp: holds_byte_def lo_def hi_def)
    obtain t where t: "rw read_span off len slots out = (t, r)" "slots' = s # t"
      using Cons.prems(3) True by (auto simp: lo_def hi_def Let_def split: prod.splits)
    from Cons.IH [OF ok Cons.prems(2) t(1)] t(2) nh none_later show ?thesis
      by (auto simp: byte_at_Cons split: sum.splits)
  next
    case False
    have st: "fs_start s \<le> lo" "off \<le> lo" "lo < hi" "hi \<le> off + len" "\<not> fs_padding s" using False by (auto simp: lo_def hi_def)
    have iff: "holds_byte (off + k) s \<longleftrightarrow> lo \<le> off + k \<and> off + k < hi" if "k < len" for k
      using that st(5) by (auto simp: holds_byte_def lo_def hi_def)
    show ?thesis
    proof (cases "lo - fs_start s + (hi - lo) \<le> length (fs_data s)")
      case fits: True
      define out1 where "out1 = take (lo - off) out @ take (hi - lo) (drop (lo - fs_start s) (fs_data s)) @ drop (hi - off) out"
      have len1: "length out1 = len" using st fits Cons.prems(2) by (simp add: out1_def)
      have "hi - off - (lo - off) = hi - lo" using st by simp
      then have "read_span (fs_data s) (lo - fs_start s) (lo - off) (hi - off) out = Ok (fs_data s, out1)"
        using fits by (simp add: read_span_def file_read_def out1_def)
      then obtain t where t: "rw read_span off len slots out1 = (t, r)" "slots' = s # t"
        using Cons.prems(3) False by (auto simp: lo_def [symmetric] hi_def [symmetric] Let_def split: prod.splits)
      have o1: "out1 ! k = (if holds_byte (off + k) s then fs_data s ! (off + k - fs_start s) else out ! k)" if "k < len" for k
      proof -
        define mid where "mid = take (hi - lo) (drop (lo - fs_start s) (fs_data s))"
        have m: "length mid = hi - lo" "length (take (lo - off) out) = lo - off"
          using fits st Cons.prems(2) by (simp_all add: mid_def)
        have o: "out1 = take (lo - off) out @ mid @ drop (hi - off) out" by (simp add: out1_def mid_def)
        consider "k < lo - off" | "lo - off \<le> k" "k < hi - off" | "hi - off \<le> k" by linarith
        then show ?thesis
        proof cases
          case 1
          then have "\<not> holds_byte (off + k) s" using iff [OF that] by auto
          with 1 m show ?thesis by (simp add: o nth_append)
        next
          case 2
          then have h: "holds_byte (off + k) s" "k - (lo - off) < hi - lo" using iff [OF that] st by auto
          have "out1 ! k = mid ! (k - (lo - off))" using 2 m h by (simp add: o nth_append)
          also have "\<dots> = fs_data s ! (lo - fs_start s + (k - (lo - off)))" using h(2) fits by (simp add: mid_def)
          also have "lo - fs_start s + (k - (lo - off)) = off + k - fs_start s" using 2 st by auto
          finally show ?thesis using h by simp
        next
          case 3
          then have nh: "\<not> holds_byte (off + k) s" and e: "\<not> k < lo - off" "\<not> k - (lo - off) < hi - lo"
            "k - (lo - off) - (hi - lo) = k - (hi - off)" using iff [OF that] st by auto
          have "out1 ! k = drop (hi - off) out ! (k - (hi - off))" unfolding o nth_append m using e by (simp only: if_False)
          with nh 3 Cons.prems(2) that st show ?thesis by simp
        qed
      qed
      have sb: "slot_byte s (off + k) = Some (fs_data s ! (off + k - fs_start s))" if "k < len" "holds_byte (off + k) s" for k
        using that iff [OF that(1)] fits st by (auto simp: slot_byte_def)
      from Cons.IH [OF ok len1 t(1)] t(2) none_later show ?thesis
        using o1 sb only by (auto simp: byte_at_Cons split: sum.splits)
    next
      case short: False
      have "r = Err (Io IoUnexpectedEof)" "slots' = s # slots"
        using Cons.prems(3) False short st
        by (auto simp: lo_def [symmetric] hi_def [symmetric] Let_def read_span_def file_read_def)
      moreover have "byte_at (s # slots) (off + (hi - 1 - off)) = None"
        using iff [of "hi - 1 - off"] short st by (auto simp: byte_at_Cons slot_byte_def)
      moreover have "hi - 1 - off < len" using st by simp
      ultimately show ?thesis by auto
    qed
  qed
qed

text \<open>Reading is all or nothing, byte by byte.\<close>

lemma read_at_spec:
  assumes "layout_ok (st_files st)"
  shows "read_at st off len = Ok bs \<longleftrightarrow> length bs = len \<and> (\<forall>k<len. byte_at (st_files st) (off + k) = Some (bs ! k))"
proof -
  obtain slots' r where r: "rw read_span off len (st_files st) (replicate len 0) = (slots', r)" by fastforce
  note spec = rw_read [OF assms _ r, simplified]
  have zero: "byte_at (st_files st) g = Some 0" if "\<not> list_ex (holds_byte g) (st_files st)" for g
    using that by (intro uncovered) (simp add: list_ex_iff)
  show ?thesis
  proof (cases r)
    case (Inl e)
    with spec r show ?thesis by (auto simp: read_at_def)
  next
    case (Inr out)
    have o: "length out = len" "\<forall>k<len. byte_at (st_files st) (off + k) = Some (out ! k)"
      using spec Inr zero by (auto split: if_splits)
    have "out = bs" if "length bs = len" "\<forall>k<len. byte_at (st_files st) (off + k) = Some (bs ! k)"
      using that o by (intro nth_equalityI) auto
    with Inr r o show ?thesis by (auto simp: read_at_def)
  qed
qed

section \<open>Verified pieces\<close>

text \<open>Every piece marked complete reads back whole and hashes to its entry in the table.\<close>

definition verified :: "(bytes \<Rightarrow> bytes) \<Rightarrow> storage \<Rightarrow> bool" where
  "verified sha1 st \<longleftrightarrow> (\<forall>i. st_has st i \<longrightarrow>
     (\<exists>bs. read_at st (piece_length st * i) (piece_size st i) = Ok bs \<and> sha1 bs = st_hashes st ! i))"

text \<open>The shape of a full (not windowed) store whose files are all real and fill the byte space.\<close>

definition full_store :: "storage \<Rightarrow> bool" where
  "full_store st \<longleftrightarrow> layout_ok (st_files st) \<and> 0 < piece_length st \<and> bf_ok (st_have st) \<and> bf_len (st_have st) = num_pieces st \<and>
     (\<forall>g < st_total st. list_ex (holds_byte g) (st_files st))"

lemma piece_range: "k < piece_size st i \<Longrightarrow> piece_length st * i + k < st_total st"
  by (auto simp: piece_size_def)

lemma pieces_disjoint:
  assumes "i \<noteq> j" "k < piece_size st i"
  shows "\<not> (piece_length st * j \<le> piece_length st * i + k \<and> piece_length st * i + k < piece_length st * j + piece_size st j)"
proof -
  have k: "k < piece_length st" "piece_size st j \<le> piece_length st" using assms(2) by (simp_all add: piece_size_def)
  consider "i < j" | "j < i" using assms(1) by linarith
  then show ?thesis
  proof cases
    case 1
    then have "piece_length st * i + piece_length st \<le> piece_length st * j"
      using mult_le_mono2 [of "Suc i" j "piece_length st"] by simp
    with k show ?thesis by linarith
  next
    case 2
    then have "piece_length st * j + piece_length st \<le> piece_length st * i"
      using mult_le_mono2 [of "Suc j" i "piece_length st"] by simp
    with k show ?thesis by linarith
  qed
qed

lemma layout_ok_same: "list_all2 same_slot slots slots' \<Longrightarrow> layout_ok slots = layout_ok slots'"
  by (auto simp: layout_ok_def sorted_wrt_iff_nth_less list_all2_conv_all_nth same_slot_def)

lemma list_ex_holds_same: "list_all2 same_slot slots slots' \<Longrightarrow> list_ex (holds_byte g) slots = list_ex (holds_byte g) slots'"
  by (induction rule: list_all2_induct) (simp_all add: holds_byte_same)

lemma write_piece_OkD:
  assumes "write_piece sha1 st i dat = (st', Ok True)" "layout_ok (st_files st)"
  shows "i < num_pieces st" "length dat = piece_size st i" "sha1 dat = st_hashes st ! i"
    "\<exists>slots'. wrote (piece_length st * i) dat (st_files st) slots' \<and>
       st' = st\<lparr>st_files := slots', st_have := bf_set (st_have st) i\<rparr>"
proof -
  from rw_write [OF assms(2), of dat "piece_length st * i"] obtain slots' where
    w: "rw (write_span dat) (piece_length st * i) (length dat) (st_files st) () = (slots', Ok ())"
    "wrote (piece_length st * i) dat (st_files st) slots'" by blast
  show "i < num_pieces st" "length dat = piece_size st i" "sha1 dat = st_hashes st ! i"
    "\<exists>slots'. wrote (piece_length st * i) dat (st_files st) slots' \<and>
       st' = st\<lparr>st_files := slots', st_have := bf_set (st_have st) i\<rparr>"
    using assms(1) w by (auto simp: write_piece_def Let_def split: if_splits)
qed

lemma write_piece_not_True:
  assumes "write_piece sha1 st i dat = (st', r)" "r \<noteq> Ok True" "layout_ok (st_files st)"
  shows "st' = st"
  using assms rw_write [OF assms(3), of dat "piece_length st * i"] by (auto simp: write_piece_def Let_def split: if_splits)

lemma write_piece_reads_back:
  assumes "full_store st" "write_piece sha1 st i dat = (st', Ok True)"
  shows "full_store st'" "read_at st' (piece_length st * i) (piece_size st i) = Ok dat"
    "\<And>j bs. j \<noteq> i \<Longrightarrow> read_at st (piece_length st * j) (piece_size st j) = Ok bs \<Longrightarrow>
       read_at st' (piece_length st * j) (piece_size st j) = Ok bs"
    "st_has st' j \<longleftrightarrow> j = i \<or> st_has st j"
proof -
  have lay: "layout_ok (st_files st)" using assms(1) by (simp add: full_store_def)
  note d = write_piece_OkD [OF assms(2) lay]
  from d(4) obtain slots' where w: "wrote (piece_length st * i) dat (st_files st) slots'"
    and st': "st' = st\<lparr>st_files := slots', st_have := bf_set (st_have st) i\<rparr>" by blast
  have same: "list_all2 same_slot (st_files st) slots'" using w by (simp add: wrote_def)
  have lay': "layout_ok (st_files st')" using lay layout_ok_same [OF same] by (simp add: st')
  show "full_store st'"
    using assms(1) lay' list_ex_holds_same [OF same] d(1)
    by (auto simp: full_store_def st' num_pieces_def bf_set_laws)
  have ps: "piece_size st' j = piece_size st j" for j by (simp add: st' piece_size_def)
  show "read_at st' (piece_length st * i) (piece_size st i) = Ok dat"
    unfolding read_at_spec [OF lay']
  proof (intro conjI allI impI)
    fix k assume k: "k < piece_size st i"
    have "list_ex (holds_byte (piece_length st * i + k)) (st_files st)"
      using assms(1) piece_range [OF k] by (simp add: full_store_def)
    then show "byte_at (st_files st') (piece_length st * i + k) = Some (dat ! k)"
      using w k d(2) by (simp add: wrote_def st')
  qed (rule d(2))
  show "read_at st' (piece_length st * j) (piece_size st j) = Ok bs"
    if j: "j \<noteq> i" "read_at st (piece_length st * j) (piece_size st j) = Ok bs" for j bs
  proof -
    have "byte_at slots' (piece_length st * j + k) = byte_at (st_files st) (piece_length st * j + k)"
      if k: "k < piece_size st j" for k
    proof -
      have "byte_at (st_files st) (piece_length st * j + k) \<noteq> None"
        using j(2) k by (simp add: read_at_spec [OF lay])
      moreover have "\<not> (piece_length st * i \<le> piece_length st * j + k \<and> piece_length st * j + k < piece_length st * i + length dat)"
        using pieces_disjoint [OF j(1) k] d(2) by simp
      ultimately show ?thesis using w by (simp add: wrote_def)
    qed
    with j(2) show ?thesis unfolding read_at_spec [OF lay'] read_at_spec [OF lay] by (simp add: st')
  qed
  show "st_has st' j \<longleftrightarrow> j = i \<or> st_has st j"
    using assms(1) d(1) by (auto simp: st_has_def st' bf_set_laws full_store_def)
qed

lemma st_create_full:
  assumes "st_create disk layout plen hashes = Ok st"
  shows "full_store st" "\<not> st_has st i"
proof -
  have slots: "layout_ok slots \<and> start \<le> tot \<and> (\<forall>s\<in>set slots. start \<le> fs_start s) \<and>
      (\<forall>g. start \<le> g \<longrightarrow> g < tot \<longrightarrow> list_ex (holds_byte g) slots)"
    if "layout_slots disk start layout = Ok (slots, tot)" for start slots tot
    using that
  proof (induction layout arbitrary: start slots)
    case (Cons e layout)
    obtain path len where e: "e = (path, len)" by (cases e)
    from Cons.prems obtain rest where
      r: "layout_slots disk (start + len) layout = Ok (rest, tot)"
      "slots = \<lparr>fs_path = path, fs_length = len, fs_start = start, fs_data = disk path, fs_padding = False\<rparr> # rest"
      by (auto simp: e checked_add_u64_def split: if_splits)
    note ih = Cons.IH [OF r(1)]
    have "list_ex (holds_byte g) slots" if g: "start \<le> g" "g < tot" for g
    proof (cases "g < start + len")
      case True
      with g(1) show ?thesis by (simp add: r(2) holds_byte_def)
    next
      case False
      with ih g(2) have "list_ex (holds_byte g) rest" by simp
      then show ?thesis by (simp add: r(2))
    qed
    with ih show ?case by (auto simp: r(2) layout_ok_Cons)
  qed (simp add: layout_ok_def)
  from assms obtain slots tot where "layout_slots disk 0 layout = Ok (slots, tot)"
    "st = \<lparr>piece_length = plen, st_total = tot, st_hashes = hashes, st_files = slots,
            st_have = bf_new (length hashes), st_window = None\<rparr>" "0 < plen"
    by (auto simp: st_create_def split: if_splits)
  with slots [of 0 slots tot] show "full_store st" "\<not> st_has st i"
    by (auto simp: full_store_def num_pieces_def bf_new_laws st_has_def)
qed

lemma fold_marks:
  assumes "bf_ok h"
  shows "bf_ok (fold (\<lambda>i h. if P i then bf_set h i else h) is h) \<and>
    bf_len (fold (\<lambda>i h. if P i then bf_set h i else h) is h) = bf_len h \<and>
    (bf_has (fold (\<lambda>i h. if P i then bf_set h i else h) is h) j \<longleftrightarrow> bf_has h j \<or> j \<in> set is \<and> P j \<and> j < bf_len h)"
  using assms by (induction "is" arbitrary: h) (auto simp: bf_set_laws)

definition piece_good :: "(bytes \<Rightarrow> bytes) \<Rightarrow> storage \<Rightarrow> nat \<Rightarrow> bool" where
  "piece_good sha1 st i =
     (case read_at st (piece_length st * i) (piece_size st i) of Inr buf \<Rightarrow> sha1 buf = st_hashes st ! i | Inl _ \<Rightarrow> False)"

lemma recheck_has: "st_has (recheck sha1 st) i \<longleftrightarrow> i < num_pieces st \<and> piece_good sha1 st i"
proof -
  have step: "(\<lambda>i h. case read_at st (piece_length st * i) (piece_size st i) of
        Inr buf \<Rightarrow> if sha1 buf = st_hashes st ! i then bf_set h i else h | Inl _ \<Rightarrow> h) =
      (\<lambda>i h. if piece_good sha1 st i then bf_set h i else h)"
    by (auto simp: piece_good_def fun_eq_iff split: sum.split)
  show ?thesis
    using fold_marks [OF bf_new_laws(1), of "piece_good sha1 st" "[0..<num_pieces st]" "num_pieces st" i]
    by (auto simp: st_has_def recheck_def step bf_new_laws)
qed

section \<open>Properties\<close>

lemma write_piece_verified:
  assumes "full_store st" "verified sha1 st" "write_piece sha1 st i dat = (st', r)"
  shows "full_store st'" "verified sha1 st'" "r \<noteq> Ok True \<Longrightarrow> st' = st"
proof -
  have "full_store st' \<and> verified sha1 st' \<and> (r \<noteq> Ok True \<longrightarrow> st' = st)"
  proof (cases "r = Ok True")
    case False
    with write_piece_not_True [OF assms(3) False] assms show ?thesis by (simp add: full_store_def)
  next
    case True
    note w = write_piece_reads_back [OF assms(1) assms(3) [unfolded True]]
    have lay: "layout_ok (st_files st)" using assms(1) by (simp add: full_store_def)
    note d = write_piece_OkD [OF assms(3) [unfolded True] lay]
    from d(4) have eq: "piece_length st' = piece_length st" "piece_size st' j = piece_size st j" "st_hashes st' = st_hashes st" for j
      by (auto simp: piece_size_def)
    have "verified sha1 st'" unfolding verified_def eq w(4)
      using w(2,3) d(3) assms(2) by (metis verified_def)
    with True w show ?thesis by simp
  qed
  then show "full_store st'" "verified sha1 st'" "r \<noteq> Ok True \<Longrightarrow> st' = st" by simp_all
qed

text \<open>
  (C32) Only verified data counts as complete: starting from a full store in which every completed
  piece reads back and hashes to its table entry, \<open>write_piece\<close> keeps that true whatever data it is
  given; when it reports success the piece is complete and reads back as the data given, across
  file boundaries, and otherwise the store is unchanged.
\<close>

theorem storage_only_verified:
  assumes "full_store st" "verified sha1 st" "write_piece sha1 st i dat = (st', r)"
  shows "full_store st' \<and> verified sha1 st' \<and>
    (if r = Ok True then st_has st' i \<and> read_at st' (piece_length st * i) (piece_size st i) = Ok dat else st' = st)"
  using assms write_piece_verified [OF assms] write_piece_reads_back(2,4) [OF assms(1), of sha1 i dat st'] by simp

text \<open>
  A re-check trusts only the disk: afterwards a piece is marked complete exactly when its bytes
  are all present and hash to the table entry, so the verified state is established from
  anything, including a corrupted or truncated directory.
\<close>

theorem recheck_establishes_verified:
  "verified sha1 (recheck sha1 st) \<and>
   (st_has (recheck sha1 st) i \<longleftrightarrow> i < num_pieces st \<and> piece_good sha1 st i)"
proof -
  have "read_at (recheck sha1 st) off len = read_at st off len" "piece_size (recheck sha1 st) j = piece_size st j"
    "piece_length (recheck sha1 st) = piece_length st" "st_hashes (recheck sha1 st) = st_hashes st" for off len j
    by (simp_all add: recheck_def read_at_def piece_size_def)
  then have "verified sha1 (recheck sha1 st)"
    by (auto simp: verified_def recheck_has piece_good_def split: sum.splits)
  with recheck_has show ?thesis by blast
qed

text \<open>
  Seeding serves the right bytes: on a verified store a block request inside a completed piece
  yields exactly that slice of data hashing to the piece's table entry, a request for an
  incomplete piece or past its end is refused.
\<close>

theorem read_block_serves_verified:
  assumes "full_store st" "verified sha1 st"
  shows "if \<not> st_has st i \<or> b + n > piece_size st i then isl (read_block st i b n)
    else \<exists>dat. sha1 dat = st_hashes st ! i \<and> length dat = piece_size st i \<and> read_block st i b n = Ok (take n (drop b dat))"
proof (cases "\<not> st_has st i \<or> b + n > piece_size st i")
  case False
  have lay: "layout_ok (st_files st)" using assms(1) by (simp add: full_store_def)
  from False assms(2) obtain dat where dat: "read_at st (piece_length st * i) (piece_size st i) = Ok dat" "sha1 dat = st_hashes st ! i"
    by (auto simp: verified_def)
  then have d: "length dat = piece_size st i" "\<forall>k<piece_size st i. byte_at (st_files st) (piece_length st * i + k) = Some (dat ! k)"
    by (simp_all add: read_at_spec [OF lay])
  have "read_at st (piece_length st * i + b) n = Ok (take n (drop b dat))"
    unfolding read_at_spec [OF lay] using False d by (auto simp: add.assoc)
  with False dat d show ?thesis by (auto simp: read_block_def)
qed (auto simp: read_block_def)

definition demo_store :: storage where
  "demo_store = \<lparr>piece_length = 2, st_total = 3, st_hashes = [[1, 2], [3]],
     st_files = [\<lparr>fs_path = ''a'', fs_length = 1, fs_start = 0, fs_data = [], fs_padding = False\<rparr>,
                 \<lparr>fs_path = ''b'', fs_length = 2, fs_start = 1, fs_data = [], fs_padding = False\<rparr>],
     st_have = bf_new 2, st_window = None\<rparr>"

lemma demo_store: "full_store demo_store" "verified id demo_store"
proof -
  have c: "st_create (\<lambda>p. []) [(''a'', 1), (''b'', 2)] 2 [[1, 2], [3]] = Ok demo_store"
    by (simp add: st_create_def demo_store_def checked_add_u64_def numeral_2_eq_2)
  show "full_store demo_store" "verified id demo_store" using st_create_full [OF c] by (simp_all add: verified_def)
qed

lemma storage_only_verified_witness:
  "\<exists>st'. write_piece id demo_store 0 [1, 2] = (st', Ok True) \<and> read_at st' 0 2 = Ok [1, 2]"
proof -
  obtain st' r where w: "write_piece id demo_store 0 [1, 2] = (st', r)" by fastforce
  then have "r = Ok True"
    by (simp add: write_piece_def demo_store_def num_pieces_def piece_size_def Let_def write_span_def split: if_splits)
  with storage_only_verified [OF demo_store w] w show ?thesis by (simp add: demo_store_def piece_size_def)
qed

lemma read_block_serves_verified_witness: "isl (read_block demo_store 0 0 1)"
  using read_block_serves_verified [OF demo_store, of 0 0 1] by (simp add: st_has_def demo_store_def bf_new_laws)

end
