(* ===== verification/Bt_Peer.thy ===== *)
theory Bt_Peer
  imports Codec
begin

text \<open>
  The BitTorrent peer wire protocol (\<open>src/src/bittorrent/peer.rs\<close>): the 68-byte handshake and the
  length-prefixed messages, as a codec over a byte stream.
\<close>

section \<open>Handshake\<close>

record handshake =
  reserved :: bytes
  info_hash :: bytes
  peer_id :: bytes

definition PSTR :: bytes where
  "PSTR = as_bytes ''BitTorrent protocol''"

abbreviation perr :: "string \<Rightarrow> error" where
  "perr m \<equiv> BadResponse (''bt peer: '' @ m)"

definition handshake_new :: "bytes \<Rightarrow> bytes \<Rightarrow> handshake" where
  "handshake_new ih pid = \<lparr>reserved = [0, 0, 0, 0, 0, 0x10, 0, 0], info_hash = ih, peer_id = pid\<rparr>"

definition supports_extensions :: "handshake \<Rightarrow> bool" where
  "supports_extensions h \<longleftrightarrow> and (reserved h ! 5) 0x10 \<noteq> 0"

definition write_handshake :: "handshake \<Rightarrow> bytes" where
  "write_handshake h = of_nat (length PSTR) # PSTR @ reserved h @ info_hash h @ peer_id h"

text \<open>\<open>read_exact\<close> of this module: an early end of the stream is \<open>UnexpectedEof\<close>.\<close>

definition read_exact_eof :: "nat \<Rightarrow> bytes \<Rightarrow> (bytes \<times> bytes) result" where
  "read_exact_eof n r =
     (case read_exact n r of Inl k \<Rightarrow> Err (if k = IoUnexpectedEof then UnexpectedEof else Io k) | Inr x \<Rightarrow> Ok x)"

definition read_handshake :: "bytes \<Rightarrow> (handshake \<times> bytes) result" where
  "read_handshake r =
     res_bind (read_exact_eof 68 r) (\<lambda>(b, rest).
       if unat (b ! 0) \<noteq> length PSTR \<or> take 19 (drop 1 b) \<noteq> PSTR then Err (perr ''bad protocol header'')
       else Ok (\<lparr>reserved = take 8 (drop 20 b), info_hash = take 20 (drop 28 b), peer_id = take 20 (drop 48 b)\<rparr>, rest))"

section \<open>Messages\<close>

datatype message =
    KeepAlive
  | Choke
  | Unchoke
  | Interested
  | NotInterested
  | Have u32
  | BitfieldMsg bytes
  | Request u32 u32 u32
  | Piece u32 u32 bytes
  | Cancel u32 u32 u32
  | Port u16
  | Extended byte bytes

abbreviation (input) MAX_MSG_PAYLOAD :: nat where "MAX_MSG_PAYLOAD \<equiv> 1048576"

definition be32 :: "bytes \<Rightarrow> u32 result" where
  "be32 p = (if length p < 4 then Err (perr ''short u32 payload'') else Ok (u32_from_be_bytes (take 4 p)))"

definition three_be32 :: "bytes \<Rightarrow> (u32 \<times> u32 \<times> u32) result" where
  "three_be32 p =
     (if length p < 12 then Err (perr ''short request/cancel payload'')
      else Ok (u32_from_be_bytes (take 4 p), u32_from_be_bytes (take 4 (drop 4 p)), u32_from_be_bytes (take 4 (drop 8 p))))"

definition parse_message :: "byte \<Rightarrow> bytes \<Rightarrow> message result" where
  "parse_message i p =
     (if i = 0 then Ok Choke
      else if i = 1 then Ok Unchoke
      else if i = 2 then Ok Interested
      else if i = 3 then Ok NotInterested
      else if i = 4 then res_bind (be32 p) (\<lambda>n. Ok (Have n))
      else if i = 5 then Ok (BitfieldMsg p)
      else if i = 6 then res_bind (three_be32 p) (\<lambda>(a, b, l). Ok (Request a b l))
      else if i = 7 then
        if length p < 8 then Err (perr ''short piece message'')
        else res_bind (be32 (take 4 p)) (\<lambda>index. res_bind (be32 (take 4 (drop 4 p))) (\<lambda>begin0.
          Ok (Piece index begin0 (drop 8 p))))
      else if i = 8 then res_bind (three_be32 p) (\<lambda>(a, b, l). Ok (Cancel a b l))
      else if i = 9 then
        if length p < 2 then Err (perr ''short port message'') else Ok (Port (u16_from_be_bytes (take 2 p)))
      else if i = 20 then
        (case p of [] \<Rightarrow> Err (perr ''empty extended message'') | e # pl \<Rightarrow> Ok (Extended e pl))
      else Err (perr ''unknown message id''))"

definition read_message :: "bytes \<Rightarrow> (message \<times> bytes) result" where
  "read_message r =
     res_bind (read_exact_eof 4 r) (\<lambda>(len_buf, r1).
       let len = unat (u32_from_be_bytes len_buf)
       in if len = 0 then Ok (KeepAlive, r1)
          else if len > MAX_MSG_PAYLOAD then Err (perr ''message too large'')
          else res_bind (read_exact_eof len r1) (\<lambda>(body, r2).
            res_bind (parse_message (body ! 0) (drop 1 body)) (\<lambda>msg. Ok (msg, r2))))"

definition header :: "byte \<Rightarrow> nat \<Rightarrow> bytes" where
  "header i payload_len = u32_to_be_bytes (of_nat (1 + payload_len)) @ [i]"

definition msg_frame :: "byte \<Rightarrow> bytes \<Rightarrow> bytes" where
  "msg_frame i pl = header i (length pl) @ pl"

definition three :: "u32 \<Rightarrow> u32 \<Rightarrow> u32 \<Rightarrow> bytes" where
  "three a b c = u32_to_be_bytes a @ u32_to_be_bytes b @ u32_to_be_bytes c"

definition write_message :: "message \<Rightarrow> bytes" where
  "write_message msg =
     (case msg of
        KeepAlive \<Rightarrow> u32_to_be_bytes 0
      | Choke \<Rightarrow> msg_frame 0 []
      | Unchoke \<Rightarrow> msg_frame 1 []
      | Interested \<Rightarrow> msg_frame 2 []
      | NotInterested \<Rightarrow> msg_frame 3 []
      | Have n \<Rightarrow> msg_frame 4 (u32_to_be_bytes n)
      | BitfieldMsg b \<Rightarrow> msg_frame 5 b
      | Request a b l \<Rightarrow> msg_frame 6 (three a b l)
      | Piece index begin0 block \<Rightarrow>
          header 7 (8 + length block) @ u32_to_be_bytes index @ u32_to_be_bytes begin0 @ block
      | Cancel a b l \<Rightarrow> msg_frame 8 (three a b l)
      | Port p \<Rightarrow> msg_frame 9 (u16_to_be_bytes p)
      | Extended e pl \<Rightarrow> header 20 (1 + length pl) @ e # pl)"

text \<open>The messages the reader's size limit admits.\<close>

definition message_ok :: "message \<Rightarrow> bool" where
  "message_ok msg = (case msg of
     BitfieldMsg b \<Rightarrow> length b < MAX_MSG_PAYLOAD
   | Piece _ _ block \<Rightarrow> 9 + length block \<le> MAX_MSG_PAYLOAD
   | Extended _ pl \<Rightarrow> 2 + length pl \<le> MAX_MSG_PAYLOAD
   | _ \<Rightarrow> True)"

section \<open>The codec laws\<close>

lemma read_exact_eof_append [simp]: "length xs = n \<Longrightarrow> read_exact_eof n (xs @ r) = Ok (xs, r)"
  by (simp add: read_exact_eof_def)

lemma read_message_header:
  assumes "1 + length pl \<le> MAX_MSG_PAYLOAD" "n = length pl"
  shows "read_message (header i n @ pl @ r) = res_bind (parse_message i pl) (\<lambda>msg. Ok (msg, r))"
proof -
  have "unat (of_nat (1 + n) :: u32) = 1 + n" unfolding unat_of_nat using assms by simp
  then have u: "unat (u32_from_be_bytes (u32_to_be_bytes (of_nat (1 + n)))) = Suc n" by simp
  have a: "read_exact_eof 4 (header i n @ pl @ r) = Ok (u32_to_be_bytes (of_nat (1 + n)), (i # pl) @ r)"
    by (simp add: header_def)
  have b: "read_exact_eof (Suc n) ((i # pl) @ r) = Ok (i # pl, r)"
    using assms(2) by (intro read_exact_eof_append) simp
  show ?thesis
    unfolding read_message_def a res_bind_simps prod.case u Let_def using assms b by simp
qed

lemma three_roundtrip: "three_be32 (three a b c) = Ok (a, b, c)" "length (three a b c) = 12"
  by (simp_all add: three_be32_def three_def)

text \<open>Every message but the keep-alive is an id and a payload.\<close>

fun msg_body :: "message \<Rightarrow> byte \<times> bytes" where
  "msg_body KeepAlive = (0, [])"
| "msg_body Choke = (0, [])"
| "msg_body Unchoke = (1, [])"
| "msg_body Interested = (2, [])"
| "msg_body NotInterested = (3, [])"
| "msg_body (Have n) = (4, u32_to_be_bytes n)"
| "msg_body (BitfieldMsg b) = (5, b)"
| "msg_body (Request a b l) = (6, three a b l)"
| "msg_body (Piece a b block) = (7, u32_to_be_bytes a @ u32_to_be_bytes b @ block)"
| "msg_body (Cancel a b l) = (8, three a b l)"
| "msg_body (Port p) = (9, u16_to_be_bytes p)"
| "msg_body (Extended e pl) = (20, e # pl)"

lemma write_message_body:
  "msg \<noteq> KeepAlive \<Longrightarrow> write_message msg = header (fst (msg_body msg)) (length (snd (msg_body msg))) @ snd (msg_body msg)"
  by (cases msg) (simp_all add: write_message_def msg_frame_def)

lemma parse_message_body:
  "msg \<noteq> KeepAlive \<Longrightarrow> parse_message (fst (msg_body msg)) (snd (msg_body msg)) = Ok msg"
  by (cases msg) (simp_all add: parse_message_def be32_def three_roundtrip)

lemma message_ok_body: "message_ok msg \<longleftrightarrow> 1 + length (snd (msg_body msg)) \<le> MAX_MSG_PAYLOAD"
  by (cases msg) (auto simp: message_ok_def three_roundtrip)

interpretation peer_wire: stream_codec write_message read_message message_ok
proof
  fix msg r
  assume ok: "message_ok msg"
  show "read_message (write_message msg @ r) = Ok (msg, r)"
  proof (cases "msg = KeepAlive")
    case True
    then show ?thesis by (simp add: write_message_def read_message_def)
  next
    case False
    with ok read_message_header [of "snd (msg_body msg)" _ "fst (msg_body msg)" r] show ?thesis
      by (simp add: write_message_body message_ok_body parse_message_body)
  qed
qed

lemma parse_message_size:
  assumes "parse_message i p = Ok msg"
  shows "length (snd (msg_body msg)) \<le> max 12 (length p)"
  using assms
  by (auto simp: parse_message_def be32_def three_be32_def three_roundtrip split: if_splits list.splits)

definition handshake_ok :: "handshake \<Rightarrow> bool" where
  "handshake_ok h \<longleftrightarrow> length (reserved h) = 8 \<and> length (info_hash h) = 20 \<and> length (peer_id h) = 20"

interpretation peer_handshake: stream_codec write_handshake read_handshake handshake_ok
proof
  fix h r
  assume ok: "handshake_ok h"
  have p: "length PSTR = 19" by (simp add: PSTR_def as_bytes_def)
  have "length (write_handshake h) = 68" using ok by (simp add: write_handshake_def handshake_ok_def p)
  then have "read_exact_eof 68 (write_handshake h @ r) = Ok (write_handshake h, r)" by simp
  then show "read_handshake (write_handshake h @ r) = Ok (h, r)"
    using ok by (simp add: read_handshake_def write_handshake_def handshake_ok_def p)
qed

section \<open>Properties\<close>

text \<open>
  The peer conversation is read as it was sent: a handshake followed by any sequence of
  messages within the size limit, written back to back, is read back as that handshake and those
  messages, up to whatever follows on the stream.
\<close>

theorem peer_conversation_roundtrip:
  assumes "handshake_ok h" "list_all message_ok msgs"
  shows "res_bind (read_handshake (write_handshake h @ concat (map write_message msgs) @ r))
      (\<lambda>(h', r1). res_bind (read_n read_message (length msgs) r1) (\<lambda>(ms, r2). Ok (h', ms, r2))) = Ok (h, msgs, r)"
  by (simp add: peer_handshake.dec_enc [OF assms(1)] peer_wire.read_n_concat [OF assms(2)])

lemma peer_conversation_roundtrip_witness:
  "\<exists>r. res_bind (read_handshake (write_handshake (handshake_new (replicate 20 7) (replicate 20 8)) @
        concat (map write_message [Unchoke, KeepAlive, Piece 1 2 [9]]) @ []))
      (\<lambda>(h', r1). res_bind (read_n read_message (length [Unchoke, KeepAlive, Piece 1 2 [9]]) r1) (\<lambda>(ms, r2). Ok (h', ms, r2))) = Ok r"
  using peer_conversation_roundtrip [of "handshake_new (replicate 20 7) (replicate 20 8)" "[Unchoke, KeepAlive, Piece 1 2 [9]]" "[]"]
  by (auto simp: handshake_ok_def handshake_new_def message_ok_def)

end
