(* ===== verification/Bt_Job.thy ===== *)
theory Bt_Job
  imports Bt_Piece Bt_Peer
begin

text \<open>
  Fetching one piece from one peer (\<open>Job\<close> of \<open>src/src/bittorrent/engine.rs\<close>): block requests in a
  sliding window, chokes that void pending requests, and the assembly of the blocks.
\<close>

section \<open>The job\<close>

abbreviation BLOCK_SIZE :: nat where "BLOCK_SIZE \<equiv> 16384"
abbreviation PIPELINE_DEPTH :: nat where "PIPELINE_DEPTH \<equiv> 16"

abbreviation eerr :: "string \<Rightarrow> error" where
  "eerr m \<equiv> BadResponse (''bittorrent: '' @ m)"

record job =
  j_index :: nat
  j_size :: nat
  j_buf :: bytes
  j_requested :: "bool list"
  j_filled :: "bool list"
  j_received :: nat
  j_outstanding :: nat
  j_next :: nat

definition job_new :: "nat \<Rightarrow> nat \<Rightarrow> job result" where
  "job_new index size0 =
     (if size0 > U32_MAX then Err (eerr ''piece larger than 4 GiB is unsupported'')
      else if index > U32_MAX then Err (eerr ''piece index out of range'')
      else (let n = div_ceil size0 BLOCK_SIZE
            in Ok \<lparr>j_index = index, j_size = size0, j_buf = replicate size0 0, j_requested = replicate n False,
                   j_filled = replicate n False, j_received = 0, j_outstanding = 0, j_next = 0\<rparr>))"

definition num_blocks :: "job \<Rightarrow> nat" where
  "num_blocks j = length (j_filled j)"

definition block_len :: "job \<Rightarrow> nat \<Rightarrow> nat" where
  "block_len j bi = min BLOCK_SIZE (j_size j - bi * BLOCK_SIZE)"

definition job_is_done :: "job \<Rightarrow> bool" where
  "job_is_done j \<longleftrightarrow> j_received j = num_blocks j"

definition block_request :: "job \<Rightarrow> nat \<Rightarrow> message" where
  "block_request j bi = Request (of_nat (j_index j)) (of_nat (bi * BLOCK_SIZE)) (of_nat (block_len j bi))"

text \<open>The requests written are returned as the list of block numbers; \<open>block_request\<close> is the message.\<close>

function job_pump :: "job \<Rightarrow> job \<times> nat list" where
  "job_pump j =
     (if j_outstanding j < PIPELINE_DEPTH \<and> j_next j < num_blocks j then
        (let bi = j_next j; j1 = j\<lparr>j_next := bi + 1\<rparr>
         in if j_filled j ! bi \<or> j_requested j ! bi then job_pump j1
            else (let (j2, reqs) = job_pump (j1\<lparr>j_requested := (j_requested j)[bi := True],
                                              j_outstanding := j_outstanding j + 1\<rparr>)
                  in (j2, bi # reqs)))
      else (j, []))"
  by pat_completeness auto
termination
  by (relation "measure (\<lambda>j. num_blocks j - j_next j)") (auto simp: num_blocks_def)

declare job_pump.simps [simp del]

definition on_choke :: "job \<Rightarrow> job" where
  "on_choke j = j\<lparr>j_requested := map2 (\<lambda>r f. if \<not> f then False else r) (j_requested j) (j_filled j),
                  j_outstanding := 0, j_next := 0\<rparr>"

definition on_block :: "job \<Rightarrow> nat \<Rightarrow> bytes \<Rightarrow> job \<times> bool" where
  "on_block j begin0 block =
     (if begin0 mod BLOCK_SIZE \<noteq> 0 then (j, False)
      else (let bi = begin0 div BLOCK_SIZE
            in if bi \<ge> num_blocks j \<or> j_filled j ! bi \<or> length block \<noteq> block_len j bi then (j, False)
               else (j\<lparr>j_buf := take begin0 (j_buf j) @ block @ drop (begin0 + length block) (j_buf j),
                       j_filled := (j_filled j)[bi := True],
                       j_received := j_received j + 1,
                       j_outstanding := (if j_requested j ! bi then j_outstanding j - 1 else j_outstanding j)\<rparr>, True)))"

definition merge_wire_bitfield :: "bitfield \<Rightarrow> bool \<Rightarrow> bytes \<Rightarrow> (bitfield \<times> bool) result" where
  "merge_wire_bitfield b got pl =
     (if got then Err (eerr ''peer sent a second bitfield'')
      else res_bind (ok_or (eerr ''malformed bitfield'') (from_wire pl (bf_len b))) (\<lambda>wire.
        Ok (bf_merge b wire, True)))"

definition check_have :: "u32 \<Rightarrow> nat \<Rightarrow> unit result" where
  "check_have index n = (if unat index \<ge> n then Err (eerr ''have index out of range'') else Ok ())"

section \<open>Invariant\<close>

definition filled_set :: "job \<Rightarrow> nat set" where
  "filled_set j = {i. i < num_blocks j \<and> j_filled j ! i}"

definition pending_set :: "job \<Rightarrow> nat set" where
  "pending_set j = {i. i < num_blocks j \<and> j_requested j ! i \<and> \<not> j_filled j ! i}"

definition job_ok :: "job \<Rightarrow> bool" where
  "job_ok j \<longleftrightarrow> length (j_requested j) = num_blocks j \<and> num_blocks j = div_ceil (j_size j) BLOCK_SIZE \<and>
     length (j_buf j) = j_size j \<and> j_received j = card (filled_set j) \<and> j_outstanding j = card (pending_set j) \<and>
     j_outstanding j \<le> PIPELINE_DEPTH \<and> (\<forall>i < j_next j. i < num_blocks j \<longrightarrow> j_filled j ! i \<or> j_requested j ! i)"

lemma finite_sets [simp]: "finite (filled_set j)" "finite (pending_set j)"
  by (simp_all add: filled_set_def pending_set_def)

lemma job_new_ok: "job_new index sz = Ok j \<Longrightarrow> job_ok j"
  by (auto simp: job_new_def Let_def job_ok_def num_blocks_def filled_set_def pending_set_def split: if_splits)

lemma on_choke_ok:
  assumes "job_ok j"
  shows "job_ok (on_choke j)"
proof -
  have len: "length (j_requested j) = length (j_filled j)" using assms by (simp add: job_ok_def num_blocks_def)
  then have "pending_set (on_choke j) = {}" "filled_set (on_choke j) = filled_set j" "num_blocks (on_choke j) = num_blocks j"
    by (auto simp: pending_set_def filled_set_def on_choke_def num_blocks_def)
  with assms len show ?thesis by (simp add: job_ok_def on_choke_def num_blocks_def)
qed

lemma block_bounds:
  assumes "job_ok j" "bi < num_blocks j"
  shows "bi * BLOCK_SIZE + block_len j bi \<le> j_size j" "0 < block_len j bi"
proof -
  have n: "num_blocks j = div_ceil (j_size j) BLOCK_SIZE" using assms(1) by (simp add: job_ok_def)
  with assms(2) have "0 < j_size j" by (cases "j_size j") auto
  with div_ceil_lower [of BLOCK_SIZE "j_size j"] have "BLOCK_SIZE * (num_blocks j - 1) < j_size j" by (simp add: n)
  moreover have "BLOCK_SIZE * bi \<le> BLOCK_SIZE * (num_blocks j - 1)" using assms(2) by (intro mult_le_mono2) simp
  ultimately have "bi * BLOCK_SIZE < j_size j" by (simp add: mult.commute)
  then show "bi * BLOCK_SIZE + block_len j bi \<le> j_size j" "0 < block_len j bi" by (simp_all add: block_len_def)
qed

lemma on_block_ok:
  assumes "job_ok j" "on_block j b block = (j', stored)"
  shows "job_ok j'"
proof (cases stored)
  case False
  with assms show ?thesis by (auto simp: on_block_def Let_def split: if_splits)
next
  case True
  define bi where "bi = b div BLOCK_SIZE"
  have s: "b mod BLOCK_SIZE = 0" "bi < num_blocks j" "\<not> j_filled j ! bi" "length block = block_len j bi"
    using assms(2) True by (auto simp: on_block_def Let_def bi_def split: if_splits)
  have b: "b = bi * BLOCK_SIZE" using s(1) by (simp add: bi_def) (metis div_mult_mod_eq add_0_right)
  have j': "j' = j\<lparr>j_buf := take b (j_buf j) @ block @ drop (b + length block) (j_buf j),
      j_filled := (j_filled j)[bi := True], j_received := j_received j + 1,
      j_outstanding := (if j_requested j ! bi then j_outstanding j - 1 else j_outstanding j)\<rparr>"
    using assms(2) True s by (auto simp: on_block_def Let_def bi_def split: if_splits)
  have n: "num_blocks j' = num_blocks j" by (simp add: j' num_blocks_def)
  have f: "filled_set j' = insert bi (filled_set j)" "bi \<notin> filled_set j"
    using s(2,3) by (auto simp: filled_set_def n j' nth_list_update num_blocks_def)
  have p: "pending_set j' = pending_set j - {bi}"
    using s(2,3) by (auto simp: pending_set_def n j' nth_list_update num_blocks_def)
  have mem: "bi \<in> pending_set j \<longleftrightarrow> j_requested j ! bi" using s(2,3) by (auto simp: pending_set_def)
  have "length (j_buf j') = j_size j"
    using block_bounds [OF assms(1) s(2)] assms(1) s(4) by (simp add: j' b job_ok_def)
  moreover have "card (pending_set j') = j_outstanding j'"
    unfolding p using assms(1) mem by (simp add: job_ok_def) (simp add: j')
  moreover have "card (filled_set j') = j_received j'" using assms(1) f by (simp add: j' job_ok_def)
  moreover have "j_outstanding j' \<le> PIPELINE_DEPTH" using assms(1) by (auto simp: j' job_ok_def)
  moreover have "\<forall>i < j_next j'. i < num_blocks j' \<longrightarrow> j_filled j' ! i \<or> j_requested j' ! i"
    using assms(1) n s(2) by (auto simp: job_ok_def j' nth_list_update num_blocks_def)
  moreover have "length (j_requested j') = num_blocks j'" "num_blocks j' = div_ceil (j_size j') BLOCK_SIZE" "j_size j' = j_size j"
    using assms(1) n by (simp_all add: job_ok_def j')
  ultimately show ?thesis by (simp add: job_ok_def)
qed

lemma job_pump_spec:
  assumes "job_ok j" "job_pump j = (j', reqs)"
  shows "job_ok j' \<and> filled_set j' = filled_set j \<and> num_blocks j' = num_blocks j \<and> j_size j' = j_size j \<and> j_buf j' = j_buf j \<and>
    distinct reqs \<and> pending_set j' = pending_set j \<union> set reqs \<and> set reqs \<inter> (pending_set j \<union> filled_set j) = {} \<and>
    (\<forall>bi\<in>set reqs. j_next j \<le> bi \<and> bi < num_blocks j) \<and>
    (j_outstanding j' = PIPELINE_DEPTH \<or> num_blocks j' \<le> j_next j')"
  using assms
proof (induction j arbitrary: j' reqs rule: job_pump.induct)
  case (1 j)
  show ?case
  proof (cases "j_outstanding j < PIPELINE_DEPTH \<and> j_next j < num_blocks j")
    case False
    then have "job_pump j = (j, [])" by (subst job_pump.simps) (simp only: if_False)
    then have "j' = j" "reqs = []" using "1.prems"(2) by simp_all
    with False "1.prems"(1) show ?thesis by (auto simp: job_ok_def)
  next
    case True
    define bi where "bi = j_next j"
    define j1 where "j1 = j\<lparr>j_next := bi + 1\<rparr>"
    have sets1: "filled_set j1 = filled_set j" "pending_set j1 = pending_set j" "num_blocks j1 = num_blocks j"
      by (simp_all add: j1_def filled_set_def pending_set_def num_blocks_def)
    show ?thesis
    proof (cases "j_filled j ! bi \<or> j_requested j ! bi")
      case skip: True
      have "job_ok j1" using "1.prems"(1) skip sets1 by (auto simp: job_ok_def j1_def bi_def less_Suc_eq num_blocks_def)
      moreover have "job_pump j1 = (j', reqs)"
        using "1.prems"(2) True skip by (simp add: job_pump.simps [of j] bi_def j1_def)
      ultimately have ih: "job_ok j' \<and> filled_set j' = filled_set j1 \<and> num_blocks j' = num_blocks j1 \<and> j_size j' = j_size j1 \<and>
        j_buf j' = j_buf j1 \<and> distinct reqs \<and> pending_set j' = pending_set j1 \<union> set reqs \<and>
        set reqs \<inter> (pending_set j1 \<union> filled_set j1) = {} \<and> (\<forall>bi\<in>set reqs. j_next j1 \<le> bi \<and> bi < num_blocks j1) \<and>
        (j_outstanding j' = PIPELINE_DEPTH \<or> num_blocks j' \<le> j_next j')"
        using "1.IH"(1) [OF True bi_def j1_def skip] by blast
      then show ?thesis unfolding sets1 by (auto simp: j1_def bi_def)
    next
      case take: False
      define j2 where "j2 = j1\<lparr>j_requested := (j_requested j)[bi := True], j_outstanding := j_outstanding j + 1\<rparr>"
      obtain reqs' where r: "job_pump j2 = (j', reqs')" "reqs = bi # reqs'"
        using "1.prems"(2) True take by (auto simp: job_pump.simps [of j] bi_def j1_def j2_def Let_def split: prod.splits)
      have bn: "bi < num_blocks j" "length (j_requested j) = num_blocks j" using True "1.prems"(1) by (simp_all add: bi_def job_ok_def)
      have sets2: "filled_set j2 = filled_set j" "pending_set j2 = insert bi (pending_set j)" "num_blocks j2 = num_blocks j" "bi \<notin> pending_set j" "bi \<notin> filled_set j"
        using take bn by (auto simp: j2_def j1_def filled_set_def pending_set_def num_blocks_def nth_list_update)
      have "\<forall>i < j_next j2. i < num_blocks j2 \<longrightarrow> j_filled j2 ! i \<or> j_requested j2 ! i"
        using "1.prems"(1) bn by (auto simp: job_ok_def j2_def j1_def bi_def less_Suc_eq num_blocks_def nth_list_update)
      then have ok2: "job_ok j2"
        using "1.prems"(1) True sets2 by (simp add: job_ok_def) (simp add: j2_def j1_def)
      have ih: "job_ok j' \<and> filled_set j' = filled_set j2 \<and> num_blocks j' = num_blocks j2 \<and> j_size j' = j_size j2 \<and>
        j_buf j' = j_buf j2 \<and> distinct reqs' \<and> pending_set j' = pending_set j2 \<union> set reqs' \<and>
        set reqs' \<inter> (pending_set j2 \<union> filled_set j2) = {} \<and> (\<forall>bi\<in>set reqs'. j_next j2 \<le> bi \<and> bi < num_blocks j2) \<and>
        (j_outstanding j' = PIPELINE_DEPTH \<or> num_blocks j' \<le> j_next j')"
        using "1.IH"(2) [OF True bi_def j1_def take ok2 [unfolded j2_def] r(1) [unfolded j2_def]] unfolding j2_def .
      then show ?thesis unfolding sets2(1-3) r(2) using sets2(4,5) bn by (auto simp: j2_def j1_def bi_def)
    qed
  qed
qed

section \<open>Properties\<close>

text \<open>
  Pumping keeps a window of at most sixteen requests in flight, asks only for blocks inside the piece that
  are neither stored nor pending, never asks twice, and never stalls: as long as the piece is incomplete, at
  least one request is pending afterwards.
\<close>

theorem job_pump_window:
  assumes "job_ok j" "job_pump j = (j', reqs)"
  shows "job_ok j' \<and> j_outstanding j' \<le> PIPELINE_DEPTH \<and> distinct reqs \<and> (\<not> job_is_done j' \<longrightarrow> 0 < j_outstanding j') \<and>
    (\<forall>bi\<in>set reqs. bi \<notin> filled_set j \<and> bi \<notin> pending_set j \<and> 0 < block_len j bi \<and> bi * BLOCK_SIZE + block_len j bi \<le> j_size j)"
proof -
  note spec = job_pump_spec [OF assms]
  have "0 < j_outstanding j'" if "\<not> job_is_done j'"
  proof -
    have ok: "job_ok j'" using spec by simp
    have "filled_set j' \<noteq> {..<num_blocks j'}" using that ok by (auto simp: job_is_done_def job_ok_def)
    then obtain i where i: "i < num_blocks j'" "\<not> j_filled j' ! i" by (auto simp: filled_set_def)
    have "i \<in> pending_set j'" if "num_blocks j' \<le> j_next j'"
    proof -
      have "i < j_next j'" using i(1) that by simp
      moreover have "\<forall>i < j_next j'. i < num_blocks j' \<longrightarrow> j_filled j' ! i \<or> j_requested j' ! i" using ok by (simp add: job_ok_def)
      ultimately show ?thesis using i by (auto simp: pending_set_def)
    qed
    then have "num_blocks j' \<le> j_next j' \<Longrightarrow> 0 < card (pending_set j')" by (metis card_gt_0_iff finite_sets(2) empty_iff)
    with spec ok show ?thesis by (auto simp: job_ok_def)
  qed
  moreover have "0 < block_len j bi \<and> bi * BLOCK_SIZE + block_len j bi \<le> j_size j" if "bi \<in> set reqs" for bi
    using block_bounds [OF assms(1), of bi] spec that by simp
  ultimately show ?thesis using spec by (auto simp: job_ok_def)
qed

theorem job_pump_window_witness:
  "\<exists>j j' reqs. job_new 0 40000 = Ok j \<and> job_pump j = (j', reqs) \<and> distinct reqs \<and> 0 < j_outstanding j'"
proof -
  obtain j where j: "job_new 0 40000 = Ok j" by (simp add: job_new_def Let_def)
  obtain j' reqs where p: "job_pump j = (j', reqs)" by (metis surj_pair)
  note w = job_pump_window [OF job_new_ok [OF j] p]
  have "num_blocks j = 3" "filled_set j = {}"
    using j by (auto simp: job_new_def Let_def num_blocks_def filled_set_def div_ceil_def)
  with job_pump_spec [OF job_new_ok [OF j] p] have "\<not> job_is_done j'" by (auto simp: job_is_done_def job_ok_def)
  with j p w show ?thesis by blast
qed

text \<open>What a worker does to its job: it pumps requests, a choke arrives, a block arrives.\<close>

datatype job_event = EvPump | EvChoke | EvBlock nat bytes

fun job_step :: "job_event \<Rightarrow> job \<Rightarrow> job" where
  "job_step EvPump j = fst (job_pump j)"
| "job_step EvChoke j = on_choke j"
| "job_step (EvBlock b block) j = fst (on_block j b block)"

fun genuine :: "bytes \<Rightarrow> job_event \<Rightarrow> bool" where
  "genuine content (EvBlock b block) \<longleftrightarrow> block = take (length block) (drop b content)"
| "genuine content _ \<longleftrightarrow> True"

definition job_matches :: "bytes \<Rightarrow> job \<Rightarrow> bool" where
  "job_matches content j \<longleftrightarrow> job_ok j \<and> j_size j = length content \<and>
     (\<forall>k < j_size j. k div BLOCK_SIZE \<in> filled_set j \<longrightarrow> j_buf j ! k = content ! k)"

lemma job_pump_matches: "job_matches content j \<Longrightarrow> job_matches content (fst (job_pump j))"
  using job_pump_spec [of j "fst (job_pump j)" "snd (job_pump j)"] by (auto simp: job_matches_def)

lemma on_choke_matches: "job_matches content j \<Longrightarrow> job_matches content (on_choke j)"
  using on_choke_ok [of j] by (auto simp: job_matches_def on_choke_def filled_set_def num_blocks_def)

lemma on_block_matches:
  assumes "job_matches content j" "genuine content (EvBlock b block)"
  shows "job_matches content (fst (on_block j b block))"
proof (cases "snd (on_block j b block)")
  case False
  with assms show ?thesis by (auto simp: on_block_def Let_def split: if_splits)
next
  case True
  define j' bi where "j' = fst (on_block j b block)" and "bi = b div BLOCK_SIZE"
  have ok: "job_ok j" and size: "j_size j = length content" using assms(1) by (simp_all add: job_matches_def)
  have s: "b mod BLOCK_SIZE = 0" "bi < num_blocks j" "length block = block_len j bi"
    using True by (auto simp: on_block_def Let_def bi_def split: if_splits)
  have b: "b = bi * BLOCK_SIZE" using s(1) by (simp add: bi_def) (metis div_mult_mod_eq add_0_right)
  note bnd = block_bounds [OF ok s(2)]
  have j': "j_buf j' = take b (j_buf j) @ block @ drop (b + length block) (j_buf j)" "j_size j' = j_size j"
    "filled_set j' = insert bi (filled_set j)"
    using True s(2) by (auto simp: on_block_def Let_def j'_def bi_def filled_set_def num_blocks_def nth_list_update split: if_splits)
  have blk: "block ! i = content ! (b + i)" if "i < length block" for i
  proof -
    have "block ! i = take (length block) (drop b content) ! i" using assms(2) by simp
    also have "\<dots> = content ! (b + i)" using that bnd s(3) b size by simp
    finally show ?thesis .
  qed
  have "j_buf j' ! k = content ! k" if k: "k < j_size j" "k div BLOCK_SIZE \<in> insert bi (filled_set j)" for k
  proof (cases "b \<le> k \<and> k < b + length block")
    case True
    then have "j_buf j' ! k = block ! (k - b)" using k(1) ok by (auto simp: j' nth_append job_ok_def min_def)
    moreover have "k - b < length block" "b + (k - b) = k" using True by linarith+
    ultimately show ?thesis using blk [of "k - b"] by simp
  next
    case False
    have "k div BLOCK_SIZE \<noteq> bi"
    proof
      assume "k div BLOCK_SIZE = bi"
      then have "k = b + k mod BLOCK_SIZE" unfolding b by (metis div_mult_mod_eq)
      moreover have "k mod BLOCK_SIZE < BLOCK_SIZE" by simp
      ultimately have "b \<le> k" "k < b + BLOCK_SIZE" by linarith+
      with False s(3) k(1) b show False by (simp add: block_len_def)
    qed
    with k assms(1) have "j_buf j ! k = content ! k" by (simp add: job_matches_def)
    moreover have "j_buf j' ! k = j_buf j ! k"
      using False k(1) ok bnd s(3) b by (auto simp: j' nth_append job_ok_def min_def)
    ultimately show ?thesis by simp
  qed
  moreover have "job_ok j'" using on_block_ok [OF ok, of b block j' True] True by (simp add: j'_def prod_eq_iff)
  ultimately show ?thesis using size by (simp add: job_matches_def j'_def [symmetric] j')
qed

lemma job_run_matches:
  "job_matches content j \<Longrightarrow> (\<forall>e\<in>set evs. genuine content e) \<Longrightarrow> job_matches content (fold job_step evs j)"
proof (induction evs arbitrary: j)
  case (Cons e evs)
  then have "job_matches content (job_step e j)"
    using job_pump_matches on_choke_matches on_block_matches by (cases e) auto
  with Cons show ?case by simp
qed simp

text \<open>
  (C33) Assembly: however pumps, chokes and block arrivals interleave, and whatever mis-sized, unaligned or repeated
  blocks a peer sends, a job that reports completion holds exactly the content the blocks were cut from.
\<close>

theorem job_assembles_piece:
  assumes "job_new index (length content) = Ok j" "\<forall>e\<in>set evs. genuine content e" "job_is_done (fold job_step evs j)"
  shows "j_buf (fold job_step evs j) = content"
proof -
  define j' where "j' = fold job_step evs j"
  have "job_matches content j"
    using job_new_ok [OF assms(1)] assms(1)
    by (auto simp: job_matches_def job_new_def Let_def filled_set_def num_blocks_def split: if_splits)
  then have m: "job_matches content j'" unfolding j'_def using assms(2) by (rule job_run_matches)
  then have ok: "job_ok j'" "j_size j' = length content" by (simp_all add: job_matches_def)
  have "filled_set j' \<subseteq> {..<num_blocks j'}" "card (filled_set j') = num_blocks j'"
    using ok(1) assms(3) by (auto simp: filled_set_def job_ok_def job_is_done_def j'_def)
  then have full: "filled_set j' = {..<num_blocks j'}" by (intro card_subset_eq) simp_all
  have "k div BLOCK_SIZE < num_blocks j'" if "k < j_size j'" for k
  proof -
    have "j_size j' \<le> BLOCK_SIZE * num_blocks j'" using ok(1) div_ceil_upper [of BLOCK_SIZE "j_size j'"] by (simp add: job_ok_def)
    with that show ?thesis by (simp add: less_mult_imp_div_less mult.commute)
  qed
  with m full have "\<forall>k < length content. j_buf j' ! k = content ! k" by (simp add: job_matches_def)
  with ok show ?thesis by (intro nth_equalityI) (simp_all add: job_ok_def j'_def [symmetric])
qed

theorem job_assembles_piece_witness:
  "j_buf (fold job_step [EvBlock 1 [2], EvChoke, EvBlock 0 [1, 2, 3]]
     \<lparr>j_index = 7, j_size = 3, j_buf = [0, 0, 0], j_requested = [False], j_filled = [False], j_received = 0,
      j_outstanding = 0, j_next = 0\<rparr>) = [1, 2, 3]"
proof (rule job_assembles_piece [of 7])
  show "job_new 7 (length [1, 2, 3 :: 8 word]) = Ok \<lparr>j_index = 7, j_size = 3, j_buf = [0, 0, 0], j_requested = [False],
      j_filled = [False], j_received = 0, j_outstanding = 0, j_next = 0\<rparr>"
    by (simp add: job_new_def div_ceil_def)
qed (simp_all add: div_ceil_def on_block_def on_choke_def job_is_done_def num_blocks_def block_len_def)

end
