(* ===== verification/Bt_Swarm.thy ===== *)
theory Bt_Swarm
  imports Bt_Storage Bt_Job "HOL-Library.AList" "HOL-Library.Product_Lexorder"
begin

text \<open>
  The download scheduler (\<open>Swarm\<close> of \<open>src/src/bittorrent/engine.rs\<close>): which joined peer fetches which piece.
  The hash maps and sets of the source are association lists and lists without repetition, whose order stands
  for the unspecified iteration order; \<open>alive\<close> says whose inbox still has a receiver, \<open>now\<close> is the clock, and the
  commands sent to workers are recorded in \<open>sw_sent\<close>.
\<close>

section \<open>State\<close>

abbreviation (input) MAX_STRIKES :: nat where "MAX_STRIKES \<equiv> 3"

record peer_state =
  ps_bf :: bitfield
  ps_piece :: "nat option"
  ps_unchoked :: bool
  ps_strikes :: nat
  ps_bad :: "nat list"
  ps_idle_since :: nat

datatype inbox = Assign nat nat | Stop

datatype to_engine =
    Joined nat bitfield
  | HavePiece nat nat
  | Choked nat
  | Unchoked nat
  | PieceDone nat nat bytes
  | Released nat nat
  | Gone nat

record swarm =
  sw_storage :: storage
  sw_picker :: picker
  sw_peers :: "(nat \<times> peer_state) list"
  sw_assigned :: "nat list"
  sw_max_busy :: nat
  sw_verbosity :: nat
  sw_endgame_announced :: bool
  sw_last_progress :: nat
  sw_sent :: "(nat \<times> inbox) list"

definition get_peer :: "swarm \<Rightarrow> nat \<Rightarrow> peer_state option" where
  "get_peer sw = map_of (sw_peers sw)"

definition put_peer :: "nat \<Rightarrow> peer_state \<Rightarrow> swarm \<Rightarrow> swarm" where
  "put_peer p ps sw = sw\<lparr>sw_peers := AList.update p ps (sw_peers sw)\<rparr>"

definition send_cmd :: "(nat \<Rightarrow> bool) \<Rightarrow> nat \<Rightarrow> inbox \<Rightarrow> swarm \<Rightarrow> swarm" where
  "send_cmd alive p m sw = (if alive p then sw\<lparr>sw_sent := sw_sent sw @ [(p, m)]\<rparr> else sw)"

definition touch :: "nat \<Rightarrow> swarm \<Rightarrow> swarm" where
  "touch now sw = sw\<lparr>sw_last_progress := now\<rparr>"

section \<open>Assigning pieces\<close>

definition busy :: "swarm \<Rightarrow> nat" where
  "busy sw = length (filter (\<lambda>(_, ps). ps_piece ps \<noteq> None) (sw_peers sw))"

definition endgame_pick :: "storage \<Rightarrow> bitfield \<Rightarrow> nat list \<Rightarrow> nat list \<Rightarrow> nat option" where
  "endgame_pick st b in_flight assigned =
     (case filter (\<lambda>i. bf_has b i \<and> \<not> st_has st i) assigned of
        [] \<Rightarrow> None
      | i # r \<Rightarrow> Some (arg_min_list (\<lambda>i. (count_list in_flight i, i)) (i # r)))"

text \<open>The peer's pieces, minus any it already corrupted.\<close>

definition usable :: "peer_state \<Rightarrow> bitfield" where
  "usable ps = fold (\<lambda>i b. bf_unset b i) (ps_bad ps) (ps_bf ps)"

definition in_flight :: "swarm \<Rightarrow> nat list" where
  "in_flight sw = List.map_filter (\<lambda>(_, ps). ps_piece ps) (sw_peers sw)"

text \<open>The piece for a peer, and whether it is fresh (not yet in flight).\<close>

definition choose_piece :: "swarm \<Rightarrow> bitfield \<Rightarrow> nat option \<times> bool" where
  "choose_piece sw b =
     (case pick (sw_picker sw) (st_have (sw_storage sw)) b (set (sw_assigned sw)) of
        Some i \<Rightarrow> (Some i, True)
      | None \<Rightarrow>
          if num_pieces (sw_storage sw) - (bf_count (st_have (sw_storage sw)) + length (sw_assigned sw)) = 0
          then (endgame_pick (sw_storage sw) b (in_flight sw) (sw_assigned sw), False)
          else (None, False))"

definition announce_endgame :: "nat option \<times> bool \<Rightarrow> swarm \<Rightarrow> swarm" where
  "announce_endgame choice sw =
     (if fst choice \<noteq> None \<and> \<not> snd choice \<and> sw_verbosity sw \<ge> 1 \<and> \<not> sw_endgame_announced sw
      then sw\<lparr>sw_endgame_announced := True\<rparr> else sw)"

definition assign :: "(nat \<Rightarrow> bool) \<Rightarrow> nat \<Rightarrow> swarm \<Rightarrow> swarm" where
  "assign alive p sw =
     (if st_is_complete (sw_storage sw) \<or> busy sw \<ge> sw_max_busy sw then sw
      else case get_peer sw p of
          None \<Rightarrow> sw
        | Some ps \<Rightarrow>
            if \<not> ps_unchoked ps \<or> ps_piece ps \<noteq> None then sw
            else (let choice = choose_piece sw (usable ps); sw1 = announce_endgame choice sw
                  in case choice of
                      (None, _) \<Rightarrow> sw1
                    | (Some i, fresh) \<Rightarrow>
                        if alive p then
                          (let sw2 = put_peer p (ps\<lparr>ps_piece := Some i\<rparr>)
                                 (send_cmd alive p (Assign i (piece_size (sw_storage sw) i)) sw1)
                           in if fresh then sw2\<lparr>sw_assigned := List.insert i (sw_assigned sw2)\<rparr> else sw2)
                        else sw1))"

definition idle_ids :: "swarm \<Rightarrow> nat list" where
  "idle_ids sw = sort (map fst (filter (\<lambda>(_, ps). ps_piece ps = None \<and> ps_unchoked ps) (sw_peers sw)))"

definition assign_idle :: "(nat \<Rightarrow> bool) \<Rightarrow> swarm \<Rightarrow> swarm" where
  "assign_idle alive sw = fold (assign alive) (idle_ids sw) sw"

section \<open>Giving pieces back\<close>

definition release :: "nat \<Rightarrow> swarm \<Rightarrow> swarm" where
  "release i sw =
     (if \<not> list_ex (\<lambda>(_, ps). ps_piece ps = Some i) (sw_peers sw)
      then sw\<lparr>sw_assigned := removeAll i (sw_assigned sw)\<rparr> else sw)"

definition clear_piece :: "nat \<Rightarrow> nat \<Rightarrow> nat \<Rightarrow> swarm \<Rightarrow> swarm" where
  "clear_piece now p i sw =
     release i (case get_peer sw p of
         None \<Rightarrow> sw
       | Some ps \<Rightarrow> if ps_piece ps = Some i then put_peer p (ps\<lparr>ps_piece := None, ps_idle_since := now\<rparr>) sw else sw)"

definition forget_peer :: "nat \<Rightarrow> swarm \<Rightarrow> swarm" where
  "forget_peer p sw =
     (case get_peer sw p of
        None \<Rightarrow> sw
      | Some ps \<Rightarrow>
          let sw1 = sw\<lparr>sw_peers := AList.delete p (sw_peers sw), sw_picker := remove_bitfield (sw_picker sw) (ps_bf ps)\<rparr>
          in case ps_piece ps of None \<Rightarrow> sw1 | Some i \<Rightarrow> release i sw1)"

definition gone :: "(nat \<Rightarrow> bool) \<Rightarrow> nat \<Rightarrow> swarm \<Rightarrow> swarm" where
  "gone alive p sw = assign_idle alive (forget_peer p sw)"

definition strike :: "(nat \<Rightarrow> bool) \<Rightarrow> nat \<Rightarrow> nat \<Rightarrow> swarm \<Rightarrow> swarm" where
  "strike alive p i sw =
     (case get_peer sw p of
        None \<Rightarrow> sw
      | Some ps \<Rightarrow>
          let ps1 = ps\<lparr>ps_strikes := ps_strikes ps + 1, ps_bad := List.insert i (ps_bad ps)\<rparr>; sw1 = put_peer p ps1 sw
          in if ps_strikes ps1 \<ge> MAX_STRIKES then gone alive p (send_cmd alive p Stop sw1) else sw1)"

definition evict_idle :: "(nat \<Rightarrow> bool) \<Rightarrow> nat \<Rightarrow> nat \<Rightarrow> swarm \<Rightarrow> swarm" where
  "evict_idle alive now after sw =
     fold (\<lambda>p sw. gone alive p (case get_peer sw p of Some _ \<Rightarrow> send_cmd alive p Stop sw | None \<Rightarrow> sw))
       (map fst (filter (\<lambda>(_, ps). ps_piece ps = None \<and> now - ps_idle_since ps \<ge> after) (sw_peers sw))) sw"

definition stop_all :: "(nat \<Rightarrow> bool) \<Rightarrow> swarm \<Rightarrow> swarm" where
  "stop_all alive sw = fold (\<lambda>(p, _). send_cmd alive p Stop) (sw_peers sw) sw"

section \<open>Events\<close>

definition handle :: "(bytes \<Rightarrow> bytes) \<Rightarrow> (nat \<Rightarrow> bool) \<Rightarrow> nat \<Rightarrow> to_engine \<Rightarrow> swarm \<Rightarrow> swarm \<times> unit result" where
  "handle sha1 alive now ev sw =
     (case ev of
        Joined p b \<Rightarrow>
          (let sw1 = sw\<lparr>sw_picker := add_bitfield (sw_picker sw) b\<rparr>;
               ps = \<lparr>ps_bf = b, ps_piece = None, ps_unchoked = True, ps_strikes = 0, ps_bad = [], ps_idle_since = now\<rparr>
           in (assign alive p (touch now (put_peer p ps sw1)), Ok ()))
      | HavePiece p i \<Rightarrow>
          (case get_peer sw p of
             None \<Rightarrow> (sw, Ok ())
           | Some ps \<Rightarrow>
               if i < bf_len (ps_bf ps) \<and> \<not> bf_has (ps_bf ps) i then
                 (let sw1 = put_peer p (ps\<lparr>ps_bf := bf_set (ps_bf ps) i\<rparr>) sw; sw2 = sw1\<lparr>sw_picker := add_have (sw_picker sw1) i\<rparr>
                  in (if \<not> st_has (sw_storage sw2) i then assign alive p (touch now sw2) else sw2, Ok ()))
               else (sw, Ok ()))
      | Choked p \<Rightarrow>
          (case get_peer sw p of None \<Rightarrow> (sw, Ok ()) | Some ps \<Rightarrow> (put_peer p (ps\<lparr>ps_unchoked := False\<rparr>) sw, Ok ()))
      | Unchoked p \<Rightarrow>
          (case get_peer sw p of
             None \<Rightarrow> (sw, Ok ())
           | Some ps \<Rightarrow> (assign alive p (touch now (put_peer p (ps\<lparr>ps_unchoked := True\<rparr>) sw)), Ok ()))
      | PieceDone p i dat \<Rightarrow>
          (let sw1 = clear_piece now p i sw;
               finish = (\<lambda>s. (assign_idle alive (assign alive p s), Ok ()))
           in if st_has (sw_storage sw1) i then finish sw1
              else (case write_piece sha1 (sw_storage sw1) i dat of
                      (st, Inl e) \<Rightarrow> (sw1\<lparr>sw_storage := st\<rparr>, Err e)
                    | (st, Inr True) \<Rightarrow>
                        finish (touch now (sw1\<lparr>sw_storage := st, sw_assigned := removeAll i (sw_assigned sw1)\<rparr>))
                    | (st, Inr False) \<Rightarrow> finish (strike alive p i (sw1\<lparr>sw_storage := st\<rparr>))))
      | Released p i \<Rightarrow>
          (let sw1 = clear_piece now p i sw;
               sw2 = (case get_peer sw1 p of None \<Rightarrow> sw1 | Some ps \<Rightarrow> put_peer p (ps\<lparr>ps_unchoked := False\<rparr>) sw1)
           in (assign_idle alive sw2, Ok ()))
      | Gone p \<Rightarrow> (gone alive p sw, Ok ()))"

definition swarm_new :: "storage \<Rightarrow> nat \<Rightarrow> nat \<Rightarrow> nat \<Rightarrow> swarm" where
  "swarm_new st max_busy verbosity now =
     \<lparr>sw_storage = st, sw_picker = picker_new (num_pieces st), sw_peers = [], sw_assigned = [], sw_max_busy = max_busy,
      sw_verbosity = verbosity, sw_endgame_announced = False, sw_last_progress = now, sw_sent = []\<rparr>"

end
