(* ===== verification/Bt_Swarm_Inv.thy ===== *)
theory Bt_Swarm_Inv
  imports Bt_Swarm
begin

text \<open>
  The invariant of the download scheduler and its preservation by every operation.
\<close>

section \<open>Who does what\<close>

definition working :: "swarm \<Rightarrow> nat \<Rightarrow> nat set" where
  "working sw i = {p. \<exists>ps. get_peer sw p = Some ps \<and> ps_piece ps = Some i}"

definition busy_set :: "swarm \<Rightarrow> nat set" where
  "busy_set sw = {p. \<exists>ps. get_peer sw p = Some ps \<and> ps_piece ps \<noteq> None}"

definition offers :: "swarm \<Rightarrow> nat \<Rightarrow> nat set" where
  "offers sw i = {p. \<exists>ps. get_peer sw p = Some ps \<and> bf_has (ps_bf ps) i}"

definition peer_ok :: "nat \<Rightarrow> peer_state \<Rightarrow> bool" where
  "peer_ok n ps \<longleftrightarrow> bf_ok (ps_bf ps) \<and> bf_len (ps_bf ps) = n \<and> ps_strikes ps < MAX_STRIKES \<and>
     (\<forall>i. ps_piece ps = Some i \<longrightarrow> bf_has (ps_bf ps) i \<and> i \<notin> set (ps_bad ps))"

definition store_shape :: "storage \<Rightarrow> bool" where
  "store_shape st \<longleftrightarrow> bf_ok (st_have st) \<and> bf_len (st_have st) = num_pieces st"

definition tables_ok :: "swarm \<Rightarrow> bool" where
  "tables_ok sw \<longleftrightarrow> store_shape (sw_storage sw) \<and> distinct (map fst (sw_peers sw)) \<and> distinct (sw_assigned sw) \<and>
     length (sw_peers sw) < 2 ^ 32 \<and> (\<forall>p ps. get_peer sw p = Some ps \<longrightarrow> peer_ok (num_pieces (sw_storage sw)) ps) \<and>
     length (availability (sw_picker sw)) = num_pieces (sw_storage sw) \<and>
     (\<forall>i < num_pieces (sw_storage sw). availability (sw_picker sw) ! i = of_nat (card (offers sw i)))"

text \<open>A piece in flight is missing and some peer fetches it; what a peer fetches is in flight or, in endgame, already here.\<close>

definition work_ok :: "swarm \<Rightarrow> bool" where
  "work_ok sw \<longleftrightarrow> (\<forall>i \<in> set (sw_assigned sw). \<not> st_has (sw_storage sw) i \<and> working sw i \<noteq> {}) \<and>
     (\<forall>i. working sw i \<noteq> {} \<longrightarrow> i \<in> set (sw_assigned sw) \<or> st_has (sw_storage sw) i) \<and>
     card (busy_set sw) \<le> sw_max_busy sw"

definition swarm_ok :: "swarm \<Rightarrow> bool" where
  "swarm_ok sw \<longleftrightarrow> tables_ok sw \<and> work_ok sw"

section \<open>The peer table\<close>

lemma card_map_of_filter:
  "distinct (map fst al) \<Longrightarrow> length (filter (\<lambda>(_, v). Q v) al) = card {k. \<exists>v. map_of al k = Some v \<and> Q v}"
proof (induction al)
  case (Cons e al)
  obtain k v where e: "e = (k, v)" by (cases e)
  let ?S = "{k. \<exists>v. map_of al k = Some v \<and> Q v}"
  have fin: "finite ?S" by (rule finite_subset [of _ "dom (map_of al)"]) (auto simp: finite_dom_map_of)
  have k: "map_of al k = None" using Cons.prems e by (simp add: map_of_eq_None_iff)
  then have "{k'. \<exists>v'. map_of (e # al) k' = Some v' \<and> Q v'} = (if Q v then insert k ?S else ?S)" "k \<notin> ?S"
    by (auto simp: e)
  with Cons fin e show ?case by simp
qed simp

lemma busy_card: "distinct (map fst (sw_peers sw)) \<Longrightarrow> busy sw = card (busy_set sw)"
  unfolding busy_def busy_set_def get_peer_def by (rule card_map_of_filter)

lemma finite_peer_sets [simp]: "finite (working sw i)" "finite (busy_set sw)" "finite (offers sw i)"
  unfolding working_def busy_set_def offers_def get_peer_def
  by (auto intro: finite_subset [OF _ finite_dom_map_of [of "sw_peers sw"]])

lemma get_put_peer [simp]: "get_peer (put_peer p ps sw) = (get_peer sw)(p \<mapsto> ps)"
  by (simp add: get_peer_def put_peer_def update_conv')

lemma put_peer_rest [simp]:
  "sw_storage (put_peer p ps sw) = sw_storage sw" "sw_picker (put_peer p ps sw) = sw_picker sw"
  "sw_assigned (put_peer p ps sw) = sw_assigned sw" "sw_max_busy (put_peer p ps sw) = sw_max_busy sw"
  by (simp_all add: put_peer_def)

lemma length_update: "length (AList.update k v al) = (if k \<in> fst ` set al then length al else Suc (length al))"
  by (induction al) auto

lemma put_peer_keys:
  "distinct (map fst (sw_peers sw)) \<Longrightarrow> distinct (map fst (sw_peers (put_peer p ps sw)))"
  "get_peer sw p = Some ps' \<Longrightarrow> length (sw_peers (put_peer p ps sw)) = length (sw_peers sw)"
  "length (sw_peers (put_peer p ps sw)) \<le> Suc (length (sw_peers sw))"
  by (auto simp: put_peer_def get_peer_def distinct_update length_update dest: map_of_SomeD image_eqI [of _ fst])
    (metis fst_conv image_eqI map_of_SomeD)

lemma put_peer_sets:
  "working (put_peer p ps sw) i = (if ps_piece ps = Some i then insert p (working sw i) else working sw i - {p})"
  "busy_set (put_peer p ps sw) = (if ps_piece ps \<noteq> None then insert p (busy_set sw) else busy_set sw - {p})"
  "offers (put_peer p ps sw) i = (if bf_has (ps_bf ps) i then insert p (offers sw i) else offers sw i - {p})"
  by (auto simp: working_def busy_set_def offers_def split: if_splits)

text \<open>Fields that the invariant does not read.\<close>

lemma get_peer_cong: "sw_peers sw = sw_peers sw' \<Longrightarrow> get_peer sw = get_peer sw'"
  by (simp add: get_peer_def)

lemma swarm_ok_cong:
  assumes "sw_storage sw = sw_storage sw'" "sw_picker sw = sw_picker sw'" "sw_peers sw = sw_peers sw'"
    "sw_assigned sw = sw_assigned sw'" "sw_max_busy sw = sw_max_busy sw'"
  shows "swarm_ok sw = swarm_ok sw'" "tables_ok sw = tables_ok sw'"
  using assms get_peer_cong [OF assms(3)]
  by (simp_all add: swarm_ok_def tables_ok_def work_ok_def working_def busy_set_def offers_def)

lemma swarm_ok_touch [simp]: "swarm_ok (touch now sw) = swarm_ok sw" "tables_ok (touch now sw) = tables_ok sw"
  by (rule swarm_ok_cong; simp add: touch_def)+

lemma swarm_ok_send [simp]: "swarm_ok (send_cmd alive p m sw) = swarm_ok sw" "tables_ok (send_cmd alive p m sw) = tables_ok sw"
  by (rule swarm_ok_cong; simp add: send_cmd_def)+

lemma swarm_ok_announce [simp]: "swarm_ok (announce_endgame c sw) = swarm_ok sw" "tables_ok (announce_endgame c sw) = tables_ok sw"
  by (rule swarm_ok_cong; simp add: announce_endgame_def)+

text \<open>Changing a known peer's record without changing its pieces keeps the tables.\<close>

lemma tables_put_peer:
  assumes "tables_ok sw" "get_peer sw p = Some ps" "ps_bf ps' = ps_bf ps" "peer_ok (num_pieces (sw_storage sw)) ps'"
  shows "tables_ok (put_peer p ps' sw)"
proof -
  have "offers (put_peer p ps' sw) i = offers sw i" for i
    using assms(2,3) by (auto simp: put_peer_sets offers_def)
  with assms put_peer_keys(1) [of sw p ps'] put_peer_keys(2) [of sw p ps ps'] show ?thesis by (auto simp: tables_ok_def)
qed

section \<open>Choosing a piece\<close>

lemma pick_cases:
  "case pick p ours b ex of
     Some i \<Rightarrow> i < length (availability p) \<and> eligible ours b ex i
   | None \<Rightarrow> \<forall>j < length (availability p). \<not> eligible ours b ex j"
  using best_ok_fold [of "availability p" "eligible ours b ex" "length (availability p)"]
  by (auto simp: pick_def best_ok_def split: option.splits)

lemma usable_has:
  assumes "bf_ok (ps_bf ps)"
  shows "bf_has (usable ps) i \<longleftrightarrow> bf_has (ps_bf ps) i \<and> i \<notin> set (ps_bad ps)"
proof -
  have "bf_has (fold (\<lambda>i b. bf_unset b i) bad b) i \<longleftrightarrow> bf_has b i \<and> i \<notin> set bad" if "bf_ok b" for bad b
    using that by (induction bad arbitrary: b) (auto simp: bf_unset_laws)
  with assms show ?thesis by (simp add: usable_def)
qed

lemma endgame_pick_SomeD: "endgame_pick st b fl as = Some i \<Longrightarrow> i \<in> set as \<and> bf_has b i \<and> \<not> st_has st i"
proof -
  assume a: "endgame_pick st b fl as = Some i"
  define cs where "cs = filter (\<lambda>i. bf_has b i \<and> \<not> st_has st i) as"
  from a have "cs \<noteq> [] \<and> i = arg_min_list (\<lambda>i. (count_list fl i, i)) cs"
    by (cases cs) (auto simp: endgame_pick_def cs_def [symmetric])
  then have "i \<in> set cs" by (simp add: arg_min_list_in)
  then show ?thesis by (simp add: cs_def)
qed

lemma choose_pieceD:
  assumes "choose_piece sw b = (Some i, fresh)"
  shows "bf_has b i" "\<not> st_has (sw_storage sw) i" "fresh \<longleftrightarrow> i \<notin> set (sw_assigned sw)"
  using assms pick_cases [of "sw_picker sw" "st_have (sw_storage sw)" b "set (sw_assigned sw)"]
  by (auto simp: choose_piece_def eligible_def st_has_def [symmetric] dest!: endgame_pick_SomeD split: option.splits if_splits)

section \<open>Preservation\<close>

lemma assign_ok:
  assumes "swarm_ok sw"
  shows "swarm_ok (assign alive p sw)"
proof (cases "st_is_complete (sw_storage sw) \<or> busy sw \<ge> sw_max_busy sw")
  case False
  have tok: "tables_ok sw" and wok: "work_ok sw" using assms by (simp_all add: swarm_ok_def)
  have room: "card (busy_set sw) < sw_max_busy sw" using False tok by (simp add: busy_card tables_ok_def)
  show ?thesis
  proof (cases "get_peer sw p")
    case (Some ps)
    show ?thesis
    proof (cases "ps_unchoked ps \<and> ps_piece ps = None \<and> alive p \<and> fst (choose_piece sw (usable ps)) \<noteq> None")
      case True
      obtain i fresh where c: "choose_piece sw (usable ps) = (Some i, fresh)"
        using True by (cases "choose_piece sw (usable ps)") auto
      define ps' where "ps' = ps\<lparr>ps_piece := Some i\<rparr>"
      define sw1 where "sw1 = send_cmd alive p (Assign i (piece_size (sw_storage sw) i)) (announce_endgame (Some i, fresh) sw)"
      define sw2 where "sw2 = put_peer p ps' sw1"
      have eq: "assign alive p sw = (if fresh then sw2\<lparr>sw_assigned := List.insert i (sw_assigned sw2)\<rparr> else sw2)"
        using False Some True c by (simp add: assign_def sw2_def sw1_def ps'_def Let_def)
      have same: "sw_storage sw1 = sw_storage sw" "get_peer sw1 = get_peer sw" "sw_assigned sw1 = sw_assigned sw"
        "sw_max_busy sw1 = sw_max_busy sw" "working sw1 = working sw" "busy_set sw1 = busy_set sw"
        by (simp_all add: sw1_def send_cmd_def announce_endgame_def get_peer_def fun_eq_iff working_def busy_set_def)
      have ok1: "tables_ok sw1" using tok by (simp add: sw1_def)
      have pok: "peer_ok (num_pieces (sw_storage sw)) ps" using tok Some by (simp add: tables_ok_def)
      note ch = choose_pieceD [OF c]
      have "bf_has (ps_bf ps) i \<and> i \<notin> set (ps_bad ps)" using ch(1) usable_has pok by (simp add: peer_ok_def)
      then have "peer_ok (num_pieces (sw_storage sw1)) ps'" using pok by (simp add: ps'_def peer_ok_def same)
      then have tok2: "tables_ok sw2"
        unfolding sw2_def using ok1 Some by (intro tables_put_peer [of _ _ ps]) (simp_all add: ps'_def same)
      have w2: "working sw2 j = (if j = i then insert p (working sw i) else working sw j - {p})" for j
        by (simp add: sw2_def put_peer_sets same ps'_def)
      have b2: "busy_set sw2 = insert p (busy_set sw)" by (simp add: sw2_def put_peer_sets same ps'_def)
      have np: "p \<notin> working sw j" for j using Some True by (simp add: working_def)
      have idle: "p \<notin> busy_set sw" using Some True by (simp add: busy_set_def)
      define sw3 where "sw3 = assign alive p sw"
      have f3: "sw_storage sw3 = sw_storage sw" "set (sw_assigned sw3) = insert i (set (sw_assigned sw))" "sw_max_busy sw3 = sw_max_busy sw"
        "get_peer sw3 = get_peer sw2" "distinct (sw_assigned sw3)" "sw_peers sw3 = sw_peers sw2" "sw_picker sw3 = sw_picker sw2" "sw_storage sw2 = sw_storage sw"
        using ch(3) tok by (auto simp: sw3_def eq sw2_def same get_peer_def tables_ok_def)
      have s3: "working sw3 = working sw2" "busy_set sw3 = busy_set sw2" "offers sw3 = offers sw2"
        using f3(4) by (simp_all add: fun_eq_iff working_def busy_set_def offers_def)
      have "tables_ok sw3" using tok2 f3 s3 by (simp add: tables_ok_def)
      moreover have "work_ok sw3"
        using wok room idle ch(2) np by (auto simp: work_ok_def f3 s3 w2 b2)
      ultimately show ?thesis by (simp add: swarm_ok_def sw3_def)
    next
      case other: False
      then have "assign alive p sw = sw \<or> assign alive p sw = announce_endgame (choose_piece sw (usable ps)) sw"
        using False Some by (auto simp: assign_def Let_def split: prod.splits option.splits)
      with assms show ?thesis by auto
    qed
  qed (use assms in \<open>simp add: assign_def\<close>)
qed (use assms in \<open>simp add: assign_def\<close>)

lemma assign_all_ok: "swarm_ok sw \<Longrightarrow> swarm_ok (fold (assign alive) ids sw)"
  by (induction ids arbitrary: sw) (simp_all add: assign_ok)

lemma assign_idle_ok: "swarm_ok sw \<Longrightarrow> swarm_ok (assign_idle alive sw)"
  by (simp add: assign_idle_def assign_all_ok)

subsection \<open>Giving pieces back\<close>

definition work_but :: "nat \<Rightarrow> swarm \<Rightarrow> bool" where
  "work_but i sw \<longleftrightarrow> (\<forall>j \<in> set (sw_assigned sw). \<not> st_has (sw_storage sw) j \<and> (j = i \<or> working sw j \<noteq> {})) \<and>
     (\<forall>j. working sw j \<noteq> {} \<longrightarrow> j \<in> set (sw_assigned sw) \<or> st_has (sw_storage sw) j) \<and>
     card (busy_set sw) \<le> sw_max_busy sw"

lemma release_eq:
  assumes "distinct (map fst (sw_peers sw))"
  shows "release i sw = (if working sw i = {} then sw\<lparr>sw_assigned := removeAll i (sw_assigned sw)\<rparr> else sw)"
proof -
  have "list_ex (\<lambda>(_, ps). ps_piece ps = Some i) (sw_peers sw) \<longleftrightarrow> working sw i \<noteq> {}"
    using assms by (force simp: list_ex_iff working_def get_peer_def map_of_eq_Some_iff)
  then show ?thesis by (simp add: release_def)
qed

lemma assigned_update_sets:
  "get_peer (sw\<lparr>sw_assigned := as\<rparr>) = get_peer sw" "working (sw\<lparr>sw_assigned := as\<rparr>) = working sw"
  "busy_set (sw\<lparr>sw_assigned := as\<rparr>) = busy_set sw" "offers (sw\<lparr>sw_assigned := as\<rparr>) = offers sw"
  by (simp_all add: fun_eq_iff get_peer_def working_def busy_set_def offers_def)

lemma release_ok:
  assumes "tables_ok sw" "work_but i sw"
  shows "swarm_ok (release i sw)"
proof -
  have "distinct (map fst (sw_peers sw))" using assms(1) by (simp add: tables_ok_def)
  from release_eq [OF this, of i] assms show ?thesis
    by (auto simp: swarm_ok_def tables_ok_def work_ok_def work_but_def assigned_update_sets distinct_removeAll)
qed

lemma work_ok_but: "work_ok sw \<Longrightarrow> work_but i sw"
  by (auto simp: work_ok_def work_but_def)

lemma clear_piece_ok:
  assumes "swarm_ok sw"
  shows "swarm_ok (clear_piece now p i sw)"
proof -
  have tok: "tables_ok sw" and wok: "work_ok sw" using assms by (simp_all add: swarm_ok_def)
  define sw1 where "sw1 = (case get_peer sw p of None \<Rightarrow> sw
    | Some ps \<Rightarrow> if ps_piece ps = Some i then put_peer p (ps\<lparr>ps_piece := None, ps_idle_since := now\<rparr>) sw else sw)"
  have "tables_ok sw1 \<and> work_but i sw1"
  proof (cases "\<exists>ps. get_peer sw p = Some ps \<and> ps_piece ps = Some i")
    case True
    then obtain ps where ps: "get_peer sw p = Some ps" "ps_piece ps = Some i" by blast
    define ps' where "ps' = ps\<lparr>ps_piece := None, ps_idle_since := now\<rparr>"
    have eq: "sw1 = put_peer p ps' sw" using ps by (simp add: sw1_def ps'_def)
    have "peer_ok (num_pieces (sw_storage sw)) ps" using tok ps by (simp add: tables_ok_def)
    then have "tables_ok sw1"
      unfolding eq using tok ps by (intro tables_put_peer [of _ _ ps]) (simp_all add: ps'_def peer_ok_def)
    moreover have "working sw1 j = (if j = i then working sw i - {p} else working sw j)" for j
      using ps by (auto simp: eq put_peer_sets ps'_def working_def)
    moreover have "card (busy_set sw1) \<le> card (busy_set sw)"
      by (intro card_mono) (auto simp: eq put_peer_sets ps'_def)
    ultimately show ?thesis using wok by (auto simp: work_but_def work_ok_def eq)
  next
    case False
    then have "sw1 = sw" by (auto simp: sw1_def split: option.splits)
    with tok wok show ?thesis by (simp add: work_ok_but)
  qed
  then show ?thesis unfolding clear_piece_def sw1_def [symmetric] by (simp add: release_ok)
qed

lemma offers_bound: "tables_ok sw \<Longrightarrow> card (offers sw i) < 2 ^ 32"
proof -
  assume ok: "tables_ok sw"
  have "offers sw i \<subseteq> fst ` set (sw_peers sw)" by (auto simp: offers_def get_peer_def dest!: map_of_SomeD) (force)
  then have "card (offers sw i) \<le> card (fst ` set (sw_peers sw))" by (intro card_mono) simp_all
  also have "\<dots> \<le> length (sw_peers sw)" by (metis card_length length_map set_map)
  finally show ?thesis using ok by (simp add: tables_ok_def)
qed

lemma forget_peer_ok:
  assumes "swarm_ok sw"
  shows "swarm_ok (forget_peer p sw)"
proof (cases "get_peer sw p")
  case (Some ps)
  have tok: "tables_ok sw" and wok: "work_ok sw" using assms by (simp_all add: swarm_ok_def)
  define n where "n = num_pieces (sw_storage sw)"
  define sw1 where "sw1 = sw\<lparr>sw_peers := AList.delete p (sw_peers sw), sw_picker := remove_bitfield (sw_picker sw) (ps_bf ps)\<rparr>"
  have same: "sw_storage sw1 = sw_storage sw" "sw_assigned sw1 = sw_assigned sw" "sw_max_busy sw1 = sw_max_busy sw"
    by (simp_all add: sw1_def)
  have g: "get_peer sw1 = (get_peer sw)(p := None)" by (simp add: sw1_def get_peer_def delete_conv')
  have sets: "working sw1 j = working sw j - {p}" "busy_set sw1 = busy_set sw - {p}" "offers sw1 j = offers sw j - {p}" for j
    unfolding working_def busy_set_def offers_def g by auto
  have len: "length (availability (remove_bitfield (sw_picker sw) (ps_bf ps))) = length (availability (sw_picker sw))"
  proof -
    have "length (availability (fold (\<lambda>i p. if Q i then drop_have p i else p) is q)) = length (availability q)" for Q "is" q
      by (induction "is" arbitrary: q) (simp_all add: drop_have_def)
    then show ?thesis by (simp add: remove_bitfield_def)
  qed
  have "availability (sw_picker sw1) ! j = of_nat (card (offers sw1 j))" if j: "j < n" for j
  proof -
    have a: "availability (sw_picker sw) ! j = of_nat (card (offers sw j))" using tok j by (simp add: tables_ok_def n_def)
    have jl: "j < length (availability (sw_picker sw))" using tok j by (simp add: tables_ok_def n_def)
    show ?thesis
    proof (cases "bf_has (ps_bf ps) j")
      case True
      then have p: "p \<in> offers sw j" using Some by (simp add: offers_def)
      then have pos: "0 < card (offers sw j)" by (auto simp: card_gt_0_iff)
      then have "(of_nat (card (offers sw j)) :: u32) \<noteq> 0"
        using offers_bound [OF tok, of j] by (simp add: word_of_nat_eq_0_iff nat_dvd_not_less)
      then have "availability (sw_picker sw1) ! j = of_nat (card (offers sw j)) - 1"
        using True remove_bitfield_nth [OF jl, of "ps_bf ps"] by (simp add: sw1_def a)
      then show ?thesis using p pos by (simp add: sets(3) card_Diff_singleton of_nat_diff)
    next
      case False
      then have "p \<notin> offers sw j" using Some by (simp add: offers_def)
      then show ?thesis using False remove_bitfield_nth [OF jl, of "ps_bf ps"] by (simp add: sw1_def [symmetric] sets(3)) (simp add: sw1_def a)
    qed
  qed
  moreover have "length (sw_peers sw1) \<le> length (sw_peers sw)" by (simp add: sw1_def length_delete_le)
  ultimately have tok1: "tables_ok sw1"
    using tok len by (auto simp: tables_ok_def g n_def distinct_delete) (auto simp: sw1_def distinct_delete)
  have card1: "card (busy_set sw1) \<le> sw_max_busy sw1"
    using wok card_mono [of "busy_set sw" "busy_set sw - {p}"] by (auto simp: work_ok_def sets(2) same intro: le_trans)
  have other: "working sw1 j = working sw j" if "ps_piece ps \<noteq> Some j" for j
    using Some that unfolding sets(1) by (auto simp: working_def)
  have sub: "working sw1 j \<subseteq> working sw j" for j using sets(1) by blast
  have w1: "work_but i sw1" if "\<And>j. j \<noteq> i \<Longrightarrow> ps_piece ps \<noteq> Some j" for i
    using wok other [OF that] card1 sub by (fastforce simp: work_but_def work_ok_def same)
  show ?thesis
  proof (cases "ps_piece ps")
    case None
    then have "work_ok sw1" using wok other card1 by (auto simp: work_ok_def same)
    with None Some tok1 show ?thesis by (simp add: forget_peer_def Let_def sw1_def [symmetric] swarm_ok_def)
  next
    case piece: (Some i)
    then show ?thesis using Some release_ok [OF tok1 w1 [of i]] by (simp add: forget_peer_def Let_def sw1_def)
  qed
qed (use assms in \<open>simp add: forget_peer_def\<close>)

lemma gone_ok: "swarm_ok sw \<Longrightarrow> swarm_ok (gone alive p sw)"
  by (simp add: gone_def assign_idle_ok forget_peer_ok)

lemma forget_put_peer:
  assumes "get_peer sw p = Some ps" "ps_bf ps' = ps_bf ps" "ps_piece ps' = ps_piece ps"
  shows "forget_peer p (put_peer p ps' sw) = forget_peer p sw"
  using assms by (simp add: forget_peer_def Let_def) (simp add: put_peer_def delete_update_same split: option.splits)

lemma forget_send: "swarm_ok (forget_peer p (send_cmd alive q m sw)) = swarm_ok (forget_peer p sw)"
  by (rule swarm_ok_cong) (simp_all add: forget_peer_def send_cmd_def get_peer_def release_def Let_def split: option.splits)

lemma strike_ok:
  assumes "swarm_ok sw" "\<And>ps. get_peer sw p = Some ps \<Longrightarrow> ps_piece ps \<noteq> Some i"
  shows "swarm_ok (strike alive p i sw)"
proof (cases "get_peer sw p")
  case (Some ps)
  define ps1 where "ps1 = ps\<lparr>ps_strikes := ps_strikes ps + 1, ps_bad := List.insert i (ps_bad ps)\<rparr>"
  have tok: "tables_ok sw" and wok: "work_ok sw" using assms by (simp_all add: swarm_ok_def)
  have pok: "peer_ok (num_pieces (sw_storage sw)) ps" using tok Some by (simp add: tables_ok_def)
  show ?thesis
  proof (cases "ps_strikes ps1 \<ge> MAX_STRIKES")
    case True
    have "swarm_ok (forget_peer p (put_peer p ps1 sw))"
      using forget_put_peer [OF Some, of ps1] forget_peer_ok [OF assms(1)] by (simp add: ps1_def)
    with True Some show ?thesis by (simp add: strike_def Let_def ps1_def gone_def assign_idle_ok forget_send)
  next
    case False
    have "peer_ok (num_pieces (sw_storage sw)) ps1" using pok assms(2) [OF Some] False by (auto simp: peer_ok_def ps1_def)
    then have "tables_ok (put_peer p ps1 sw)" using tok Some by (intro tables_put_peer [of _ _ ps]) (simp_all add: ps1_def)
    moreover have "working (put_peer p ps1 sw) = working sw" "busy_set (put_peer p ps1 sw) = busy_set sw"
      using Some by (auto simp: fun_eq_iff put_peer_sets ps1_def) (auto simp: working_def busy_set_def)
    then have "work_ok (put_peer p ps1 sw)" using wok by (simp add: work_ok_def)
    ultimately show ?thesis using False Some by (simp add: strike_def Let_def swarm_ok_def) (simp add: ps1_def)
  qed
qed (use assms in \<open>simp add: strike_def\<close>)

subsection \<open>Events\<close>

text \<open>
  The engine numbers its workers, so a peer joins under an unused number, with the bitfield \<open>run_peer\<close> built for it; the
  number of connections is small.
\<close>

fun event_ok :: "swarm \<Rightarrow> to_engine \<Rightarrow> bool" where
  "event_ok sw (Joined p b) \<longleftrightarrow> get_peer sw p = None \<and> bf_ok b \<and> bf_len b = num_pieces (sw_storage sw) \<and>
     Suc (length (sw_peers sw)) < 2 ^ 32"
| "event_ok sw _ \<longleftrightarrow> True"

lemma flags_ok:
  assumes "swarm_ok sw" "get_peer sw p = Some ps"
  shows "swarm_ok (put_peer p (ps\<lparr>ps_unchoked := u\<rparr>) sw)"
proof -
  have "peer_ok (num_pieces (sw_storage sw)) (ps\<lparr>ps_unchoked := u\<rparr>)" using assms by (simp add: swarm_ok_def tables_ok_def peer_ok_def)
  moreover have "working (put_peer p (ps\<lparr>ps_unchoked := u\<rparr>) sw) = working sw" "busy_set (put_peer p (ps\<lparr>ps_unchoked := u\<rparr>) sw) = busy_set sw"
    using assms(2) by (auto simp: fun_eq_iff put_peer_sets) (auto simp: working_def busy_set_def)
  ultimately show ?thesis
    using assms by (simp add: swarm_ok_def work_ok_def tables_put_peer [OF _ assms(2)])
qed

lemma joined_ok:
  assumes "swarm_ok sw" "event_ok sw (Joined p b)" "ps_bf ps = b" "ps_piece ps = None" "ps_strikes ps = 0"
  shows "swarm_ok (put_peer p ps (sw\<lparr>sw_picker := add_bitfield (sw_picker sw) b\<rparr>))"
proof -
  define sw1 where "sw1 = put_peer p ps (sw\<lparr>sw_picker := add_bitfield (sw_picker sw) b\<rparr>)"
  have tok: "tables_ok sw" and wok: "work_ok sw" using assms by (simp_all add: swarm_ok_def)
  have g: "get_peer sw1 = (get_peer sw)(p \<mapsto> ps)" by (simp add: sw1_def) (simp add: get_peer_def)
  have new: "get_peer sw p = None" using assms(2) by simp
  have sets: "working sw1 = working sw" "busy_set sw1 = busy_set sw"
    "offers sw1 j = (if bf_has b j then insert p (offers sw j) else offers sw j)" "p \<notin> offers sw j" for j
    using new assms(3,4) by (auto simp: fun_eq_iff working_def busy_set_def offers_def g)
  have len: "length (availability (add_bitfield (sw_picker sw) b)) = length (availability (sw_picker sw))"
  proof -
    have "length (availability (fold (\<lambda>i p. if Q i then add_have p i else p) is q)) = length (availability q)" for Q "is" q
      by (induction "is" arbitrary: q) (simp_all add: add_have_def)
    then show ?thesis by (simp add: add_bitfield_def)
  qed
  have same: "sw_storage sw1 = sw_storage sw" "sw_assigned sw1 = sw_assigned sw" "sw_max_busy sw1 = sw_max_busy sw"
    "sw_picker sw1 = add_bitfield (sw_picker sw) b" by (simp_all add: sw1_def)
  have "availability (sw_picker sw1) ! j = of_nat (card (offers sw1 j))" if "j < num_pieces (sw_storage sw)" for j
    using tok that sets(4) [of j] add_bitfield_nth(1) [of j "sw_picker sw" b] by (simp add: tables_ok_def same sets(3))
  moreover have "peer_ok (num_pieces (sw_storage sw)) ps" using assms(2-5) by (simp add: peer_ok_def)
  moreover have "distinct (map fst (sw_peers sw1))" "length (sw_peers sw1) < 2 ^ 32"
    using put_peer_keys(1,3) [where sw = "sw\<lparr>sw_picker := add_bitfield (sw_picker sw) b\<rparr>" and p = p and ps = ps] tok assms(2)
    by (simp_all add: sw1_def tables_ok_def)
  ultimately have "tables_ok sw1" using tok len by (auto simp: tables_ok_def same g)
  moreover have "work_ok sw1" using wok by (simp add: work_ok_def same sets)
  ultimately show ?thesis by (simp add: swarm_ok_def sw1_def)
qed

lemma have_ok:
  assumes "swarm_ok sw" "get_peer sw p = Some ps" "i < bf_len (ps_bf ps)" "\<not> bf_has (ps_bf ps) i"
  shows "swarm_ok ((put_peer p (ps\<lparr>ps_bf := bf_set (ps_bf ps) i\<rparr>) sw)\<lparr>sw_picker := add_have (sw_picker sw) i\<rparr>)"
proof -
  define ps1 where "ps1 = ps\<lparr>ps_bf := bf_set (ps_bf ps) i\<rparr>"
  define sw1 where "sw1 = (put_peer p ps1 sw)\<lparr>sw_picker := add_have (sw_picker sw) i\<rparr>"
  have tok: "tables_ok sw" and wok: "work_ok sw" using assms by (simp_all add: swarm_ok_def)
  have pok: "peer_ok (num_pieces (sw_storage sw)) ps" using tok assms(2) by (simp add: tables_ok_def)
  have g: "get_peer sw1 = (get_peer sw)(p \<mapsto> ps1)"
    using get_put_peer [of p ps1 sw] by (simp add: sw1_def get_peer_def)
  have bfs: "bf_has (ps_bf ps1) j \<longleftrightarrow> j = i \<or> bf_has (ps_bf ps) j" for j
    using pok assms(3) by (auto simp: ps1_def peer_ok_def bf_set_laws)
  have sets: "working sw1 = working sw" "busy_set sw1 = busy_set sw"
    "offers sw1 j = (if j = i then insert p (offers sw j) else offers sw j)" "p \<notin> offers sw i" for j
    using assms(2,4) by (auto simp: fun_eq_iff working_def busy_set_def offers_def g bfs ps1_def [THEN arg_cong [where f = ps_piece]])
  have same: "sw_storage sw1 = sw_storage sw" "sw_assigned sw1 = sw_assigned sw" "sw_max_busy sw1 = sw_max_busy sw"
    "sw_picker sw1 = add_have (sw_picker sw) i" "sw_peers sw1 = sw_peers (put_peer p ps1 sw)" by (simp_all add: sw1_def)
  have "availability (sw_picker sw1) ! j = of_nat (card (offers sw1 j))" if "j < num_pieces (sw_storage sw)" for j
    using tok that sets(4) by (auto simp: tables_ok_def same sets(3) add_have_def nth_list_update)
  moreover have "peer_ok (num_pieces (sw_storage sw)) ps1"
    using pok bfs by (simp add: peer_ok_def ps1_def bf_set_laws)
  moreover have "distinct (map fst (sw_peers sw1))" "length (sw_peers sw1) < 2 ^ 32"
    using put_peer_keys(1) [of sw p ps1] put_peer_keys(2) [OF assms(2), of ps1] tok by (simp_all add: same tables_ok_def)
  moreover have "length (availability (sw_picker sw1)) = num_pieces (sw_storage sw)" using tok by (simp add: same add_have_def tables_ok_def)
  ultimately have "tables_ok sw1" using tok by (auto simp: tables_ok_def same g)
  moreover have "work_ok sw1" using wok by (simp add: work_ok_def same sets)
  ultimately show ?thesis by (simp add: swarm_ok_def sw1_def ps1_def)
qed

text \<open>A finished piece moves from flight to the store.\<close>

lemma write_piece_have:
  assumes "write_piece sha1 st i dat = (st', r)"
  shows "num_pieces st' = num_pieces st" "st_have st' = (if r = Ok True then bf_set (st_have st) i else st_have st)"
    "r = Ok True \<Longrightarrow> i < num_pieces st"
  using assms by (auto simp: write_piece_def Let_def num_pieces_def split: if_splits prod.splits sum.splits)

lemma stored_ok:
  assumes "swarm_ok sw" "write_piece sha1 (sw_storage sw) i dat = (st, Ok True)"
  shows "swarm_ok (sw\<lparr>sw_storage := st, sw_assigned := removeAll i (sw_assigned sw)\<rparr>)"
proof -
  define sw1 where "sw1 = sw\<lparr>sw_storage := st, sw_assigned := removeAll i (sw_assigned sw)\<rparr>"
  note h = write_piece_have [OF assms(2)]
  have tok: "tables_ok sw" and wok: "work_ok sw" using assms by (simp_all add: swarm_ok_def)
  have shape: "bf_ok (st_have (sw_storage sw))" "bf_len (st_have (sw_storage sw)) = num_pieces (sw_storage sw)"
    using tok by (simp_all add: tables_ok_def store_shape_def)
  then have has: "st_has st j \<longleftrightarrow> j = i \<or> st_has (sw_storage sw) j" for j
    using h by (auto simp: st_has_def bf_set_laws)
  have g: "get_peer sw1 = get_peer sw" "working sw1 = working sw" "busy_set sw1 = busy_set sw" "offers sw1 = offers sw"
    by (simp_all add: sw1_def get_peer_def fun_eq_iff working_def busy_set_def offers_def)
  have "tables_ok sw1"
    using tok h shape by (simp add: tables_ok_def g) (simp add: sw1_def store_shape_def bf_set_laws distinct_removeAll)
  moreover have "work_ok sw1"
    using wok has by (auto simp: work_ok_def g) (auto simp: sw1_def)
  ultimately show ?thesis by (simp add: swarm_ok_def sw1_def)
qed

lemma unchanged_store_ok:
  assumes "swarm_ok sw" "num_pieces st = num_pieces (sw_storage sw)" "st_have st = st_have (sw_storage sw)"
  shows "swarm_ok (sw\<lparr>sw_storage := st\<rparr>)"
proof -
  have "get_peer (sw\<lparr>sw_storage := st\<rparr>) = get_peer sw" "working (sw\<lparr>sw_storage := st\<rparr>) = working sw"
    "busy_set (sw\<lparr>sw_storage := st\<rparr>) = busy_set sw" "offers (sw\<lparr>sw_storage := st\<rparr>) = offers sw"
    by (simp_all add: get_peer_def fun_eq_iff working_def busy_set_def offers_def)
  with assms show ?thesis by (simp add: swarm_ok_def tables_ok_def work_ok_def store_shape_def st_has_def)
qed

lemma clear_piece_idle:
  "get_peer (clear_piece now p i sw) p = Some ps \<Longrightarrow> ps_piece ps \<noteq> Some i"
  by (auto simp: clear_piece_def release_def get_peer_def put_peer_def update_conv' split: option.splits if_splits)

lemma piece_done_ok:
  assumes "swarm_ok sw"
  shows "swarm_ok (fst (handle sha1 alive now (PieceDone p i dat) sw))"
proof -
  define sw1 where "sw1 = clear_piece now p i sw"
  have ok1: "swarm_ok sw1" using assms by (simp add: sw1_def clear_piece_ok)
  have idle: "get_peer sw1 p = Some ps \<Longrightarrow> ps_piece ps \<noteq> Some i" for ps unfolding sw1_def by (rule clear_piece_idle)
  obtain st r where w: "write_piece sha1 (sw_storage sw1) i dat = (st, r)" by (metis surj_pair)
  note h = write_piece_have [OF w]
  have keep: "swarm_ok (sw1\<lparr>sw_storage := st\<rparr>)" if "r \<noteq> Ok True"
    using that h ok1 by (intro unchanged_store_ok) simp_all
  consider "r = Ok True" | "r = Ok False" | e where "r = Err e" by (cases r) auto
  then show ?thesis
  proof cases
    case 1
    then have "swarm_ok (touch now (sw1\<lparr>sw_storage := st, sw_assigned := removeAll i (sw_assigned sw1)\<rparr>))"
      using stored_ok [OF ok1] w by simp
    with 1 w ok1 show ?thesis by (simp add: handle_def Let_def sw1_def [symmetric] assign_idle_ok assign_ok)
  next
    case 2
    have "swarm_ok (strike alive p i (sw1\<lparr>sw_storage := st\<rparr>))"
      using keep 2 idle by (intro strike_ok) (simp_all add: get_peer_def)
    with 2 w ok1 show ?thesis by (simp add: handle_def Let_def sw1_def [symmetric] assign_idle_ok assign_ok)
  next
    case 3
    with w ok1 keep show ?thesis by (simp add: handle_def Let_def sw1_def [symmetric] assign_idle_ok assign_ok)
  qed
qed

lemma handle_ok:
  assumes "swarm_ok sw" "event_ok sw ev"
  shows "swarm_ok (fst (handle sha1 alive now ev sw))"
proof (cases ev)
  case (Joined p b)
  with assms show ?thesis
    using joined_ok [OF assms(1), of p b] by (simp add: handle_def Let_def assign_ok)
next
  case (HavePiece p i)
  with assms show ?thesis
    using have_ok [OF assms(1)] by (auto simp: handle_def Let_def assign_ok split: option.splits)
next
  case (PieceDone p i dat)
  with assms(1) show ?thesis by (simp add: piece_done_ok)
next
  case (Released p i)
  with assms(1) show ?thesis
    by (auto simp: handle_def Let_def assign_idle_ok clear_piece_ok flags_ok split: option.splits)
qed (use assms in \<open>auto simp: handle_def Let_def assign_ok gone_ok flags_ok split: option.splits\<close>)

lemma evict_idle_ok: "swarm_ok sw \<Longrightarrow> swarm_ok (evict_idle alive now after sw)"
proof -
  have "swarm_ok (fold (\<lambda>p sw. gone alive p (case get_peer sw p of Some _ \<Rightarrow> send_cmd alive p Stop sw | None \<Rightarrow> sw)) ids sw)"
    if "swarm_ok sw" for ids sw
    using that by (induction ids arbitrary: sw) (simp_all add: gone_ok split: option.splits)
  then show "swarm_ok sw \<Longrightarrow> swarm_ok (evict_idle alive now after sw)" by (simp add: evict_idle_def)
qed

end
