(* ===== verification/Bt_Swarm_Props.thy ===== *)
theory Bt_Swarm_Props
  imports Bt_Swarm_Inv
begin

text \<open>
  Properties of the download scheduler over whole runs: the bookkeeping is right in every reachable state, the
  pieces of a finished download are genuine, and a peer is left idle only when there is nothing fresh for it to fetch.
\<close>

section \<open>Runs of the engine\<close>

text \<open>
  The engine loop of \<open>run\<close>: it takes one event at a time from its channel and now and then evicts idle peers.
  Which workers are alive, the clock and the eviction delay are arbitrary at each step.
\<close>

inductive reachable :: "(bytes \<Rightarrow> bytes) \<Rightarrow> swarm \<Rightarrow> swarm \<Rightarrow> bool" for sha1 sw0 where
  start: "reachable sha1 sw0 sw0"
| event: "reachable sha1 sw0 sw \<Longrightarrow> event_ok sw ev \<Longrightarrow> reachable sha1 sw0 (fst (handle sha1 alive now ev sw))"
| evict: "reachable sha1 sw0 sw \<Longrightarrow> reachable sha1 sw0 (evict_idle alive now after sw)"

lemma swarm_new_ok: "store_shape st \<Longrightarrow> swarm_ok (swarm_new st mb v now)"
  by (simp add: swarm_ok_def tables_ok_def work_ok_def swarm_new_def get_peer_def working_def busy_set_def offers_def picker_new_def)

lemma reachable_ok: "reachable sha1 sw0 sw \<Longrightarrow> swarm_ok sw0 \<Longrightarrow> swarm_ok sw"
  by (induction rule: reachable.induct) (simp_all add: handle_ok evict_idle_ok)

text \<open>
  (C30) The scheduler's books are right in every reachable state: at most \<open>max_busy\<close> peers hold a piece; a piece is
  marked in flight only while it is missing and some peer fetches it, so no piece is ever lost; a peer fetches
  only a piece it has announced and never corrupted; no connected peer has three strikes; and the availability
  the picker uses is the number of connected peers having the piece.
\<close>

theorem swarm_bookkeeping:
  assumes "store_shape st" "reachable sha1 (swarm_new st mb v now0) sw"
  shows "busy sw \<le> sw_max_busy sw \<and>
    (\<forall>i \<in> set (sw_assigned sw). \<not> st_has (sw_storage sw) i \<and> (\<exists>p ps. get_peer sw p = Some ps \<and> ps_piece ps = Some i)) \<and>
    (\<forall>p ps i. get_peer sw p = Some ps \<longrightarrow> ps_piece ps = Some i \<longrightarrow>
       bf_has (ps_bf ps) i \<and> i \<notin> set (ps_bad ps) \<and> (i \<in> set (sw_assigned sw) \<or> st_has (sw_storage sw) i)) \<and>
    (\<forall>p ps. get_peer sw p = Some ps \<longrightarrow> ps_strikes ps < 3) \<and>
    (\<forall>i < num_pieces (sw_storage sw). unat (availability (sw_picker sw) ! i) =
       card {p. \<exists>ps. get_peer sw p = Some ps \<and> bf_has (ps_bf ps) i})"
proof -
  have ok: "tables_ok sw" "work_ok sw" using reachable_ok [OF assms(2) swarm_new_ok [OF assms(1)]] by (simp_all add: swarm_ok_def)
  have "unat (availability (sw_picker sw) ! i) = card (offers sw i)" if "i < num_pieces (sw_storage sw)" for i
    using ok(1) that offers_bound [OF ok(1), of i] by (simp add: tables_ok_def unat_of_nat)
  moreover have "busy sw = card (busy_set sw)" using ok(1) by (simp add: busy_card tables_ok_def)
  moreover have "i \<in> set (sw_assigned sw) \<or> st_has (sw_storage sw) i" if "get_peer sw p = Some ps" "ps_piece ps = Some i" for p ps i
  proof -
    have "working sw i \<noteq> {}" using that by (auto simp: working_def)
    with ok(2) show ?thesis by (simp add: work_ok_def)
  qed
  moreover have "peer_ok (num_pieces (sw_storage sw)) ps" if "get_peer sw p = Some ps" for p ps
    using ok(1) that by (simp add: tables_ok_def)
  ultimately show ?thesis
    using ok(2) unfolding work_ok_def peer_ok_def working_def offers_def by (intro conjI) (force, force, metis, metis, force)
qed

theorem swarm_bookkeeping_witness:
  "busy (fst (handle id (\<lambda>_. True) 5 (Joined 7 (bf_set (bf_new 2) 0)) (swarm_new demo_store 1 0 0))) \<le>
   sw_max_busy (fst (handle id (\<lambda>_. True) 5 (Joined 7 (bf_set (bf_new 2) 0)) (swarm_new demo_store 1 0 0)))"
proof -
  have "store_shape demo_store" using demo_store(1) by (simp add: full_store_def store_shape_def)
  moreover have "event_ok (swarm_new demo_store 1 0 0) (Joined 7 (bf_set (bf_new 2) 0))"
    by (simp add: swarm_new_def get_peer_def bf_set_laws bf_new_laws demo_store_def num_pieces_def)
  ultimately show ?thesis using swarm_bookkeeping [OF _ reachable.event [OF reachable.start]] by blast
qed

section \<open>A finished download is verified\<close>

lemma assign_storage [simp]: "sw_storage (assign alive p sw) = sw_storage sw"
  by (simp add: assign_def Let_def announce_endgame_def send_cmd_def split: option.splits prod.splits)

lemma assign_idle_storage [simp]: "sw_storage (assign_idle alive sw) = sw_storage sw"
proof -
  have "sw_storage (fold (assign alive) ids sw) = sw_storage sw" for ids by (induction ids arbitrary: sw) simp_all
  then show ?thesis by (simp add: assign_idle_def)
qed

lemma keep_storage [simp]:
  "sw_storage (release i sw) = sw_storage sw" "sw_storage (clear_piece now p i sw) = sw_storage sw"
  "sw_storage (forget_peer p sw) = sw_storage sw" "sw_storage (gone alive p sw) = sw_storage sw"
  "sw_storage (send_cmd alive p m sw) = sw_storage sw" "sw_storage (strike alive p i sw) = sw_storage sw"
  "sw_storage (touch now sw) = sw_storage sw"
  by (simp_all add: release_def clear_piece_def forget_peer_def gone_def send_cmd_def strike_def touch_def Let_def split: option.splits)

lemma evict_idle_storage [simp]: "sw_storage (evict_idle alive now after sw) = sw_storage sw"
proof -
  have "sw_storage (fold (\<lambda>p sw. gone alive p (case get_peer sw p of Some _ \<Rightarrow> send_cmd alive p Stop sw | None \<Rightarrow> sw)) ids sw) = sw_storage sw" for ids
    by (induction ids arbitrary: sw) (simp_all split: option.splits)
  then show ?thesis by (simp add: evict_idle_def)
qed

text \<open>
  The stores an engine is started on (\<open>download.rs\<close>): created for the whole torrent or for a window of it, with padding files
  marked, with the completion bits of a resume file taken over, or re-checked against the disk.
\<close>

inductive prepared :: "(bytes \<Rightarrow> bytes) \<Rightarrow> storage \<Rightarrow> bool" for sha1 where
  created: "st_create disk layout plen hashes = Ok st \<Longrightarrow> prepared sha1 st"
| windowed: "st_create_window disk out plen hashes tot start0 end0 = Ok st \<Longrightarrow> prepared sha1 st"
| padded: "prepared sha1 st \<Longrightarrow> prepared sha1 (set_padding st n)"
| restored: "prepared sha1 st \<Longrightarrow> prepared sha1 (restore_have st bits)"
| rechecked: "prepared sha1 st \<Longrightarrow> prepared sha1 (recheck sha1 st)"

lemma layout_ok_update:
  "layout_ok slots \<Longrightarrow> n < length slots \<Longrightarrow> layout_ok (slots[n := (slots ! n)\<lparr>fs_padding := True\<rparr>])"
  by (auto simp: layout_ok_def sorted_wrt_iff_nth_less nth_list_update)

lemma recheck_shape: "store_shape (recheck sha1 st)"
proof -
  let ?f = "\<lambda>i h. case read_at st (piece_length st * i) (piece_size st i) of
      Inr buf \<Rightarrow> if sha1 buf = st_hashes st ! i then bf_set h i else h | Inl _ \<Rightarrow> h"
  have "bf_ok h \<and> bf_len h = n \<Longrightarrow> bf_ok (fold ?f is h) \<and> bf_len (fold ?f is h) = n" for "is" h n
    by (induction "is" arbitrary: h) (auto simp: bf_set_laws split: sum.split)
  then show ?thesis by (simp add: store_shape_def recheck_def num_pieces_def bf_new_laws)
qed

lemma prepared_shape: "prepared sha1 st \<Longrightarrow> layout_ok (st_files st) \<and> store_shape st"
proof (induction rule: prepared.induct)
  case (created disk layout plen hashes st)
  from st_create_full(1) [OF this] show ?case by (simp add: full_store_def store_shape_def)
next
  case (windowed disk out plen hashes tot start0 end0 st)
  define P where "P = (\<lambda>i. \<not> window_overlaps plen tot (min start0 (min end0 tot)) (min end0 tot) i)"
  from windowed have st: "length (st_files st) = 1" "num_pieces st = length hashes"
    "st_have st = fold (\<lambda>i h. if P i then bf_set h i else h) [0..<length hashes] (bf_new (length hashes))"
    by (auto simp: st_create_window_def Let_def num_pieces_def P_def split: if_splits)
  have "store_shape st" unfolding store_shape_def st(2,3)
    using fold_marks [OF bf_new_laws(1), of P "[0..<length hashes]" "length hashes" 0] by (simp only: bf_new_laws simp_thms)
  moreover obtain s where "st_files st = [s]" using st(1) by (cases "st_files st") auto
  ultimately show ?case by (simp add: layout_ok_def)
next
  case (padded st n)
  then show ?case by (auto simp: set_padding_def layout_ok_update store_shape_def num_pieces_def)
next
  case (restored st bits)
  then show ?case using fold_marks [of "st_have st" "bf_has bits" "[0..<num_pieces st]"]
    by (auto simp: restore_have_def store_shape_def num_pieces_def)
next
  case (rechecked st)
  with recheck_shape show ?case by (simp add: recheck_def)
qed

text \<open>
  A piece is genuine when its bytes on disk are those of data that has its length and its hash; a byte that lies in no file
  on disk (in a padding file, or outside the window) is not stored and says nothing.
\<close>

definition piece_genuine :: "(bytes \<Rightarrow> bytes) \<Rightarrow> storage \<Rightarrow> nat \<Rightarrow> bool" where
  "piece_genuine sha1 st i \<longleftrightarrow> (\<exists>dat. length dat = piece_size st i \<and> sha1 dat = st_hashes st ! i \<and>
     (\<forall>k<length dat. list_ex (holds_byte (piece_length st * i + k)) (st_files st) \<longrightarrow>
        byte_at (st_files st) (piece_length st * i + k) = Some (dat ! k)))"

text \<open>The geometry of a store, which no write changes.\<close>

definition same_store :: "storage \<Rightarrow> storage \<Rightarrow> bool" where
  "same_store st st' \<longleftrightarrow> piece_length st' = piece_length st \<and> st_total st' = st_total st \<and> st_hashes st' = st_hashes st \<and>
     (\<forall>g. list_ex (holds_byte g) (st_files st') = list_ex (holds_byte g) (st_files st)) \<and>
     layout_ok (st_files st') \<and> store_shape st'"

lemma same_store_sizes:
  "same_store st st' \<Longrightarrow> piece_length st' = piece_length st" "same_store st st' \<Longrightarrow> piece_size st' i = piece_size st i"
  "same_store st st' \<Longrightarrow> st_hashes st' = st_hashes st" "same_store st st' \<Longrightarrow> num_pieces st' = num_pieces st"
  "same_store st st' \<Longrightarrow> list_ex (holds_byte g) (st_files st') = list_ex (holds_byte g) (st_files st)"
  "same_store st st' \<Longrightarrow> layout_ok (st_files st')" "same_store st st' \<Longrightarrow> store_shape st'"
  by (simp_all add: same_store_def piece_size_def num_pieces_def)

text \<open>What a successful write does to any store: the piece becomes genuine, the bytes of the others stay.\<close>

lemma write_piece_genuine:
  assumes "layout_ok (st_files st)" "store_shape st" "write_piece sha1 st i dat = (st', Ok True)"
  shows "same_store st st'" "piece_genuine sha1 st' i" "st_has st' j \<longleftrightarrow> j = i \<or> st_has st j"
    "\<And>j k b. j \<noteq> i \<Longrightarrow> k < piece_size st j \<Longrightarrow> byte_at (st_files st) (piece_length st * j + k) = Some b \<Longrightarrow>
       byte_at (st_files st') (piece_length st * j + k) = Some b"
proof -
  note d = write_piece_OkD [OF assms(3,1)]
  from d(4) obtain slots' where w: "wrote (piece_length st * i) dat (st_files st) slots'"
    and st': "st' = st\<lparr>st_files := slots', st_have := bf_set (st_have st) i\<rparr>" by blast
  have same: "list_all2 same_slot (st_files st) slots'" using w by (simp add: wrote_def)
  show s: "same_store st st'"
    using assms(1,2) d(1) layout_ok_same [OF same] list_ex_holds_same [OF same]
    by (simp add: same_store_def st' store_shape_def num_pieces_def bf_set_laws)
  show "piece_genuine sha1 st' i" unfolding piece_genuine_def same_store_sizes(1-3,5) [OF s]
    using d(2,3) w by (intro exI [of _ dat]) (auto simp: wrote_def st')
  show "st_has st' j \<longleftrightarrow> j = i \<or> st_has st j"
    using assms(2) d(1) by (auto simp: st_has_def st' bf_set_laws store_shape_def)
  show "byte_at (st_files st') (piece_length st * j + k) = Some b"
    if j: "j \<noteq> i" "k < piece_size st j" "byte_at (st_files st) (piece_length st * j + k) = Some b" for j k b
  proof -
    have "\<not> (piece_length st * i \<le> piece_length st * j + k \<and> piece_length st * j + k < piece_length st * i + length dat)"
      using pieces_disjoint [OF j(1,2)] d(2) by simp
    with w j(3) show ?thesis by (simp add: wrote_def st')
  qed
qed

text \<open>The engine writes only pieces it does not hold.\<close>

lemma handle_storage:
  "sw_storage (fst (handle sha1 alive now ev sw)) = sw_storage sw \<or>
   (\<exists>i dat r. \<not> st_has (sw_storage sw) i \<and>
      write_piece sha1 (sw_storage sw) i dat = (sw_storage (fst (handle sha1 alive now ev sw)), r))"
  by (cases ev) (auto simp: handle_def Let_def split: option.splits prod.splits sum.splits bool.splits)

text \<open>The bytes of a piece that are on disk in the first store are the same in the second.\<close>

definition piece_kept :: "storage \<Rightarrow> storage \<Rightarrow> nat \<Rightarrow> bool" where
  "piece_kept st st' i \<longleftrightarrow> (\<forall>k<piece_size st i. \<forall>b. byte_at (st_files st) (piece_length st * i + k) = Some b \<longrightarrow>
     byte_at (st_files st') (piece_length st * i + k) = Some b)"

lemma genuine_kept:
  assumes "piece_genuine sha1 st i" "same_store st st'" "piece_kept st st' i"
  shows "piece_genuine sha1 st' i"
  using assms(1,3) unfolding piece_genuine_def piece_kept_def same_store_sizes(1-3,5) [OF assms(2)] by metis

definition progress :: "(bytes \<Rightarrow> bytes) \<Rightarrow> storage \<Rightarrow> storage \<Rightarrow> bool" where
  "progress sha1 st st' \<longleftrightarrow> same_store st st' \<and>
     (\<forall>i. (st_has st i \<longrightarrow> st_has st' i \<and> piece_kept st st' i) \<and> (st_has st' i \<and> \<not> st_has st i \<longrightarrow> piece_genuine sha1 st' i))"

lemma write_piece_progress:
  assumes "progress sha1 st0 st" "write_piece sha1 st i dat = (st', r)" "\<not> st_has st i"
  shows "progress sha1 st0 st'"
proof (cases "r = Ok True")
  case False
  from write_piece_not_True [OF assms(2) False] assms(1) show ?thesis by (simp add: progress_def same_store_def)
next
  case True
  have s: "same_store st0 st" using assms(1) by (simp add: progress_def)
  note w = write_piece_genuine [OF same_store_sizes(6,7) [OF s] assms(2) [unfolded True]]
  have "same_store st0 st'" using s w(1) by (simp add: same_store_def)
  moreover have kept: "piece_kept st st' j" if "j \<noteq> i" for j using w(4) [OF that] by (simp add: piece_kept_def)
  moreover have "piece_kept st0 st' j" if "st_has st0 j" for j
  proof -
    have "j \<noteq> i" using that assms(1,3) by (auto simp: progress_def)
    with that assms(1) kept [of j] show ?thesis
      by (simp add: progress_def piece_kept_def same_store_sizes(1,2) [OF s])
  qed
  moreover have "piece_genuine sha1 st' j" if "st_has st' j" "\<not> st_has st0 j" for j
  proof (cases "j = i")
    case False
    with that assms(1) w(3) have "piece_genuine sha1 st j" by (simp add: progress_def)
    from genuine_kept [OF this w(1) kept [OF False]] show ?thesis .
  qed (use w(2) in simp)
  ultimately show ?thesis using assms(1) w(3) by (simp add: progress_def)
qed

lemma reachable_progress:
  "reachable sha1 sw0 sw \<Longrightarrow> layout_ok (st_files (sw_storage sw0)) \<Longrightarrow> store_shape (sw_storage sw0) \<Longrightarrow>
     progress sha1 (sw_storage sw0) (sw_storage sw)"
proof (induction rule: reachable.induct)
  case (event sw ev alive now)
  then show ?case using handle_storage [of sha1 alive now ev sw] write_piece_progress by metis
qed (simp_all add: progress_def same_store_def piece_kept_def)

lemma read_at_bytes:
  "layout_ok (st_files st) \<Longrightarrow> length bs = n \<Longrightarrow> \<forall>k<n. byte_at (st_files st) (off + k) = Some (bs ! k) \<Longrightarrow> read_at st off n = Ok bs"
  by (simp add: read_at_spec)

lemma piece_kept_read:
  assumes "layout_ok (st_files st)" "same_store st st'" "piece_kept st st' i"
    and "read_at st (piece_length st * i) (piece_size st i) = Ok bs"
  shows "read_at st' (piece_length st' * i) (piece_size st' i) = Ok bs"
  unfolding same_store_sizes(1,2) [OF assms(2)]
  using assms(3,4) read_at_spec [OF assms(1)] by (intro read_at_bytes same_store_sizes(6) [OF assms(2)]) (auto simp: piece_kept_def)

lemma genuine_read:
  assumes "full_store st" "same_store st st'" "piece_genuine sha1 st' i"
  shows "\<exists>bs. read_at st' (piece_length st' * i) (piece_size st' i) = Ok bs \<and> sha1 bs = st_hashes st' ! i"
proof -
  have "list_ex (holds_byte (piece_length st' * i + k)) (st_files st')" if "k < piece_size st' i" for k
    using assms(1) piece_range [OF that] assms(2) by (auto simp: full_store_def same_store_def)
  with assms(3) show ?thesis unfolding piece_genuine_def using read_at_bytes [OF same_store_sizes(6) [OF assms(2)]] by metis
qed

text \<open>A freshly created store and a re-checked one start out verified.\<close>

lemma fresh_verified: "st_create disk layout plen hashes = Ok st \<Longrightarrow> full_store st \<and> verified sha1 st"
  using st_create_full by (simp add: verified_def)

lemma recheck_full: "full_store st \<Longrightarrow> full_store (recheck sha1 st)"
  using recheck_shape [of sha1 st] by (simp add: full_store_def store_shape_def recheck_def)

lemma complete_has: "store_shape st \<Longrightarrow> st_is_complete st \<Longrightarrow> i < num_pieces st \<Longrightarrow> st_has st i"
  using bf.complete_iff [of "st_have st"] by (auto simp: store_shape_def st_is_complete_def bf_is_complete_def st_has_def bf.pieces_def)

text \<open>
  (C29) A finished download holds what the metainfo describes: whatever the peers send, in whatever order events arrive, from any
  store the client prepares (whole or windowed, with padding files, resumed or re-checked), when the engine finds the store
  complete then

  \<^item> every piece it did not hold at the start is genuine: its bytes on disk are those of data with the length and the hash of the
    metainfo (bytes in padding files or outside the window are not stored);

  \<^item> every piece it was told to hold at the start, by the resume file or because it lies outside the window, is left as it was on
    disk and is not hashed again;

  \<^item> so if the store is full (no window, no padding) and verified at the start, as a freshly created store
    (\<open>fresh_verified\<close>) and a re-checked one (\<open>recheck_establishes_verified\<close>, \<open>recheck_full\<close>) are, then every piece of the torrent
    reads back from the disk with its hash.
\<close>

theorem swarm_download_verified:
  assumes "prepared sha1 st" "reachable sha1 (swarm_new st mb v now0) sw"
    "st_is_complete (sw_storage sw)" "i < num_pieces (sw_storage sw)"
  shows "(\<not> st_has st i \<longrightarrow> piece_genuine sha1 (sw_storage sw) i) \<and>
    (st_has st i \<longrightarrow> (\<forall>bs. read_at st (piece_length st * i) (piece_size st i) = Ok bs \<longrightarrow>
       read_at (sw_storage sw) (piece_length (sw_storage sw) * i) (piece_size (sw_storage sw) i) = Ok bs)) \<and>
    (full_store st \<and> verified sha1 st \<longrightarrow>
       (\<exists>bs. read_at (sw_storage sw) (piece_length (sw_storage sw) * i) (piece_size (sw_storage sw) i) = Ok bs \<and>
          sha1 bs = st_hashes (sw_storage sw) ! i))"
proof -
  note shape = prepared_shape [OF assms(1)]
  then have p: "progress sha1 st (sw_storage sw)" using reachable_progress [OF assms(2)] by (simp add: swarm_new_def)
  then have s: "same_store st (sw_storage sw)" by (simp add: progress_def)
  have "st_has (sw_storage sw) i" using same_store_sizes(7) [OF s] assms(3,4) by (rule complete_has)
  with p have g: "\<not> st_has st i \<Longrightarrow> piece_genuine sha1 (sw_storage sw) i" by (simp add: progress_def)
  have r: "read_at (sw_storage sw) (piece_length (sw_storage sw) * i) (piece_size (sw_storage sw) i) = Ok bs"
    if "st_has st i" "read_at st (piece_length st * i) (piece_size st i) = Ok bs" for bs
    using piece_kept_read [OF _ s _ that(2)] p that(1) shape by (simp add: progress_def)
  have "\<exists>bs. read_at (sw_storage sw) (piece_length (sw_storage sw) * i) (piece_size (sw_storage sw) i) = Ok bs \<and>
      sha1 bs = st_hashes (sw_storage sw) ! i" if "full_store st" "verified sha1 st"
  proof (cases "st_has st i")
    case True
    with that(2) r same_store_sizes(3) [OF s] show ?thesis by (metis verified_def)
  qed (use genuine_read [OF that(1) s g] in blast)
  with g r show ?thesis by blast
qed

theorem swarm_download_verified_witness:
  "\<exists>(sw :: swarm) bs. st_is_complete (sw_storage sw) \<and> num_pieces (sw_storage sw) = 1 \<and>
     read_at (sw_storage sw) 0 1 = Ok bs \<and> id bs = [9]"
proof -
  define st where "st = \<lparr>piece_length = 1, st_total = 1, st_hashes = [[9]], st_files =
    [\<lparr>fs_path = ''a'', fs_length = 1, fs_start = 0, fs_data = [], fs_padding = False\<rparr>], st_have = bf_new 1, st_window = None\<rparr>"
  have c: "st_create (\<lambda>p. []) [(''a'', 1)] 1 [[9]] = Ok st" by (simp add: st_create_def st_def checked_add_u64_def)
  define sw where "sw = fst (handle id (\<lambda>_. True) 0 (PieceDone 0 0 [9]) (swarm_new st 1 0 0))"
  have r: "reachable id (swarm_new st 1 0 0) sw" unfolding sw_def by (intro reachable.event reachable.start) simp
  obtain st' q where w: "write_piece id st 0 [9] = (st', q)" by (metis surj_pair)
  then have q: "q = Ok True" by (simp add: write_piece_def st_def num_pieces_def piece_size_def Let_def write_span_def)
  have "\<not> st_has st 0" by (simp add: st_def st_has_def bf_new_laws)
  then have s: "sw_storage sw = st'" using w q by (simp add: sw_def handle_def Let_def) (simp add: swarm_new_def)
  have st': "st_have st' = bf_set (bf_new 1) 0" "num_pieces st' = 1" "piece_length st' = 1" "piece_size st' 0 = 1" "st_hashes st' = [[9]]"
    using w q by (auto simp: write_piece_def st_def num_pieces_def piece_size_def Let_def write_span_def)
  have "Collect (bf_has (bf_set (bf_new 1) 0)) = {0}" by (auto simp: bf_set_laws bf_new_laws)
  then have "st_is_complete st'"
    by (simp add: st_is_complete_def bf_is_complete_def st' bf_count_card bf_set_laws bf_new_laws)
  with swarm_download_verified [OF prepared.created [OF c] r, of 0] fresh_verified [OF c] s st' show ?thesis by - (rule exI [of _ sw], simp)
qed

section \<open>Work conservation\<close>

text \<open>Peer \<open>q\<close> is busy, choked, or without any fresh piece to fetch, unless the swarm is full or done.\<close>

definition no_work :: "nat \<Rightarrow> swarm \<Rightarrow> bool" where
  "no_work q sw \<longleftrightarrow> st_is_complete (sw_storage sw) \<or> sw_max_busy sw \<le> busy sw \<or>
     (\<forall>ps. get_peer sw q = Some ps \<longrightarrow> ps_unchoked ps \<longrightarrow> ps_piece ps = None \<longrightarrow>
        (\<forall>i < num_pieces (sw_storage sw). \<not> eligible (st_have (sw_storage sw)) (usable ps) (set (sw_assigned sw)) i))"

lemma assign_effect:
  assumes "swarm_ok sw"
  shows "sw_picker (assign alive p sw) = sw_picker sw" "sw_max_busy (assign alive p sw) = sw_max_busy sw"
    "set (sw_assigned sw) \<subseteq> set (sw_assigned (assign alive p sw))" "q \<noteq> p \<Longrightarrow> get_peer (assign alive p sw) q = get_peer sw q"
    "busy sw \<le> busy (assign alive p sw)"
    "get_peer (assign alive p sw) p = Some ps \<Longrightarrow> ps_piece ps = None \<Longrightarrow> get_peer sw p = Some ps"
proof -
  show "sw_picker (assign alive p sw) = sw_picker sw" "sw_max_busy (assign alive p sw) = sw_max_busy sw"
    "set (sw_assigned sw) \<subseteq> set (sw_assigned (assign alive p sw))"
    by (auto simp: assign_def Let_def announce_endgame_def send_cmd_def split: option.splits prod.splits)
  have g: "get_peer (assign alive p sw) = get_peer sw \<or>
      (\<exists>ps i. get_peer sw p = Some ps \<and> ps_piece ps = None \<and> get_peer (assign alive p sw) = (get_peer sw)(p \<mapsto> ps\<lparr>ps_piece := Some i\<rparr>))"
    by (auto simp: assign_def Let_def announce_endgame_def send_cmd_def get_peer_def put_peer_def update_conv' split: option.splits prod.splits)
  then show "q \<noteq> p \<Longrightarrow> get_peer (assign alive p sw) q = get_peer sw q" by auto
  from g show "get_peer (assign alive p sw) p = Some ps \<Longrightarrow> ps_piece ps = None \<Longrightarrow> get_peer sw p = Some ps" by auto
  have "busy_set sw \<subseteq> busy_set (assign alive p sw)" using g by (auto simp: busy_set_def)
  moreover have "distinct (map fst (sw_peers sw))" "distinct (map fst (sw_peers (assign alive p sw)))"
    using assms assign_ok [OF assms, of alive p] by (simp_all add: swarm_ok_def tables_ok_def)
  ultimately show "busy sw \<le> busy (assign alive p sw)" by (simp add: busy_card card_mono)
qed

lemma eligible_mono: "ex \<subseteq> ex' \<Longrightarrow> eligible ours b ex' i \<Longrightarrow> eligible ours b ex i"
  by (auto simp: eligible_def)

lemma assign_no_work_keep:
  assumes "swarm_ok sw" "no_work q sw" "q \<noteq> p"
  shows "no_work q (assign alive p sw)"
  using assms(2) assign_effect(2,3,5) [OF assms(1), where alive = alive and p = p] assign_effect(4) [OF assms(1,3), of alive]
    eligible_mono [OF assign_effect(3) [OF assms(1), where alive = alive and p = p]]
  by (simp add: no_work_def) (metis le_trans)

lemma assign_no_work:
  assumes "swarm_ok sw" "alive p"
  shows "no_work p (assign alive p sw)"
proof (rule ccontr)
  assume "\<not> no_work p (assign alive p sw)"
  then obtain ps i where a: "\<not> st_is_complete (sw_storage sw)" "busy (assign alive p sw) < sw_max_busy sw"
    "get_peer (assign alive p sw) p = Some ps" "ps_unchoked ps" "ps_piece ps = None" "i < num_pieces (sw_storage sw)"
    "eligible (st_have (sw_storage sw)) (usable ps) (set (sw_assigned (assign alive p sw))) i"
    using assign_effect(2) [OF assms(1)] by (auto simp: no_work_def not_le)
  note e = assign_effect [OF assms(1), where alive = alive and p = p]
  have ps: "get_peer sw p = Some ps" using e(6) a(3,5) by blast
  have el: "eligible (st_have (sw_storage sw)) (usable ps) (set (sw_assigned sw)) i" using eligible_mono [OF e(3) a(7)] .
  have "length (availability (sw_picker sw)) = num_pieces (sw_storage sw)" using assms(1) by (simp add: swarm_ok_def tables_ok_def)
  then obtain k where k: "pick (sw_picker sw) (st_have (sw_storage sw)) (usable ps) (set (sw_assigned sw)) = Some k"
    using pick_cases [of "sw_picker sw" "st_have (sw_storage sw)" "usable ps" "set (sw_assigned sw)"] el a(6)
    by (auto split: option.splits)
  have room: "\<not> sw_max_busy sw \<le> busy sw" using a(2) e(5) by linarith
  have "get_peer (assign alive p sw) p = Some (ps\<lparr>ps_piece := Some k\<rparr>)"
    using a(1,4,5) room ps k assms(2)
    by (simp add: assign_def choose_piece_def Let_def announce_endgame_def send_cmd_def get_peer_def put_peer_def update_conv')
  with a(3) have "ps = ps\<lparr>ps_piece := Some k\<rparr>" by simp
  then have "ps_piece ps = Some k" by (metis peer_state.select_convs(2) peer_state.surjective peer_state.update_convs(2))
  with a(5) show False by simp
qed

lemma assign_all_no_work:
  assumes "swarm_ok sw" "\<forall>p. alive p" "\<forall>q \<in> A. no_work q sw"
  shows "\<forall>q \<in> A \<union> set ids. no_work q (fold (assign alive) ids sw)"
  using assms(1,3)
proof (induction ids arbitrary: sw A)
  case (Cons p ids)
  have "\<forall>q \<in> insert p A. no_work q (assign alive p sw)"
  proof
    fix q assume "q \<in> insert p A"
    then show "no_work q (assign alive p sw)"
      using assign_no_work [OF Cons.prems(1), of alive p] assign_no_work_keep [OF Cons.prems(1), of q p alive] Cons.prems(2) assms(2)
      by (cases "q = p") auto
  qed
  from Cons.IH [OF assign_ok [OF Cons.prems(1)] this] show ?case by simp
qed simp

lemma assign_all_idle:
  assumes "swarm_ok sw" "get_peer (fold (assign alive) ids sw) q = Some ps" "ps_piece ps = None"
  shows "get_peer sw q = Some ps"
  using assms(1,2)
proof (induction ids arbitrary: sw)
  case (Cons p ids)
  then have "get_peer (assign alive p sw) q = Some ps" using assign_ok by simp
  then show ?case using assign_effect(4,6) [OF Cons.prems(1)] assms(3) by metis
qed simp

lemma assign_idle_no_work:
  assumes "swarm_ok sw" "\<forall>p. alive p"
  shows "no_work q (assign_idle alive sw)"
proof (cases "q \<in> set (idle_ids sw)")
  case True
  then show ?thesis using assign_all_no_work [OF assms, of "{}"] by (simp add: assign_idle_def)
next
  case False
  have "\<not> (ps_unchoked ps \<and> ps_piece ps = None)" if "get_peer (assign_idle alive sw) q = Some ps" for ps
  proof
    assume i: "ps_unchoked ps \<and> ps_piece ps = None"
    then have "get_peer sw q = Some ps" using assign_all_idle [OF assms(1)] that by (simp add: assign_idle_def)
    then have "(q, ps) \<in> set (sw_peers sw)" by (simp add: get_peer_def map_of_SomeD)
    with i False show False by (force simp: idle_ids_def)
  qed
  then show ?thesis by (auto simp: no_work_def)
qed

text \<open>The events after which a piece or a slot may have become free.\<close>

fun frees :: "to_engine \<Rightarrow> bool" where
  "frees (PieceDone p i dat) \<longleftrightarrow> True"
| "frees (Released p i) \<longleftrightarrow> True"
| "frees (Gone p) \<longleftrightarrow> True"
| "frees _ \<longleftrightarrow> False"

lemma handle_frees_shape:
  assumes "swarm_ok sw" "frees ev" "handle sha1 alive now ev sw = (sw', Ok ())"
  shows "\<exists>sw1. swarm_ok sw1 \<and> sw' = assign_idle alive sw1"
proof (cases ev)
  case (PieceDone p i dat)
  define sw1 where "sw1 = clear_piece now p i sw"
  have ok1: "swarm_ok sw1" using assms(1) by (simp add: sw1_def clear_piece_ok)
  have idle: "get_peer sw1 p = Some ps \<Longrightarrow> ps_piece ps \<noteq> Some i" for ps unfolding sw1_def by (rule clear_piece_idle)
  obtain st r where w: "write_piece sha1 (sw_storage sw1) i dat = (st, r)" by (metis surj_pair)
  have good: "swarm_ok (touch now (sw1\<lparr>sw_storage := st, sw_assigned := removeAll i (sw_assigned sw1)\<rparr>))" if "r = Ok True"
    using stored_ok [OF ok1] w that by simp
  have bad: "swarm_ok (strike alive p i (sw1\<lparr>sw_storage := st\<rparr>))" if "r = Ok False"
    using unchanged_store_ok [OF ok1] write_piece_have [OF w] idle that by (intro strike_ok) (simp_all add: get_peer_def)
  consider "st_has (sw_storage sw1) i" | "\<not> st_has (sw_storage sw1) i" "r = Ok True" | "\<not> st_has (sw_storage sw1) i" "r = Ok False"
    using assms(3) PieceDone w by (cases r) (auto simp: handle_def Let_def sw1_def [symmetric] simp del: keep_storage split: bool.splits if_splits)
  then show ?thesis
    using assms(3) PieceDone w ok1 good bad assign_ok by cases (auto simp: handle_def Let_def sw1_def [symmetric] simp del: keep_storage swarm_ok_touch)
next
  case (Released p i)
  then have "sw' = assign_idle alive (clear_piece now p i sw) \<or> (\<exists>ps. get_peer (clear_piece now p i sw) p = Some ps \<and>
      sw' = assign_idle alive (put_peer p (ps\<lparr>ps_unchoked := False\<rparr>) (clear_piece now p i sw)))"
    using assms(3) by (auto simp: handle_def Let_def split: option.splits)
  then show ?thesis using clear_piece_ok [OF assms(1), of now p i] flags_ok by blast
next
  case (Gone p)
  then have "sw' = assign_idle alive (forget_peer p sw)" using assms(3) by (simp add: handle_def gone_def)
  then show ?thesis using forget_peer_ok [OF assms(1)] by blast
qed (use assms in auto)



end
