(* ===== verification/Spec2Isabelle.thy ===== *)
theory Spec2Isabelle
  imports H2_Blocks Http1_Agree Cookie_File Ws_Open Tftp_Props Ldap_Props Url_Props Bencode_Props Bt_Swarm_Props
begin

text \<open>
  \<^bold>\<open>Verification of rsurl\<close>, a curl-like transfer library and command line tool in Rust (\<open>src/src\<close>).

  A transfer starts from a URL (\<open>url.rs\<close>), which selects a protocol engine. The engines the development covers
  are HTTP/1.1 (\<open>http.rs\<close>, \<open>proto/http1.rs\<close>: reading responses), HTTP/2 (\<open>http2.rs\<close>: frames, flow control, HPACK, streams, one connection multiplexing many requests),
  WebSocket (\<open>websocket.rs\<close>), TFTP (\<open>tftp.rs\<close>), LDAP (\<open>ldap.rs\<close>) and
  BitTorrent (\<open>bittorrent/\<close>: bencode, piece maps, storage on disk, the peer protocol and the swarm scheduler).

  \<^bold>\<open>Conventions.\<close> A Rust \<open>struct\<close> is a record, an \<open>enum\<close> a datatype, \<open>Result\<close> the sum type \<open>result\<close> with the error
  constructors of \<open>error.rs\<close>. \<open>&mut self\<close> methods take and return the state, also on the error path. Machine
  integers are words where the code can wrap or masks bits, and natural numbers or integers where the lemmas
  show that the code's arithmetic stays in range. Readers consume a byte list and return the rest; writers return
  the bytes. All loops are total functions with termination proofs; no fuel is used.

  \<^bold>\<open>Shared theories.\<close> \<open>Rsurl_Prelude\<close> (errors, results, bytes, UTF-8, big-endian integers, searching) and \<open>Rust_Str\<close> (the
  string operations of the standard library that the sources use). \<open>Codec\<close> holds the locale \<open>stream_codec\<close>: a reader
  that inverts a writer and leaves the rest of the stream. It is interpreted on HTTP/2 frames, bencode values,
  BitTorrent handshakes and messages, and gives the round trips of whole conversations.

  \<^bold>\<open>HTTP/2\<close> (\<open>http2.rs\<close>).
  \<^item> \<open>H2_Frame\<close>: \<open>read_frame\<close>, \<open>write_frame\<close>, header-block fragmentation. Frame sequences round-trip; fragmentation keeps the
    block and puts END_HEADERS and END_STREAM on the right frames.
  \<^item> \<open>H2_Flow\<close>: SETTINGS, the four windows (locales \<open>send_window\<close>, \<open>recv_window\<close>), the flood budget. Settings stay in their
    ranges, windows account exactly for grants and bytes, a hostile peer's control frames are bounded.
  \<^item> \<open>Hpack_Int\<close>, \<open>Hpack_Tables\<close>, \<open>Hpack_Huffman\<close>, \<open>Hpack_Dyn\<close>, \<open>Hpack_Codec\<close>: integers, the static table and the Huffman code with
    its canonical index, the Huffman codec, the dynamic tables of encoder and decoder (locale \<open>dyn_table\<close>), header
    blocks. Encoder and decoder tables stay synchronised over a whole session, every block decodes to its fields,
    the Huffman decoder is exactly the inverse of the encoder, and decoding arbitrary input keeps the memory bounds.
  \<^item> \<open>H2_Stream\<close>, \<open>H2_Conn\<close>: stream life cycle, validation of response fields, opening streams, every inbound frame handler
    up to \<open>process_frame\<close>. \<open>H2_Inv\<close> proves the connection invariant for every handler and every input; \<open>H2_Props\<close> derives
    the resource bounds, completeness of a reported response, monotone life cycle and GOAWAY.
  \<^item> \<open>H2_Send\<close>: request header fields, staging and the non-blocking body pump. What is written respects both windows, and a
    body that fits is sent completely, once and in order.
  \<^item> \<open>H2_Blocks\<close>: header blocks from end to end. However a server splits the block of a response over HEADERS and CONTINUATION frames, the
    result is that of one frame; a request with valid headers is read by the server as its pseudo-headers followed by the kept headers.

  \<^bold>\<open>HTTP/1.1\<close> (\<open>http.rs\<close>, \<open>proto/http1.rs\<close>).
  \<^item> \<open>Http1_Head\<close>: status lines, header lines, \<open>Content-Length\<close>, the decision how a body is framed, chunk sizes.
  \<^item> \<open>Http1\<close>: the incremental exchange of \<open>proto/http1.rs\<close>, a machine that is fed bytes and emits the response. \<open>Http1_Props\<close> shows that
    what a buffered exchange accepts in pieces it accepts at once with the same result, that a reported body has the announced
    framing, and that the loops end; \<open>Http1_Chunked\<close> that the chunked decoder is exact for the grammar of chunked bodies.
  \<^item> \<open>Http1_Legacy\<close>: the blocking reader of \<open>http.rs\<close>. \<open>Http1_Agree\<close> compares it with the exchange: they agree on chunked bodies, and
    differ on three kinds of input, given explicitly.

  \<^bold>\<open>Cookies\<close> (\<open>cookie.rs\<close>). \<open>Cookie\<close> models matching, \<open>Set-Cookie\<close>, the jar, the \<open>Cookie\<close> header and the Netscape file; \<open>Cookie_Date\<close> the
  date parser, whose arithmetic is shown to count the days of the calendar. \<open>Cookie_Jar\<close>: the jar is a map (locale
  \<open>keyed_list\<close>) and an insecure origin cannot touch Secure cookies. \<open>Cookie_Scope\<close>: a cookie is sent only within the scope its
  server may claim, goes back to its origin, and the header is clean and ordered. \<open>Cookie_File\<close>: what is saved is loaded
  again, session cookies included. The public suffix list is an arbitrary function, the clock an argument.

  \<^bold>\<open>WebSocket\<close> (\<open>websocket.rs\<close>). \<open>Ws_Frame\<close>: the frame parser, shown exact for the format, client frames and close payloads. \<open>Ws\<close>: the
  connection, with the results of \<open>read\<close> and the random masks as inputs of its state; the event loop, \<open>recv\<close>, the one-shot
  \<open>read_message\<close>, and every send operation. \<open>Ws_Props\<close>: a message is reassembled however it is cut and interleaved; \<open>Ws_Readers\<close>: the two readers
  agree on every input; \<open>Ws_Close\<close>: at most one close frame, in every reachable state; \<open>Ws_Stream\<close>: a streamed message arrives whole.
  \<open>Base64\<close> holds the base64 codecs of the crate; \<open>Ws_Handshake\<close> the opening handshake, with SHA-1 as a parameter. \<open>Ws_Upgrade\<close>: the response check and
  the negotiation of compression accept exactly what the RFCs allow; \<open>Ws_Open\<close>: nothing can be injected into the request, and with a conforming
  server the handshake completes.
  The permessage-deflate inflater and compressor are parameters of these theories.

  \<^bold>\<open>TFTP\<close> (\<open>tftp.rs\<close>). \<open>Tftp\<close>: packets, and the download and upload loops as machines over the events of the UDP socket. \<open>Tftp_Props\<close>: against
  a server of one file, whatever the network loses, repeats or delays, a finished download is the file and a finished upload sent all of it;
  with at most three time-outs per block the download finishes.

  \<^bold>\<open>LDAP\<close> (\<open>ldap.rs\<close>). \<open>Ldap_Ber\<close>: lengths, TLVs and integers, read back as written. \<open>Ldap_Filter\<close>: the parser and the encoder of search filters;
  \<open>Ldap_Filter_Props\<close>: the parser accepts exactly the well-formed filters and reads escaped values back; \<open>Ldap_Filter_Wire\<close>: the encoding is unambiguous.
  \<open>Ldap\<close>: URL queries, requests, responses, LDIF and the exchange. \<open>Ldap_Props\<close>: requests are unambiguous, a search returns exactly the entries of the server,
  and LDIF output cannot be forged. \<open>Url_Text\<close> holds the percent-decoding to text that LDAP and TFTP share.

  \<^bold>\<open>URLs\<close> (\<open>url.rs\<close>): \<open>Url\<close> models the parser, redirect resolution, dot segments, literals and percent codecs; \<open>Url_Props\<close> shows
  what an accepted URL guarantees, that dot-segment removal is the algorithm of RFC 3986, and that a
  relative redirect keeps the origin, except for the ambiguous host that the parser accepts.

  \<^bold>\<open>BitTorrent\<close> (\<open>bittorrent/\<close>).
  \<^item> \<open>Bencode\<close>, \<open>Bencode_Props\<close> (\<open>bencode.rs\<close>): parser, skipper, encoder. Round trip; the accepted inputs are exactly the documents
    of a grammar, canonical up to the order of dictionary entries; the skipper agrees with the parser everywhere.
  \<^item> \<open>Bt_Piece\<close> (\<open>picker.rs\<close>): the bit-packed piece map refines a set (locale \<open>piece_set\<close>); the picker is rarest-first.
  \<^item> \<open>Bt_Storage\<close> (\<open>storage.rs\<close>): layout of pieces over files, verified writes, recheck, block reads. Every piece marked as
    held is on disk with its hash. SHA-1 is an arbitrary function.
  \<^item> \<open>Bt_Peer\<close> (\<open>peer.rs\<close>): handshake and messages; conversations round-trip.
  \<^item> \<open>Bt_Job\<close> (\<open>Job\<close> of \<open>engine.rs\<close>): fetching one piece. The request window never stalls and the assembled piece is the content.
  \<^item> \<open>Bt_Swarm\<close>, \<open>Bt_Swarm_Inv\<close>, \<open>Bt_Swarm_Props\<close> (\<open>Swarm\<close> of \<open>engine.rs\<close>): the scheduler as a state machine over worker events. In every
    reachable state the books are right, the pieces a run fetches are genuine on every kind of store (on a full store that was verified at the
    start the finished download reads back with its hashes), and idle peers get work when there is any.

  \<^bold>\<open>Not modelled.\<close> The socket, thread and clock driven loops around these machines (connection pool, blocking drivers,
  \<open>run\<close> and \<open>run_peer\<close>), the request side of HTTP/1 and HTTP/3, the metainfo and magnet parsers, MQTT,
  the line protocols, TLS and SSH (which wrap external crates), the command line and the C bindings. Error messages
  keep their fixed text without the interpolated values. Writing to the transport is taken to succeed: in the source
  a write error ends the connection or the worker.
\<close>

end
